(* ===== verification/Domovoi_Prelude.thy ===== *)
theory Domovoi_Prelude
  imports Main "HOL-Library.Word" "HOL-Library.Char_ord" "HOL-Library.List_Lexorder"
begin

text \<open>
  Shared ground of the development: JavaScript strings as lists of UTF-16 code units, results
  that are either a thrown error or a value, the \<open>slice\<close> and \<open>trim\<close> calls the daemon uses, the
  insertion-ordered \<open>Map\<close> as an association list with the laws its clients rely on, and the
  generic list lemmas of the component theories.

  Identifiers, digests and file names, which the daemon's schemas restrict to ASCII, are of
  type \<^typ>\<open>string\<close>; text a person or a program wrote is a \<open>js_string\<close>.
\<close>

named_theorems result_simps \<open>unfolding of sequenced results\<close>
named_theorems jsmap_simps \<open>reading an insertion-ordered map after an update\<close>

section \<open>Strings\<close>

type_synonym js_char = "16 word"
type_synonym js_string = "js_char list"

definition js :: "string \<Rightarrow> js_string" where
  "js s = map (\<lambda>c. word_of_nat (of_char c)) s"

text \<open>\<open>String.prototype.trim\<close> removes WhiteSpace and LineTerminator code units at both ends.\<close>

definition js_whitespace :: "js_char \<Rightarrow> bool" where
  "js_whitespace c \<longleftrightarrow>
     (let n = unat c in n \<in> {9, 10, 11, 12, 13, 32, 160, 5760, 8232, 8233, 8239, 8287, 12288, 65279}
        \<or> (8192 \<le> n \<and> n \<le> 8202))"

definition js_trim :: "js_string \<Rightarrow> js_string" where
  "js_trim s = rev (dropWhile js_whitespace (rev (dropWhile js_whitespace s)))"

definition high_surrogate :: "js_char \<Rightarrow> bool" where
  "high_surrogate c \<longleftrightarrow> 55296 \<le> unat c \<and> unat c \<le> 56319"

definition low_surrogate :: "js_char \<Rightarrow> bool" where
  "low_surrogate c \<longleftrightarrow> 56320 \<le> unat c \<and> unat c \<le> 57343"

text \<open>\<open>Buffer.from(text, "utf8")\<close>: a lone surrogate becomes the replacement character.\<close>

definition utf8_point :: "nat \<Rightarrow> 8 word list" where
  "utf8_point p =
     (if p < 128 then [word_of_nat p]
      else if p < 2048 then [word_of_nat (192 + p div 64), word_of_nat (128 + p mod 64)]
      else if p < 65536 then [word_of_nat (224 + p div 4096), word_of_nat (128 + p div 64 mod 64), word_of_nat (128 + p mod 64)]
      else [word_of_nat (240 + p div 262144), word_of_nat (128 + p div 4096 mod 64), word_of_nat (128 + p div 64 mod 64),
            word_of_nat (128 + p mod 64)])"

fun utf8 :: "js_string \<Rightarrow> 8 word list" where
  "utf8 [] = []"
| "utf8 [c] = (if high_surrogate c \<or> low_surrogate c then [239, 191, 189] else utf8_point (unat c))"
| "utf8 (c # d # s) =
     (if high_surrogate c \<and> low_surrogate d
      then utf8_point (65536 + (unat c - 55296) * 1024 + (unat d - 56320)) @ utf8 s
      else (if high_surrogate c \<or> low_surrogate c then [239, 191, 189] else utf8_point (unat c)) @ utf8 (d # s))"

text \<open>\<open>xs.slice(-n)\<close>: the last \<open>n\<close> items, but \<open>slice(-0)\<close> is \<open>slice(0)\<close>, the whole list.\<close>

definition slice_last :: "nat \<Rightarrow> 'a list \<Rightarrow> 'a list" where
  "slice_last n xs = (if n = 0 then xs else drop (length xs - n) xs)"

lemma length_slice_last: "0 < n \<Longrightarrow> length (slice_last n xs) = min n (length xs)"
  by (simp add: slice_last_def)

lemma slice_last_all: "length xs \<le> n \<Longrightarrow> slice_last n xs = xs"
  by (simp add: slice_last_def)

lemma slice_last_append:
  assumes "0 < n" and "n \<le> length ys"
  shows "slice_last n (xs @ ys) = slice_last n ys"
  using assms by (simp add: slice_last_def)

lemma slice_last_map: "slice_last n (map f xs) = map f (slice_last n xs)"
  by (simp add: slice_last_def drop_map)

lemma js_trim_Nil [simp]: "js_trim [] = []"
  by (simp add: js_trim_def)

lemma dropWhile_last_kept:
  assumes "dropWhile P xs \<noteq> []"
  shows "last (dropWhile P xs) = last xs"
proof -
  have "xs = takeWhile P xs @ dropWhile P xs" by simp
  then show ?thesis using assms by (metis last_appendR)
qed

lemma length_js_trim_le: "length (js_trim s) \<le> length s"
  unfolding js_trim_def by (metis length_dropWhile_le length_rev order_trans)

lemma js_trim_hd_last:
  assumes "js_trim s \<noteq> []"
  shows "\<not> js_whitespace (hd (js_trim s)) \<and> \<not> js_whitespace (last (js_trim s))"
proof
  let ?r = "dropWhile js_whitespace (rev (dropWhile js_whitespace s))"
  have ne: "?r \<noteq> []" using assms by (simp add: js_trim_def)
  have d: "dropWhile js_whitespace s \<noteq> []" using ne by (metis dropWhile.simps(1) rev.simps(1))
  have "hd (js_trim s) = last ?r" using ne by (simp add: js_trim_def hd_rev)
  also have "\<dots> = last (rev (dropWhile js_whitespace s))" by (rule dropWhile_last_kept [OF ne])
  also have "\<dots> = hd (dropWhile js_whitespace s)" using d by (simp add: last_rev)
  finally show "\<not> js_whitespace (hd (js_trim s))" using hd_dropWhile [OF d] by simp
  have "last (js_trim s) = hd ?r" using ne by (simp add: js_trim_def last_rev)
  then show "\<not> js_whitespace (last (js_trim s))" using hd_dropWhile [OF ne] by simp
qed

lemma dropWhile_hd_id: "xs = [] \<or> \<not> P (hd xs) \<Longrightarrow> dropWhile P xs = xs"
  by (cases xs) auto

lemma js_trim_id:
  assumes "s = [] \<or> (\<not> js_whitespace (hd s) \<and> \<not> js_whitespace (last s))"
  shows "js_trim s = s"
proof -
  have 1: "dropWhile js_whitespace s = s" using assms by (intro dropWhile_hd_id) auto
  have 2: "dropWhile js_whitespace (rev s) = rev s"
    using assms by (intro dropWhile_hd_id) (auto simp: hd_rev)
  show ?thesis by (simp add: js_trim_def 1 2)
qed

lemma js_trim_idem [simp]: "js_trim (js_trim s) = js_trim s"
  using js_trim_hd_last by (intro js_trim_id) auto

section \<open>Results: a thrown error or a value\<close>

fun rbind :: "'e + 'a \<Rightarrow> ('a \<Rightarrow> 'e + 'b) \<Rightarrow> 'e + 'b" where
  "rbind (Inl e) f = Inl e"
| "rbind (Inr a) f = f a"

definition throw_if :: "bool \<Rightarrow> 'e \<Rightarrow> 'e + unit" where
  "throw_if b e = (if b then Inl e else Inr ())"

lemma rbind_Inr_iff [result_simps]: "rbind m f = Inr b \<longleftrightarrow> (\<exists>a. m = Inr a \<and> f a = Inr b)"
  by (cases m) auto

lemma rbind_Inl_iff [result_simps]: "rbind m f = Inl e \<longleftrightarrow> m = Inl e \<or> (\<exists>a. m = Inr a \<and> f a = Inl e)"
  by (cases m) auto

lemma throw_if_Inr_iff [result_simps, simp]: "throw_if b e = Inr u \<longleftrightarrow> \<not> b"
  by (simp add: throw_if_def)

lemma throw_if_Inl_iff [result_simps, simp]: "throw_if b e = Inl e' \<longleftrightarrow> b \<and> e' = e"
  by (auto simp: throw_if_def)

text \<open>Reading a computed result back as the equation a lemma asks for.\<close>

lemma pair_InrI: "\<not> isl (snd x) \<Longrightarrow> x = (fst x, Inr (projr (snd x)))"
  by (cases x) (auto simp: isl_def split: sum.splits)

lemma Inr_SomeI: "\<not> isl x \<Longrightarrow> projr x \<noteq> None \<Longrightarrow> x = Inr (Some (the (projr x)))"
  by (cases x) auto

section \<open>The insertion-ordered Map\<close>

text \<open>
  \<open>Map.get\<close> is \<^const>\<open>map_of\<close>; \<open>Map.set\<close> overwrites in place or appends; \<open>Map.delete\<close>
  removes. A map built by these calls never holds a key twice.
\<close>

type_synonym ('k, 'v) jsmap = "('k \<times> 'v) list"

fun jm_set :: "'k \<Rightarrow> 'v \<Rightarrow> ('k, 'v) jsmap \<Rightarrow> ('k, 'v) jsmap" where
  "jm_set k v [] = [(k, v)]"
| "jm_set k v ((a, b) # m) = (if a = k then (k, v) # m else (a, b) # jm_set k v m)"

definition jm_delete :: "'k \<Rightarrow> ('k, 'v) jsmap \<Rightarrow> ('k, 'v) jsmap" where
  "jm_delete k m = filter (\<lambda>p. fst p \<noteq> k) m"

definition jm_ok :: "('k, 'v) jsmap \<Rightarrow> bool" where
  "jm_ok m \<longleftrightarrow> distinct (map fst m)"

locale keyed_store =
  fixes empty :: 'm
    and get :: "'m \<Rightarrow> 'k \<Rightarrow> 'v option"
    and set :: "'k \<Rightarrow> 'v \<Rightarrow> 'm \<Rightarrow> 'm"
    and delete :: "'k \<Rightarrow> 'm \<Rightarrow> 'm"
    and ok :: "'m \<Rightarrow> bool"
  assumes get_empty: "get empty k = None"
    and get_set: "get (set k v m) k' = (if k' = k then Some v else get m k')"
    and get_delete: "get (delete k m) k' = (if k' = k then None else get m k')"
    and ok_empty: "ok empty"
    and ok_set: "ok m \<Longrightarrow> ok (set k v m)"
    and ok_delete: "ok m \<Longrightarrow> ok (delete k m)"
begin

lemma set_set_get: "get (set k v (set k w m)) = get (set k v m)"
  by (auto simp: get_set)

lemma set_commute_get: "k \<noteq> l \<Longrightarrow> get (set k v (set l w m)) = get (set l w (set k v m))"
  by (auto simp: get_set)

lemma delete_set_get: "get (delete k (set k v m)) = get (delete k m)"
  by (auto simp: get_set get_delete)

end

lemma map_of_jm_set [jsmap_simps]: "map_of (jm_set k v m) k' = (if k' = k then Some v else map_of m k')"
  by (induction m) auto

lemma map_of_jm_delete [jsmap_simps]: "map_of (jm_delete k m) k' = (if k' = k then None else map_of m k')"
  by (induction m) (auto simp: jm_delete_def)

lemma fst_set_jm_set [simp]: "fst ` set (jm_set k v m) = insert k (fst ` set m)"
  by (induction k v m rule: jm_set.induct) auto

lemma jm_ok_set [simp]: "jm_ok m \<Longrightarrow> jm_ok (jm_set k v m)"
  by (induction k v m rule: jm_set.induct) (auto simp: jm_ok_def)

lemma jm_ok_delete [simp]: "jm_ok m \<Longrightarrow> jm_ok (jm_delete k m)"
  unfolding jm_ok_def jm_delete_def
  by (metis distinct_map_filter)

interpretation jsm: keyed_store "[]" map_of jm_set jm_delete jm_ok
  by unfold_locales (auto simp: jsmap_simps jm_ok_def [of "[]"])

section \<open>Machines: invariants and stable facts of a run\<close>

text \<open>
  A component whose operations are a step function: what every step keeps, every run keeps.
\<close>

locale machine_invariant =
  fixes step :: "'op \<Rightarrow> 's \<Rightarrow> 's"
    and inv :: "'s \<Rightarrow> bool"
  assumes inv_step: "inv s \<Longrightarrow> inv (step op s)"
begin

lemma inv_run: "inv s \<Longrightarrow> inv (fold step ops s)"
  by (induction ops arbitrary: s) (simp_all add: inv_step)

end

text \<open>A fact that, once it holds in a state that satisfies the invariant, no step undoes.\<close>

locale machine_stable = machine_invariant +
  fixes stable :: "'s \<Rightarrow> bool"
  assumes stable_step: "inv s \<Longrightarrow> stable s \<Longrightarrow> stable (step op s)"
begin

lemma stable_run: "inv s \<Longrightarrow> stable s \<Longrightarrow> stable (fold step ops s)"
  by (induction ops arbitrary: s) (simp_all add: inv_step stable_step)

end

section \<open>Lists\<close>

lemma sum_list_map_concat: "length (concat xss) = sum_list (map length xss)"
  by (induction xss) auto

lemma find_Some_in_set: "find P xs = Some x \<Longrightarrow> x \<in> set xs \<and> P x"
  by (auto simp: find_Some_iff)

lemma find_None_all: "find P xs = None \<longleftrightarrow> (\<forall>x\<in>set xs. \<not> P x)"
  by (auto simp: find_None_iff)

lemma find_unique: "x \<in> set xs \<Longrightarrow> P x \<Longrightarrow> (\<And>y. y \<in> set xs \<Longrightarrow> P y \<Longrightarrow> y = x) \<Longrightarrow> find P xs = Some x"
  by (cases "find P xs") (blast dest: find_None_all [THEN iffD1] find_Some_in_set, metis find_Some_in_set)

end
