(* ===== verification/Terminal_Replay.thy ===== *)
theory Terminal_Replay
  imports Domovoi_Prelude
begin

text \<open>
  The terminal replay buffer (apps/daemon/src/terminal-replay.ts): the daemon keeps the last
  \<open>capacity\<close> code units a terminal printed, in segments with the time each was pushed, so a
  client that joins late can be shown them. The state is the class's private fields, \<open>push\<close>,
  \<open>read\<close> and \<open>record\<close> its methods; the clock is an argument of \<open>push\<close>. The buffer is shown to
  implement an unbounded history of timed code units of which only the last \<open>capacity\<close> are shown.
\<close>

record replay_buffer =
  capacity :: nat
  segments :: "js_string list"
  segment_times :: "int list"
  held :: int
  dropped :: bool

record replay_record =
  rec_text :: js_string
  rec_starts_at :: "int option"
  rec_dropped :: bool

definition new_replay :: "nat \<Rightarrow> replay_buffer" where
  "new_replay cap = \<lparr>capacity = cap, segments = [], segment_times = [], held = 0, dropped = False\<rparr>"

text \<open>The \<open>while\<close> loop of \<open>push\<close>: whole segments leave from the front.\<close>

fun drop_segments ::
  "nat \<Rightarrow> js_string list \<Rightarrow> int list \<Rightarrow> int \<Rightarrow> bool \<Rightarrow> js_string list \<times> int list \<times> int \<times> bool" where
  "drop_segments cap (s # s' # ss) ts h d =
     (if h - int (length s) \<ge> int cap
      then drop_segments cap (s' # ss) (tl ts) (h - int (length s)) True
      else (s # s' # ss, ts, h, d))"
| "drop_segments cap ss ts h d = (ss, ts, h, d)"

definition replay_push :: "int \<Rightarrow> js_string \<Rightarrow> replay_buffer \<Rightarrow> replay_buffer" where
  "replay_push at text b =
     (if text = [] then b
      else if length text \<ge> capacity b then
        b\<lparr>dropped := (if held b > 0 \<or> length text > capacity b then True else dropped b),
          segments := [slice_last (capacity b) text],
          segment_times := [at],
          held := int (capacity b)\<rparr>
      else
        (case drop_segments (capacity b) (segments b @ [text]) (segment_times b @ [at])
                (held b + int (length text)) (dropped b) of
           (ss, ts, h, d) \<Rightarrow> b\<lparr>segments := ss, segment_times := ts, held := h, dropped := d\<rparr>))"

definition replay_read :: "replay_buffer \<Rightarrow> js_string" where
  "replay_read b = slice_last (capacity b) (concat (segments b))"

definition replay_record_of :: "replay_buffer \<Rightarrow> replay_record" where
  "replay_record_of b =
     \<lparr>rec_text = replay_read b,
      rec_starts_at = (case segment_times b of [] \<Rightarrow> None | t # _ \<Rightarrow> Some t),
      rec_dropped = (dropped b \<or> held b > int (capacity b))\<rparr>"

section \<open>What the buffer promises\<close>

text \<open>The abstract state is every code unit printed so far, each with its time.\<close>

type_synonym timed_history = "(js_char \<times> int) list"

definition stamp :: "int \<Rightarrow> js_string \<Rightarrow> timed_history" where
  "stamp at text = map (\<lambda>c. (c, at)) text"

definition spec_record :: "nat \<Rightarrow> timed_history \<Rightarrow> replay_record" where
  "spec_record cap h =
     \<lparr>rec_text = map fst (slice_last cap h),
      rec_starts_at = (case slice_last cap h of [] \<Rightarrow> None | (c, t) # _ \<Rightarrow> Some t),
      rec_dropped = (length h > cap)\<rparr>"

fun replay_pushes :: "(int \<times> js_string) list \<Rightarrow> replay_buffer \<Rightarrow> replay_buffer" where
  "replay_pushes [] b = b"
| "replay_pushes ((at, text) # ps) b = replay_pushes ps (replay_push at text b)"

definition history_of :: "(int \<times> js_string) list \<Rightarrow> timed_history" where
  "history_of ps = concat (map (\<lambda>(at, text). stamp at text) ps)"

section \<open>The representation invariant\<close>

definition timed_segments :: "js_string list \<Rightarrow> int list \<Rightarrow> timed_history" where
  "timed_segments ss ts = concat (map2 (\<lambda>s t. stamp t s) ss ts)"

definition kept_ok :: "nat \<Rightarrow> js_string list \<Rightarrow> int list \<Rightarrow> int \<Rightarrow> bool \<Rightarrow> timed_history \<Rightarrow> bool" where
  "kept_ok cap ss ts h d hist \<longleftrightarrow>
     length ts = length ss \<and> (\<forall>s\<in>set ss. s \<noteq> [] \<and> length s \<le> cap) \<and>
     h = int (length (concat ss)) \<and>
     (\<exists>gone. hist = gone @ timed_segments ss ts \<and> (d \<longleftrightarrow> gone \<noteq> []) \<and>
        (gone \<noteq> [] \<longrightarrow> cap \<le> length (concat ss)))"

definition replay_rep :: "replay_buffer \<Rightarrow> timed_history \<Rightarrow> bool" where
  "replay_rep b hist \<longleftrightarrow> 0 < capacity b \<and>
     kept_ok (capacity b) (segments b) (segment_times b) (held b) (dropped b) hist \<and>
     (segments b \<noteq> [] \<longrightarrow> held b - int (length (hd (segments b))) < int (capacity b))"

lemma stamp_simps [simp]: "length (stamp t s) = length s" "map fst (stamp t s) = s" "stamp t [] = []"
  by (auto simp: stamp_def comp_def)

lemma stamp_eq_Nil [simp]: "stamp t s = [] \<longleftrightarrow> s = []"
  by (simp add: stamp_def)

lemma timed_segments_Cons [simp]: "timed_segments (s # ss) (t # ts) = stamp t s @ timed_segments ss ts"
  by (simp add: timed_segments_def)

lemma timed_segments_Nil [simp]: "timed_segments [] ts = []"
  by (simp add: timed_segments_def)

lemma timed_segments_snoc:
  "length ts = length ss \<Longrightarrow> timed_segments (ss @ [s]) (ts @ [t]) = timed_segments ss ts @ stamp t s"
  by (simp add: timed_segments_def)

lemma timed_segments_text:
  "length ts = length ss \<Longrightarrow> map fst (timed_segments ss ts) = concat ss"
  by (induction ss ts rule: list_induct2') auto

lemma length_timed_segments:
  "length ts = length ss \<Longrightarrow> length (timed_segments ss ts) = length (concat ss)"
  using timed_segments_text [of ts ss] by (metis length_map)

lemma drop_segments_kept:
  assumes "kept_ok cap ss ts h d hist" and "drop_segments cap ss ts h d = (ss', ts', h', d')"
  shows "kept_ok cap ss' ts' h' d' hist \<and> (ss \<noteq> [] \<longrightarrow> ss' \<noteq> []) \<and>
    (length ss' \<ge> 2 \<longrightarrow> h' - int (length (hd ss')) < int cap)"
  using assms
proof (induction cap ss ts h d rule: drop_segments.induct)
  case (1 cap s s' ss ts h d)
  show ?case
  proof (cases "h - int (length s) \<ge> int cap")
    case True
    obtain t ts1 where ts: "ts = t # ts1" using "1.prems"(1) by (cases ts) (auto simp: kept_ok_def)
    from "1.prems"(1) obtain gone where
      g: "hist = gone @ timed_segments (s # s' # ss) ts" and "s \<noteq> []"
      and h: "h = int (length (concat (s # s' # ss)))" and len: "length ts = length (s # s' # ss)"
      and ne: "\<forall>x\<in>set (s # s' # ss). x \<noteq> [] \<and> length x \<le> cap" by (auto simp: kept_ok_def)
    have "hist = (gone @ stamp t s) @ timed_segments (s' # ss) ts1" using g ts by simp
    then have "kept_ok cap (s' # ss) (tl ts) (h - int (length s)) True hist"
      unfolding kept_ok_def using ts h len ne True \<open>s \<noteq> []\<close>
      by (intro conjI exI [of _ "gone @ stamp t s"]) auto
    with "1.IH" [OF True] "1.prems"(2) True show ?thesis by simp
  next
    case False
    with "1.prems" show ?thesis by auto
  qed
qed auto

lemma kept_ok_snoc:
  assumes "kept_ok cap ss ts h d hist" and "text \<noteq> []" and "length text \<le> cap"
  shows "kept_ok cap (ss @ [text]) (ts @ [at]) (h + int (length text)) d (hist @ stamp at text)"
  using assms unfolding kept_ok_def by (auto simp: timed_segments_snoc)

lemma replay_rep_new: "0 < cap \<Longrightarrow> replay_rep (new_replay cap) []"
  by (simp add: replay_rep_def new_replay_def kept_ok_def)

lemma replay_rep_held_zero: "replay_rep b hist \<Longrightarrow> \<not> held b > 0 \<Longrightarrow> hist = [] \<and> \<not> dropped b"
proof -
  assume rep: "replay_rep b hist" and z: "\<not> held b > 0"
  then have c: "concat (segments b) = []" by (auto simp: replay_rep_def kept_ok_def)
  with rep have "segments b = []"
    by (cases "segments b") (auto simp: replay_rep_def kept_ok_def)
  with rep show ?thesis by (auto simp: replay_rep_def kept_ok_def)
qed

lemma replay_rep_push_large:
  assumes rep: "replay_rep b hist" and big: "length text \<ge> capacity b"
  shows "replay_rep (replay_push at text b) (hist @ stamp at text)"
proof -
  let ?n = "capacity b"
  have n: "0 < ?n" using rep by (simp add: replay_rep_def)
  have ne: "text \<noteq> []" using n big by auto
  let ?d = "if held b > 0 \<or> length text > ?n then True else dropped b"
  let ?gone = "hist @ stamp at (take (length text - ?n) text)"
  have split: "text = take (length text - ?n) text @ slice_last ?n text"
    using n by (simp add: slice_last_def)
  have "stamp at text = stamp at (take (length text - ?n) text) @ stamp at (slice_last ?n text)"
    unfolding stamp_def by (metis map_append split)
  then have h: "hist @ stamp at text = ?gone @ timed_segments [slice_last ?n text] [at]" by simp
  have d: "?d \<longleftrightarrow> ?gone \<noteq> []"
  proof (cases "held b > 0")
    case True
    then have "hist \<noteq> []" using rep length_timed_segments
      by (fastforce simp: replay_rep_def kept_ok_def)
    with True show ?thesis by simp
  next
    case False
    with replay_rep_held_zero [OF rep] show ?thesis by auto
  qed
  have "length (slice_last ?n text) = ?n" using big n by (simp add: length_slice_last)
  with h d n ne big show ?thesis
    unfolding replay_push_def replay_rep_def kept_ok_def
    by (auto intro: exI [of _ ?gone])
qed

lemma replay_rep_push_small:
  assumes rep: "replay_rep b hist" and ne: "text \<noteq> []" and small: "length text < capacity b"
  shows "replay_rep (replay_push at text b) (hist @ stamp at text)"
proof -
  let ?n = "capacity b"
  obtain ss ts h d where
    dr: "drop_segments ?n (segments b @ [text]) (segment_times b @ [at])
           (held b + int (length text)) (dropped b) = (ss, ts, h, d)"
    by (metis prod_cases4)
  have k: "kept_ok ?n (segments b @ [text]) (segment_times b @ [at])
      (held b + int (length text)) (dropped b) (hist @ stamp at text)"
    using rep ne small by (intro kept_ok_snoc) (auto simp: replay_rep_def)
  from drop_segments_kept [OF k dr] have
    k': "kept_ok ?n ss ts h d (hist @ stamp at text)" and "ss \<noteq> []" and
    two: "length ss \<ge> 2 \<longrightarrow> h - int (length (hd ss)) < int ?n" by auto
  have "h - int (length (hd ss)) < int ?n"
  proof (cases "length ss \<ge> 2")
    case False
    then have "ss = [hd ss]" using \<open>ss \<noteq> []\<close> by (cases ss) (auto simp: not_le length_Suc_conv)
    then have "h = int (length (hd ss))"
      using k' by (metis append_Nil2 concat.simps kept_ok_def)
    then show ?thesis using small by simp
  qed (use two in simp)
  with k' dr ne small rep show ?thesis
    by (auto simp: replay_push_def replay_rep_def)
qed

lemma replay_rep_push: "replay_rep b hist \<Longrightarrow> replay_rep (replay_push at text b) (hist @ stamp at text)"
proof (cases "text = []")
  case False
  assume "replay_rep b hist"
  with False show ?thesis
    by (cases "length text \<ge> capacity b") (simp_all add: replay_rep_push_large replay_rep_push_small)
qed (simp add: replay_push_def)

lemma replay_rep_pushes: "replay_rep b hist \<Longrightarrow> replay_rep (replay_pushes ps b) (hist @ history_of ps)"
proof (induction ps arbitrary: b hist)
  case (Cons p ps)
  obtain at tx where p: "p = (at, tx)" by (cases p)
  from Cons.IH [OF replay_rep_push [OF Cons.prems]] p
  show ?case by (simp add: history_of_def)
qed (simp add: history_of_def)

lemma replay_capacity [simp]: "capacity (replay_push at text b) = capacity b"
  by (simp add: replay_push_def split: prod.splits)

lemma replay_pushes_capacity [simp]: "capacity (replay_pushes ps b) = capacity b"
  by (induction ps b rule: replay_pushes.induct) simp_all

lemma replay_rep_record:
  assumes "replay_rep b hist"
  shows "replay_record_of b = spec_record (capacity b) hist"
proof -
  let ?n = "capacity b" and ?k = "timed_segments (segments b) (segment_times b)"
  from assms obtain gone where n: "0 < ?n" and len: "length (segment_times b) = length (segments b)"
    and hist: "hist = gone @ ?k" and d: "dropped b \<longleftrightarrow> gone \<noteq> []"
    and full: "gone \<noteq> [] \<longrightarrow> ?n \<le> length (concat (segments b))"
    and h: "held b = int (length (concat (segments b)))"
    and ne: "\<forall>s\<in>set (segments b). s \<noteq> []"
    and first: "segments b \<noteq> [] \<longrightarrow> held b - int (length (hd (segments b))) < int ?n"
    by (auto simp: replay_rep_def kept_ok_def)
  have lk: "length ?k = length (concat (segments b))" by (rule length_timed_segments [OF len])
  have tail: "slice_last ?n hist = slice_last ?n ?k"
    using full n lk hist by (cases "gone = []") (auto simp: slice_last_append)
  have shown: "map fst (slice_last ?n hist) = replay_read b"
    by (simp add: tail replay_read_def slice_last_map [symmetric] timed_segments_text [OF len])
  have starts: "(case slice_last ?n ?k of [] \<Rightarrow> None | (c, t) # _ \<Rightarrow> Some t)
      = (case segment_times b of [] \<Rightarrow> None | t # _ \<Rightarrow> Some t)"
  proof (cases "segments b")
    case Nil
    then show ?thesis using len by (simp add: slice_last_def)
  next
    case (Cons s ss)
    with len obtain t ts where t: "segment_times b = t # ts" by (cases "segment_times b") auto
    have "length (timed_segments ss ts) < ?n"
      using first h Cons t len by (simp add: length_timed_segments)
    moreover have "0 < length s" using ne Cons by simp
    ultimately have less: "length s + length (timed_segments ss ts) - ?n < length s"
      and rest: "length (timed_segments ss ts) - ?n = 0" by linarith+
    obtain j where j: "slice_last ?n ?k = drop j (stamp t s) @ timed_segments ss ts" "j < length s"
      by (rule that [OF _ less]) (use Cons t n rest in \<open>simp add: slice_last_def\<close>)
    then have "drop j (stamp t s) = (s ! j, t) # drop (Suc j) (stamp t s)"
      by (subst Cons_nth_drop_Suc [symmetric]) (auto simp: stamp_def)
    with j t show ?thesis by simp
  qed
  have "(dropped b \<or> held b > int ?n) \<longleftrightarrow> length hist > ?n"
    using hist lk h d full by (cases gone) auto
  then show ?thesis
    using shown starts tail by (simp add: replay_record_of_def spec_record_def)
qed

section \<open>Properties\<close>

text \<open>
  C34. The replay record is exact: whatever a terminal printed and however the output was cut
  into pushes, \<open>record\<close> returns the last \<open>capacity\<close> code units printed, the time the oldest of
  them was printed, and whether anything printed before them is no longer held.
\<close>

theorem replay_record_is_last_output:
  assumes "0 < cap"
  shows "replay_record_of (replay_pushes ps (new_replay cap)) = spec_record cap (history_of ps)"
  using replay_rep_record [OF replay_rep_pushes [OF replay_rep_new [OF assms], of ps]]
  by (simp add: new_replay_def)

theorem replay_record_is_last_output_witness:
  "replay_record_of (replay_pushes [(1, [65, 66]), (2, [67, 68]), (3, [69])] (new_replay 3))
     = \<lparr>rec_text = [67, 68, 69], rec_starts_at = Some 2, rec_dropped = True\<rparr>"
  by (subst replay_record_is_last_output)
     (simp_all add: spec_record_def history_of_def stamp_def slice_last_def)

text \<open>
  The buffer's memory is bounded: however much is pushed, it never holds twice its capacity,
  and its counter is the number of code units in its segments.
\<close>

theorem replay_held_bounded:
  assumes "0 < cap"
  shows "held (replay_pushes ps (new_replay cap)) < 2 * int cap \<and>
    held (replay_pushes ps (new_replay cap)) = int (length (concat (segments (replay_pushes ps (new_replay cap)))))"
proof -
  let ?b = "replay_pushes ps (new_replay cap)"
  have rep: "replay_rep ?b (history_of ps)"
    using replay_rep_pushes [OF replay_rep_new [OF assms], of ps] by simp
  have "capacity ?b = cap" by (simp add: new_replay_def)
  with rep show ?thesis
    by (cases "segments ?b") (auto simp: replay_rep_def kept_ok_def)
qed

theorem replay_held_bounded_witness:
  "held (replay_pushes [(1, [65, 66]), (2, [67, 68]), (3, [69])] (new_replay 3)) < 2 * int 3"
  using replay_held_bounded [of 3 "[(1, [65, 66]), (2, [67, 68]), (3, [69])]"] by simp

end
