(* ===== verification/Pairing_Admission.thy ===== *)
theory Pairing_Admission
  imports Domovoi_Prelude Complex_Main "HOL-Library.Multiset"
begin

text \<open>
  The rate limiter in front of pairing claims (apps/daemon/src/pairing-admission.ts): at most
  three admitted claims per source address and thirty per listener in any minute. The state is
  the class's two private fields; the source is absent when the socket has no address and the
  time is absent when the clock is not finite. Times are rational milliseconds.
\<close>

definition pairingClaimWindowMs :: rat where
  "pairingClaimWindowMs = 60000"

definition maximumPairingClaimsPerSource :: nat where
  "maximumPairingClaimsPerSource = 3"

definition maximumPairingClaimsPerListener :: nat where
  "maximumPairingClaimsPerListener = 30"

lemmas admission_limits =
  pairingClaimWindowMs_def maximumPairingClaimsPerSource_def maximumPairingClaimsPerListener_def

record admission =
  sources :: "(string, rat list) jsmap"
  listener :: "rat list"

definition new_admission :: admission where
  "new_admission = \<lparr>sources = [], listener = []\<rparr>"

definition fresh_times :: "rat \<Rightarrow> rat list \<Rightarrow> rat list" where
  "fresh_times cutoff ts = filter (\<lambda>t. t > cutoff) ts"

text \<open>The loop over \<open>#sources\<close>: an address with no claim left in the window is forgotten.\<close>

fun prune_sources :: "rat \<Rightarrow> (string, rat list) jsmap \<Rightarrow> (string, rat list) jsmap" where
  "prune_sources cutoff [] = []"
| "prune_sources cutoff ((address, ts) # m) =
     (let current = fresh_times cutoff ts
      in if current = [] then prune_sources cutoff m
         else (address, current) # prune_sources cutoff m)"

definition admit :: "string option \<Rightarrow> rat option \<Rightarrow> admission \<Rightarrow> bool \<times> admission" where
  "admit source now st =
     (case (source, now) of
        (Some src, Some t) \<Rightarrow>
          if src = [] then (False, st)
          else
            let cutoff = t - pairingClaimWindowMs;
                heard = fresh_times cutoff (listener st);
                known = prune_sources cutoff (sources st);
                attempts = (case map_of known src of None \<Rightarrow> [] | Some ts \<Rightarrow> ts)
            in if length attempts \<ge> maximumPairingClaimsPerSource
                  \<or> length heard \<ge> maximumPairingClaimsPerListener
               then (False, \<lparr>sources = known, listener = heard\<rparr>)
               else (True, \<lparr>sources = jm_set src (attempts @ [t]) known, listener = heard @ [t]\<rparr>)
      | _ \<Rightarrow> (False, st))"

text \<open>A run of the limiter, with the claims it admitted, in order.\<close>

fun admit_run :: "(string \<times> rat) list \<Rightarrow> admission \<Rightarrow> (string \<times> rat) list \<times> admission" where
  "admit_run [] st = ([], st)"
| "admit_run ((src, t) # calls) st =
     (case admit (Some src) (Some t) st of
        (ok, st') \<Rightarrow> (case admit_run calls st' of
           (lg, st'') \<Rightarrow> ((if ok then (src, t) # lg else lg), st'')))"

section \<open>The limiter implements a sliding window\<close>

definition of_source :: "string \<Rightarrow> (string \<times> rat) list \<Rightarrow> rat list" where
  "of_source src lg = map snd (filter (\<lambda>(s, t). s = src) lg)"

definition recent :: "admission \<Rightarrow> string \<Rightarrow> rat list" where
  "recent st src = (case map_of (sources st) src of None \<Rightarrow> [] | Some ts \<Rightarrow> ts)"

text \<open>
  The state after the claims \<open>lg\<close> were admitted, the prev call having been at \<open>now\<close>: each
  source and the listener hold exactly the admitted times still in the window.
\<close>

definition window_ok :: "admission \<Rightarrow> (string \<times> rat) list \<Rightarrow> rat \<Rightarrow> bool" where
  "window_ok st lg now \<longleftrightarrow>
     jm_ok (sources st) \<and> (\<forall>(a, ts)\<in>set (sources st). ts \<noteq> []) \<and>
     listener st = fresh_times (now - pairingClaimWindowMs) (map snd lg) \<and>
     (\<forall>src. recent st src = fresh_times (now - pairingClaimWindowMs) (of_source src lg)) \<and>
     length (listener st) \<le> maximumPairingClaimsPerListener \<and>
     (\<forall>src. length (recent st src) \<le> maximumPairingClaimsPerSource)"

lemma fresh_times_later:
  "cutoff \<le> cutoff' \<Longrightarrow> fresh_times cutoff' (fresh_times cutoff ts) = fresh_times cutoff' ts"
  unfolding fresh_times_def filter_filter by (rule filter_cong) auto

lemma fresh_times_append [simp]: "fresh_times c (xs @ ys) = fresh_times c xs @ fresh_times c ys"
  by (simp add: fresh_times_def)

lemma fresh_times_now [simp]: "fresh_times (t - pairingClaimWindowMs) [t] = [t]"
  by (simp add: fresh_times_def admission_limits)

lemma jm_set_all:
  "P (k, v) \<Longrightarrow> \<forall>p\<in>set m. P p \<Longrightarrow> \<forall>p\<in>set (jm_set k v m). P p"
  by (induction k v m rule: jm_set.induct) auto

lemma prune_sources_eq:
  "prune_sources c m = filter (\<lambda>p. snd p \<noteq> []) (map (\<lambda>p. (fst p, fresh_times c (snd p))) m)"
  by (induction m) (auto simp: Let_def)

lemma prune_sources_keys: "fst ` set (prune_sources c m) \<subseteq> fst ` set m"
  by (force simp: prune_sources_eq)

lemma prune_sources_ok: "jm_ok m \<Longrightarrow> jm_ok (prune_sources c m)"
  unfolding prune_sources_eq jm_ok_def by (rule distinct_map_filter) (simp add: comp_def)

lemma prune_sources_nonempty: "(a, ts) \<in> set (prune_sources c m) \<Longrightarrow> ts \<noteq> []"
  by (auto simp: prune_sources_eq)

lemma map_of_prune_sources:
  "jm_ok m \<Longrightarrow> (case map_of (prune_sources c m) src of None \<Rightarrow> [] | Some ts \<Rightarrow> ts)
     = fresh_times c (case map_of m src of None \<Rightarrow> [] | Some ts \<Rightarrow> ts)"
proof (induction c m rule: prune_sources.induct)
  case (2 c address ts m)
  have "address \<notin> fst ` set (prune_sources c m)"
    using "2.prems" prune_sources_keys [of c m] by (auto simp: jm_ok_def)
  then have "map_of (prune_sources c m) address = None" by (simp add: map_of_eq_None_iff)
  moreover have "jm_ok m" using "2.prems" by (simp add: jm_ok_def)
  ultimately show ?case using "2.IH" by (auto simp: Let_def)
qed (simp add: fresh_times_def)

lemma of_source_snoc: "of_source src (lg @ [(s, t)]) = of_source src lg @ (if s = src then [t] else [])"
  by (simp add: of_source_def)

lemma window_ok_admit:
  assumes inv: "window_ok st lg prev" and mono: "prev \<le> now"
    and step: "admit (Some src) (Some now) st = (ok, st')" and ne: "src \<noteq> []"
  shows "window_ok st' (if ok then lg @ [(src, now)] else lg) now"
proof -
  let ?c = "now - pairingClaimWindowMs"
  let ?known = "prune_sources ?c (sources st)" and ?heard = "fresh_times ?c (listener st)"
  have later: "prev - pairingClaimWindowMs \<le> ?c" using mono by simp
  have ok_map: "jm_ok (sources st)" using inv by (simp add: window_ok_def)
  have known: "(case map_of ?known s of None \<Rightarrow> [] | Some ts \<Rightarrow> ts) = fresh_times ?c (of_source s lg)" for s
    using inv map_of_prune_sources [OF ok_map, of ?c s]
    by (simp add: window_ok_def recent_def fresh_times_later [OF later])
  have heard: "?heard = fresh_times ?c (map snd lg)"
    using inv by (simp add: window_ok_def fresh_times_later [OF later])
  have len: "length (fresh_times ?c ts) \<le> length (fresh_times (prev - pairingClaimWindowMs) ts)" for ts
    using fresh_times_later [OF later, of ts] by (metis fresh_times_def length_filter_le)
  have old: "length ?heard \<le> maximumPairingClaimsPerListener"
    "length (fresh_times ?c (of_source s lg)) \<le> maximumPairingClaimsPerSource" for s
    unfolding heard using inv order_trans [OF len] by (auto simp: window_ok_def)
  show ?thesis
  proof (cases ok)
    case False
    then have "st' = \<lparr>sources = ?known, listener = ?heard\<rparr>"
      using step ne by (auto simp: admit_def Let_def split: if_splits)
    with False ok_map known heard old show ?thesis
      by (auto simp: window_ok_def recent_def prune_sources_ok dest: prune_sources_nonempty)
  next
    case True
    then have st': "st' = \<lparr>sources = jm_set src (fresh_times ?c (of_source src lg) @ [now]) ?known,
        listener = ?heard @ [now]\<rparr>"
      and room: "length (fresh_times ?c (of_source src lg)) < maximumPairingClaimsPerSource"
        "length ?heard < maximumPairingClaimsPerListener"
      using step ne by (auto simp: admit_def Let_def known split: if_splits)
    have rec: "recent st' s = fresh_times ?c (of_source s (lg @ [(src, now)]))" for s
      using known [of s] by (auto simp: recent_def st' jsmap_simps of_source_snoc fresh_times_def [of _ "[]"])
    have "\<forall>(a, ts)\<in>set (sources st'). ts \<noteq> []"
      unfolding st' by (simp, intro jm_set_all) (auto dest: prune_sources_nonempty)
    moreover have "length (recent st' s) \<le> maximumPairingClaimsPerSource" for s
      unfolding rec of_source_snoc using room old(2) [of s] by (auto simp: fresh_times_def [of _ "[]"])
    ultimately show ?thesis
      using True ok_map heard room rec by (simp add: window_ok_def st' prune_sources_ok)
  qed
qed

lemma admit_empty_source: "admit (Some []) now st = (False, st)"
  by (simp add: admit_def split: option.splits)

lemma window_ok_new: "window_ok new_admission [] t"
  by (simp add: window_ok_def new_admission_def jm_ok_def recent_def of_source_def fresh_times_def)

lemma admit_run_window:
  assumes "window_ok st lg prev" and "\<forall>(s, t)\<in>set calls. s \<noteq> [] \<and> prev \<le> t"
    and "sorted (map snd calls)" and "admit_run calls st = (new, st')"
  shows "\<exists>e. window_ok st' (lg @ new) e \<and> prev \<le> e \<and> (calls \<noteq> [] \<longrightarrow> e = snd (last calls))"
  using assms
proof (induction calls arbitrary: st lg prev new)
  case Nil
  then show ?case by auto
next
  case (Cons call calls)
  obtain src t where call: "call = (src, t)" by (cases call)
  obtain ok st1 where s1: "admit (Some src) (Some t) st = (ok, st1)" by (cases "admit (Some src) (Some t) st")
  obtain rest where r: "admit_run calls st1 = (rest, st')"
    and new: "new = (if ok then (src, t) # rest else rest)"
    using Cons.prems(4) by (auto simp: call s1 split: prod.splits)
  have w: "window_ok st1 (if ok then lg @ [(src, t)] else lg) t"
    using window_ok_admit [OF Cons.prems(1) _ s1] Cons.prems(2) by (simp add: call)
  have "\<forall>(s, u)\<in>set calls. s \<noteq> [] \<and> t \<le> u"
    using Cons.prems(2,3) by (fastforce simp: call)
  from Cons.IH [OF w this _ r] Cons.prems(3) obtain e where
    e: "window_ok st' ((if ok then lg @ [(src, t)] else lg) @ rest) e" "t \<le> e"
    "calls \<noteq> [] \<longrightarrow> e = snd (last calls)" by (auto simp: call)
  show ?case
  proof (cases "calls = []")
    case True
    with r w Cons.prems(2) show ?thesis by (auto simp: call new)
  next
    case False
    with e Cons.prems(2) show ?thesis by (intro exI [of _ e]) (auto simp: call new)
  qed
qed

section \<open>The retained state is bounded\<close>

definition retained_ok :: "admission \<Rightarrow> bool" where
  "retained_ok st \<longleftrightarrow> jm_ok (sources st) \<and> (\<forall>p\<in>set (sources st). snd p \<noteq> []) \<and>
     mset (listener st) = mset (concat (map snd (sources st))) \<and>
     length (listener st) \<le> maximumPairingClaimsPerListener"

lemma mset_prune_sources:
  "mset (concat (map snd (prune_sources c m))) = mset (fresh_times c (concat (map snd m)))"
proof (induction m)
  case (Cons p m)
  obtain a ts where p: "p = (a, ts)" by (cases p)
  show ?case
    using Cons.IH by (cases "fresh_times c ts = []") (simp_all add: p Let_def)
qed (simp add: fresh_times_def)

lemma mset_jm_set_extend:
  assumes "jm_ok m"
  shows "mset (concat (map snd (jm_set k ((case map_of m k of None \<Rightarrow> [] | Some ts \<Rightarrow> ts) @ [t]) m)))
    = add_mset t (mset (concat (map snd m)))"
  using assms by (induction m) (auto simp: jm_ok_def map_of_eq_None_iff [symmetric])

lemma retained_ok_admit:
  assumes "retained_ok st"
  shows "retained_ok (snd (admit source now st))"
proof (cases "\<exists>src t. source = Some src \<and> now = Some t \<and> src \<noteq> []")
  case False
  then have "snd (admit source now st) = st" by (auto simp: admit_def split: option.splits)
  with assms show ?thesis by simp
next
  case True
  then obtain src t where st: "source = Some src" "now = Some t" "src \<noteq> []" by blast
  let ?c = "t - pairingClaimWindowMs"
  let ?known = "prune_sources ?c (sources st)" and ?heard = "fresh_times ?c (listener st)"
  have known: "jm_ok ?known" using assms by (simp add: retained_ok_def prune_sources_ok)
  have ne: "\<forall>p\<in>set ?known. snd p \<noteq> []" by (auto dest: prune_sources_nonempty)
  have same: "mset ?heard = mset (concat (map snd ?known))"
    using assms by (simp add: retained_ok_def mset_prune_sources fresh_times_def mset_filter)
  have len: "length ?heard \<le> maximumPairingClaimsPerListener"
    unfolding fresh_times_def using assms
    by (intro order_trans [OF length_filter_le]) (simp add: retained_ok_def)
  have "\<forall>p\<in>set (jm_set src (ts @ [t]) ?known). snd p \<noteq> []" for ts
    using ne by (intro jm_set_all) auto
  with known ne same len show ?thesis
    by (auto simp: retained_ok_def admit_def st Let_def mset_jm_set_extend)
qed

lemma retained_ok_bound: "retained_ok st \<Longrightarrow> length (sources st) \<le> length (listener st)"
proof -
  assume r: "retained_ok st"
  have "length m \<le> length (concat (map snd m))" if "\<forall>p\<in>set m. snd p \<noteq> []" for m :: "(string, rat list) jsmap"
    using that by (induction m) (auto simp: Suc_le_eq intro: add_strict_increasing)
  with r show ?thesis by (metis mset_eq_length retained_ok_def)
qed

fun admit_calls :: "(string option \<times> rat option) list \<Rightarrow> admission \<Rightarrow> admission" where
  "admit_calls [] st = st"
| "admit_calls ((source, now) # calls) st = admit_calls calls (snd (admit source now st))"

lemma retained_ok_calls: "retained_ok st \<Longrightarrow> retained_ok (admit_calls calls st)"
  by (induction calls st rule: admit_calls.induct) (simp_all add: retained_ok_admit)

section \<open>Properties\<close>

text \<open>
  C36. The pairing rate limit holds in every minute: over any run of claims with a clock that does
  not go back, at most three claims of one source and thirty of the whole listener are admitted
  in the sixty seconds before any moment not earlier than the last claim.
\<close>

theorem pairing_rate_limit:
  assumes "\<forall>(s, t)\<in>set calls. s \<noteq> [] \<and> t \<le> now" and "sorted (map snd calls)"
  shows "length (fresh_times (now - pairingClaimWindowMs) (of_source src (fst (admit_run calls new_admission))))
      \<le> maximumPairingClaimsPerSource \<and>
    length (fresh_times (now - pairingClaimWindowMs) (map snd (fst (admit_run calls new_admission))))
      \<le> maximumPairingClaimsPerListener"
proof (cases "calls = []")
  case True
  then show ?thesis by (simp add: of_source_def fresh_times_def)
next
  case False
  obtain lg st where run: "admit_run calls new_admission = (lg, st)" by (cases "admit_run calls new_admission")
  let ?first = "snd (hd calls)"
  have "\<forall>(s, t)\<in>set calls. s \<noteq> [] \<and> ?first \<le> t"
    using assms False by (cases calls) auto
  from admit_run_window [OF window_ok_new this assms(2) run] False
  have w: "window_ok st lg (snd (last calls))" by auto
  have later: "snd (last calls) - pairingClaimWindowMs \<le> now - pairingClaimWindowMs"
    using assms(1) last_in_set [OF False] by (cases "last calls") auto
  have len: "length (fresh_times (now - pairingClaimWindowMs) ts)
      \<le> length (fresh_times (snd (last calls) - pairingClaimWindowMs) ts)" for ts
    using fresh_times_later [OF later, of ts] by (metis fresh_times_def length_filter_le)
  show ?thesis
    using w order_trans [OF len] by (auto simp: run window_ok_def)
qed

theorem pairing_rate_limit_witness:
  "length (fresh_times (50 - pairingClaimWindowMs) (of_source ''10.0.0.7''
     (fst (admit_run [(''10.0.0.7'', 10), (''10.0.0.7'', 20), (''10.0.0.7'', 30), (''10.0.0.7'', 40)] new_admission))))
      \<le> maximumPairingClaimsPerSource"
  by (rule pairing_rate_limit [THEN conjunct1]) auto

text \<open>
  The limiter's memory is bounded whatever the callers and the clock do: it never keeps more
  than thirty timestamps, and never more source addresses than timestamps.
\<close>

theorem admission_state_bounded:
  "length (sources (admit_calls calls new_admission)) \<le> length (listener (admit_calls calls new_admission)) \<and>
   length (listener (admit_calls calls new_admission)) \<le> 30"
proof -
  have "retained_ok (admit_calls calls new_admission)"
    by (rule retained_ok_calls) (simp add: retained_ok_def new_admission_def jm_ok_def)
  then show ?thesis
    using retained_ok_bound by (auto simp: retained_ok_def admission_limits)
qed

end
