(* ===== verification/Identifiers.thy ===== *)
theory Identifiers
  imports Domovoi_Prelude
begin

text \<open>
  The identifier and credential formats of the wire protocol
  (packages/protocol/src/identifiers.ts and relay-admission.ts), each regular expression as an
  executable test, and the canonical Base64 length check that admits a transfer chunk. The
  runtime's own Base64 codec (\<open>Buffer.toString\<close> and \<open>Buffer.from\<close>), which the sender and the
  receiver of a chunk use, is written out so that the check can be related to it.
\<close>

section \<open>Character classes and anchored patterns\<close>

definition hex_lower :: "char \<Rightarrow> bool" where
  "hex_lower c \<longleftrightarrow> c \<in> set ''0123456789abcdef''"

definition ascii_alnum :: "char \<Rightarrow> bool" where
  "ascii_alnum c \<longleftrightarrow> c \<in> set ''ABCDEFGHIJKLMNOPQRSTUVWXYZabcdefghijklmnopqrstuvwxyz0123456789''"

text \<open>\<open>^prefix[0-9a-f]{n}$\<close>\<close>

definition tagged_hex :: "string \<Rightarrow> nat \<Rightarrow> string \<Rightarrow> bool" where
  "tagged_hex prefix n s \<longleftrightarrow>
     take (length prefix) s = prefix \<and> length s = length prefix + n \<and> list_all hex_lower (drop (length prefix) s)"

definition machineIdSchema :: "string \<Rightarrow> bool" where
  "machineIdSchema = tagged_hex ''machine-'' 32"

definition transferIdSchema :: "string \<Rightarrow> bool" where
  "transferIdSchema = tagged_hex ''transfer-'' 32"

definition deviceIdSchema :: "string \<Rightarrow> bool" where
  "deviceIdSchema = tagged_hex ''device-'' 32"

definition sha256DigestSchema :: "string \<Rightarrow> bool" where
  "sha256DigestSchema = tagged_hex ''sha256:'' 64"

definition commitShaSchema :: "string \<Rightarrow> bool" where
  "commitShaSchema = tagged_hex [] 40"

definition base64url_char :: "char \<Rightarrow> bool" where
  "base64url_char c \<longleftrightarrow> ascii_alnum c \<or> c = CHR ''_'' \<or> c = CHR ''-''"

definition credentialSchema :: "string \<Rightarrow> bool" where
  "credentialSchema s \<longleftrightarrow> length s = 43 \<and> list_all base64url_char s"

definition relayBytes32Schema :: "string \<Rightarrow> bool" where
  "relayBytes32Schema s \<longleftrightarrow> length s = 43 \<and> list_all base64url_char (butlast s)
     \<and> last s \<in> set ''AEIMQUYcgkosw048''"

definition relayPublicKeySchema :: "string \<Rightarrow> bool" where
  "relayPublicKeySchema s \<longleftrightarrow> relayBytes32Schema s \<and> s \<noteq> replicate 43 (CHR ''A'')"

lemma tagged_hex_replicate [simp]: "tagged_hex p n (p @ replicate n c) \<longleftrightarrow> n = 0 \<or> hex_lower c"
  by (auto simp: tagged_hex_def list_all_iff)

section \<open>Client kinds and access\<close>

datatype client_kind = Desktop | Web | Tablet | Phone | Cli

datatype client_access = Full | Watching

fun client_kind_text :: "client_kind \<Rightarrow> string" where
  "client_kind_text Desktop = ''desktop''"
| "client_kind_text Web = ''web''"
| "client_kind_text Tablet = ''tablet''"
| "client_kind_text Phone = ''phone''"
| "client_kind_text Cli = ''cli''"

fun client_access_text :: "client_access \<Rightarrow> string" where
  "client_access_text Full = ''full''"
| "client_access_text Watching = ''watching''"

definition clientKindSchema :: "string \<Rightarrow> client_kind option" where
  "clientKindSchema s = find (\<lambda>k. client_kind_text k = s) [Desktop, Web, Tablet, Phone, Cli]"

definition clientAccessSchema :: "string \<Rightarrow> client_access option" where
  "clientAccessSchema s = find (\<lambda>a. client_access_text a = s) [Full, Watching]"

lemma clientKindSchema_text [simp]: "clientKindSchema (client_kind_text k) = Some k"
  by (cases k) (simp_all add: clientKindSchema_def)

lemma clientAccessSchema_text [simp]: "clientAccessSchema (client_access_text a) = Some a"
  by (cases a) (simp_all add: clientAccessSchema_def)

section \<open>Base64\<close>

type_synonym byte = "8 word"

definition base64Alphabet :: string where
  "base64Alphabet = ''ABCDEFGHIJKLMNOPQRSTUVWXYZabcdefghijklmnopqrstuvwxyz0123456789+/''"

fun index_of :: "'a \<Rightarrow> 'a list \<Rightarrow> nat option" where
  "index_of x [] = None"
| "index_of x (y # ys) = (if x = y then Some 0 else map_option Suc (index_of x ys))"

definition b64_index :: "char \<Rightarrow> nat option" where
  "b64_index c = index_of c base64Alphabet"

definition b64_char :: "nat \<Rightarrow> char" where
  "b64_char n = base64Alphabet ! n"

text \<open>\<open>Buffer.toString("base64")\<close>\<close>

fun b64_encode :: "byte list \<Rightarrow> string" where
  "b64_encode [] = []"
| "b64_encode [a] = [b64_char (unat a div 4), b64_char (unat a mod 4 * 16), CHR ''='', CHR ''='']"
| "b64_encode [a, b] =
     [b64_char (unat a div 4), b64_char (unat a mod 4 * 16 + unat b div 16), b64_char (unat b mod 16 * 4), CHR ''='']"
| "b64_encode (a # b # c # bs) =
     [b64_char (unat a div 4), b64_char (unat a mod 4 * 16 + unat b div 16),
      b64_char (unat b mod 16 * 4 + unat c div 64), b64_char (unat c mod 64)] @ b64_encode bs"

text \<open>
  \<open>Buffer.from(text, "base64")\<close> on the texts the chunk schema lets through: groups of four, of
  which the last may be padded.
\<close>

definition sextet :: "char \<Rightarrow> nat" where
  "sextet c = (case b64_index c of None \<Rightarrow> 0 | Some n \<Rightarrow> n)"

fun b64_decode :: "string \<Rightarrow> byte list" where
  "b64_decode (p # q # r # s # rest) =
     (let x = word_of_nat (sextet p * 4 + sextet q div 16);
          y = word_of_nat (sextet q mod 16 * 16 + sextet r div 4);
          z = word_of_nat (sextet r mod 4 * 64 + sextet s)
      in if s = CHR ''='' then (if r = CHR ''='' then [x] else [x, y]) else [x, y, z] @ b64_decode rest)"
| "b64_decode _ = []"

text \<open>
  \<open>canonicalBase64Pattern\<close>: whole groups of the alphabet, then at most one padded group.
\<close>

definition b64_alphabet_char :: "char \<Rightarrow> bool" where
  "b64_alphabet_char c \<longleftrightarrow> b64_index c \<noteq> None"

fun canonicalBase64Pattern :: "string \<Rightarrow> bool" where
  "canonicalBase64Pattern [] = True"
| "canonicalBase64Pattern (p # q # r # s # rest) =
     (if list_all b64_alphabet_char [p, q, r, s] then canonicalBase64Pattern rest
      else rest = [] \<and> b64_alphabet_char p \<and> b64_alphabet_char q \<and> s = CHR ''=''
        \<and> (r = CHR ''='' \<or> b64_alphabet_char r))"
| "canonicalBase64Pattern _ = False"

definition ends_with :: "string \<Rightarrow> string \<Rightarrow> bool" where
  "ends_with suffix s \<longleftrightarrow> length suffix \<le> length s \<and> drop (length s - length suffix) s = suffix"

definition canonicalBase64DecodedByteLength :: "string \<Rightarrow> nat option" where
  "canonicalBase64DecodedByteLength s =
     (if length s = 0 \<or> length s mod 4 \<noteq> 0 \<or> \<not> canonicalBase64Pattern s then None
      else let padding = (if ends_with ''=='' s then 2 else if ends_with ''='' s then 1 else 0);
               trailing = b64_index (s ! (length s - padding - 1))
           in case trailing of
                None \<Rightarrow> None
              | Some v \<Rightarrow> if (padding = 2 \<and> v mod 16 \<noteq> 0) \<or> (padding = 1 \<and> v mod 4 \<noteq> 0) then None
                  else Some (length s div 4 * 3 - padding))"

subsection \<open>The codec round trip\<close>

lemma b64_index_char: "n < 64 \<Longrightarrow> b64_index (b64_char n) = Some n"
proof -
  have "list_all (\<lambda>n. b64_index (b64_char n) = Some n) [0..<64]" by code_simp
  then show "n < 64 \<Longrightarrow> ?thesis" by (simp add: list_all_iff)
qed

lemma sextet_char [simp]: "n < 64 \<Longrightarrow> sextet (b64_char n) = n"
  by (simp add: sextet_def b64_index_char)

lemma b64_pad_index [simp]: "b64_index (CHR ''='') = None"
  by code_simp

lemma b64_char_not_pad [simp]: "n < 64 \<Longrightarrow> b64_char n \<noteq> CHR ''=''"
  using b64_index_char b64_pad_index by fastforce

lemma b64_char_alphabet [simp]: "n < 64 \<Longrightarrow> b64_alphabet_char (b64_char n)"
  by (simp add: b64_alphabet_char_def b64_index_char)

lemma pad_not_alphabet [simp]: "\<not> b64_alphabet_char (CHR ''='')"
  by (simp add: b64_alphabet_char_def)

lemma unat_byte_less [simp]: "unat (a :: byte) < 256"
  using unsigned_less [of a] by simp

lemma byte_of_unat: "word_of_nat (unat a) = (a :: byte)"
  by simp

lemma b64_sextet_bounds:
  fixes a b c :: nat
  assumes "a < 256" "b < 256" "c < 256"
  shows "a div 4 < 64" "a mod 4 * 16 < 64" "a mod 4 * 16 + b div 16 < 64" "b mod 16 * 4 < 64"
    "b mod 16 * 4 + c div 64 < 64" "c mod 64 < 64"
  using assms by linarith+

lemma div_mod_join:
  fixes x y k :: nat
  assumes "y < k"
  shows "(x * k + y) div k = x" "(x * k + y) mod k = y"
  using assms by simp_all

lemma b64_bytes:
  fixes a b c :: nat
  assumes "a < 256" "b < 256" "c < 256"
  shows "a div 4 * 4 + (a mod 4 * 16 + b div 16) div 16 = a"
    "(a mod 4 * 16 + b div 16) mod 16 * 16 + (b mod 16 * 4 + c div 64) div 4 = b"
    "(b mod 16 * 4 + c div 64) mod 4 * 64 + c mod 64 = c"
proof -
  have b: "b div 16 < 16" and c: "c div 64 < 4" using assms by linarith+
  note join = div_mod_join [OF b, of "a mod 4"] div_mod_join [OF c, of "b mod 16"]
  show "a div 4 * 4 + (a mod 4 * 16 + b div 16) div 16 = a" unfolding join by simp
  show "(a mod 4 * 16 + b div 16) mod 16 * 16 + (b mod 16 * 4 + c div 64) div 4 = b" unfolding join by simp
  show "(b mod 16 * 4 + c div 64) mod 4 * 64 + c mod 64 = c" unfolding join by simp
qed

lemma b64_byte_facts:
  fixes a b c :: byte
  shows "unat a div 4 < 64" "unat a mod 4 * 16 < 64" "unat a mod 4 * 16 + unat b div 16 < 64"
    "unat b mod 16 * 4 < 64" "unat b mod 16 * 4 + unat c div 64 < 64" "unat c mod 64 < 64"
    "unat a div 4 * 4 + (unat a mod 4 * 16 + unat b div 16) div 16 = unat a"
    "(unat a mod 4 * 16 + unat b div 16) mod 16 * 16 + (unat b mod 16 * 4 + unat c div 64) div 4 = unat b"
    "(unat b mod 16 * 4 + unat c div 64) mod 4 * 64 + unat c mod 64 = unat c"
  by (rule b64_sextet_bounds b64_bytes; rule unat_byte_less)+

lemma b64_decode_encode: "b64_decode (b64_encode bs) = bs"
proof (induction bs rule: b64_encode.induct)
  case (2 a)
  show ?case by (simp add: Let_def b64_byte_facts)
next
  case (3 a b)
  show ?case using b64_byte_facts(8) [of a b 0] by (simp add: Let_def b64_byte_facts)
next
  case (4 a b c bs)
  show ?case
    by (simp only: b64_encode.simps append.simps b64_decode.simps Let_def sextet_char b64_char_not_pad
        b64_byte_facts byte_of_unat if_False "4.IH" simp_thms)
qed simp

lemma length_b64_encode: "length (b64_encode bs) = 4 * ((length bs + 2) div 3)"
proof (induction bs rule: b64_encode.induct)
  case (4 a b c bs)
  have "(length bs + 5) div 3 = Suc ((length bs + 2) div 3)" by linarith
  with "4.IH" show ?case by (simp add: add.commute)
qed simp_all

lemma length_b64_encode_mod: "length (b64_encode bs) mod 4 = 0"
  by (simp add: length_b64_encode)

lemma b64_encode_Nil_iff [simp]: "b64_encode bs = [] \<longleftrightarrow> bs = []"
  by (cases bs rule: b64_encode.cases) auto

lemma canonicalBase64Pattern_encode: "canonicalBase64Pattern (b64_encode bs)"
proof (induction bs rule: b64_encode.induct)
  case (2 a)
  show ?case by (simp add: b64_byte_facts)
next
  case (3 a b)
  show ?case by (simp add: b64_byte_facts)
next
  case (4 a b c bs)
  show ?case using "4.IH" by (simp add: b64_byte_facts)
qed simp

lemma b64_encode_ends_with:
  "bs \<noteq> [] \<Longrightarrow> (ends_with ''=='' (b64_encode bs) \<longleftrightarrow> length bs mod 3 = 1) \<and>
     (ends_with ''='' (b64_encode bs) \<longleftrightarrow> length bs mod 3 \<noteq> 0)"
proof (induction bs rule: b64_encode.induct)
  case (4 a b c bs)
  show ?case
  proof (cases "bs = []")
    case True
    then show ?thesis by (simp add: ends_with_def b64_byte_facts)
  next
    case False
    have "4 dvd length (b64_encode bs)" by (simp add: length_b64_encode)
    then have "4 \<le> length (b64_encode bs)" using False by (auto intro: dvd_imp_le)
    then have "ends_with suf (b64_encode (a # b # c # bs)) \<longleftrightarrow> ends_with suf (b64_encode bs)"
      if "length suf \<le> 2" for suf
      using that by (auto simp: ends_with_def Suc_diff_le)
    with "4.IH" [OF False] show ?thesis by (simp add: mod_Suc_eq_mod_add3)
  qed
qed (simp_all add: ends_with_def b64_byte_facts)

definition b64_padding :: "byte list \<Rightarrow> nat" where
  "b64_padding bs = (if length bs mod 3 = 1 then 2 else if length bs mod 3 = 2 then 1 else 0)"

lemma b64_encode_length_ge: "bs \<noteq> [] \<Longrightarrow> 4 \<le> length (b64_encode bs)"
  by (cases bs rule: b64_encode.cases) auto

lemma b64_encode_trailing:
  "bs \<noteq> [] \<Longrightarrow> \<exists>v. b64_index (b64_encode bs ! (length (b64_encode bs) - b64_padding bs - 1)) = Some v \<and>
     (b64_padding bs = 2 \<longrightarrow> v mod 16 = 0) \<and> (b64_padding bs = 1 \<longrightarrow> v mod 4 = 0)"
proof (induction bs rule: b64_encode.induct)
  case (4 a b c bs)
  show ?case
  proof (cases "bs = []")
    case True
    then show ?thesis by (simp add: b64_padding_def b64_index_char b64_byte_facts)
  next
    case False
    have pad: "b64_padding (a # b # c # bs) = b64_padding bs" "b64_padding bs \<le> 2"
      by (auto simp: b64_padding_def mod_Suc_eq_mod_add3)
    have "length (b64_encode (a # b # c # bs)) - b64_padding bs - 1
        = 4 + (length (b64_encode bs) - b64_padding bs - 1)"
      using b64_encode_length_ge [OF False] pad(2) by simp
    then show ?thesis using "4.IH" [OF False] pad(1) by (simp add: nth_append)
  qed
qed (simp_all add: b64_padding_def b64_index_char b64_byte_facts)

lemma b64_decoded_length: "bs \<noteq> [] \<Longrightarrow> length (b64_encode bs) div 4 * 3 - b64_padding bs = length bs"
  unfolding length_b64_encode b64_padding_def by auto (presburger+)

lemma canonicalBase64DecodedByteLength_encode:
  assumes "bs \<noteq> []"
  shows "canonicalBase64DecodedByteLength (b64_encode bs) = Some (length bs)"
proof -
  have pad: "(if ends_with ''=='' (b64_encode bs) then 2 else if ends_with ''='' (b64_encode bs) then 1 else 0)
      = b64_padding bs"
    using b64_encode_ends_with [OF assms] by (auto simp: b64_padding_def)
  show ?thesis
    using b64_encode_trailing [OF assms] assms
    by (auto simp: canonicalBase64DecodedByteLength_def pad Let_def length_b64_encode_mod
        canonicalBase64Pattern_encode b64_decoded_length [OF assms, symmetric])
qed

lemma canonicalBase64DecodedByteLength_empty: "canonicalBase64DecodedByteLength [] = None"
  by (simp add: canonicalBase64DecodedByteLength_def)

definition text_padding :: "string \<Rightarrow> nat" where
  "text_padding s = (if ends_with ''=='' s then 2 else if ends_with ''='' s then 1 else 0)"

lemma ends_with_cons4: "4 \<le> length rest \<Longrightarrow> length suf \<le> 2 \<Longrightarrow> ends_with suf (p # q # r # s # rest) = ends_with suf rest"
  by (auto simp: ends_with_def Suc_diff_le)

lemma pattern_length: "canonicalBase64Pattern s \<Longrightarrow> s = [] \<or> 4 \<le> length s"
  by (cases s rule: canonicalBase64Pattern.cases) auto

lemma b64_decode_length_pattern: "canonicalBase64Pattern s \<Longrightarrow> length (b64_decode s) = length s div 4 * 3 - text_padding s"
proof (induction s rule: canonicalBase64Pattern.induct)
  case (2 p q r s rest)
  show ?case
  proof (cases "list_all b64_alphabet_char [p, q, r, s]")
    case True
    then have s: "s \<noteq> CHR ''=''" using pad_not_alphabet by auto
    have rest: "canonicalBase64Pattern rest" using 2 True by simp
    note IH = "2.IH" [OF True rest]
    show ?thesis
    proof (cases "rest = []")
      case True
      then show ?thesis using s by (simp add: text_padding_def ends_with_def Let_def)
    next
      case False
      then have len: "4 \<le> length rest" using pattern_length [OF rest] by simp
      then have "text_padding (p # q # r # s # rest) = text_padding rest" "text_padding rest \<le> 2"
        by (simp_all add: text_padding_def ends_with_cons4)
      moreover have "(4 + length rest) div 4 = Suc (length rest div 4)" "0 < length rest div 4"
        using len by (simp_all add: div_greater_zero_iff)
      ultimately show ?thesis using IH s by (simp add: Let_def)
    qed
  next
    case False
    then show ?thesis using 2 by (auto simp: text_padding_def ends_with_def Let_def split: if_splits)
  qed
qed (simp_all add: text_padding_def ends_with_def)

lemma b64_decode_length: "canonicalBase64DecodedByteLength s = Some n \<Longrightarrow> length (b64_decode s) = n"
  by (auto simp: canonicalBase64DecodedByteLength_def b64_decode_length_pattern text_padding_def Let_def split: if_splits option.splits)

lemma b64_decode_nonempty:
  assumes "canonicalBase64DecodedByteLength s = Some n"
  shows "b64_decode s \<noteq> []"
proof -
  have s: "canonicalBase64Pattern s" "s \<noteq> []"
    using assms by (auto simp: canonicalBase64DecodedByteLength_def split: if_splits)
  then have "0 < length s div 4" using pattern_length by (auto simp: div_greater_zero_iff)
  moreover have "text_padding s \<le> 2" by (simp add: text_padding_def)
  ultimately have "0 < length (b64_decode s)" using b64_decode_length_pattern [OF s(1)] by linarith
  then show ?thesis by auto
qed

text \<open>
  The chunk codec is sound: decoding what the sender encoded gives the bytes back, the
  canonical check accepts the encoding of every non-empty byte string and reads off its length,
  and it refuses the encoding of the empty one.
\<close>

theorem base64_chunk_roundtrip:
  "b64_decode (b64_encode bs) = bs \<and>
   canonicalBase64DecodedByteLength (b64_encode bs) = (if bs = [] then None else Some (length bs))"
  by (simp add: b64_decode_encode canonicalBase64DecodedByteLength_encode canonicalBase64DecodedByteLength_empty)

end
