(* ===== verification/Device_Registry.thy ===== *)
theory Device_Registry
  imports Identifiers "HOL-Library.Product_Lexorder"
begin

text \<open>
  The registry of paired devices (apps/daemon/src/device-registry.ts over the schemas of
  packages/protocol/src/devices.ts). The two SQLite tables are lists of rows in insertion order,
  each statement of a method is the corresponding list operation, and a transaction that throws
  leaves the registry as it was. What the daemon takes from its surroundings is in
  \<open>registry_env\<close>: the SHA-256 of a token, the calendar check of the schema library and the text
  of a moment; random tokens, identifiers and the current time are arguments.
\<close>

section \<open>Labels, bindings and the public device\<close>

record registry_env =
  sha256_hex :: "string \<Rightarrow> string"
  offsetDateTimeSchema :: "string \<Rightarrow> bool"
  to_iso :: "int \<Rightarrow> string"

definition maximumPairedDevices :: nat where
  "maximumPairedDevices = 128"

definition maximumPairedDeviceLabelLength :: nat where
  "maximumPairedDeviceLabelLength = 128"

definition pendingDeviceClaimTtlMs :: int where
  "pendingDeviceClaimTtlMs = 300000"

definition hashDeviceToken :: "registry_env \<Rightarrow> string \<Rightarrow> string" where
  "hashDeviceToken env token = sha256_hex env token"

datatype public_binding = ClientBinding client_kind client_access | MachineBinding string | UnboundBinding string

datatype active_binding = ActiveClient client_kind client_access | ActiveMachine string

fun public_of_active :: "active_binding \<Rightarrow> public_binding" where
  "public_of_active (ActiveClient k a) = ClientBinding k a"
| "public_of_active (ActiveMachine i) = MachineBinding i"

record paired_device =
  pd_id :: string
  pd_label :: js_string
  pd_pairedAt :: string
  pd_binding :: public_binding
  pd_lastSeenAt :: "string option"
  pd_revokedAt :: "string option"
  pd_revocationReason :: "string option"

record stored_device =
  sd_id :: string
  sd_label :: js_string
  sd_token_hash :: string
  sd_paired_at :: string
  sd_last_seen_at :: "string option"
  sd_revoked_at :: "string option"
  sd_revocation_reason :: "string option"
  sd_credential_role :: string
  sd_client_kind :: "string option"
  sd_client_access :: "string option"
  sd_machine_id :: "string option"
  sd_channel_public_key :: "string option"

record pending_claim =
  pc_id :: string
  pc_label :: js_string
  pc_token_hash :: string
  pc_machine_id :: string
  pc_expires_at :: int
  pc_channel_public_key :: "string option"

record registry =
  devices :: "stored_device list"
  claims :: "pending_claim list"

datatype registry_error =
    InvalidLabel
  | SchemaError
  | DeviceLimitReached
  | DeviceNotFound string
  | DeviceLabelMismatch paired_device
  | UniqueConstraint

definition deviceLabelSchema :: "js_string \<Rightarrow> js_string option" where
  "deviceLabelSchema label =
     (let t = js_trim label in if t = [] \<or> length t > maximumPairedDeviceLabelLength then None else Some t)"

definition control_char :: "js_char \<Rightarrow> bool" where
  "control_char c \<longleftrightarrow> unat c \<le> 31 \<or> (127 \<le> unat c \<and> unat c \<le> 159)"

definition deviceRenameLabelSchema :: "js_string \<Rightarrow> js_string option" where
  "deviceRenameLabelSchema label =
     (let t = js_trim label in
      if t = [] \<or> length t > maximumPairedDeviceLabelLength \<or> list_ex control_char t then None else Some t)"

definition validateLabel :: "js_string \<Rightarrow> registry_error + js_string" where
  "validateLabel label =
     (let trimmed = js_trim label in
      if trimmed = [] \<or> length trimmed > maximumPairedDeviceLabelLength then Inl InvalidLabel else Inr trimmed)"

definition validateRenameLabel :: "js_string \<Rightarrow> registry_error + js_string" where
  "validateRenameLabel label =
     (case deviceRenameLabelSchema label of None \<Rightarrow> Inl InvalidLabel | Some l \<Rightarrow> Inr l)"

definition optional_datetime :: "registry_env \<Rightarrow> string option \<Rightarrow> bool" where
  "optional_datetime env d = (case d of None \<Rightarrow> True | Some t \<Rightarrow> offsetDateTimeSchema env t)"

definition deviceCredentialBindingSchema :: "public_binding \<Rightarrow> bool" where
  "deviceCredentialBindingSchema b =
     (case b of ClientBinding k a \<Rightarrow> True
      | MachineBinding i \<Rightarrow> machineIdSchema i
      | UnboundBinding role \<Rightarrow> role = ''unknown'' \<or> role = ''client'')"

definition deviceRevocationReasonSchema :: "string \<Rightarrow> bool" where
  "deviceRevocationReasonSchema r \<longleftrightarrow> r = ''legacy-unbound-credential'' \<or> r = ''legacy-unbound-client-kind''"

definition pairedDeviceSchema :: "registry_env \<Rightarrow> paired_device \<Rightarrow> registry_error + paired_device" where
  "pairedDeviceSchema env d =
     (case deviceLabelSchema (pd_label d) of
        None \<Rightarrow> Inl SchemaError
      | Some label \<Rightarrow>
          if deviceIdSchema (pd_id d) \<and> offsetDateTimeSchema env (pd_pairedAt d)
            \<and> deviceCredentialBindingSchema (pd_binding d)
            \<and> optional_datetime env (pd_lastSeenAt d) \<and> optional_datetime env (pd_revokedAt d)
            \<and> (case pd_revocationReason d of None \<Rightarrow> True | Some r \<Rightarrow> deviceRevocationReasonSchema r)
            \<and> (pd_revocationReason d \<noteq> None \<longrightarrow> pd_revokedAt d \<noteq> None)
            \<and> (case pd_binding d of
                 UnboundBinding role \<Rightarrow> pd_revokedAt d \<noteq> None
                   \<and> pd_revocationReason d = Some (if role = ''client'' then ''legacy-unbound-client-kind''
                                                   else ''legacy-unbound-credential'')
               | _ \<Rightarrow> pd_revocationReason d = None)
          then Inr (d\<lparr>pd_label := label\<rparr>) else Inl SchemaError)"

definition credentialBinding :: "stored_device \<Rightarrow> active_binding option" where
  "credentialBinding row =
     (if sd_credential_role row = ''client'' \<and> sd_machine_id row = None then
        (case (Option.bind (sd_client_kind row) clientKindSchema,
               clientAccessSchema (case sd_client_access row of None \<Rightarrow> ''full'' | Some a \<Rightarrow> a)) of
           (Some k, Some a) \<Rightarrow> Some (ActiveClient k a) | _ \<Rightarrow> None)
      else if sd_credential_role row \<noteq> ''machine'' \<or> sd_client_kind row \<noteq> None then None
      else (case sd_machine_id row of
              Some i \<Rightarrow> if machineIdSchema i then Some (ActiveMachine i) else None | None \<Rightarrow> None))"

definition publicCredentialBinding :: "stored_device \<Rightarrow> public_binding" where
  "publicCredentialBinding row =
     (case credentialBinding row of
        Some b \<Rightarrow> public_of_active b
      | None \<Rightarrow> UnboundBinding (if sd_credential_role row = ''client'' then ''client'' else ''unknown''))"

definition toPairedDevice :: "registry_env \<Rightarrow> stored_device \<Rightarrow> registry_error + paired_device" where
  "toPairedDevice env row = pairedDeviceSchema env
     \<lparr>pd_id = sd_id row, pd_label = sd_label row, pd_pairedAt = sd_paired_at row,
      pd_binding = publicCredentialBinding row, pd_lastSeenAt = sd_last_seen_at row,
      pd_revokedAt = sd_revoked_at row,
      pd_revocationReason =
        (if sd_revocation_reason row = Some ''legacy-unbound-credential''
            \<or> sd_revocation_reason row = Some ''legacy-unbound-client-kind''
         then sd_revocation_reason row else None)\<rparr>"

definition storedDeviceRowIsValid :: "registry_env \<Rightarrow> stored_device \<Rightarrow> bool" where
  "storedDeviceRowIsValid env row = (case toPairedDevice env row of Inl e \<Rightarrow> False | Inr d \<Rightarrow> True)"

section \<open>The SQL statements\<close>

abbreviation live :: "stored_device \<Rightarrow> bool" where
  "live d \<equiv> sd_revoked_at d = None"

definition live_total :: "stored_device list \<Rightarrow> nat" where
  "live_total ds = length (filter (\<lambda>d. live d) ds)"

definition machine_row :: "string \<Rightarrow> stored_device \<Rightarrow> bool" where
  "machine_row mid d \<longleftrightarrow> sd_credential_role d = ''machine'' \<and> sd_machine_id d = Some mid"

definition revoke_machine :: "string \<Rightarrow> string \<Rightarrow> stored_device list \<Rightarrow> stored_device list" where
  "revoke_machine now mid ds =
     map (\<lambda>d. if machine_row mid d \<and> live d then d\<lparr>sd_revoked_at := Some now\<rparr> else d) ds"

definition insert_device :: "stored_device \<Rightarrow> stored_device list \<Rightarrow> registry_error + stored_device list" where
  "insert_device d ds =
     (if sd_id d \<in> sd_id ` set ds \<or> sd_token_hash d \<in> sd_token_hash ` set ds
      then Inl UniqueConstraint else Inr (ds @ [d]))"

definition insert_claim :: "pending_claim \<Rightarrow> pending_claim list \<Rightarrow> registry_error + pending_claim list" where
  "insert_claim c cs =
     (if pc_id c \<in> pc_id ` set cs \<or> pc_token_hash c \<in> pc_token_hash ` set cs
         \<or> pc_machine_id c \<in> pc_machine_id ` set cs
      then Inl UniqueConstraint else Inr (cs @ [c]))"

definition optional_relay_key :: "string option \<Rightarrow> bool" where
  "optional_relay_key k = (case k of None \<Rightarrow> True | Some s \<Rightarrow> relayPublicKeySchema s)"

definition device_by_id :: "string \<Rightarrow> stored_device list \<Rightarrow> stored_device option" where
  "device_by_id i ds = find (\<lambda>d. sd_id d = i) ds"

definition update_device :: "string \<Rightarrow> (stored_device \<Rightarrow> stored_device) \<Rightarrow> registry \<Rightarrow> registry" where
  "update_device i f r = r\<lparr>devices := map (\<lambda>d. if sd_id d = i then f d else d) (devices r)\<rparr>"

text \<open>A transaction: a thrown error rolls the tables back.\<close>

definition transaction :: "registry \<Rightarrow> registry_error + (registry \<times> 'a) \<Rightarrow> registry \<times> (registry_error + 'a)" where
  "transaction r m = (case m of Inl e \<Rightarrow> (r, Inl e) | Inr (r', a) \<Rightarrow> (r', Inr a))"

section \<open>Opening the registry: the migrations\<close>

record device_database =
  device_columns :: "string list"
  claim_columns :: "string list"
  tables :: registry

definition add_column :: "string \<Rightarrow> (stored_device \<Rightarrow> stored_device) \<Rightarrow> device_database \<Rightarrow> device_database" where
  "add_column c fill db =
     (if c \<in> set (device_columns db) then db
      else db\<lparr>device_columns := device_columns db @ [c],
              tables := (tables db)\<lparr>devices := map fill (devices (tables db))\<rparr>\<rparr>)"

definition add_claim_column :: "string \<Rightarrow> (pending_claim \<Rightarrow> pending_claim) \<Rightarrow> device_database \<Rightarrow> device_database" where
  "add_claim_column c fill db =
     (if c \<in> set (claim_columns db) then db
      else db\<lparr>claim_columns := claim_columns db @ [c],
              tables := (tables db)\<lparr>claims := map fill (claims (tables db))\<rparr>\<rparr>)"

definition revoke_legacy :: "string \<Rightarrow> stored_device \<Rightarrow> stored_device" where
  "revoke_legacy now d =
     (if sd_credential_role d = ''legacy''
      then d\<lparr>sd_revoked_at := Some (case sd_revoked_at d of None \<Rightarrow> now | Some t \<Rightarrow> t),
             sd_revocation_reason := Some ''legacy-unbound-credential''\<rparr> else d)"

definition revoke_unbound_client :: "string \<Rightarrow> stored_device \<Rightarrow> stored_device" where
  "revoke_unbound_client now d =
     (if sd_credential_role d = ''client''
         \<and> (sd_client_kind d = None \<or> the (sd_client_kind d) \<notin> {''desktop'', ''web'', ''tablet'', ''phone'', ''cli''})
      then d\<lparr>sd_revoked_at := Some (case sd_revoked_at d of None \<Rightarrow> now | Some t \<Rightarrow> t),
             sd_revocation_reason := Some ''legacy-unbound-client-kind''\<rparr> else d)"

definition add_missing_columns :: "device_database \<Rightarrow> device_database" where
  "add_missing_columns db =
     (let db1 = add_column ''channel_public_key'' (\<lambda>d. d\<lparr>sd_channel_public_key := None\<rparr>) db;
          db1' = add_claim_column ''channel_public_key'' (\<lambda>c. c\<lparr>pc_channel_public_key := None\<rparr>) db1;
          db2 = add_column ''credential_role'' (\<lambda>d. d\<lparr>sd_credential_role := ''legacy''\<rparr>) db1';
          db3 = add_column ''machine_id'' (\<lambda>d. d\<lparr>sd_machine_id := None\<rparr>) db2;
          db4 = add_column ''client_kind'' (\<lambda>d. d\<lparr>sd_client_kind := None\<rparr>) db3;
          db5 = add_column ''client_access'' (\<lambda>d. d\<lparr>sd_client_access := None\<rparr>) db4
      in add_column ''revocation_reason'' (\<lambda>d. d\<lparr>sd_revocation_reason := None\<rparr>) db5)"

definition open_registry :: "string \<Rightarrow> device_database \<Rightarrow> device_database" where
  "open_registry now db =
     (let db6 = add_missing_columns db
      in db6\<lparr>tables := (tables db6)\<lparr>devices :=
           map (revoke_unbound_client now \<circ> revoke_legacy now) (devices (tables db6))\<rparr>\<rparr>)"

section \<open>The methods\<close>

datatype binding_input = BindClient client_kind "client_access option" | BindMachine string

definition active_of_input :: "binding_input \<Rightarrow> registry_error + active_binding" where
  "active_of_input b =
     (case b of
        BindMachine i \<Rightarrow> if machineIdSchema i then Inr (ActiveMachine i) else Inl SchemaError
      | BindClient k a \<Rightarrow> Inr (ActiveClient k (case a of None \<Rightarrow> Full | Some x \<Rightarrow> x)))"

definition device_row :: "string \<Rightarrow> js_string \<Rightarrow> string \<Rightarrow> string \<Rightarrow> active_binding \<Rightarrow> string option \<Rightarrow> stored_device" where
  "device_row i label hash now b key =
     \<lparr>sd_id = i, sd_label = label, sd_token_hash = hash, sd_paired_at = now, sd_last_seen_at = None,
      sd_revoked_at = None, sd_revocation_reason = None,
      sd_credential_role = (case b of ActiveClient k a \<Rightarrow> ''client'' | ActiveMachine m \<Rightarrow> ''machine''),
      sd_client_kind = (case b of ActiveClient k a \<Rightarrow> Some (client_kind_text k) | ActiveMachine m \<Rightarrow> None),
      sd_client_access = (case b of ActiveClient k a \<Rightarrow> Some (client_access_text a) | ActiveMachine m \<Rightarrow> None),
      sd_machine_id = (case b of ActiveClient k a \<Rightarrow> None | ActiveMachine m \<Rightarrow> Some m),
      sd_channel_public_key = key\<rparr>"

definition new_device :: "string \<Rightarrow> js_string \<Rightarrow> string \<Rightarrow> public_binding \<Rightarrow> paired_device" where
  "new_device i label now b =
     \<lparr>pd_id = i, pd_label = label, pd_pairedAt = now, pd_binding = b, pd_lastSeenAt = None,
      pd_revokedAt = None, pd_revocationReason = None\<rparr>"

text \<open>\<open>pair\<close>, with the random token and device id it draws and the time it reads.\<close>

definition pair_statements ::
  "string \<Rightarrow> string \<Rightarrow> js_string \<Rightarrow> string \<Rightarrow> binding_input \<Rightarrow> active_binding \<Rightarrow> string option \<Rightarrow> registry
     \<Rightarrow> registry_error + (registry \<times> paired_device)" where
  "pair_statements i now l hash input b key r =
     (let r1 = (case input of
            BindMachine mid \<Rightarrow> r\<lparr>claims := filter (\<lambda>c. pc_machine_id c \<noteq> mid) (claims r),
                                 devices := revoke_machine now mid (devices r)\<rparr>
          | BindClient k a \<Rightarrow> r)
      in rbind (throw_if (live_total (devices r1) \<ge> maximumPairedDevices) DeviceLimitReached) (\<lambda>_.
         rbind (insert_device (device_row i l hash now b key) (devices r1)) (\<lambda>ds.
           Inr (r1\<lparr>devices := ds\<rparr>, new_device i l now (public_of_active b)))))"

definition pair_device ::
  "registry_env \<Rightarrow> string \<Rightarrow> string \<Rightarrow> string \<Rightarrow> js_string \<Rightarrow> binding_input \<Rightarrow> string option \<Rightarrow> registry
     \<Rightarrow> registry \<times> (registry_error + paired_device \<times> string)" where
  "pair_device env token i now label input key r = transaction r
     (rbind (validateLabel label) (\<lambda>l.
      rbind (throw_if (\<not> optional_relay_key key) SchemaError) (\<lambda>_.
      rbind (active_of_input input) (\<lambda>b.
      rbind (pair_statements i now l (hashDeviceToken env token) input b key r) (\<lambda>(r', dev).
        Inr (r', (dev, token)))))))"

record device_claim =
  dc_deviceId :: string
  dc_machineId :: string
  dc_expiresAt :: string
  dc_token :: string

definition claim_device ::
  "registry_env \<Rightarrow> string \<Rightarrow> string \<Rightarrow> js_string \<Rightarrow> string \<Rightarrow> string option \<Rightarrow> int \<Rightarrow> registry
     \<Rightarrow> registry \<times> (registry_error + device_claim)" where
  "claim_device env token i label mid key nowMs r = transaction r
     (rbind (validateLabel label) (\<lambda>l.
      rbind (throw_if (\<not> machineIdSchema mid) SchemaError) (\<lambda>_.
      rbind (throw_if (\<not> optional_relay_key key) SchemaError) (\<lambda>_.
        let cs = filter (\<lambda>c. \<not> (pc_expires_at c \<le> nowMs \<or> pc_machine_id c = mid)) (claims r)
        in rbind (throw_if (length cs \<ge> maximumPairedDevices
               \<or> length (filter (\<lambda>d. live d \<and> \<not> machine_row mid d) (devices r)) \<ge> maximumPairedDevices)
               DeviceLimitReached) (\<lambda>_.
           rbind (insert_claim
               \<lparr>pc_id = i, pc_label = l, pc_token_hash = hashDeviceToken env token, pc_machine_id = mid,
                pc_expires_at = nowMs + pendingDeviceClaimTtlMs, pc_channel_public_key = key\<rparr> cs) (\<lambda>cs'.
             Inr (r\<lparr>claims := cs'\<rparr>,
               \<lparr>dc_deviceId = i, dc_machineId = mid,
                dc_expiresAt = to_iso env (nowMs + pendingDeviceClaimTtlMs), dc_token = token\<rparr>)))))))"

record verified_credential =
  vc_device :: paired_device
  vc_binding :: active_binding
  vc_channelPublicKey :: "string option"

definition live_row :: "registry_env \<Rightarrow> string \<Rightarrow> registry \<Rightarrow> stored_device option" where
  "live_row env token r = find (\<lambda>d. sd_token_hash d = hashDeviceToken env token \<and> live d) (devices r)"

definition verify_token :: "registry_env \<Rightarrow> string \<Rightarrow> registry \<Rightarrow> registry_error + verified_credential option" where
  "verify_token env token r =
     (if token = [] then Inr None
      else (case live_row env token r of
              None \<Rightarrow> Inr None
            | Some row \<Rightarrow> (case credentialBinding row of
                None \<Rightarrow> Inr None
              | Some b \<Rightarrow>
                  rbind (throw_if (\<not> optional_relay_key (sd_channel_public_key row)) SchemaError) (\<lambda>_.
                  rbind (toPairedDevice env row) (\<lambda>dev.
                    Inr (Some \<lparr>vc_device = dev, vc_binding = b, vc_channelPublicKey = sd_channel_public_key row\<rparr>))))))"

definition isActive :: "registry_env \<Rightarrow> string \<Rightarrow> registry \<Rightarrow> bool" where
  "isActive env token r =
     (token \<noteq> [] \<and> (case live_row env token r of None \<Rightarrow> False | Some row \<Rightarrow> credentialBinding row \<noteq> None))"

text \<open>The part of \<open>confirmClaim\<close> after no active machine credential answered.\<close>

definition confirm_pending ::
  "registry_env \<Rightarrow> string \<Rightarrow> string \<Rightarrow> int \<Rightarrow> registry \<Rightarrow> registry_error + (registry \<times> paired_device option)" where
  "confirm_pending env token mid nowMs r =
     (case find (\<lambda>c. pc_token_hash c = hashDeviceToken env token \<and> pc_machine_id c = mid) (claims r) of
        None \<Rightarrow> Inr (r, None)
      | Some c \<Rightarrow>
          rbind (throw_if (\<not> optional_relay_key (pc_channel_public_key c)) SchemaError) (\<lambda>_.
            let pairedAt = to_iso env nowMs;
                ds = revoke_machine pairedAt mid (devices r)
            in rbind (throw_if (live_total ds \<ge> maximumPairedDevices) DeviceLimitReached) (\<lambda>_.
               rbind (insert_device ((device_row (pc_id c) (pc_label c) (pc_token_hash c) pairedAt
                        (ActiveMachine mid) (pc_channel_public_key c))) ds) (\<lambda>ds'.
                 Inr (r\<lparr>devices := ds', claims := filter (\<lambda>x. pc_id x \<noteq> pc_id c) (claims r)\<rparr>,
                      Some (new_device (pc_id c) (pc_label c) pairedAt (MachineBinding mid)))))))"

definition confirm_claim ::
  "registry_env \<Rightarrow> string \<Rightarrow> string \<Rightarrow> int \<Rightarrow> registry \<Rightarrow> registry \<times> (registry_error + paired_device option)" where
  "confirm_claim env token mid nowMs r = transaction r
     (let r1 = r\<lparr>claims := filter (\<lambda>c. \<not> pc_expires_at c \<le> nowMs) (claims r)\<rparr>
      in rbind (verify_token env token r1) (\<lambda>active.
        case active of
          Some v \<Rightarrow>
            if vc_binding v = ActiveMachine mid then Inr (r1, Some (vc_device v))
            else confirm_pending env token mid nowMs r1
        | None \<Rightarrow> confirm_pending env token mid nowMs r1))"

definition mark_seen :: "string \<Rightarrow> string \<Rightarrow> registry \<Rightarrow> registry" where
  "mark_seen i seenAt r =
     update_device i (\<lambda>d. if live d then d\<lparr>sd_last_seen_at := Some seenAt\<rparr> else d) r"

definition rotate_device ::
  "registry_env \<Rightarrow> string \<Rightarrow> string \<Rightarrow> registry \<Rightarrow> registry \<times> (registry_error + paired_device \<times> string)" where
  "rotate_device env token i r =
     (case find (\<lambda>d. sd_id d = i \<and> live d) (devices r) of
        None \<Rightarrow> (r, Inl (DeviceNotFound i))
      | Some row \<Rightarrow>
          if hashDeviceToken env token \<in> sd_token_hash ` {d \<in> set (devices r). sd_id d \<noteq> i}
          then (r, Inl UniqueConstraint)
          else (update_device i (\<lambda>d. d\<lparr>sd_token_hash := hashDeviceToken env token\<rparr>) r,
                rbind (toPairedDevice env row) (\<lambda>dev. Inr (dev, token))))"

definition revoke_device :: "registry_env \<Rightarrow> string \<Rightarrow> string \<Rightarrow> registry \<Rightarrow> registry \<times> (registry_error + paired_device)" where
  "revoke_device env now i r =
     (case device_by_id i (devices r) of
        None \<Rightarrow> (r, Inl (DeviceNotFound i))
      | Some row \<Rightarrow>
          let revokedAt = (case sd_revoked_at row of None \<Rightarrow> now | Some t \<Rightarrow> t)
          in (update_device i (\<lambda>d. d\<lparr>sd_revoked_at := Some revokedAt\<rparr>) r,
              toPairedDevice env (row\<lparr>sd_revoked_at := Some revokedAt\<rparr>)))"

definition rename_device ::
  "registry_env \<Rightarrow> string \<Rightarrow> js_string \<Rightarrow> js_string option \<Rightarrow> registry \<Rightarrow> registry \<times> (registry_error + paired_device)" where
  "rename_device env i label expected r =
     (case validateRenameLabel label of
        Inl e \<Rightarrow> (r, Inl e)
      | Inr renamed \<Rightarrow>
          let matches = (\<lambda>d. sd_id d = i \<and> (case expected of None \<Rightarrow> True | Some l \<Rightarrow> sd_label d = l));
              changes = length (filter matches (devices r));
              r' = r\<lparr>devices := map (\<lambda>d. if matches d then d\<lparr>sd_label := renamed\<rparr> else d) (devices r)\<rparr>
          in case device_by_id i (devices r') of
               None \<Rightarrow> (r', Inl (DeviceNotFound i))
             | Some row \<Rightarrow>
                 if changes = 0
                 then (r', rbind (toPairedDevice env row) (\<lambda>dev. Inl (DeviceLabelMismatch dev)))
                 else (r', toPairedDevice env row))"

fun all_results :: "('e + 'a) list \<Rightarrow> 'e + 'a list" where
  "all_results [] = Inr []"
| "all_results (x # xs) = rbind x (\<lambda>a. rbind (all_results xs) (\<lambda>as. Inr (a # as)))"

definition list_devices :: "registry_env \<Rightarrow> registry \<Rightarrow> registry_error + paired_device list" where
  "list_devices env r =
     all_results (map (toPairedDevice env) (sort_key (\<lambda>d. (sd_paired_at d, sd_id d)) (devices r)))"

section \<open>Sample data\<close>

text \<open>Concrete inputs at which the properties below are applied.\<close>

definition sample_env :: registry_env where
  "sample_env = \<lparr>sha256_hex = (\<lambda>token. ''hash-'' @ token), offsetDateTimeSchema = (\<lambda>_. True), to_iso = (\<lambda>_. ''now'')\<rparr>"

definition sample_device_id :: "char \<Rightarrow> string" where
  "sample_device_id c = ''device-'' @ replicate 32 c"

definition sample_machine_id :: "char \<Rightarrow> string" where
  "sample_machine_id c = ''machine-'' @ replicate 32 c"

definition sample_registry :: registry where
  "sample_registry = \<lparr>devices =
     [device_row (sample_device_id (CHR ''1'')) [65] ''hash-one'' ''t0'' (ActiveMachine (sample_machine_id (CHR ''a''))) None,
      device_row (sample_device_id (CHR ''2'')) [66] ''hash-two'' ''t0'' (ActiveClient Phone Full) None],
     claims = []\<rparr>"

section \<open>The registry as a machine\<close>

datatype registry_op =
    OpPair string string string js_string binding_input "string option"
  | OpClaim string string js_string string "string option" int
  | OpConfirm string string int
  | OpMarkSeen string string
  | OpRotate string string
  | OpRevoke string string
  | OpRename string js_string "js_string option"

fun registry_step :: "registry_env \<Rightarrow> registry_op \<Rightarrow> registry \<Rightarrow> registry" where
  "registry_step env (OpPair token i now label input key) r = fst (pair_device env token i now label input key r)"
| "registry_step env (OpClaim token i label mid key nowMs) r = fst (claim_device env token i label mid key nowMs r)"
| "registry_step env (OpConfirm token mid nowMs) r = fst (confirm_claim env token mid nowMs r)"
| "registry_step env (OpMarkSeen i seenAt) r = mark_seen i seenAt r"
| "registry_step env (OpRotate token i) r = fst (rotate_device env token i r)"
| "registry_step env (OpRevoke now i) r = fst (revoke_device env now i r)"
| "registry_step env (OpRename i label expected) r = fst (rename_device env i label expected r)"

definition devices_ok :: "stored_device list \<Rightarrow> bool" where
  "devices_ok ds \<longleftrightarrow> distinct (map sd_id ds) \<and> distinct (map sd_token_hash ds) \<and>
     live_total ds \<le> maximumPairedDevices \<and>
     (\<forall>mid. length (filter (\<lambda>d. machine_row mid d \<and> live d) ds) \<le> 1)"

definition claims_ok :: "pending_claim list \<Rightarrow> bool" where
  "claims_ok cs \<longleftrightarrow> distinct (map pc_id cs) \<and> distinct (map pc_token_hash cs) \<and>
     distinct (map pc_machine_id cs) \<and> length cs \<le> maximumPairedDevices"

definition registry_ok :: "registry \<Rightarrow> bool" where
  "registry_ok r \<longleftrightarrow> devices_ok (devices r) \<and> claims_ok (claims r)"

definition empty_registry :: registry where
  "empty_registry = \<lparr>devices = [], claims = []\<rparr>"

subsection \<open>Facts about the statements\<close>

lemma transaction_Inr_iff: "transaction r m = (r', Inr a) \<longleftrightarrow> m = Inr (r', a)"
  by (cases m) (auto simp: transaction_def)

lemma transaction_Inl_iff: "transaction r m = (r', Inl e) \<longleftrightarrow> m = Inl e \<and> r' = r"
  by (cases m) (auto simp: transaction_def)

lemma fst_transaction: "P r \<Longrightarrow> (\<And>r' a. m = Inr (r', a) \<Longrightarrow> P r') \<Longrightarrow> P (fst (transaction r m))"
  by (cases m) (auto simp: transaction_def)

lemma filter_length_mono: "(\<And>x. x \<in> set xs \<Longrightarrow> P x \<Longrightarrow> Q x) \<Longrightarrow> length (filter P xs) \<le> length (filter Q xs)"
  by (induction xs) (auto intro: le_SucI)

lemma filter_map_length_mono:
  "(\<And>x. x \<in> set xs \<Longrightarrow> P (f x) \<Longrightarrow> Q x) \<Longrightarrow> length (filter P (map f xs)) \<le> length (filter Q xs)"
  unfolding filter_map length_map by (rule filter_length_mono) auto

text \<open>A statement that rewrites rows but grants nothing.\<close>

definition grants_nothing :: "(stored_device \<Rightarrow> stored_device) \<Rightarrow> bool" where
  "grants_nothing f \<longleftrightarrow> (\<forall>d. sd_id (f d) = sd_id d \<and> sd_token_hash (f d) = sd_token_hash d
     \<and> sd_credential_role (f d) = sd_credential_role d \<and> sd_machine_id (f d) = sd_machine_id d
     \<and> (live (f d) \<longrightarrow> live d))"

lemma devices_ok_map:
  assumes g: "grants_nothing f" and ok: "devices_ok ds"
  shows "devices_ok (map f ds)"
  unfolding devices_ok_def
proof (intro conjI allI)
  have "map sd_id (map f ds) = map sd_id ds" "map sd_token_hash (map f ds) = map sd_token_hash ds"
    using g by (simp_all add: grants_nothing_def)
  then show "distinct (map sd_id (map f ds))" "distinct (map sd_token_hash (map f ds))"
    using ok by (simp_all only: devices_ok_def)
  have "live_total (map f ds) \<le> live_total ds"
    unfolding live_total_def using g by (intro filter_map_length_mono) (simp add: grants_nothing_def)
  then show "live_total (map f ds) \<le> maximumPairedDevices"
    using ok by (simp add: devices_ok_def)
  show "length (filter (\<lambda>d. machine_row mid d \<and> live d) (map f ds)) \<le> 1" for mid
  proof -
    have "length (filter (\<lambda>d. machine_row mid d \<and> live d) (map f ds))
        \<le> length (filter (\<lambda>d. machine_row mid d \<and> live d) ds)"
      using g by (intro filter_map_length_mono) (simp add: grants_nothing_def machine_row_def)
    also have "\<dots> \<le> 1" using ok by (simp add: devices_ok_def)
    finally show ?thesis .
  qed
qed

lemma grants_nothing_revoke:
  "grants_nothing (\<lambda>d. if machine_row mid d \<and> live d then d\<lparr>sd_revoked_at := Some now\<rparr> else d)"
  by (simp add: grants_nothing_def)

lemma devices_ok_revoke_machine: "devices_ok ds \<Longrightarrow> devices_ok (revoke_machine now mid ds)"
  unfolding revoke_machine_def by (rule devices_ok_map [OF grants_nothing_revoke])

lemma revoke_machine_none_live: "d \<in> set (revoke_machine now mid ds) \<Longrightarrow> machine_row mid d \<Longrightarrow> \<not> live d"
  by (auto simp: revoke_machine_def machine_row_def)

lemma devices_ok_insert:
  assumes ok: "devices_ok ds" and ins: "insert_device d ds = Inr ds'"
    and room: "live_total ds < maximumPairedDevices"
    and sole: "\<And>mid x. machine_row mid d \<Longrightarrow> x \<in> set ds \<Longrightarrow> machine_row mid x \<Longrightarrow> \<not> live x"
  shows "devices_ok ds'"
proof -
  have ds': "ds' = ds @ [d]" and new: "sd_id d \<notin> sd_id ` set ds" "sd_token_hash d \<notin> sd_token_hash ` set ds"
    using ins by (auto simp: insert_device_def split: if_splits)
  have "length (filter (\<lambda>x. machine_row mid x \<and> live x) ds') \<le> 1" for mid
  proof (cases "machine_row mid d")
    case True
    then have "filter (\<lambda>x. machine_row mid x \<and> live x) ds = []"
      using sole by (auto simp: filter_empty_conv)
    then show ?thesis by (simp add: ds')
  next
    case False
    then show ?thesis using ok by (simp add: ds' devices_ok_def)
  qed
  then show ?thesis
    using ok new room by (auto simp: devices_ok_def ds' live_total_def)
qed

lemma claims_ok_filter: "claims_ok cs \<Longrightarrow> claims_ok (filter P cs)"
  unfolding claims_ok_def by (auto intro: distinct_map_filter order_trans [OF length_filter_le])

lemma claims_ok_insert:
  "claims_ok cs \<Longrightarrow> insert_claim c cs = Inr cs' \<Longrightarrow> length cs < maximumPairedDevices \<Longrightarrow> claims_ok cs'"
  by (auto simp: insert_claim_def claims_ok_def split: if_splits)

lemma machine_row_device_row [simp]:
  "machine_row mid (device_row i l h now b key) \<longleftrightarrow> b = ActiveMachine mid"
  by (auto simp: device_row_def machine_row_def split: active_binding.splits)

subsection \<open>Every operation keeps the registry well formed\<close>

lemma pair_statements_ok:
  assumes ok: "registry_ok r" and b: "active_of_input input = Inr b"
    and step: "pair_statements i now l hash input b key r = Inr (r', dev)"
  shows "registry_ok r'"
proof (cases input)
  case (BindMachine mid)
  have b: "b = ActiveMachine mid" using b by (simp add: BindMachine active_of_input_def split: if_splits)
  let ?ds = "revoke_machine now mid (devices r)"
  from step obtain ds where room: "live_total ?ds < maximumPairedDevices"
    and ins: "insert_device (device_row i l hash now b key) ?ds = Inr ds"
    and r': "r' = r\<lparr>claims := filter (\<lambda>c. pc_machine_id c \<noteq> mid) (claims r), devices := ds\<rparr>"
    by (auto simp: pair_statements_def BindMachine result_simps Let_def not_le)
  have "devices_ok ds"
    using ok by (intro devices_ok_insert [OF devices_ok_revoke_machine ins room])
      (auto simp: registry_ok_def b dest: revoke_machine_none_live)
  with ok show ?thesis by (simp add: r' registry_ok_def claims_ok_filter)
next
  case (BindClient k ac)
  have b: "b = ActiveClient k (case ac of None \<Rightarrow> Full | Some x \<Rightarrow> x)"
    using b by (simp add: BindClient active_of_input_def)
  from step obtain ds where room: "live_total (devices r) < maximumPairedDevices"
    and ins: "insert_device (device_row i l hash now b key) (devices r) = Inr ds"
    and r': "r' = r\<lparr>devices := ds\<rparr>"
    by (auto simp: pair_statements_def BindClient result_simps Let_def not_le)
  have "devices_ok ds"
    using ok by (intro devices_ok_insert [OF _ ins room]) (auto simp: registry_ok_def b)
  with ok show ?thesis by (simp add: r' registry_ok_def)
qed

lemma pair_device_ok: "registry_ok r \<Longrightarrow> registry_ok (fst (pair_device env token i now label input key r))"
  unfolding pair_device_def
  by (rule fst_transaction [where P = registry_ok]) (auto simp: result_simps intro: pair_statements_ok)

lemma claim_device_devices: "devices (fst (claim_device env token i label mid key nowMs r)) = devices r"
  unfolding claim_device_def by (rule fst_transaction [where P = "\<lambda>x. devices x = devices r"]) (auto simp: result_simps Let_def)

lemma claim_device_ok: "registry_ok r \<Longrightarrow> registry_ok (fst (claim_device env token i label mid key nowMs r))"
  unfolding claim_device_def
  by (rule fst_transaction [where P = registry_ok])
     (auto simp: result_simps Let_def registry_ok_def not_le elim!: claims_ok_insert [OF claims_ok_filter])

lemma confirm_pending_ok:
  assumes ok: "registry_ok r" and step: "confirm_pending env token mid nowMs r = Inr (r', a)"
  shows "registry_ok r'"
proof (cases "find (\<lambda>c. pc_token_hash c = hashDeviceToken env token \<and> pc_machine_id c = mid) (claims r)")
  case None
  with step ok show ?thesis by (simp add: confirm_pending_def)
next
  case (Some c)
  let ?ds = "revoke_machine (to_iso env nowMs) mid (devices r)"
  from step obtain ds where room: "live_total ?ds < maximumPairedDevices"
    and ins: "insert_device (device_row (pc_id c) (pc_label c) (pc_token_hash c) (to_iso env nowMs)
        (ActiveMachine mid) (pc_channel_public_key c)) ?ds = Inr ds"
    and r': "r' = r\<lparr>devices := ds, claims := filter (\<lambda>x. pc_id x \<noteq> pc_id c) (claims r)\<rparr>"
    by (auto simp: confirm_pending_def Some result_simps Let_def not_le)
  have "devices_ok ds"
    using ok by (intro devices_ok_insert [OF devices_ok_revoke_machine ins room])
      (auto simp: registry_ok_def dest: revoke_machine_none_live)
  with ok show ?thesis by (simp add: r' registry_ok_def claims_ok_filter)
qed

lemma registry_ok_expire: "registry_ok r \<Longrightarrow> registry_ok (r\<lparr>claims := filter P (claims r)\<rparr>)"
  by (simp add: registry_ok_def claims_ok_filter)

lemma confirm_claim_ok: "registry_ok r \<Longrightarrow> registry_ok (fst (confirm_claim env token mid nowMs r))"
  unfolding confirm_claim_def
  by (rule fst_transaction [where P = registry_ok])
     (auto simp: result_simps Let_def registry_ok_expire split: option.splits if_splits
        intro: confirm_pending_ok [OF registry_ok_expire])

lemma update_device_ok: "grants_nothing f \<Longrightarrow> registry_ok r \<Longrightarrow> registry_ok (update_device i f r)"
  unfolding update_device_def registry_ok_def
  by (auto intro!: devices_ok_map simp: grants_nothing_def)

lemma mark_seen_ok: "registry_ok r \<Longrightarrow> registry_ok (mark_seen i seenAt r)"
  unfolding mark_seen_def by (rule update_device_ok) (simp_all add: grants_nothing_def)

lemma revoke_device_ok: "registry_ok r \<Longrightarrow> registry_ok (fst (revoke_device env now i r))"
  by (auto simp: revoke_device_def Let_def grants_nothing_def intro: update_device_ok split: option.splits)

lemma rename_device_ok: "registry_ok r \<Longrightarrow> registry_ok (fst (rename_device env i label expected r))"
  unfolding rename_device_def registry_ok_def
  by (auto simp: Let_def grants_nothing_def intro!: devices_ok_map split: option.splits sum.splits)

lemma rotate_device_ok:
  assumes ok: "registry_ok r"
  shows "registry_ok (fst (rotate_device env token i r))"
proof (cases "find (\<lambda>d. sd_id d = i \<and> live d) (devices r)")
  case None
  with ok show ?thesis by (simp add: rotate_device_def)
next
  case (Some row)
  let ?h = "hashDeviceToken env token"
  show ?thesis
  proof (cases "?h \<in> sd_token_hash ` {d \<in> set (devices r). sd_id d \<noteq> i}")
    case True
    with ok show ?thesis by (simp add: rotate_device_def Some)
  next
    case False
    let ?f = "\<lambda>d. if sd_id d = i then d\<lparr>sd_token_hash := ?h\<rparr> else d"
    have dist: "distinct (map sd_id (devices r))" "distinct (map sd_token_hash (devices r))"
      using ok by (simp_all add: registry_ok_def devices_ok_def)
    have "distinct (map sd_token_hash (map ?f ds))"
      if "set ds \<subseteq> set (devices r)" "distinct (map sd_id ds)" "distinct (map sd_token_hash ds)" for ds
      using that False by (induction ds) (auto simp: image_iff)
    then have "distinct (map sd_token_hash (map ?f (devices r)))" using dist by blast
    moreover have "map sd_id (map ?f (devices r)) = map sd_id (devices r)" by simp
    moreover have "live_total (map ?f (devices r)) = live_total (devices r)"
      by (simp add: live_total_def filter_map comp_def if_distrib cong: if_cong)
    moreover have "length (filter (\<lambda>d. machine_row mid d \<and> live d) (map ?f (devices r)))
        = length (filter (\<lambda>d. machine_row mid d \<and> live d) (devices r))" for mid
      by (simp add: filter_map comp_def machine_row_def if_distrib cong: if_cong)
    ultimately have "devices_ok (map ?f (devices r))"
      using ok unfolding registry_ok_def devices_ok_def by (simp only: simp_thms)
    with ok False show ?thesis
      by (simp add: rotate_device_def Some update_device_def registry_ok_def)
  qed
qed

lemma registry_step_ok: "registry_ok r \<Longrightarrow> registry_ok (registry_step env op r)"
  by (cases op)
     (simp_all add: pair_device_ok claim_device_ok confirm_claim_ok mark_seen_ok rotate_device_ok
        revoke_device_ok rename_device_ok)

interpretation reg: machine_invariant "registry_step env" registry_ok
  by unfold_locales (rule registry_step_ok)

lemma empty_registry_ok: "registry_ok empty_registry"
  by (simp add: registry_ok_def devices_ok_def claims_ok_def empty_registry_def live_total_def)

text \<open>
  C12. The registry stays well formed under every sequence of its operations, failed ones
  included: ids and credential hashes are unique, at most 128 devices are live, at most 128
  claims wait, and no machine ever holds two live credentials or two waiting claims.
\<close>

theorem registry_invariant: "registry_ok (fold (registry_step env) ops empty_registry)"
  by (rule reg.inv_run) (rule empty_registry_ok)

subsection \<open>Evaluating the sample\<close>

lemma hex_digit_samples [simp]: "hex_lower (CHR ''1'')" "hex_lower (CHR ''2'')" "hex_lower (CHR ''a'')" "hex_lower (CHR ''b'')"
  by (simp_all add: hex_lower_def)

lemma sample_ids [simp]: "hex_lower c \<Longrightarrow> deviceIdSchema (sample_device_id c)" "hex_lower c \<Longrightarrow> machineIdSchema (sample_machine_id c)"
  unfolding deviceIdSchema_def machineIdSchema_def sample_device_id_def sample_machine_id_def
  by (simp_all only: tagged_hex_replicate simp_thms)

lemma sample_ids_inject [simp]: "sample_device_id c = sample_device_id d \<longleftrightarrow> c = d" "sample_machine_id c = sample_machine_id d \<longleftrightarrow> c = d"
  by (simp_all add: sample_device_id_def sample_machine_id_def)

lemmas registry_eval = verify_token_def live_row_def credentialBinding_def toPairedDevice_def pairedDeviceSchema_def
  publicCredentialBinding_def deviceCredentialBindingSchema_def
  optional_datetime_def optional_relay_key_def hashDeviceToken_def sample_env_def sample_registry_def device_row_def
  deviceLabelSchema_def js_trim_def js_whitespace_def maximumPairedDeviceLabelLength_def clientKindSchema_def
  clientAccessSchema_def throw_if_def update_device_def mark_seen_def revoke_device_def device_by_id_def Let_def

lemma sample_registry_ok: "registry_ok sample_registry"
  by (simp add: registry_ok_def devices_ok_def claims_ok_def sample_registry_def live_total_def
        device_row_def maximumPairedDevices_def machine_row_def)

section \<open>Revocation is permanent\<close>

text \<open>No statement deletes a device row or clears a revocation.\<close>

definition rows_kept :: "stored_device list \<Rightarrow> stored_device list \<Rightarrow> bool" where
  "rows_kept ds ds' \<longleftrightarrow> (\<forall>d\<in>set ds. \<exists>d'\<in>set ds'. sd_id d' = sd_id d \<and> (\<not> live d \<longrightarrow> \<not> live d'))"

lemma rows_kept_refl [simp]: "rows_kept ds ds"
  by (auto simp: rows_kept_def)

lemma rows_kept_map: "(\<And>d. sd_id (f d) = sd_id d \<and> (\<not> live d \<longrightarrow> \<not> live (f d))) \<Longrightarrow> rows_kept ds (map f ds)"
  by (auto simp: rows_kept_def)

lemma rows_kept_revoke [simp]: "rows_kept ds (revoke_machine now mid ds)"
  unfolding revoke_machine_def by (rule rows_kept_map) auto

lemma rows_kept_insert: "rows_kept ds ds1 \<Longrightarrow> insert_device d ds1 = Inr ds' \<Longrightarrow> rows_kept ds ds'"
  by (fastforce simp: rows_kept_def insert_device_def split: if_splits)

lemma confirm_pending_rows: "confirm_pending env token mid nowMs r = Inr (r', a) \<Longrightarrow> rows_kept (devices r) (devices r')"
  by (auto simp: confirm_pending_def result_simps Let_def split: option.splits
      intro: rows_kept_insert [OF rows_kept_revoke])

lemma registry_step_rows: "rows_kept (devices r) (devices (registry_step env op r))"
proof (cases op)
  case (OpPair token i now label input key)
  have "rows_kept (devices r) (devices r')"
    if "pair_statements i now l h input b key r = Inr (r', dev)" for l h b r' dev
    using that by (cases input)
      (auto simp: pair_statements_def result_simps Let_def intro: rows_kept_insert [OF rows_kept_revoke]
        rows_kept_insert [OF rows_kept_refl])
  then show ?thesis
    unfolding OpPair registry_step.simps pair_device_def
    by (intro fst_transaction [where P = "\<lambda>x. rows_kept (devices r) (devices x)"]) (auto simp: result_simps)
next
  case (OpConfirm token mid nowMs)
  have "rows_kept (devices r) (devices r')"
    if "confirm_pending env token mid nowMs (r\<lparr>claims := cs\<rparr>) = Inr (r', a)" for cs r' a
    using confirm_pending_rows [OF that] by simp
  then show ?thesis
    unfolding OpConfirm registry_step.simps confirm_claim_def
    by (intro fst_transaction [where P = "\<lambda>x. rows_kept (devices r) (devices x)"])
       (auto simp: result_simps Let_def split: option.splits if_splits)
qed (auto simp: claim_device_devices mark_seen_def update_device_def rotate_device_def revoke_device_def
       rename_device_def Let_def intro!: rows_kept_map split: option.splits sum.splits)

definition revoked_id :: "string \<Rightarrow> registry \<Rightarrow> bool" where
  "revoked_id i r \<longleftrightarrow> (\<exists>d\<in>set (devices r). sd_id d = i \<and> \<not> live d)"

interpretation revoked: machine_stable "registry_step env" registry_ok "revoked_id i"
  by unfold_locales (use registry_step_rows in \<open>fastforce simp: revoked_id_def rows_kept_def\<close>)

lemma toPairedDevice_id: "toPairedDevice env row = Inr dev \<Longrightarrow> pd_id dev = sd_id row"
  by (auto simp: toPairedDevice_def pairedDeviceSchema_def split: option.splits if_splits)

lemma live_row_Some: "live_row env token r = Some row \<Longrightarrow>
    row \<in> set (devices r) \<and> sd_token_hash row = hashDeviceToken env token \<and> live row"
  unfolding live_row_def by (drule find_Some_in_set) simp

lemma live_row_unique:
  assumes "distinct (map sd_token_hash (devices r))" and "row \<in> set (devices r)"
    and "sd_token_hash row = hashDeviceToken env token" and "live row"
  shows "live_row env token r = Some row"
proof -
  obtain x where x: "live_row env token r = Some x"
    using assms unfolding live_row_def by (cases "find (\<lambda>d. sd_token_hash d = hashDeviceToken env token \<and> live d) (devices r)")
      (auto simp: find_None_all)
  from live_row_Some [OF x] assms have "x = row"
    by (metis distinct_map inj_on_def)
  with x show ?thesis by simp
qed

lemma verify_token_Some:
  assumes "verify_token env token r = Inr (Some v)"
  obtains row where "token \<noteq> []" "live_row env token r = Some row" "credentialBinding row = Some (vc_binding v)"
    "toPairedDevice env row = Inr (vc_device v)" "optional_relay_key (sd_channel_public_key row)"
    "vc_channelPublicKey v = sd_channel_public_key row"
  using assms by (auto simp: verify_token_def result_simps split: if_splits option.splits)

lemma verify_tokenI:
  assumes "token \<noteq> []" "live_row env token r = Some row" "credentialBinding row = Some b"
    "toPairedDevice env row = Inr dev" "optional_relay_key (sd_channel_public_key row)"
  shows "verify_token env token r = Inr (Some \<lparr>vc_device = dev, vc_binding = b,
    vc_channelPublicKey = sd_channel_public_key row\<rparr>)"
  using assms by (simp add: verify_token_def throw_if_def)

lemma revoked_id_not_verified:
  assumes ok: "registry_ok r" and rev: "revoked_id i r" and v: "verify_token env token r = Inr (Some v)"
  shows "pd_id (vc_device v) \<noteq> i"
proof
  assume eq: "pd_id (vc_device v) = i"
  from v obtain row where row: "live_row env token r = Some row" and dev: "toPairedDevice env row = Inr (vc_device v)"
    by (rule verify_token_Some)
  from rev obtain d where d: "d \<in> set (devices r)" "sd_id d = i" "\<not> live d" by (auto simp: revoked_id_def)
  have "row = d"
    using ok live_row_Some [OF row] toPairedDevice_id [OF dev] d eq
    by (auto simp: registry_ok_def devices_ok_def distinct_map inj_on_def)
  with live_row_Some [OF row] d show False by simp
qed

lemma revoke_device_revokes:
  assumes "revoke_device env now i r = (r', Inr dev)"
  shows "revoked_id i r'"
proof -
  from assms obtain row t where row: "device_by_id i (devices r) = Some row"
    and r': "r' = update_device i (\<lambda>d. d\<lparr>sd_revoked_at := Some t\<rparr>) r"
    by (auto simp: revoke_device_def Let_def split: option.splits)
  have "row \<in> set (devices r)" "sd_id row = i"
    using find_Some_in_set [OF row [unfolded device_by_id_def]] by auto
  then have "row\<lparr>sd_revoked_at := Some t\<rparr> \<in> set (devices r')"
    by (auto simp: r' update_device_def)
  then show ?thesis using \<open>sd_id row = i\<close> by (auto simp: revoked_id_def intro: bexI [rotated])
qed

text \<open>
  C1. Revocation is permanent: once \<open>revoke\<close> has returned, no sequence of later operations
  (pairing again, confirming an old claim, rotating, renaming) lets any token authenticate as
  that device again.
\<close>

theorem revocation_is_permanent:
  assumes "registry_ok r" and "revoke_device env now i r = (r', Inr dev)"
    and "verify_token env token (fold (registry_step env) ops r') = Inr (Some v)"
  shows "pd_id (vc_device v) \<noteq> i"
proof -
  have ok: "registry_ok r'" using revoke_device_ok [OF assms(1), of env now i] assms(2) by simp
  show ?thesis
    by (rule revoked_id_not_verified [OF reg.inv_run [OF ok]
          revoked.stable_run [OF ok revoke_device_revokes [OF assms(2)]] assms(3)])
qed

theorem revocation_is_permanent_witness:
  "pd_id (vc_device (the (projr (verify_token sample_env ''two''
     (fold (registry_step sample_env) [OpMarkSeen (sample_device_id (CHR ''2'')) ''t1'']
        (fst (revoke_device sample_env ''t1'' (sample_device_id (CHR ''1'')) sample_registry)))))))
   \<noteq> sample_device_id (CHR ''1'')"
proof -
  let ?rev = "revoke_device sample_env ''t1'' (sample_device_id (CHR ''1'')) sample_registry"
  have rev: "?rev = (fst ?rev, Inr (projr (snd ?rev)))" by (rule pair_InrI) (simp add: registry_eval)
  show ?thesis
    by (rule revocation_is_permanent [OF sample_registry_ok rev Inr_SomeI]) (simp_all add: registry_eval)
qed

section \<open>Pairing, rotating and confirming\<close>

lemma device_row_simps [simp]:
  "sd_id (device_row i l h now b key) = i" "sd_token_hash (device_row i l h now b key) = h"
  "live (device_row i l h now b key)" "sd_channel_public_key (device_row i l h now b key) = key"
  by (simp_all add: device_row_def)

lemma credentialBinding_device_row:
  "(case b of ActiveMachine m \<Rightarrow> machineIdSchema m | _ \<Rightarrow> True) \<Longrightarrow> credentialBinding (device_row i l h now b key) = Some b"
  by (cases b) (simp_all add: credentialBinding_def device_row_def)

lemma toPairedDevice_device_row:
  assumes "(case b of ActiveMachine m \<Rightarrow> machineIdSchema m | _ \<Rightarrow> True)"
    and "deviceLabelSchema l = Some l" and "deviceIdSchema i" and "offsetDateTimeSchema env now"
  shows "toPairedDevice env (device_row i l h now b key) = Inr (new_device i l now (public_of_active b))"
proof -
  have pub: "publicCredentialBinding (device_row i l h now b key) = public_of_active b"
    using assms(1) by (simp add: publicCredentialBinding_def credentialBinding_device_row)
  show ?thesis
    using assms unfolding toPairedDevice_def pub
    by (cases b) (simp_all add: device_row_def new_device_def pairedDeviceSchema_def optional_datetime_def
        deviceCredentialBindingSchema_def)
qed

lemma validateLabel_Inr: "validateLabel label = Inr l \<longleftrightarrow> l = js_trim label \<and> deviceLabelSchema l = Some l"
  by (auto simp: validateLabel_def deviceLabelSchema_def Let_def)

lemma active_of_input_machine:
  "active_of_input input = Inr b \<Longrightarrow> (case b of ActiveMachine m \<Rightarrow> machineIdSchema m | _ \<Rightarrow> True)"
  by (auto simp: active_of_input_def split: binding_input.splits if_splits)

lemma pair_statements_row:
  "pair_statements i now l h input b key r = Inr (r', dev) \<Longrightarrow>
     device_row i l h now b key \<in> set (devices r') \<and> dev = new_device i l now (public_of_active b)"
  by (auto simp: pair_statements_def result_simps Let_def insert_device_def split: if_splits)

lemma registry_tokens_distinct: "registry_ok r \<Longrightarrow> distinct (map sd_token_hash (devices r))"
  by (simp add: registry_ok_def devices_ok_def)

lemma pair_verifies:
  assumes ok: "registry_ok r" and pair: "pair_device env token i now label input key r = (r', Inr (dev, t))"
    and tok: "token \<noteq> []" and i: "deviceIdSchema i" and now: "offsetDateTimeSchema env now"
  shows "\<exists>b. active_of_input input = Inr b \<and>
      verify_token env t r' = Inr (Some \<lparr>vc_device = dev, vc_binding = b, vc_channelPublicKey = key\<rparr>)"
proof -
  let ?h = "hashDeviceToken env token"
  from pair obtain l b where l: "validateLabel label = Inr l" and key: "optional_relay_key key"
    and b: "active_of_input input = Inr b" and st: "pair_statements i now l ?h input b key r = Inr (r', dev)"
    and t: "t = token"
    by (auto simp: pair_device_def transaction_Inr_iff result_simps)
  let ?row = "device_row i l ?h now b key"
  note row = pair_statements_row [OF st] and mach = active_of_input_machine [OF b]
  have "live_row env token r' = Some ?row"
    using row registry_tokens_distinct [OF pair_statements_ok [OF ok b st]] by (intro live_row_unique) simp_all
  moreover have "toPairedDevice env ?row = Inr dev"
    using toPairedDevice_device_row [OF mach _ i now] row l unfolding validateLabel_Inr by blast
  ultimately show ?thesis
    using verify_tokenI [OF tok, of env r' ?row b dev] key b mach t by (simp add: credentialBinding_device_row)
qed

text \<open>
  The token \<open>pair\<close> returns authenticates at once, as the device it returned and with exactly
  the binding and channel key that were asked for.
\<close>

theorem pair_then_verify:
  assumes ok: "registry_ok r" and pair: "pair_device env token i now label input key r = (r', Inr (dev, t))"
    and tok: "token \<noteq> []" and i: "deviceIdSchema i" and now: "offsetDateTimeSchema env now"
  shows "\<exists>b. active_of_input input = Inr b \<and>
      verify_token env t r' = Inr (Some \<lparr>vc_device = dev, vc_binding = b, vc_channelPublicKey = key\<rparr>)"
  by (rule pair_verifies [OF assms])

theorem pair_then_verify_witness:
  "\<exists>b. active_of_input (BindMachine (sample_machine_id (CHR ''b''))) = Inr b \<and>
     verify_token sample_env ''three'' (fst (pair_device sample_env ''three'' (sample_device_id (CHR ''a'')) ''t1'' [67]
         (BindMachine (sample_machine_id (CHR ''b''))) None sample_registry))
     = Inr (Some \<lparr>vc_device = new_device (sample_device_id (CHR ''a'')) [67] ''t1'' (MachineBinding (sample_machine_id (CHR ''b''))),
                  vc_binding = b, vc_channelPublicKey = None\<rparr>)"
proof (rule pair_then_verify [OF sample_registry_ok])
  show "pair_device sample_env ''three'' (sample_device_id (CHR ''a'')) ''t1'' [67]
      (BindMachine (sample_machine_id (CHR ''b''))) None sample_registry =
    (fst (pair_device sample_env ''three'' (sample_device_id (CHR ''a'')) ''t1'' [67]
      (BindMachine (sample_machine_id (CHR ''b''))) None sample_registry),
     Inr (new_device (sample_device_id (CHR ''a'')) [67] ''t1'' (MachineBinding (sample_machine_id (CHR ''b''))), ''three''))"
    by (simp add: registry_eval pair_device_def pair_statements_def validateLabel_def active_of_input_def
        transaction_def revoke_machine_def insert_device_def live_total_def maximumPairedDevices_def machine_row_def)
qed (simp_all add: sample_env_def)

lemma sole_live_machine_row:
  assumes ok: "registry_ok r" and "x \<in> set (devices r)" "machine_row mid x" "live x"
  shows "filter (\<lambda>d. machine_row mid d \<and> live d) (devices r) = [x]"
proof -
  let ?f = "filter (\<lambda>d. machine_row mid d \<and> live d) (devices r)"
  have "length ?f \<le> 1" using ok by (simp add: registry_ok_def devices_ok_def)
  moreover have "x \<in> set ?f" using assms by simp
  ultimately show ?thesis by (cases ?f) auto
qed

lemma credentialBinding_machine: "credentialBinding row = Some (ActiveMachine mid) \<Longrightarrow> machine_row mid row"
  by (auto simp: credentialBinding_def machine_row_def split: if_splits option.splits)

text \<open>
  Whatever happened since the registry was created, a machine has at most one credential:
  two tokens that both authenticate as the same machine are the same credential.
\<close>

theorem one_credential_per_machine:
  assumes r: "r = fold (registry_step env) ops empty_registry"
    and v: "verify_token env t1 r = Inr (Some v1)" "vc_binding v1 = ActiveMachine mid"
    and w: "verify_token env t2 r = Inr (Some v2)" "vc_binding v2 = ActiveMachine mid"
  shows "hashDeviceToken env t1 = hashDeviceToken env t2 \<and> vc_device v1 = vc_device v2"
proof -
  have ok: "registry_ok r" unfolding r by (rule reg.inv_run) (rule empty_registry_ok)
  from v obtain x where x: "live_row env t1 r = Some x" "credentialBinding x = Some (ActiveMachine mid)"
    "toPairedDevice env x = Inr (vc_device v1)" by (auto elim: verify_token_Some)
  from w obtain y where y: "live_row env t2 r = Some y" "credentialBinding y = Some (ActiveMachine mid)"
    "toPairedDevice env y = Inr (vc_device v2)" by (auto elim: verify_token_Some)
  have "[x] = [y]"
    using sole_live_machine_row [OF ok, of x mid] sole_live_machine_row [OF ok, of y mid] live_row_Some [OF x(1)]
      live_row_Some [OF y(1)] credentialBinding_machine [OF x(2)] credentialBinding_machine [OF y(2)] by simp
  then show ?thesis using live_row_Some [OF x(1)] live_row_Some [OF y(1)] x y by simp
qed

theorem one_credential_per_machine_witness:
  "hashDeviceToken sample_env ''x'' = hashDeviceToken sample_env ''x'' \<and>
   vc_device (the (projr (verify_token sample_env ''x'' (fold (registry_step sample_env)
     [OpPair ''x'' (sample_device_id (CHR ''1'')) ''t0'' [65] (BindMachine (sample_machine_id (CHR ''a''))) None] empty_registry)))) =
   vc_device (the (projr (verify_token sample_env ''x'' (fold (registry_step sample_env)
     [OpPair ''x'' (sample_device_id (CHR ''1'')) ''t0'' [65] (BindMachine (sample_machine_id (CHR ''a''))) None] empty_registry))))"
  by (rule one_credential_per_machine [where mid = "sample_machine_id (CHR ''a'')", OF refl Inr_SomeI _ Inr_SomeI])
     (simp_all add: registry_eval pair_device_def pair_statements_def validateLabel_def active_of_input_def empty_registry_def
        transaction_def revoke_machine_def insert_device_def live_total_def maximumPairedDevices_def machine_row_def)

text \<open>
  Rotation moves the credential to the new token: the new token authenticates as the old
  one did, with the same device, binding and channel key, and the old token no longer does.
\<close>

theorem rotate_moves_credential:
  assumes ok: "registry_ok r" and old: "verify_token env old r = Inr (Some v)" and i: "pd_id (vc_device v) = i"
    and rot: "rotate_device env token i r = (r', Inr res)"
    and tok: "token \<noteq> []" "hashDeviceToken env token \<noteq> hashDeviceToken env old"
  shows "verify_token env token r' = Inr (Some v) \<and> verify_token env old r' = Inr None"
proof -
  let ?h = "hashDeviceToken env token" and ?f = "\<lambda>d. d\<lparr>sd_token_hash := hashDeviceToken env token\<rparr>"
  from old obtain row where lr: "live_row env old r = Some row" and b: "credentialBinding row = Some (vc_binding v)"
    and dev: "toPairedDevice env row = Inr (vc_device v)" and key: "optional_relay_key (sd_channel_public_key row)"
    "vc_channelPublicKey v = sd_channel_public_key row" by (auto elim: verify_token_Some)
  note row = live_row_Some [OF lr]
  have id: "sd_id row = i" using toPairedDevice_id [OF dev] i by simp
  from rot have r': "r' = update_device i ?f r" by (auto simp: rotate_device_def split: option.splits if_splits)
  have ok': "registry_ok r'" using rotate_device_ok [OF ok, of env token i] rot by simp
  have mem: "?f row \<in> set (devices r')" using row id by (auto simp: r' update_device_def)
  have "live_row env token r' = Some (?f row)"
    using row by (intro live_row_unique [OF registry_tokens_distinct [OF ok'] mem]) simp_all
  moreover have "credentialBinding (?f row) = credentialBinding row" "toPairedDevice env (?f row) = toPairedDevice env row"
    by (simp_all add: toPairedDevice_def publicCredentialBinding_def credentialBinding_def)
  ultimately have new: "verify_token env token r' = Inr (Some v)"
    using verify_tokenI [OF tok(1), of env r' "?f row" "vc_binding v" "vc_device v"] key b dev by simp
  have "live_row env old r' = None"
  proof (rule ccontr)
    assume "live_row env old r' \<noteq> None"
    then obtain y where "live_row env old r' = Some y" by blast
    from live_row_Some [OF this] obtain z where "z \<in> set (devices r)" "sd_id z \<noteq> i" "sd_token_hash z = hashDeviceToken env old"
      using tok by (auto simp: r' update_device_def split: if_splits)
    then show False using row id registry_tokens_distinct [OF ok] by (metis distinct_map inj_on_def)
  qed
  with new show ?thesis by (simp add: verify_token_def)
qed

theorem rotate_moves_credential_witness:
  "\<exists>v. verify_token sample_env ''two'' sample_registry = Inr (Some v) \<and>
     verify_token sample_env ''new'' (fst (rotate_device sample_env ''new'' (sample_device_id (CHR ''2'')) sample_registry)) = Inr (Some v) \<and>
     verify_token sample_env ''two'' (fst (rotate_device sample_env ''new'' (sample_device_id (CHR ''2'')) sample_registry)) = Inr None"
proof -
  let ?v = "the (projr (verify_token sample_env ''two'' sample_registry))"
  let ?rot = "rotate_device sample_env ''new'' (sample_device_id (CHR ''2'')) sample_registry"
  have v: "verify_token sample_env ''two'' sample_registry = Inr (Some ?v)"
    by (rule Inr_SomeI) (simp_all add: registry_eval)
  have rot: "?rot = (fst ?rot, Inr (projr (snd ?rot)))"
    by (rule pair_InrI) (auto simp: registry_eval rotate_device_def)
  have "pd_id (vc_device ?v) = sample_device_id (CHR ''2'')" by (simp add: registry_eval)
  from rotate_moves_credential [OF sample_registry_ok v this rot] v show ?thesis
    by (auto simp: hashDeviceToken_def sample_env_def)
qed


lemma confirm_claim_cases:
  assumes conf: "confirm_claim env token mid nowMs r = (r', Inr (Some dev))"
  obtains (active) v where "verify_token env token r = Inr (Some v)" "vc_binding v = ActiveMachine mid"
      "vc_device v = dev" "devices r' = devices r"
  | (pending) c where "c \<in> set (claims r)" "pc_token_hash c = hashDeviceToken env token" "pc_machine_id c = mid"
      "nowMs < pc_expires_at c" "dev = new_device (pc_id c) (pc_label c) (to_iso env nowMs) (MachineBinding mid)"
      "device_row (pc_id c) (pc_label c) (hashDeviceToken env token) (to_iso env nowMs) (ActiveMachine mid)
         (pc_channel_public_key c) \<in> set (devices r')"
proof -
  let ?r1 = "r\<lparr>claims := filter (\<lambda>c. \<not> pc_expires_at c \<le> nowMs) (claims r)\<rparr>"
  have same: "verify_token env token ?r1 = verify_token env token r" by (simp add: verify_token_def live_row_def)
  have pend: thesis if "confirm_pending env token mid nowMs ?r1 = Inr (r', Some dev)"
  proof -
    from that obtain c where c: "find (\<lambda>c. pc_token_hash c = hashDeviceToken env token \<and> pc_machine_id c = mid) (claims ?r1) = Some c"
      and dev: "dev = new_device (pc_id c) (pc_label c) (to_iso env nowMs) (MachineBinding mid)"
      and row: "device_row (pc_id c) (pc_label c) (pc_token_hash c) (to_iso env nowMs) (ActiveMachine mid)
         (pc_channel_public_key c) \<in> set (devices r')"
      by (auto simp: confirm_pending_def result_simps Let_def insert_device_def split: option.splits if_splits)
    from find_Some_in_set [OF c] dev row show thesis by (intro pending [of c]) auto
  qed
  from conf obtain a where a: "verify_token env token r = Inr a"
    and rest: "(case a of Some v \<Rightarrow> if vc_binding v = ActiveMachine mid then Inr (?r1, Some (vc_device v))
        else confirm_pending env token mid nowMs ?r1
      | None \<Rightarrow> confirm_pending env token mid nowMs ?r1) = Inr (r', Some dev)"
    unfolding confirm_claim_def transaction_Inr_iff Let_def rbind_Inr_iff same by blast
  show thesis
  proof (cases "\<exists>v. a = Some v \<and> vc_binding v = ActiveMachine mid")
    case True
    then show thesis using a rest by (auto intro!: active)
  next
    case False
    then show thesis using rest by (intro pend) (auto split: option.splits)
  qed
qed

text \<open>
  C23. \<open>confirmClaim\<close> answers with a device only for a token that already is the machine's active
  credential or that matches a claim of that machine which has not expired; afterwards that
  credential is the machine's only live one.
\<close>

theorem confirm_needs_unexpired_claim:
  assumes ok: "registry_ok r" and conf: "confirm_claim env token mid nowMs r = (r', Inr (Some dev))"
  shows "((\<exists>v. verify_token env token r = Inr (Some v) \<and> vc_binding v = ActiveMachine mid \<and> vc_device v = dev) \<or>
          (\<exists>c\<in>set (claims r). pc_token_hash c = hashDeviceToken env token \<and> pc_machine_id c = mid
             \<and> nowMs < pc_expires_at c \<and> pd_id dev = pc_id c)) \<and>
    (\<exists>row. filter (\<lambda>d. machine_row mid d \<and> live d) (devices r') = [row]
       \<and> sd_token_hash row = hashDeviceToken env token \<and> sd_id row = pd_id dev)"
proof -
  have ok': "registry_ok r'" using confirm_claim_ok [OF ok, of env token mid nowMs] conf by simp
  from conf show ?thesis
  proof (cases rule: confirm_claim_cases)
    case (active v)
    then obtain x where x: "live_row env token r = Some x" "credentialBinding x = Some (ActiveMachine mid)"
      "toPairedDevice env x = Inr dev" by (auto elim: verify_token_Some)
    from active x sole_live_machine_row [OF ok', of x mid] live_row_Some [OF x(1)] credentialBinding_machine [OF x(2)]
    show ?thesis by (auto simp: toPairedDevice_id)
  next
    case (pending c)
    with sole_live_machine_row [OF ok' pending(6)] show ?thesis by (auto simp: new_device_def)
  qed
qed

lemma live_total_revoke_machine:
  "live_total (revoke_machine now mid ds) = length (filter (\<lambda>d. live d \<and> \<not> machine_row mid d) ds)"
  by (induction ds) (auto simp: live_total_def revoke_machine_def)

lemma insert_device_fresh:
  "i \<notin> sd_id ` set ds \<Longrightarrow> h \<notin> sd_token_hash ` set ds \<Longrightarrow>
     insert_device (device_row i l h now b key) (revoke_machine t mid ds) = Inr (revoke_machine t mid ds @ [device_row i l h now b key])"
  by (auto simp: insert_device_def revoke_machine_def image_iff)

lemma live_row_fresh: "hashDeviceToken env token \<notin> sd_token_hash ` set (devices r) \<Longrightarrow> live_row env token r = None"
  by (auto simp: live_row_def find_None_all image_iff)

text \<open>
  A claim grants nothing until it is confirmed, and can be confirmed for exactly five
  minutes: until then every token authenticates as before; a confirmation before the deadline
  returns the claimed device under the trimmed label, and from the deadline on it finds nothing.
\<close>

theorem claim_confirm_window:
  assumes claim: "claim_device env token i label mid key now r = (r1, Inr cl)"
    and fresh: "hashDeviceToken env token \<notin> sd_token_hash ` set (devices r)" "i \<notin> sd_id ` set (devices r)"
  shows "verify_token env other r1 = verify_token env other r \<and>
    snd (confirm_claim env token mid t r1) =
      (if t < now + 300000 then Inr (Some (new_device i (js_trim label) (to_iso env t) (MachineBinding mid))) else Inr None)"
proof -
  let ?c = "\<lparr>pc_id = i, pc_label = js_trim label, pc_token_hash = hashDeviceToken env token, pc_machine_id = mid,
    pc_expires_at = now + 300000, pc_channel_public_key = key\<rparr>"
  let ?cs = "filter (\<lambda>c. \<not> (pc_expires_at c \<le> now \<or> pc_machine_id c = mid)) (claims r)"
  from claim have key: "optional_relay_key key"
    and room: "length (filter (\<lambda>d. live d \<and> \<not> machine_row mid d) (devices r)) < maximumPairedDevices"
    and r1: "r1 = r\<lparr>claims := ?cs @ [?c]\<rparr>"
    by (auto simp: claim_device_def transaction_Inr_iff result_simps Let_def validateLabel_Inr not_le insert_claim_def
        pendingDeviceClaimTtlMs_def split: if_splits)
  have dev: "devices r1 = devices r" by (simp add: r1)
  have other: "verify_token env other r1 = verify_token env other r" for other
    by (simp add: verify_token_def live_row_def dev)
  let ?r2 = "r1\<lparr>claims := filter (\<lambda>c. \<not> pc_expires_at c \<le> t) (claims r1)\<rparr>"
  have none: "verify_token env token ?r2 = Inr None"
    using fresh by (simp add: verify_token_def live_row_fresh dev)
  have find: "find (\<lambda>c. pc_token_hash c = hashDeviceToken env token \<and> pc_machine_id c = mid) (claims ?r2)
      = (if t < now + 300000 then Some ?c else None)"
  proof (cases "t < now + 300000")
    case True
    have "find (\<lambda>c. pc_token_hash c = hashDeviceToken env token \<and> pc_machine_id c = mid) (claims ?r2) = Some ?c"
      by (rule find_unique) (use True in \<open>auto simp: r1\<close>)
    with True show ?thesis by simp
  qed (auto simp: r1 find_None_all)
  have "snd (confirm_claim env token mid t r1) =
      (if t < now + 300000 then Inr (Some (new_device i (js_trim label) (to_iso env t) (MachineBinding mid))) else Inr None)"
    using key room fresh unfolding confirm_claim_def Let_def none rbind.simps option.case confirm_pending_def find
    by (simp add: transaction_def throw_if_def live_total_revoke_machine dev insert_device_fresh)
  with other show ?thesis by blast
qed

theorem confirm_needs_unexpired_claim_witness:
  "\<exists>row. filter (\<lambda>d. machine_row (sample_machine_id (CHR ''a'')) d \<and> live d)
       (devices (fst (confirm_claim sample_env ''one'' (sample_machine_id (CHR ''a'')) 0 sample_registry))) = [row]
     \<and> sd_token_hash row = ''hash-one'' \<and> sd_id row = sample_device_id (CHR ''1'')"
proof -
  let ?dev = "new_device (sample_device_id (CHR ''1'')) [65] ''t0'' (MachineBinding (sample_machine_id (CHR ''a'')))"
  have "confirm_claim sample_env ''one'' (sample_machine_id (CHR ''a'')) 0 sample_registry = (sample_registry, Inr (Some ?dev))"
    by (simp add: registry_eval confirm_claim_def transaction_def new_device_def)
  from confirm_needs_unexpired_claim [OF sample_registry_ok this] this show ?thesis
    by (simp add: hashDeviceToken_def sample_env_def new_device_def)
qed

theorem claim_confirm_window_witness:
  "snd (confirm_claim sample_env ''new'' (sample_machine_id (CHR ''b'')) 300009
      (fst (claim_device sample_env ''new'' (sample_device_id (CHR ''b'')) [67] (sample_machine_id (CHR ''b'')) None 10 sample_registry)))
   = Inr (Some (new_device (sample_device_id (CHR ''b'')) (js_trim [67]) ''now'' (MachineBinding (sample_machine_id (CHR ''b'')))))"
proof -
  let ?cl = "claim_device sample_env ''new'' (sample_device_id (CHR ''b'')) [67] (sample_machine_id (CHR ''b'')) None 10 sample_registry"
  have cl: "?cl = (fst ?cl, Inr (projr (snd ?cl)))"
    by (rule pair_InrI) (simp add: registry_eval claim_device_def transaction_def validateLabel_def insert_claim_def
        maximumPairedDevices_def)
  have "hashDeviceToken sample_env ''new'' \<notin> sd_token_hash ` set (devices sample_registry)"
    "sample_device_id (CHR ''b'') \<notin> sd_id ` set (devices sample_registry)"
    by (simp_all add: hashDeviceToken_def sample_env_def sample_registry_def)
  from claim_confirm_window [OF cl this, of "[]" 300009] show ?thesis by (simp add: sample_env_def)
qed

section \<open>Opening an older database\<close>

lemma revoke_unbound_client_keeps: "sd_id (revoke_unbound_client now d) = sd_id d \<and> (\<not> live d \<longrightarrow> \<not> live (revoke_unbound_client now d))"
  by (auto simp: revoke_unbound_client_def)

lemma revoke_legacy_keeps: "sd_id (revoke_legacy now d) = sd_id d \<and> (\<not> live d \<longrightarrow> \<not> live (revoke_legacy now d))"
  by (auto simp: revoke_legacy_def)

lemma known_client_kind: "s \<in> {''desktop'', ''web'', ''tablet'', ''phone'', ''cli''} \<Longrightarrow> clientKindSchema s \<noteq> None"
  by (auto simp: clientKindSchema_def)

lemma migrated_row_bound:
  assumes "live (revoke_unbound_client now (revoke_legacy now d))"
  shows "sd_credential_role (revoke_unbound_client now (revoke_legacy now d)) \<noteq> ''legacy'' \<and>
    (sd_credential_role (revoke_unbound_client now (revoke_legacy now d)) = ''client'' \<longrightarrow>
     Option.bind (sd_client_kind (revoke_unbound_client now (revoke_legacy now d))) clientKindSchema \<noteq> None)"
proof -
  have l: "live (revoke_legacy now d)" using assms revoke_unbound_client_keeps by blast
  then have leg: "revoke_legacy now d = d" "sd_credential_role d \<noteq> ''legacy''"
    by (auto simp: revoke_legacy_def split: if_splits)
  have unb: "revoke_unbound_client now d = d"
    "sd_credential_role d = ''client'' \<Longrightarrow> sd_client_kind d \<noteq> None \<and> the (sd_client_kind d) \<in> {''desktop'', ''web'', ''tablet'', ''phone'', ''cli''}"
    using assms unfolding leg by (auto simp: revoke_unbound_client_def split: if_splits)
  show ?thesis unfolding leg unb(1) using leg(2) unb(2) known_client_kind by fastforce
qed

lemma add_column_rows:
  "(\<And>d. sd_id (fill d) = sd_id d \<and> sd_revoked_at (fill d) = sd_revoked_at d) \<Longrightarrow>
     map (\<lambda>d. (sd_id d, live d)) (devices (tables (add_column c fill db))) = map (\<lambda>d. (sd_id d, live d)) (devices (tables db))"
  by (simp add: add_column_def)

lemma add_claim_column_devices [simp]: "devices (tables (add_claim_column c fill db)) = devices (tables db)"
  by (simp add: add_claim_column_def)

lemma add_missing_columns_rows:
  "map (\<lambda>d. (sd_id d, live d)) (devices (tables (add_missing_columns db))) = map (\<lambda>d. (sd_id d, live d)) (devices (tables db))"
  unfolding add_missing_columns_def Let_def by (simp add: add_column_rows)

lemma rows_kept_iff: "rows_kept ds ds' \<longleftrightarrow>
    (\<forall>p\<in>set (map (\<lambda>d. (sd_id d, live d)) ds). \<exists>d'\<in>set ds'. sd_id d' = fst p \<and> (\<not> snd p \<longrightarrow> \<not> live d'))"
  by (auto simp: rows_kept_def)

text \<open>
  Opening the registry migrates older databases safely: every row and every revocation
  survives, and no row whose credential is legacy or a client without a known kind is live
  afterwards, whatever columns the old table had.
\<close>

theorem open_registry_revokes_unbound:
  assumes opened: "devices (tables (open_registry now db)) = ds"
  shows "rows_kept (devices (tables db)) ds \<and>
   list_all (\<lambda>d. live d \<longrightarrow> sd_credential_role d \<noteq> ''legacy'' \<and>
       (sd_credential_role d = ''client'' \<longrightarrow> Option.bind (sd_client_kind d) clientKindSchema \<noteq> None)) ds"
proof -
  let ?db6 = "add_missing_columns db"
  have ds: "ds = map (revoke_unbound_client now \<circ> revoke_legacy now) (devices (tables ?db6))"
    using opened by (simp add: open_registry_def Let_def)
  note same = add_missing_columns_rows [of db]
  have "rows_kept (devices (tables ?db6)) ds"
    unfolding ds by (rule rows_kept_map) (metis comp_apply revoke_legacy_keeps revoke_unbound_client_keeps)
  then have "rows_kept (devices (tables db)) ds" unfolding rows_kept_iff same .
  moreover have "list_all (\<lambda>d. live d \<longrightarrow> sd_credential_role d \<noteq> ''legacy'' \<and>
       (sd_credential_role d = ''client'' \<longrightarrow> Option.bind (sd_client_kind d) clientKindSchema \<noteq> None)) ds"
    unfolding ds list_all_iff using migrated_row_bound [of now] by (auto simp: comp_def)
  ultimately show ?thesis by blast
qed

theorem open_registry_revokes_unbound_witness:
  "list_all (\<lambda>d. live d \<longrightarrow> sd_credential_role d \<noteq> ''legacy'')
     (devices (tables (open_registry ''t9'' \<lparr>device_columns = [''id'', ''token_hash''], claim_columns = [''id''], tables = sample_registry\<rparr>)))"
  using open_registry_revokes_unbound [OF refl, of "\<lparr>device_columns = [''id'', ''token_hash''], claim_columns = [''id''], tables = sample_registry\<rparr>" "''t9''"]
  by (auto simp: list_all_iff)

end
