(* ===== verification/Pairing_Codes.thy ===== *)
theory Pairing_Codes
  imports Device_Registry
begin

text \<open>
  The spoken pairing codes (apps/daemon/src/pairing-codes.ts) and the slot that remembers which
  connection issued the open code (apps/daemon/src/pairing-issuer.ts). The service keeps at most
  one open code and calls two operations of the device registry; those two are the parameters
  of its definitions, and the locale \<open>pairing_backend\<close> states what it may rely on. The random
  words, the random pairing id and the clock are arguments; the SHA-256 of a code is the
  parameter \<open>digestOf\<close>.
\<close>

section \<open>Codes and digests\<close>

definition pairingCodeTtlMs :: int where
  "pairingCodeTtlMs = 180000"

definition maximumPairingAttempts :: nat where
  "maximumPairingAttempts = 5"

definition codeWords :: "string list" where
  "codeWords =
     [''hearth'', ''quiet'', ''ember'', ''willow'', ''harbor'', ''lantern'', ''meadow'', ''cedar'',
      ''amber'', ''cobalt'', ''falcon'', ''garnet'', ''hollow'', ''indigo'', ''juniper'', ''kestrel'',
      ''linen'', ''marble'', ''nimbus'', ''opal'', ''pebble'', ''quartz'', ''raven'', ''sable'',
      ''timber'', ''umber'', ''velvet'', ''walnut'', ''yarrow'', ''zephyr'', ''basalt'', ''cinder'']"

text \<open>What \<open>randomInt\<close> draws: three indices below 32 and a number from 10 to 99.\<close>

record code_draw =
  draw1 :: nat
  draw2 :: nat
  draw3 :: nat
  draw_number :: nat

definition digit :: "nat \<Rightarrow> char" where
  "digit n = ''0123456789'' ! n"

definition pairing_code :: "code_draw \<Rightarrow> string" where
  "pairing_code d = codeWords ! draw1 d @ ''-'' @ codeWords ! draw2 d @ ''-'' @ codeWords ! draw3 d @ ''-''
     @ [digit (draw_number d div 10), digit (draw_number d mod 10)]"

text \<open>\<open>Buffer.from(s, "hex")\<close> reads pairs of hexadecimal digits up to the first that is not one.\<close>

definition hex_digits :: string where
  "hex_digits = ''0123456789abcdef''"

definition hex_value :: "char \<Rightarrow> nat option" where
  "hex_value c = (case index_of c hex_digits of Some n \<Rightarrow> Some n | None \<Rightarrow> index_of c ''0123456789ABCDEF'')"

fun buffer_from_hex :: "string \<Rightarrow> byte list" where
  "buffer_from_hex (a # b # s) =
     (case (hex_value a, hex_value b) of
        (Some x, Some y) \<Rightarrow> word_of_nat (16 * x + y) # buffer_from_hex s | _ \<Rightarrow> [])"
| "buffer_from_hex _ = []"

definition codesMatch :: "string \<Rightarrow> string \<Rightarrow> bool" where
  "codesMatch left right =
     (let a = buffer_from_hex left; b = buffer_from_hex right in length a = length b \<and> a = b)"

section \<open>The service\<close>

datatype refusal = Invalid | Expired | AttemptsExhausted | WrongKind

record open_pairing =
  op_id :: string
  op_digest :: string
  op_expiresAtMs :: int
  op_attempts :: nat
  op_targetClient :: "client_kind option"
  op_clientAccess :: "client_access option"
  op_label :: "js_string option"

datatype 'e pairing_error =
    PairingCodeError refusal "string option"
  | PairingDeviceLimitError string
  | RegistryError 'e

record issued_code =
  ic_pairingId :: string
  ic_code :: string
  ic_expiresAt :: int
  ic_replacedPairingId :: "string option"

type_synonym code_service = "open_pairing option"

definition pairingOpen :: "int \<Rightarrow> code_service \<Rightarrow> bool" where
  "pairingOpen nowMs s = (case s of None \<Rightarrow> False | Some p \<Rightarrow> op_expiresAtMs p > nowMs)"

definition issue ::
  "(string \<Rightarrow> string) \<Rightarrow> code_draw \<Rightarrow> string \<Rightarrow> int \<Rightarrow> client_kind option \<Rightarrow> client_access option
     \<Rightarrow> js_string option \<Rightarrow> code_service \<Rightarrow> code_service \<times> issued_code" where
  "issue digestOf draw pairingId nowMs targetClient clientAccess label s =
     (let code = pairing_code draw;
          replaced = (if pairingOpen nowMs s then map_option op_id s else None)
      in (Some \<lparr>op_id = pairingId, op_digest = digestOf code, op_expiresAtMs = nowMs + pairingCodeTtlMs,
                op_attempts = 0, op_targetClient = targetClient, op_clientAccess = clientAccess, op_label = label\<rparr>,
          \<lparr>ic_pairingId = pairingId, ic_code = code, ic_expiresAt = nowMs + pairingCodeTtlMs,
           ic_replacedPairingId = replaced\<rparr>))"

definition matchingPairing :: "(string \<Rightarrow> string) \<Rightarrow> string \<Rightarrow> int \<Rightarrow> code_service \<Rightarrow> string option" where
  "matchingPairing digestOf code nowMs s =
     (let live = (case s of None \<Rightarrow> False | Some p \<Rightarrow> op_expiresAtMs p > nowMs);
          matches = codesMatch (case s of None \<Rightarrow> digestOf [] | Some p \<Rightarrow> op_digest p) (digestOf code)
      in if live \<and> matches then map_option op_id s else None)"

definition spend :: "(string \<Rightarrow> string) \<Rightarrow> string \<Rightarrow> int \<Rightarrow> code_service \<Rightarrow> code_service \<times> ('e pairing_error + open_pairing)" where
  "spend digestOf code nowMs s =
     (case s of
        None \<Rightarrow> (None, Inl (PairingCodeError Invalid None))
      | Some p \<Rightarrow>
          if op_expiresAtMs p \<le> nowMs then (None, Inl (PairingCodeError Expired (Some (op_id p))))
          else if \<not> codesMatch (op_digest p) (digestOf code) then
            (let p' = p\<lparr>op_attempts := op_attempts p + 1\<rparr>
             in if op_attempts p' \<ge> maximumPairingAttempts
                then (None, Inl (PairingCodeError AttemptsExhausted (Some (op_id p))))
                else (Some p', Inl (PairingCodeError Invalid None)))
          else (None, Inr p))"

text \<open>
  The registry as the service sees it: \<open>claim\<close> for a machine and \<open>pair\<close> for a client kind, each
  taking the registry to its next state and a result.
\<close>

definition code_claim ::
  "(string \<Rightarrow> string) \<Rightarrow> ('i \<Rightarrow> int \<Rightarrow> 'r \<Rightarrow> 'r \<times> ('e + 'c)) \<Rightarrow> string \<Rightarrow> 'i \<Rightarrow> int
     \<Rightarrow> code_service \<times> 'r \<Rightarrow> (code_service \<times> 'r) \<times> ('e pairing_error + 'c)" where
  "code_claim digestOf claim code input nowMs = (\<lambda>(s, r).
     case spend digestOf code nowMs s of
       (s', Inl e) \<Rightarrow> ((s', r), Inl e)
     | (s', Inr p) \<Rightarrow>
         if op_targetClient p \<noteq> None then ((s', r), Inl (PairingCodeError WrongKind (Some (op_id p))))
         else (case claim input nowMs r of
                 (r', Inl e) \<Rightarrow> ((s', r'), Inl (RegistryError e))
               | (r', Inr c) \<Rightarrow> ((s', r'), Inr c)))"

definition redeem ::
  "(string \<Rightarrow> string) \<Rightarrow> ('e \<Rightarrow> bool) \<Rightarrow> (js_string \<Rightarrow> client_kind \<Rightarrow> client_access \<Rightarrow> 'r \<Rightarrow> 'r \<times> ('e + 'd)) \<Rightarrow> string
     \<Rightarrow> js_string \<Rightarrow> int \<Rightarrow> code_service \<times> 'r \<Rightarrow> (code_service \<times> 'r) \<times> ('e pairing_error + 'd \<times> string)" where
  "redeem digestOf limit_error pair code label nowMs = (\<lambda>(s, r).
     case spend digestOf code nowMs s of
       (s', Inl e) \<Rightarrow> ((s', r), Inl e)
     | (s', Inr p) \<Rightarrow>
         (case op_targetClient p of
            None \<Rightarrow> ((s', r), Inl (PairingCodeError WrongKind (Some (op_id p))))
          | Some kind \<Rightarrow>
              (case pair label kind (case op_clientAccess p of None \<Rightarrow> Full | Some a \<Rightarrow> a) r of
                 (r', Inl e) \<Rightarrow> ((s', r'), Inl (if limit_error e then PairingDeviceLimitError (op_id p) else RegistryError e))
               | (r', Inr d) \<Rightarrow> ((s', r'), Inr (d, op_id p)))))"

text \<open>The wire schema of a spoken code (packages/protocol/src/devices.ts).\<close>

definition lower_letter :: "char \<Rightarrow> bool" where
  "lower_letter c \<longleftrightarrow> c \<in> set ''abcdefghijklmnopqrstuvwxyz''"

definition decimal_digit :: "char \<Rightarrow> bool" where
  "decimal_digit c \<longleftrightarrow> c \<in> set ''0123456789''"

definition code_word_ahead :: "string \<Rightarrow> string option" where
  "code_word_ahead s =
     (case dropWhile lower_letter s of
        c # rest \<Rightarrow> if c = CHR ''-'' \<and> takeWhile lower_letter s \<noteq> [] then Some rest else None
      | [] \<Rightarrow> None)"

definition pairingCodeSchema :: "string \<Rightarrow> bool" where
  "pairingCodeSchema s =
     (case Option.bind (Option.bind (code_word_ahead s) code_word_ahead) code_word_ahead of
        Some rest \<Rightarrow> length rest = 2 \<and> list_all decimal_digit rest
      | None \<Rightarrow> False)"

section \<open>Digests compare as equality\<close>

definition hex_digest :: "string \<Rightarrow> bool" where
  "hex_digest s \<longleftrightarrow> length s = 64 \<and> list_all (\<lambda>c. c \<in> set hex_digits) s"


lemma index_of_SomeD: "index_of x xs = Some n \<Longrightarrow> n < length xs \<and> xs ! n = x"
  by (induction xs arbitrary: n) (auto split: if_splits)

lemma index_of_in_set: "x \<in> set xs \<Longrightarrow> \<exists>n. index_of x xs = Some n"
  by (induction xs) auto

lemma hex_value_digit:
  assumes "c \<in> set hex_digits"
  shows "\<exists>n<16. hex_value c = Some n \<and> hex_digits ! n = c"
proof -
  obtain n where n: "index_of c hex_digits = Some n" using index_of_in_set [OF assms] by blast
  moreover have "length hex_digits = 16" by (simp add: hex_digits_def)
  ultimately show ?thesis using index_of_SomeD [OF n] by (auto simp: hex_value_def)
qed

lemma byte_of_digits_inject:
  assumes "word_of_nat (16 * x + y) = (word_of_nat (16 * x' + y') :: byte)" "x < 16" "y < 16" "x' < 16" "y' < 16"
  shows "x = x' \<and> y = y'"
proof -
  have "unat (word_of_nat (16 * a + b) :: byte) = 16 * a + b" if "a < 16" "b < 16" for a b :: nat
    using that by (simp only: unat_of_nat) simp
  with assms have "16 * x + y = 16 * x' + y'" by metis
  then have "(16 * x + y) div 16 = (16 * x' + y') div 16" "(16 * x + y) mod 16 = (16 * x' + y') mod 16" by simp_all
  then show ?thesis using assms(2-5) by simp
qed

lemma buffer_from_hex_inject:
  assumes "length s = 2 * n" "length t = 2 * n" "list_all (\<lambda>c. c \<in> set hex_digits) s" "list_all (\<lambda>c. c \<in> set hex_digits) t"
    and "buffer_from_hex s = buffer_from_hex t"
  shows "s = t"
  using assms
proof (induction n arbitrary: s t)
  case (Suc n)
  then obtain a b s' c d t' where s: "s = a # b # s'" "t = c # d # t'"
    by (metis (no_types, lifting) Suc_length_conv mult_Suc_right add_2_eq_Suc)
  obtain x where x: "x < 16" "hex_value a = Some x" "hex_digits ! x = a"
    using hex_value_digit Suc.prems s by auto
  obtain y where y: "y < 16" "hex_value b = Some y" "hex_digits ! y = b"
    using hex_value_digit Suc.prems s by auto
  obtain x' where x': "x' < 16" "hex_value c = Some x'" "hex_digits ! x' = c"
    using hex_value_digit Suc.prems s by auto
  obtain y' where y': "y' < 16" "hex_value d = Some y'" "hex_digits ! y' = d"
    using hex_value_digit Suc.prems s by auto
  have "x = x' \<and> y = y'"
    using Suc.prems(5) x y x' y' by (intro byte_of_digits_inject) (simp_all add: s)
  moreover have "s' = t'"
    using Suc.prems x y x' y' by (intro Suc.IH) (simp_all add: s)
  ultimately show ?case using x y x' y' by (simp add: s)
qed simp

lemma codesMatch_digests: "hex_digest a \<Longrightarrow> hex_digest b \<Longrightarrow> codesMatch a b \<longleftrightarrow> a = b"
  using buffer_from_hex_inject [of a 32 b] by (auto simp: codesMatch_def hex_digest_def Let_def)

section \<open>Codes\<close>

lemma code_word_ahead_word:
  "list_all lower_letter w \<Longrightarrow> w \<noteq> [] \<Longrightarrow> code_word_ahead (w @ CHR ''-'' # rest) = Some rest"
  by (simp add: code_word_ahead_def list_all_iff lower_letter_def)

lemma codeWords_lower: "i < 32 \<Longrightarrow> list_all lower_letter (codeWords ! i) \<and> codeWords ! i \<noteq> []"
proof -
  have "list_all (\<lambda>w. list_all lower_letter w \<and> w \<noteq> []) codeWords"
    by (simp add: codeWords_def lower_letter_def)
  moreover have "length codeWords = 32" by (simp add: codeWords_def)
  ultimately show "i < 32 \<Longrightarrow> ?thesis" by (simp add: list_all_length)
qed


lemma digit_decimal: "n < 10 \<Longrightarrow> decimal_digit (digit n)"
  unfolding decimal_digit_def digit_def by (rule nth_mem) simp

text \<open>
  Every code the service shows is one the wire schema accepts, lives for three minutes, and
  replaces the code that was still open, which the answer names.
\<close>

theorem issued_code_well_formed:
  assumes "issue digestOf draw pid nowMs target access label s = (s', ic)"
    and "draw1 draw < 32" "draw2 draw < 32" "draw3 draw < 32" "10 \<le> draw_number draw" "draw_number draw < 100"
  shows "pairingCodeSchema (ic_code ic) \<and> pairingOpen t s' = (t < nowMs + 180000) \<and>
     ic_replacedPairingId ic = (if pairingOpen nowMs s then map_option op_id s else None)"
proof -
  have code: "ic_code ic = codeWords ! draw1 draw @ CHR ''-'' # codeWords ! draw2 draw @ CHR ''-'' # codeWords ! draw3 draw
      @ CHR ''-'' # [digit (draw_number draw div 10), digit (draw_number draw mod 10)]"
    using assms(1) by (auto simp: issue_def pairing_code_def Let_def)
  have "decimal_digit (digit (draw_number draw div 10))" "decimal_digit (digit (draw_number draw mod 10))"
    using assms by (auto intro: digit_decimal)
  then have "pairingCodeSchema (ic_code ic)"
    using codeWords_lower assms unfolding code pairingCodeSchema_def by (simp add: code_word_ahead_word)
  then show ?thesis using assms(1) by (auto simp: issue_def Let_def pairingOpen_def pairingCodeTtlMs_def)
qed

definition sample_digest :: "string \<Rightarrow> string" where
  "sample_digest s = replicate 64 (if s = ''hearth-quiet-ember-42'' then CHR ''1'' else CHR ''2'')"

definition sample_draw :: code_draw where
  "sample_draw = \<lparr>draw1 = 0, draw2 = 1, draw3 = 2, draw_number = 42\<rparr>"

theorem issued_code_well_formed_witness:
  "pairingCodeSchema (ic_code (snd (issue sample_digest sample_draw ''pairing-1'' 0 (Some Phone) None None None)))"
  using issued_code_well_formed [of sample_digest sample_draw "''pairing-1''" 0 "Some Phone" None None None]
  by (auto simp: sample_draw_def prod_eq_iff)

section \<open>Spending\<close>

fun spend_results ::
  "(string \<Rightarrow> string) \<Rightarrow> (string \<times> int) list \<Rightarrow> code_service \<Rightarrow> ('e pairing_error + open_pairing) list" where
  "spend_results digestOf [] s = []"
| "spend_results digestOf ((code, t) # gs) s =
     (let (s', res) = spend digestOf code t s in res # spend_results digestOf gs s')"

lemma spend_results_closed: "k < length gs \<Longrightarrow> isl (spend_results digestOf gs None ! k)"
  by (induction gs arbitrary: k) (auto simp: spend_def nth_Cons split: nat.splits)

lemma all_less_Suc2: "(\<forall>j<Suc n. P j) \<longleftrightarrow> P 0 \<and> (\<forall>j<n. P (Suc j))"
  by (auto simp: less_Suc_eq_0_disj)

lemma spend_results_accepted:
  assumes "k < length gs" and "op_attempts p < 5" and hex: "hex_digest (op_digest p)" "\<And>x. hex_digest (digestOf x)"
  shows "\<not> isl (spend_results digestOf gs (Some p) ! k) \<longleftrightarrow>
     op_attempts p + k < 5 \<and> digestOf (fst (gs ! k)) = op_digest p \<and>
     (\<forall>j<k. digestOf (fst (gs ! j)) \<noteq> op_digest p) \<and> (\<forall>j<Suc k. snd (gs ! j) < op_expiresAtMs p)"
  using assms
proof (induction gs arbitrary: p k)
  case (Cons g gs)
  obtain code t where g: "g = (code, t)" by force
  have m: "codesMatch (op_digest p) (digestOf code) \<longleftrightarrow> digestOf code = op_digest p"
    using Cons.prems codesMatch_digests by auto
  show ?case
  proof (cases "op_expiresAtMs p \<le> t \<or> digestOf code = op_digest p")
    case True
    then show ?thesis
      using Cons.prems spend_results_closed [of _ gs digestOf] m
      by (cases k) (auto simp: g spend_def all_less_Suc2)
  next
    case False
    let ?p = "p\<lparr>op_attempts := op_attempts p + 1\<rparr>"
    show ?thesis
    proof (cases "op_attempts p + 1 < 5")
      case True
      with False Cons.prems Cons.IH [of _ ?p] m show ?thesis
        by (cases k) (auto simp: g spend_def maximumPairingAttempts_def all_less_Suc2 Let_def)
    next
      case closed: False
      with False Cons.prems spend_results_closed [of _ gs digestOf] m show ?thesis
        by (cases k) (auto simp: g spend_def maximumPairingAttempts_def Let_def)
    qed
  qed
qed simp

text \<open>
  C8. Guessing is bounded and a code works once. Of any sequence of attempts on a freshly issued
  code, the one at position \<open>k\<close> is accepted exactly when it is the first with the right digest,
  it is among the first five, and the code had not expired at it or at any attempt before it.
\<close>

theorem code_accepted_iff:
  assumes "issue digestOf draw pid nowMs target access label s0 = (s, ic)"
    and "\<And>x. hex_digest (digestOf x)" and "k < length gs"
  shows "\<not> isl (spend_results digestOf gs s ! k) \<longleftrightarrow>
     k < 5 \<and> digestOf (fst (gs ! k)) = digestOf (ic_code ic) \<and>
     (\<forall>j<k. digestOf (fst (gs ! j)) \<noteq> digestOf (ic_code ic)) \<and> (\<forall>j<Suc k. snd (gs ! j) < nowMs + 180000)"
proof -
  obtain p where "s = Some p" "op_attempts p = 0" "op_digest p = digestOf (ic_code ic)" "op_expiresAtMs p = nowMs + 180000"
    using assms(1) by (auto simp: issue_def Let_def pairingCodeTtlMs_def)
  with spend_results_accepted [of k gs p digestOf] assms(2,3) show ?thesis by simp
qed

lemma sample_digest_hex: "hex_digest (sample_digest s)"
  by (simp add: hex_digest_def sample_digest_def hex_digits_def list_all_iff)

lemma sample_digest_eq [simp]:
  "sample_digest s = sample_digest t \<longleftrightarrow> (s = ''hearth-quiet-ember-42'' \<longleftrightarrow> t = ''hearth-quiet-ember-42'')"
  unfolding sample_digest_def replicate_eq_replicate by simp

theorem code_accepted_iff_witness:
  "\<not> isl (spend_results sample_digest [(''wrong'', 5), (''hearth-quiet-ember-42'', 6)]
      (fst (issue sample_digest sample_draw ''pairing-1'' 0 (Some Phone) None None None)) ! 1)"
proof -
  let ?i = "issue sample_digest sample_draw ''pairing-1'' 0 (Some Phone) None None None"
  have code: "ic_code (snd ?i) = ''hearth-quiet-ember-42''"
    by (simp add: issue_def pairing_code_def sample_draw_def codeWords_def digit_def Let_def)
  have "?i = (fst ?i, snd ?i)" by simp
  from code_accepted_iff [OF this sample_digest_hex, of 1 "[(''wrong'', 5), (''hearth-quiet-ember-42'', 6)]"] show ?thesis
    by (simp add: code all_less_Suc2)
qed

text \<open>
  The right code before its deadline is consumed whatever happens next: it is gone after
  \<open>claim\<close> and after \<open>redeem\<close> even when the registry refuses, and spent on the wrong kind of
  pairing it leaves the registry untouched and names the code that ended.
\<close>

theorem right_code_always_consumed:
  assumes "nowMs < op_expiresAtMs p" and "codesMatch (op_digest p) (digestOf code)"
  shows "fst (fst (code_claim digestOf claim code input nowMs (Some p, r))) = None \<and>
     fst (fst (redeem digestOf lim pair code label nowMs (Some p, r))) = None \<and>
     (if op_targetClient p = None
      then redeem digestOf lim pair code label nowMs (Some p, r) = ((None, r), Inl (PairingCodeError WrongKind (Some (op_id p))))
      else code_claim digestOf claim code input nowMs (Some p, r) = ((None, r), Inl (PairingCodeError WrongKind (Some (op_id p)))))"
  using assms by (auto simp: code_claim_def redeem_def spend_def split: option.splits prod.splits sum.splits)

definition sample_open :: open_pairing where
  "sample_open = \<lparr>op_id = ''p'', op_digest = sample_digest ''hearth-quiet-ember-42'', op_expiresAtMs = 20, op_attempts = 4,
     op_targetClient = Some Phone, op_clientAccess = Some Watching, op_label = None\<rparr>"

lemma sample_open_simps [simp]: "op_targetClient sample_open = Some Phone" "op_id sample_open = ''p''"
  by (simp_all add: sample_open_def)

theorem right_code_always_consumed_witness:
  "snd (code_claim sample_digest (\<lambda>l now r. (r + 1, Inl () :: unit + unit)) ''hearth-quiet-ember-42'' () 10 (Some sample_open, 0 :: nat)) =
     Inl (PairingCodeError WrongKind (Some ''p''))"
proof -
  have "10 < op_expiresAtMs sample_open" "codesMatch (op_digest sample_open) (sample_digest ''hearth-quiet-ember-42'')"
    by (simp_all add: sample_open_def codesMatch_digests sample_digest_hex)
  from right_code_always_consumed [where digestOf = sample_digest and code = "''hearth-quiet-ember-42''"
      and claim = "\<lambda>l now r. (r + 1 :: nat, Inl () :: unit + unit)" and input = "()" and r = 0
      and lim = "\<lambda>e. False" and pair = "\<lambda>l k a r. (r, Inr ())" and label = "[65]", OF this]
  show ?thesis by (elim conjE) (simp split: if_splits)
qed

section \<open>The registry behind the codes\<close>

text \<open>What the service relies on: the two registry operations keep the registry well formed.\<close>

locale pairing_backend =
  fixes reg_ok :: "'r \<Rightarrow> bool"
    and claim :: "'i \<Rightarrow> int \<Rightarrow> 'r \<Rightarrow> 'r \<times> ('e + 'c)"
    and pair :: "js_string \<Rightarrow> client_kind \<Rightarrow> client_access \<Rightarrow> 'r \<Rightarrow> 'r \<times> ('e + 'd)"
  assumes claim_ok: "reg_ok r \<Longrightarrow> reg_ok (fst (claim input nowMs r))"
    and pair_ok: "reg_ok r \<Longrightarrow> reg_ok (fst (pair label kind access r))"
begin

lemma code_claim_ok: "reg_ok r \<Longrightarrow> reg_ok (snd (fst (code_claim digestOf claim code input nowMs (s, r))))"
  using claim_ok [of r input nowMs] by (auto simp: code_claim_def split: prod.splits sum.splits)

lemma redeem_ok: "reg_ok r \<Longrightarrow> reg_ok (snd (fst (redeem digestOf lim pair code label nowMs (s, r))))"
proof -
  have "reg_ok r'" if "reg_ok r" "pair label k a r = (r', x)" for k a r' x
    using pair_ok [OF that(1), of label k a] that(2) by simp
  then show "reg_ok r \<Longrightarrow> ?thesis"
    by (auto simp: redeem_def split: prod.splits sum.splits option.splits)
qed

lemma redeem_Inr:
  assumes "redeem digestOf lim pair code label nowMs (s, r) = ((s', r'), Inr (d, pid))"
  obtains p kind where "s = Some p" "s' = None" "nowMs < op_expiresAtMs p" "codesMatch (op_digest p) (digestOf code)"
    "op_targetClient p = Some kind" "pid = op_id p"
    "pair label kind (case op_clientAccess p of None \<Rightarrow> Full | Some a \<Rightarrow> a) r = (r', Inr d)"
  using assms by (auto simp: redeem_def spend_def Let_def split: option.splits if_splits prod.splits sum.splits)

lemma code_claim_Inr:
  assumes "code_claim digestOf claim code input nowMs (s, r) = ((s', r'), Inr c)"
  obtains p where "s = Some p" "s' = None" "nowMs < op_expiresAtMs p" "codesMatch (op_digest p) (digestOf code)"
    "op_targetClient p = None" "claim input nowMs r = (r', Inr c)"
  using assms by (auto simp: code_claim_def spend_def Let_def split: option.splits if_splits prod.splits sum.splits)

end

definition registry_claim ::
  "registry_env \<Rightarrow> string \<Rightarrow> string \<Rightarrow> js_string \<times> string \<times> string option \<Rightarrow> int \<Rightarrow> registry
     \<Rightarrow> registry \<times> (registry_error + device_claim)" where
  "registry_claim env token i = (\<lambda>(label, mid, key) nowMs r. claim_device env token i label mid key nowMs r)"

definition registry_pair ::
  "registry_env \<Rightarrow> string \<Rightarrow> string \<Rightarrow> string \<Rightarrow> js_string \<Rightarrow> client_kind \<Rightarrow> client_access \<Rightarrow> registry
     \<Rightarrow> registry \<times> (registry_error + paired_device \<times> string)" where
  "registry_pair env token i now label kind access r =
     pair_device env token i now label (BindClient kind (Some access)) None r"

interpretation codes: pairing_backend registry_ok "registry_claim env token i" "registry_pair env token i now"
  by unfold_locales (auto simp: registry_claim_def registry_pair_def claim_device_ok pair_device_ok split: prod.splits)

text \<open>
  C28. What a code can mint is decided when it is shown. A successful \<open>redeem\<close> spent an
  unexpired client code, and the credential it returns authenticates as the client kind and
  access that code was shown for, under the name the device gave; no machine claim changes.
\<close>

theorem redeem_mints_shown_kind:
  assumes ok: "registry_ok r"
    and red: "redeem digestOf (\<lambda>e. e = DeviceLimitReached) (registry_pair env token i now) code label nowMs (s, r)
        = ((s', r'), Inr ((dev, t), pid))"
    and fresh: "token \<noteq> []" "deviceIdSchema i" "offsetDateTimeSchema env now"
  shows "\<exists>p kind. s = Some p \<and> s' = None \<and> pid = op_id p \<and> nowMs < op_expiresAtMs p \<and> op_targetClient p = Some kind \<and>
     registry_ok r' \<and> claims r' = claims r \<and> pd_label dev = js_trim label \<and>
     verify_token env t r' = Inr (Some \<lparr>vc_device = dev,
       vc_binding = ActiveClient kind (case op_clientAccess p of None \<Rightarrow> Full | Some a \<Rightarrow> a), vc_channelPublicKey = None\<rparr>)"
proof -
  from codes.redeem_Inr [OF red] obtain p kind where p: "s = Some p" "s' = None" "nowMs < op_expiresAtMs p"
    "op_targetClient p = Some kind" "pid = op_id p"
    and pair: "registry_pair env token i now label kind (case op_clientAccess p of None \<Rightarrow> Full | Some a \<Rightarrow> a) r = (r', Inr (dev, t))" .
  have "registry_ok r'" using codes.redeem_ok [OF ok] red by (metis fst_conv snd_conv)
  moreover have "claims r' = claims r" "pd_label dev = js_trim label"
    using pair by (auto simp: registry_pair_def pair_device_def transaction_Inr_iff result_simps pair_statements_def
        validateLabel_Inr new_device_def)
  moreover note pair_verifies [OF ok pair [unfolded registry_pair_def] fresh]
  ultimately show ?thesis using p by (auto simp: active_of_input_def)
qed


theorem redeem_mints_shown_kind_witness:
  "pd_label (fst (fst (projr (snd (redeem sample_digest (\<lambda>e. e = DeviceLimitReached)
     (registry_pair sample_env ''tok'' (sample_device_id (CHR ''a'')) ''t1'') ''hearth-quiet-ember-42'' [67] 10
     (Some sample_open, sample_registry)))))) = js_trim [67]"
proof -
  let ?x = "redeem sample_digest (\<lambda>e. e = DeviceLimitReached)
     (registry_pair sample_env ''tok'' (sample_device_id (CHR ''a'')) ''t1'') ''hearth-quiet-ember-42'' [67] 10
     (Some sample_open, sample_registry)"
  have "\<not> isl (snd ?x)"
    by (simp add: redeem_def spend_def sample_open_def codesMatch_digests sample_digest_hex registry_pair_def
        registry_eval pair_device_def pair_statements_def validateLabel_def active_of_input_def
        transaction_def insert_device_def live_total_def maximumPairedDevices_def)
  then have "?x = ((fst (fst ?x), snd (fst ?x)), Inr ((fst (fst (projr (snd ?x))), snd (fst (projr (snd ?x)))), snd (projr (snd ?x))))"
    by (simp add: prod_eq_iff sum.collapse)
  from redeem_mints_shown_kind [OF sample_registry_ok this] show ?thesis
    by (auto simp: sample_env_def)
qed

section \<open>The issuer of the open code\<close>

text \<open>
  The slot and the timers it starts: \<open>setTimeout\<close> hands out a new timer, \<open>clearTimeout\<close> removes
  it, and a timer that is still pending may fire at any moment.
\<close>

record 's held_issuer =
  hi_pairingId :: string
  hi_socket :: 's
  hi_expiry :: nat

record 's issuer_slot =
  held :: "'s held_issuer option"
  timers :: "(nat \<times> string) list"
  next_timer :: nat

definition new_slot :: "'s issuer_slot" where
  "new_slot = \<lparr>held = None, timers = [], next_timer = 0\<rparr>"

definition slot_current :: "'s issuer_slot \<Rightarrow> string option" where
  "slot_current x = map_option hi_pairingId (held x)"

definition slot_clear :: "'s issuer_slot \<Rightarrow> 's issuer_slot" where
  "slot_clear x =
     (case held x of
        None \<Rightarrow> x
      | Some h \<Rightarrow> x\<lparr>timers := filter (\<lambda>t. fst t \<noteq> hi_expiry h) (timers x), held := None\<rparr>)"

definition slot_set :: "string \<Rightarrow> 's \<Rightarrow> 's issuer_slot \<Rightarrow> 's issuer_slot" where
  "slot_set pairingId socket x =
     (let y = slot_clear x
      in y\<lparr>timers := timers y @ [(next_timer y, pairingId)], next_timer := next_timer y + 1,
           held := Some \<lparr>hi_pairingId = pairingId, hi_socket = socket, hi_expiry = next_timer y\<rparr>\<rparr>)"

definition slot_fire :: "nat \<Rightarrow> 's issuer_slot \<Rightarrow> 's issuer_slot" where
  "slot_fire t x =
     (case map_of (timers x) t of
        None \<Rightarrow> x
      | Some pairingId \<Rightarrow>
          let y = x\<lparr>timers := filter (\<lambda>p. fst p \<noteq> t) (timers x)\<rparr>
          in if slot_current y = Some pairingId then y\<lparr>held := None\<rparr> else y)"

definition slot_issuer :: "string \<Rightarrow> bool \<Rightarrow> 's issuer_slot \<Rightarrow> 's issuer_slot \<times> 's option" where
  "slot_issuer pairingId codeEnded x =
     (case held x of
        None \<Rightarrow> (x, None)
      | Some h \<Rightarrow> if hi_pairingId h \<noteq> pairingId then (x, None)
          else (if codeEnded then slot_clear x else x, Some (hi_socket h)))"

definition slot_forget :: "'s \<Rightarrow> 's issuer_slot \<Rightarrow> 's issuer_slot" where
  "slot_forget socket x = (case held x of Some h \<Rightarrow> if hi_socket h = socket then slot_clear x else x | None \<Rightarrow> x)"

datatype 's slot_op = SlotSet string 's | SlotFire nat | SlotIssuer string bool | SlotForget 's | SlotClear

fun slot_step :: "'s slot_op \<Rightarrow> 's issuer_slot \<Rightarrow> 's issuer_slot" where
  "slot_step (SlotSet p s) x = slot_set p s x"
| "slot_step (SlotFire t) x = slot_fire t x"
| "slot_step (SlotIssuer p e) x = fst (slot_issuer p e x)"
| "slot_step (SlotForget s) x = slot_forget s x"
| "slot_step SlotClear x = slot_clear x"

definition slot_ok :: "'s issuer_slot \<Rightarrow> bool" where
  "slot_ok x \<longleftrightarrow> timers x = (case held x of None \<Rightarrow> [] | Some h \<Rightarrow> [(hi_expiry h, hi_pairingId h)])"

lemma slot_clear_ok [simp]: "slot_ok x \<Longrightarrow> slot_clear x = x\<lparr>timers := [], held := None\<rparr>"
  by (cases x) (auto simp: slot_ok_def slot_clear_def split: option.splits)

interpretation slot: machine_invariant slot_step slot_ok
proof
  fix op :: "'a slot_op" and x :: "'a issuer_slot"
  assume ok: "slot_ok x"
  then show "slot_ok (slot_step op x)"
    by (cases op) (auto simp: slot_set_def slot_fire_def slot_issuer_def slot_forget_def slot_current_def
        slot_ok_def [of "x\<lparr>timers := t, held := h\<rparr>" for t h] slot_ok_def Let_def split: option.splits)
qed

text \<open>
  The slot never leaks a timer or a socket: after any sequence of calls and timer firings
  the one pending timer is the held issuer's own, so an old code's timer can never evict the
  issuer of a newer code; a connection that closed or a code that ended is no longer held; and
  the issuer is handed out for its own code only.
\<close>

theorem issuer_slot_holds_one:
  assumes run: "x = fold slot_step ops new_slot"
  shows "timers x = (case held x of None \<Rightarrow> [] | Some h \<Rightarrow> [(hi_expiry h, hi_pairingId h)]) \<and>
    (\<forall>h. held (slot_forget socket x) = Some h \<longrightarrow> hi_socket h \<noteq> socket) \<and>
    (snd (slot_issuer pid ended x) \<noteq> None \<longrightarrow> slot_current x = Some pid) \<and>
    slot_current (fst (slot_issuer pid True x)) \<noteq> Some pid \<and>
    slot_current (slot_set pid socket x) = Some pid"
proof -
  have ok: "slot_ok x" unfolding run by (rule slot.inv_run) (simp add: slot_ok_def new_slot_def)
  then show ?thesis
    by (auto simp: slot_forget_def slot_issuer_def slot_set_def slot_current_def slot_ok_def [of x] Let_def split: option.splits)
qed

theorem issuer_slot_holds_one_witness:
  "timers (fold slot_step [SlotSet ''p1'' (1::nat), SlotSet ''p2'' 2, SlotFire 0] new_slot) = [(1, ''p2'')]"
proof -
  let ?x = "fold slot_step [SlotSet ''p1'' (1::nat), SlotSet ''p2'' 2, SlotFire 0] new_slot"
  have "held ?x = Some \<lparr>hi_pairingId = ''p2'', hi_socket = 2, hi_expiry = 1\<rparr>"
    by (simp add: slot_set_def slot_fire_def new_slot_def slot_clear_def Let_def)
  with issuer_slot_holds_one [OF refl, of "[SlotSet ''p1'' (1::nat), SlotSet ''p2'' 2, SlotFire 0]"] show ?thesis by simp
qed

end
