(* ===== verification/Resource_Queue.thy ===== *)
theory Resource_Queue
  imports Domovoi_Prelude
begin

text \<open>
  The queue that serialises mutations of a resource (apps/daemon/src/resource-mutation-queue.ts).
  Each call makes one execution promise; executions are numbered in the order they were queued
  and the state keeps them all. What the event loop may do next is a step: start an execution
  whose promises have all settled (\<open>#run\<close> up to its await), finish a running task, or run the
  clean-up attached to a settled execution. A task is known only by whether it resolves.
\<close>

section \<open>State and operations\<close>

datatype scope = Res string | Excl

datatype phase = Waiting | Running | Settled

text \<open>\<open>qe_onCancelled\<close> is the optional callback, known by whether it throws.\<close>

record queue_entry =
  qe_deps :: "nat list"
  qe_scope :: scope
  qe_generation :: nat
  qe_phase :: phase
  qe_started :: bool
  qe_aborted :: bool
  qe_notified :: bool
  qe_cancelled :: bool
  qe_tracked :: bool
  qe_onCancelled :: "bool option"
  qe_calls :: nat

record queue =
  q_entries :: "queue_entry list"
  q_barrier :: "nat option"
  q_resources :: "(string, nat) jsmap"
  q_generation :: nat
  q_errors :: nat

definition new_queue :: queue where
  "new_queue = \<lparr>q_entries = [], q_barrier = None, q_resources = [], q_generation = 0, q_errors = 0\<rparr>"

definition update_entry :: "nat \<Rightarrow> (queue_entry \<Rightarrow> queue_entry) \<Rightarrow> queue \<Rightarrow> queue" where
  "update_entry i f q = q\<lparr>q_entries := (q_entries q)[i := f (q_entries q ! i)]\<rparr>"

definition queue_add :: "nat list \<Rightarrow> scope \<Rightarrow> bool option \<Rightarrow> queue \<Rightarrow> queue" where
  "queue_add deps sc onCancelled q = q\<lparr>q_entries := q_entries q @
     [\<lparr>qe_deps = deps, qe_scope = sc, qe_generation = q_generation q, qe_phase = Waiting, qe_started = False,
       qe_aborted = False, qe_notified = False, qe_cancelled = False, qe_tracked = True,
       qe_onCancelled = onCancelled, qe_calls = 0\<rparr>]\<rparr>"

definition opt_list :: "'a option \<Rightarrow> 'a list" where
  "opt_list x = (case x of None \<Rightarrow> [] | Some a \<Rightarrow> [a])"

definition enqueue :: "string \<Rightarrow> bool option \<Rightarrow> queue \<Rightarrow> queue" where
  "enqueue resource onCancelled q =
     (let execution = length (q_entries q);
          q' = queue_add (opt_list (q_barrier q) @ opt_list (map_of (q_resources q) resource)) (Res resource) onCancelled q
      in q'\<lparr>q_resources := jm_set resource execution (q_resources q')\<rparr>)"

definition enqueueExclusive :: "bool option \<Rightarrow> queue \<Rightarrow> queue" where
  "enqueueExclusive onCancelled q =
     (let execution = length (q_entries q);
          q' = queue_add (opt_list (q_barrier q) @ map snd (q_resources q)) Excl onCancelled q
      in q'\<lparr>q_barrier := Some execution\<rparr>)"

definition notifyCancelled :: "nat \<Rightarrow> queue \<Rightarrow> queue" where
  "notifyCancelled i q =
     (let e = q_entries q ! i in
      if qe_notified e then q
      else case qe_onCancelled e of
        None \<Rightarrow> update_entry i (\<lambda>e. e\<lparr>qe_notified := True\<rparr>) q
      | Some throws \<Rightarrow>
          let q' = update_entry i (\<lambda>e. e\<lparr>qe_notified := True, qe_calls := qe_calls e + 1\<rparr>) q
          in if throws then q'\<lparr>q_errors := q_errors q' + 1\<rparr> else q')"

definition cancel_entry :: "nat \<Rightarrow> queue \<Rightarrow> queue" where
  "cancel_entry i q =
     (let q1 = update_entry i (\<lambda>e. e\<lparr>qe_aborted := True\<rparr>) q;
          q2 = (if qe_started (q_entries q1 ! i) then q1
                else update_entry i (\<lambda>e. e\<lparr>qe_tracked := False\<rparr>) (notifyCancelled i q1))
      in update_entry i (\<lambda>e. e\<lparr>qe_cancelled := True\<rparr>) q2)"

definition tracked :: "queue \<Rightarrow> nat list" where
  "tracked q = filter (\<lambda>i. qe_tracked (q_entries q ! i)) [0..<length (q_entries q)]"

definition cancelAll :: "queue \<Rightarrow> queue \<times> (nat \<times> nat)" where
  "cancelAll q =
     (let q' = fold cancel_entry (tracked q) (q\<lparr>q_generation := q_generation q + 1\<rparr>)
      in (q', (length (filter (\<lambda>i. qe_started (q_entries q' ! i)) (tracked q)),
               length (filter (\<lambda>i. \<not> qe_started (q_entries q' ! i)) (tracked q)))))"

definition settled :: "queue \<Rightarrow> nat \<Rightarrow> bool" where
  "settled q i \<longleftrightarrow> qe_phase (q_entries q ! i) = Settled"

definition ready :: "queue \<Rightarrow> nat \<Rightarrow> bool" where
  "ready q i \<longleftrightarrow> i < length (q_entries q) \<and> qe_phase (q_entries q ! i) = Waiting
     \<and> list_all (settled q) (qe_deps (q_entries q ! i))"

definition run_start :: "nat \<Rightarrow> queue \<Rightarrow> queue" where
  "run_start i q =
     (if \<not> ready q i then q
      else if qe_generation (q_entries q ! i) \<noteq> q_generation q \<or> qe_aborted (q_entries q ! i)
      then update_entry i (\<lambda>e. e\<lparr>qe_phase := Settled, qe_tracked := False\<rparr>) (notifyCancelled i q)
      else update_entry i (\<lambda>e. e\<lparr>qe_started := True, qe_phase := Running\<rparr>) q)"

definition run_finish :: "nat \<Rightarrow> bool \<Rightarrow> queue \<Rightarrow> queue" where
  "run_finish i resolves q =
     (if \<not> (i < length (q_entries q) \<and> qe_phase (q_entries q ! i) = Running) then q
      else let q1 = (if resolves then q
                     else if qe_aborted (q_entries q ! i) then notifyCancelled i q
                     else q\<lparr>q_errors := q_errors q + 1\<rparr>)
           in update_entry i (\<lambda>e. e\<lparr>qe_phase := Settled, qe_tracked := False\<rparr>) q1)"

definition execution_finally :: "nat \<Rightarrow> queue \<Rightarrow> queue" where
  "execution_finally i q =
     (if i < length (q_entries q) \<and> settled q i then
        (case qe_scope (q_entries q ! i) of
           Res r \<Rightarrow> if map_of (q_resources q) r = Some i then q\<lparr>q_resources := jm_delete r (q_resources q)\<rparr> else q
         | Excl \<Rightarrow> q)
      else q)"

definition drained :: "queue \<Rightarrow> bool" where
  "drained q \<longleftrightarrow> list_all (settled q) (opt_list (q_barrier q) @ map snd (q_resources q))"

datatype queue_op =
    Enqueue string "bool option"
  | EnqueueExclusive "bool option"
  | CancelAll
  | Start nat
  | Finish nat bool
  | Finally nat

fun queue_step :: "queue_op \<Rightarrow> queue \<Rightarrow> queue" where
  "queue_step (Enqueue r c) q = enqueue r c q"
| "queue_step (EnqueueExclusive c) q = enqueueExclusive c q"
| "queue_step CancelAll q = fst (cancelAll q)"
| "queue_step (Start i) q = run_start i q"
| "queue_step (Finish i b) q = run_finish i b q"
| "queue_step (Finally i) q = execution_finally i q"

section \<open>The order in which executions may run\<close>

fun conflict :: "scope \<Rightarrow> scope \<Rightarrow> bool" where
  "conflict (Res a) (Res b) \<longleftrightarrow> a = b"
| "conflict _ _ \<longleftrightarrow> True"

abbreviation sc :: "queue \<Rightarrow> nat \<Rightarrow> scope" where
  "sc q i \<equiv> qe_scope (q_entries q ! i)"

abbreviation ph :: "queue \<Rightarrow> nat \<Rightarrow> phase" where
  "ph q i \<equiv> qe_phase (q_entries q ! i)"

abbreviation size_q :: "queue \<Rightarrow> nat" where
  "size_q q \<equiv> length (q_entries q)"

text \<open>Every earlier conflicting execution has settled or is waited for, directly or behind a later one.\<close>

definition waits_ok :: "queue \<Rightarrow> bool" where
  "waits_ok q \<longleftrightarrow> (\<forall>j < size_q q. \<forall>i<j. conflict (sc q i) (sc q j) \<longrightarrow>
     settled q i \<or> (\<exists>d\<in>set (qe_deps (q_entries q ! j)). d = i \<or> i < d \<and> conflict (sc q i) (sc q d)))"

definition deps_ok :: "queue \<Rightarrow> bool" where
  "deps_ok q \<longleftrightarrow> (\<forall>j < size_q q. \<forall>d\<in>set (qe_deps (q_entries q ! j)). d < j)"

definition order_ok :: "queue \<Rightarrow> bool" where
  "order_ok q \<longleftrightarrow> (\<forall>j < size_q q. ph q j \<noteq> Waiting \<longrightarrow> (\<forall>i<j. conflict (sc q i) (sc q j) \<longrightarrow> settled q i))"

text \<open>The barrier and the resource map name the newest execution of their kind while it is unsettled.\<close>

definition latest_ok :: "queue \<Rightarrow> bool" where
  "latest_ok q \<longleftrightarrow>
     (\<forall>i < size_q q. settled q i \<or>
        (\<exists>r k. sc q i = Res r \<and> map_of (q_resources q) r = Some k \<and> i \<le> k) \<or>
        (\<exists>k. sc q i = Excl \<and> q_barrier q = Some k \<and> i \<le> k)) \<and>
     (\<forall>r k. map_of (q_resources q) r = Some k \<longrightarrow> k < size_q q \<and> sc q k = Res r) \<and>
     (\<forall>k. q_barrier q = Some k \<longrightarrow> k < size_q q \<and> sc q k = Excl) \<and> jm_ok (q_resources q)"

definition queue_ok :: "queue \<Rightarrow> bool" where
  "queue_ok q \<longleftrightarrow> waits_ok q \<and> deps_ok q \<and> order_ok q \<and> latest_ok q"


text \<open>
  Steps that leave dependencies, scopes and the two pointers alone and move phases only forward
  (a running or settled execution never returns to waiting, a settled one stays settled).
\<close>

definition same_shape :: "queue \<Rightarrow> queue \<Rightarrow> bool" where
  "same_shape q q' \<longleftrightarrow> size_q q' = size_q q \<and> q_barrier q' = q_barrier q \<and> q_resources q' = q_resources q \<and>
     (\<forall>i < size_q q. qe_deps (q_entries q' ! i) = qe_deps (q_entries q ! i) \<and> sc q' i = sc q i)"

definition same_phases :: "queue \<Rightarrow> queue \<Rightarrow> bool" where
  "same_phases q q' \<longleftrightarrow> same_shape q q' \<and> (\<forall>i < size_q q. ph q' i = ph q i)"

lemma same_phases_refl [simp]: "same_phases q q"
  by (simp add: same_phases_def same_shape_def)

lemma same_phases_trans: "same_phases q r \<Longrightarrow> same_phases r s \<Longrightarrow> same_phases q s"
  by (simp add: same_phases_def same_shape_def)

lemma same_phases_update:
  assumes "same_phases q q'"
    and "\<And>e. qe_deps (f e) = qe_deps e \<and> qe_scope (f e) = qe_scope e \<and> qe_phase (f e) = qe_phase e"
  shows "same_phases q (update_entry i f q')"
  using assms
  by (cases "i < size_q q'") (auto simp: same_phases_def same_shape_def update_entry_def nth_list_update list_update_beyond)

lemma same_phases_counters:
  "same_phases q (q'\<lparr>q_errors := n\<rparr>) \<longleftrightarrow> same_phases q q'" "same_phases q (q'\<lparr>q_generation := n\<rparr>) \<longleftrightarrow> same_phases q q'"
  by (simp_all add: same_phases_def same_shape_def)

lemma same_phases_notify: "same_phases q q' \<Longrightarrow> same_phases q (notifyCancelled i q')"
  unfolding notifyCancelled_def Let_def
  by (auto split: option.splits simp: same_phases_counters intro!: same_phases_update)

lemma same_phases_cancel_entry: "same_phases q q' \<Longrightarrow> same_phases q (cancel_entry i q')"
  unfolding cancel_entry_def Let_def
  by (auto intro!: same_phases_update same_phases_notify)

lemma same_phases_cancelAll: "same_phases q (fst (cancelAll q))"
proof -
  have "same_phases q q' \<Longrightarrow> same_phases q (fold cancel_entry is q')" for "is" q'
    by (induction "is" arbitrary: q') (simp_all add: same_phases_cancel_entry)
  then show ?thesis by (simp add: cancelAll_def Let_def same_phases_counters)
qed

lemma queue_ok_same_phases:
  assumes "same_phases q q'" and "queue_ok q"
  shows "queue_ok q'"
proof -
  note eqs = assms(1) [unfolded same_phases_def same_shape_def]
  have set: "settled q' i = settled q i" if "i < size_q q" for i using eqs that by (simp add: settled_def)
  have "waits_ok q'"
    unfolding waits_ok_def
  proof (intro allI impI)
    fix j i
    assume j: "j < size_q q'" "i < j" "conflict (sc q' i) (sc q' j)"
    then have "settled q i \<or> (\<exists>d\<in>set (qe_deps (q_entries q ! j)). d < j \<and> (d = i \<or> i < d \<and> conflict (sc q i) (sc q d)))"
      using assms(2) eqs unfolding queue_ok_def waits_ok_def deps_ok_def by fastforce
    then show "settled q' i \<or> (\<exists>d\<in>set (qe_deps (q_entries q' ! j)). d = i \<or> i < d \<and> conflict (sc q' i) (sc q' d))"
      using j eqs set by fastforce
  qed
  moreover have "deps_ok q'" "order_ok q'"
    using assms(2) eqs set unfolding queue_ok_def deps_ok_def order_ok_def by auto
  moreover have "latest_ok q'"
    using assms(2) eqs set unfolding queue_ok_def latest_ok_def by auto
  ultimately show ?thesis by (simp add: queue_ok_def)
qed

text \<open>Moving one execution forward: it may leave \<open>Waiting\<close> only when every earlier conflict settled.\<close>

lemma queue_ok_advance:
  assumes ok: "queue_ok q" and i: "i < size_q q" "ph q i \<noteq> Settled"
    and f: "\<And>e. qe_deps (f e) = qe_deps e \<and> qe_scope (f e) = qe_scope e \<and> qe_phase (f e) \<noteq> Waiting"
    and earlier: "\<And>k. k < i \<Longrightarrow> conflict (sc q k) (sc q i) \<Longrightarrow> settled q k"
  shows "queue_ok (update_entry i f q)"
proof -
  let ?q = "update_entry i f q"
  have e: "q_entries ?q ! k = (if k = i then f (q_entries q ! i) else q_entries q ! k)" for k
    using i by (simp add: update_entry_def)
  have len: "size_q ?q = size_q q" "q_barrier ?q = q_barrier q" "q_resources ?q = q_resources q"
    by (simp_all add: update_entry_def)
  have same: "sc ?q k = sc q k" "qe_deps (q_entries ?q ! k) = qe_deps (q_entries q ! k)" for k
    using f by (simp_all add: e)
  have mono: "settled q k \<Longrightarrow> settled ?q k" for k using i by (auto simp: settled_def e)
  have "waits_ok ?q" "deps_ok ?q"
    using ok mono unfolding queue_ok_def waits_ok_def deps_ok_def len same by blast+
  moreover have "order_ok ?q"
    unfolding order_ok_def len same
  proof (intro allI impI)
    fix j k
    assume "j < size_q q" "ph ?q j \<noteq> Waiting" "k < j" "conflict (sc q k) (sc q j)"
    then have "settled q k"
      using ok earlier by (cases "j = i") (auto simp: e queue_ok_def order_ok_def)
    then show "settled ?q k" by (rule mono)
  qed
  moreover have "latest_ok ?q"
    using ok mono unfolding queue_ok_def latest_ok_def len same by blast
  ultimately show ?thesis by (simp add: queue_ok_def)
qed

lemma ready_earlier_settled:
  assumes ok: "queue_ok q" and r: "ready q j" and i: "i < j" "conflict (sc q i) (sc q j)"
  shows "settled q i"
proof (rule ccontr)
  assume "\<not> settled q i"
  moreover have j: "j < size_q q" "list_all (settled q) (qe_deps (q_entries q ! j))" using r by (simp_all add: ready_def)
  ultimately obtain d where d: "d \<in> set (qe_deps (q_entries q ! j))" "i < d" "conflict (sc q i) (sc q d)"
    using ok i unfolding queue_ok_def waits_ok_def by (metis list_all_iff)
  have "d < j" "settled q d" using ok j d by (auto simp: queue_ok_def deps_ok_def list_all_iff)
  then have "settled q i"
    using ok d j unfolding queue_ok_def order_ok_def settled_def by (metis less_trans phase.distinct(3))
  with \<open>\<not> settled q i\<close> show False by contradiction
qed

lemma run_start_ok:
  assumes ok: "queue_ok q"
  shows "queue_ok (run_start i q)"
proof (cases "ready q i")
  case True
  note earlier = ready_earlier_settled [OF ok True]
  have i: "i < size_q q" "ph q i = Waiting" using True by (simp_all add: ready_def)
  have n: "same_phases q (notifyCancelled i q)" by (rule same_phases_notify) simp
  note eqs = n [unfolded same_phases_def same_shape_def]
  have "queue_ok (update_entry i (\<lambda>e. e\<lparr>qe_phase := Settled, qe_tracked := False\<rparr>) (notifyCancelled i q))"
    using i eqs earlier by (intro queue_ok_advance queue_ok_same_phases [OF n ok]) (auto simp: settled_def)
  moreover have "queue_ok (update_entry i (\<lambda>e. e\<lparr>qe_started := True, qe_phase := Running\<rparr>) q)"
    using i earlier by (intro queue_ok_advance ok) auto
  ultimately show ?thesis using True by (simp add: run_start_def)
qed (simp add: run_start_def ok)

lemma run_finish_ok:
  assumes ok: "queue_ok q"
  shows "queue_ok (run_finish i b q)"
proof (cases "i < size_q q \<and> ph q i = Running")
  case True
  define q1 where "q1 = (if b then q else if qe_aborted (q_entries q ! i) then notifyCancelled i q else q\<lparr>q_errors := q_errors q + 1\<rparr>)"
  have n: "same_phases q q1" by (simp add: q1_def same_phases_counters same_phases_notify)
  note eqs = n [unfolded same_phases_def same_shape_def]
  have "settled q k" if "k < i" "conflict (sc q k) (sc q i)" for k
    using ok True that by (auto simp: queue_ok_def order_ok_def)
  then have "queue_ok (update_entry i (\<lambda>e. e\<lparr>qe_phase := Settled, qe_tracked := False\<rparr>) q1)"
    using True eqs by (intro queue_ok_advance queue_ok_same_phases [OF n ok]) (auto simp: settled_def)
  with True show ?thesis by (simp add: run_finish_def q1_def [symmetric] Let_def)
qed (simp add: run_finish_def ok)


lemma execution_finally_ok:
  assumes ok: "queue_ok q"
  shows "queue_ok (execution_finally i q)"
proof (cases "\<exists>r. i < size_q q \<and> settled q i \<and> sc q i = Res r \<and> map_of (q_resources q) r = Some i")
  case True
  then obtain r where i: "i < size_q q" "settled q i" "sc q i = Res r" "map_of (q_resources q) r = Some i" by blast
  let ?q = "q\<lparr>q_resources := jm_delete r (q_resources q)\<rparr>"
  have q: "execution_finally i q = ?q" using i by (simp add: execution_finally_def)
  have set: "settled ?q = settled q" by (simp add: settled_def fun_eq_iff)
  have "settled q k \<or> (\<exists>s m. sc q k = Res s \<and> map_of (jm_delete r (q_resources q)) s = Some m \<and> k \<le> m)
       \<or> (\<exists>m. sc q k = Excl \<and> q_barrier q = Some m \<and> k \<le> m)" if k: "k < size_q q" for k
  proof (cases "sc q k = Res r")
    case True
    have "settled q k \<or> k \<le> i" using ok k i True unfolding queue_ok_def latest_ok_def
      by (metis option.inject scope.distinct(1) scope.inject)
    moreover have "settled q k" if "k < i"
      using ok i True that unfolding queue_ok_def order_ok_def settled_def by (metis conflict.simps(1) phase.distinct(3))
    ultimately show ?thesis using i(2) by (cases "k = i") auto
  next
    case False
    then show ?thesis using ok k unfolding queue_ok_def latest_ok_def map_of_jm_delete by metis
  qed
  then have "latest_ok ?q"
    using ok unfolding latest_ok_def set queue_ok_def
    by (auto simp: map_of_jm_delete split: if_splits)
  then show ?thesis using ok unfolding q queue_ok_def waits_ok_def deps_ok_def order_ok_def set by simp
next
  case False
  then have "execution_finally i q = q" by (auto simp: execution_finally_def split: scope.splits)
  then show ?thesis using ok by simp
qed

lemma queue_add_entry:
  "q_entries (queue_add deps s c q) ! i =
     (if i < size_q q then q_entries q ! i else q_entries (queue_add deps s c q) ! i)"
  "size_q (queue_add deps s c q) = Suc (size_q q)"
  "qe_phase (q_entries (queue_add deps s c q) ! size_q q) = Waiting"
  "qe_deps (q_entries (queue_add deps s c q) ! size_q q) = deps"
  "qe_scope (q_entries (queue_add deps s c q) ! size_q q) = s"
  by (simp_all add: queue_add_def nth_append)

text \<open>Queuing an execution behind everything it conflicts with keeps the order facts.\<close>

lemma queue_add_order:
  assumes ok: "queue_ok q" and deps: "\<And>d. d \<in> set deps \<Longrightarrow> d < size_q q"
    and waits: "\<And>i. i < size_q q \<Longrightarrow> conflict (sc q i) s \<Longrightarrow>
       settled q i \<or> (\<exists>d\<in>set deps. d = i \<or> i < d \<and> conflict (sc q i) (sc q d))"
  shows "waits_ok (queue_add deps s c q) \<and> deps_ok (queue_add deps s c q) \<and> order_ok (queue_add deps s c q)"
proof -
  let ?q = "queue_add deps s c q" and ?n = "size_q q"
  have old: "q_entries ?q ! i = q_entries q ! i" if "i < ?n" for i using that by (simp add: queue_add_def nth_append)
  have set: "settled ?q i = settled q i" if "i < ?n" for i using that by (simp add: settled_def old)
  have "waits_ok ?q"
    unfolding waits_ok_def
  proof (intro allI impI)
    fix j i
    assume j: "j < size_q ?q" "i < j" "conflict (sc ?q i) (sc ?q j)"
    then have i: "i < ?n" by (simp add: queue_add_entry)
    show "settled ?q i \<or> (\<exists>d\<in>set (qe_deps (q_entries ?q ! j)). d = i \<or> i < d \<and> conflict (sc ?q i) (sc ?q d))"
    proof (cases "j = ?n")
      case True
      with waits [OF i] deps j i show ?thesis by (auto simp: queue_add_entry(3-5) set old)
    next
      case False
      then have j': "j < ?n" using j by (simp add: queue_add_entry)
      have "settled q i \<or> (\<exists>d\<in>set (qe_deps (q_entries q ! j)). d < j \<and> (d = i \<or> i < d \<and> conflict (sc q i) (sc q d)))"
        using ok j' i j unfolding queue_ok_def waits_ok_def deps_ok_def by (fastforce simp: old)
      then show ?thesis using j' i by (fastforce simp: set old)
    qed
  qed
  moreover have "deps_ok ?q"
    using ok deps unfolding queue_ok_def deps_ok_def queue_add_entry(2)
    by (metis less_Suc_eq old queue_add_entry(4))
  moreover have "order_ok ?q"
    using ok unfolding queue_ok_def order_ok_def queue_add_entry(2)
    by (metis less_Suc_eq less_trans old set queue_add_entry(3))
  ultimately show ?thesis by blast
qed


lemma latest_ok_add:
  assumes lat: "latest_ok q" and n: "n = size_q q" "size_q e = Suc n"
    and old: "\<And>i. i < n \<Longrightarrow> q_entries e ! i = q_entries q ! i"
    and bar: "q_barrier e = (if sc e n = Excl then Some n else q_barrier q)"
    and res: "\<And>r. map_of (q_resources e) r = (if sc e n = Res r then Some n else map_of (q_resources q) r)"
    and jm: "jm_ok (q_resources e)"
  shows "latest_ok e"
proof -
  have reached: "settled e i \<or> (\<exists>r k. sc e i = Res r \<and> map_of (q_resources e) r = Some k \<and> i \<le> k)
      \<or> (\<exists>k. sc e i = Excl \<and> q_barrier e = Some k \<and> i \<le> k)" if "i < Suc n" for i
  proof (cases "i = n")
    case True
    then show ?thesis by (cases "sc e n") (auto simp: bar res)
  next
    case False
    then have i: "i < n" using that by simp
    with lat n consider "settled q i" | r k where "sc q i = Res r" "map_of (q_resources q) r = Some k" "i \<le> k"
      | k where "sc q i = Excl" "q_barrier q = Some k" "i \<le> k"
      unfolding latest_ok_def by metis
    then show ?thesis using i by cases (auto simp: settled_def old bar res)
  qed
  have "(\<forall>r k. map_of (q_resources e) r = Some k \<longrightarrow> k < Suc n \<and> sc e k = Res r) \<and>
      (\<forall>k. q_barrier e = Some k \<longrightarrow> k < Suc n \<and> sc e k = Excl)"
    using lat old n unfolding latest_ok_def bar res by (auto simp: less_Suc_eq)
  with reached jm show ?thesis unfolding latest_ok_def n(2) by blast
qed

lemma settled_cong: "q_entries e = q_entries q \<Longrightarrow> settled e = settled q"
  by (simp add: settled_def fun_eq_iff)

lemma order_cong:
  assumes "q_entries e = q_entries q"
  shows "waits_ok e = waits_ok q" "deps_ok e = deps_ok q" "order_ok e = order_ok q"
  unfolding waits_ok_def deps_ok_def order_ok_def settled_cong [OF assms] assms by (rule refl)+

lemma enqueue_ok:
  assumes ok: "queue_ok q"
  shows "queue_ok (enqueue resource c q)"
proof -
  let ?deps = "opt_list (q_barrier q) @ opt_list (map_of (q_resources q) resource)" and ?n = "size_q q"
  let ?a = "queue_add ?deps (Res resource) c q" and ?e = "enqueue resource c q"
  note lat = ok [unfolded queue_ok_def latest_ok_def]
  have latq: "latest_ok q" and jm: "jm_ok (q_resources q)" using ok by (simp_all add: queue_ok_def latest_ok_def)
  have deps: "d < ?n" if "d \<in> set ?deps" for d
    using lat that by (auto simp: opt_list_def split: option.splits)
  have waits: "settled q i \<or> (\<exists>d\<in>set ?deps. d = i \<or> i < d \<and> conflict (sc q i) (sc q d))"
    if i: "i < ?n" "conflict (sc q i) (Res resource)" for i
  proof -
    from lat i consider "settled q i" | k where "sc q i = Res resource" "map_of (q_resources q) resource = Some k" "i \<le> k"
      | k where "sc q i = Excl" "q_barrier q = Some k" "i \<le> k"
      by (metis conflict.simps(1))
    then show ?thesis using lat by cases (force simp: opt_list_def le_less)+
  qed
  note add = queue_add_order [OF ok deps waits, where c = c]
  have e: "q_entries ?e = q_entries ?a" by (simp add: enqueue_def Let_def)
  have "latest_ok ?e"
    using jm by (intro latest_ok_add [OF latq refl]) (simp_all add: enqueue_def queue_add_def nth_append map_of_jm_set Let_def)
  then show ?thesis
    using add order_cong [OF e] by (simp add: queue_ok_def)
qed

lemma enqueueExclusive_ok:
  assumes ok: "queue_ok q"
  shows "queue_ok (enqueueExclusive c q)"
proof -
  let ?deps = "opt_list (q_barrier q) @ map snd (q_resources q)" and ?n = "size_q q"
  let ?a = "queue_add ?deps Excl c q" and ?e = "enqueueExclusive c q"
  note lat = ok [unfolded queue_ok_def latest_ok_def]
  have latq: "latest_ok q" and jm: "jm_ok (q_resources q)" using ok by (simp_all add: queue_ok_def latest_ok_def)
  have res: "k < ?n" "sc q k = Res r" if "(r, k) \<in> set (q_resources q)" for r k
    using lat that by (auto simp: jm_ok_def)
  have deps: "d < ?n" if "d \<in> set ?deps" for d
    using lat res that by (auto simp: opt_list_def split: option.splits)
  have waits: "settled q i \<or> (\<exists>d\<in>set ?deps. d = i \<or> i < d \<and> conflict (sc q i) (sc q d))" if i: "i < ?n" for i
  proof -
    from lat i consider "settled q i" | r k where "sc q i = Res r" "map_of (q_resources q) r = Some k" "i \<le> k"
      | k where "sc q i = Excl" "q_barrier q = Some k" "i \<le> k"
      by metis
    then show ?thesis
    proof cases
      case (2 r k)
      then have "(r, k) \<in> set (q_resources q)" by (simp add: map_of_SomeD)
      with 2 res [OF this] show ?thesis by (force simp: le_less)
    qed (use lat in \<open>force simp: opt_list_def le_less\<close>)+
  qed
  note add = queue_add_order [OF ok deps waits, where c = c]
  have e: "q_entries ?e = q_entries ?a" by (simp add: enqueueExclusive_def Let_def)
  have "latest_ok ?e"
    using jm by (intro latest_ok_add [OF latq refl]) (simp_all add: enqueueExclusive_def queue_add_def nth_append Let_def)
  then show ?thesis
    using add order_cong [OF e] by (simp add: queue_ok_def)
qed

interpretation rq: machine_invariant queue_step queue_ok
proof
  show "queue_ok q \<Longrightarrow> queue_ok (queue_step op q)" for op q
    by (cases op) (simp_all add: enqueue_ok enqueueExclusive_ok run_start_ok run_finish_ok execution_finally_ok
        queue_ok_same_phases [OF same_phases_cancelAll])
qed

lemma new_queue_ok: "queue_ok new_queue"
  by (simp add: new_queue_def queue_ok_def waits_ok_def deps_ok_def order_ok_def latest_ok_def jm_ok_def)

text \<open>
  C7. Mutual exclusion and order. In every reachable state of the queue, an execution that has
  started has every earlier execution of the same resource, every earlier exclusive one and, if
  it is exclusive itself, every earlier one of any kind settled behind it. So two tasks of one
  resource never run together, and nothing runs beside an exclusive task.
\<close>

theorem queue_serialises:
  assumes run: "q = fold queue_step ops new_queue" and j: "j < size_q q" "ph q j \<noteq> Waiting"
    and i: "i < j" "conflict (sc q i) (sc q j)"
  shows "ph q i = Settled"
proof -
  have "queue_ok q" unfolding run by (rule rq.inv_run) (rule new_queue_ok)
  then show ?thesis using i j by (auto simp: queue_ok_def order_ok_def settled_def)
qed

text \<open>
  C32. The queue never deadlocks: while an execution is waiting, some task is running or some
  waiting execution can start.
\<close>

theorem queue_progress:
  assumes run: "q = fold queue_step ops new_queue" and j: "j < size_q q" "ph q j = Waiting"
  shows "\<exists>i < size_q q. ph q i = Running \<or> ready q i"
proof -
  have ok: "queue_ok q" unfolding run by (rule rq.inv_run) (rule new_queue_ok)
  define m where "m = (LEAST i. i < size_q q \<and> ph q i = Waiting)"
  have m: "m < size_q q" "ph q m = Waiting"
    using LeastI [of "\<lambda>i. i < size_q q \<and> ph q i = Waiting"] j unfolding m_def by blast+
  have before: "ph q i \<noteq> Waiting" if "i < m" for i
    using not_less_Least [of i "\<lambda>i. i < size_q q \<and> ph q i = Waiting"] that m unfolding m_def by force
  have deps: "d < m" if "d \<in> set (qe_deps (q_entries q ! m))" for d
    using ok m that by (auto simp: queue_ok_def deps_ok_def)
  show ?thesis
  proof (cases "ready q m")
    case False
    then obtain d where d: "d \<in> set (qe_deps (q_entries q ! m))" "ph q d \<noteq> Settled"
      using m by (auto simp: ready_def list_all_iff settled_def)
    with before [OF deps [OF d(1)]] have "ph q d = Running" by (cases "ph q d") auto
    then show ?thesis using deps [OF d(1)] m by (meson less_trans)
  qed (use m in blast)
qed

section \<open>Cancellation\<close>

text \<open>What cancelling and notifying do to the one entry they touch.\<close>

definition notified_entry :: "queue_entry \<Rightarrow> queue_entry" where
  "notified_entry e = (if qe_notified e then e
     else e\<lparr>qe_notified := True, qe_calls := qe_calls e + (if qe_onCancelled e = None then 0 else 1)\<rparr>)"

definition cancelled_entry :: "queue_entry \<Rightarrow> queue_entry" where
  "cancelled_entry e = (if qe_started e then e\<lparr>qe_aborted := True, qe_cancelled := True\<rparr>
     else (notified_entry (e\<lparr>qe_aborted := True\<rparr>))\<lparr>qe_tracked := False, qe_cancelled := True\<rparr>)"

lemma notifyCancelled_entries: "q_entries (notifyCancelled i q) = (q_entries q)[i := notified_entry (q_entries q ! i)]"
  by (cases "i < size_q q")
     (auto simp: notifyCancelled_def notified_entry_def update_entry_def Let_def list_update_beyond split: option.splits)

lemma cancel_entry_entries: "q_entries (cancel_entry i q) = (q_entries q)[i := cancelled_entry (q_entries q ! i)]"
  by (cases "i < size_q q")
     (auto simp: cancel_entry_def cancelled_entry_def update_entry_def notifyCancelled_entries Let_def list_update_beyond)

lemma fold_cancel_entries:
  "distinct is \<Longrightarrow> (\<And>i. i \<in> set is \<Longrightarrow> i < size_q q) \<Longrightarrow> j < size_q q \<Longrightarrow>
     q_entries (fold cancel_entry is q) ! j = (if j \<in> set is then cancelled_entry (q_entries q ! j) else q_entries q ! j)"
  by (induction "is" arbitrary: q) (auto simp: cancel_entry_entries nth_list_update)

lemma cancelAll_entries:
  "j < size_q q \<Longrightarrow> q_entries (fst (cancelAll q)) ! j =
     (if qe_tracked (q_entries q ! j) then cancelled_entry (q_entries q ! j) else q_entries q ! j)"
  using fold_cancel_entries [of "tracked q" "q\<lparr>q_generation := q_generation q + 1\<rparr>" j]
  by (simp add: cancelAll_def Let_def tracked_def)

text \<open>The callback was called exactly when the entry is marked notified and has one.\<close>

definition calls_exact :: "queue_entry \<Rightarrow> bool" where
  "calls_exact e \<longleftrightarrow> qe_calls e = (if qe_notified e \<and> qe_onCancelled e \<noteq> None then 1 else 0)"

definition calls_ok :: "queue \<Rightarrow> bool" where
  "calls_ok q \<longleftrightarrow> (\<forall>i < size_q q. calls_exact (q_entries q ! i))"

lemma calls_exact_notified: "calls_exact e \<Longrightarrow> calls_exact (notified_entry e)"
  by (auto simp: calls_exact_def notified_entry_def)

lemma calls_exact_cancelled: "calls_exact e \<Longrightarrow> calls_exact (cancelled_entry e)"
  by (auto simp: calls_exact_def notified_entry_def cancelled_entry_def)

text \<open>An entry cancelled before it started stays notified and never starts.\<close>

definition halted :: "queue_entry \<Rightarrow> bool" where
  "halted e \<longleftrightarrow> qe_aborted e \<and> \<not> qe_started e \<and> qe_notified e \<and> qe_cancelled e"

text \<open>What one step may do to an entry that exists.\<close>

definition entry_step :: "queue_entry \<Rightarrow> queue_entry \<Rightarrow> bool" where
  "entry_step e e' \<longleftrightarrow> (calls_exact e \<longrightarrow> calls_exact e') \<and> (halted e \<longrightarrow> halted e') \<and> qe_onCancelled e' = qe_onCancelled e"

lemma entry_step_refl [simp]: "entry_step e e"
  by (simp add: entry_step_def)

lemma entry_step_notified: "entry_step e ((notified_entry e)\<lparr>qe_phase := p, qe_tracked := b\<rparr>)"
  by (auto simp: entry_step_def calls_exact_def halted_def notified_entry_def)

lemma entry_step_cancelled: "entry_step e (cancelled_entry e)"
  by (auto simp: entry_step_def calls_exact_def halted_def cancelled_entry_def notified_entry_def)

lemma entry_step_list_update: "j < length xs \<Longrightarrow> entry_step (xs ! i) e \<Longrightarrow> entry_step (xs ! j) (xs[i := e] ! j)"
  by (cases "i = j") auto

lemma entry_step_settle: "entry_step e (e\<lparr>qe_phase := p, qe_tracked := b\<rparr>)"
  by (auto simp: entry_step_def calls_exact_def halted_def)

lemma entry_step_start: "\<not> qe_aborted e \<Longrightarrow> entry_step e (e\<lparr>qe_started := True, qe_phase := p\<rparr>)"
  by (auto simp: entry_step_def calls_exact_def halted_def)

lemmas entry_steps = entry_step_list_update entry_step_settle entry_step_start entry_step_notified

lemma run_start_entries:
  "size_q (run_start i q) = size_q q \<and>
     (j < size_q q \<longrightarrow> entry_step (q_entries q ! j) (q_entries (run_start i q) ! j))"
proof (cases "ready q i")
  case True
  then have "i < size_q q" by (simp add: ready_def)
  then show ?thesis
    by (auto simp: run_start_def update_entry_def notifyCancelled_entries intro!: entry_steps)
qed (simp add: run_start_def)

lemma run_finish_entries:
  "size_q (run_finish i b q) = size_q q \<and>
     (j < size_q q \<longrightarrow> entry_step (q_entries q ! j) (q_entries (run_finish i b q) ! j))"
proof (cases "i < size_q q \<and> ph q i = Running")
  case True
  then show ?thesis
    by (auto simp: run_finish_def update_entry_def notifyCancelled_entries Let_def intro!: entry_steps)
qed (simp add: run_finish_def)

lemma queue_step_entries:
  "size_q q \<le> size_q (queue_step op q) \<and>
   (\<forall>j < size_q q. entry_step (q_entries q ! j) (q_entries (queue_step op q) ! j)) \<and>
   (\<forall>j < size_q (queue_step op q). size_q q \<le> j \<longrightarrow> calls_exact (q_entries (queue_step op q) ! j))"
proof (cases op)
  case CancelAll
  then show ?thesis
    using same_phases_cancelAll [of q]
    by (auto simp: cancelAll_entries entry_step_cancelled same_phases_def same_shape_def)
next
  case (Start i)
  then show ?thesis using run_start_entries [of i q] by auto
next
  case (Finish i b)
  then show ?thesis using run_finish_entries [of i b q] by auto
qed (auto simp: enqueue_def enqueueExclusive_def queue_add_def nth_append calls_exact_def execution_finally_def Let_def
       split: scope.splits)

interpretation rq_calls: machine_invariant queue_step calls_ok
proof
  show "calls_ok q \<Longrightarrow> calls_ok (queue_step op q)" for op q
    using queue_step_entries [of q op] unfolding calls_ok_def entry_step_def by (metis not_le)
qed

interpretation rq_halted: machine_stable queue_step calls_ok "\<lambda>q. i < size_q q \<and> halted (q_entries q ! i) \<and> qe_onCancelled (q_entries q ! i) = c"
proof
  show "calls_ok q \<Longrightarrow> i < size_q q \<and> halted (q_entries q ! i) \<and> qe_onCancelled (q_entries q ! i) = c \<Longrightarrow>
      i < size_q (queue_step op q) \<and> halted (q_entries (queue_step op q) ! i) \<and> qe_onCancelled (q_entries (queue_step op q) ! i) = c"
    for op q using queue_step_entries [of q op] unfolding entry_step_def by auto
qed

text \<open>
  Cancellation is final. An execution that was queued and not started when \<open>cancelAll\<close> ran
  never starts afterwards, whatever else happens; its caller's promise is released, and its
  callback, if it gave one, has been called exactly once and is never called again.
\<close>

theorem cancelled_never_starts:
  assumes reach: "q = fold queue_step before new_queue"
    and i: "i < size_q q" "qe_tracked (q_entries q ! i)" "\<not> qe_started (q_entries q ! i)"
    and after: "q' = fold queue_step after (fst (cancelAll q))"
  shows "\<not> qe_started (q_entries q' ! i) \<and> qe_cancelled (q_entries q' ! i) \<and>
    qe_calls (q_entries q' ! i) = (if qe_onCancelled (q_entries q ! i) = None then 0 else 1)"
proof -
  have calls: "calls_ok q" unfolding reach by (rule rq_calls.inv_run) (simp add: calls_ok_def new_queue_def)
  have c0: "calls_ok (fst (cancelAll q))" using rq_calls.inv_step [OF calls, of CancelAll] by simp
  have "size_q (fst (cancelAll q)) = size_q q" using same_phases_cancelAll [of q] by (simp add: same_phases_def same_shape_def)
  then have "i < size_q (fst (cancelAll q)) \<and> halted (q_entries (fst (cancelAll q)) ! i)
      \<and> qe_onCancelled (q_entries (fst (cancelAll q)) ! i) = qe_onCancelled (q_entries q ! i)"
    using i by (auto simp: cancelAll_entries halted_def cancelled_entry_def notified_entry_def)
  from rq_halted.stable_run [OF c0 this, of after] rq_calls.inv_run [OF c0, of after]
  show ?thesis unfolding after [symmetric] by (auto simp: halted_def calls_ok_def calls_exact_def)
qed

section \<open>The properties at concrete runs\<close>

lemmas queue_eval = enqueue_def enqueueExclusive_def queue_add_def new_queue_def run_start_def run_finish_def ready_def
  settled_def update_entry_def opt_list_def cancelAll_def cancel_entry_def tracked_def notifyCancelled_def Let_def

theorem queue_serialises_witness:
  "ph (fold queue_step [Enqueue ''a'' None, EnqueueExclusive None, Start 0, Finish 0 True, Start 1] new_queue) 0 = Settled"
  by (rule queue_serialises [OF refl, of 1]) (simp_all add: queue_eval)

theorem queue_progress_witness:
  "\<exists>i < size_q (fold queue_step [Enqueue ''a'' None, Enqueue ''a'' None, Start 0] new_queue).
     ph (fold queue_step [Enqueue ''a'' None, Enqueue ''a'' None, Start 0] new_queue) i = Running
     \<or> ready (fold queue_step [Enqueue ''a'' None, Enqueue ''a'' None, Start 0] new_queue) i"
  by (rule queue_progress [OF refl, of 1]) (simp_all add: queue_eval)

theorem cancelled_never_starts_witness:
  "qe_calls (q_entries (fold queue_step [Finish 0 False, Start 1]
     (fst (cancelAll (fold queue_step [Enqueue ''a'' None, Enqueue ''a'' (Some True), Start 0] new_queue)))) ! 1) = 1"
  using cancelled_never_starts [OF refl _ _ _ refl, of 1 "[Enqueue ''a'' None, Enqueue ''a'' (Some True), Start 0]" "[Finish 0 False, Start 1]"]
  by (simp add: queue_eval)

end
