(* ===== verification/Transfer_Manifest.thy ===== *)
theory Transfer_Manifest
  imports Identifiers
begin

text \<open>
  The manifest of a session transfer: the wire schemas of packages/protocol/src/
  (transfer-transaction.ts, transfer-stream.ts, transfer-coverage.ts) and the canonical JSON
  whose digest names a manifest (apps/daemon/src/session-transfer-package.ts). A schema is the
  function \<open>parse\<close> computes: \<open>None\<close> when it throws, and the parsed value, with its trimmed
  fields, otherwise. SHA-256 and the schema library's calendar check are parameters.
\<close>

section \<open>Character classes and bounded numbers\<close>

definition maximumTransferChunkBytes :: nat where
  "maximumTransferChunkBytes = 1048576"

definition maximumTransferBytes :: int where
  "maximumTransferBytes = 2147483648"

definition maximumTransferChunkEncodedCharacters :: nat where
  "maximumTransferChunkEncodedCharacters = 1398104"

definition transferMemberChunkBytes :: nat where
  "transferMemberChunkBytes = 262144"

definition maxSafeInteger :: int where
  "maxSafeInteger = 9007199254740991"

definition safeGenerationSchema :: "int \<Rightarrow> bool" where
  "safeGenerationSchema n \<longleftrightarrow> 0 \<le> n \<and> n \<le> maxSafeInteger"

definition lower_alpha :: "char \<Rightarrow> bool" where
  "lower_alpha c \<longleftrightarrow> c \<in> set ''abcdefghijklmnopqrstuvwxyz''"

definition digit_char :: "char \<Rightarrow> bool" where
  "digit_char c \<longleftrightarrow> c \<in> set ''0123456789''"

text \<open>\<open>first rest{0,n}\<close>: one character of a class, then at most \<open>n\<close> of another.\<close>

definition head_tail :: "(char \<Rightarrow> bool) \<Rightarrow> (char \<Rightarrow> bool) \<Rightarrow> nat \<Rightarrow> string \<Rightarrow> bool" where
  "head_tail first rest n s = (case s of [] \<Rightarrow> False | c # cs \<Rightarrow> first c \<and> list_all rest cs \<and> length cs \<le> n)"

definition name_char :: "char \<Rightarrow> bool" where
  "name_char c \<longleftrightarrow> ascii_alnum c \<or> c \<in> {CHR ''.'', CHR ''_'', CHR ''-''}"

definition sessionTransferMemberIdSchema :: "string \<Rightarrow> bool" where
  "sessionTransferMemberIdSchema =
     head_tail lower_alpha (\<lambda>c. lower_alpha c \<or> digit_char c \<or> c \<in> {CHR '':'', CHR ''.'', CHR ''_'', CHR ''-''}) 255"

definition gitRemoteNameSchema :: "string \<Rightarrow> bool" where
  "gitRemoteNameSchema s \<longleftrightarrow> head_tail ascii_alnum name_char (length s) s \<and> length s \<le> 128"

definition sessionRefPrefix :: string where
  "sessionRefPrefix = ''refs/domovoi/sessions/''"

definition sessionRefSchema :: "string \<Rightarrow> bool" where
  "sessionRefSchema s \<longleftrightarrow> take (length sessionRefPrefix) s = sessionRefPrefix
     \<and> head_tail ascii_alnum name_char 127 (drop (length sessionRefPrefix) s)"

text \<open>The ASCII text of a code-unit sequence, when it is one.\<close>

definition js_ascii :: "js_string \<Rightarrow> string option" where
  "js_ascii s = (if list_all (\<lambda>c. unat c < 128) s then Some (map (\<lambda>c. char_of (unat c)) s) else None)"

definition trimmed_text :: "nat \<Rightarrow> js_string \<Rightarrow> js_string option" where
  "trimmed_text n s = (let t = js_trim s in if t \<noteq> [] \<and> length t \<le> n then Some t else None)"

definition trimmed_session_id :: "js_string \<Rightarrow> js_string option" where
  "trimmed_session_id s =
     (let t = js_trim s in
      case js_ascii t of Some a \<Rightarrow> if head_tail ascii_alnum name_char 127 a then Some t else None | None \<Rightarrow> None)"

section \<open>Members, repository and coverage\<close>

datatype mime_type = ImagePng | ImageJpeg | ImageWebp

datatype member_kind =
    SessionStateMember
  | RepositoryBundleMember
  | ArtifactSourceMember js_string
  | AnnotationCropMember string mime_type

record transfer_member =
  tm_memberId :: string
  tm_digest :: string
  tm_byteLength :: int
  tm_kind :: member_kind

definition sessionTransferMemberSchema :: "transfer_member \<Rightarrow> transfer_member option" where
  "sessionTransferMemberSchema mb =
     (if sessionTransferMemberIdSchema (tm_memberId mb) \<and> sha256DigestSchema (tm_digest mb)
         \<and> 0 \<le> tm_byteLength mb \<and> tm_byteLength mb \<le> maximumTransferBytes
      then (case tm_kind mb of
              SessionStateMember \<Rightarrow> if 0 < tm_byteLength mb then Some mb else None
            | RepositoryBundleMember \<Rightarrow> if 0 < tm_byteLength mb then Some mb else None
            | ArtifactSourceMember a \<Rightarrow>
                map_option (\<lambda>t. mb\<lparr>tm_kind := ArtifactSourceMember t\<rparr>) (trimmed_text 512 a)
            | AnnotationCropMember r mt \<Rightarrow>
                if tagged_hex ''crop-'' 64 r \<and> 0 < tm_byteLength mb then Some mb else None)
      else None)"

datatype transfer_repository = GitBundle string | RemoteRef string string string

fun sessionTransferRepositorySchema :: "transfer_repository \<Rightarrow> bool" where
  "sessionTransferRepositorySchema (GitBundle mid) = sessionTransferMemberIdSchema mid"
| "sessionTransferRepositorySchema (RemoteRef remote ref commit) =
     (gitRemoteNameSchema remote \<and> sessionRefSchema ref \<and> commitShaSchema commit)"

record coverage_entry =
  ce_kind :: string
  ce_count :: "int option"

record transfer_coverage =
  cov_included :: "coverage_entry list"
  cov_excluded :: "coverage_entry list"
  cov_warnings :: "coverage_entry list"

definition includedKinds :: "string list" where
  "includedKinds = [''repository'', ''thread'', ''checkpoints'', ''artifacts'', ''artifact-sources'',
     ''annotations'', ''annotation-crops'', ''working-plan'', ''usage'', ''runtime-settings'']"

definition excludedKinds :: "string list" where
  "excludedKinds = [''provider-credentials'', ''provider-state'', ''terminals'', ''approval-rules'',
     ''skill-authority'', ''audit-log'', ''ignored-files'', ''external-databases'', ''auto'']"

definition warningKinds :: "string list" where
  "warningKinds = [''tracked-sensitive-files-may-travel'', ''promoted-ignored-artifacts'',
     ''provider-restart-required'', ''target-reapproval-required'']"

definition coverageEntry :: "string list \<Rightarrow> coverage_entry \<Rightarrow> bool" where
  "coverageEntry kinds e \<longleftrightarrow> ce_kind e \<in> set kinds \<and> (case ce_count e of None \<Rightarrow> True | Some n \<Rightarrow> safeGenerationSchema n)"

definition uniqueCoverage :: "coverage_entry list \<Rightarrow> bool" where
  "uniqueCoverage es \<longleftrightarrow> distinct (map ce_kind es)"

definition coverage_part :: "string list \<Rightarrow> coverage_entry list \<Rightarrow> bool" where
  "coverage_part kinds es \<longleftrightarrow> list_all (coverageEntry kinds) es \<and> length es \<le> length kinds \<and> uniqueCoverage es"

definition sessionTransferCoverageSchema :: "transfer_coverage \<Rightarrow> bool" where
  "sessionTransferCoverageSchema c \<longleftrightarrow> coverage_part includedKinds (cov_included c)
     \<and> coverage_part excludedKinds (cov_excluded c) \<and> coverage_part warningKinds (cov_warnings c)"

section \<open>The manifest\<close>

record transfer_manifest =
  mf_version :: int
  mf_transferId :: string
  mf_sessionId :: js_string
  mf_sourceMachineId :: string
  mf_targetMachineId :: string
  mf_intentDigest :: string
  mf_createdAt :: string
  mf_fromGeneration :: int
  mf_toGeneration :: int
  mf_sourceProjectId :: js_string
  mf_targetProjectId :: js_string
  mf_lineageCommit :: string
  mf_checkpointCommit :: string
  mf_repository :: transfer_repository
  mf_stateMemberId :: string
  mf_members :: "transfer_member list"
  mf_totalBytes :: int
  mf_coverage :: transfer_coverage

fun all_some :: "'a option list \<Rightarrow> 'a list option" where
  "all_some [] = Some []"
| "all_some (x # xs) = (case (x, all_some xs) of (Some a, Some as) \<Rightarrow> Some (a # as) | _ \<Rightarrow> None)"

definition find_member :: "string \<Rightarrow> transfer_member list \<Rightarrow> transfer_member option" where
  "find_member i ms = find (\<lambda>x. tm_memberId x = i) ms"

definition is_bundle :: "transfer_member \<Rightarrow> bool" where
  "is_bundle x \<longleftrightarrow> tm_kind x = RepositoryBundleMember"

text \<open>The cross-field rules (\<open>superRefine\<close>), over the parsed fields.\<close>

definition manifest_rules :: "transfer_manifest \<Rightarrow> bool" where
  "manifest_rules m \<longleftrightarrow>
     mf_toGeneration m = mf_fromGeneration m + 1 \<and>
     mf_sourceMachineId m \<noteq> mf_targetMachineId m \<and>
     distinct (map tm_memberId (mf_members m)) \<and>
     (case find_member (mf_stateMemberId m) (mf_members m) of
        Some x \<Rightarrow> tm_kind x = SessionStateMember | None \<Rightarrow> False) \<and>
     (case mf_repository m of
        GitBundle mid \<Rightarrow>
          (case find_member mid (mf_members m) of Some x \<Rightarrow> is_bundle x | None \<Rightarrow> False)
          \<and> length (filter is_bundle (mf_members m)) = 1
      | RemoteRef remote ref commit \<Rightarrow>
          \<not> list_ex is_bundle (mf_members m)
          \<and> js ref = js sessionRefPrefix @ mf_sessionId m
          \<and> commit = mf_checkpointCommit m) \<and>
     sum_list (map tm_byteLength (mf_members m)) = mf_totalBytes m"

definition sessionTransferManifestSchema :: "(string \<Rightarrow> bool) \<Rightarrow> transfer_manifest \<Rightarrow> transfer_manifest option" where
  "sessionTransferManifestSchema offsetDateTime m =
     (case (trimmed_session_id (mf_sessionId m), trimmed_text 512 (mf_sourceProjectId m),
            trimmed_text 512 (mf_targetProjectId m), all_some (map sessionTransferMemberSchema (mf_members m))) of
        (Some sid, Some sp, Some tp, Some ms) \<Rightarrow>
          let p = m\<lparr>mf_sessionId := sid, mf_sourceProjectId := sp, mf_targetProjectId := tp, mf_members := ms\<rparr> in
          if mf_version m = 2 \<and> transferIdSchema (mf_transferId m)
             \<and> machineIdSchema (mf_sourceMachineId m) \<and> machineIdSchema (mf_targetMachineId m)
             \<and> sha256DigestSchema (mf_intentDigest m) \<and> offsetDateTime (mf_createdAt m)
             \<and> safeGenerationSchema (mf_fromGeneration m) \<and> safeGenerationSchema (mf_toGeneration m)
             \<and> commitShaSchema (mf_lineageCommit m) \<and> commitShaSchema (mf_checkpointCommit m)
             \<and> sessionTransferRepositorySchema (mf_repository m) \<and> sessionTransferMemberIdSchema (mf_stateMemberId m)
             \<and> 1 \<le> length ms \<and> length ms \<le> 1024
             \<and> 0 < mf_totalBytes m \<and> mf_totalBytes m \<le> maximumTransferBytes
             \<and> sessionTransferCoverageSchema (mf_coverage m) \<and> manifest_rules p
          then Some p else None
      | _ \<Rightarrow> None)"

section \<open>Chunks on the wire\<close>

record member_chunk =
  ck_transferId :: string
  ck_memberId :: string
  ck_sequence :: int
  ck_bytes :: string
  ck_final :: bool
  ck_initiatedByClient :: client_kind

definition transferChunkSchema :: "member_chunk \<Rightarrow> bool" where
  "transferChunkSchema c \<longleftrightarrow> 0 \<le> ck_sequence c
     \<and> length (ck_bytes c) \<le> maximumTransferChunkEncodedCharacters
     \<and> (case canonicalBase64DecodedByteLength (ck_bytes c) of
          Some n \<Rightarrow> n \<le> maximumTransferChunkBytes | None \<Rightarrow> False)"

definition transferMemberParamsSchema :: "member_chunk \<Rightarrow> bool" where
  "transferMemberParamsSchema c \<longleftrightarrow> transferChunkSchema c
     \<and> transferIdSchema (ck_transferId c) \<and> sessionTransferMemberIdSchema (ck_memberId c)
     \<and> (ck_final c \<or> canonicalBase64DecodedByteLength (ck_bytes c) = Some transferMemberChunkBytes)"

section \<open>Canonical JSON and the digest of a manifest\<close>

datatype json =
    JNull
  | JBool bool
  | JNum int
  | JStr js_string
  | JArr "json list"
  | JObj "(js_string \<times> json) list"

function decimal_nat :: "nat \<Rightarrow> js_string" where
  "decimal_nat n = (if n < 10 then [word_of_nat (48 + n)] else decimal_nat (n div 10) @ [word_of_nat (48 + n mod 10)])"
  by auto
termination by (relation "measure id") auto

declare decimal_nat.simps [simp del]

definition decimal_int :: "int \<Rightarrow> js_string" where
  "decimal_int n = (if n < 0 then 45 # decimal_nat (nat (- n)) else decimal_nat (nat n))"

definition hex_unit :: "nat \<Rightarrow> js_char" where
  "hex_unit n = word_of_nat (if n < 10 then 48 + n else 87 + n)"

definition unicode_escape :: "js_char \<Rightarrow> js_string" where
  "unicode_escape c = (let n = unat c in
     [92, 117, hex_unit (n div 4096), hex_unit (n div 256 mod 16), hex_unit (n div 16 mod 16), hex_unit (n mod 16)])"

text \<open>\<open>JSON.stringify\<close> of one code unit that is not half of a surrogate pair.\<close>

definition json_unit :: "js_char \<Rightarrow> js_string" where
  "json_unit c =
     (if c = 34 \<or> c = 92 then [92, c]
      else if c = 8 then [92, 98] else if c = 9 then [92, 116] else if c = 10 then [92, 110]
      else if c = 12 then [92, 102] else if c = 13 then [92, 114]
      else if unat c < 32 \<or> high_surrogate c \<or> low_surrogate c then unicode_escape c
      else [c])"

fun json_units :: "js_string \<Rightarrow> js_string" where
  "json_units [] = []"
| "json_units [c] = json_unit c"
| "json_units (c # d # s) =
     (if high_surrogate c \<and> low_surrogate d then c # d # json_units s else json_unit c @ json_units (d # s))"

definition json_string :: "js_string \<Rightarrow> js_string" where
  "json_string s = 34 # json_units s @ [34]"

fun join_comma :: "js_string list \<Rightarrow> js_string" where
  "join_comma [] = []"
| "join_comma [x] = x"
| "join_comma (x # y # xs) = x @ 44 # join_comma (y # xs)"

primrec canonicalJson :: "json \<Rightarrow> js_string" where
  "canonicalJson JNull = js ''null''"
| "canonicalJson (JBool b) = js (if b then ''true'' else ''false'')"
| "canonicalJson (JNum n) = decimal_int n"
| "canonicalJson (JStr s) = json_string s"
| "canonicalJson (JArr xs) = 91 # join_comma (map canonicalJson xs) @ [93]"
| "canonicalJson (JObj fs) = 123 # join_comma (map (\<lambda>(k, v). json_string k @ 58 # v)
     (sort_key fst (map (map_prod id canonicalJson) fs))) @ [125]"

text \<open>\<open>JSON.stringify\<close>: like the canonical form, with the fields in the order they were written.\<close>

primrec json_stringify :: "json \<Rightarrow> js_string" where
  "json_stringify JNull = js ''null''"
| "json_stringify (JBool b) = js (if b then ''true'' else ''false'')"
| "json_stringify (JNum n) = decimal_int n"
| "json_stringify (JStr s) = json_string s"
| "json_stringify (JArr xs) = 91 # join_comma (map json_stringify xs) @ [93]"
| "json_stringify (JObj fs) = 123 # join_comma (map (\<lambda>(k, v). json_string k @ 58 # v)
     (map (map_prod id json_stringify) fs)) @ [125]"

fun json_opt :: "string \<Rightarrow> json option \<Rightarrow> (js_string \<times> json) list" where
  "json_opt k None = []"
| "json_opt k (Some v) = [(js k, v)]"

abbreviation JText :: "string \<Rightarrow> json" where
  "JText s \<equiv> JStr (js s)"

fun mime_text :: "mime_type \<Rightarrow> string" where
  "mime_text ImagePng = ''image/png''"
| "mime_text ImageJpeg = ''image/jpeg''"
| "mime_text ImageWebp = ''image/webp''"

fun member_kind_fields :: "member_kind \<Rightarrow> (js_string \<times> json) list" where
  "member_kind_fields SessionStateMember = [(js ''kind'', JText ''session-state'')]"
| "member_kind_fields RepositoryBundleMember = [(js ''kind'', JText ''repository-bundle'')]"
| "member_kind_fields (ArtifactSourceMember a) = [(js ''kind'', JText ''artifact-source''), (js ''artifactId'', JStr a)]"
| "member_kind_fields (AnnotationCropMember r mt) =
     [(js ''kind'', JText ''annotation-crop''), (js ''ref'', JText r), (js ''mimeType'', JText (mime_text mt))]"

definition member_json :: "transfer_member \<Rightarrow> json" where
  "member_json mb = JObj ([(js ''memberId'', JText (tm_memberId mb)), (js ''digest'', JText (tm_digest mb)),
     (js ''byteLength'', JNum (tm_byteLength mb))] @ member_kind_fields (tm_kind mb))"

fun repository_json :: "transfer_repository \<Rightarrow> json" where
  "repository_json (GitBundle mid) = JObj [(js ''method'', JText ''git-bundle''), (js ''memberId'', JText mid)]"
| "repository_json (RemoteRef remote ref commit) = JObj [(js ''method'', JText ''remote-ref''),
     (js ''remote'', JText remote), (js ''ref'', JText ref), (js ''commit'', JText commit)]"

definition coverage_entry_json :: "coverage_entry \<Rightarrow> json" where
  "coverage_entry_json e = JObj ((js ''kind'', JText (ce_kind e)) # json_opt ''count'' (map_option JNum (ce_count e)))"

definition coverage_json :: "transfer_coverage \<Rightarrow> json" where
  "coverage_json c = JObj [(js ''included'', JArr (map coverage_entry_json (cov_included c))),
     (js ''excluded'', JArr (map coverage_entry_json (cov_excluded c))),
     (js ''warnings'', JArr (map coverage_entry_json (cov_warnings c)))]"

definition manifest_json :: "transfer_manifest \<Rightarrow> json" where
  "manifest_json m = JObj
     [(js ''version'', JNum (mf_version m)), (js ''transferId'', JText (mf_transferId m)),
      (js ''sessionId'', JStr (mf_sessionId m)), (js ''sourceMachineId'', JText (mf_sourceMachineId m)),
      (js ''targetMachineId'', JText (mf_targetMachineId m)), (js ''intentDigest'', JText (mf_intentDigest m)),
      (js ''createdAt'', JText (mf_createdAt m)),
      (js ''ownership'', JObj [(js ''fromGeneration'', JNum (mf_fromGeneration m)), (js ''toGeneration'', JNum (mf_toGeneration m))]),
      (js ''project'', JObj [(js ''sourceProjectId'', JStr (mf_sourceProjectId m)), (js ''targetProjectId'', JStr (mf_targetProjectId m)),
         (js ''lineageCommit'', JText (mf_lineageCommit m)), (js ''checkpointCommit'', JText (mf_checkpointCommit m))]),
      (js ''repository'', repository_json (mf_repository m)), (js ''stateMemberId'', JText (mf_stateMemberId m)),
      (js ''members'', JArr (map member_json (mf_members m))), (js ''totalBytes'', JNum (mf_totalBytes m)),
      (js ''coverage'', coverage_json (mf_coverage m))]"

definition sessionTransferManifestDomain :: js_string where
  "sessionTransferManifestDomain = js ''domovoi.session-transfer-manifest.v1'' @ [0]"

definition sessionTransferManifestDigest ::
  "(string \<Rightarrow> bool) \<Rightarrow> (js_string \<Rightarrow> string) \<Rightarrow> transfer_manifest \<Rightarrow> string option" where
  "sessionTransferManifestDigest offsetDateTime sha256_text m =
     map_option (\<lambda>v. ''sha256:'' @ sha256_text (sessionTransferManifestDomain @ canonicalJson (manifest_json v)))
       (sessionTransferManifestSchema offsetDateTime m)"

section \<open>Parsing is stable\<close>

lemma trimmed_text_idem: "trimmed_text n s = Some t \<Longrightarrow> trimmed_text n t = Some t"
  by (auto simp: trimmed_text_def Let_def split: if_splits)

lemma trimmed_session_id_idem: "trimmed_session_id s = Some t \<Longrightarrow> trimmed_session_id t = Some t"
  by (auto simp: trimmed_session_id_def Let_def split: if_splits option.splits)

lemma member_schema_idem: "sessionTransferMemberSchema x = Some y \<Longrightarrow> sessionTransferMemberSchema y = Some y"
  by (auto simp: sessionTransferMemberSchema_def trimmed_text_idem split: if_splits member_kind.splits)

lemma all_some_map_Some [simp]: "all_some (map Some ys) = Some ys"
  by (induction ys) auto

lemma all_some_iff: "all_some xs = Some ys \<longleftrightarrow> xs = map Some ys"
proof
  show "all_some xs = Some ys \<Longrightarrow> xs = map Some ys"
    by (induction xs arbitrary: ys) (auto split: option.splits)
qed simp

lemma all_some_map_idem:
  assumes idem: "\<And>x y. f x = Some y \<Longrightarrow> f y = Some y" and some: "all_some (map f xs) = Some ys"
  shows "map f ys = map Some ys"
proof (rule nth_equalityI)
  fix i
  assume "i < length (map f ys)"
  then have "f (xs ! i) = Some (ys ! i)"
    using some [unfolded all_some_iff] by (metis length_map nth_map)
  from idem [OF this] show "map f ys ! i = map Some ys ! i" using \<open>i < length (map f ys)\<close> by simp
qed simp

lemma manifest_schema_Some:
  assumes "sessionTransferManifestSchema dt m = Some p"
  shows "sessionTransferManifestSchema dt p = Some p" "manifest_rules p" "transferIdSchema (mf_transferId p)"
    "mf_transferId p = mf_transferId m" "list_all (\<lambda>x. sessionTransferMemberSchema x = Some x) (mf_members p)"
proof -
  from assms obtain sid sp tp ms where f: "trimmed_session_id (mf_sessionId m) = Some sid"
      "trimmed_text 512 (mf_sourceProjectId m) = Some sp" "trimmed_text 512 (mf_targetProjectId m) = Some tp"
      "all_some (map sessionTransferMemberSchema (mf_members m)) = Some ms"
    and p: "p = m\<lparr>mf_sessionId := sid, mf_sourceProjectId := sp, mf_targetProjectId := tp, mf_members := ms\<rparr>"
    by (auto simp: sessionTransferManifestSchema_def Let_def split: option.splits if_splits)
  note idem = f(1) [THEN trimmed_session_id_idem] f(2) [THEN trimmed_text_idem] f(3) [THEN trimmed_text_idem]
    all_some_map_idem [OF member_schema_idem f(4)]
  show "sessionTransferManifestSchema dt p = Some p" "manifest_rules p" "transferIdSchema (mf_transferId p)"
    "mf_transferId p = mf_transferId m"
    using assms unfolding sessionTransferManifestSchema_def f by (auto simp: p idem Let_def split: if_splits)
  show "list_all (\<lambda>x. sessionTransferMemberSchema x = Some x) (mf_members p)"
    using idem(4) by (simp add: p list_all_iff)
qed

end
