(* ===== verification/Transfer_Journal.thy ===== *)
theory Transfer_Journal
  imports Transfer_Manifest
begin

text \<open>
  The journal of session transfers on disk (apps/daemon/src/transfer-transactions.ts). The
  journal root is a map from transfer id to the content of that transaction's directory: the
  manifest with its digest, the status, the time of the last activity, the completed member
  files and, per member, the chunk files received so far. Each method is one state-passing
  function from the whole root; an error it throws is a value, and what was written before the
  error stays written. File-system failures other than a missing file are not modelled, nor is
  the interleaving of two calls inside their awaits: a receive runs under its reservation.
  SHA-256, the calendar check and the clock are parameters.
\<close>

section \<open>State\<close>

record transfer_env =
  te_offsetDateTime :: "string \<Rightarrow> bool"
  te_sha256_text :: "js_string \<Rightarrow> string"
  te_sha256 :: "byte list \<Rightarrow> string"

datatype recovery_stage = RepositoryStage | StateStage | ResourcesStage | PersistenceStage

datatype failure_reason =
    RepositoryRestoreFailed | StateImportFailed | ResourceImportFailed | PersistenceFailed | RecoveryFailed

record committed_status =
  cs_transferId :: string
  cs_workspacePath :: js_string
  cs_checkpointCommit :: string
  cs_ownershipGeneration :: int

datatype transfer_status =
    Unknown
  | Receiving
  | Prepared
  | Committed committed_status
  | Aborted
  | Recovering recovery_stage
  | Failed failure_reason

record chunk_file =
  cf_sequence :: int
  cf_final :: bool
  cf_bytes :: "byte list"

record journal =
  j_manifestDigest :: string
  j_manifest :: transfer_manifest
  j_status :: transfer_status
  j_activity :: "int option"
  j_members :: "(string, byte list) jsmap"
  j_chunks :: "(string, chunk_file list) jsmap"

type_synonym transfers = "(string, journal) jsmap"

datatype transfer_error =
    ParseError
  | NotFound
  | MalformedMember
  | MalformedManifest
  | MalformedChunks
  | DigestChanged
  | MemberNotDeclared
  | MemberIncomplete
  | TransactionIs transfer_status
  | CommittedIdChanged
  | CommittedMismatch
  | ClockInvalid

datatype transfer_refusal =
    ChunkOutOfOrder | TransferTooLarge | DigestMismatch | SessionStateChanged | SessionResourceUnavailable

text \<open>Every answer names the transfer it is about; the models leave that id out.\<close>

datatype prepare_result = PrReceiving "string list" | PrPrepared | PrCommitted committed_status | PrRefused transfer_refusal

datatype member_result = MrReceiving int | MrMemberReceived | MrPrepared | MrRefused transfer_refusal

definition defaultTransferJournalRetentionMs :: int where
  "defaultTransferJournalRetentionMs = 7 * 24 * 60 * 60 * 1000"

section \<open>Writing all bytes\<close>

text \<open>
  \<open>writeAllTransferBytes\<close>: the writer answers each call with a count; the loop goes on until the
  offset reaches the length. \<open>None\<close> means the list of answers ended while it was still writing.
\<close>

fun writeAllTransferBytes :: "int list \<Rightarrow> byte list \<Rightarrow> nat \<Rightarrow> byte list \<Rightarrow> (unit + byte list) option" where
  "writeAllTransferBytes counts bytes offset written =
     (if offset \<ge> length bytes then Some (Inr written)
      else case counts of
        [] \<Rightarrow> None
      | n # rest \<Rightarrow>
          if n \<le> 0 \<or> n > maxSafeInteger then Some (Inl ())
          else writeAllTransferBytes rest bytes (offset + nat n) (written @ take (nat n) (drop offset bytes)))"

declare writeAllTransferBytes.simps [simp del]

section \<open>Reading the journal\<close>

definition memberKey :: "transfer_env \<Rightarrow> string \<Rightarrow> string" where
  "memberKey env memberId = te_sha256_text env (js ''domovoi.transfer-member-path.v1'' @ [0] @ js memberId)"

definition sha256_of :: "transfer_env \<Rightarrow> byte list \<Rightarrow> string" where
  "sha256_of env bytes = ''sha256:'' @ te_sha256 env bytes"

abbreviation manifest_parse :: "transfer_env \<Rightarrow> transfer_manifest \<Rightarrow> transfer_manifest option" where
  "manifest_parse env \<equiv> sessionTransferManifestSchema (te_offsetDateTime env)"

abbreviation manifest_digest :: "transfer_env \<Rightarrow> transfer_manifest \<Rightarrow> string option" where
  "manifest_digest env \<equiv> sessionTransferManifestDigest (te_offsetDateTime env) (te_sha256_text env)"

definition verifyMember :: "transfer_env \<Rightarrow> (string, byte list) jsmap \<Rightarrow> transfer_member \<Rightarrow> transfer_error + unit" where
  "verifyMember env files mb =
     (case map_of files (memberKey env (tm_memberId mb)) of
        None \<Rightarrow> Inl NotFound
      | Some bytes \<Rightarrow>
          if int (length bytes) \<noteq> tm_byteLength mb then Inl MalformedMember
          else if sha256_of env bytes \<noteq> tm_digest mb then Inl MalformedMember
          else Inr ())"

fun missingMembers :: "transfer_env \<Rightarrow> (string, byte list) jsmap \<Rightarrow> transfer_member list \<Rightarrow> transfer_error + string list" where
  "missingMembers env files [] = Inr []"
| "missingMembers env files (mb # ms) =
     (case verifyMember env files mb of
        Inr u \<Rightarrow> missingMembers env files ms
      | Inl e \<Rightarrow> if e = NotFound
          then rbind (missingMembers env files ms) (\<lambda>ids. Inr (tm_memberId mb # ids))
          else Inl e)"

definition stored :: "transfer_env \<Rightarrow> string \<Rightarrow> transfers \<Rightarrow> transfer_error + (string \<times> transfer_manifest)" where
  "stored env tid s =
     (if \<not> transferIdSchema tid then Inl ParseError
      else case map_of s tid of
        None \<Rightarrow> Inl NotFound
      | Some j \<Rightarrow>
          (case manifest_parse env (j_manifest j) of
             None \<Rightarrow> Inl ParseError
           | Some m \<Rightarrow>
               if mf_transferId m \<noteq> tid \<or> manifest_digest env m \<noteq> Some (j_manifestDigest j)
               then Inl MalformedManifest else Inr (j_manifestDigest j, m)))"

definition journal_status :: "string \<Rightarrow> transfers \<Rightarrow> transfer_error + transfer_status" where
  "journal_status tid s =
     (if \<not> transferIdSchema tid then Inl ParseError
      else case map_of s tid of None \<Rightarrow> Inl NotFound | Some j \<Rightarrow> Inr (j_status j))"

definition chunks_contiguous :: "chunk_file list \<Rightarrow> bool" where
  "chunks_contiguous cs \<longleftrightarrow>
     list_all (\<lambda>(i, c). cf_sequence c = int i \<and> (cf_final c \<longrightarrow> i = length cs - 1)) (zip [0..<length cs] cs)"

definition read_chunks :: "chunk_file list \<Rightarrow> transfer_error + chunk_file list" where
  "read_chunks dir = (let cs = sort_key cf_sequence dir in if chunks_contiguous cs then Inr cs else Inl MalformedChunks)"

section \<open>Writing the journal\<close>

definition update_journal :: "string \<Rightarrow> (journal \<Rightarrow> journal) \<Rightarrow> transfers \<Rightarrow> transfers" where
  "update_journal tid f s = (case map_of s tid of None \<Rightarrow> s | Some j \<Rightarrow> jm_set tid (f j) s)"

definition touch :: "int option \<Rightarrow> string \<Rightarrow> transfers \<Rightarrow> transfers \<times> (transfer_error + unit)" where
  "touch now tid s =
     (case now of
        None \<Rightarrow> (s, Inl ClockInvalid)
      | Some t \<Rightarrow> if t < 0 then (s, Inl ClockInvalid)
                  else (update_journal tid (\<lambda>j. j\<lparr>j_activity := Some t\<rparr>) s, Inr ()))"

definition transferStatusResultSchema :: "transfer_status \<Rightarrow> bool" where
  "transferStatusResultSchema st =
     (case st of
        Committed c \<Rightarrow> transferIdSchema (cs_transferId c) \<and> cs_workspacePath c \<noteq> []
          \<and> commitShaSchema (cs_checkpointCommit c) \<and> safeGenerationSchema (cs_ownershipGeneration c)
      | _ \<Rightarrow> True)"

definition writeStatus :: "int option \<Rightarrow> string \<Rightarrow> transfer_status \<Rightarrow> transfers \<Rightarrow> transfers \<times> (transfer_error + unit)" where
  "writeStatus now tid st s =
     (if \<not> transferStatusResultSchema st then (s, Inl ParseError)
      else touch now tid (update_journal tid (\<lambda>j. j\<lparr>j_status := st\<rparr>) s))"

text \<open>Running one state-passing step after another, the second only if the first did not throw.\<close>

definition and_then :: "'s \<times> ('e + 'a) \<Rightarrow> ('a \<Rightarrow> 's \<Rightarrow> 's \<times> ('e + 'b)) \<Rightarrow> 's \<times> ('e + 'b)" where
  "and_then x f = (case x of (s, Inl e) \<Rightarrow> (s, Inl e) | (s, Inr a) \<Rightarrow> f a s)"

definition read_then :: "'e + 'a \<Rightarrow> ('a \<Rightarrow> 's \<Rightarrow> 's \<times> ('e + 'b)) \<Rightarrow> 's \<Rightarrow> 's \<times> ('e + 'b)" where
  "read_then r f s = (case r of Inl e \<Rightarrow> (s, Inl e) | Inr a \<Rightarrow> f a s)"

section \<open>Preparing\<close>

definition new_journal :: "int option \<Rightarrow> string \<Rightarrow> transfer_manifest \<Rightarrow> journal" where
  "new_journal now digest m =
     \<lparr>j_manifestDigest = digest, j_manifest = m, j_status = Receiving, j_activity = now, j_members = [], j_chunks = []\<rparr>"

text \<open>The published directory of an earlier call is adopted; only a first call creates it.\<close>

definition publish_journal :: "int option \<Rightarrow> string \<Rightarrow> transfer_manifest \<Rightarrow> transfers \<Rightarrow> transfers" where
  "publish_journal now digest m s =
     (case map_of s (mf_transferId m) of None \<Rightarrow> jm_set (mf_transferId m) (new_journal now digest m) s | Some j \<Rightarrow> s)"

definition members_of :: "string \<Rightarrow> transfers \<Rightarrow> (string, byte list) jsmap" where
  "members_of tid s = (case map_of s tid of None \<Rightarrow> [] | Some j \<Rightarrow> j_members j)"

definition prepare_active :: "transfer_env \<Rightarrow> int option \<Rightarrow> transfer_manifest \<Rightarrow> transfers \<Rightarrow> transfers \<times> (transfer_error + prepare_result)" where
  "prepare_active env now m s =
     read_then (missingMembers env (members_of (mf_transferId m) s) (mf_members m)) (\<lambda>missing s.
       if missing = [] then and_then (writeStatus now (mf_transferId m) Prepared s) (\<lambda>u s. (s, Inr PrPrepared))
       else (s, Inr (PrReceiving missing))) s"

text \<open>The answer by the status on disk.\<close>

definition prepare_by_status ::
  "transfer_env \<Rightarrow> int option \<Rightarrow> transfer_manifest \<Rightarrow> transfer_status \<Rightarrow> transfers \<Rightarrow> transfers \<times> (transfer_error + prepare_result)" where
  "prepare_by_status env now m st s =
     (case st of
        Committed c \<Rightarrow> (s, Inr (PrCommitted c))
      | Aborted \<Rightarrow> (s, Inr (PrRefused SessionStateChanged))
      | Recovering stage \<Rightarrow> (s, Inr (PrRefused SessionResourceUnavailable))
      | Failed reason \<Rightarrow> (s, Inr (PrRefused SessionResourceUnavailable))
      | _ \<Rightarrow> prepare_active env now m s)"

definition prepare ::
  "transfer_env \<Rightarrow> int option \<Rightarrow> transfer_manifest \<Rightarrow> string \<Rightarrow> transfers \<Rightarrow> transfers \<times> (transfer_error + prepare_result)" where
  "prepare env now rawManifest suppliedDigest s =
     (case manifest_parse env rawManifest of
        None \<Rightarrow> (s, Inl ParseError)
      | Some m \<Rightarrow>
          if manifest_digest env m \<noteq> Some suppliedDigest then (s, Inr (PrRefused DigestMismatch))
          else let s1 = publish_journal now suppliedDigest m s in
            read_then (stored env (mf_transferId m) s1) (\<lambda>(digest, sm) s1.
              if digest \<noteq> suppliedDigest then (s1, Inr (PrRefused DigestMismatch))
              else and_then (touch now (mf_transferId m) s1) (\<lambda>u s2.
                read_then (journal_status (mf_transferId m) s2) (\<lambda>st s2. prepare_by_status env now sm st s2) s2)) s1)"

section \<open>Receiving a member\<close>

definition publishRetainedMember ::
  "transfer_env \<Rightarrow> string \<Rightarrow> transfer_member \<Rightarrow> chunk_file list \<Rightarrow> transfers \<Rightarrow> transfers \<times> (transfer_error + bool)" where
  "publishRetainedMember env tid mb cs s =
     (case verifyMember env (members_of tid s) mb of
        Inr u \<Rightarrow> (s, Inr True)
      | Inl e \<Rightarrow>
          if e \<noteq> NotFound then (s, Inl e)
          else let bytes = concat (map cf_bytes cs) in
            if int (length bytes) = tm_byteLength mb \<and> sha256_of env bytes = tm_digest mb
            then (update_journal tid (\<lambda>j. j\<lparr>j_members := jm_set (memberKey env (tm_memberId mb)) bytes (j_members j)\<rparr>) s, Inr True)
            else (s, Inr False))"

definition chunk_dir :: "transfer_env \<Rightarrow> string \<Rightarrow> string \<Rightarrow> transfers \<Rightarrow> chunk_file list" where
  "chunk_dir env tid memberId s =
     (case map_of s tid of None \<Rightarrow> []
      | Some j \<Rightarrow> (case map_of (j_chunks j) (memberKey env memberId) of None \<Rightarrow> [] | Some cs \<Rightarrow> cs))"

definition set_chunk_dir :: "transfer_env \<Rightarrow> string \<Rightarrow> string \<Rightarrow> chunk_file list \<Rightarrow> transfers \<Rightarrow> transfers" where
  "set_chunk_dir env tid memberId cs s =
     update_journal tid (\<lambda>j. j\<lparr>j_chunks := jm_set (memberKey env memberId) cs (j_chunks j)\<rparr>) s"

definition remove_chunk_dir :: "transfer_env \<Rightarrow> string \<Rightarrow> string \<Rightarrow> transfers \<Rightarrow> transfers" where
  "remove_chunk_dir env tid memberId s =
     update_journal tid (\<lambda>j. j\<lparr>j_chunks := jm_delete (memberKey env memberId) (j_chunks j)\<rparr>) s"

definition remove_chunk :: "transfer_env \<Rightarrow> string \<Rightarrow> string \<Rightarrow> int \<Rightarrow> bool \<Rightarrow> transfers \<Rightarrow> transfers" where
  "remove_chunk env tid memberId sequence final s =
     set_chunk_dir env tid memberId
       (filter (\<lambda>c. \<not> (cf_sequence c = sequence \<and> cf_final c = final)) (chunk_dir env tid memberId s)) s"

definition completedMemberResult ::
  "transfer_env \<Rightarrow> int option \<Rightarrow> transfer_manifest \<Rightarrow> string \<Rightarrow> transfers \<Rightarrow> transfers \<times> (transfer_error + member_result)" where
  "completedMemberResult env now m memberId s =
     (let tid = mf_transferId m; s1 = remove_chunk_dir env tid memberId s in
      read_then (missingMembers env (members_of tid s1) (mf_members m)) (\<lambda>missing s1.
        if missing = [] then and_then (writeStatus now tid Prepared s1) (\<lambda>u s2. (s2, Inr MrPrepared))
        else (s1, Inr MrMemberReceived)) s1)"

text \<open>Publishing the chunks of a member whose last chunk is on disk; a wrong digest drops that chunk.\<close>

definition finish_member ::
  "transfer_env \<Rightarrow> int option \<Rightarrow> transfer_manifest \<Rightarrow> transfer_member \<Rightarrow> int \<Rightarrow> chunk_file list \<Rightarrow> transfers
     \<Rightarrow> transfers \<times> (transfer_error + member_result)" where
  "finish_member env now m mb sequence cs s =
     and_then (publishRetainedMember env (mf_transferId m) mb cs s) (\<lambda>published s1.
       if published then completedMemberResult env now m (tm_memberId mb) s1
       else (remove_chunk env (mf_transferId m) (tm_memberId mb) sequence True s1, Inr (MrRefused DigestMismatch)))"

text \<open>A chunk whose sequence number is already on disk.\<close>

definition retained_chunk ::
  "transfer_env \<Rightarrow> int option \<Rightarrow> transfer_manifest \<Rightarrow> transfer_member \<Rightarrow> chunk_file list \<Rightarrow> byte list \<Rightarrow> int \<Rightarrow> bool
     \<Rightarrow> transfers \<Rightarrow> transfers \<times> (transfer_error + member_result)" where
  "retained_chunk env now m mb cs bytes sequence final s =
     (let existing = cs ! nat sequence in
      if cf_bytes existing \<noteq> bytes \<or> cf_final existing \<noteq> final then (s, Inr (MrRefused ChunkOutOfOrder))
      else if cf_final existing then finish_member env now m mb (cf_sequence existing) cs s
      else (s, Inr (MrReceiving (int (length cs)))))"

text \<open>The next chunk in order.\<close>

definition append_chunk ::
  "transfer_env \<Rightarrow> int option \<Rightarrow> transfer_manifest \<Rightarrow> transfer_member \<Rightarrow> chunk_file list \<Rightarrow> byte list \<Rightarrow> int \<Rightarrow> bool
     \<Rightarrow> transfers \<Rightarrow> transfers \<times> (transfer_error + member_result)" where
  "append_chunk env now m mb cs bytes sequence final s =
     (let nextBytes = int (sum_list (map (\<lambda>c. length (cf_bytes c)) cs)) + int (length bytes);
          chunk = \<lparr>cf_sequence = sequence, cf_final = final, cf_bytes = bytes\<rparr>;
          dir = chunk_dir env (mf_transferId m) (tm_memberId mb) s in
      if nextBytes > tm_byteLength mb then (s, Inr (MrRefused TransferTooLarge))
      else if (final \<and> nextBytes \<noteq> tm_byteLength mb) \<or> (\<not> final \<and> nextBytes \<ge> tm_byteLength mb)
      then (s, Inr (MrRefused DigestMismatch))
      else if list_ex (\<lambda>c. cf_sequence c = sequence \<and> cf_final c = final) dir
      then (s, Inr (MrRefused ChunkOutOfOrder))
      else let s1 = set_chunk_dir env (mf_transferId m) (tm_memberId mb) (dir @ [chunk]) s in
        if \<not> final then (s1, Inr (MrReceiving (sequence + 1)))
        else finish_member env now m mb sequence (cs @ [chunk]) s1)"

definition receive_chunk ::
  "transfer_env \<Rightarrow> int option \<Rightarrow> transfer_manifest \<Rightarrow> transfer_member \<Rightarrow> member_chunk \<Rightarrow> transfers
     \<Rightarrow> transfers \<times> (transfer_error + member_result)" where
  "receive_chunk env now m mb c s =
     (let tid = mf_transferId m;
          s1 = set_chunk_dir env tid (tm_memberId mb) (chunk_dir env tid (tm_memberId mb) s) s in
      read_then (read_chunks (chunk_dir env tid (tm_memberId mb) s1)) (\<lambda>cs s1.
        let bytes = b64_decode (ck_bytes c) in
        if ck_sequence c < int (length cs) then retained_chunk env now m mb cs bytes (ck_sequence c) (ck_final c) s1
        else if ck_sequence c \<noteq> int (length cs) then (s1, Inr (MrRefused ChunkOutOfOrder))
        else append_chunk env now m mb cs bytes (ck_sequence c) (ck_final c) s1) s1)"

definition acceptReservedMember ::
  "transfer_env \<Rightarrow> int option \<Rightarrow> member_chunk \<Rightarrow> transfers \<Rightarrow> transfers \<times> (transfer_error + member_result)" where
  "acceptReservedMember env now c s =
     read_then (stored env (ck_transferId c) s) (\<lambda>(digest, m) s.
     read_then (journal_status (ck_transferId c) s) (\<lambda>st s.
       case st of
         Aborted \<Rightarrow> (s, Inr (MrRefused SessionStateChanged))
       | Committed cs \<Rightarrow> (s, Inr (MrRefused SessionStateChanged))
       | Recovering stage \<Rightarrow> (s, Inr (MrRefused SessionResourceUnavailable))
       | Failed reason \<Rightarrow> (s, Inr (MrRefused SessionResourceUnavailable))
       | Prepared \<Rightarrow> (s, Inr MrPrepared)
       | _ \<Rightarrow> and_then (touch now (ck_transferId c) s) (\<lambda>u s.
           case find_member (ck_memberId c) (mf_members m) of
             None \<Rightarrow> (s, Inr (MrRefused DigestMismatch))
           | Some mb \<Rightarrow>
               (case verifyMember env (members_of (ck_transferId c) s) mb of
                  Inr u \<Rightarrow> read_then (missingMembers env (members_of (ck_transferId c) s) (mf_members m)) (\<lambda>missing s.
                    (s, Inr (if missing = [] then MrPrepared else MrMemberReceived))) s
                | Inl e \<Rightarrow> if e \<noteq> NotFound then (s, Inl e) else receive_chunk env now m mb c s))) s) s"

text \<open>\<open>busy\<close>: the member is being received, or another process holds the journal's lease.\<close>

definition acceptMember ::
  "transfer_env \<Rightarrow> int option \<Rightarrow> bool \<Rightarrow> member_chunk \<Rightarrow> transfers \<Rightarrow> transfers \<times> (transfer_error + member_result)" where
  "acceptMember env now busy c s =
     (if \<not> transferMemberParamsSchema c then (s, Inl ParseError)
      else if busy then (s, Inr (MrRefused ChunkOutOfOrder))
      else acceptReservedMember env now c s)"

section \<open>Status, members and outcomes\<close>

definition status :: "transfer_env \<Rightarrow> string \<Rightarrow> string \<Rightarrow> transfers \<Rightarrow> transfer_error + transfer_status" where
  "status env tid digest s =
     (if \<not> transferIdSchema tid then Inl ParseError
      else case stored env tid s of
        Inl e \<Rightarrow> if e = NotFound then Inr Unknown else Inl e
      | Inr (d, m) \<Rightarrow> if d \<noteq> digest then Inr Unknown else journal_status tid s)"

definition manifest :: "transfer_env \<Rightarrow> string \<Rightarrow> string \<Rightarrow> transfers \<Rightarrow> transfer_error + transfer_manifest" where
  "manifest env tid digest s =
     rbind (stored env tid s) (\<lambda>(d, m). if d \<noteq> digest then Inl DigestChanged else Inr m)"

definition sourceMachineId :: "transfer_env \<Rightarrow> string \<Rightarrow> transfers \<Rightarrow> transfer_error + string" where
  "sourceMachineId env tid s = rbind (stored env tid s) (\<lambda>(d, m). Inr (mf_sourceMachineId m))"

definition memberPath :: "transfer_env \<Rightarrow> string \<Rightarrow> string \<Rightarrow> string \<Rightarrow> transfers \<Rightarrow> transfer_error + string" where
  "memberPath env tid digest memberId s =
     rbind (manifest env tid digest s) (\<lambda>m.
       case find_member memberId (mf_members m) of
         None \<Rightarrow> Inl MemberNotDeclared
       | Some mb \<Rightarrow> rbind (verifyMember env (members_of tid s) mb) (\<lambda>u. Inr (memberKey env memberId)))"

definition readMember :: "transfer_env \<Rightarrow> string \<Rightarrow> string \<Rightarrow> string \<Rightarrow> transfers \<Rightarrow> transfer_error + byte list" where
  "readMember env tid digest memberId s =
     (case memberPath env tid digest memberId s of
        Inl e \<Rightarrow> Inl (if e = NotFound then MemberIncomplete else e)
      | Inr path \<Rightarrow> (case map_of (members_of tid s) path of None \<Rightarrow> Inl MemberIncomplete | Some b \<Rightarrow> Inr b))"

definition assertNotTerminal :: "string \<Rightarrow> transfers \<Rightarrow> transfer_error + unit" where
  "assertNotTerminal tid s =
     rbind (journal_status tid s) (\<lambda>st.
       case st of Committed c \<Rightarrow> Inl (TransactionIs st) | Aborted \<Rightarrow> Inl (TransactionIs st) | _ \<Rightarrow> Inr ())"

definition markRecovering ::
  "transfer_env \<Rightarrow> int option \<Rightarrow> string \<Rightarrow> string \<Rightarrow> recovery_stage \<Rightarrow> transfers \<Rightarrow> transfers \<times> (transfer_error + unit)" where
  "markRecovering env now tid digest stage s =
     read_then (manifest env tid digest s) (\<lambda>m s.
     read_then (assertNotTerminal tid s) (\<lambda>u s. writeStatus now tid (Recovering stage) s) s) s"

definition markFailed ::
  "transfer_env \<Rightarrow> int option \<Rightarrow> string \<Rightarrow> string \<Rightarrow> failure_reason \<Rightarrow> transfers \<Rightarrow> transfers \<times> (transfer_error + unit)" where
  "markFailed env now tid digest reason s =
     read_then (manifest env tid digest s) (\<lambda>m s.
     read_then (assertNotTerminal tid s) (\<lambda>u s. writeStatus now tid (Failed reason) s) s) s"

definition markCommitted ::
  "transfer_env \<Rightarrow> int option \<Rightarrow> string \<Rightarrow> string \<Rightarrow> committed_status \<Rightarrow> transfers \<Rightarrow> transfers \<times> (transfer_error + unit)" where
  "markCommitted env now tid digest c s =
     read_then (manifest env tid digest s) (\<lambda>m s.
       if cs_transferId c \<noteq> tid then (s, Inl CommittedIdChanged)
       else if cs_checkpointCommit c \<noteq> mf_checkpointCommit m \<or> cs_ownershipGeneration c \<noteq> mf_toGeneration m
       then (s, Inl CommittedMismatch)
       else writeStatus now tid (Committed c) s) s"

definition abort ::
  "transfer_env \<Rightarrow> int option \<Rightarrow> string \<Rightarrow> string \<Rightarrow> transfers \<Rightarrow> transfers \<times> (transfer_error + transfer_status)" where
  "abort env now tid digest s =
     read_then (manifest env tid digest s) (\<lambda>m s.
     read_then (journal_status tid s) (\<lambda>st s.
       case st of
         Committed c \<Rightarrow> (s, Inr st)
       | _ \<Rightarrow> and_then (writeStatus now tid Aborted s) (\<lambda>u s1.
           (update_journal tid (\<lambda>j. j\<lparr>j_chunks := [], j_members := []\<rparr>) s1, Inr Aborted))) s) s"

definition remove_transfer :: "transfer_env \<Rightarrow> string \<Rightarrow> string \<Rightarrow> transfers \<Rightarrow> transfers \<times> (transfer_error + unit)" where
  "remove_transfer env tid digest s =
     read_then (manifest env tid digest s) (\<lambda>m s. (jm_delete tid s, Inr ())) s"

text \<open>
  \<open>mtime\<close> is the modification time of a journal directory, read when its marker is unreadable;
  \<open>now\<close> is the clock as it is read at each directory, \<open>None\<close> when it is not a number.
\<close>

definition expired :: "int \<Rightarrow> (string \<Rightarrow> int) \<Rightarrow> (string \<Rightarrow> int option) \<Rightarrow> string \<times> journal \<Rightarrow> bool" where
  "expired retention mtime now = (\<lambda>(tid, j).
     transferIdSchema tid \<and>
     (case now tid of None \<Rightarrow> True
      | Some t \<Rightarrow> \<not> t - (case j_activity j of None \<Rightarrow> mtime tid | Some a \<Rightarrow> a) \<le> retention))"

definition pruneExpired :: "int \<Rightarrow> (string \<Rightarrow> int) \<Rightarrow> (string \<Rightarrow> int option) \<Rightarrow> transfers \<Rightarrow> transfers \<times> string list" where
  "pruneExpired retention mtime now s =
     (filter (\<lambda>e. \<not> expired retention mtime now e) s, sort (map fst (filter (expired retention mtime now) s)))"

section \<open>What every journal satisfies\<close>

definition file_matches :: "transfer_env \<Rightarrow> transfer_member \<Rightarrow> byte list \<Rightarrow> bool" where
  "file_matches env mb bytes \<longleftrightarrow> int (length bytes) = tm_byteLength mb \<and> sha256_of env bytes = tm_digest mb"

definition stored_ok :: "transfer_env \<Rightarrow> string \<Rightarrow> journal \<Rightarrow> bool" where
  "stored_ok env tid j \<longleftrightarrow> manifest_parse env (j_manifest j) = Some (j_manifest j) \<and>
     mf_transferId (j_manifest j) = tid \<and> manifest_digest env (j_manifest j) = Some (j_manifestDigest j)"

definition members_ok :: "transfer_env \<Rightarrow> journal \<Rightarrow> bool" where
  "members_ok env j \<longleftrightarrow> (\<forall>k bytes. map_of (j_members j) k = Some bytes \<longrightarrow>
     (\<exists>mb\<in>set (mf_members (j_manifest j)). memberKey env (tm_memberId mb) = k \<and> file_matches env mb bytes))"

definition prepared_ok :: "transfer_env \<Rightarrow> journal \<Rightarrow> bool" where
  "prepared_ok env j \<longleftrightarrow> (j_status j = Prepared \<longrightarrow> missingMembers env (j_members j) (mf_members (j_manifest j)) = Inr [])"

definition chunk_bytes :: "chunk_file list \<Rightarrow> nat" where
  "chunk_bytes cs = sum_list (map (\<lambda>c. length (cf_bytes c)) cs)"

definition dir_ok :: "transfer_env \<Rightarrow> transfer_manifest \<Rightarrow> string \<Rightarrow> chunk_file list \<Rightarrow> bool" where
  "dir_ok env m k cs \<longleftrightarrow> chunks_contiguous cs \<and>
     (\<forall>c\<in>set cs. cf_bytes c \<noteq> [] \<and> (\<not> cf_final c \<longrightarrow> length (cf_bytes c) = transferMemberChunkBytes)) \<and>
     (cs \<noteq> [] \<longrightarrow> (\<exists>mb\<in>set (mf_members m). memberKey env (tm_memberId mb) = k \<and>
        (if cf_final (last cs) then int (chunk_bytes cs) = tm_byteLength mb else int (chunk_bytes cs) < tm_byteLength mb)))"

definition chunks_ok :: "transfer_env \<Rightarrow> journal \<Rightarrow> bool" where
  "chunks_ok env j \<longleftrightarrow> (\<forall>k cs. map_of (j_chunks j) k = Some cs \<longrightarrow> dir_ok env (j_manifest j) k cs)"

definition journal_ok :: "transfer_env \<Rightarrow> string \<Rightarrow> journal \<Rightarrow> bool" where
  "journal_ok env tid j \<longleftrightarrow> stored_ok env tid j \<and> members_ok env j \<and> prepared_ok env j \<and> chunks_ok env j"

definition transfers_ok :: "transfer_env \<Rightarrow> transfers \<Rightarrow> bool" where
  "transfers_ok env s \<longleftrightarrow> jm_ok s \<and> (\<forall>tid j. map_of s tid = Some j \<longrightarrow> journal_ok env tid j)"

text \<open>The one fact about SHA-256 the file names rest on.\<close>

definition collision_free :: "transfer_env \<Rightarrow> bool" where
  "collision_free env \<longleftrightarrow> inj (memberKey env)"

subsection \<open>Reading under the invariant\<close>

lemma map_of_update_journal:
  "map_of (update_journal tid f s) k = (if k = tid then map_option f (map_of s tid) else map_of s k)"
  by (auto simp: update_journal_def map_of_jm_set split: option.splits)

lemma transfers_ok_update:
  assumes "transfers_ok env s" and "\<And>j. map_of s tid = Some j \<Longrightarrow> journal_ok env tid j \<Longrightarrow> journal_ok env tid (f j)"
  shows "transfers_ok env (update_journal tid f s)"
proof -
  have "jm_ok (update_journal tid f s)"
    using assms(1) by (auto simp: transfers_ok_def update_journal_def split: option.splits)
  then show ?thesis
    using assms by (auto simp: transfers_ok_def map_of_update_journal split: if_splits)
qed

lemma and_then_keeps:
  "P (fst x) \<Longrightarrow> (\<And>a s. x = (s, Inr a) \<Longrightarrow> P (fst (f a s))) \<Longrightarrow> P (fst (and_then x f))"
  by (auto simp: and_then_def split: prod.splits sum.splits)

lemma fst_and_then_pure [simp]: "fst (and_then x (\<lambda>a s. (s, Inr (g a)))) = fst x"
  by (auto simp: and_then_def split: prod.splits sum.splits)

lemma read_then_keeps: "P s \<Longrightarrow> (\<And>a. r = Inr a \<Longrightarrow> P (fst (f a s))) \<Longrightarrow> P (fst (read_then r f s))"
  by (auto simp: read_then_def split: sum.splits)

lemma and_then_Inr: "and_then x f = (s', Inr b) \<longleftrightarrow> (\<exists>s a. x = (s, Inr a) \<and> f a s = (s', Inr b))"
  by (cases x) (auto simp: and_then_def split: sum.splits)

lemma read_then_Inr: "read_then r f s = (s', Inr b) \<longleftrightarrow> (\<exists>a. r = Inr a \<and> f a s = (s', Inr b))"
  by (auto simp: read_then_def split: sum.splits)

lemma stored_Inr:
  assumes "transfers_ok env s" and "stored env tid s = Inr (d, m)"
  obtains j where "map_of s tid = Some j" "m = j_manifest j" "d = j_manifestDigest j" "mf_transferId m = tid"
    "journal_ok env tid j" "transferIdSchema tid"
proof -
  from assms(2) obtain j where j: "map_of s tid = Some j" "transferIdSchema tid"
    by (auto simp: stored_def split: if_splits option.splits)
  then have ok: "journal_ok env tid j" using assms(1) by (simp add: transfers_ok_def)
  then have "m = j_manifest j" "d = j_manifestDigest j" "mf_transferId m = tid"
    using assms(2) j by (auto simp: stored_def journal_ok_def stored_ok_def split: if_splits)
  with that j ok show thesis by blast
qed

lemma stored_I:
  assumes "transfers_ok env s" and "map_of s tid = Some j"
  shows "stored env tid s = Inr (j_manifestDigest j, j_manifest j)" "transferIdSchema tid" "journal_status tid s = Inr (j_status j)"
proof -
  have ok: "journal_ok env tid j" using assms by (simp add: transfers_ok_def)
  then have "stored_ok env tid j" by (simp add: journal_ok_def)
  then show id: "transferIdSchema tid"
    using manifest_schema_Some(3) by (auto simp: stored_ok_def)
  show "stored env tid s = Inr (j_manifestDigest j, j_manifest j)" "journal_status tid s = Inr (j_status j)"
    using id assms(2) \<open>stored_ok env tid j\<close> by (auto simp: stored_def journal_status_def stored_ok_def)
qed

lemma stored_member_unique:
  assumes "stored_ok env tid j" "collision_free env" "mb \<in> set (mf_members (j_manifest j))" "mb' \<in> set (mf_members (j_manifest j))"
    and "memberKey env (tm_memberId mb) = memberKey env (tm_memberId mb')"
  shows "mb = mb'"
proof -
  have "distinct (map tm_memberId (mf_members (j_manifest j)))"
    using manifest_schema_Some(2) assms(1) by (auto simp: stored_ok_def manifest_rules_def)
  moreover have "tm_memberId mb = tm_memberId mb'" using assms(2,5) by (simp add: collision_free_def inj_eq)
  ultimately show ?thesis using assms(3,4) by (auto simp: distinct_map inj_on_def)
qed

lemma verifyMember_Inr: "verifyMember env files mb = Inr u \<longleftrightarrow>
    (\<exists>b. map_of files (memberKey env (tm_memberId mb)) = Some b \<and> file_matches env mb b)"
  by (auto simp: verifyMember_def file_matches_def split: option.splits)

lemma verifyMember_ok:
  assumes "journal_ok env tid j" "collision_free env" "mb \<in> set (mf_members (j_manifest j))"
  shows "verifyMember env (j_members j) mb = (if map_of (j_members j) (memberKey env (tm_memberId mb)) = None then Inl NotFound else Inr ())"
proof (cases "map_of (j_members j) (memberKey env (tm_memberId mb))")
  case (Some b)
  then obtain mb' where "mb' \<in> set (mf_members (j_manifest j))" "memberKey env (tm_memberId mb') = memberKey env (tm_memberId mb)"
    "file_matches env mb' b"
    using assms(1) by (auto simp: journal_ok_def members_ok_def)
  then have "file_matches env mb b"
    using stored_member_unique [of env tid j mb' mb] assms by (auto simp: journal_ok_def)
  then show ?thesis using Some by (simp add: verifyMember_def file_matches_def)
qed (simp add: verifyMember_def)

lemma missingMembers_Inr_Nil: "missingMembers env files ms = Inr [] \<longleftrightarrow> (\<forall>mb\<in>set ms. verifyMember env files mb = Inr ())"
  by (induction ms) (auto simp: result_simps split: sum.splits)

lemma missingMembers_ok:
  assumes "journal_ok env tid j" "collision_free env" "set ms \<subseteq> set (mf_members (j_manifest j))"
  shows "missingMembers env (j_members j) ms =
    Inr (map tm_memberId (filter (\<lambda>mb. map_of (j_members j) (memberKey env (tm_memberId mb)) = None) ms))"
  using assms(3) by (induction ms) (auto simp: verifyMember_ok [OF assms(1,2)])

subsection \<open>Chunk directories\<close>

lemma chunks_contiguous_nth: "chunks_contiguous cs \<longleftrightarrow>
    (\<forall>i<length cs. cf_sequence (cs ! i) = int i \<and> (cf_final (cs ! i) \<longrightarrow> i = length cs - 1))"
  unfolding chunks_contiguous_def list_all_length by simp

lemma chunks_contiguous_Nil [simp]: "chunks_contiguous []"
  by (simp add: chunks_contiguous_def)

lemma chunks_contiguous_snoc: "chunks_contiguous (cs @ [c]) \<longleftrightarrow>
    chunks_contiguous cs \<and> (\<forall>x\<in>set cs. \<not> cf_final x) \<and> cf_sequence c = int (length cs)"
  unfolding chunks_contiguous_nth
  by (auto simp: nth_append all_set_conv_all_nth less_Suc_eq split: if_splits)

lemma sort_contiguous: "chunks_contiguous cs \<Longrightarrow> sort_key cf_sequence cs = cs"
  by (intro sort_key_id_if_sorted) (auto simp: sorted_iff_nth_mono chunks_contiguous_nth)

lemma read_chunks_contiguous: "chunks_contiguous cs \<Longrightarrow> read_chunks cs = Inr cs"
  by (simp add: read_chunks_def sort_contiguous Let_def)

lemma contiguous_not_final: "chunks_contiguous cs \<Longrightarrow> cs \<noteq> [] \<Longrightarrow> \<not> cf_final (last cs) \<Longrightarrow> x \<in> set cs \<Longrightarrow> \<not> cf_final x"
  by (cases cs rule: rev_cases) (auto simp: chunks_contiguous_snoc)

lemma chunk_bytes_simps [simp]: "chunk_bytes [] = 0" "chunk_bytes (cs @ ds) = chunk_bytes cs + chunk_bytes ds"
  "chunk_bytes (c # cs) = length (cf_bytes c) + chunk_bytes cs"
  by (simp_all add: chunk_bytes_def)

lemma length_concat_chunks: "length (concat (map cf_bytes cs)) = chunk_bytes cs"
  by (induction cs) simp_all

lemma dir_ok_Nil [simp]: "dir_ok env m k []"
  by (simp add: dir_ok_def)

lemma dir_ok_snoc:
  assumes ok: "dir_ok env m k cs" and open_dir: "cs \<noteq> [] \<Longrightarrow> \<not> cf_final (last cs)"
    and mb: "mb \<in> set (mf_members m)" "memberKey env (tm_memberId mb) = k"
    and c: "cf_sequence c = int (length cs)" "cf_bytes c \<noteq> []" "\<not> cf_final c \<Longrightarrow> length (cf_bytes c) = transferMemberChunkBytes"
    and len: "if cf_final c then int (chunk_bytes cs + length (cf_bytes c)) = tm_byteLength mb
       else int (chunk_bytes cs + length (cf_bytes c)) < tm_byteLength mb"
  shows "dir_ok env m k (cs @ [c])"
proof -
  have "chunks_contiguous (cs @ [c])"
    using ok open_dir c contiguous_not_final unfolding chunks_contiguous_snoc dir_ok_def by (metis empty_iff empty_set)
  then show ?thesis using ok mb c(2,3) len by (auto simp: dir_ok_def)
qed

lemma dir_ok_butlast:
  assumes ok: "dir_ok env m k (cs @ [c])"
  shows "dir_ok env m k cs"
proof -
  have nf: "chunks_contiguous cs" "\<forall>x\<in>set cs. \<not> cf_final x" using ok by (auto simp: dir_ok_def chunks_contiguous_snoc)
  from ok obtain mb where "mb \<in> set (mf_members m)" "memberKey env (tm_memberId mb) = k"
      "int (chunk_bytes cs + length (cf_bytes c)) \<le> tm_byteLength mb"
    by (force simp: dir_ok_def split: if_splits)
  moreover have "0 < length (cf_bytes c)" using ok by (auto simp: dir_ok_def)
  ultimately have "mb \<in> set (mf_members m) \<and> memberKey env (tm_memberId mb) = k \<and> int (chunk_bytes cs) < tm_byteLength mb"
    by (auto simp del: length_greater_0_conv)
  moreover have "cs \<noteq> [] \<Longrightarrow> \<not> cf_final (last cs)" using nf by simp
  moreover have "\<forall>x\<in>set cs. cf_bytes x \<noteq> [] \<and> (\<not> cf_final x \<longrightarrow> length (cf_bytes x) = transferMemberChunkBytes)"
    using ok by (simp add: dir_ok_def)
  ultimately show ?thesis using nf(1) unfolding dir_ok_def by auto
qed

lemma dir_ok_drop_final:
  assumes ok: "dir_ok env m k cs"
  shows "dir_ok env m k (filter (\<lambda>c. \<not> (cf_sequence c = q \<and> cf_final c = True)) cs)"
proof (cases cs rule: rev_cases)
  case (snoc ds c)
  have "\<forall>x\<in>set ds. \<not> cf_final x" using ok by (auto simp: dir_ok_def chunks_contiguous_snoc snoc)
  then have "filter (\<lambda>c. \<not> (cf_sequence c = q \<and> cf_final c = True)) ds = ds" by (simp add: filter_id_conv)
  then show ?thesis using ok dir_ok_butlast [of env m k ds c] by (auto simp: snoc)
qed simp

subsection \<open>Every method keeps the invariant\<close>

lemma journal_ok_activity [simp]: "journal_ok env tid (j\<lparr>j_activity := a\<rparr>) \<longleftrightarrow> journal_ok env tid j"
  by (simp add: journal_ok_def stored_ok_def members_ok_def prepared_ok_def chunks_ok_def)

lemma journal_ok_status:
  "journal_ok env tid j \<Longrightarrow> (st = Prepared \<Longrightarrow> missingMembers env (j_members j) (mf_members (j_manifest j)) = Inr []) \<Longrightarrow>
     journal_ok env tid (j\<lparr>j_status := st\<rparr>)"
  by (simp add: journal_ok_def stored_ok_def members_ok_def prepared_ok_def chunks_ok_def)

lemma touch_ok: "transfers_ok env s \<Longrightarrow> transfers_ok env (fst (touch now tid s))"
  by (auto simp: touch_def intro: transfers_ok_update split: option.splits)

lemma touch_journal:
  "map_of s tid = Some j \<Longrightarrow> \<exists>a. map_of (fst (touch now tid s)) tid = Some (j\<lparr>j_activity := a\<rparr>)"
proof (cases "now = None \<or> the now < 0")
  case True
  assume "map_of s tid = Some j"
  moreover have "fst (touch now tid s) = s" using True by (auto simp: touch_def split: option.splits)
  ultimately show ?thesis by (intro exI [of _ "j_activity j"]) simp
qed (auto simp: touch_def map_of_update_journal)

lemma writeStatus_ok:
  assumes "transfers_ok env s"
    and "\<And>j. map_of s tid = Some j \<Longrightarrow> st = Prepared \<Longrightarrow> missingMembers env (j_members j) (mf_members (j_manifest j)) = Inr []"
  shows "transfers_ok env (fst (writeStatus now tid st s))"
  unfolding writeStatus_def using assms
  by (auto intro!: touch_ok transfers_ok_update journal_ok_status)

lemma members_of_Some: "map_of s tid = Some j \<Longrightarrow> members_of tid s = j_members j"
  by (simp add: members_of_def)

lemma publish_journal_ok:
  assumes ok: "transfers_ok env s" and m: "manifest_parse env m = Some m" "manifest_digest env m = Some d"
  shows "transfers_ok env (publish_journal now d m s)"
proof -
  have "journal_ok env (mf_transferId m) (new_journal now d m)"
    using m by (simp add: journal_ok_def stored_ok_def members_ok_def prepared_ok_def chunks_ok_def new_journal_def)
  then show ?thesis
    using ok by (auto simp: publish_journal_def transfers_ok_def map_of_jm_set split: option.splits if_splits)
qed

lemma prepare_active_ok:
  assumes "transfers_ok env s" "map_of s (mf_transferId m) = Some j" "m = j_manifest j"
  shows "transfers_ok env (fst (prepare_active env now m s))"
  unfolding prepare_active_def using assms
  by (intro read_then_keeps [where P = "transfers_ok env"])
     (auto intro!: writeStatus_ok simp: members_of_Some)

lemma prepare_ok:
  assumes ok: "transfers_ok env s"
  shows "transfers_ok env (fst (prepare env now raw d s))"
proof (cases "manifest_parse env raw")
  case (Some m)
  have m: "manifest_parse env m = Some m" by (rule manifest_schema_Some(1) [OF Some])
  show ?thesis
  proof (cases "manifest_digest env m = Some d")
    case True
    let ?s1 = "publish_journal now d m s" and ?t = "mf_transferId m"
    have ok1: "transfers_ok env ?s1" by (rule publish_journal_ok [OF ok m True])
    have ok2: "transfers_ok env (fst (touch now ?t ?s1))" by (rule touch_ok [OF ok1])
    have act: "transfers_ok env (fst (prepare_active env now sm (fst (touch now ?t ?s1))))"
      if st: "stored env ?t ?s1 = Inr (dg, sm)" for dg sm
    proof -
      from stored_Inr [OF ok1 st] obtain j where "map_of ?s1 ?t = Some j" "sm = j_manifest j" "mf_transferId sm = ?t" by metis
      with touch_journal [of ?s1 ?t j now] show ?thesis
        by (auto intro: prepare_active_ok [OF ok2])
    qed
    have by_status: "transfers_ok env (fst (prepare_by_status env now sm st s2))"
      if "stored env ?t ?s1 = Inr (dg, sm)" "touch now ?t ?s1 = (s2, Inr u)" for dg sm s2 u st
      using act [OF that(1)] ok2 that(2) by (simp add: prepare_by_status_def split: transfer_status.splits)
    show ?thesis
      unfolding prepare_def Some option.case Let_def using True ok1 ok2
      by (auto intro!: read_then_keeps [where P = "transfers_ok env"] and_then_keeps [where P = "transfers_ok env"]
          intro: by_status)
  qed (use ok in \<open>simp add: prepare_def Some\<close>)
qed (use ok in \<open>simp add: prepare_def\<close>)

lemma members_ok_set:
  "members_ok env j \<Longrightarrow> mb \<in> set (mf_members (j_manifest j)) \<Longrightarrow> file_matches env mb b \<Longrightarrow>
     members_ok env (j\<lparr>j_members := jm_set (memberKey env (tm_memberId mb)) b (j_members j)\<rparr>)"
  by (auto simp: members_ok_def map_of_jm_set)

lemma publishRetainedMember_ok:
  assumes ok: "transfers_ok env s" and j: "map_of s tid = Some j" and mb: "mb \<in> set (mf_members (j_manifest j))"
  shows "transfers_ok env (fst (publishRetainedMember env tid mb cs s))"
proof -
  let ?b = "concat (map cf_bytes cs)"
  have "journal_ok env tid (j\<lparr>j_members := jm_set (memberKey env (tm_memberId mb)) ?b (j_members j)\<rparr>)"
    if "verifyMember env (j_members j) mb = Inl NotFound" "file_matches env mb ?b"
  proof -
    have jok: "journal_ok env tid j" using ok j by (simp add: transfers_ok_def)
    then have "j_status j \<noteq> Prepared"
      using that(1) mb by (auto simp: journal_ok_def prepared_ok_def missingMembers_Inr_Nil)
    with jok members_ok_set [OF _ mb that(2)] show ?thesis
      by (simp add: journal_ok_def stored_ok_def prepared_ok_def chunks_ok_def)
  qed
  with ok j show ?thesis
    by (auto simp: publishRetainedMember_def members_of_Some file_matches_def Let_def intro!: transfers_ok_update split: sum.splits)
qed

lemma publishRetainedMember_journal:
  "map_of s tid = Some j \<Longrightarrow> \<exists>ms. map_of (fst (publishRetainedMember env tid mb cs s)) tid = Some (j\<lparr>j_members := ms\<rparr>)"
  by (auto simp: publishRetainedMember_def Let_def map_of_update_journal split: sum.splits intro: exI [of _ "j_members j"])

lemma chunk_dir_ok: "transfers_ok env s \<Longrightarrow> map_of s tid = Some j \<Longrightarrow> dir_ok env (j_manifest j) (memberKey env i) (chunk_dir env tid i s)"
  by (auto simp: chunk_dir_def transfers_ok_def journal_ok_def chunks_ok_def split: option.splits)

lemma set_chunk_dir_ok:
  assumes "transfers_ok env s" and "\<And>j. map_of s tid = Some j \<Longrightarrow> dir_ok env (j_manifest j) (memberKey env i) cs"
  shows "transfers_ok env (set_chunk_dir env tid i cs s)"
  unfolding set_chunk_dir_def
  using assms
  by (intro transfers_ok_update)
     (auto simp: journal_ok_def stored_ok_def members_ok_def prepared_ok_def chunks_ok_def map_of_jm_set)

lemma remove_chunk_dir_ok: "transfers_ok env s \<Longrightarrow> transfers_ok env (remove_chunk_dir env tid i s)"
  unfolding remove_chunk_dir_def
  by (intro transfers_ok_update)
     (auto simp: journal_ok_def stored_ok_def members_ok_def prepared_ok_def chunks_ok_def map_of_jm_delete split: if_splits)

lemma remove_chunk_ok: "transfers_ok env s \<Longrightarrow> transfers_ok env (remove_chunk env tid i q True s)"
  unfolding remove_chunk_def by (intro set_chunk_dir_ok dir_ok_drop_final chunk_dir_ok) auto

lemma map_of_set_chunk_dir: "map_of (set_chunk_dir env tid i cs s) k =
    (if k = tid then map_option (\<lambda>j. j\<lparr>j_chunks := jm_set (memberKey env i) cs (j_chunks j)\<rparr>) (map_of s tid) else map_of s k)"
  by (simp add: set_chunk_dir_def map_of_update_journal)

lemma map_of_remove_chunk_dir: "map_of (remove_chunk_dir env tid i s) k =
    (if k = tid then map_option (\<lambda>j. j\<lparr>j_chunks := jm_delete (memberKey env i) (j_chunks j)\<rparr>) (map_of s tid) else map_of s k)"
  by (simp add: remove_chunk_dir_def map_of_update_journal)

lemma chunk_dir_set [simp]: "map_of s tid = Some j \<Longrightarrow> chunk_dir env tid i (set_chunk_dir env tid i cs s) = cs"
  by (simp add: chunk_dir_def map_of_set_chunk_dir map_of_jm_set)

lemma completedMemberResult_ok:
  assumes ok: "transfers_ok env s" and j: "map_of s (mf_transferId m) = Some j" "m = j_manifest j"
  shows "transfers_ok env (fst (completedMemberResult env now m i s))"
  unfolding completedMemberResult_def Let_def
proof (rule read_then_keeps [where P = "transfers_ok env"])
  show ok1: "transfers_ok env (remove_chunk_dir env (mf_transferId m) i s)" by (rule remove_chunk_dir_ok [OF ok])
  fix missing
  assume "missingMembers env (members_of (mf_transferId m) (remove_chunk_dir env (mf_transferId m) i s)) (mf_members m) = Inr missing"
  then show "transfers_ok env (fst (if missing = [] then and_then (writeStatus now (mf_transferId m) Prepared
      (remove_chunk_dir env (mf_transferId m) i s)) (\<lambda>u s2. (s2, Inr MrPrepared))
      else (remove_chunk_dir env (mf_transferId m) i s, Inr MrMemberReceived)))"
    using ok1 j by (auto intro!: writeStatus_ok simp: map_of_remove_chunk_dir members_of_def)
qed

lemma finish_member_ok:
  assumes ok: "transfers_ok env s" and j: "map_of s (mf_transferId m) = Some j" "m = j_manifest j" and mb: "mb \<in> set (mf_members m)"
  shows "transfers_ok env (fst (finish_member env now m mb q cs s))"
  unfolding finish_member_def
proof (rule and_then_keeps [where P = "transfers_ok env"])
  show ok1: "transfers_ok env (fst (publishRetainedMember env (mf_transferId m) mb cs s))"
    using publishRetainedMember_ok [OF ok j(1)] mb j(2) by simp
  fix a s1
  assume eq: "publishRetainedMember env (mf_transferId m) mb cs s = (s1, Inr a)"
  obtain ms where "map_of s1 (mf_transferId m) = Some (j\<lparr>j_members := ms\<rparr>)"
    using publishRetainedMember_journal [OF j(1), of env mb cs] eq by auto
  then show "transfers_ok env (fst (if a then completedMemberResult env now m (tm_memberId mb) s1
      else (remove_chunk env (mf_transferId m) (tm_memberId mb) q True s1, Inr (MrRefused DigestMismatch))))"
    using ok1 eq j by (auto intro!: completedMemberResult_ok remove_chunk_ok)
qed

lemma receive_chunk_ok:
  assumes ok: "transfers_ok env s" and cf: "collision_free env" and j: "map_of s (mf_transferId m) = Some j" "m = j_manifest j"
    and mb: "mb \<in> set (mf_members m)" and c: "transferMemberParamsSchema c"
  shows "transfers_ok env (fst (receive_chunk env now m mb c s))"
proof -
  let ?t = "mf_transferId m" and ?i = "tm_memberId mb" and ?b = "b64_decode (ck_bytes c)"
  let ?dir = "chunk_dir env ?t ?i s"
  let ?s1 = "set_chunk_dir env ?t ?i ?dir s"
  have dir: "dir_ok env m (memberKey env ?i) ?dir" using chunk_dir_ok [OF ok j(1)] j(2) by simp
  have ok1: "transfers_ok env ?s1" using dir j by (intro set_chunk_dir_ok [OF ok]) auto
  have cont: "chunks_contiguous ?dir" using dir by (simp add: dir_ok_def)
  have dir1: "chunk_dir env ?t ?i ?s1 = ?dir" using j by simp
  let ?j1 = "j\<lparr>j_chunks := jm_set (memberKey env ?i) ?dir (j_chunks j)\<rparr>"
  have j1: "map_of ?s1 ?t = Some ?j1" using j by (simp add: map_of_set_chunk_dir)
  have ne: "?b \<noteq> []" using c b64_decode_nonempty by (auto simp: transferMemberParamsSchema_def transferChunkSchema_def split: option.splits)
  have retained: "transfers_ok env (fst (retained_chunk env now m mb ?dir ?b q f ?s1))" for q f
    using finish_member_ok [OF ok1 j1] j mb ok1 by (simp add: retained_chunk_def Let_def)
  have append: "transfers_ok env (fst (append_chunk env now m mb ?dir ?b (ck_sequence c) (ck_final c) ?s1))"
    if q: "ck_sequence c = int (length ?dir)"
  proof (cases "int (chunk_bytes ?dir) + int (length ?b) > tm_byteLength mb \<or>
      (ck_final c \<and> int (chunk_bytes ?dir) + int (length ?b) \<noteq> tm_byteLength mb) \<or>
      (\<not> ck_final c \<and> int (chunk_bytes ?dir) + int (length ?b) \<ge> tm_byteLength mb)")
    case True
    then show ?thesis using ok1 by (auto simp: append_chunk_def chunk_bytes_def Let_def)
  next
    case False
    let ?chunk = "\<lparr>cf_sequence = ck_sequence c, cf_final = ck_final c, cf_bytes = ?b\<rparr>"
    have "\<not> cf_final (last ?dir)" if "?dir \<noteq> []"
    proof
      assume fin: "cf_final (last ?dir)"
      from dir that fin obtain mb' where "mb' \<in> set (mf_members m)" "memberKey env (tm_memberId mb') = memberKey env ?i"
        "int (chunk_bytes ?dir) = tm_byteLength mb'" by (auto simp: dir_ok_def)
      moreover have "stored_ok env ?t j" using ok j by (auto simp: transfers_ok_def journal_ok_def)
      ultimately have "int (chunk_bytes ?dir) = tm_byteLength mb"
        using stored_member_unique [of env ?t j mb' mb] cf mb j by auto
      then show False using False ne by auto
    qed
    then have new: "dir_ok env m (memberKey env ?i) (?dir @ [?chunk])"
      using c ne False q b64_decode_length
      by (intro dir_ok_snoc [OF dir _ mb refl]) (auto simp: transferMemberParamsSchema_def)
    have ok2: "transfers_ok env (set_chunk_dir env ?t ?i (?dir @ [?chunk]) ?s1)"
      using new j1 j by (intro set_chunk_dir_ok [OF ok1]) auto
    have j2: "map_of (set_chunk_dir env ?t ?i (?dir @ [?chunk]) ?s1) ?t
        = Some (?j1\<lparr>j_chunks := jm_set (memberKey env ?i) (?dir @ [?chunk]) (j_chunks ?j1)\<rparr>)"
      using j1 map_of_set_chunk_dir [of env ?t ?i _ ?s1 ?t] by simp
    show ?thesis
      using ok1 ok2 finish_member_ok [OF ok2 j2 _ mb, of now "ck_sequence c"] j
      by (auto simp: append_chunk_def Let_def dir1)
  qed
  show ?thesis
    unfolding receive_chunk_def Let_def dir1 read_chunks_contiguous [OF cont]
    using retained append ok1 by (auto simp: read_then_def)
qed

lemma acceptReservedMember_ok:
  assumes ok: "transfers_ok env s" and cf: "collision_free env" and c: "transferMemberParamsSchema c"
  shows "transfers_ok env (fst (acceptReservedMember env now c s))"
proof (cases "stored env (ck_transferId c) s")
  case (Inr dm)
  obtain d m where dm: "dm = (d, m)" by force
  let ?t = "ck_transferId c"
  from stored_Inr [OF ok Inr [unfolded dm]] obtain j where j: "map_of s ?t = Some j" "m = j_manifest j" "mf_transferId m = ?t" by metis
  let ?s1 = "fst (touch now ?t s)"
  have ok1: "transfers_ok env ?s1" by (rule touch_ok [OF ok])
  have rc: "transfers_ok env (fst (receive_chunk env now m mb c ?s1))" if "find_member (ck_memberId c) (mf_members m) = Some mb" for mb
  proof -
    obtain a where "map_of ?s1 ?t = Some (j\<lparr>j_activity := a\<rparr>)" using touch_journal [OF j(1)] by blast
    moreover have "mb \<in> set (mf_members m)" using find_Some_in_set [OF that [unfolded find_member_def]] by simp
    ultimately show ?thesis using j by (intro receive_chunk_ok [OF ok1 cf, where j = "j\<lparr>j_activity := a\<rparr>"] c) auto
  qed
  have st: "journal_status ?t s = Inr (j_status j)" by (rule stored_I(3) [OF ok j(1)])
  have rest: "transfers_ok env (fst (and_then (touch now ?t s) f))"
    if "\<And>u s1. touch now ?t s = (s1, Inr u) \<Longrightarrow> transfers_ok env (fst (f u s1))" for f :: "unit \<Rightarrow> transfers \<Rightarrow> transfers \<times> (transfer_error + member_result)"
    by (rule and_then_keeps [where P = "transfers_ok env"]) (use ok1 that in auto)
  show ?thesis
    unfolding acceptReservedMember_def Inr dm read_then_def sum.case prod.case st
    using ok ok1 rc
    by (auto split: transfer_status.splits option.splits sum.splits intro!: rest)
qed (use ok in \<open>simp add: acceptReservedMember_def read_then_def\<close>)

lemma acceptMember_ok: "transfers_ok env s \<Longrightarrow> collision_free env \<Longrightarrow> transfers_ok env (fst (acceptMember env now busy c s))"
  by (simp add: acceptMember_def acceptReservedMember_ok)

lemma mark_ok:
  assumes "transfers_ok env s"
  shows "transfers_ok env (fst (markRecovering env now tid d stage s))" "transfers_ok env (fst (markFailed env now tid d reason s))"
    "transfers_ok env (fst (markCommitted env now tid d c s))"
  using assms writeStatus_ok [OF assms]
  by (auto simp: markRecovering_def markFailed_def markCommitted_def read_then_def split: sum.splits)

lemma journal_ok_emptied: "journal_ok env tid j \<Longrightarrow> j_status j \<noteq> Prepared \<Longrightarrow> journal_ok env tid (j\<lparr>j_chunks := [], j_members := []\<rparr>)"
  by (simp add: journal_ok_def stored_ok_def members_ok_def prepared_ok_def chunks_ok_def)

lemma writeStatus_journal:
  "writeStatus now tid st s = (s', Inr u) \<Longrightarrow> map_of s' tid = map_option (\<lambda>j. j\<lparr>j_status := st, j_activity := now\<rparr>) (map_of s tid)"
  by (auto simp: writeStatus_def touch_def map_of_update_journal option.map_comp comp_def split: if_splits option.splits
      intro: option.map_cong)

lemma abort_ok:
  assumes ok: "transfers_ok env s"
  shows "transfers_ok env (fst (abort env now tid d s))"
proof -
  have w: "transfers_ok env (fst (writeStatus now tid Aborted s))" by (rule writeStatus_ok [OF ok]) simp
  have "transfers_ok env (update_journal tid (\<lambda>j. j\<lparr>j_chunks := [], j_members := []\<rparr>) s1)"
    if "writeStatus now tid Aborted s = (s1, Inr u)" for s1 u
    using w that by (intro transfers_ok_update journal_ok_emptied) (auto dest!: writeStatus_journal)
  with ok w show ?thesis
    by (auto simp: abort_def read_then_def intro!: and_then_keeps [where P = "transfers_ok env"]
        split: sum.splits transfer_status.splits)
qed

lemma transfers_ok_sub:
  assumes "transfers_ok env s"
  shows "transfers_ok env (filter P s)"
proof -
  have d: "distinct (map fst s)" using assms by (simp add: transfers_ok_def jm_ok_def)
  then have "distinct (map fst (filter P s))" by (rule distinct_map_filter)
  moreover have "map_of s tid = Some j" if "map_of (filter P s) tid = Some j" for tid j
    using map_of_SomeD [OF that] d by simp
  ultimately show ?thesis using assms by (auto simp: transfers_ok_def jm_ok_def)
qed

lemma remove_ok: "transfers_ok env s \<Longrightarrow> transfers_ok env (fst (remove_transfer env tid d s))"
  by (auto simp: remove_transfer_def read_then_def jm_delete_def intro: transfers_ok_sub split: sum.splits)

section \<open>The journal as a machine\<close>

datatype transfer_op =
    TPrepare "int option" transfer_manifest string
  | TAccept "int option" bool member_chunk
  | TRecovering "int option" string string recovery_stage
  | TFailed "int option" string string failure_reason
  | TCommitted "int option" string string committed_status
  | TAbort "int option" string string
  | TRemove string string
  | TPrune int "string \<Rightarrow> int" "string \<Rightarrow> int option"

fun transfer_step :: "transfer_env \<Rightarrow> transfer_op \<Rightarrow> transfers \<Rightarrow> transfers" where
  "transfer_step env (TPrepare now m d) s = fst (prepare env now m d s)"
| "transfer_step env (TAccept now busy c) s = fst (acceptMember env now busy c s)"
| "transfer_step env (TRecovering now t d stage) s = fst (markRecovering env now t d stage s)"
| "transfer_step env (TFailed now t d reason) s = fst (markFailed env now t d reason s)"
| "transfer_step env (TCommitted now t d c) s = fst (markCommitted env now t d c s)"
| "transfer_step env (TAbort now t d) s = fst (abort env now t d s)"
| "transfer_step env (TRemove t d) s = fst (remove_transfer env t d s)"
| "transfer_step env (TPrune r mt now) s = fst (pruneExpired r mt now s)"

lemma transfer_step_ok: "collision_free env \<Longrightarrow> transfers_ok env s \<Longrightarrow> transfers_ok env (transfer_step env op s)"
  by (cases op) (simp_all add: prepare_ok acceptMember_ok mark_ok abort_ok remove_ok pruneExpired_def transfers_ok_sub)

text \<open>The runs of a journal whose file names do not collide.\<close>

interpretation tj: machine_invariant "transfer_step env" "\<lambda>s. collision_free env \<and> transfers_ok env s"
  by unfold_locales (simp add: transfer_step_ok)

lemma empty_transfers_ok: "transfers_ok env []"
  by (simp add: transfers_ok_def jm_ok_def)

text \<open>
  C2. Whatever is sent and however often it is retried, interrupted or aborted, every transaction
  the journal holds satisfies its manifest: each completed member file has the length and digest
  its manifest declares, a transaction marked prepared has every declared member, and the chunk
  files of a member are numbered without gaps, all but the last of them full, and together no
  longer than the member.
\<close>

theorem journal_invariant:
  assumes "collision_free env" and "map_of (fold (transfer_step env) ops []) tid = Some j"
  shows "stored_ok env tid j \<and> members_ok env j \<and> prepared_ok env j \<and> chunks_ok env j"
proof -
  have "transfers_ok env (fold (transfer_step env) ops [])"
    using tj.inv_run [of env "[]" ops] assms(1) empty_transfers_ok by blast
  then show ?thesis using assms(2) by (simp add: transfers_ok_def journal_ok_def)
qed

section \<open>Outcomes\<close>

text \<open>
  C24. What the target reads is what the manifest promised: bytes \<open>readMember\<close> returns belong to a
  declared member and have its declared length and SHA-256.
\<close>

theorem readMember_matches_manifest:
  assumes "readMember env tid digest memberId s = Inr bytes"
  shows "\<exists>m mb. manifest env tid digest s = Inr m \<and> find_member memberId (mf_members m) = Some mb \<and>
    int (length bytes) = tm_byteLength mb \<and> ''sha256:'' @ te_sha256 env bytes = tm_digest mb"
proof -
  from assms obtain path where p: "memberPath env tid digest memberId s = Inr path"
    and b: "map_of (members_of tid s) path = Some bytes"
    by (auto simp: readMember_def split: sum.splits option.splits)
  from p obtain m mb where m: "manifest env tid digest s = Inr m" "find_member memberId (mf_members m) = Some mb"
    "verifyMember env (members_of tid s) mb = Inr ()" "path = memberKey env memberId"
    by (auto simp: memberPath_def result_simps split: option.splits)
  have "tm_memberId mb = memberId" using find_Some_in_set [OF m(2) [unfolded find_member_def]] by simp
  then show ?thesis using m b by (auto simp: verifyMember_Inr file_matches_def sha256_of_def)
qed

subsection \<open>A method touches one transaction\<close>

definition only :: "string \<Rightarrow> transfers \<Rightarrow> transfers \<Rightarrow> bool" where
  "only tid s s' \<longleftrightarrow> (\<forall>k. k \<noteq> tid \<longrightarrow> map_of s' k = map_of s k)"

lemma only_refl [simp]: "only tid s s"
  by (simp add: only_def)

lemma only_trans: "only tid s r \<Longrightarrow> only tid r s' \<Longrightarrow> only tid s s'"
  by (simp add: only_def)

lemma only_update [simp]: "only tid s (update_journal tid f s)"
  by (simp add: only_def map_of_update_journal)

lemma only_touch: "only tid s (fst (touch now tid s))"
  by (simp add: touch_def split: option.splits)

lemma only_writeStatus: "only tid s (fst (writeStatus now tid st s))"
  by (auto simp: writeStatus_def intro: only_trans [OF only_update only_touch])

lemma only_and_then:
  "only tid s (fst x) \<Longrightarrow> (\<And>a s1. x = (s1, Inr a) \<Longrightarrow> only tid s1 (fst (f a s1))) \<Longrightarrow> only tid s (fst (and_then x f))"
  by (auto simp: and_then_def intro: only_trans split: prod.splits sum.splits)

lemma only_read_then: "(\<And>a. r = Inr a \<Longrightarrow> only tid s (fst (f a s))) \<Longrightarrow> only tid s (fst (read_then r f s))"
  by (auto simp: read_then_def split: sum.splits)

lemma only_publish: "only tid s (fst (publishRetainedMember env tid mb cs s))"
  by (auto simp: publishRetainedMember_def Let_def split: sum.splits)

lemma only_completed: "only (mf_transferId m) s (fst (completedMemberResult env now m i s))"
  unfolding completedMemberResult_def Let_def
  by (rule only_trans [where r = "remove_chunk_dir env (mf_transferId m) i s"])
     (auto simp: remove_chunk_dir_def intro!: only_read_then only_writeStatus)

lemma only_finish: "only (mf_transferId m) s (fst (finish_member env now m mb q cs s))"
  unfolding finish_member_def
  by (rule only_and_then [OF only_publish]) (auto simp: remove_chunk_def set_chunk_dir_def only_completed)

lemma only_receive: "only (mf_transferId m) s (fst (receive_chunk env now m mb c s))"
  unfolding receive_chunk_def Let_def
proof (rule only_trans)
  show "only (mf_transferId m) s (set_chunk_dir env (mf_transferId m) (tm_memberId mb) (chunk_dir env (mf_transferId m) (tm_memberId mb) s) s)"
    by (simp add: set_chunk_dir_def)
qed (auto simp: retained_chunk_def append_chunk_def Let_def set_chunk_dir_def
       intro!: only_read_then only_finish intro: only_trans [OF only_update only_finish])

lemma only_prepare_active: "only (mf_transferId m) s (fst (prepare_active env now m s))"
  unfolding prepare_active_def by (auto intro!: only_read_then only_writeStatus)

subsection \<open>Commitment is final\<close>

definition committed :: "string \<Rightarrow> transfers \<Rightarrow> bool" where
  "committed tid s \<longleftrightarrow> (\<exists>j c. map_of s tid = Some j \<and> j_status j = Committed c)"

lemma committed_only: "committed k s \<Longrightarrow> only tid s s' \<Longrightarrow> k \<noteq> tid \<Longrightarrow> committed k s'"
  by (simp add: committed_def only_def)

lemma committed_touch: "committed k s \<Longrightarrow> committed k (fst (touch now tid s))"
  by (auto simp: committed_def touch_def map_of_update_journal split: option.splits)

lemma committed_status: "committed k s \<Longrightarrow> transferIdSchema k \<Longrightarrow> \<exists>c. journal_status k s = Inr (Committed c)"
  by (auto simp: committed_def journal_status_def)

lemma committed_writeStatus: "committed k s \<Longrightarrow> (tid = k \<Longrightarrow> \<exists>c. st = Committed c) \<Longrightarrow> committed k (fst (writeStatus now tid st s))"
  unfolding writeStatus_def
  by (auto intro!: committed_touch) (auto simp: committed_def map_of_update_journal)

lemma journal_status_valid: "journal_status tid s = Inr st \<Longrightarrow> transferIdSchema tid"
  by (simp add: journal_status_def split: if_splits)

lemma committed_prepare:
  assumes k: "committed k s" and ok: "transfers_ok env s"
  shows "committed k (fst (prepare env now raw d s))"
proof (cases "manifest_parse env raw")
  case (Some m)
  let ?s1 = "publish_journal now d m s" and ?t = "mf_transferId m"
  have k1: "committed k ?s1"
    using k by (auto simp: committed_def publish_journal_def map_of_jm_set split: option.splits)
  have by_status: "committed k (fst (prepare_by_status env now sm st s2))"
    if st: "stored env ?t ?s1 = Inr (dg, sm)" "manifest_digest env m = Some d" "touch now ?t ?s1 = (s2, Inr u)"
      "journal_status ?t s2 = Inr st" for dg sm s2 u st
  proof -
    have "transfers_ok env ?s1" by (rule publish_journal_ok [OF ok manifest_schema_Some(1) [OF Some] st(2)])
    then have t: "mf_transferId sm = ?t" using st(1) by (metis stored_Inr)
    have k2: "committed k s2" using committed_touch [OF k1, of now ?t] st(3) by simp
    have "k \<noteq> ?t" if "\<not> (\<exists>c. st = Committed c)"
      using committed_status [OF k2] st(4) that journal_status_valid by fastforce
    then show ?thesis
      using k2 committed_only [OF k2 only_prepare_active, of sm env now] t
      by (auto simp: prepare_by_status_def split: transfer_status.splits)
  qed
  have k2: "committed k (fst (touch now ?t ?s1))" by (rule committed_touch [OF k1])
  show ?thesis
    unfolding prepare_def Some option.case Let_def using k k1 k2
    by (auto intro!: read_then_keeps [where P = "committed k"] and_then_keeps [where P = "committed k"]
        intro: by_status)
qed (use k in \<open>simp add: prepare_def\<close>)

lemma committed_accept:
  assumes k: "committed k s" and ok: "transfers_ok env s"
  shows "committed k (fst (acceptMember env now busy c s))"
proof (cases "transferMemberParamsSchema c \<and> \<not> busy \<and> (\<exists>d m. stored env (ck_transferId c) s = Inr (d, m))")
  case True
  let ?t = "ck_transferId c"
  from True obtain d m where st: "stored env ?t s = Inr (d, m)" by blast
  from stored_Inr [OF ok st] obtain j where j: "map_of s ?t = Some j" "mf_transferId m = ?t" "transferIdSchema ?t" by metis
  have s: "journal_status ?t s = Inr (j_status j)" by (rule stored_I(3) [OF ok j(1)])
  have k1: "committed k (fst (touch now ?t s))" by (rule committed_touch [OF k])
  have rc: "committed k (fst (receive_chunk env now m mb c s1))"
    if "touch now ?t s = (s1, Inr u)" "\<not> (\<exists>c. j_status j = Committed c)" for mb s1 u
  proof -
    have "k \<noteq> ?t" using k that(2) j(1) by (auto simp: committed_def)
    then show ?thesis using committed_only [OF _ only_receive, of k s1 m] k1 that(1) j(2) by simp
  qed
  show ?thesis
    using True k k1 rc unfolding acceptMember_def acceptReservedMember_def st read_then_def sum.case prod.case s
    by (auto split: transfer_status.splits option.splits sum.splits intro!: and_then_keeps [where P = "committed k"])
qed (use k in \<open>auto simp: acceptMember_def acceptReservedMember_def read_then_def split: sum.splits\<close>)

lemma committed_marks:
  assumes "committed k s"
  shows "committed k (fst (markRecovering env now tid d stage s))" "committed k (fst (markFailed env now tid d reason s))"
    "committed k (fst (markCommitted env now tid d c s))" "committed k (fst (abort env now tid d s))"
proof -
  have terminal: "tid \<noteq> k" if "assertNotTerminal tid s = Inr ()"
    using assms that committed_status [OF assms] journal_status_valid
    by (fastforce simp: assertNotTerminal_def result_simps)
  then show "committed k (fst (markRecovering env now tid d stage s))" "committed k (fst (markFailed env now tid d reason s))"
    using assms committed_writeStatus [OF assms, of tid]
    by (auto simp: markRecovering_def markFailed_def read_then_def split: sum.splits)
  show "committed k (fst (markCommitted env now tid d c s))"
    using assms committed_writeStatus [OF assms, of tid] by (auto simp: markCommitted_def read_then_def split: sum.splits)
  have other: "tid \<noteq> k" if "journal_status tid s = Inr st" "\<not> (\<exists>c. st = Committed c)" for st
    using committed_status [OF assms] that journal_status_valid by fastforce
  have "committed k (fst (and_then (writeStatus now tid Aborted s) (\<lambda>u s1.
      (update_journal tid (\<lambda>j. j\<lparr>j_chunks := [], j_members := []\<rparr>) s1, Inr Aborted))))" if "tid \<noteq> k"
    using committed_writeStatus [OF assms, of tid Aborted now] that
    by (auto intro!: and_then_keeps [where P = "committed k"]) (auto simp: committed_def map_of_update_journal)
  with assms other show "committed k (fst (abort env now tid d s))"
    by (auto simp: abort_def read_then_def split: sum.splits transfer_status.splits)
qed

fun removes :: "transfer_op \<Rightarrow> bool" where
  "removes (TRemove t d) = True"
| "removes (TPrune r mt now) = True"
| "removes op = False"

text \<open>
  C21. A commit is final: until its journal is removed or pruned, no later prepare, chunk, abort,
  failure or recovery report makes a committed transfer anything but committed.
\<close>

theorem committed_is_final:
  assumes "collision_free env" "transfers_ok env s" "committed tid s" "list_all (\<lambda>op. \<not> removes op) ops"
  shows "committed tid (fold (transfer_step env) ops s)"
  using assms
proof (induction ops arbitrary: s)
  case (Cons op ops)
  have "committed tid (transfer_step env op s)"
    using Cons.prems by (cases op) (simp_all add: committed_prepare committed_accept committed_marks)
  with Cons show ?case by (simp add: transfer_step_ok)
qed simp

text \<open>
  Retention: pruning keeps every transaction whose last activity is no older than the
  retention and removes every one that is older, and reports exactly what it removed.
\<close>

theorem prune_by_age:
  assumes "transfers_ok env s" and "pruneExpired retention mtime (\<lambda>_. Some t) s = (s', removed)"
    and "map_of s tid = Some j" and "j_activity j = Some a"
  shows "map_of s' tid = (if t - a \<le> retention then Some j else None) \<and> (tid \<in> set removed \<longleftrightarrow> t - a > retention)"
proof -
  have d: "distinct (map fst s)" using assms(1) by (simp add: transfers_ok_def jm_ok_def)
  have id: "transferIdSchema tid" by (rule stored_I(2) [OF assms(1,3)])
  have mem: "(tid, j) \<in> set s" by (rule map_of_SomeD [OF assms(3)])
  have uniq: "x = j" if "(tid, x) \<in> set s" for x using d mem that by (metis eq_key_imp_eq_value)
  have exp: "expired retention mtime (\<lambda>_. Some t) (tid, j) \<longleftrightarrow> t - a > retention"
    using assms(4) id by (auto simp: expired_def)
  have s': "s' = filter (\<lambda>e. \<not> expired retention mtime (\<lambda>_. Some t) e) s"
    and "removed = sort (map fst (filter (expired retention mtime (\<lambda>_. Some t)) s))"
    using assms(2) by (simp_all add: pruneExpired_def)
  then have r: "set removed = fst ` set (filter (expired retention mtime (\<lambda>_. Some t)) s)"
    by (simp only: set_sort set_map)
  have d': "distinct (map fst s')" unfolding s' using d by (rule distinct_map_filter)
  have "map_of s' tid = Some j" if "t - a \<le> retention"
    using that exp mem d' by (intro map_of_is_SomeI) (auto simp: s')
  moreover have "map_of s' tid = None" if "t - a > retention"
    using that exp uniq by (auto simp: map_of_eq_None_iff s')
  moreover have "tid \<in> set removed \<longleftrightarrow> t - a > retention"
  proof
    assume "tid \<in> set removed"
    then obtain x where "(tid, x) \<in> set s" "expired retention mtime (\<lambda>_. Some t) (tid, x)" unfolding r by auto
    then show "t - a > retention" using uniq exp by blast
  next
    assume "t - a > retention"
    then have "(tid, j) \<in> set (filter (expired retention mtime (\<lambda>_. Some t)) s)" using exp mem by simp
    then show "tid \<in> set removed" unfolding r by (rule rev_image_eqI) simp
  qed
  ultimately show ?thesis by auto
qed

section \<open>A concrete transfer\<close>

text \<open>Texts hash to their own bytes, so file names do not collide; byte strings hash to one digest.\<close>

definition bytes_text :: "js_string \<Rightarrow> string" where
  "bytes_text s = concat (map (\<lambda>c. [char_of (unat c div 256), char_of (unat c mod 256)]) s)"

definition sample_transfer_env :: transfer_env where
  "sample_transfer_env = \<lparr>te_offsetDateTime = (\<lambda>_. True),
     te_sha256_text = bytes_text,
     te_sha256 = (\<lambda>_. replicate 64 (CHR ''a''))\<rparr>"

lemma unit_bytes_inject:
  assumes "char_of (unat c div 256) = (char_of (unat d div 256) :: char)" "char_of (unat c mod 256) = (char_of (unat d mod 256) :: char)"
  shows "c = (d :: js_char)"
proof -
  have b: "unat x div 256 < 256" for x :: js_char
  proof -
    have "unat x < 2 ^ LENGTH(16)" by (rule unsigned_less)
    then show ?thesis by simp
  qed
  have "unat c div 256 = unat d div 256" "unat c mod 256 = unat d mod 256"
    using assms b [of c] b [of d] by (simp_all add: char_of_eq_iff take_bit_eq_mod)
  then have "unat c = unat d" by (metis div_mult_mod_eq)
  moreover have "word_of_nat (unat c) = c" "word_of_nat (unat d) = d" by simp_all
  ultimately show ?thesis by metis
qed

lemma bytes_text_inject: "bytes_text a = bytes_text b \<Longrightarrow> a = b"
proof (induction a arbitrary: b)
  case Nil
  then show ?case by (cases b) (auto simp: bytes_text_def)
next
  case (Cons x a)
  then show ?case using unit_bytes_inject by (cases b) (auto simp: bytes_text_def)
qed

lemma sample_collision_free: "collision_free sample_transfer_env"
proof -
  have js: "x = y" if "js x = js y" for x y
  proof -
    have "inj (\<lambda>c::char. word_of_nat (of_char c) :: js_char)"
    proof (rule injI)
      fix c d :: char
      assume "(word_of_nat (of_char c) :: js_char) = word_of_nat (of_char d)"
      then have "unat (word_of_nat (of_char c) :: js_char) = unat (word_of_nat (of_char d) :: js_char)" by simp
      moreover have "unat (word_of_nat (of_char x) :: js_char) = of_char x" for x
      proof -
        have "(of_char x :: nat) < 65536" using nat_of_char_less_256 [of x] by linarith
        then show ?thesis by (simp add: unat_of_nat)
      qed
      ultimately show "c = d" by simp
    qed
    then show ?thesis using that by (simp add: js_def inj_map_eq_map)
  qed
  show ?thesis
    unfolding collision_free_def memberKey_def sample_transfer_env_def
    by (rule injI) (auto dest!: bytes_text_inject js)
qed


definition sample_manifest :: transfer_manifest where
  "sample_manifest = \<lparr>mf_version = 2, mf_transferId = ''transfer-'' @ replicate 32 (CHR ''a''), mf_sessionId = [115, 49],
     mf_sourceMachineId = ''machine-'' @ replicate 32 (CHR ''a''), mf_targetMachineId = ''machine-'' @ replicate 32 (CHR ''b''),
     mf_intentDigest = ''sha256:'' @ replicate 64 (CHR ''a''), mf_createdAt = ''t'', mf_fromGeneration = 0, mf_toGeneration = 1,
     mf_sourceProjectId = [112], mf_targetProjectId = [113], mf_lineageCommit = replicate 40 (CHR ''a''),
     mf_checkpointCommit = replicate 40 (CHR ''a''),
     mf_repository = RemoteRef ''origin'' ''refs/domovoi/sessions/s1'' (replicate 40 (CHR ''a'')),
     mf_stateMemberId = ''state'',
     mf_members = [\<lparr>tm_memberId = ''state'', tm_digest = ''sha256:'' @ replicate 64 (CHR ''a''), tm_byteLength = 3, tm_kind = SessionStateMember\<rparr>],
     mf_totalBytes = 3, mf_coverage = \<lparr>cov_included = [], cov_excluded = [], cov_warnings = []\<rparr>\<rparr>"

lemma sample_schemas:
  "commitShaSchema (replicate 40 (CHR ''a''))" "transferIdSchema (''transfer-'' @ replicate 32 (CHR ''a''))"
  "machineIdSchema (''machine-'' @ replicate 32 (CHR ''a''))" "machineIdSchema (''machine-'' @ replicate 32 (CHR ''b''))"
  "sha256DigestSchema (''sha256:'' @ replicate 64 (CHR ''a''))"
proof -
  have h: "hex_lower (CHR ''a'')" "hex_lower (CHR ''b'')" by (simp_all add: hex_lower_def)
  note t = tagged_hex_replicate [of "[]", unfolded append_Nil] tagged_hex_replicate
  show "commitShaSchema (replicate 40 (CHR ''a''))" "transferIdSchema (''transfer-'' @ replicate 32 (CHR ''a''))"
    "machineIdSchema (''machine-'' @ replicate 32 (CHR ''a''))" "machineIdSchema (''machine-'' @ replicate 32 (CHR ''b''))"
    "sha256DigestSchema (''sha256:'' @ replicate 64 (CHR ''a''))"
    unfolding commitShaSchema_def transferIdSchema_def machineIdSchema_def sha256DigestSchema_def
    by (simp_all only: t h simp_thms)
qed


lemma sample_manifest_parsed: "manifest_parse env sample_manifest = Some sample_manifest" if "\<And>x. te_offsetDateTime env x" for env
proof -
  let ?m = sample_manifest
  have members: "all_some (map sessionTransferMemberSchema (mf_members ?m)) = Some (mf_members ?m)"
    using sample_schemas(5)
    by (simp add: sample_manifest_def sessionTransferMemberSchema_def sessionTransferMemberIdSchema_def head_tail_def
        lower_alpha_def digit_char_def maximumTransferBytes_def del: append.simps)
  have texts: "trimmed_session_id (mf_sessionId ?m) = Some (mf_sessionId ?m)" "trimmed_text 512 (mf_sourceProjectId ?m) = Some (mf_sourceProjectId ?m)"
    "trimmed_text 512 (mf_targetProjectId ?m) = Some (mf_targetProjectId ?m)"
    by (simp_all add: sample_manifest_def trimmed_session_id_def trimmed_text_def js_trim_def js_whitespace_def js_ascii_def
        head_tail_def ascii_alnum_def name_char_def char_of_def bit_Suc_0_iff)
  have rules: "manifest_rules ?m"
    by (simp add: manifest_rules_def sample_manifest_def find_member_def is_bundle_def sessionRefPrefix_def js_def)
  have parts: "sessionTransferRepositorySchema (mf_repository ?m)" "sessionTransferMemberIdSchema (mf_stateMemberId ?m)"
    "sessionTransferCoverageSchema (mf_coverage ?m)"
    using sample_schemas
    by (simp_all add: sample_manifest_def gitRemoteNameSchema_def sessionRefSchema_def sessionRefPrefix_def head_tail_def ascii_alnum_def
        name_char_def sessionTransferMemberIdSchema_def lower_alpha_def digit_char_def sessionTransferCoverageSchema_def
        coverage_part_def uniqueCoverage_def)
  have ids: "transferIdSchema (mf_transferId ?m)" "machineIdSchema (mf_sourceMachineId ?m)" "machineIdSchema (mf_targetMachineId ?m)"
    "sha256DigestSchema (mf_intentDigest ?m)" "commitShaSchema (mf_lineageCommit ?m)" "commitShaSchema (mf_checkpointCommit ?m)"
    using sample_schemas by (simp_all add: sample_manifest_def del: append.simps)
  have same: "?m\<lparr>mf_sessionId := mf_sessionId ?m, mf_sourceProjectId := mf_sourceProjectId ?m,
      mf_targetProjectId := mf_targetProjectId ?m, mf_members := mf_members ?m\<rparr> = ?m" by simp
  have nums: "mf_version ?m = 2" "safeGenerationSchema (mf_fromGeneration ?m)" "safeGenerationSchema (mf_toGeneration ?m)"
    "length (mf_members ?m) = 1" "0 < mf_totalBytes ?m" "mf_totalBytes ?m \<le> maximumTransferBytes"
    by (simp_all add: sample_manifest_def safeGenerationSchema_def maxSafeInteger_def maximumTransferBytes_def)
  show ?thesis
    unfolding sessionTransferManifestSchema_def texts members option.case prod.case Let_def same
    using parts ids nums rules that by simp
qed

definition sample_digest_text :: string where
  "sample_digest_text = the (manifest_digest sample_transfer_env sample_manifest)"

definition sample_committed :: committed_status where
  "sample_committed = \<lparr>cs_transferId = mf_transferId sample_manifest, cs_workspacePath = [47], cs_checkpointCommit = replicate 40 (CHR ''a''),
     cs_ownershipGeneration = 1\<rparr>"

definition sample_journal :: journal where
  "sample_journal = \<lparr>j_manifestDigest = sample_digest_text, j_manifest = sample_manifest, j_status = Committed sample_committed,
     j_activity = Some 7, j_members = [(memberKey sample_transfer_env ''state'', [1, 2, 3])], j_chunks = []\<rparr>"

lemma sample_manifest_stored:
  "manifest_parse sample_transfer_env sample_manifest = Some sample_manifest"
  "manifest_digest sample_transfer_env sample_manifest = Some sample_digest_text"
proof -
  show p: "manifest_parse sample_transfer_env sample_manifest = Some sample_manifest"
    by (rule sample_manifest_parsed) (simp add: sample_transfer_env_def)
  then show "manifest_digest sample_transfer_env sample_manifest = Some sample_digest_text"
    by (simp add: sample_digest_text_def sessionTransferManifestDigest_def)
qed

lemma sample_state_member: "mf_members sample_manifest = [\<lparr>tm_memberId = ''state'', tm_digest = ''sha256:'' @ replicate 64 (CHR ''a''),
    tm_byteLength = 3, tm_kind = SessionStateMember\<rparr>]"
  by (simp add: sample_manifest_def)

lemma sample_file_matches: "file_matches sample_transfer_env \<lparr>tm_memberId = ''state'', tm_digest = ''sha256:'' @ replicate 64 (CHR ''a''),
    tm_byteLength = 3, tm_kind = SessionStateMember\<rparr> [1, 2, 3]"
  by (simp add: file_matches_def sha256_of_def sample_transfer_env_def)

lemma sample_transfers_ok: "transfers_ok sample_transfer_env [(mf_transferId sample_manifest, sample_journal)]"
  using sample_manifest_stored sample_file_matches
  by (simp add: transfers_ok_def jm_ok_def journal_ok_def stored_ok_def members_ok_def prepared_ok_def chunks_ok_def
      sample_journal_def sample_state_member del: append.simps)

theorem journal_invariant_witness:
  "stored_ok sample_transfer_env (mf_transferId sample_manifest) (new_journal (Some 7) sample_digest_text sample_manifest)"
proof -
  let ?t = "mf_transferId sample_manifest" and ?s = "fold (transfer_step sample_transfer_env) [TPrepare (Some 7) sample_manifest sample_digest_text] []"
  let ?j = "new_journal (Some 7) sample_digest_text sample_manifest"
  have ok: "transfers_ok sample_transfer_env [(?t, ?j)]"
    using publish_journal_ok [OF empty_transfers_ok sample_manifest_stored, of "Some 7"] by (simp add: publish_journal_def)
  have "map_of ?s ?t = Some ?j"
    using sample_manifest_stored stored_I [OF ok, of ?t ?j]
    by (simp add: prepare_def publish_journal_def read_then_def touch_def and_then_def prepare_by_status_def prepare_active_def
        members_of_def verifyMember_def sample_state_member update_journal_def new_journal_def)
  from journal_invariant [OF sample_collision_free this] show ?thesis by simp
qed

lemma sample_read: "readMember sample_transfer_env (mf_transferId sample_manifest) sample_digest_text ''state''
    [(mf_transferId sample_manifest, sample_journal)] = Inr [1, 2, 3]"
proof -
  let ?s = "[(mf_transferId sample_manifest, sample_journal)]"
  have "stored sample_transfer_env (mf_transferId sample_manifest) ?s = Inr (sample_digest_text, sample_manifest)"
    using stored_I(1) [OF sample_transfers_ok, of "mf_transferId sample_manifest" sample_journal] by (simp add: sample_journal_def)
  moreover have "find_member ''state'' (mf_members sample_manifest) = Some (hd (mf_members sample_manifest))"
    by (simp add: find_member_def sample_state_member)
  moreover have "verifyMember sample_transfer_env (members_of (mf_transferId sample_manifest) ?s) (hd (mf_members sample_manifest)) = Inr ()"
    using sample_file_matches by (simp add: verifyMember_Inr members_of_def sample_journal_def sample_state_member del: append.simps)
  ultimately show ?thesis
    by (simp add: readMember_def memberPath_def manifest_def) (simp add: members_of_def sample_journal_def)
qed

theorem readMember_matches_manifest_witness:
  "\<exists>m mb. manifest sample_transfer_env (mf_transferId sample_manifest) sample_digest_text [(mf_transferId sample_manifest, sample_journal)] = Inr m \<and>
     find_member ''state'' (mf_members m) = Some mb \<and> 3 = tm_byteLength mb"
  using readMember_matches_manifest [OF sample_read] by auto

theorem committed_is_final_witness:
  "committed (mf_transferId sample_manifest) (fold (transfer_step sample_transfer_env)
     [TAbort (Some 9) (mf_transferId sample_manifest) sample_digest_text] [(mf_transferId sample_manifest, sample_journal)])"
  by (rule committed_is_final [OF sample_collision_free sample_transfers_ok]) (simp_all add: committed_def sample_journal_def)

theorem prune_by_age_witness:
  "map_of (fst (pruneExpired 10 (\<lambda>_. 0) (\<lambda>_. Some 18) [(mf_transferId sample_manifest, sample_journal)])) (mf_transferId sample_manifest) = None"
proof -
  let ?s = "[(mf_transferId sample_manifest, sample_journal)]"
  have "pruneExpired 10 (\<lambda>_. 0) (\<lambda>_. Some 18) ?s = (fst (pruneExpired 10 (\<lambda>_. 0) (\<lambda>_. Some 18) ?s), snd (pruneExpired 10 (\<lambda>_. 0) (\<lambda>_. Some 18) ?s))"
    by simp
  from prune_by_age [OF sample_transfers_ok this, of "mf_transferId sample_manifest" sample_journal 7] show ?thesis
    by (simp add: sample_journal_def)
qed

end
