(* ===== verification/Transfer_Receive.thy ===== *)
theory Transfer_Receive
  imports Transfer_Journal
begin

text \<open>
  Who may receive: the two tables of apps/daemon/src/transfer-transactions.ts that keep one
  receive per member and one process per journal. \<open>activeMemberReceives\<close> holds the chunk
  directories being received into, \<open>receivingJournals\<close> counts the receives that share the
  process's lease on a journal root. Whether the operating system grants a lease is an argument.
  The byte-writing loop of the same file is here too.
\<close>

section \<open>Reservations and leases\<close>

record receive_tables =
  rt_active :: "(string \<times> string) list"
  rt_leases :: "(string, nat) jsmap"

definition no_receives :: receive_tables where
  "no_receives = \<lparr>rt_active = [], rt_leases = []\<rparr>"

definition claimJournalReceiveLease :: "bool \<Rightarrow> string \<Rightarrow> receive_tables \<Rightarrow> receive_tables \<times> bool" where
  "claimJournalReceiveLease granted root t =
     (case map_of (rt_leases t) root of
        Some users \<Rightarrow> (t\<lparr>rt_leases := jm_set root (users + 1) (rt_leases t)\<rparr>, True)
      | None \<Rightarrow> if granted then (t\<lparr>rt_leases := jm_set root 1 (rt_leases t)\<rparr>, True) else (t, False))"

definition releaseJournalReceiveLease :: "string \<Rightarrow> receive_tables \<Rightarrow> receive_tables" where
  "releaseJournalReceiveLease root t =
     (case map_of (rt_leases t) root of
        None \<Rightarrow> t
      | Some users \<Rightarrow>
          if users = 1 then t\<lparr>rt_leases := jm_delete root (rt_leases t)\<rparr>
          else t\<lparr>rt_leases := jm_set root (users - 1) (rt_leases t)\<rparr>)"

text \<open>The synchronous prefix of \<open>acceptMember\<close>: whether the receive may go on.\<close>

definition begin_receive :: "bool \<Rightarrow> string \<Rightarrow> string \<Rightarrow> receive_tables \<Rightarrow> receive_tables \<times> bool" where
  "begin_receive granted root path t =
     (if (root, path) \<in> set (rt_active t) then (t, False)
      else let t1 = t\<lparr>rt_active := (root, path) # rt_active t\<rparr> in
        case claimJournalReceiveLease granted root t1 of
          (t2, True) \<Rightarrow> (t2, True)
        | (t2, False) \<Rightarrow> (t2\<lparr>rt_active := removeAll (root, path) (rt_active t2)\<rparr>, False))"

text \<open>Its \<open>finally\<close>: the lease goes first, then the reservation.\<close>

definition end_receive :: "string \<Rightarrow> string \<Rightarrow> receive_tables \<Rightarrow> receive_tables" where
  "end_receive root path t =
     (if (root, path) \<in> set (rt_active t)
      then (let t1 = releaseJournalReceiveLease root t in t1\<lparr>rt_active := removeAll (root, path) (rt_active t1)\<rparr>)
      else t)"

datatype receive_op = BeginReceive bool string string | EndReceive string string

fun receive_step :: "receive_op \<Rightarrow> receive_tables \<Rightarrow> receive_tables" where
  "receive_step (BeginReceive granted root path) t = fst (begin_receive granted root path t)"
| "receive_step (EndReceive root path) t = end_receive root path t"

definition users_of :: "string \<Rightarrow> (string \<times> string) list \<Rightarrow> nat" where
  "users_of root xs = length (filter (\<lambda>x. fst x = root) xs)"

definition receives_ok :: "receive_tables \<Rightarrow> bool" where
  "receives_ok t \<longleftrightarrow> distinct (rt_active t) \<and>
     (\<forall>root. map_of (rt_leases t) root = (if users_of root (rt_active t) = 0 then None else Some (users_of root (rt_active t))))"

lemma users_of_pos: "x \<in> set xs \<Longrightarrow> 0 < users_of (fst x) xs"
  by (auto simp: users_of_def filter_empty_conv)

lemma users_of_removeAll: "distinct xs \<Longrightarrow> x \<in> set xs \<Longrightarrow>
    users_of root (removeAll x xs) = (if fst x = root then users_of root xs - 1 else users_of root xs)"
proof (induction xs)
  case (Cons y xs)
  then show ?case
    using users_of_pos [of x xs] by (cases "x = y") (auto simp: users_of_def removeAll_id)
qed simp

lemma begin_receive_ok:
  assumes ok: "receives_ok t"
  shows "receives_ok (fst (begin_receive granted root path t))"
proof (cases "(root, path) \<in> set (rt_active t)")
  case False
  then show ?thesis
    using ok by (auto simp: begin_receive_def claimJournalReceiveLease_def receives_ok_def users_of_def map_of_jm_set Let_def
        removeAll_id split: option.splits)
qed (use ok in \<open>simp add: begin_receive_def\<close>)

lemma end_receive_ok:
  assumes ok: "receives_ok t"
  shows "receives_ok (end_receive root path t)"
proof (cases "(root, path) \<in> set (rt_active t)")
  case True
  have pos: "0 < users_of root (rt_active t)" using users_of_pos [OF True] by simp
  have lease: "map_of (rt_leases t) root = Some (users_of root (rt_active t))" using ok pos by (simp add: receives_ok_def)
  show ?thesis
    unfolding receives_ok_def
  proof (intro conjI allI)
    show "distinct (rt_active (end_receive root path t))"
      using ok by (simp add: end_receive_def releaseJournalReceiveLease_def receives_ok_def Let_def distinct_removeAll split: option.splits)
    show "map_of (rt_leases (end_receive root path t)) r = (if users_of r (rt_active (end_receive root path t)) = 0 then None
        else Some (users_of r (rt_active (end_receive root path t))))" for r
      using ok True lease pos
      by (auto simp: end_receive_def releaseJournalReceiveLease_def receives_ok_def Let_def users_of_removeAll map_of_jm_set map_of_jm_delete)
  qed
qed (use ok in \<open>simp add: end_receive_def\<close>)

interpretation rcv: machine_invariant receive_step receives_ok
proof
  show "receives_ok t \<Longrightarrow> receives_ok (receive_step op t)" for op t
    by (cases op) (simp_all add: begin_receive_ok end_receive_ok)
qed

text \<open>
  However receives start, fail to start and end, no chunk directory is received into twice at
  once, and the process holds its lease on a journal exactly while one of its receives is active
  there, counted once per receive.
\<close>

theorem lease_held_while_receiving:
  assumes "t = fold receive_step ops no_receives"
  shows "distinct (rt_active t) \<and>
    map_of (rt_leases t) root = (if length (filter (\<lambda>x. fst x = root) (rt_active t)) = 0 then None
      else Some (length (filter (\<lambda>x. fst x = root) (rt_active t))))"
proof -
  have "receives_ok t" unfolding assms by (rule rcv.inv_run) (simp add: receives_ok_def no_receives_def users_of_def)
  then show ?thesis by (simp add: receives_ok_def users_of_def)
qed

theorem lease_held_while_receiving_witness:
  "map_of (rt_leases (fold receive_step [BeginReceive True ''r'' ''a'', BeginReceive False ''r'' ''b'', EndReceive ''r'' ''a''] no_receives)) ''r'' = Some 1"
  using lease_held_while_receiving [OF refl, of "[BeginReceive True ''r'' ''a'', BeginReceive False ''r'' ''b'', EndReceive ''r'' ''a'']" "''r''"]
  by (simp add: begin_receive_def claimJournalReceiveLease_def end_receive_def releaseJournalReceiveLease_def no_receives_def Let_def)

section \<open>Writing all bytes\<close>

lemma write_all_from:
  assumes "list_all (\<lambda>n. 0 < n \<and> n \<le> maxSafeInteger) counts" and "length bytes - offset \<le> length counts"
  shows "writeAllTransferBytes counts bytes offset (take offset bytes) = Some (Inr bytes)"
  using assms
proof (induction counts arbitrary: offset)
  case Nil
  then show ?case by (subst writeAllTransferBytes.simps) simp
next
  case (Cons n counts)
  have n: "0 < n" "n \<le> maxSafeInteger" using Cons.prems by simp_all
  show ?case
  proof (cases "length bytes \<le> offset")
    case False
    have "length bytes - (offset + nat n) \<le> length counts" using Cons.prems n by simp
    then have "writeAllTransferBytes counts bytes (offset + nat n) (take (offset + nat n) bytes) = Some (Inr bytes)"
      using Cons.prems by (intro Cons.IH) simp_all
    then show ?thesis using False n by (subst writeAllTransferBytes.simps) (simp add: take_add)
  qed (subst writeAllTransferBytes.simps, simp)
qed

text \<open>
  Short writes lose nothing and cannot loop for ever: if every write makes progress, at most
  as many writes as there are bytes are needed, and what was written is exactly the bytes; a
  write that makes no progress is an error.
\<close>

theorem write_all_bytes:
  assumes "list_all (\<lambda>n. 0 < n \<and> n \<le> maxSafeInteger) counts" and "length bytes \<le> length counts"
  shows "writeAllTransferBytes counts bytes 0 [] = Some (Inr bytes) \<and>
    (bytes \<noteq> [] \<longrightarrow> writeAllTransferBytes (0 # counts) bytes 0 [] = Some (Inl ()))"
  using write_all_from [of counts bytes 0] assms by (auto simp: writeAllTransferBytes.simps)

theorem write_all_bytes_witness: "writeAllTransferBytes [2, 5, 1] [7, 8, 9] 0 [] = Some (Inr [7, 8, 9])"
  using write_all_bytes [of "[2, 5, 1]" "[7, 8, 9]"] by (simp add: maxSafeInteger_def)

end
