(* ===== verification/Transfer_Staging.thy ===== *)
theory Transfer_Staging
  imports Transfer_Journal
begin

text \<open>
  Staging at the source of a session transfer (apps/daemon/src/session-transfer-source.ts): a
  packaged session goes into the local journal, prepared first and then member by member, each
  cut into chunks. Sending a prepared transfer to the target is not modelled.
\<close>

section \<open>Staging a member\<close>

datatype stage_error =
    JournalError transfer_error
  | JournalRefused transfer_refusal
  | PackageIncomplete

definition wire_chunk :: "string \<Rightarrow> string \<Rightarrow> nat \<Rightarrow> byte list \<Rightarrow> bool \<Rightarrow> client_kind \<Rightarrow> member_chunk" where
  "wire_chunk tid memberId sequence bytes final client =
     \<lparr>ck_transferId = tid, ck_memberId = memberId, ck_sequence = int sequence, ck_bytes = b64_encode bytes,
      ck_final = final, ck_initiatedByClient = client\<rparr>"

text \<open>One \<open>acceptMember\<close> call of the loop: a thrown error or a refusal ends it.\<close>

definition stage_chunk ::
  "transfer_env \<Rightarrow> (nat \<Rightarrow> int option) \<Rightarrow> (nat \<Rightarrow> bool) \<Rightarrow> string \<Rightarrow> string \<Rightarrow> nat \<Rightarrow> byte list \<Rightarrow> bool \<Rightarrow> transfers
     \<Rightarrow> transfers \<times> (stage_error + unit)" where
  "stage_chunk env now busy tid memberId sequence chunk final s =
     (case acceptMember env (now sequence) (busy sequence) (wire_chunk tid memberId sequence chunk final Desktop) s of
        (s', Inl e) \<Rightarrow> (s', Inl (JournalError e))
      | (s', Inr (MrRefused r)) \<Rightarrow> (s', Inl (JournalRefused r))
      | (s', Inr _) \<Rightarrow> (s', Inr ()))"

function stage_chunks ::
  "transfer_env \<Rightarrow> (nat \<Rightarrow> int option) \<Rightarrow> (nat \<Rightarrow> bool) \<Rightarrow> string \<Rightarrow> string \<Rightarrow> nat \<Rightarrow> byte list \<Rightarrow> transfers
     \<Rightarrow> transfers \<times> (stage_error + unit)" where
  "stage_chunks env now busy tid memberId sequence rest s =
     (if rest = [] then (s, Inr ())
      else let chunk = take transferMemberChunkBytes rest;
               final = (length chunk = length rest)
           in and_then (stage_chunk env now busy tid memberId sequence chunk final s) (\<lambda>u s'.
                stage_chunks env now busy tid memberId (sequence + 1) (drop transferMemberChunkBytes rest) s'))"
  by pat_completeness auto
termination
  by (relation "measure (\<lambda>(env, now, busy, tid, memberId, sequence, rest, s). length rest)")
     (auto simp: transferMemberChunkBytes_def)

declare stage_chunks.simps [simp del]

definition stageMember ::
  "transfer_env \<Rightarrow> (nat \<Rightarrow> int option) \<Rightarrow> (nat \<Rightarrow> bool) \<Rightarrow> string \<Rightarrow> string \<Rightarrow> byte list \<Rightarrow> transfers
     \<Rightarrow> transfers \<times> (stage_error + unit)" where
  "stageMember env now busy tid memberId bytes s =
     (if bytes = [] then stage_chunk env now busy tid memberId 0 [] True s
      else stage_chunks env now busy tid memberId 0 bytes s)"

record packaged_transfer =
  pt_manifest :: transfer_manifest
  pt_manifestDigest :: string
  pt_members :: "(transfer_member \<times> byte list) list"

fun stage_members ::
  "transfer_env \<Rightarrow> (string \<Rightarrow> nat \<Rightarrow> int option) \<Rightarrow> (string \<Rightarrow> nat \<Rightarrow> bool) \<Rightarrow> string \<Rightarrow> string list
     \<Rightarrow> (transfer_member \<times> byte list) list \<Rightarrow> transfers \<Rightarrow> transfers \<times> (stage_error + unit)" where
  "stage_members env now busy tid missing [] s = (s, Inr ())"
| "stage_members env now busy tid missing ((mb, bytes) # rest) s =
     (if tm_memberId mb \<in> set missing
      then and_then (stageMember env (now (tm_memberId mb)) (busy (tm_memberId mb)) tid (tm_memberId mb) bytes s)
             (\<lambda>u s'. stage_members env now busy tid missing rest s')
      else stage_members env now busy tid missing rest s)"

text \<open>\<open>now0\<close> is the clock at \<open>prepare\<close>, \<open>now\<close> the clock at each chunk of each member.\<close>

definition stageOutgoingSessionTransferPackage ::
  "transfer_env \<Rightarrow> int option \<Rightarrow> (string \<Rightarrow> nat \<Rightarrow> int option) \<Rightarrow> (string \<Rightarrow> nat \<Rightarrow> bool) \<Rightarrow> packaged_transfer \<Rightarrow> transfers
     \<Rightarrow> transfers \<times> (stage_error + unit)" where
  "stageOutgoingSessionTransferPackage env now0 now busy pkg s =
     (case prepare env now0 (pt_manifest pkg) (pt_manifestDigest pkg) s of
        (s1, Inl e) \<Rightarrow> (s1, Inl (JournalError e))
      | (s1, Inr (PrRefused r)) \<Rightarrow> (s1, Inl (JournalRefused r))
      | (s1, Inr (PrCommitted c)) \<Rightarrow> (s1, Inr ())
      | (s1, Inr prepared) \<Rightarrow>
          let missing = (case prepared of PrReceiving ids \<Rightarrow> ids | _ \<Rightarrow> []);
              tid = mf_transferId (pt_manifest pkg) in
          and_then (stage_members env now busy tid missing (pt_members pkg) s1) (\<lambda>u s2.
            case status env tid (pt_manifestDigest pkg) s2 of
              Inl e \<Rightarrow> (s2, Inl (JournalError e))
            | Inr st \<Rightarrow> if st \<noteq> Prepared \<and> \<not> (\<exists>c. st = Committed c) then (s2, Inl PackageIncomplete) else (s2, Inr ())))"

text \<open>
  C40. A member without bytes can never be staged: the manifest schema allows an empty artifact
  source, but its one chunk carries the text of no bytes, which the chunk schema refuses, so the
  call throws and nothing is written.
\<close>

theorem empty_member_cannot_be_staged:
  "stageMember env now busy tid memberId [] s = (s, Inl (JournalError ParseError)) \<and>
   sessionTransferMemberSchema \<lparr>tm_memberId = ''artifact-source-0'', tm_digest = ''sha256:'' @ replicate 64 (CHR ''a''),
     tm_byteLength = 0, tm_kind = ArtifactSourceMember [65]\<rparr> \<noteq> None"
proof
  show "stageMember env now busy tid memberId [] s = (s, Inl (JournalError ParseError))"
    by (simp add: stageMember_def stage_chunk_def acceptMember_def transferMemberParamsSchema_def transferChunkSchema_def
        wire_chunk_def canonicalBase64DecodedByteLength_empty)
  have "tagged_hex ''sha256:'' 64 (''sha256:'' @ replicate 64 (CHR ''a''))"
    unfolding tagged_hex_replicate by (simp add: hex_lower_def)
  then show "sessionTransferMemberSchema \<lparr>tm_memberId = ''artifact-source-0'', tm_digest = ''sha256:'' @ replicate 64 (CHR ''a''),
     tm_byteLength = 0, tm_kind = ArtifactSourceMember [65]\<rparr> \<noteq> None"
    by (simp only: sessionTransferMemberSchema_def sha256DigestSchema_def)
       (simp add: sessionTransferMemberIdSchema_def head_tail_def lower_alpha_def digit_char_def maximumTransferBytes_def
          trimmed_text_def js_trim_def js_whitespace_def)
qed

section \<open>Staging delivers the bytes\<close>

lemma wire_chunk_valid:
  assumes "transferIdSchema tid" "sessionTransferMemberIdSchema i" "b \<noteq> []" "length b \<le> transferMemberChunkBytes"
    and "final \<or> length b = transferMemberChunkBytes"
  shows "transferMemberParamsSchema (wire_chunk tid i q b final client)"
proof -
  have "length (b64_encode b) \<le> maximumTransferChunkEncodedCharacters"
    using assms(4) by (simp add: length_b64_encode maximumTransferChunkEncodedCharacters_def transferMemberChunkBytes_def)
  then show ?thesis
    using assms by (auto simp: transferMemberParamsSchema_def transferChunkSchema_def wire_chunk_def
        canonicalBase64DecodedByteLength_encode maximumTransferChunkBytes_def transferMemberChunkBytes_def)
qed

text \<open>The journal of the transfer as staging finds it between two chunks of one member.\<close>

definition staging :: "transfer_env \<Rightarrow> string \<Rightarrow> transfer_manifest \<Rightarrow> string \<Rightarrow> (string, byte list) jsmap \<Rightarrow> transfers \<Rightarrow> bool" where
  "staging env tid m d files s \<longleftrightarrow> transfers_ok env s \<and> (\<exists>j. map_of s tid = Some j \<and> j_manifest j = m \<and>
     j_manifestDigest j = d \<and> j_status j = Receiving \<and> j_members j = files)"

lemma staging_touch: "staging env tid m d files s \<Longrightarrow> staging env tid m d files (update_journal tid (\<lambda>j. j\<lparr>j_activity := a\<rparr>) s)"
  by (auto simp: staging_def map_of_update_journal intro: transfers_ok_update)

lemma staging_set_dir:
  assumes "staging env tid m d files s" "dir_ok env m (memberKey env i) cs"
  shows "staging env tid m d files (set_chunk_dir env tid i cs s)"
  using assms by (auto simp: staging_def map_of_set_chunk_dir intro!: set_chunk_dir_ok)

lemma chunk_dir_touch [simp]: "chunk_dir env tid i (update_journal tid (\<lambda>j. j\<lparr>j_activity := a\<rparr>) s) = chunk_dir env tid i s"
  by (cases "map_of s tid") (simp_all add: chunk_dir_def map_of_update_journal)

lemma chunk_dir_set_dir:
  "staging env tid m d files s \<Longrightarrow> chunk_dir env tid i (set_chunk_dir env tid i' cs s) =
     (if memberKey env i = memberKey env i' then cs else chunk_dir env tid i s)"
  by (auto simp: staging_def chunk_dir_def map_of_set_chunk_dir map_of_jm_set)

text \<open>What \<open>acceptMember\<close> does with the next chunk of a member that is still missing.\<close>

lemma accept_next_chunk:
  assumes st: "staging env tid m d files s" and cf: "collision_free env"
    and mb: "mb \<in> set (mf_members m)" and gone: "map_of files (memberKey env (tm_memberId mb)) = None"
    and b: "b \<noteq> []" "length b \<le> transferMemberChunkBytes" "final \<or> length b = transferMemberChunkBytes"
    and cs: "chunk_dir env tid (tm_memberId mb) s = cs" "\<And>c. c \<in> set cs \<Longrightarrow> \<not> cf_final c"
    and len: "if final then int (chunk_bytes cs + length b) = tm_byteLength mb else int (chunk_bytes cs + length b) < tm_byteLength mb"
    and t: "0 \<le> t"
  defines "s1 \<equiv> set_chunk_dir env tid (tm_memberId mb) cs (update_journal tid (\<lambda>j. j\<lparr>j_activity := Some t\<rparr>) s)"
    and "chunk \<equiv> \<lparr>cf_sequence = int (length cs), cf_final = final, cf_bytes = b\<rparr>"
  defines "s2 \<equiv> set_chunk_dir env tid (tm_memberId mb) (cs @ [chunk]) s1"
  shows "staging env tid m d files s2 \<and> dir_ok env m (memberKey env (tm_memberId mb)) (cs @ [chunk]) \<and>
    acceptMember env (Some t) False (wire_chunk tid (tm_memberId mb) (length cs) b final client) s =
      (if final then finish_member env (Some t) m mb (int (length cs)) (cs @ [chunk]) s2
       else (s2, Inr (MrReceiving (int (length cs) + 1))))"
proof -
  let ?i = "tm_memberId mb" and ?c = "wire_chunk tid (tm_memberId mb) (length cs) b final client"
  let ?s0 = "update_journal tid (\<lambda>j. j\<lparr>j_activity := Some t\<rparr>) s"
  from st obtain j where ok: "transfers_ok env s" and j: "map_of s tid = Some j" "j_manifest j = m" "j_status j = Receiving"
    "j_members j = files" by (auto simp: staging_def)
  have jok: "journal_ok env tid j" using ok j by (simp add: transfers_ok_def)
  note sI = stored_I [OF ok j(1)]
  have tid: "mf_transferId m = tid" using jok j by (simp add: journal_ok_def stored_ok_def)
  have parsed: "manifest_parse env m = Some m" using jok j by (simp add: journal_ok_def stored_ok_def)
  have mid: "sessionTransferMemberIdSchema ?i"
    using manifest_schema_Some(5) [OF parsed] mb
    by (auto simp: list_all_iff sessionTransferMemberSchema_def split: if_splits)
  have found: "find_member ?i (mf_members m) = Some mb"
    unfolding find_member_def
  proof (rule find_unique)
    show "y = mb" if "y \<in> set (mf_members m)" "tm_memberId y = ?i" for y
      using manifest_schema_Some(2) [OF parsed] that mb by (auto simp: manifest_rules_def distinct_map inj_on_def)
  qed (use mb in auto)
  have st0: "staging env tid m d files ?s0" by (rule staging_touch [OF st])
  have dir: "dir_ok env m (memberKey env ?i) cs" using chunk_dir_ok [OF ok j(1), of ?i] cs j by simp
  have st1: "staging env tid m d files s1" unfolding s1_def by (rule staging_set_dir [OF st0 dir])
  have dir2: "dir_ok env m (memberKey env ?i) (cs @ [chunk])"
    using cs(2) b len by (intro dir_ok_snoc [OF dir _ mb refl]) (auto simp: chunk_def)
  have st2: "staging env tid m d files s2" unfolding s2_def by (rule staging_set_dir [OF st1 dir2])
  have dirs: "chunk_dir env tid ?i ?s0 = cs" "chunk_dir env tid ?i s1 = cs"
    using cs(1) chunk_dir_set_dir [OF st0] by (simp_all add: s1_def)
  have cont: "chunks_contiguous cs" using dir by (simp add: dir_ok_def)
  have recv: "receive_chunk env (Some t) m mb ?c ?s0 =
      (if final then finish_member env (Some t) m mb (int (length cs)) (cs @ [chunk]) s2
       else (s2, Inr (MrReceiving (int (length cs) + 1))))"
  proof -
    have "\<not> list_ex (\<lambda>c. cf_sequence c = int (length cs) \<and> cf_final c = final) cs"
      using cont by (auto simp: list_ex_iff chunks_contiguous_nth in_set_conv_nth)
    then have "append_chunk env (Some t) m mb cs b (int (length cs)) final s1 =
      (if final then finish_member env (Some t) m mb (int (length cs)) (cs @ [chunk]) s2
       else (s2, Inr (MrReceiving (int (length cs) + 1))))"
      using len by (cases final) (simp_all add: append_chunk_def tid dirs chunk_def s2_def chunk_bytes_def Let_def)
    then show ?thesis
      unfolding receive_chunk_def Let_def tid dirs(1) s1_def [symmetric] dirs(2) read_chunks_contiguous [OF cont]
      by (simp add: read_then_def wire_chunk_def b64_decode_encode)
  qed
  have "acceptMember env (Some t) False ?c s = receive_chunk env (Some t) m mb ?c ?s0"
    using wire_chunk_valid [OF sI(2) mid b] t found gone j
    by (simp add: acceptMember_def acceptReservedMember_def sI read_then_def touch_def and_then_def wire_chunk_def
        members_of_def map_of_update_journal verifyMember_def)
  with recv st2 dir2 show ?thesis by simp
qed

lemma finish_member_completes:
  assumes st: "staging env tid m d files s" and cf: "collision_free env"
    and mb: "mb \<in> set (mf_members m)" and gone: "map_of files (memberKey env (tm_memberId mb)) = None"
    and bytes: "concat (map cf_bytes cs) = bytes" "file_matches env mb bytes" and t: "0 \<le> t"
  defines "files' \<equiv> jm_set (memberKey env (tm_memberId mb)) bytes files"
    and "missing \<equiv> filter (\<lambda>x. map_of (jm_set (memberKey env (tm_memberId mb)) bytes files) (memberKey env (tm_memberId x)) = None) (mf_members m)"
  shows "\<exists>s' j. finish_member env (Some t) m mb q cs s = (s', Inr (if missing = [] then MrPrepared else MrMemberReceived)) \<and>
     transfers_ok env s' \<and> map_of s' tid = Some j \<and> j_manifest j = m \<and> j_manifestDigest j = d \<and> j_members j = files' \<and>
     j_status j = (if missing = [] then Prepared else Receiving) \<and>
     (\<forall>i. memberKey env i \<noteq> memberKey env (tm_memberId mb) \<longrightarrow> chunk_dir env tid i s' = chunk_dir env tid i s)"
proof -
  let ?k = "memberKey env (tm_memberId mb)"
  from st obtain j where ok: "transfers_ok env s" and j: "map_of s tid = Some j" "j_manifest j = m" "j_manifestDigest j = d"
    "j_status j = Receiving" "j_members j = files" by (auto simp: staging_def)
  have tid: "mf_transferId m = tid" using ok j by (auto simp: transfers_ok_def journal_ok_def stored_ok_def)
  let ?s1 = "update_journal tid (\<lambda>j. j\<lparr>j_members := jm_set ?k bytes (j_members j)\<rparr>) s"
  let ?s2 = "remove_chunk_dir env tid (tm_memberId mb) ?s1"
  let ?j2 = "j\<lparr>j_members := files', j_chunks := jm_delete ?k (j_chunks j)\<rparr>"
  have pub: "publishRetainedMember env tid mb cs s = (?s1, Inr True)"
    using gone j bytes by (simp add: publishRetainedMember_def verifyMember_def members_of_Some file_matches_def Let_def)
  have ok1: "transfers_ok env ?s1" using publishRetainedMember_ok [OF ok j(1), of mb cs] mb j pub by simp
  have ok2: "transfers_ok env ?s2" by (rule remove_chunk_dir_ok [OF ok1])
  have j2: "map_of ?s2 tid = Some ?j2"
    using j by (simp add: map_of_remove_chunk_dir map_of_update_journal files'_def)
  have jok2: "journal_ok env tid ?j2" using ok2 j2 by (simp add: transfers_ok_def)
  have miss: "missingMembers env (members_of tid ?s2) (mf_members m) = Inr (map tm_memberId missing)"
    using missingMembers_ok [OF jok2 cf, of "mf_members m"] j j2 by (simp add: members_of_Some missing_def files'_def)
  have dirs: "chunk_dir env tid i ?s2 = chunk_dir env tid i s" if "memberKey env i \<noteq> ?k" for i
    using j2 j that by (simp add: chunk_dir_def map_of_jm_delete)
  have fin: "finish_member env (Some t) m mb q cs s = completedMemberResult env (Some t) m (tm_memberId mb) ?s1"
    by (simp add: finish_member_def tid pub and_then_def)
  show ?thesis
  proof (cases "missing = []")
    case False
    then have "finish_member env (Some t) m mb q cs s = (?s2, Inr MrMemberReceived)"
      by (simp add: fin completedMemberResult_def tid miss read_then_def Let_def)
    with False ok2 j2 j dirs show ?thesis by (intro exI [of _ ?s2] exI [of _ ?j2]) simp
  next
    case True
    let ?s3 = "update_journal tid (\<lambda>j. j\<lparr>j_activity := Some t\<rparr>) (update_journal tid (\<lambda>j. j\<lparr>j_status := Prepared\<rparr>) ?s2)"
    let ?j3 = "?j2\<lparr>j_status := Prepared, j_activity := Some t\<rparr>"
    have w: "writeStatus (Some t) tid Prepared ?s2 = (?s3, Inr ())"
      using t by (simp add: writeStatus_def transferStatusResultSchema_def touch_def)
    have ok3: "transfers_ok env ?s3"
      using writeStatus_ok [OF ok2, of tid Prepared "Some t"] w miss True j2 j by (simp add: members_of_Some)
    have j3: "map_of ?s3 tid = Some ?j3" using j2 by (simp add: map_of_update_journal)
    have "chunk_dir env tid i ?s3 = chunk_dir env tid i s" if "memberKey env i \<noteq> ?k" for i
      using dirs [OF that] j2 by (simp add: chunk_dir_def map_of_update_journal)
    moreover have "finish_member env (Some t) m mb q cs s = (?s3, Inr MrPrepared)"
      using True by (simp add: fin completedMemberResult_def tid miss read_then_def Let_def w and_then_def)
    ultimately show ?thesis using True ok3 j3 j by (intro exI [of _ ?s3] exI [of _ ?j3]) simp
  qed
qed

text \<open>The journal between two members, with these files completed.\<close>

definition all_present :: "transfer_env \<Rightarrow> transfer_manifest \<Rightarrow> (string, byte list) jsmap \<Rightarrow> bool" where
  "all_present env m files \<longleftrightarrow> (\<forall>x\<in>set (mf_members m). map_of files (memberKey env (tm_memberId x)) \<noteq> None)"

definition delivered :: "transfer_env \<Rightarrow> string \<Rightarrow> transfer_manifest \<Rightarrow> string \<Rightarrow> (string, byte list) jsmap \<Rightarrow> transfers \<Rightarrow> bool" where
  "delivered env tid m d files s \<longleftrightarrow> transfers_ok env s \<and> (\<exists>j. map_of s tid = Some j \<and> j_manifest j = m \<and>
     j_manifestDigest j = d \<and> j_members j = files \<and> j_status j = (if all_present env m files then Prepared else Receiving))"

lemma staging_delivered: "mb \<in> set (mf_members m) \<Longrightarrow> map_of files (memberKey env (tm_memberId mb)) = None \<Longrightarrow>
    staging env tid m d files s \<longleftrightarrow> delivered env tid m d files s"
  by (auto simp: staging_def delivered_def all_present_def)

lemma stage_chunks_complete:
  assumes "staging env tid m d files s" and cf: "collision_free env"
    and mb: "mb \<in> set (mf_members m)" and gone: "map_of files (memberKey env (tm_memberId mb)) = None"
    and "chunk_dir env tid (tm_memberId mb) s = cs" "\<And>c. c \<in> set cs \<Longrightarrow> \<not> cf_final c" "length cs = q"
    and "concat (map cf_bytes cs) @ rest = bytes" "rest \<noteq> []" and match: "file_matches env mb bytes"
    and clock: "\<And>n. \<exists>t\<ge>0. now n = Some t" "\<And>n. \<not> busy n"
  shows "\<exists>s'. stage_chunks env now busy tid (tm_memberId mb) q rest s = (s', Inr ()) \<and>
    delivered env tid m d (jm_set (memberKey env (tm_memberId mb)) bytes files) s' \<and>
    (\<forall>i. memberKey env i \<noteq> memberKey env (tm_memberId mb) \<longrightarrow> chunk_dir env tid i s' = chunk_dir env tid i s)"
  using assms(1,5-9)
proof (induction "length rest" arbitrary: rest s cs q rule: less_induct)
  case less
  let ?i = "tm_memberId mb" and ?N = transferMemberChunkBytes
  let ?b = "take ?N rest" and ?final = "length rest \<le> ?N"
  obtain t where t: "now q = Some t" "0 \<le> t" using clock(1) by blast
  have N: "0 < ?N" by (simp add: transferMemberChunkBytes_def)
  have total: "int (chunk_bytes cs + length rest) = tm_byteLength mb"
    using match less.prems(5) by (auto simp: file_matches_def length_concat_chunks [symmetric])
  let ?s1 = "set_chunk_dir env tid ?i cs (update_journal tid (\<lambda>j. j\<lparr>j_activity := Some t\<rparr>) s)"
  let ?chunk = "\<lparr>cf_sequence = int (length cs), cf_final = ?final, cf_bytes = ?b\<rparr>"
  let ?s2 = "set_chunk_dir env tid ?i (cs @ [?chunk]) ?s1"
  have step: "staging env tid m d files ?s2 \<and> dir_ok env m (memberKey env ?i) (cs @ [?chunk]) \<and>
      acceptMember env (Some t) False (wire_chunk tid ?i (length cs) ?b ?final Desktop) s =
        (if ?final then finish_member env (Some t) m mb (int (length cs)) (cs @ [?chunk]) ?s2
         else (?s2, Inr (MrReceiving (int (length cs) + 1))))"
    using less.prems N total t by (intro accept_next_chunk [OF less.prems(1) cf mb gone]) auto
  note st2 = step [THEN conjunct1]
  have st1: "staging env tid m d files ?s1"
    using step chunk_dir_ok [of env s tid _ ?i] less.prems(1,2) by (intro staging_set_dir staging_touch) (auto simp: staging_def)
  have dirs: "chunk_dir env tid i ?s2 = (if memberKey env i = memberKey env ?i then cs @ [?chunk] else chunk_dir env tid i s)" for i
    using chunk_dir_set_dir [OF st1] chunk_dir_set_dir [OF staging_touch [OF less.prems(1)]] by simp
  show ?case
  proof (cases ?final)
    case True
    have "concat (map cf_bytes (cs @ [?chunk])) = bytes" using True less.prems(5) by simp
    from finish_member_completes [OF st2 cf mb gone this match t(2), of "int (length cs)"] obtain s' j r where
      fin: "finish_member env (Some t) m mb (int (length cs)) (cs @ [?chunk]) ?s2 = (s', Inr r)" "r = MrPrepared \<or> r = MrMemberReceived"
      and del: "delivered env tid m d (jm_set (memberKey env ?i) bytes files) s'"
      and d': "\<forall>i. memberKey env i \<noteq> memberKey env ?i \<longrightarrow> chunk_dir env tid i s' = chunk_dir env tid i ?s2"
      by (auto simp: delivered_def all_present_def filter_empty_conv)
    have "stage_chunk env now busy tid ?i q ?b True s = (s', Inr ())"
      using step fin t clock(2) less.prems(4) True by (auto simp: stage_chunk_def)
    then have "stage_chunks env now busy tid ?i q rest s = (s', Inr ())"
      using True less.prems(6) by (subst stage_chunks.simps) (simp add: Let_def and_then_def stage_chunks.simps)
    with del d' dirs show ?thesis by auto
  next
    case False
    let ?rest = "drop ?N rest"
    have "stage_chunk env now busy tid ?i q ?b False s = (?s2, Inr ())"
      using step t clock(2) less.prems(4) False by (simp add: stage_chunk_def)
    then have run: "stage_chunks env now busy tid ?i q rest s = stage_chunks env now busy tid ?i (q + 1) ?rest ?s2"
      using False less.prems(6) by (subst stage_chunks.simps) (simp add: Let_def and_then_def)
    have "\<exists>s'. stage_chunks env now busy tid ?i (q + 1) ?rest ?s2 = (s', Inr ()) \<and>
        delivered env tid m d (jm_set (memberKey env ?i) bytes files) s' \<and>
        (\<forall>i. memberKey env i \<noteq> memberKey env ?i \<longrightarrow> chunk_dir env tid i s' = chunk_dir env tid i ?s2)"
      using False N less.prems dirs by (intro less.hyps [OF _ st2, where cs = "cs @ [?chunk]"]) auto
    with run dirs show ?thesis by auto
  qed
qed

definition package_files :: "transfer_env \<Rightarrow> (transfer_member \<times> byte list) list \<Rightarrow> (string, byte list) jsmap \<Rightarrow> (string, byte list) jsmap" where
  "package_files env ps files = fold (\<lambda>(mb, b). jm_set (memberKey env (tm_memberId mb)) b) ps files"

lemma package_files_Cons [simp]:
  "package_files env ((mb, b) # ps) files = package_files env ps (jm_set (memberKey env (tm_memberId mb)) b files)"
  by (simp add: package_files_def)

lemma package_files_other:
  "k \<notin> (\<lambda>p. memberKey env (tm_memberId (fst p))) ` set ps \<Longrightarrow> map_of (package_files env ps files) k = map_of files k"
  by (induction ps arbitrary: files) (auto simp: map_of_jm_set package_files_def)

lemma package_files_get:
  assumes "distinct (map (tm_memberId \<circ> fst) ps)" "collision_free env" "(mb, b) \<in> set ps"
  shows "map_of (package_files env ps files) (memberKey env (tm_memberId mb)) = Some b"
  using assms
proof (induction ps arbitrary: files)
  case (Cons p ps)
  obtain x c where p: "p = (x, c)" by force
  show ?case
  proof (cases "(mb, b) \<in> set ps")
    case True
    then show ?thesis using Cons by (simp add: p)
  next
    case False
    then have "memberKey env (tm_memberId mb) \<notin> (\<lambda>p. memberKey env (tm_memberId (fst p))) ` set ps" "x = mb" "c = b"
      using Cons.prems by (auto simp: p collision_free_def inj_eq image_iff)
    then show ?thesis by (simp add: p package_files_other map_of_jm_set)
  qed
qed simp

lemma stage_members_complete:
  assumes cf: "collision_free env" and clock: "\<And>i n. \<exists>t\<ge>0. now i n = Some t" "\<And>i n. \<not> busy i n"
    and "delivered env tid m d files s"
    and ps: "distinct (map (tm_memberId \<circ> fst) ps)" "list_all (\<lambda>(mb, b). mb \<in> set (mf_members m) \<and> tm_memberId mb \<in> set missing
        \<and> b \<noteq> [] \<and> file_matches env mb b) ps"
    and fresh: "list_all (\<lambda>(mb, b). map_of files (memberKey env (tm_memberId mb)) = None \<and> chunk_dir env tid (tm_memberId mb) s = []) ps"
  shows "\<exists>s'. stage_members env now busy tid missing ps s = (s', Inr ()) \<and> delivered env tid m d (package_files env ps files) s'"
  using assms(4-7)
proof (induction ps arbitrary: files s)
  case Nil
  then show ?case by (simp add: package_files_def)
next
  case (Cons p ps)
  obtain mb b where p: "p = (mb, b)" by force
  have mb: "mb \<in> set (mf_members m)" "tm_memberId mb \<in> set missing" "b \<noteq> []" "file_matches env mb b"
      "map_of files (memberKey env (tm_memberId mb)) = None" "chunk_dir env tid (tm_memberId mb) s = []"
    using Cons.prems by (simp_all add: p)
  have st: "staging env tid m d files s" using Cons.prems(1) staging_delivered [OF mb(1,5)] by simp
  from stage_chunks_complete [OF st cf mb(1,5,6), of 0 b b "now (tm_memberId mb)" "busy (tm_memberId mb)"] mb clock obtain s1 where
    run: "stage_chunks env (now (tm_memberId mb)) (busy (tm_memberId mb)) tid (tm_memberId mb) 0 b s = (s1, Inr ())"
    and del: "delivered env tid m d (jm_set (memberKey env (tm_memberId mb)) b files) s1"
    and dirs: "\<And>i. memberKey env i \<noteq> memberKey env (tm_memberId mb) \<Longrightarrow> chunk_dir env tid i s1 = chunk_dir env tid i s"
    by auto
  have other: "memberKey env (tm_memberId x) \<noteq> memberKey env (tm_memberId mb)" if "(x, c) \<in> set ps" for x c
  proof -
    have "tm_memberId x \<noteq> tm_memberId mb" using Cons.prems(2) that by (force simp: p)
    then show ?thesis using cf by (simp add: collision_free_def inj_eq)
  qed
  have "\<exists>s'. stage_members env now busy tid missing ps s1 = (s', Inr ()) \<and>
      delivered env tid m d (package_files env ps (jm_set (memberKey env (tm_memberId mb)) b files)) s'"
    using Cons.prems other dirs by (intro Cons.IH [OF del]) (auto simp: p list_all_iff map_of_jm_set)
  then show ?case using run mb(2,3) by (simp add: p stageMember_def and_then_def)
qed

text \<open>
  C9. Staging works end to end. For a package whose members are not empty, have distinct ids and
  match the lengths and digests of its manifest, staging into a journal that does not know the
  transfer returns normally, the transfer is then prepared, and reading any member gives back
  exactly the bytes that were packaged.
\<close>

theorem staging_delivers_package:
  assumes cf: "collision_free env" and ok: "transfers_ok env s"
    and m: "manifest_parse env (pt_manifest pkg) = Some (pt_manifest pkg)"
    and d: "manifest_digest env (pt_manifest pkg) = Some (pt_manifestDigest pkg)"
    and fresh: "map_of s (mf_transferId (pt_manifest pkg)) = None"
    and members: "map fst (pt_members pkg) = mf_members (pt_manifest pkg)"
      "list_all (\<lambda>(mb, b). b \<noteq> [] \<and> file_matches env mb b) (pt_members pkg)"
    and clock: "0 \<le> t0" "\<And>i n. \<exists>t\<ge>0. now i n = Some t" "\<And>i n. \<not> busy i n"
  shows "\<exists>s'. stageOutgoingSessionTransferPackage env (Some t0) now busy pkg s = (s', Inr ()) \<and>
    status env (mf_transferId (pt_manifest pkg)) (pt_manifestDigest pkg) s' = Inr Prepared \<and>
    list_all (\<lambda>(mb, b). readMember env (mf_transferId (pt_manifest pkg)) (pt_manifestDigest pkg) (tm_memberId mb) s' = Inr b) (pt_members pkg)"
proof -
  let ?m = "pt_manifest pkg" and ?d = "pt_manifestDigest pkg" and ?ps = "pt_members pkg"
  let ?t = "mf_transferId ?m"
  have dist: "distinct (map tm_memberId (mf_members ?m))" and ne: "mf_members ?m \<noteq> []"
    using manifest_schema_Some(2) [OF m] by (auto simp: manifest_rules_def find_member_def split: option.splits)
  let ?j = "new_journal (Some t0) ?d ?m"
  let ?s1 = "publish_journal (Some t0) ?d ?m s"
  let ?s2 = "update_journal ?t (\<lambda>j. j\<lparr>j_activity := Some t0\<rparr>) ?s1"
  have ok1: "transfers_ok env ?s1" by (rule publish_journal_ok [OF ok m d])
  have j1: "map_of ?s1 ?t = Some ?j" using fresh by (simp add: publish_journal_def map_of_jm_set)
  have ok2: "transfers_ok env ?s2" using touch_ok [OF ok1, of "Some t0" ?t] clock(1) by (simp add: touch_def)
  have j2: "map_of ?s2 ?t = Some ?j" using j1 by (simp add: map_of_update_journal new_journal_def)
  have del: "delivered env ?t ?m ?d [] ?s2"
    using ok2 j2 ne by (auto simp: delivered_def all_present_def new_journal_def neq_Nil_conv)
  have "missingMembers env [] ms = Inr (map tm_memberId ms)" for ms
    by (induction ms) (simp_all add: verifyMember_def)
  then have prep: "prepare env (Some t0) ?m ?d s = (?s2, Inr (PrReceiving (map tm_memberId (mf_members ?m))))"
    using clock(1) ne stored_I [OF ok1 j1] stored_I [OF ok2 j2] j2
    by (simp add: prepare_def m d read_then_def touch_def and_then_def prepare_by_status_def prepare_active_def members_of_def
        new_journal_def)
  have in_m: "mb \<in> set (mf_members ?m)" if "(mb, b) \<in> set ?ps" for mb b
    using that members(1) by (metis fst_conv image_eqI set_map)
  have ids: "distinct (map (tm_memberId \<circ> fst) ?ps)"
    using dist members(1) by (metis map_map)
  have "\<exists>s'. stage_members env now busy ?t (map tm_memberId (mf_members ?m)) ?ps ?s2 = (s', Inr ()) \<and>
      delivered env ?t ?m ?d (package_files env ?ps []) s'"
    using members(2) in_m clock(2,3) j2 ids
    by (intro stage_members_complete [OF cf _ _ del]) (auto simp: list_all_iff chunk_dir_def new_journal_def)
  then obtain s3 where run: "stage_members env now busy ?t (map tm_memberId (mf_members ?m)) ?ps ?s2 = (s3, Inr ())"
    and del3: "delivered env ?t ?m ?d (package_files env ?ps []) s3" by blast
  have get: "map_of (package_files env ?ps []) (memberKey env (tm_memberId mb)) = Some b" if "(mb, b) \<in> set ?ps" for mb b
    by (rule package_files_get [OF ids cf that])
  have "all_present env ?m (package_files env ?ps [])"
    unfolding all_present_def members(1) [symmetric] using get by fastforce
  with del3 obtain j where ok3: "transfers_ok env s3" and j3: "map_of s3 ?t = Some j" "j_manifest j = ?m" "j_manifestDigest j = ?d"
    "j_members j = package_files env ?ps []" "j_status j = Prepared" by (auto simp: delivered_def)
  note sI = stored_I [OF ok3 j3(1)]
  have status: "status env ?t ?d s3 = Inr Prepared" using sI j3 by (simp add: status_def)
  have read: "readMember env ?t ?d (tm_memberId mb) s3 = Inr b" if p: "(mb, b) \<in> set ?ps" for mb b
  proof -
    have "find_member (tm_memberId mb) (mf_members ?m) = Some mb"
      unfolding find_member_def using in_m [OF p] dist
      by (intro find_unique) (auto simp: distinct_map inj_on_def)
    moreover have "verifyMember env (j_members j) mb = Inr ()"
      using get [OF p] members(2) p j3(4) by (auto simp: verifyMember_Inr list_all_iff)
    ultimately show ?thesis
      using get [OF p] sI j3 by (simp add: readMember_def memberPath_def manifest_def members_of_Some)
  qed
  show ?thesis
    using prep run status read
    by (intro exI [of _ s3]) (auto simp: stageOutgoingSessionTransferPackage_def and_then_def list_all_iff)
qed

section \<open>A concrete package\<close>

definition sample_package :: packaged_transfer where
  "sample_package = \<lparr>pt_manifest = sample_manifest,
     pt_manifestDigest = the (manifest_digest sample_transfer_env sample_manifest),
     pt_members = [(hd (mf_members sample_manifest), [1, 2, 3])]\<rparr>"

lemma sample_package_ok:
  "manifest_parse sample_transfer_env (pt_manifest sample_package) = Some (pt_manifest sample_package)"
  "manifest_digest sample_transfer_env (pt_manifest sample_package) = Some (pt_manifestDigest sample_package)"
  "map fst (pt_members sample_package) = mf_members (pt_manifest sample_package)"
  "list_all (\<lambda>(mb, b). b \<noteq> [] \<and> file_matches sample_transfer_env mb b) (pt_members sample_package)"
proof -
  have p: "manifest_parse sample_transfer_env sample_manifest = Some sample_manifest"
    by (rule sample_manifest_parsed) (simp add: sample_transfer_env_def)
  then show "manifest_parse sample_transfer_env (pt_manifest sample_package) = Some (pt_manifest sample_package)"
    "manifest_digest sample_transfer_env (pt_manifest sample_package) = Some (pt_manifestDigest sample_package)"
    by (simp_all add: sample_package_def sessionTransferManifestDigest_def)
  show "map fst (pt_members sample_package) = mf_members (pt_manifest sample_package)"
    "list_all (\<lambda>(mb, b). b \<noteq> [] \<and> file_matches sample_transfer_env mb b) (pt_members sample_package)"
    by (simp_all add: sample_package_def sample_manifest_def file_matches_def sha256_of_def sample_transfer_env_def)
qed

lemma staging_sample:
  "0 \<le> (7::int)" "\<And>(i::string) (n::nat). \<exists>t\<ge>0. (\<lambda>i n. Some (7::int)) i n = Some t" "\<And>(i::string) (n::nat). \<not> (\<lambda>i n. False) i n"
  by simp_all

theorem staging_delivers_package_witness:
  "status sample_transfer_env (mf_transferId sample_manifest) (pt_manifestDigest sample_package)
     (fst (stageOutgoingSessionTransferPackage sample_transfer_env (Some 7) (\<lambda>i n. Some 7) (\<lambda>i n. False) sample_package [])) = Inr Prepared"
proof -
  have "map_of [] (mf_transferId (pt_manifest sample_package)) = None" by simp
  from staging_delivers_package [OF sample_collision_free empty_transfers_ok sample_package_ok(1,2) this sample_package_ok(3,4) staging_sample]
  show ?thesis by (auto simp: sample_package_def)
qed

end
