(* ===== verification/Plan_Schema.thy ===== *)
theory Plan_Schema
  imports Transfer_Manifest
begin

text \<open>
  The working plan as the wire protocol has it (packages/protocol/src/schema.ts 526-530 and
  804-964, rpc.ts 1497-1560): its steps, the queued edit of a person, the provider it was
  delivered to, and the schemas every operation of apps/daemon/src/working-plan.ts parses its
  result with. A schema is a function to an option: \<^const>\<open>None\<close> is the thrown \<open>ZodError\<close>, and
  \<^term>\<open>Some v\<close> the parsed value, which differs from the input where a string is trimmed.

  What is not defined here is a field of \<open>plan_env\<close>: the redaction of durable text
  (secret-redaction.ts), the UUID and ISO date checks of Zod, and the factory of fresh ids, the
  \<open>n\<close>-th call of which is \<open>createId kind n\<close>.
\<close>

section \<open>Data\<close>

datatype plan_status = Pending | In_Progress | Completed

datatype plan_blocker = Approval js_string

record plan_step =
  st_id :: js_string
  st_text :: js_string
  st_status :: plan_status
  st_blocker :: "plan_blocker option"

record structure_step =
  sx_id :: js_string
  sx_text :: js_string

record attribution =
  at_client :: client_kind
  at_connectionId :: string
  at_clientId :: "js_string option"

datatype edit_status = Queued | Conflicted

record pending_edit =
  pe_id :: js_string
  pe_basedOn :: nat
  pe_baseSteps :: "structure_step list"
  pe_draftSteps :: "structure_step list"
  pe_status :: edit_status
  pe_submittedAt :: string
  pe_submittedBy :: attribution

record provider_sync =
  sy_provider :: js_string
  sy_model :: js_string
  sy_providerThreadId :: js_string
  sy_structureRevision :: nat
  sy_deliveredAt :: string

record working_plan =
  wp_sessionId :: js_string
  wp_revision :: nat
  wp_structureRevision :: nat
  wp_steps :: "plan_step list"
  wp_providerSync :: "provider_sync option"
  wp_pendingEdit :: "pending_edit option"
  wp_createdAt :: string
  wp_updatedAt :: string

datatype id_kind = EditId | ReceiptId | StepId

text \<open>A value of type \<open>unknown\<close>: a string, or any other value, which only the redaction reads.\<close>

datatype js_value = JsString js_string | JsOther nat

record plan_env =
  redactDurableText :: "js_value \<Rightarrow> js_string"
  uuidSchema :: "string \<Rightarrow> bool"
  dateTimeSchema :: "string \<Rightarrow> bool"
  createId :: "id_kind \<Rightarrow> nat \<Rightarrow> js_string"

section \<open>The schemas\<close>

definition maximumWorkingPlanSteps :: nat where
  "maximumWorkingPlanSteps = 128"

definition maximumWorkingPlanStepTextLength :: nat where
  "maximumWorkingPlanStepTextLength = 4096"

definition maximumWorkingPlanTextLength :: nat where
  "maximumWorkingPlanTextLength = 65536"

lemmas plan_limits = maximumWorkingPlanSteps_def maximumWorkingPlanStepTextLength_def maximumWorkingPlanTextLength_def

definition trimmed_max :: "nat \<Rightarrow> js_string \<Rightarrow> js_string option" where
  "trimmed_max n s = (let t = js_trim s in if t \<noteq> [] \<and> length t \<le> n then Some t else None)"

definition workingPlanReferenceSchema :: "js_string \<Rightarrow> js_string option" where
  "workingPlanReferenceSchema = trimmed_max 256"

definition workingPlanStepTextSchema :: "js_string \<Rightarrow> js_string option" where
  "workingPlanStepTextSchema = trimmed_max maximumWorkingPlanStepTextLength"

text \<open>\<open>schema.optional()\<close>: an absent field stays absent.\<close>

fun optional_schema :: "('a \<Rightarrow> 'a option) \<Rightarrow> 'a option \<Rightarrow> 'a option option" where
  "optional_schema f None = Some None"
| "optional_schema f (Some a) = map_option Some (f a)"

fun workingPlanBlockerSchema :: "plan_blocker \<Rightarrow> plan_blocker option" where
  "workingPlanBlockerSchema (Approval a) = map_option Approval (workingPlanReferenceSchema a)"

definition workingPlanStructureStepSchema :: "structure_step \<Rightarrow> structure_step option" where
  "workingPlanStructureStepSchema s =
     Option.bind (workingPlanReferenceSchema (sx_id s)) (\<lambda>i.
     Option.bind (workingPlanStepTextSchema (sx_text s)) (\<lambda>t.
     Some \<lparr>sx_id = i, sx_text = t\<rparr>))"

definition workingPlanStepSchema :: "plan_step \<Rightarrow> plan_step option" where
  "workingPlanStepSchema s =
     Option.bind (workingPlanReferenceSchema (st_id s)) (\<lambda>i.
     Option.bind (workingPlanStepTextSchema (st_text s)) (\<lambda>t.
     Option.bind (optional_schema workingPlanBlockerSchema (st_blocker s)) (\<lambda>b.
     if st_status s = Completed \<and> b \<noteq> None then None
     else Some \<lparr>st_id = i, st_text = t, st_status = st_status s, st_blocker = b\<rparr>)))"

definition text_total :: "('a \<Rightarrow> js_string) \<Rightarrow> 'a list \<Rightarrow> nat" where
  "text_total txt xs = sum_list (map (length \<circ> txt) xs)"

definition validateWorkingPlanStepList :: "('a \<Rightarrow> js_string) \<Rightarrow> ('a \<Rightarrow> js_string) \<Rightarrow> 'a list \<Rightarrow> bool" where
  "validateWorkingPlanStepList i txt xs \<longleftrightarrow>
     distinct (map i xs) \<and> text_total txt xs \<le> maximumWorkingPlanTextLength"

text \<open>\<open>z.array(item).max(n).superRefine(check)\<close>\<close>

definition array_schema :: "('a \<Rightarrow> 'a option) \<Rightarrow> ('a list \<Rightarrow> bool) \<Rightarrow> 'a list \<Rightarrow> 'a list option" where
  "array_schema item check xs =
     (if length xs \<le> maximumWorkingPlanSteps
      then Option.bind (those (map item xs)) (\<lambda>ys. if check ys then Some ys else None) else None)"

definition workingPlanStructureSchema :: "structure_step list \<Rightarrow> structure_step list option" where
  "workingPlanStructureSchema =
     array_schema workingPlanStructureStepSchema (validateWorkingPlanStepList sx_id sx_text)"

definition workingPlanStepsSchema :: "plan_step list \<Rightarrow> plan_step list option" where
  "workingPlanStepsSchema = array_schema workingPlanStepSchema (validateWorkingPlanStepList st_id st_text)"

text \<open>\<open>z.number().int().nonnegative()\<close> on a natural number: Zod 4 integers are safe integers.\<close>

definition safe_nat :: "nat \<Rightarrow> bool" where
  "safe_nat n \<longleftrightarrow> int n \<le> maxSafeInteger"

definition clientIdentityIdSchema :: "js_string \<Rightarrow> js_string option" where
  "clientIdentityIdSchema = trimmed_max 128"

definition workingPlanClientAttributionSchema :: "plan_env \<Rightarrow> attribution \<Rightarrow> attribution option" where
  "workingPlanClientAttributionSchema env a =
     (if uuidSchema env (at_connectionId a)
      then map_option (\<lambda>c. a\<lparr>at_clientId := c\<rparr>) (optional_schema clientIdentityIdSchema (at_clientId a)) else None)"

definition pendingWorkingPlanEditSchema :: "plan_env \<Rightarrow> pending_edit \<Rightarrow> pending_edit option" where
  "pendingWorkingPlanEditSchema env e =
     Option.bind (workingPlanReferenceSchema (pe_id e)) (\<lambda>i.
     Option.bind (workingPlanStructureSchema (pe_baseSteps e)) (\<lambda>base.
     Option.bind (workingPlanStructureSchema (pe_draftSteps e)) (\<lambda>draft.
     Option.bind (workingPlanClientAttributionSchema env (pe_submittedBy e)) (\<lambda>by_client.
     if safe_nat (pe_basedOn e) \<and> dateTimeSchema env (pe_submittedAt e)
     then Some (e\<lparr>pe_id := i, pe_baseSteps := base, pe_draftSteps := draft, pe_submittedBy := by_client\<rparr>)
     else None))))"

definition workingPlanProviderSyncSchema :: "plan_env \<Rightarrow> provider_sync \<Rightarrow> provider_sync option" where
  "workingPlanProviderSyncSchema env y =
     Option.bind (trimmed_max 64 (sy_provider y)) (\<lambda>p.
     Option.bind (trimmed_max 256 (sy_model y)) (\<lambda>m.
     Option.bind (workingPlanReferenceSchema (sy_providerThreadId y)) (\<lambda>t.
     if safe_nat (sy_structureRevision y) \<and> dateTimeSchema env (sy_deliveredAt y)
     then Some (y\<lparr>sy_provider := p, sy_model := m, sy_providerThreadId := t\<rparr>) else None)))"

text \<open>\<open>sameWorkingPlanStructure\<close> and \<open>sameStructure\<close> compare ids and texts position by position.\<close>

abbreviation step_key :: "plan_step \<Rightarrow> js_string \<times> js_string" where
  "step_key s \<equiv> (st_id s, st_text s)"

abbreviation structure_key :: "structure_step \<Rightarrow> js_string \<times> js_string" where
  "structure_key s \<equiv> (sx_id s, sx_text s)"

definition sameWorkingPlanStructure :: "(js_string \<times> js_string) list \<Rightarrow> (js_string \<times> js_string) list \<Rightarrow> bool" where
  "sameWorkingPlanStructure left right \<longleftrightarrow>
     length left = length right \<and> list_all (\<lambda>(l, r). fst r = fst l \<and> snd r = snd l) (zip left right)"

fun pending_consistent :: "nat \<Rightarrow> plan_step list \<Rightarrow> pending_edit option \<Rightarrow> bool" where
  "pending_consistent revision steps None \<longleftrightarrow> True"
| "pending_consistent revision steps (Some e) \<longleftrightarrow>
     (case pe_status e of
        Queued \<Rightarrow> pe_basedOn e = revision
          \<and> sameWorkingPlanStructure (map structure_key (pe_baseSteps e)) (map step_key steps)
      | Conflicted \<Rightarrow> pe_basedOn e < revision)"

fun sync_consistent :: "nat \<Rightarrow> provider_sync option \<Rightarrow> bool" where
  "sync_consistent revision None \<longleftrightarrow> True"
| "sync_consistent revision (Some y) \<longleftrightarrow> sy_structureRevision y \<le> revision"

definition plan_refinement :: "working_plan \<Rightarrow> bool" where
  "plan_refinement p \<longleftrightarrow>
     \<not> (wp_structureRevision p = 0 \<and> 0 < length (wp_steps p))
   \<and> \<not> wp_revision p < wp_structureRevision p
   \<and> sync_consistent (wp_structureRevision p) (wp_providerSync p)
   \<and> pending_consistent (wp_structureRevision p) (wp_steps p) (wp_pendingEdit p)"

definition workingPlanSchema :: "plan_env \<Rightarrow> working_plan \<Rightarrow> working_plan option" where
  "workingPlanSchema env p =
     Option.bind (workingPlanReferenceSchema (wp_sessionId p)) (\<lambda>session.
     Option.bind (workingPlanStepsSchema (wp_steps p)) (\<lambda>steps.
     Option.bind (optional_schema (workingPlanProviderSyncSchema env) (wp_providerSync p)) (\<lambda>sync.
     Option.bind (optional_schema (pendingWorkingPlanEditSchema env) (wp_pendingEdit p)) (\<lambda>pending.
     let q = p\<lparr>wp_sessionId := session, wp_steps := steps, wp_providerSync := sync, wp_pendingEdit := pending\<rparr> in
     if 0 < wp_revision p \<and> safe_nat (wp_revision p) \<and> safe_nat (wp_structureRevision p)
       \<and> dateTimeSchema env (wp_createdAt p) \<and> dateTimeSchema env (wp_updatedAt p) \<and> plan_refinement q
     then Some q else None))))"

section \<open>A plan the schema accepts as it is\<close>

text \<open>
  A stored plan is one the schema parsed, so its strings are trimmed and parsing it again gives
  the same plan. \<open>plan_valid\<close> says so field by field; \<open>workingPlanSchema_Some\<close> below ties it to
  the parser.
\<close>

definition trimmed :: "nat \<Rightarrow> js_string \<Rightarrow> bool" where
  "trimmed n s \<longleftrightarrow> s \<noteq> [] \<and> js_trim s = s \<and> length s \<le> n"

abbreviation ref_ok :: "js_string \<Rightarrow> bool" where
  "ref_ok \<equiv> trimmed 256"

abbreviation text_ok :: "js_string \<Rightarrow> bool" where
  "text_ok \<equiv> trimmed maximumWorkingPlanStepTextLength"

fun blocker_ok :: "plan_blocker option \<Rightarrow> bool" where
  "blocker_ok None \<longleftrightarrow> True"
| "blocker_ok (Some (Approval a)) \<longleftrightarrow> ref_ok a"

definition step_ok :: "plan_step \<Rightarrow> bool" where
  "step_ok s \<longleftrightarrow> ref_ok (st_id s) \<and> text_ok (st_text s) \<and> blocker_ok (st_blocker s)
     \<and> \<not> (st_status s = Completed \<and> st_blocker s \<noteq> None)"

definition structure_step_ok :: "structure_step \<Rightarrow> bool" where
  "structure_step_ok s \<longleftrightarrow> ref_ok (sx_id s) \<and> text_ok (sx_text s)"

definition steps_ok :: "plan_step list \<Rightarrow> bool" where
  "steps_ok xs \<longleftrightarrow> length xs \<le> maximumWorkingPlanSteps \<and> list_all step_ok xs
     \<and> validateWorkingPlanStepList st_id st_text xs"

definition structure_ok :: "structure_step list \<Rightarrow> bool" where
  "structure_ok xs \<longleftrightarrow> length xs \<le> maximumWorkingPlanSteps \<and> list_all structure_step_ok xs
     \<and> validateWorkingPlanStepList sx_id sx_text xs"

definition attribution_ok :: "plan_env \<Rightarrow> attribution \<Rightarrow> bool" where
  "attribution_ok env a \<longleftrightarrow> uuidSchema env (at_connectionId a) \<and> pred_option (trimmed 128) (at_clientId a)"

definition pending_ok :: "plan_env \<Rightarrow> pending_edit \<Rightarrow> bool" where
  "pending_ok env e \<longleftrightarrow> ref_ok (pe_id e) \<and> structure_ok (pe_baseSteps e) \<and> structure_ok (pe_draftSteps e)
     \<and> attribution_ok env (pe_submittedBy e) \<and> safe_nat (pe_basedOn e) \<and> dateTimeSchema env (pe_submittedAt e)"

definition sync_ok :: "plan_env \<Rightarrow> provider_sync \<Rightarrow> bool" where
  "sync_ok env y \<longleftrightarrow> trimmed 64 (sy_provider y) \<and> trimmed 256 (sy_model y) \<and> ref_ok (sy_providerThreadId y)
     \<and> safe_nat (sy_structureRevision y) \<and> dateTimeSchema env (sy_deliveredAt y)"

definition plan_valid :: "plan_env \<Rightarrow> working_plan \<Rightarrow> bool" where
  "plan_valid env p \<longleftrightarrow> ref_ok (wp_sessionId p) \<and> steps_ok (wp_steps p)
     \<and> pred_option (sync_ok env) (wp_providerSync p) \<and> pred_option (pending_ok env) (wp_pendingEdit p)
     \<and> 0 < wp_revision p \<and> safe_nat (wp_revision p) \<and> safe_nat (wp_structureRevision p)
     \<and> dateTimeSchema env (wp_createdAt p) \<and> dateTimeSchema env (wp_updatedAt p) \<and> plan_refinement p"

subsection \<open>What a parser of each level gives\<close>

text \<open>
  A parser \<open>f\<close> normalises to \<open>ok\<close>: what it returns satisfies \<open>ok\<close>, and a value that satisfies
  \<open>ok\<close> is returned as it is. The two laws compose from strings to the whole plan.
\<close>

locale normalising_schema =
  fixes parse :: "'a \<Rightarrow> 'a option" and ok :: "'a \<Rightarrow> bool"
  assumes parse_ok: "parse a = Some b \<Longrightarrow> ok b"
    and ok_parse: "ok a \<Longrightarrow> parse a = Some a"
begin

lemma parse_idem: "parse a = Some b \<Longrightarrow> parse b = Some b"
  by (simp add: parse_ok ok_parse)

lemma parse_fixed_iff: "parse a = Some a \<longleftrightarrow> ok a"
  using parse_ok ok_parse by blast

lemma optional_ok: "optional_schema parse a = Some b \<Longrightarrow> pred_option ok b"
  by (cases a) (auto dest: parse_ok)

lemma ok_optional: "pred_option ok a \<Longrightarrow> optional_schema parse a = Some a"
  by (cases a) (simp_all add: ok_parse)

lemma those_ok: "those (map parse xs) = Some ys \<Longrightarrow> list_all ok ys \<and> length ys = length xs"
  by (induction xs arbitrary: ys) (auto dest: parse_ok split: option.splits)

lemma ok_those: "list_all ok xs \<Longrightarrow> those (map parse xs) = Some xs"
  by (induction xs) (simp_all add: ok_parse)

lemma array_ok:
  "array_schema parse check xs = Some ys \<Longrightarrow>
     length ys \<le> maximumWorkingPlanSteps \<and> list_all ok ys \<and> check ys"
  by (auto simp: array_schema_def bind_eq_Some_conv split: if_splits dest!: those_ok)

lemma ok_array:
  "length xs \<le> maximumWorkingPlanSteps \<Longrightarrow> list_all ok xs \<Longrightarrow> check xs \<Longrightarrow> array_schema parse check xs = Some xs"
  by (simp add: array_schema_def ok_those)

end

interpretation strings: normalising_schema "trimmed_max n" "trimmed n" for n
  by unfold_locales (auto simp: trimmed_max_def trimmed_def Let_def split: if_splits)

interpretation references: normalising_schema workingPlanReferenceSchema ref_ok
  unfolding workingPlanReferenceSchema_def by unfold_locales

interpretation step_texts: normalising_schema workingPlanStepTextSchema text_ok
  unfolding workingPlanStepTextSchema_def by unfold_locales

interpretation client_ids: normalising_schema clientIdentityIdSchema "trimmed 128"
  unfolding clientIdentityIdSchema_def by unfold_locales

lemma blocker_ok_iff: "blocker_ok b \<longleftrightarrow> pred_option (\<lambda>b. blocker_ok (Some b)) b"
  by (cases b) auto

interpretation blockers: normalising_schema workingPlanBlockerSchema "\<lambda>b. blocker_ok (Some b)"
proof
  show "workingPlanBlockerSchema a = Some b \<Longrightarrow> blocker_ok (Some b)" for a b
    by (cases a) (auto dest: references.parse_ok)
  show "blocker_ok (Some a) \<Longrightarrow> workingPlanBlockerSchema a = Some a" for a
    by (cases a) (simp add: references.ok_parse)
qed

interpretation structure_steps: normalising_schema workingPlanStructureStepSchema structure_step_ok
  by unfold_locales
    (auto simp: workingPlanStructureStepSchema_def structure_step_ok_def bind_eq_Some_conv
       references.ok_parse step_texts.ok_parse dest: references.parse_ok step_texts.parse_ok)

lemma blocker_optional_ok: "optional_schema workingPlanBlockerSchema a = Some b \<Longrightarrow> blocker_ok b"
  by (subst blocker_ok_iff) (rule blockers.optional_ok)

lemma blocker_ok_optional: "blocker_ok a \<Longrightarrow> optional_schema workingPlanBlockerSchema a = Some a"
  by (rule blockers.ok_optional) (subst (asm) blocker_ok_iff)

interpretation plan_steps: normalising_schema workingPlanStepSchema step_ok
  by unfold_locales
    (auto simp: workingPlanStepSchema_def step_ok_def bind_eq_Some_conv references.ok_parse step_texts.ok_parse
       blocker_ok_optional dest: references.parse_ok step_texts.parse_ok blocker_optional_ok split: if_splits)

interpretation structures: normalising_schema workingPlanStructureSchema structure_ok
  unfolding workingPlanStructureSchema_def
  by unfold_locales (auto simp: structure_ok_def dest: structure_steps.array_ok intro: structure_steps.ok_array)

interpretation step_lists: normalising_schema workingPlanStepsSchema steps_ok
  unfolding workingPlanStepsSchema_def
  by unfold_locales (auto simp: steps_ok_def dest: plan_steps.array_ok intro: plan_steps.ok_array)

interpretation attributions: normalising_schema "workingPlanClientAttributionSchema env" "attribution_ok env" for env
  by unfold_locales
    (auto simp: workingPlanClientAttributionSchema_def attribution_ok_def client_ids.ok_optional
       dest: client_ids.optional_ok split: if_splits)

interpretation pendings: normalising_schema "pendingWorkingPlanEditSchema env" "pending_ok env" for env
  by unfold_locales
    (auto simp: pendingWorkingPlanEditSchema_def pending_ok_def bind_eq_Some_conv references.ok_parse
       structures.ok_parse attributions.ok_parse
       dest: references.parse_ok structures.parse_ok attributions.parse_ok split: if_splits)

interpretation syncs: normalising_schema "workingPlanProviderSyncSchema env" "sync_ok env" for env
  by unfold_locales
    (auto simp: workingPlanProviderSyncSchema_def sync_ok_def bind_eq_Some_conv references.ok_parse
       strings.ok_parse dest: references.parse_ok strings.parse_ok split: if_splits)

interpretation plans: normalising_schema "workingPlanSchema env" "plan_valid env" for env
proof
  show "workingPlanSchema env a = Some b \<Longrightarrow> plan_valid env b" for a b
    by (auto simp: workingPlanSchema_def plan_valid_def bind_eq_Some_conv Let_def
         dest: references.parse_ok step_lists.parse_ok syncs.optional_ok pendings.optional_ok split: if_splits)
  show "plan_valid env a \<Longrightarrow> workingPlanSchema env a = Some a" for a
    by (simp add: workingPlanSchema_def plan_valid_def references.ok_parse step_lists.ok_parse
         syncs.ok_optional pendings.ok_optional)
qed

text \<open>Position by position comparison is equality of the compared lists.\<close>

lemma sameWorkingPlanStructure_iff [simp]: "sameWorkingPlanStructure xs ys \<longleftrightarrow> xs = ys"
proof
  assume a: "sameWorkingPlanStructure xs ys"
  then have "length xs = length ys" by (simp add: sameWorkingPlanStructure_def)
  then show "xs = ys" using a
    by (induction xs ys rule: list_induct2) (auto simp: sameWorkingPlanStructure_def prod_eq_iff)
next
  assume "xs = ys"
  moreover have "list_all (\<lambda>(l, r). fst r = fst l \<and> snd r = snd l) (zip ys ys)"
    by (induction ys) auto
  ultimately show "sameWorkingPlanStructure xs ys" by (simp add: sameWorkingPlanStructure_def)
qed

section \<open>Edits and receipts of the RPC interface\<close>

record draft_step =
  dr_id :: "js_string option"
  dr_text :: js_string

record plan_edit_params =
  ed_sessionId :: js_string
  ed_basedOn :: nat
  ed_baseSteps :: "structure_step list"
  ed_draftSteps :: "draft_step list"
  ed_replaces :: "js_string option"
  ed_client :: client_kind

datatype disposition = Applied | DQueued | DConflicted | Discarded

record plan_receipt =
  rc_id :: js_string
  rc_editId :: js_string
  rc_sessionId :: js_string
  rc_disposition :: disposition
  rc_basedOn :: nat
  rc_planRevision :: nat
  rc_structureRevision :: nat
  rc_attribution :: attribution
  rc_createdAt :: string

definition workingPlanEditDraftStepSchema :: "draft_step \<Rightarrow> draft_step option" where
  "workingPlanEditDraftStepSchema s =
     Option.bind (optional_schema workingPlanReferenceSchema (dr_id s)) (\<lambda>i.
     Option.bind (workingPlanStepTextSchema (dr_text s)) (\<lambda>t. Some \<lparr>dr_id = i, dr_text = t\<rparr>))"

definition draft_ids :: "draft_step list \<Rightarrow> js_string list" where
  "draft_ids xs = List.map_filter dr_id xs"

definition workingPlanEditDraftSchema :: "draft_step list \<Rightarrow> draft_step list option" where
  "workingPlanEditDraftSchema = array_schema workingPlanEditDraftStepSchema
     (\<lambda>xs. distinct (draft_ids xs) \<and> text_total dr_text xs \<le> maximumWorkingPlanTextLength)"

definition planEditParamsSchema :: "plan_edit_params \<Rightarrow> plan_edit_params option" where
  "planEditParamsSchema e =
     Option.bind (workingPlanStructureSchema (ed_baseSteps e)) (\<lambda>base.
     Option.bind (workingPlanEditDraftSchema (ed_draftSteps e)) (\<lambda>draft.
     Option.bind (optional_schema workingPlanReferenceSchema (ed_replaces e)) (\<lambda>replaces.
     if ed_sessionId e \<noteq> [] \<and> safe_nat (ed_basedOn e)
     then Some (e\<lparr>ed_baseSteps := base, ed_draftSteps := draft, ed_replaces := replaces\<rparr>) else None)))"

definition planEditReceiptSchema :: "plan_env \<Rightarrow> plan_receipt \<Rightarrow> plan_receipt option" where
  "planEditReceiptSchema env r =
     Option.bind (trimmed_max 256 (rc_id r)) (\<lambda>i.
     Option.bind (workingPlanReferenceSchema (rc_editId r)) (\<lambda>e.
     Option.bind (workingPlanClientAttributionSchema env (rc_attribution r)) (\<lambda>a.
     if rc_sessionId r \<noteq> [] \<and> safe_nat (rc_basedOn r) \<and> 0 < rc_planRevision r \<and> safe_nat (rc_planRevision r)
       \<and> safe_nat (rc_structureRevision r) \<and> dateTimeSchema env (rc_createdAt r)
     then Some (r\<lparr>rc_id := i, rc_editId := e, rc_attribution := a\<rparr>) else None)))"

definition draft_step_ok :: "draft_step \<Rightarrow> bool" where
  "draft_step_ok s \<longleftrightarrow> pred_option ref_ok (dr_id s) \<and> text_ok (dr_text s)"

definition edit_ok :: "plan_edit_params \<Rightarrow> bool" where
  "edit_ok e \<longleftrightarrow> structure_ok (ed_baseSteps e)
     \<and> length (ed_draftSteps e) \<le> maximumWorkingPlanSteps \<and> list_all draft_step_ok (ed_draftSteps e)
     \<and> distinct (draft_ids (ed_draftSteps e))
     \<and> text_total dr_text (ed_draftSteps e) \<le> maximumWorkingPlanTextLength
     \<and> pred_option ref_ok (ed_replaces e) \<and> ed_sessionId e \<noteq> [] \<and> safe_nat (ed_basedOn e)"

definition receipt_ok :: "plan_env \<Rightarrow> plan_receipt \<Rightarrow> bool" where
  "receipt_ok env r \<longleftrightarrow> trimmed 256 (rc_id r) \<and> ref_ok (rc_editId r) \<and> attribution_ok env (rc_attribution r)
     \<and> rc_sessionId r \<noteq> [] \<and> safe_nat (rc_basedOn r) \<and> 0 < rc_planRevision r \<and> safe_nat (rc_planRevision r)
     \<and> safe_nat (rc_structureRevision r) \<and> dateTimeSchema env (rc_createdAt r)"

interpretation draft_steps: normalising_schema workingPlanEditDraftStepSchema draft_step_ok
  by unfold_locales
    (auto simp: workingPlanEditDraftStepSchema_def draft_step_ok_def bind_eq_Some_conv references.ok_optional
       step_texts.ok_parse dest: references.optional_ok step_texts.parse_ok)

interpretation edits: normalising_schema planEditParamsSchema edit_ok
proof
  show "planEditParamsSchema a = Some b \<Longrightarrow> edit_ok b" for a b
    by (auto simp: planEditParamsSchema_def workingPlanEditDraftSchema_def edit_ok_def bind_eq_Some_conv
         dest: structures.parse_ok draft_steps.array_ok references.optional_ok split: if_splits)
  show "edit_ok a \<Longrightarrow> planEditParamsSchema a = Some a" for a
    by (simp add: planEditParamsSchema_def workingPlanEditDraftSchema_def edit_ok_def structures.ok_parse
         draft_steps.ok_array references.ok_optional)
qed

interpretation receipts: normalising_schema "planEditReceiptSchema env" "receipt_ok env" for env
  by unfold_locales
    (auto simp: planEditReceiptSchema_def receipt_ok_def bind_eq_Some_conv references.ok_parse
       strings.ok_parse attributions.ok_parse
       dest: references.parse_ok strings.parse_ok attributions.parse_ok split: if_splits)

end
