(* ===== verification/Plan_Merge.thy ===== *)
theory Plan_Merge
  imports Plan_Schema
begin

text \<open>
  What a provider reports, taken onto the plan's steps (apps/daemon/src/working-plan.ts 180-360
  and 640-735): the bound and redaction of a step's text, the replacement of all steps by a
  full list, and the merge of one change of an unordered task list. The lemmas show that both
  give a list of steps the plan schema accepts, and what the merge keeps, renames, removes and
  appends.
\<close>

section \<open>Bounded text\<close>

definition boundedWorkingPlanText :: "plan_env \<Rightarrow> js_value \<Rightarrow> nat \<Rightarrow> js_string option" where
  "boundedWorkingPlanText env value maximumLength =
     (if maximumLength = 0 then None
      else let redacted = js_trim (redactDurableText env value) in
        if redacted = [] then None
        else if length redacted \<le> maximumLength then Some redacted
        else if maximumLength = 1 then Some [8230]
        else Some (take (maximumLength - 1) redacted @ [8230]))"

record provider_step =
  pv_text :: js_value
  pv_status :: plan_status

record bounded_step =
  bs_text :: js_string
  bs_status :: plan_status

fun bound_steps :: "plan_env \<Rightarrow> nat \<Rightarrow> provider_step list \<Rightarrow> bounded_step list" where
  "bound_steps env remaining [] = []"
| "bound_steps env remaining (step # steps) =
     (if remaining = 0 then []
      else case boundedWorkingPlanText env (pv_text step) (min maximumWorkingPlanStepTextLength remaining) of
        None \<Rightarrow> bound_steps env remaining steps
      | Some t \<Rightarrow> \<lparr>bs_text = t, bs_status = pv_status step\<rparr> # bound_steps env (remaining - length t) steps)"

definition boundedProviderSteps :: "plan_env \<Rightarrow> provider_step list \<Rightarrow> bounded_step list" where
  "boundedProviderSteps env steps = bound_steps env maximumWorkingPlanTextLength (take maximumWorkingPlanSteps steps)"

definition progressStatus :: "plan_step option \<Rightarrow> plan_status \<Rightarrow> plan_status" where
  "progressStatus step status =
     (case step of None \<Rightarrow> status
      | Some s \<Rightarrow> if st_blocker s \<noteq> None \<and> status = Completed then st_status s else status)"

section \<open>A full provider plan replaces the steps\<close>

definition textCounts :: "js_string list \<Rightarrow> (js_string, nat) jsmap" where
  "textCounts texts =
     fold (\<lambda>t counts. jm_set t ((case map_of counts t of None \<Rightarrow> 0 | Some n \<Rightarrow> n) + 1) counts) texts []"

definition uniquelyIndexedByText :: "plan_step list \<Rightarrow> (js_string, plan_step) jsmap" where
  "uniquelyIndexedByText steps =
     (let counts = textCounts (map st_text steps) in
      fold (\<lambda>s m. jm_set (st_text s) s m) (filter (\<lambda>s. map_of counts (st_text s) = Some 1) steps) [])"

definition replaced_step :: "plan_env \<Rightarrow> (js_string, plan_step) jsmap \<Rightarrow> (js_string, nat) jsmap \<Rightarrow> nat \<Rightarrow> bounded_step \<Rightarrow> plan_step \<times> nat" where
  "replaced_step env previousByText incomingCounts n step =
     (let prior = if map_of incomingCounts (bs_text step) = Some 1 then map_of previousByText (bs_text step) else None in
      (\<lparr>st_id = (case prior of Some p \<Rightarrow> st_id p | None \<Rightarrow> createId env StepId n),
        st_text = bs_text step,
        st_status = progressStatus prior (bs_status step),
        st_blocker = (case prior of Some p \<Rightarrow> st_blocker p | None \<Rightarrow> None)\<rparr>,
       if prior = None then n + 1 else n))"

fun replace_steps :: "plan_env \<Rightarrow> (js_string, plan_step) jsmap \<Rightarrow> (js_string, nat) jsmap \<Rightarrow> nat \<Rightarrow> bounded_step list \<Rightarrow> plan_step list \<times> nat" where
  "replace_steps env prev counts n [] = ([], n)"
| "replace_steps env prev counts n (b # bs) =
     (let (s, n') = replaced_step env prev counts n b; (ss, n'') = replace_steps env prev counts n' bs in (s # ss, n''))"

definition replacedProviderSteps :: "plan_env \<Rightarrow> plan_step list \<Rightarrow> provider_step list \<Rightarrow> nat \<Rightarrow> plan_step list \<times> nat" where
  "replacedProviderSteps env current providerSteps n =
     (let normalized = boundedProviderSteps env providerSteps in
      replace_steps env (uniquelyIndexedByText current) (textCounts (map bs_text normalized)) n normalized)"

section \<open>One change of an unordered task list\<close>

record provider_task =
  pt_id :: js_string
  pt_text :: js_value
  pt_status :: plan_status

record heard_task =
  ht_id :: js_string
  ht_text :: js_string
  ht_status :: plan_status

record task_link =
  tl_stepId :: js_string
  tl_text :: js_string
  tl_status :: plan_status

record task_change =
  tc_previous :: "provider_task list"
  tc_current :: "provider_task list"
  tc_deleted :: "js_string list"

definition normalize_tasks :: "plan_env \<Rightarrow> provider_task list \<Rightarrow> heard_task list" where
  "normalize_tasks env tasks = List.map_filter (\<lambda>task.
     map_option (\<lambda>t. \<lparr>ht_id = pt_id task, ht_text = t, ht_status = pt_status task\<rparr>)
       (boundedWorkingPlanText env (pt_text task) maximumWorkingPlanStepTextLength)) tasks"

definition find_step :: "js_string \<Rightarrow> plan_step list \<Rightarrow> plan_step option" where
  "find_step i steps = find (\<lambda>s. st_id s = i) steps"

text \<open>
  The links of the tasks Claude had before the change. \<open>prior_links\<close> is the map from task to
  step; its second component the steps already linked.
\<close>

definition link_heard :: "(js_string, heard_task) jsmap \<Rightarrow> js_string \<times> task_link
    \<Rightarrow> (js_string, js_string) jsmap \<times> js_string set \<Rightarrow> (js_string, js_string) jsmap \<times> js_string set" where
  "link_heard previous = (\<lambda>(taskId, link) (prior, linked).
     if map_of previous taskId = None \<or> tl_stepId link \<in> linked then (prior, linked)
     else (jm_set taskId (tl_stepId link) prior, insert (tl_stepId link) linked))"

definition link_by_text :: "plan_step list \<Rightarrow> js_string \<times> heard_task
    \<Rightarrow> (js_string, js_string) jsmap \<times> js_string set \<Rightarrow> (js_string, js_string) jsmap \<times> js_string set" where
  "link_by_text steps = (\<lambda>(taskId, task) (prior, linked).
     case find (\<lambda>c. st_id c \<notin> linked \<and> st_text c = ht_text task) steps of
       None \<Rightarrow> (prior, linked)
     | Some step \<Rightarrow> (jm_set taskId (st_id step) prior, insert (st_id step) linked))"

definition link_deleted :: "(js_string, task_link) jsmap \<Rightarrow> js_string set \<Rightarrow> js_string
    \<Rightarrow> (js_string, js_string) jsmap \<times> js_string set \<Rightarrow> (js_string, js_string) jsmap \<times> js_string set" where
  "link_deleted links currentIds taskId = (\<lambda>(prior, linked).
     case map_of links taskId of
       None \<Rightarrow> (prior, linked)
     | Some link \<Rightarrow>
         if map_of prior taskId \<noteq> None \<or> taskId \<in> currentIds \<or> tl_stepId link \<in> linked then (prior, linked)
         else (jm_set taskId (tl_stepId link) prior, insert (tl_stepId link) linked))"

definition prior_links :: "plan_step list \<Rightarrow> (js_string, heard_task) jsmap \<Rightarrow> (js_string, task_link) jsmap option
    \<Rightarrow> js_string set \<Rightarrow> js_string list \<Rightarrow> (js_string, js_string) jsmap" where
  "prior_links steps previous heardLinks currentIds deleted =
     (let links = (case heardLinks of None \<Rightarrow> [] | Some l \<Rightarrow> l);
          heard = fold (link_heard previous) links ([], {});
          texts = (if heardLinks = None then fold (link_by_text steps) previous heard else heard)
      in fst (fold (link_deleted links currentIds) deleted texts))"

record merge_context =
  cx_previous :: "(js_string, heard_task) jsmap"
  cx_links :: "(js_string, task_link) jsmap"
  cx_prior :: "(js_string, js_string) jsmap"
  cx_stepIds :: "js_string set"
  cx_currentIds :: "js_string set"

record merge_state =
  mg_steps :: "plan_step list"
  mg_claimed :: "js_string set"
  mg_taskLinks :: "(js_string, task_link) jsmap"
  mg_renames :: "(js_string \<times> js_string) list"

definition unclaimed :: "merge_state \<Rightarrow> js_string \<Rightarrow> js_string option \<Rightarrow> plan_step option" where
  "unclaimed st t except = find (\<lambda>s. Some (st_id s) \<noteq> except \<and> st_id s \<notin> mg_claimed st \<and> st_text s = t) (mg_steps st)"

definition claim :: "heard_task \<Rightarrow> plan_step \<Rightarrow> bool \<Rightarrow> merge_state \<Rightarrow> merge_state" where
  "claim task step rename st = st\<lparr>
     mg_taskLinks := jm_set (ht_id task) \<lparr>tl_stepId = st_id step, tl_text = ht_text task, tl_status = ht_status task\<rparr> (mg_taskLinks st),
     mg_claimed := insert (st_id step) (mg_claimed st),
     mg_renames := mg_renames st @ (if rename then [(st_id step, ht_text task)] else []),
     mg_steps := map (\<lambda>s. if st_id s = st_id step then s\<lparr>st_status := progressStatus (Some s) (ht_status task)\<rparr> else s) (mg_steps st)\<rparr>"

definition reworded :: "merge_context \<Rightarrow> heard_task \<Rightarrow> bool" where
  "reworded cx task =
     (let heard = (case map_of (cx_links cx) (ht_id task) of
          Some link \<Rightarrow> Some (tl_text link)
        | None \<Rightarrow> map_option ht_text (map_of (cx_previous cx) (ht_id task)))
      in heard \<noteq> None \<and> heard \<noteq> Some (ht_text task))"

definition heldByAnother :: "merge_context \<Rightarrow> plan_step \<Rightarrow> js_string \<Rightarrow> bool" where
  "heldByAnother cx step taskId = list_ex (\<lambda>(otherId, stepId). stepId = st_id step \<and> otherId \<noteq> taskId) (cx_prior cx)"

definition claim_linked :: "merge_context \<Rightarrow> bool \<Rightarrow> heard_task \<Rightarrow> merge_state \<Rightarrow> merge_state" where
  "claim_linked cx rewordedPass task st =
     (if reworded cx task \<noteq> rewordedPass then st
      else case find_step (case map_of (cx_prior cx) (ht_id task) of None \<Rightarrow> [] | Some i \<Rightarrow> i) (mg_steps st) of
        None \<Rightarrow> st
      | Some linked \<Rightarrow>
          if st_id linked \<in> mg_claimed st then st
          else if \<not> rewordedPass \<or> st_text linked = ht_text task then claim task linked False st
          else case unclaimed st (ht_text task) (Some (st_id linked)) of
            None \<Rightarrow> claim task linked True st
          | Some target \<Rightarrow> if heldByAnother cx target (ht_id task) then claim task linked True st else st)"

definition hidden :: "merge_context \<Rightarrow> heard_task \<Rightarrow> bool" where
  "hidden cx task =
     (case map_of (cx_links cx) (ht_id task) of
        None \<Rightarrow> False
      | Some link \<Rightarrow> tl_stepId link \<notin> cx_stepIds cx \<and> tl_text link = ht_text task \<and> tl_status link = ht_status task)"

definition claim_by_text :: "merge_context \<Rightarrow> heard_task \<Rightarrow> merge_state \<Rightarrow> merge_state" where
  "claim_by_text cx task st =
     (if map_of (mg_taskLinks st) (ht_id task) \<noteq> None \<or> hidden cx task then st
      else case unclaimed st (ht_text task) None of None \<Rightarrow> st | Some step \<Rightarrow> claim task step False st)"

definition claim_tasks :: "merge_context \<Rightarrow> heard_task list \<Rightarrow> plan_step list \<Rightarrow> merge_state" where
  "claim_tasks cx current steps =
     fold (claim_by_text cx) current
       (fold (claim_linked cx True) current
         (fold (claim_linked cx False) current
           \<lparr>mg_steps = steps, mg_claimed = {}, mg_taskLinks = [], mg_renames = []\<rparr>))"

definition removed_steps :: "merge_context \<Rightarrow> js_string set \<Rightarrow> js_string set" where
  "removed_steps cx claimed = set (map snd (filter (\<lambda>(taskId, stepId).
     taskId \<notin> cx_currentIds cx \<and> stepId \<in> cx_stepIds cx \<and> stepId \<notin> claimed) (cx_prior cx)))"

definition fit :: "plan_env \<Rightarrow> nat \<Rightarrow> js_string \<Rightarrow> nat \<Rightarrow> js_string option" where
  "fit env size_now t replacing =
     boundedWorkingPlanText env (JsString t)
       (min maximumWorkingPlanStepTextLength (maximumWorkingPlanTextLength + replacing - size_now))"

text \<open>A renamed step is a claimed one, so it is never among the removed steps.\<close>

definition rename_step :: "plan_env \<Rightarrow> js_string \<times> js_string \<Rightarrow> plan_step list \<times> nat \<Rightarrow> plan_step list \<times> nat" where
  "rename_step env = (\<lambda>(stepId, t) (kept, size_now).
     case find_step stepId kept of
       None \<Rightarrow> (kept, size_now)
     | Some step \<Rightarrow>
         (case fit env size_now t (length (st_text step)) of
            None \<Rightarrow> (kept, size_now)
          | Some fitted \<Rightarrow>
              (map (\<lambda>s. if st_id s = stepId then s\<lparr>st_text := fitted\<rparr> else s) kept,
               size_now + length fitted - length (st_text step))))"

record append_state =
  ap_kept :: "plan_step list"
  ap_total :: nat
  ap_taskLinks :: "(js_string, task_link) jsmap"
  ap_next :: nat

definition append_task :: "plan_env \<Rightarrow> merge_context \<Rightarrow> heard_task \<Rightarrow> append_state \<Rightarrow> append_state" where
  "append_task env cx task st =
     (if map_of (ap_taskLinks st) (ht_id task) \<noteq> None then st
      else if hidden cx task
        then st\<lparr>ap_taskLinks := jm_set (ht_id task) (the (map_of (cx_links cx) (ht_id task))) (ap_taskLinks st)\<rparr>
      else case fit env (ap_total st) (ht_text task) 0 of
        None \<Rightarrow> st
      | Some t \<Rightarrow>
          if maximumWorkingPlanSteps \<le> length (ap_kept st) then st
          else let step = \<lparr>st_id = createId env StepId (ap_next st), st_text = t, st_status = ht_status task, st_blocker = None\<rparr> in
            \<lparr>ap_kept = ap_kept st @ [step], ap_total = ap_total st + length t,
             ap_taskLinks = jm_set (ht_id task) \<lparr>tl_stepId = st_id step, tl_text = ht_text task, tl_status = ht_status task\<rparr> (ap_taskLinks st),
             ap_next = ap_next st + 1\<rparr>)"

definition merge_context_of :: "plan_env \<Rightarrow> plan_step list \<Rightarrow> task_change \<Rightarrow> (js_string, task_link) jsmap option \<Rightarrow> merge_context" where
  "merge_context_of env canonical change heardLinks =
     (let previous = fold (\<lambda>t m. jm_set (ht_id t) t m) (normalize_tasks env (tc_previous change)) [];
          currentIds = set (map ht_id (normalize_tasks env (tc_current change)))
      in \<lparr>cx_previous = previous,
          cx_links = (case heardLinks of None \<Rightarrow> [] | Some l \<Rightarrow> l),
          cx_prior = prior_links canonical previous heardLinks currentIds (tc_deleted change),
          cx_stepIds = set (map st_id canonical),
          cx_currentIds = currentIds\<rparr>)"

definition kept_steps :: "merge_context \<Rightarrow> merge_state \<Rightarrow> plan_step list" where
  "kept_steps cx st = filter (\<lambda>s. st_id s \<notin> removed_steps cx (mg_claimed st)) (mg_steps st)"

definition apply_renames :: "plan_env \<Rightarrow> merge_context \<Rightarrow> merge_state \<Rightarrow> plan_step list \<times> nat" where
  "apply_renames env cx st =
     (let kept = kept_steps cx st in fold (rename_step env) (mg_renames st) (kept, text_total st_text kept))"

definition mergeProviderTaskChange :: "plan_env \<Rightarrow> plan_step list \<Rightarrow> task_change
    \<Rightarrow> (js_string, task_link) jsmap option \<Rightarrow> nat \<Rightarrow> append_state" where
  "mergeProviderTaskChange env canonical change heardLinks n =
     (let cx = merge_context_of env canonical change heardLinks;
          current = normalize_tasks env (tc_current change);
          st = claim_tasks cx current canonical;
          (renamed, size_now) = apply_renames env cx st
      in fold (append_task env cx) current
           \<lparr>ap_kept = renamed, ap_total = size_now, ap_taskLinks = mg_taskLinks st, ap_next = n\<rparr>)"

section \<open>Texts within their bounds\<close>

lemma trimmed_mono: "trimmed m t \<Longrightarrow> m \<le> n \<Longrightarrow> trimmed n t"
  by (simp add: trimmed_def)

lemma bounded_text_trimmed:
  assumes "boundedWorkingPlanText env v m = Some t"
  shows "trimmed m t"
proof -
  let ?r = "js_trim (redactDurableText env v)"
  have m: "m \<noteq> 0" and r: "?r \<noteq> []" using assms by (auto simp: boundedWorkingPlanText_def Let_def split: if_splits)
  have ell: "\<not> js_whitespace 8230" by (simp add: js_whitespace_def)
  have ends: "\<not> js_whitespace (hd ?r)" using js_trim_hd_last [OF r] by simp
  consider "length ?r \<le> m" "t = ?r" | "m = 1" "t = [8230]"
    | "m > 1" "length ?r > m" "t = take (m - 1) ?r @ [8230]"
    using assms m by (auto simp: boundedWorkingPlanText_def Let_def split: if_splits)
  then show ?thesis
  proof cases
    case 3
    then have "hd t = hd ?r" using r by (simp add: hd_append)
    then have "js_trim t = t" using 3 ends ell by (intro js_trim_id) simp
    then show ?thesis using 3 by (simp add: trimmed_def)
  qed (use r ell in \<open>simp_all add: trimmed_def js_trim_id\<close>)
qed

lemma bounded_text_ok:
  "boundedWorkingPlanText env v (min maximumWorkingPlanStepTextLength n) = Some t \<Longrightarrow> text_ok t \<and> length t \<le> n"
  using bounded_text_trimmed [of env v "min maximumWorkingPlanStepTextLength n" t]
  by (simp add: trimmed_def)

lemma bound_steps_total: "text_total bs_text (bound_steps env n steps) \<le> n"
proof (induction env n steps rule: bound_steps.induct)
  case (2 env n s ss)
  show ?case
  proof (cases "boundedWorkingPlanText env (pv_text s) (min maximumWorkingPlanStepTextLength n)")
    case None
    then show ?thesis using 2(1) by (simp add: text_total_def)
  next
    case (Some t)
    then have "length t \<le> n" using bounded_text_ok by blast
    then show ?thesis using Some 2(2) [OF _ Some] by (cases "n = 0") (simp_all add: text_total_def)
  qed
qed (simp add: text_total_def)

lemma bound_steps_texts: "b \<in> set (bound_steps env n steps) \<Longrightarrow> text_ok (bs_text b)"
  by (induction env n steps rule: bound_steps.induct)
     (auto split: option.splits if_splits dest: bounded_text_ok)

lemma bound_steps_length: "length (bound_steps env n steps) \<le> length steps"
  by (induction env n steps rule: bound_steps.induct) (auto split: option.splits)

lemma boundedProviderSteps_ok:
  shows boundedProviderSteps_length: "length (boundedProviderSteps env steps) \<le> maximumWorkingPlanSteps"
    and boundedProviderSteps_total: "text_total bs_text (boundedProviderSteps env steps) \<le> maximumWorkingPlanTextLength"
    and boundedProviderSteps_texts: "b \<in> set (boundedProviderSteps env steps) \<Longrightarrow> text_ok (bs_text b)"
    and boundedProviderSteps_shorter: "length (boundedProviderSteps env steps) \<le> length steps"
  using bound_steps_length [of env maximumWorkingPlanTextLength "take maximumWorkingPlanSteps steps"]
  by (auto simp: boundedProviderSteps_def bound_steps_total dest: bound_steps_texts)

section \<open>Replacing the steps\<close>

lemma textCounts_fold:
  "map_of (fold (\<lambda>t counts. jm_set t ((case map_of counts t of None \<Rightarrow> 0 | Some n \<Rightarrow> n) + 1) counts) texts m) t
    = (if count_list texts t = 0 then map_of m t
       else Some (count_list texts t + (case map_of m t of None \<Rightarrow> 0 | Some n \<Rightarrow> n)))"
  by (induction texts arbitrary: m) (auto simp: jsmap_simps split: option.splits)

lemma textCounts_get:
  "map_of (textCounts texts) t = (if t \<in> set texts then Some (count_list texts t) else None)"
  unfolding textCounts_def by (subst textCounts_fold) (simp add: count_list_0_iff)

lemma uniquely_indexed_fold:
  "map_of (fold (\<lambda>s m. jm_set (st_text s) s m) xs m) t = Some s \<Longrightarrow> s \<in> set xs \<and> st_text s = t \<or> map_of m t = Some s"
  by (induction xs arbitrary: m) (fastforce simp: jsmap_simps split: if_splits)+

lemma uniquelyIndexedByText_sound:
  assumes "map_of (uniquelyIndexedByText steps) t = Some s"
  shows "s \<in> set steps \<and> st_text s = t"
  using uniquely_indexed_fold [OF assms [unfolded uniquelyIndexedByText_def Let_def]] by auto

text \<open>The ids the factory makes next: well formed, distinct, and not in use.\<close>

definition fresh_step_ids :: "plan_env \<Rightarrow> nat \<Rightarrow> nat \<Rightarrow> js_string set \<Rightarrow> bool" where
  "fresh_step_ids env n m used \<longleftrightarrow>
     (let ids = map (createId env StepId) [n..<n + m] in
      distinct ids \<and> list_all ref_ok ids \<and> list_all (\<lambda>i. i \<notin> used) ids)"

lemma fresh_step_ids_iff:
  "fresh_step_ids env n m used \<longleftrightarrow> inj_on (createId env StepId) {n..<n + m}
     \<and> (\<forall>k\<in>{n..<n + m}. ref_ok (createId env StepId k) \<and> createId env StepId k \<notin> used)"
  by (auto simp: fresh_step_ids_def Let_def list_all_iff distinct_map)

lemma fresh_step_ids_D:
  assumes "fresh_step_ids env n m used" and "n \<le> k" and "k < n + m"
  shows "ref_ok (createId env StepId k)" and "createId env StepId k \<notin> used"
    and "n \<le> j \<Longrightarrow> j < n + m \<Longrightarrow> createId env StepId j = createId env StepId k \<longleftrightarrow> j = k"
  using assms by (auto simp: fresh_step_ids_iff inj_on_def)

lemma fresh_step_ids_part:
  assumes "fresh_step_ids env n m used" and "n \<le> n'" and "n' + k \<le> n + m" and "used' \<subseteq> used"
  shows "fresh_step_ids env n' k used'"
proof -
  have "{n'..<n' + k} \<subseteq> {n..<n + m}" using assms by auto
  then show ?thesis using assms unfolding fresh_step_ids_iff by (meson inj_on_subset subsetD)
qed

lemma fresh_step_ids_next:
  assumes "fresh_step_ids env n (Suc m) used"
  shows "fresh_step_ids env (Suc n) m (insert (createId env StepId n) used)"
proof -
  have "createId env StepId k \<noteq> createId env StepId n" if "k \<in> {Suc n..<Suc n + m}" for k
    using fresh_step_ids_D(3) [OF assms, of n k] that by auto
  then show ?thesis using fresh_step_ids_part [OF assms, of "Suc n" m used]
    by (auto simp: fresh_step_ids_iff)
qed

lemma progressStatus_ok: "step_ok s \<Longrightarrow> st_blocker s \<noteq> None \<Longrightarrow> progressStatus (Some s) v \<noteq> Completed"
  by (auto simp: progressStatus_def step_ok_def)

definition step_progress :: "plan_step \<Rightarrow> plan_status \<Rightarrow> plan_step \<Rightarrow> bool" where
  "step_progress p v s \<longleftrightarrow> st_id s = st_id p \<and> st_blocker s = st_blocker p \<and> st_status s = progressStatus (Some p) v"

text \<open>Every replaced step is a known step under its own text, or a new one.\<close>

definition replaced_from :: "plan_env \<Rightarrow> (js_string, plan_step) jsmap \<Rightarrow> (js_string, nat) jsmap \<Rightarrow> nat \<Rightarrow> nat \<Rightarrow> plan_step \<Rightarrow> bool" where
  "replaced_from env prev counts n n' s \<longleftrightarrow>
     (\<exists>p v. map_of counts (st_text s) = Some 1 \<and> map_of prev (st_text s) = Some p \<and> step_progress p v s)
   \<or> (\<exists>k. n \<le> k \<and> k < n' \<and> st_id s = createId env StepId k \<and> st_blocker s = None)"

lemma replaced_step_origin:
  assumes "replaced_step env prev counts n b = (s, m)"
  shows "st_text s = bs_text b \<and> n \<le> m \<and> m \<le> Suc n \<and> replaced_from env prev counts n m s"
  using assms by (auto simp: replaced_step_def replaced_from_def step_progress_def Let_def split: if_splits option.splits)

lemma replaced_from_mono: "replaced_from env prev counts n m s \<Longrightarrow> n' \<le> n \<Longrightarrow> m \<le> m' \<Longrightarrow> replaced_from env prev counts n' m' s"
  unfolding replaced_from_def by (meson order_trans order_less_le_trans)

lemma replace_steps_origin:
  assumes "replace_steps env prev counts n bs = (ss, n')"
  shows "n \<le> n' \<and> n' \<le> n + length bs \<and> map st_text ss = map bs_text bs
    \<and> (\<forall>s\<in>set ss. replaced_from env prev counts n n' s)"
  using assms
proof (induction bs arbitrary: n ss)
  case (Cons b bs)
  obtain s m ss' where s: "replaced_step env prev counts n b = (s, m)"
    and ss: "replace_steps env prev counts m bs = (ss', n')" and eq: "ss = s # ss'"
    using Cons.prems by (auto simp: Let_def split: prod.splits)
  show ?case using Cons.IH [OF ss] replaced_step_origin [OF s] eq by (auto intro: replaced_from_mono)
qed simp

lemma replace_steps_distinct:
  assumes "replace_steps env (uniquelyIndexedByText current) counts n bs = (ss, n')"
    and ids: "distinct (map st_id current)"
    and "\<And>t. map_of counts t = Some 1 \<Longrightarrow> count_list (map bs_text bs) t \<le> 1"
    and "fresh_step_ids env n (length bs) (st_id ` set current)"
  shows "distinct (map st_id ss)"
  using assms(1,3,4)
proof (induction bs arbitrary: n ss)
  case (Cons b bs)
  let ?prev = "uniquelyIndexedByText current"
  obtain s m ss' where s: "replaced_step env ?prev counts n b = (s, m)"
    and ss: "replace_steps env ?prev counts m bs = (ss', n')" and eq: "ss = s # ss'"
    using Cons.prems(1) by (auto simp: Let_def split: prod.splits)
  note head = replaced_step_origin [OF s] and tail = replace_steps_origin [OF ss]
  have fresh_m: "fresh_step_ids env m (length bs) (st_id ` set current)"
    using head Cons.prems(3) by (auto intro: fresh_step_ids_part)
  have counts: "count_list (map bs_text bs) t \<le> 1" if "map_of counts t = Some 1" for t
    using Cons.prems(2) [OF that] by (simp split: if_splits)
  have "st_id s' \<noteq> st_id s" if s': "s' \<in> set ss'" for s'
  proof
    assume same: "st_id s' = st_id s"
    have text': "st_text s' \<in> set (map bs_text bs)" using s' tail by (metis image_eqI set_map)
    show False
    proof (cases "\<exists>p. map_of ?prev (st_text s) = Some p \<and> map_of counts (st_text s) = Some 1 \<and> st_id s = st_id p")
      case True
      then obtain p where p: "map_of ?prev (st_text s) = Some p" "map_of counts (st_text s) = Some 1" "st_id s = st_id p"
        by blast
      have known: "p \<in> set current" "st_text p = st_text s" using uniquelyIndexedByText_sound [OF p(1)] by auto
      then have "\<not> (\<exists>k. m \<le> k \<and> k < n' \<and> st_id s' = createId env StepId k)"
        using same p(3) tail fresh_step_ids_D(2) [OF fresh_m] by (metis image_eqI order_less_le_trans)
      then obtain q v where q: "map_of ?prev (st_text s') = Some q" "step_progress q v s'"
        using tail s' unfolding replaced_from_def by blast
      then have "q \<in> set current" "st_text q = st_text s'" using uniquelyIndexedByText_sound [OF q(1)] by auto
      moreover have "st_id q = st_id p" using q(2) same p(3) by (simp add: step_progress_def)
      ultimately have "st_text s' = st_text s" using ids known by (metis distinct_map inj_onD)
      then have "count_list (map bs_text (b # bs)) (st_text s) \<ge> 2"
        using text' head by (simp add: Suc_le_eq count_list_0_iff neq0_conv [symmetric] del: neq0_conv)
      then show False using Cons.prems(2) [OF p(2)] by simp
    next
      case False
      then have new: "m = Suc n" "st_id s = createId env StepId n"
        using head unfolding replaced_from_def step_progress_def by (auto simp: le_less_Suc_eq le_Suc_eq)
      have "\<not> (\<exists>k. m \<le> k \<and> k < n' \<and> st_id s' = createId env StepId k)"
      proof
        assume "\<exists>k. m \<le> k \<and> k < n' \<and> st_id s' = createId env StepId k"
        then obtain k where "m \<le> k" "k < n'" "createId env StepId k = createId env StepId n" using same new by auto
        then show False using fresh_step_ids_D(3) [OF Cons.prems(3), of n k] new tail by auto
      qed
      then obtain q v where q: "map_of ?prev (st_text s') = Some q" "step_progress q v s'"
        using tail s' unfolding replaced_from_def by blast
      then have "st_id s \<in> st_id ` set current"
        using uniquelyIndexedByText_sound [OF q(1)] same by (auto simp: step_progress_def)
      then show False using new fresh_step_ids_D(2) [OF Cons.prems(3), of n] by simp
    qed
  qed
  then have "st_id s \<notin> st_id ` set ss'" by force
  then show ?case using Cons.IH [OF ss counts fresh_m] eq by simp
qed simp

lemma text_total_map: "map f xs = map g ys \<Longrightarrow> text_total f xs = text_total g ys"
  unfolding text_total_def by (metis list.map_comp)

lemma replacedProviderSteps_ok:
  assumes ok: "steps_ok current"
    and fresh: "fresh_step_ids env n (length providerSteps) (st_id ` set current)"
  shows "steps_ok (fst (replacedProviderSteps env current providerSteps n))"
proof -
  let ?bs = "boundedProviderSteps env providerSteps"
  let ?counts = "textCounts (map bs_text ?bs)"
  obtain ss n' where run: "replace_steps env (uniquelyIndexedByText current) ?counts n ?bs = (ss, n')"
    by fastforce
  note orig = replace_steps_origin [OF run]
  have len: "length ss = length ?bs" using orig by (metis length_map)
  have fresh_bs: "fresh_step_ids env n (length ?bs) (st_id ` set current)"
    using fresh boundedProviderSteps_shorter [of env providerSteps] by (auto intro: fresh_step_ids_part)
  have "distinct (map st_id ss)"
    using ok by (intro replace_steps_distinct [OF run _ _ fresh_bs])
      (auto simp: steps_ok_def validateWorkingPlanStepList_def textCounts_get split: if_splits)
  moreover have "text_total st_text ss = text_total bs_text ?bs" using orig by (intro text_total_map) simp
  moreover have "step_ok s" if s: "s \<in> set ss" for s
  proof -
    have "st_text s \<in> bs_text ` set ?bs" using s orig by (metis image_eqI list.set_map)
    then have ttxt: "text_ok (st_text s)" by (auto dest: boundedProviderSteps_texts)
    have "replaced_from env (uniquelyIndexedByText current) ?counts n n' s" using s orig by blast
    then consider p v where "p \<in> set current" "step_progress p v s"
      | k where "n \<le> k" "k < n'" "st_id s = createId env StepId k" "st_blocker s = None"
      unfolding replaced_from_def by (blast dest: uniquelyIndexedByText_sound)
    then show ?thesis
    proof cases
      case 1
      then have "step_ok p" using ok by (simp add: steps_ok_def list_all_iff)
      then show ?thesis using 1 ttxt progressStatus_ok [of p v]
        by (cases "st_blocker p") (auto simp: step_ok_def step_progress_def)
    next
      case 2
      then show ?thesis using ttxt orig fresh_step_ids_D(1) [OF fresh_bs, of k] by (simp add: step_ok_def)
    qed
  qed
  ultimately have "steps_ok ss"
    using len boundedProviderSteps_length boundedProviderSteps_total
    by (simp add: steps_ok_def validateWorkingPlanStepList_def list_all_iff)
  then show ?thesis by (simp add: replacedProviderSteps_def run)
qed

section \<open>The claims of a merge\<close>

text \<open>
  While tasks claim steps, a step's id, text and blocker stay; only a claimed step's status
  moves, and renames and links name claimed steps only.
\<close>

definition step_same :: "plan_step \<Rightarrow> plan_step \<Rightarrow> bool" where
  "step_same a b \<longleftrightarrow> st_id b = st_id a \<and> st_text b = st_text a \<and> st_blocker b = st_blocker a \<and> (step_ok a \<longrightarrow> step_ok b)"

definition claims_inv :: "plan_step list \<Rightarrow> merge_state \<Rightarrow> bool" where
  "claims_inv canonical st \<longleftrightarrow>
     list_all2 (\<lambda>a b. step_same a b \<and> (st_id a \<notin> mg_claimed st \<longrightarrow> b = a)) canonical (mg_steps st)
   \<and> fst ` set (mg_renames st) \<subseteq> mg_claimed st
   \<and> mg_claimed st \<subseteq> tl_stepId ` ran (map_of (mg_taskLinks st))"

lemma step_same_progress: "step_same a b \<Longrightarrow> step_same a (b\<lparr>st_status := progressStatus (Some b) v\<rparr>)"
  using progressStatus_ok [of b v] by (cases "st_blocker a") (auto simp: step_same_def step_ok_def)

lemma claims_inv_start: "claims_inv canonical \<lparr>mg_steps = canonical, mg_claimed = {}, mg_taskLinks = [], mg_renames = []\<rparr>"
  by (simp add: claims_inv_def step_same_def list_all2_refl)

lemma list_all2_map_right: "list_all2 P xs ys \<Longrightarrow> (\<And>x y. P x y \<Longrightarrow> Q x (f y)) \<Longrightarrow> list_all2 Q xs (map f ys)"
  by (induction xs ys rule: list_all2_induct) auto

lemma list_all2_in_right: "list_all2 P xs ys \<Longrightarrow> y \<in> set ys \<Longrightarrow> \<exists>x\<in>set xs. P x y"
  by (induction xs ys rule: list_all2_induct) auto

lemma claim_keeps:
  assumes inv: "claims_inv canonical st" and new: "map_of (mg_taskLinks st) (ht_id task) = None"
  shows "claims_inv canonical (claim task step rename st)"
proof -
  let ?st' = "claim task step rename st"
  have "list_all2 (\<lambda>a b. step_same a b \<and> (st_id a \<notin> mg_claimed ?st' \<longrightarrow> b = a)) canonical (mg_steps ?st')"
  proof -
    have "list_all2 (\<lambda>a b. step_same a b \<and> (st_id a \<notin> mg_claimed st \<longrightarrow> b = a)) canonical (mg_steps st)"
      using inv by (simp add: claims_inv_def)
    then show ?thesis
      by (auto simp: claim_def elim!: list_all2_map_right dest: step_same_progress)
  qed
  moreover have "ran (map_of (mg_taskLinks ?st')) \<supseteq> ran (map_of (mg_taskLinks st))"
    using new by (auto simp: claim_def ran_def jsmap_simps) (metis option.distinct(1))
  moreover have "st_id step \<in> tl_stepId ` ran (map_of (mg_taskLinks ?st'))"
    by (force simp: claim_def ran_def jsmap_simps)
  moreover have "mg_claimed ?st' = insert (st_id step) (mg_claimed st)"
    and "fst ` set (mg_renames ?st') \<subseteq> insert (st_id step) (fst ` set (mg_renames st))"
    by (auto simp: claim_def)
  ultimately show ?thesis using inv unfolding claims_inv_def by (simp add: subset_insertI2) blast
qed

text \<open>In the two passes over linked steps every link so far is the prior link of its task.\<close>

abbreviation prior_step :: "merge_context \<Rightarrow> js_string \<Rightarrow> js_string" where
  "prior_step cx taskId \<equiv> (case map_of (cx_prior cx) taskId of None \<Rightarrow> [] | Some i \<Rightarrow> i)"

definition linked_inv :: "merge_context \<Rightarrow> merge_state \<Rightarrow> bool" where
  "linked_inv cx st \<longleftrightarrow> (\<forall>t l. map_of (mg_taskLinks st) t = Some l \<longrightarrow> tl_stepId l = prior_step cx t \<and> tl_stepId l \<in> mg_claimed st)"

lemma find_step_D: "find_step i steps = Some s \<Longrightarrow> s \<in> set steps \<and> st_id s = i"
  by (auto simp: find_step_def dest: find_Some_in_set)

lemma claim_linked_cases:
  obtains "claim_linked cx p task st = st"
  | step rename where "find_step (prior_step cx (ht_id task)) (mg_steps st) = Some step" "st_id step \<notin> mg_claimed st"
      "claim_linked cx p task st = claim task step rename st"
proof (cases "find_step (prior_step cx (ht_id task)) (mg_steps st)")
  case None
  then show ?thesis using that(1) by (simp add: claim_linked_def)
next
  case (Some step)
  have "claim_linked cx p task st \<in> {st} \<union> (if st_id step \<in> mg_claimed st then {} else range (\<lambda>r. claim task step r st))"
    using Some by (simp add: claim_linked_def split: option.split)
  then show ?thesis using that Some by (auto split: if_splits)
qed

lemma claim_linked_keeps:
  assumes "claims_inv canonical st \<and> linked_inv cx st"
  shows "claims_inv canonical (claim_linked cx p task st) \<and> linked_inv cx (claim_linked cx p task st)"
proof (rule claim_linked_cases [of cx p task st])
  fix step rename
  assume s: "find_step (prior_step cx (ht_id task)) (mg_steps st) = Some step" "st_id step \<notin> mg_claimed st"
    and run: "claim_linked cx p task st = claim task step rename st"
  have id: "st_id step = prior_step cx (ht_id task)" using find_step_D [OF s(1)] by simp
  then have "map_of (mg_taskLinks st) (ht_id task) = None"
    using s assms unfolding linked_inv_def by (metis not_None_eq)
  moreover have "linked_inv cx (claim task step rename st)"
    using assms id unfolding linked_inv_def by (simp add: claim_def jsmap_simps) (metis insertCI)
  ultimately show ?thesis using assms run claim_keeps by auto
qed (use assms in simp)

lemma claim_by_text_keeps: "claims_inv canonical st \<Longrightarrow> claims_inv canonical (claim_by_text cx task st)"
  by (auto simp: claim_by_text_def split: option.split intro: claim_keeps)

lemma fold_keeps: "(\<And>x s. P s \<Longrightarrow> P (f x s)) \<Longrightarrow> P s \<Longrightarrow> P (fold f xs s)"
  by (induction xs arbitrary: s) auto

lemma claim_tasks_inv: "claims_inv canonical (claim_tasks cx current canonical)"
proof -
  let ?st = "\<lparr>mg_steps = canonical, mg_claimed = {}, mg_taskLinks = [], mg_renames = []\<rparr>"
  have "claims_inv canonical ?st \<and> linked_inv cx ?st" by (simp add: claims_inv_start linked_inv_def)
  then have "claims_inv canonical (fold (claim_linked cx True) current (fold (claim_linked cx False) current ?st))"
    using fold_keeps [where P = "\<lambda>st. claims_inv canonical st \<and> linked_inv cx st" and f = "claim_linked cx True"]
      fold_keeps [where P = "\<lambda>st. claims_inv canonical st \<and> linked_inv cx st" and f = "claim_linked cx False"]
      claim_linked_keeps by blast
  then show ?thesis unfolding claim_tasks_def by (rule fold_keeps [rotated]) (rule claim_by_text_keeps)
qed

section \<open>Renames within the room left\<close>

lemma text_total_update:
  assumes "distinct (map st_id xs)" and "s \<in> set xs"
  shows "text_total st_text (map (\<lambda>x. if st_id x = st_id s then x\<lparr>st_text := t\<rparr> else x) xs)
    = text_total st_text xs + length t - length (st_text s) \<and> length (st_text s) \<le> text_total st_text xs"
  using assms
proof (induction xs)
  case (Cons x xs)
  show ?case
  proof (cases "x = s")
    case True
    then have "map (\<lambda>x. if st_id x = st_id s then x\<lparr>st_text := t\<rparr> else x) xs = xs"
      using Cons.prems by (intro map_idI) (auto simp: image_iff)
    then show ?thesis using True by (simp add: text_total_def)
  next
    case False
    then have "s \<in> set xs" "st_id x \<noteq> st_id s" using Cons.prems by auto
    then show ?thesis using Cons by (auto simp: text_total_def)
  qed
qed simp

definition room_inv :: "plan_step list \<times> nat \<Rightarrow> bool" where
  "room_inv = (\<lambda>(kept, size_now). steps_ok kept \<and> size_now = text_total st_text kept)"

definition renamed_from :: "js_string set \<Rightarrow> plan_step list \<Rightarrow> plan_step list \<Rightarrow> bool" where
  "renamed_from ids = list_all2 (\<lambda>a b. st_id b = st_id a \<and> st_status b = st_status a \<and> st_blocker b = st_blocker a
     \<and> (st_id a \<notin> ids \<longrightarrow> b = a))"

lemma rename_step_keeps:
  assumes inv: "room_inv (kept, size_now)"
  shows "room_inv (rename_step env (i, t) (kept, size_now))"
proof (cases "\<exists>s fitted. find_step i kept = Some s \<and> fit env size_now t (length (st_text s)) = Some fitted")
  case True
  then obtain s fitted where s: "find_step i kept = Some s" and fitted: "fit env size_now t (length (st_text s)) = Some fitted"
    by blast
  let ?kept = "map (\<lambda>x. if st_id x = i then x\<lparr>st_text := fitted\<rparr> else x) kept"
  have mem: "s \<in> set kept" "st_id s = i" using find_step_D [OF s] by auto
  have ok: "steps_ok kept" and size: "size_now = text_total st_text kept" using inv by (auto simp: room_inv_def)
  have dist: "distinct (map st_id kept)" using ok by (simp add: steps_ok_def validateWorkingPlanStepList_def)
  have upd: "text_total st_text ?kept = size_now + length fitted - length (st_text s)" "length (st_text s) \<le> size_now"
    using text_total_update [OF dist mem(1), of fitted] size mem by auto
  have fit_ok: "text_ok fitted" "length fitted \<le> maximumWorkingPlanTextLength + length (st_text s) - size_now"
    using bounded_text_ok [OF fitted [unfolded fit_def]] by auto
  have "map st_id ?kept = map st_id kept" by simp
  moreover have "list_all step_ok ?kept" using ok fit_ok by (auto simp: steps_ok_def list_all_iff step_ok_def)
  moreover have "text_total st_text ?kept \<le> maximumWorkingPlanTextLength"
    using upd fit_ok ok size by (auto simp: steps_ok_def validateWorkingPlanStepList_def)
  ultimately have "steps_ok ?kept"
    using ok dist by (simp add: steps_ok_def validateWorkingPlanStepList_def del: map_map)
  then show ?thesis using s fitted upd by (simp add: rename_step_def room_inv_def)
next
  case False
  then show ?thesis using inv by (auto simp: rename_step_def split: option.splits)
qed

lemma rename_step_from:
  assumes "renamed_from ids base kept" and "i \<in> ids"
  shows "renamed_from ids base (fst (rename_step env (i, t) (kept, size_now)))"
  using assms unfolding renamed_from_def
  by (auto simp: rename_step_def split: option.splits elim!: list_all2_map_right)

lemma steps_ok_same:
  assumes "list_all2 step_same xs ys"
  shows "map st_id ys = map st_id xs" and "steps_ok xs \<Longrightarrow> steps_ok ys"
proof -
  have facts: "length ys = length xs \<and> map st_id ys = map st_id xs \<and> map st_text ys = map st_text xs
      \<and> (list_all step_ok xs \<longrightarrow> list_all step_ok ys)"
    using assms by (induction rule: list_all2_induct) (auto simp: step_same_def)
  then show "map st_id ys = map st_id xs" by simp
  show "steps_ok xs \<Longrightarrow> steps_ok ys"
    using facts text_total_map [of st_text ys st_text xs] by (simp add: steps_ok_def validateWorkingPlanStepList_def)
qed

lemma text_total_filter: "text_total f (filter P xs) \<le> text_total f xs"
  by (induction xs) (auto simp: text_total_def)

lemma steps_ok_filter: "steps_ok xs \<Longrightarrow> steps_ok (filter P xs)"
  using text_total_filter [of st_text P xs] order_trans [OF length_filter_le [of P xs]]
  by (auto simp: steps_ok_def validateWorkingPlanStepList_def list_all_iff distinct_map_filter)

lemma apply_renames_ok:
  assumes st: "claims_inv canonical st" and ok: "steps_ok canonical"
  shows "room_inv (apply_renames env cx st)"
    and "renamed_from (mg_claimed st) (kept_steps cx st) (fst (apply_renames env cx st))"
proof -
  let ?kept = "kept_steps cx st"
  have "list_all2 step_same canonical (mg_steps st)"
    using st by (auto simp: claims_inv_def elim: list_all2_mono)
  then have "steps_ok ?kept"
    unfolding kept_steps_def using steps_ok_same(2) ok by (blast intro: steps_ok_filter)
  then have start: "room_inv (?kept, text_total st_text ?kept)" by (simp add: room_inv_def)
  show "room_inv (apply_renames env cx st)"
    unfolding apply_renames_def Let_def
    by (rule fold_keeps [where P = room_inv, OF _ start]) (metis rename_step_keeps surj_pair)
  have renames: "fst ` set (mg_renames st) \<subseteq> mg_claimed st" using st by (simp add: claims_inv_def)
  have "renamed_from (mg_claimed st) ?kept (fst (fold (rename_step env) rs x))"
    if "fst ` set rs \<subseteq> mg_claimed st" "renamed_from (mg_claimed st) ?kept (fst x)" for rs x
    using that
  proof (induction rs arbitrary: x)
    case (Cons r rs)
    then show ?case using rename_step_from [of "mg_claimed st" ?kept "fst x" "fst r" env "snd r" "snd x"] by simp
  qed simp
  from this [OF renames] show "renamed_from (mg_claimed st) ?kept (fst (apply_renames env cx st))"
    by (simp add: apply_renames_def Let_def renamed_from_def list_all2_refl)
qed

section \<open>New steps within the room left\<close>

definition append_inv :: "plan_env \<Rightarrow> js_string set \<Rightarrow> plan_step list \<Rightarrow> nat \<Rightarrow> append_state \<Rightarrow> bool" where
  "append_inv env used base n st \<longleftrightarrow> steps_ok (ap_kept st) \<and> ap_total st = text_total st_text (ap_kept st)
     \<and> n \<le> ap_next st \<and> (\<exists>new. ap_kept st = base @ new \<and> map st_id new = map (createId env StepId) [n..<ap_next st])
     \<and> st_id ` set base \<subseteq> used"

lemma append_task_keeps:
  assumes inv: "append_inv env used base n st"
    and fresh: "fresh_step_ids env n m used" and room: "ap_next st < n + m"
  shows "append_inv env used base n (append_task env cx task st) \<and> ap_next (append_task env cx task st) \<le> Suc (ap_next st)"
proof (cases "append_task env cx task st = st \<or> (\<exists>l. append_task env cx task st = st\<lparr>ap_taskLinks := l\<rparr>)")
  case True
  then show ?thesis using inv by (auto simp: append_inv_def)
next
  case False
  let ?id = "createId env StepId (ap_next st)"
  obtain t l where t: "fit env (ap_total st) (ht_text task) 0 = Some t" and few: "length (ap_kept st) < maximumWorkingPlanSteps"
    and run: "append_task env cx task st =
      \<lparr>ap_kept = ap_kept st @ [\<lparr>st_id = ?id, st_text = t, st_status = ht_status task, st_blocker = None\<rparr>],
       ap_total = ap_total st + length t, ap_taskLinks = l, ap_next = ap_next st + 1\<rparr>"
    using False by (auto simp: append_task_def Let_def not_le split: if_splits option.splits)
  have fits: "text_ok t" "length t \<le> maximumWorkingPlanTextLength - ap_total st"
    using bounded_text_ok [OF t [unfolded fit_def]] by auto
  obtain new where new: "ap_kept st = base @ new" "map st_id new = map (createId env StepId) [n..<ap_next st]"
    using inv by (auto simp: append_inv_def)
  have n: "n \<le> ap_next st" using inv by (simp add: append_inv_def)
  have "?id \<notin> st_id ` set base" using fresh_step_ids_D(2) [OF fresh n room] inv by (auto simp: append_inv_def)
  moreover have "?id \<notin> set (map st_id new)"
  proof
    assume "?id \<in> set (map st_id new)"
    then obtain k where "n \<le> k" "k < ap_next st" "createId env StepId k = ?id" unfolding new(2) by auto
    then show False using fresh_step_ids_D(3) [OF fresh n room, of k] room by auto
  qed
  ultimately have "?id \<notin> set (map st_id (ap_kept st))" using new by auto
  then show ?thesis
    using inv run new n few fits fresh_step_ids_D(1) [OF fresh n room]
    by (auto simp: append_inv_def steps_ok_def validateWorkingPlanStepList_def text_total_def step_ok_def)
qed

lemma append_tasks_keep:
  assumes "append_inv env used base n st" and "fresh_step_ids env n m used" and "ap_next st + length tasks \<le> n + m"
  shows "append_inv env used base n (fold (append_task env cx) tasks st)"
  using assms
proof (induction tasks arbitrary: st)
  case (Cons task tasks)
  then show ?case using append_task_keeps [of env used base n st m cx task] by simp
qed simp

section \<open>The merge as a whole\<close>

lemma length_map_filter: "length (List.map_filter f xs) \<le> length xs"
  by (induction xs) (auto simp: List.map_filter_simps split: option.split)

lemma length_normalize_tasks: "length (normalize_tasks env tasks) \<le> length tasks"
  by (simp add: normalize_tasks_def length_map_filter)

text \<open>The steps a change removes: each was the step of a task that is gone, and shows no other.\<close>

definition removed_by :: "plan_env \<Rightarrow> plan_step list \<Rightarrow> task_change \<Rightarrow> (js_string, task_link) jsmap option \<Rightarrow> js_string set" where
  "removed_by env canonical change heard =
     (let cx = merge_context_of env canonical change heard in
      removed_steps cx (mg_claimed (claim_tasks cx (normalize_tasks env (tc_current change)) canonical)))"

lemma removed_by_gone:
  "i \<in> removed_by env canonical change heard \<Longrightarrow>
     \<exists>t. (t, i) \<in> set (cx_prior (merge_context_of env canonical change heard))
       \<and> t \<notin> ht_id ` set (normalize_tasks env (tc_current change))"
  by (auto simp: removed_by_def removed_steps_def Let_def merge_context_of_def)

lemma append_task_links: "ran (map_of (ap_taskLinks st)) \<subseteq> ran (map_of (ap_taskLinks (append_task env cx task st)))"
  by (auto simp: append_task_def Let_def ran_def jsmap_simps split: option.split) (metis option.distinct(1))+

lemma append_tasks_links: "ran (map_of (ap_taskLinks st)) \<subseteq> ran (map_of (ap_taskLinks (fold (append_task env cx) tasks st)))"
proof (induction tasks arbitrary: st)
  case (Cons task tasks)
  then show ?case using append_task_links [of st env cx task] by fastforce
qed simp

definition taken_over :: "js_string set \<Rightarrow> plan_step \<Rightarrow> plan_step \<Rightarrow> bool" where
  "taken_over shown a b \<longleftrightarrow> st_id b = st_id a \<and> st_blocker b = st_blocker a \<and> (st_id a \<notin> shown \<longrightarrow> b = a)"

lemma taken_over_ids: "list_all2 (taken_over shown) xs ys \<Longrightarrow> map st_id ys = map st_id xs"
  by (induction rule: list_all2_induct) (auto simp: taken_over_def)

lemma list_all2_filter_ids:
  "list_all2 P xs ys \<Longrightarrow> (\<And>x y. P x y \<Longrightarrow> Q x = Q y) \<Longrightarrow> list_all2 P (filter Q xs) (filter Q ys)"
  by (induction xs ys rule: list_all2_induct) auto

text \<open>The state in which the new steps are appended, and its relation to the plan.\<close>

lemma merge_setup:
  fixes heard :: "(js_string, task_link) jsmap option"
  assumes ok: "steps_ok canonical"
  obtains st cx where "cx = merge_context_of env canonical change heard"
    and "mergeProviderTaskChange env canonical change heard n =
      fold (append_task env cx) (normalize_tasks env (tc_current change)) st"
    and "ap_next st = n" and "append_inv env (st_id ` set canonical) (ap_kept st) n st"
    and "list_all2 (taken_over (tl_stepId ` ran (map_of (ap_taskLinks st))))
          (filter (\<lambda>s. st_id s \<notin> removed_by env canonical change heard) canonical) (ap_kept st)"
proof -
  let ?cx = "merge_context_of env canonical change heard"
  let ?current = "normalize_tasks env (tc_current change)"
  define st where "st = claim_tasks ?cx ?current canonical"
  obtain renamed size_now where ren: "apply_renames env ?cx st = (renamed, size_now)" by fastforce
  let ?start = "\<lparr>ap_kept = renamed, ap_total = size_now, ap_taskLinks = mg_taskLinks st, ap_next = n\<rparr>"
  have inv: "claims_inv canonical st" unfolding st_def by (rule claim_tasks_inv)
  note names = apply_renames_ok [OF inv ok, where env = env and cx = ?cx, unfolded ren fst_conv]
  let ?P = "\<lambda>a b. step_same a b \<and> (st_id a \<notin> mg_claimed st \<longrightarrow> b = a)"
  have "list_all2 ?P canonical (mg_steps st)" using inv by (simp add: claims_inv_def)
  then have kept: "list_all2 ?P (filter (\<lambda>s. st_id s \<notin> removed_by env canonical change heard) canonical) (kept_steps ?cx st)"
    unfolding kept_steps_def removed_by_def Let_def st_def [symmetric]
    by (rule list_all2_filter_ids) (auto simp: step_same_def)
  have claimed: "mg_claimed st \<subseteq> tl_stepId ` ran (map_of (mg_taskLinks st))" using inv by (simp add: claims_inv_def)
  have base: "list_all2 (taken_over (tl_stepId ` ran (map_of (mg_taskLinks st))))
      (filter (\<lambda>s. st_id s \<notin> removed_by env canonical change heard) canonical) renamed"
    by (rule list_all2_trans [OF _ kept names(2) [unfolded renamed_from_def]])
       (use claimed in \<open>auto simp: taken_over_def step_same_def\<close>)
  have "st_id ` set renamed \<subseteq> st_id ` set canonical"
    using arg_cong [OF taken_over_ids [OF base], where f = set] by auto
  then have "append_inv env (st_id ` set canonical) renamed n ?start"
    using names(1) by (simp add: append_inv_def room_inv_def)
  moreover have "mergeProviderTaskChange env canonical change heard n = fold (append_task env ?cx) ?current ?start"
    by (simp add: mergeProviderTaskChange_def Let_def st_def [symmetric] ren)
  ultimately show thesis using that [of ?cx ?start] base by simp
qed

definition no_room_for :: "plan_env \<Rightarrow> plan_step list \<Rightarrow> heard_task \<Rightarrow> bool" where
  "no_room_for env steps task \<longleftrightarrow> maximumWorkingPlanSteps \<le> length steps
     \<or> maximumWorkingPlanTextLength \<le> text_total st_text steps
     \<or> js_trim (redactDurableText env (JsString (ht_text task))) = []"

lemma bounded_text_None: "boundedWorkingPlanText env v m = None \<longleftrightarrow> m = 0 \<or> js_trim (redactDurableText env v) = []"
  by (auto simp: boundedWorkingPlanText_def Let_def)

lemma fit_None:
  "fit env size_now t 0 = None \<longleftrightarrow> maximumWorkingPlanTextLength \<le> size_now \<or> js_trim (redactDurableText env (JsString t)) = []"
  unfolding fit_def bounded_text_None by (auto simp: plan_limits min_def)

lemma append_task_grows:
  "(\<exists>new. ap_kept (append_task env cx task st) = ap_kept st @ new)
     \<and> dom (map_of (ap_taskLinks st)) \<subseteq> dom (map_of (ap_taskLinks (append_task env cx task st)))"
  by (auto simp: append_task_def Let_def jsmap_simps split: option.split)

lemma append_tasks_grow:
  "(\<exists>new. ap_kept (fold (append_task env cx) tasks st) = ap_kept st @ new)
     \<and> dom (map_of (ap_taskLinks st)) \<subseteq> dom (map_of (ap_taskLinks (fold (append_task env cx) tasks st)))"
proof (induction tasks arbitrary: st)
  case (Cons task tasks)
  obtain new where "ap_kept (append_task env cx task st) = ap_kept st @ new"
    using append_task_grows [of env cx task st] by blast
  then show ?case using append_task_grows [of env cx task st] Cons.IH [of "append_task env cx task st"] by auto
qed simp

lemma append_task_reports:
  assumes "ap_total st = text_total st_text (ap_kept st)"
  shows "map_of (ap_taskLinks (append_task env cx task st)) (ht_id task) \<noteq> None \<or> no_room_for env (ap_kept st) task"
  using assms fit_None [of env "ap_total st" "ht_text task"]
  by (auto simp: append_task_def no_room_for_def Let_def jsmap_simps split: option.split)

lemma no_room_grows: "no_room_for env steps task \<Longrightarrow> no_room_for env (steps @ new) task"
  by (auto simp: no_room_for_def text_total_def)

lemma append_tasks_report:
  fixes cx :: merge_context
  assumes "append_inv env used base n st" and "fresh_step_ids env n m used" and "ap_next st + length tasks \<le> n + m"
    and "task \<in> set tasks"
  defines "r \<equiv> fold (append_task env cx) tasks st"
  shows "map_of (ap_taskLinks r) (ht_id task) \<noteq> None \<or> no_room_for env (ap_kept r) task"
  using assms(1,3,4) unfolding r_def
proof (induction tasks arbitrary: st)
  case (Cons a tasks)
  let ?st = "append_task env cx a st"
  have step: "append_inv env used base n ?st" "ap_next ?st \<le> Suc (ap_next st)"
    using append_task_keeps [OF Cons.prems(1) assms(2), of cx a] Cons.prems(2) by auto
  show ?case
  proof (cases "task \<in> set tasks")
    case True
    then show ?thesis using Cons.IH [OF step(1) _ True] step(2) Cons.prems(2) by simp
  next
    case False
    then have eq: "a = task" using Cons.prems(3) by simp
    then have "map_of (ap_taskLinks ?st) (ht_id task) \<noteq> None \<or> no_room_for env (ap_kept st) task"
      using append_task_reports [of st env cx a] Cons.prems(1) by (simp add: append_inv_def)
    moreover obtain new where "ap_kept (fold (append_task env cx) tasks ?st) = ap_kept st @ new"
      using append_tasks_grow [of env cx "a # tasks" st] by auto
    moreover have "dom (map_of (ap_taskLinks ?st)) \<subseteq> dom (map_of (ap_taskLinks (fold (append_task env cx) tasks ?st)))"
      using append_tasks_grow by blast
    ultimately show ?thesis using no_room_grows eq by (auto simp: domIff subset_iff)
  qed
qed simp

lemma merge_steps_ok:
  assumes ok: "steps_ok canonical"
    and fresh: "fresh_step_ids env n (length (tc_current change)) (st_id ` set canonical)"
  shows "steps_ok (ap_kept (mergeProviderTaskChange env canonical change heard n))"
proof -
  obtain st cx where run: "mergeProviderTaskChange env canonical change heard n =
      fold (append_task env cx) (normalize_tasks env (tc_current change)) st" "ap_next st = n"
    and inv: "append_inv env (st_id ` set canonical) (ap_kept st) n st"
    by (rule merge_setup [OF ok])
  have "append_inv env (st_id ` set canonical) (ap_kept st) n (fold (append_task env cx) (normalize_tasks env (tc_current change)) st)"
    using length_normalize_tasks [of env "tc_current change"] run
    by (intro append_tasks_keep [OF inv fresh]) simp
  then show ?thesis by (simp add: run append_inv_def)
qed

text \<open>
  The plan's order is canonical. Whatever change of its task list a provider reports, the
  merged plan is the plan's own steps in their order, less the steps of tasks that are gone,
  followed by new steps under new ids. A step no reported task is linked to is untouched, and
  every step keeps its approval blocker.
\<close>

theorem merge_keeps_plan_order:
  assumes ok: "steps_ok canonical"
    and fresh: "fresh_step_ids env n (length (tc_current change)) (st_id ` set canonical)"
  shows "let r = mergeProviderTaskChange env canonical change heard n;
             cx = merge_context_of env canonical change heard;
             shown = tl_stepId ` ran (map_of (ap_taskLinks r));
             gone = removed_by env canonical change heard
         in (\<forall>i\<in>gone. \<exists>t. (t, i) \<in> set (cx_prior cx) \<and> t \<notin> cx_currentIds cx)
          \<and> (\<exists>own new. ap_kept r = own @ new \<and> map st_id new = map (createId env StepId) [n..<ap_next r]
               \<and> map st_id own = filter (\<lambda>i. i \<notin> gone) (map st_id canonical)
               \<and> (\<forall>a\<in>set canonical. \<forall>b\<in>set own. st_id b = st_id a \<longrightarrow>
                     st_blocker b = st_blocker a \<and> (st_id a \<notin> shown \<longrightarrow> b = a)))"
proof -
  let ?current = "normalize_tasks env (tc_current change)" and ?gone = "removed_by env canonical change heard"
  let ?r = "mergeProviderTaskChange env canonical change heard n"
  obtain st cx where run: "?r = fold (append_task env cx) ?current st" "ap_next st = n"
    and inv: "append_inv env (st_id ` set canonical) (ap_kept st) n st"
    and own: "list_all2 (taken_over (tl_stepId ` ran (map_of (ap_taskLinks st)))) (filter (\<lambda>s. st_id s \<notin> ?gone) canonical) (ap_kept st)"
    by (rule merge_setup [OF ok])
  have "append_inv env (st_id ` set canonical) (ap_kept st) n ?r"
    using length_normalize_tasks [of env "tc_current change"] run by (simp add: append_tasks_keep [OF inv fresh])
  then obtain new where new: "ap_kept ?r = ap_kept st @ new" "map st_id new = map (createId env StepId) [n..<ap_next ?r]"
    by (auto simp: append_inv_def)
  have ids: "map st_id (ap_kept st) = filter (\<lambda>i. i \<notin> ?gone) (map st_id canonical)"
    using taken_over_ids [OF own] by (simp add: filter_map o_def)
  have dist: "distinct (map st_id canonical)" using ok by (simp add: steps_ok_def validateWorkingPlanStepList_def)
  have shown: "tl_stepId ` ran (map_of (ap_taskLinks st)) \<subseteq> tl_stepId ` ran (map_of (ap_taskLinks ?r))"
    unfolding run using append_tasks_links [of st env cx ?current] by auto
  have same: "st_blocker b = st_blocker a \<and> (st_id a \<notin> tl_stepId ` ran (map_of (ap_taskLinks ?r)) \<longrightarrow> b = a)"
    if ab: "a \<in> set canonical" "b \<in> set (ap_kept st)" "st_id b = st_id a" for a b
  proof -
    obtain c where c: "c \<in> set canonical" "taken_over (tl_stepId ` ran (map_of (ap_taskLinks st))) c b"
      using list_all2_in_right [OF own ab(2)] by auto
    then have "c = a" using ab dist by (auto simp: taken_over_def distinct_map inj_on_def)
    then show ?thesis using c(2) shown by (auto simp: taken_over_def)
  qed
  have "\<forall>i\<in>?gone. \<exists>t. (t, i) \<in> set (cx_prior (merge_context_of env canonical change heard))
      \<and> t \<notin> cx_currentIds (merge_context_of env canonical change heard)"
    by (auto simp: removed_by_def removed_steps_def Let_def)
  then show ?thesis unfolding Let_def using new ids same by blast
qed

text \<open>
  No task a provider reports is dropped: after a merge each reported task is shown by a step
  of the plan, or stays out under the link of a step the person removed, unless the plan has no
  room left (128 steps or 65536 code units of text) or redaction leaves nothing of its text.
\<close>

theorem merge_reports_every_task:
  assumes ok: "steps_ok canonical"
    and fresh: "fresh_step_ids env n (length (tc_current change)) (st_id ` set canonical)"
    and task: "task \<in> set (normalize_tasks env (tc_current change))"
  shows "let r = mergeProviderTaskChange env canonical change heard n
         in map_of (ap_taskLinks r) (ht_id task) \<noteq> None \<or> no_room_for env (ap_kept r) task"
proof -
  obtain st cx where run: "mergeProviderTaskChange env canonical change heard n =
      fold (append_task env cx) (normalize_tasks env (tc_current change)) st" "ap_next st = n"
    and inv: "append_inv env (st_id ` set canonical) (ap_kept st) n st"
    by (rule merge_setup [OF ok])
  show ?thesis
    using append_tasks_report [OF inv fresh _ task, of cx] length_normalize_tasks [of env "tc_current change"] run
    by (simp add: Let_def)
qed

section \<open>A sample change\<close>

definition sample_plan_env :: plan_env where
  "sample_plan_env = \<lparr>redactDurableText = (\<lambda>v. case v of JsString s \<Rightarrow> s | JsOther _ \<Rightarrow> []),
     uuidSchema = (\<lambda>_. True), dateTimeSchema = (\<lambda>_. True),
     createId = (\<lambda>kind n. (case kind of EditId \<Rightarrow> 101 | ReceiptId \<Rightarrow> 114 | StepId \<Rightarrow> 115) # replicate n 49)\<rparr>"

definition sample_steps :: "plan_step list" where
  "sample_steps = [\<lparr>st_id = [65], st_text = [97], st_status = In_Progress, st_blocker = Some (Approval [80])\<rparr>,
     \<lparr>st_id = [66], st_text = [98], st_status = Pending, st_blocker = None\<rparr>,
     \<lparr>st_id = [67], st_text = [99], st_status = Pending, st_blocker = None\<rparr>]"

definition sample_change :: task_change where
  "sample_change = \<lparr>tc_previous = [\<lparr>pt_id = [49], pt_text = JsString [97], pt_status = In_Progress\<rparr>,
       \<lparr>pt_id = [50], pt_text = JsString [99], pt_status = Pending\<rparr>],
     tc_current = [\<lparr>pt_id = [49], pt_text = JsString [97, 97], pt_status = Completed\<rparr>,
       \<lparr>pt_id = [51], pt_text = JsString [100], pt_status = Pending\<rparr>],
     tc_deleted = []\<rparr>"

lemmas trimmed_eval = trimmed_def js_trim_def js_whitespace_def plan_limits

lemma sample_steps_ok: "steps_ok sample_steps"
  by (simp add: steps_ok_def step_ok_def sample_steps_def trimmed_eval validateWorkingPlanStepList_def text_total_def)

lemma sample_change_fresh: "fresh_step_ids sample_plan_env 0 (length (tc_current sample_change)) (st_id ` set sample_steps)"
  by (simp add: fresh_step_ids_def sample_plan_env_def sample_change_def sample_steps_def trimmed_eval upt_rec)

lemma sample_task: "\<lparr>ht_id = [51], ht_text = [100], ht_status = Pending\<rparr> \<in> set (normalize_tasks sample_plan_env (tc_current sample_change))"
  by (simp add: normalize_tasks_def sample_change_def sample_plan_env_def boundedWorkingPlanText_def trimmed_eval List.map_filter_simps)

theorem merge_keeps_plan_order_witness:
  "let r = mergeProviderTaskChange sample_plan_env sample_steps sample_change None 0;
       cx = merge_context_of sample_plan_env sample_steps sample_change None;
       shown = tl_stepId ` ran (map_of (ap_taskLinks r));
       gone = removed_by sample_plan_env sample_steps sample_change None
   in (\<forall>i\<in>gone. \<exists>t. (t, i) \<in> set (cx_prior cx) \<and> t \<notin> cx_currentIds cx)
    \<and> (\<exists>own new. ap_kept r = own @ new \<and> map st_id new = map (createId sample_plan_env StepId) [0..<ap_next r]
         \<and> map st_id own = filter (\<lambda>i. i \<notin> gone) (map st_id sample_steps)
         \<and> (\<forall>a\<in>set sample_steps. \<forall>b\<in>set own. st_id b = st_id a \<longrightarrow>
               st_blocker b = st_blocker a \<and> (st_id a \<notin> shown \<longrightarrow> b = a)))"
  by (rule merge_keeps_plan_order [OF sample_steps_ok sample_change_fresh])

theorem merge_reports_every_task_witness:
  "let r = mergeProviderTaskChange sample_plan_env sample_steps sample_change None 0
   in map_of (ap_taskLinks r) [51] \<noteq> None \<or> no_room_for sample_plan_env (ap_kept r) \<lparr>ht_id = [51], ht_text = [100], ht_status = Pending\<rparr>"
  using merge_reports_every_task [OF sample_steps_ok sample_change_fresh sample_task, of None] by simp

end
