(* ===== verification/Working_Plan.thy ===== *)
theory Working_Plan
  imports Plan_Merge "HOL-Library.Sublist"
begin

text \<open>
  The operations on a session's working plan (apps/daemon/src/working-plan.ts): the update from
  a provider's report, the edits a person submits, queues and discards, the approval blockers,
  the delivery to a provider, and the artifact that shows the plan. Each operation ends in the
  schema, so its result is a sum: the error it throws, or the plan it returns. Calls of the id
  factory are numbered; an operation takes the number of the next call.
\<close>

datatype plan_error =
    ProviderUpdateOfAnotherSession
  | EditClientMismatch
  | EditOfAnotherSession
  | PendingRequiresReplacement
  | PendingNoLongerExists
  | EditRevisionAhead
  | EditBaseMismatch
  | UnknownDraftStep
  | PendingDoesNotExist
  | PlanSchemaError

definition parse_plan :: "plan_env \<Rightarrow> working_plan \<Rightarrow> plan_error + working_plan" where
  "parse_plan env p = (case workingPlanSchema env p of None \<Rightarrow> Inl PlanSchemaError | Some q \<Rightarrow> Inr q)"

definition parse_receipt :: "plan_env \<Rightarrow> plan_receipt \<Rightarrow> plan_error + plan_receipt" where
  "parse_receipt env r = (case planEditReceiptSchema env r of None \<Rightarrow> Inl PlanSchemaError | Some q \<Rightarrow> Inr q)"

section \<open>Comparisons\<close>

definition sameStructure :: "(js_string \<times> js_string) list \<Rightarrow> (js_string \<times> js_string) list \<Rightarrow> bool" where
  "sameStructure left right \<longleftrightarrow>
     length left = length right \<and> list_all (\<lambda>(l, r). fst r = fst l \<and> snd r = snd l) (zip left right)"

definition sameProgress :: "plan_step list \<Rightarrow> plan_step list \<Rightarrow> bool" where
  "sameProgress left right \<longleftrightarrow>
     length left = length right \<and> list_all (\<lambda>(l, r). st_status r = st_status l \<and> st_blocker r = st_blocker l) (zip left right)"

record provider_target =
  tg_provider :: js_string
  tg_model :: js_string
  tg_providerThreadId :: js_string

definition sameProviderSync :: "provider_sync option \<Rightarrow> provider_sync \<Rightarrow> bool" where
  "sameProviderSync current y =
     (case current of None \<Rightarrow> False
      | Some c \<Rightarrow> sy_provider c = sy_provider y \<and> sy_model c = sy_model y
          \<and> sy_providerThreadId c = sy_providerThreadId y \<and> sy_structureRevision c = sy_structureRevision y)"

section \<open>Delivery to a provider\<close>

definition workingPlanNeedsProviderDelivery :: "working_plan \<Rightarrow> provider_target \<Rightarrow> bool" where
  "workingPlanNeedsProviderDelivery plan target =
     (case wp_providerSync plan of None \<Rightarrow> True
      | Some y \<Rightarrow> sy_provider y \<noteq> tg_provider target \<or> sy_model y \<noteq> tg_model target
          \<or> sy_providerThreadId y \<noteq> tg_providerThreadId target \<or> sy_structureRevision y \<noteq> wp_structureRevision plan)"

definition markWorkingPlanDelivered :: "plan_env \<Rightarrow> working_plan \<Rightarrow> provider_target \<Rightarrow> string \<Rightarrow> plan_error + working_plan" where
  "markWorkingPlanDelivered env plan target deliveredAt =
     (if \<not> workingPlanNeedsProviderDelivery plan target then Inr plan
      else parse_plan env (plan\<lparr>
        wp_revision := wp_revision plan + 1,
        wp_providerSync := Some \<lparr>sy_provider = tg_provider target, sy_model = tg_model target,
          sy_providerThreadId = tg_providerThreadId target,
          sy_structureRevision = wp_structureRevision plan, sy_deliveredAt = deliveredAt\<rparr>,
        wp_updatedAt := deliveredAt\<rparr>))"

fun status_text :: "plan_status \<Rightarrow> js_string" where
  "status_text Pending = js ''pending''"
| "status_text In_Progress = js ''in-progress''"
| "status_text Completed = js ''completed''"

text \<open>\<open>replaceAll\<close> of one code unit, and \<open>join\<close> with a separator.\<close>

definition replace_unit :: "js_char \<Rightarrow> js_string \<Rightarrow> js_string \<Rightarrow> js_string" where
  "replace_unit c by_text s = concat (map (\<lambda>x. if x = c then by_text else [x]) s)"

fun join_with :: "js_string \<Rightarrow> js_string list \<Rightarrow> js_string" where
  "join_with sep [] = []"
| "join_with sep [x] = x"
| "join_with sep (x # y # xs) = x @ sep @ join_with sep (y # xs)"

definition plan_context :: "working_plan \<Rightarrow> js_string" where
  "plan_context plan = replace_unit 60 [92, 117, 48, 48, 51, 99] (json_stringify (JObj
     [(js ''revision'', JNum (int (wp_revision plan))),
      (js ''structureRevision'', JNum (int (wp_structureRevision plan))),
      (js ''steps'', JArr (map (\<lambda>s. JObj [(js ''id'', JStr (st_id s)), (js ''text'', JStr (st_text s)),
         (js ''status'', JStr (status_text (st_status s)))]) (wp_steps plan)))]))"

definition agentPromptWithWorkingPlan :: "working_plan \<Rightarrow> js_string \<Rightarrow> js_string" where
  "agentPromptWithWorkingPlan plan userPrompt = join_with [10]
     [js ''Domovoi's working plan is canonical session state. Follow it unless the work requires replanning, and report progress through your plan mechanism.'',
      js ''<domovoi_working_plan>'', plan_context plan, js ''</domovoi_working_plan>'', [], userPrompt]"

section \<open>The update from a provider\<close>

record provider_update =
  pu_sessionId :: js_string
  pu_provider :: js_string
  pu_model :: js_string
  pu_providerThreadId :: js_string
  pu_steps :: "provider_step list"
  pu_taskChange :: "task_change option"
  pu_taskLinks :: "(js_string, task_link) jsmap option"
  pu_updatedAt :: string

record update_result =
  up_plan :: working_plan
  up_changed :: bool
  up_structureChanged :: bool
  up_taskLinks :: "(js_string, task_link) jsmap option"

definition providerSync :: "provider_update \<Rightarrow> nat \<Rightarrow> provider_sync" where
  "providerSync update structureRevision =
     \<lparr>sy_provider = pu_provider update, sy_model = pu_model update, sy_providerThreadId = pu_providerThreadId update,
      sy_structureRevision = structureRevision, sy_deliveredAt = pu_updatedAt update\<rparr>"

definition provider_steps :: "plan_env \<Rightarrow> plan_step list \<Rightarrow> provider_update \<Rightarrow> nat
    \<Rightarrow> plan_step list \<times> (js_string, task_link) jsmap option" where
  "provider_steps env current update n =
     (case pu_taskChange update of
        Some change \<Rightarrow>
          (let merged = mergeProviderTaskChange env current change (pu_taskLinks update) n
           in (ap_kept merged, Some (ap_taskLinks merged)))
      | None \<Rightarrow> (fst (replacedProviderSteps env current (pu_steps update) n), None))"

definition new_provider_plan :: "plan_env \<Rightarrow> provider_update \<Rightarrow> plan_step list \<Rightarrow> working_plan" where
  "new_provider_plan env update steps =
     (let structureRevision = (if steps = [] then 0 else 1) in
      \<lparr>wp_sessionId = pu_sessionId update, wp_revision = 1, wp_structureRevision = structureRevision, wp_steps = steps,
       wp_providerSync = Some (providerSync update structureRevision), wp_pendingEdit = None,
       wp_createdAt = pu_updatedAt update, wp_updatedAt = pu_updatedAt update\<rparr>)"

definition conflict_queued :: "bool \<Rightarrow> pending_edit option \<Rightarrow> pending_edit option" where
  "conflict_queued structureChanged pending =
     (if structureChanged \<and> map_option pe_status pending = Some Queued
      then map_option (\<lambda>e. e\<lparr>pe_status := Conflicted\<rparr>) pending else pending)"

definition updateWorkingPlanFromProvider :: "plan_env \<Rightarrow> working_plan option \<Rightarrow> provider_update \<Rightarrow> nat
    \<Rightarrow> plan_error + update_result" where
  "updateWorkingPlanFromProvider env current update n =
     (case current of
        None \<Rightarrow>
          (let (steps, links) = provider_steps env [] update n in
           rbind (parse_plan env (new_provider_plan env update steps)) (\<lambda>plan.
             Inr \<lparr>up_plan = plan, up_changed = True, up_structureChanged = True, up_taskLinks = links\<rparr>))
      | Some c \<Rightarrow>
          rbind (throw_if (wp_sessionId c \<noteq> pu_sessionId update) ProviderUpdateOfAnotherSession) (\<lambda>_.
          let (steps, links) = provider_steps env (wp_steps c) update n;
              structureChanged = (\<not> sameStructure (map step_key (wp_steps c)) (map step_key steps));
              structureRevision = wp_structureRevision c + (if structureChanged then 1 else 0);
              progressChanged = (\<not> sameProgress (wp_steps c) steps);
              nextProviderSync = providerSync update structureRevision;
              syncChanged = (\<not> sameProviderSync (wp_providerSync c) nextProviderSync);
              pendingEdit = conflict_queued structureChanged (wp_pendingEdit c);
              pendingChanged = (map_option pe_status pendingEdit \<noteq> map_option pe_status (wp_pendingEdit c));
              changed = (structureChanged \<or> progressChanged \<or> syncChanged \<or> pendingChanged)
          in if \<not> changed
             then Inr \<lparr>up_plan = c, up_changed = False, up_structureChanged = False, up_taskLinks = links\<rparr>
             else rbind (parse_plan env (c\<lparr>wp_revision := wp_revision c + 1, wp_structureRevision := structureRevision,
                    wp_steps := steps,
                    wp_providerSync := (if syncChanged then Some nextProviderSync else wp_providerSync c),
                    wp_pendingEdit := pendingEdit, wp_updatedAt := pu_updatedAt update\<rparr>)) (\<lambda>plan.
               Inr \<lparr>up_plan = plan, up_changed = True, up_structureChanged = structureChanged, up_taskLinks = links\<rparr>)))"

section \<open>Edits of a person\<close>

definition empty_step_text :: js_string where
  "empty_step_text = js ''[Empty plan step]''"

definition bounded_or_empty :: "plan_env \<Rightarrow> js_string \<Rightarrow> js_string" where
  "bounded_or_empty env t =
     (case boundedWorkingPlanText env (JsString t) maximumWorkingPlanStepTextLength of None \<Rightarrow> empty_step_text | Some b \<Rightarrow> b)"

definition boundedStructureSteps :: "plan_env \<Rightarrow> structure_step list \<Rightarrow> structure_step list" where
  "boundedStructureSteps env steps = map (\<lambda>s. \<lparr>sx_id = sx_id s, sx_text = bounded_or_empty env (sx_text s)\<rparr>) steps"

fun boundedDraftSteps :: "plan_env \<Rightarrow> draft_step list \<Rightarrow> js_string set \<Rightarrow> nat \<Rightarrow> plan_error + structure_step list" where
  "boundedDraftSteps env [] allowedIds n = Inr []"
| "boundedDraftSteps env (step # steps) allowedIds n =
     (case dr_id step of
        Some i \<Rightarrow>
          rbind (throw_if (i \<notin> allowedIds) UnknownDraftStep) (\<lambda>_.
          rbind (boundedDraftSteps env steps allowedIds n) (\<lambda>rest.
          Inr (\<lparr>sx_id = i, sx_text = bounded_or_empty env (dr_text step)\<rparr> # rest)))
      | None \<Rightarrow>
          rbind (boundedDraftSteps env steps allowedIds (n + 1)) (\<lambda>rest.
          Inr (\<lparr>sx_id = createId env StepId n, sx_text = bounded_or_empty env (dr_text step)\<rparr> # rest)))"

definition applyDraftStructure :: "plan_step list \<Rightarrow> structure_step list \<Rightarrow> plan_step list" where
  "applyDraftStructure current draft = map (\<lambda>step.
     let prior = find_step (sx_id step) current in
     \<lparr>st_id = sx_id step, st_text = sx_text step,
      st_status = (case prior of None \<Rightarrow> Pending | Some p \<Rightarrow> st_status p),
      st_blocker = (case prior of None \<Rightarrow> None | Some p \<Rightarrow> st_blocker p)\<rparr>) draft"

definition blank_plan :: "js_string \<Rightarrow> string \<Rightarrow> working_plan" where
  "blank_plan sessionId createdAt = \<lparr>wp_sessionId = sessionId, wp_revision = 0, wp_structureRevision = 0, wp_steps = [],
     wp_providerSync = None, wp_pendingEdit = None, wp_createdAt = createdAt, wp_updatedAt = createdAt\<rparr>"

record submit_result =
  sr_plan :: working_plan
  sr_receipt :: plan_receipt
  sr_structureChanged :: bool

definition check_replacement :: "working_plan option \<Rightarrow> js_string option \<Rightarrow> plan_error + unit" where
  "check_replacement current replaces =
     (case Option.bind current wp_pendingEdit of
        Some e \<Rightarrow> throw_if (replaces \<noteq> Some (pe_id e)) PendingRequiresReplacement
      | None \<Rightarrow> throw_if (replaces \<noteq> None) PendingNoLongerExists)"

definition edit_allowed_ids :: "working_plan option \<Rightarrow> js_string option \<Rightarrow> structure_step list \<Rightarrow> js_string set" where
  "edit_allowed_ids current replaces baseSteps = set (map sx_id baseSteps) \<union>
     (case Option.bind current wp_pendingEdit of
        Some e \<Rightarrow> if replaces = Some (pe_id e) then set (map sx_id (pe_draftSteps e)) else {}
      | None \<Rightarrow> {})"

definition held_plan :: "working_plan \<Rightarrow> plan_edit_params \<Rightarrow> structure_step list \<Rightarrow> structure_step list \<Rightarrow> js_string
    \<Rightarrow> edit_status \<Rightarrow> attribution \<Rightarrow> string \<Rightarrow> working_plan" where
  "held_plan start params baseSteps draftSteps editId status attribution updatedAt =
     start\<lparr>wp_revision := wp_revision start + 1,
       wp_pendingEdit := Some \<lparr>pe_id = editId, pe_basedOn = ed_basedOn params, pe_baseSteps = baseSteps,
         pe_draftSteps = draftSteps, pe_status = status, pe_submittedAt = updatedAt, pe_submittedBy = attribution\<rparr>,
       wp_updatedAt := updatedAt\<rparr>"

definition applied_plan :: "working_plan option \<Rightarrow> working_plan \<Rightarrow> structure_step list \<Rightarrow> string \<Rightarrow> working_plan \<times> bool" where
  "applied_plan current start draftSteps updatedAt =
     (let nextSteps = applyDraftStructure (wp_steps start) draftSteps;
          structureChanged = (\<not> sameStructure (map step_key (wp_steps start)) (map step_key nextSteps));
          changed = (structureChanged \<or> Option.bind current wp_pendingEdit \<noteq> None \<or> current = None)
      in (start\<lparr>wp_revision := wp_revision start + (if changed then 1 else 0),
            wp_structureRevision := wp_structureRevision start + (if structureChanged then 1 else 0),
            wp_steps := nextSteps, wp_pendingEdit := None,
            wp_updatedAt := (if changed then updatedAt else wp_updatedAt start)\<rparr>, structureChanged))"

definition edit_candidate :: "working_plan option \<Rightarrow> working_plan \<Rightarrow> plan_edit_params \<Rightarrow> structure_step list \<Rightarrow> structure_step list
    \<Rightarrow> js_string \<Rightarrow> bool \<Rightarrow> attribution \<Rightarrow> string \<Rightarrow> working_plan \<times> bool \<times> disposition" where
  "edit_candidate current start params baseSteps draftSteps editId turnPinned attribution updatedAt =
     (let stale = ed_basedOn params < wp_structureRevision start in
      if stale \<or> turnPinned
      then (held_plan start params baseSteps draftSteps editId (if stale then Conflicted else Queued) attribution updatedAt,
            False, if stale then DConflicted else DQueued)
      else case applied_plan current start draftSteps updatedAt of (p, b) \<Rightarrow> (p, b, Applied))"

definition submitWorkingPlanEdit :: "plan_env \<Rightarrow> working_plan option \<Rightarrow> plan_edit_params \<Rightarrow> attribution \<Rightarrow> bool \<Rightarrow> string \<Rightarrow> nat
    \<Rightarrow> plan_error + submit_result" where
  "submitWorkingPlanEdit env current input attribution turnPinned updatedAt n =
     rbind (case planEditParamsSchema input of None \<Rightarrow> Inl PlanSchemaError | Some p \<Rightarrow> Inr p) (\<lambda>params.
     rbind (throw_if (ed_client params \<noteq> at_client attribution) EditClientMismatch) (\<lambda>_.
     rbind (throw_if (case current of None \<Rightarrow> False | Some c \<Rightarrow> wp_sessionId c \<noteq> ed_sessionId params) EditOfAnotherSession) (\<lambda>_.
     rbind (check_replacement current (ed_replaces params)) (\<lambda>_.
     let start = (case current of None \<Rightarrow> blank_plan (ed_sessionId params) updatedAt | Some c \<Rightarrow> c);
         structureRevision = wp_structureRevision start in
     rbind (throw_if (ed_basedOn params > structureRevision) EditRevisionAhead) (\<lambda>_.
     let baseSteps = boundedStructureSteps env (ed_baseSteps params) in
     rbind (throw_if (ed_basedOn params = structureRevision
         \<and> \<not> sameStructure (map structure_key baseSteps) (map step_key (wp_steps start))) EditBaseMismatch) (\<lambda>_.
     let editId = createId env EditId n;
         receiptId = createId env ReceiptId (n + 1);
         allowedIds = edit_allowed_ids current (ed_replaces params) baseSteps in
     rbind (boundedDraftSteps env (ed_draftSteps params) allowedIds (n + 2)) (\<lambda>draftSteps.
     let (candidate, structureChanged, disposition) =
           edit_candidate current start params baseSteps draftSteps editId turnPinned attribution updatedAt in
     rbind (parse_plan env candidate) (\<lambda>plan.
     rbind (parse_receipt env \<lparr>rc_id = receiptId, rc_editId = editId, rc_sessionId = ed_sessionId params,
         rc_disposition = disposition, rc_basedOn = ed_basedOn params, rc_planRevision = wp_revision plan,
         rc_structureRevision = wp_structureRevision plan, rc_attribution = attribution, rc_createdAt = updatedAt\<rparr>) (\<lambda>receipt.
     Inr \<lparr>sr_plan = plan, sr_receipt = receipt, sr_structureChanged = structureChanged\<rparr>)))))))))"

record finalize_result =
  fr_plan :: working_plan
  fr_disposition :: "disposition option"
  fr_structureChanged :: bool

definition finalizePendingWorkingPlanEdit :: "plan_env \<Rightarrow> working_plan \<Rightarrow> string \<Rightarrow> plan_error + finalize_result" where
  "finalizePendingWorkingPlanEdit env current updatedAt =
     (case wp_pendingEdit current of
        None \<Rightarrow> Inr \<lparr>fr_plan = current, fr_disposition = None, fr_structureChanged = False\<rparr>
      | Some pending \<Rightarrow>
          if pe_status pending = Conflicted \<or> pe_basedOn pending \<noteq> wp_structureRevision current
            \<or> \<not> sameStructure (map structure_key (pe_baseSteps pending)) (map step_key (wp_steps current))
          then if pe_status pending = Conflicted
            then Inr \<lparr>fr_plan = current, fr_disposition = Some DConflicted, fr_structureChanged = False\<rparr>
            else rbind (parse_plan env (current\<lparr>wp_revision := wp_revision current + 1,
                   wp_pendingEdit := Some (pending\<lparr>pe_status := Conflicted\<rparr>), wp_updatedAt := updatedAt\<rparr>)) (\<lambda>plan.
              Inr \<lparr>fr_plan = plan, fr_disposition = Some DConflicted, fr_structureChanged = False\<rparr>)
          else let steps = applyDraftStructure (wp_steps current) (pe_draftSteps pending);
                   structureChanged = (\<not> sameStructure (map step_key (wp_steps current)) (map step_key steps)) in
            rbind (parse_plan env (current\<lparr>wp_revision := wp_revision current + 1,
                wp_structureRevision := wp_structureRevision current + (if structureChanged then 1 else 0),
                wp_steps := steps, wp_pendingEdit := None, wp_updatedAt := updatedAt\<rparr>)) (\<lambda>plan.
              Inr \<lparr>fr_plan = plan, fr_disposition = Some Applied, fr_structureChanged = structureChanged\<rparr>))"

definition discardPendingWorkingPlanEdit :: "plan_env \<Rightarrow> working_plan \<Rightarrow> js_string \<Rightarrow> attribution \<Rightarrow> string \<Rightarrow> nat
    \<Rightarrow> plan_error + working_plan \<times> plan_receipt" where
  "discardPendingWorkingPlanEdit env current editId attribution updatedAt n =
     (case wp_pendingEdit current of
        None \<Rightarrow> Inl PendingDoesNotExist
      | Some pending \<Rightarrow>
          rbind (throw_if (pe_id pending \<noteq> editId) PendingDoesNotExist) (\<lambda>_.
          rbind (parse_plan env (current\<lparr>wp_revision := wp_revision current + 1, wp_pendingEdit := None,
              wp_updatedAt := updatedAt\<rparr>)) (\<lambda>plan.
          rbind (parse_receipt env \<lparr>rc_id = createId env ReceiptId n, rc_editId = editId, rc_sessionId = wp_sessionId current,
              rc_disposition = Discarded, rc_basedOn = pe_basedOn pending, rc_planRevision = wp_revision plan,
              rc_structureRevision = wp_structureRevision plan, rc_attribution = attribution, rc_createdAt = updatedAt\<rparr>) (\<lambda>receipt.
          Inr (plan, receipt)))))"

section \<open>Approval blockers\<close>

text \<open>\<open>findIndex\<close> and the indexes \<open>flatMap\<close> collects, as positions in the list.\<close>

definition indexes :: "('a \<Rightarrow> bool) \<Rightarrow> 'a list \<Rightarrow> nat list" where
  "indexes P xs = filter (\<lambda>i. P (xs ! i)) [0..<length xs]"

definition blockWorkingPlanForApproval :: "plan_env \<Rightarrow> working_plan list \<Rightarrow> js_string \<Rightarrow> js_string \<Rightarrow> string
    \<Rightarrow> plan_error + working_plan list \<times> bool" where
  "blockWorkingPlanForApproval env plans sessionId approvalId updatedAt =
     (case indexes (\<lambda>p. wp_sessionId p = sessionId) plans of
        [] \<Rightarrow> Inr (plans, False)
      | planIndex # _ \<Rightarrow>
          (let plan = plans ! planIndex in
           case indexes (\<lambda>s. st_status s = In_Progress) (wp_steps plan) of
             [stepIndex] \<Rightarrow>
               if st_blocker (wp_steps plan ! stepIndex) \<noteq> None then Inr (plans, False)
               else rbind (parse_plan env (plan\<lparr>wp_revision := wp_revision plan + 1,
                      wp_steps := (wp_steps plan)[stepIndex := (wp_steps plan ! stepIndex)\<lparr>st_blocker := Some (Approval approvalId)\<rparr>],
                      wp_updatedAt := updatedAt\<rparr>)) (\<lambda>next_plan.
                    Inr (plans[planIndex := next_plan], True))
           | _ \<Rightarrow> Inr (plans, False)))"

definition blocked_by :: "js_string set \<Rightarrow> plan_step \<Rightarrow> bool" where
  "blocked_by approvalIds s = (case st_blocker s of None \<Rightarrow> False | Some (Approval a) \<Rightarrow> a \<in> approvalIds)"

definition unblock_step :: "js_string set \<Rightarrow> plan_step \<Rightarrow> plan_step" where
  "unblock_step approvalIds s = (if blocked_by approvalIds s then s\<lparr>st_blocker := None\<rparr> else s)"

fun clearWorkingPlanApprovalBlockers :: "plan_env \<Rightarrow> working_plan list \<Rightarrow> js_string set \<Rightarrow> string
    \<Rightarrow> plan_error + working_plan list \<times> js_string list" where
  "clearWorkingPlanApprovalBlockers env [] approvalIds updatedAt = Inr ([], [])"
| "clearWorkingPlanApprovalBlockers env (plan # plans) approvalIds updatedAt =
     (if \<not> list_ex (blocked_by approvalIds) (wp_steps plan)
      then rbind (clearWorkingPlanApprovalBlockers env plans approvalIds updatedAt) (\<lambda>(rest, ids). Inr (plan # rest, ids))
      else rbind (parse_plan env (plan\<lparr>wp_revision := wp_revision plan + 1,
             wp_steps := map (unblock_step approvalIds) (wp_steps plan), wp_updatedAt := updatedAt\<rparr>)) (\<lambda>next_plan.
           rbind (clearWorkingPlanApprovalBlockers env plans approvalIds updatedAt) (\<lambda>(rest, ids).
             Inr (next_plan # rest, wp_sessionId plan # ids))))"

section \<open>The plan as an artifact\<close>

datatype artifact_type = PlanArtifact | PreviewArtifact | DiffArtifact | TerminalArtifact

record artifact_variant =
  av_id :: js_string
  av_groupId :: js_string
  av_label :: js_string
  av_order :: nat

record artifact =
  ar_id :: js_string
  ar_sessionId :: js_string
  ar_title :: js_string
  ar_type :: artifact_type
  ar_revision :: nat
  ar_path :: "js_string option"
  ar_mimeType :: "js_string option"
  ar_content :: "js_string option"
  ar_variant :: "artifact_variant option"

text \<open>The fields of an annotation that are read here; the rest of an annotation is its extension.\<close>

record annotation =
  an_sessionId :: js_string
  an_artifactId :: js_string

definition render_step :: "nat \<times> plan_step \<Rightarrow> js_string" where
  "render_step = (\<lambda>(index, step). decimal_nat (index + 1) @ js ''. '' @ replace_unit 10 (10 # js ''   '') (st_text step))"

definition renderWorkingPlanMarkdown :: "plan_step list \<Rightarrow> js_string" where
  "renderWorkingPlanMarkdown steps =
     (let body = join_with [10] (map render_step (enumerate 0 steps)) in
      js ''# Working plan'' @ [10, 10] @ body @ (if body \<noteq> [] then [10] else []))"

definition plan_artifact_id :: "js_string \<Rightarrow> js_string" where
  "plan_artifact_id sessionId = js ''plan-'' @ sessionId"

definition isWorkingPlanArtifact :: "artifact \<Rightarrow> js_string \<Rightarrow> bool" where
  "isWorkingPlanArtifact artifact sessionId \<longleftrightarrow>
     ar_sessionId artifact = sessionId \<and> ar_type artifact = PlanArtifact
   \<and> (ar_id artifact = plan_artifact_id sessionId
      \<or> (ar_path artifact = None \<and> prefix (plan_artifact_id sessionId @ [45]) (ar_id artifact)))"

record sync_result =
  sn_artifacts :: "artifact list"
  sn_artifact :: artifact
  sn_changed :: bool

definition new_plan_artifact :: "working_plan \<Rightarrow> artifact" where
  "new_plan_artifact plan = \<lparr>ar_id = plan_artifact_id (wp_sessionId plan), ar_sessionId = wp_sessionId plan,
     ar_title = js ''Working plan'', ar_type = PlanArtifact, ar_revision = 1, ar_path = None,
     ar_mimeType = Some (js ''text/markdown''), ar_content = Some (renderWorkingPlanMarkdown (wp_steps plan)), ar_variant = None\<rparr>"

text \<open>
  The matching artifacts are objects of the array, so they are their positions in it; the one
  that is kept is the first with the stable id, or else the first that matches.
\<close>

definition syncWorkingPlanArtifact :: "artifact list \<Rightarrow> 'a annotation_scheme list \<Rightarrow> working_plan \<Rightarrow> bool
    \<Rightarrow> sync_result \<times> 'a annotation_scheme list" where
  "syncWorkingPlanArtifact artifacts annotations plan structureChanged =
     (let artifactId = plan_artifact_id (wp_sessionId plan);
          matching = indexes (\<lambda>a. isWorkingPlanArtifact a (wp_sessionId plan)) artifacts;
          stable = filter (\<lambda>i. ar_id (artifacts ! i) = artifactId) matching
      in if \<not> structureChanged \<and> stable \<noteq> []
         then (\<lparr>sn_artifacts = artifacts, sn_artifact = artifacts ! hd stable, sn_changed = False\<rparr>, annotations)
         else if matching = []
         then (\<lparr>sn_artifacts = artifacts @ [new_plan_artifact plan], sn_artifact = new_plan_artifact plan, sn_changed = True\<rparr>, annotations)
         else
           let mergedIds = set (map (\<lambda>i. ar_id (artifacts ! i)) matching);
               kept = (case stable of i # _ \<Rightarrow> i | [] \<Rightarrow> hd matching);
               artifact = (new_plan_artifact plan)\<lparr>ar_sessionId := ar_sessionId (artifacts ! kept),
                 ar_revision := sum_list (map (\<lambda>i. ar_revision (artifacts ! i)) matching) + 1\<rparr>
           in (\<lparr>sn_artifacts = concat (map (\<lambda>i. if i = kept then [artifact] else if i \<in> set matching then [] else [artifacts ! i])
                    [0..<length artifacts]), sn_artifact = artifact, sn_changed = True\<rparr>,
               map (\<lambda>a. if an_sessionId a = wp_sessionId plan \<and> an_artifactId a \<in> mergedIds
                        then a\<lparr>an_artifactId := artifactId\<rparr> else a) annotations))"

section \<open>What the final parse asks of a result\<close>

lemma parse_plan_valid: "parse_plan env p = Inr q \<Longrightarrow> plan_valid env q"
  by (auto simp: parse_plan_def dest: plans.parse_ok split: option.splits)

lemma valid_parse_plan: "plan_valid env p \<Longrightarrow> parse_plan env p = Inr p"
  by (simp add: parse_plan_def plans.ok_parse)

lemma valid_parse_receipt: "receipt_ok env r \<Longrightarrow> parse_receipt env r = Inr r"
  by (simp add: parse_receipt_def receipts.ok_parse)

lemma sameStructure_iff [simp]: "sameStructure xs ys \<longleftrightarrow> xs = ys"
  using sameWorkingPlanStructure_iff [of xs ys] unfolding sameWorkingPlanStructure_def sameStructure_def .

lemma sameProgress_keys:
  "map step_key xs = map step_key ys \<Longrightarrow> sameProgress xs ys \<Longrightarrow> xs = ys"
proof (induction xs arbitrary: ys)
  case (Cons x xs)
  then show ?case by (cases ys) (auto simp: sameProgress_def)
qed simp

lemma plan_valid_D:
  assumes "plan_valid env p"
  shows "steps_ok (wp_steps p)" and "wp_structureRevision p \<le> wp_revision p"
    and "pred_option (pending_ok env) (wp_pendingEdit p)"
    and "pending_consistent (wp_structureRevision p) (wp_steps p) (wp_pendingEdit p)"
    and "wp_structureRevision p = 0 \<Longrightarrow> wp_steps p = []"
    and "sync_consistent (wp_structureRevision p) (wp_providerSync p)"
  using assms by (auto simp: plan_valid_def plan_refinement_def)

lemma safe_nat_le: "safe_nat n \<Longrightarrow> m \<le> n \<Longrightarrow> safe_nat m"
  by (simp add: safe_nat_def)

section \<open>Provider updates\<close>

definition update_new_steps :: "provider_update \<Rightarrow> nat" where
  "update_new_steps u = (case pu_taskChange u of Some change \<Rightarrow> length (tc_current change) | None \<Rightarrow> length (pu_steps u))"

lemma provider_steps_ok:
  assumes "steps_ok current" and "fresh_step_ids env n (update_new_steps u) (st_id ` set current)"
  shows "steps_ok (fst (provider_steps env current u n))"
  using assms merge_steps_ok [of current env n] replacedProviderSteps_ok [of current env n "pu_steps u"]
  by (auto simp: provider_steps_def update_new_steps_def Let_def split: option.split)

definition update_target :: "provider_update \<Rightarrow> provider_target" where
  "update_target u = \<lparr>tg_provider = pu_provider u, tg_model = pu_model u, tg_providerThreadId = pu_providerThreadId u\<rparr>"

lemma conflict_queued_consistent:
  assumes "pending_consistent v steps e" and "sc \<longleftrightarrow> map step_key steps' \<noteq> map step_key steps"
  shows "pending_consistent (v + (if sc then 1 else 0)) steps' (conflict_queued sc e)"
  using assms by (cases e) (auto simp: conflict_queued_def split: edit_status.splits)

lemma conflict_queued_ok: "pred_option (pending_ok env) e \<Longrightarrow> pred_option (pending_ok env) (conflict_queued sc e)"
  by (cases e) (auto simp: conflict_queued_def pending_ok_def)

lemma sync_ok_revision: "sync_ok env (providerSync u k) \<Longrightarrow> safe_nat j \<Longrightarrow> sync_ok env (providerSync u j)"
  by (simp add: sync_ok_def providerSync_def)

lemma updated_plan_valid:
  assumes valid: "plan_valid env p" and sync: "sync_ok env (providerSync u 0)" and room: "safe_nat (wp_revision p + 1)"
    and steps: "steps_ok steps" and sc: "sc \<longleftrightarrow> map step_key steps \<noteq> map step_key (wp_steps p)"
  defines "revision \<equiv> wp_structureRevision p + (if sc then 1 else 0)"
  shows "plan_valid env (p\<lparr>wp_revision := wp_revision p + 1, wp_structureRevision := revision, wp_steps := steps,
      wp_providerSync := (if b then Some (providerSync u revision) else wp_providerSync p),
      wp_pendingEdit := conflict_queued sc (wp_pendingEdit p), wp_updatedAt := pu_updatedAt u\<rparr>)"
proof -
  note d = plan_valid_D [OF valid]
  have safe: "safe_nat revision" using room d(2) by (auto simp: revision_def intro: safe_nat_le)
  have start: "\<not> (revision = 0 \<and> 0 < length steps)"
    using sc d(5) by (auto simp: revision_def split: if_splits)
  have syncs: "sync_consistent revision (if b then Some (providerSync u revision) else wp_providerSync p)"
    using d(6) by (cases "wp_providerSync p") (auto simp: revision_def providerSync_def)
  have pend: "pending_consistent revision steps (conflict_queued sc (wp_pendingEdit p))"
    unfolding revision_def using conflict_queued_consistent [OF d(4) sc] .
  show ?thesis
    using valid steps room safe start syncs pend sync sync_ok_revision [OF sync safe] conflict_queued_ok [OF d(3)] d(2)
    by (auto simp: plan_valid_def plan_refinement_def revision_def sync_ok_def providerSync_def)
qed

text \<open>
  C3. A provider's report always yields a plan the schema accepts, whatever steps, tasks or
  deletions it holds: the update never throws on a valid plan of the same session. The revision
  rises by one exactly when something changed, the structure revision exactly when an id or a
  text changed, an unchanged plan is returned as it was, a queued edit of a person turns into a
  conflict exactly when the structure it was based on moved, and the plan then counts as
  delivered to the reporting provider.
\<close>

theorem provider_update_keeps_plan:
  assumes valid: "plan_valid env p" and session: "wp_sessionId p = pu_sessionId u"
    and sync: "sync_ok env (providerSync u 0)" and room: "safe_nat (wp_revision p + 1)"
    and fresh: "fresh_step_ids env n (update_new_steps u) (st_id ` set (wp_steps p))"
  shows "\<exists>r. updateWorkingPlanFromProvider env (Some p) u n = Inr r \<and> plan_valid env (up_plan r)
    \<and> (up_structureChanged r \<longleftrightarrow> map step_key (wp_steps (up_plan r)) \<noteq> map step_key (wp_steps p))
    \<and> wp_structureRevision (up_plan r) = wp_structureRevision p + (if up_structureChanged r then 1 else 0)
    \<and> wp_revision (up_plan r) = wp_revision p + (if up_changed r then 1 else 0)
    \<and> (\<not> up_changed r \<longrightarrow> up_plan r = p)
    \<and> wp_steps (up_plan r) = fst (provider_steps env (wp_steps p) u n)
    \<and> wp_pendingEdit (up_plan r) = conflict_queued (up_structureChanged r) (wp_pendingEdit p)
    \<and> \<not> workingPlanNeedsProviderDelivery (up_plan r) (update_target u)"
proof -
  obtain steps links where run: "provider_steps env (wp_steps p) u n = (steps, links)" by fastforce
  define sc where "sc \<longleftrightarrow> map step_key steps \<noteq> map step_key (wp_steps p)"
  define revision where "revision = wp_structureRevision p + (if sc then 1 else 0)"
  define same where "same \<longleftrightarrow> sameProviderSync (wp_providerSync p) (providerSync u revision)"
  define changed where "changed \<longleftrightarrow> sc \<or> \<not> sameProgress (wp_steps p) steps \<or> \<not> same
     \<or> map_option pe_status (conflict_queued sc (wp_pendingEdit p)) \<noteq> map_option pe_status (wp_pendingEdit p)"
  let ?q = "p\<lparr>wp_revision := wp_revision p + 1, wp_structureRevision := revision, wp_steps := steps,
      wp_providerSync := (if \<not> same then Some (providerSync u revision) else wp_providerSync p),
      wp_pendingEdit := conflict_queued sc (wp_pendingEdit p), wp_updatedAt := pu_updatedAt u\<rparr>"
  have steps: "steps_ok steps" using provider_steps_ok [OF plan_valid_D(1) [OF valid] fresh] run by simp
  have q: "plan_valid env ?q"
    unfolding revision_def by (rule updated_plan_valid [OF valid sync room steps sc_def])
  have eq: "updateWorkingPlanFromProvider env (Some p) u n =
      (if \<not> changed then Inr \<lparr>up_plan = p, up_changed = False, up_structureChanged = False, up_taskLinks = links\<rparr>
       else rbind (parse_plan env ?q) (\<lambda>plan. Inr \<lparr>up_plan = plan, up_changed = True, up_structureChanged = sc, up_taskLinks = links\<rparr>))"
    using session run
    by (simp add: updateWorkingPlanFromProvider_def throw_if_def Let_def changed_def same_def revision_def sc_def eq_commute [of "map step_key steps"])
  have delivered: "\<not> workingPlanNeedsProviderDelivery x (update_target u)"
    if "sameProviderSync (wp_providerSync x) (providerSync u (wp_structureRevision x))" for x
    using that by (auto simp: workingPlanNeedsProviderDelivery_def sameProviderSync_def providerSync_def update_target_def split: option.splits)
  show ?thesis
  proof (cases changed)
    case False
    then have "\<not> sc" "same" and "wp_steps p = steps"
      using sameProgress_keys [of "wp_steps p" steps] by (auto simp: changed_def sc_def)
    then show ?thesis using False eq valid run delivered [of p] by (simp add: revision_def same_def sc_def conflict_queued_def)
  next
    case True
    have "sameProviderSync (wp_providerSync ?q) (providerSync u (wp_structureRevision ?q))"
      using same_def by (auto simp: sameProviderSync_def)
    then show ?thesis using True eq q valid_parse_plan [OF q] run delivered [of ?q] by (simp add: revision_def sc_def)
  qed
qed

section \<open>Applying a draft\<close>

lemma applyDraftStructure_keys: "map step_key (applyDraftStructure current draft) = map structure_key draft"
  by (simp add: applyDraftStructure_def Let_def o_def)

lemma applyDraftStructure_ok:
  assumes "steps_ok current" and "structure_ok draft"
  shows "steps_ok (applyDraftStructure current draft)"
proof -
  let ?ss = "applyDraftStructure current draft"
  have ids: "map st_id ?ss = map sx_id draft" and texts: "map st_text ?ss = map sx_text draft"
    by (simp_all add: applyDraftStructure_def Let_def o_def)
  have "step_ok s" if "s \<in> set ?ss" for s
  proof -
    obtain d where d: "d \<in> set draft" and s: "s = hd (applyDraftStructure current [d])"
      using \<open>s \<in> set ?ss\<close> by (auto simp: applyDraftStructure_def)
    have "structure_step_ok d" using d assms(2) by (simp add: structure_ok_def list_all_iff)
    moreover have "step_ok p" if "find_step (sx_id d) current = Some p" for p
      using assms(1) find_step_D [OF that] by (simp add: steps_ok_def list_all_iff)
    ultimately show ?thesis
      using s by (auto simp: applyDraftStructure_def Let_def step_ok_def structure_step_ok_def split: option.splits)
  qed
  moreover have "length ?ss = length draft" by (simp add: applyDraftStructure_def)
  ultimately show ?thesis
    using assms(2) ids text_total_map [OF texts]
    by (simp add: steps_ok_def structure_ok_def validateWorkingPlanStepList_def list_all_iff)
qed

text \<open>A step of the new structure keeps the progress and the blocker of the step it was.\<close>

definition progress_kept :: "plan_step list \<Rightarrow> plan_step list \<Rightarrow> bool" where
  "progress_kept old new \<longleftrightarrow> list_all (\<lambda>s. case find_step (st_id s) old of
     None \<Rightarrow> st_status s = Pending \<and> st_blocker s = None
   | Some p \<Rightarrow> st_status s = st_status p \<and> st_blocker s = st_blocker p) new"

lemma applyDraftStructure_progress: "progress_kept current (applyDraftStructure current draft)"
  by (auto simp: progress_kept_def applyDraftStructure_def Let_def list_all_iff split: option.split)

lemma applied_valid:
  assumes valid: "plan_valid env p \<or> (\<exists>s t. p = blank_plan s t \<and> ref_ok s \<and> dateTimeSchema env t)"
    and room: "safe_nat (wp_revision p + 1)" and draft: "structure_ok draft" and now: "dateTimeSchema env now"
    and sc: "sc \<longleftrightarrow> map step_key (wp_steps p) \<noteq> map structure_key draft"
    and c: "wp_revision p = 0 \<longrightarrow> c" "sc \<longrightarrow> c"
  shows "plan_valid env (p\<lparr>wp_revision := wp_revision p + (if c then 1 else 0),
      wp_structureRevision := wp_structureRevision p + (if sc then 1 else 0),
      wp_steps := applyDraftStructure (wp_steps p) draft, wp_pendingEdit := None,
      wp_updatedAt := (if c then now else wp_updatedAt p)\<rparr>)"
proof -
  have facts: "ref_ok (wp_sessionId p)" "steps_ok (wp_steps p)" "pred_option (sync_ok env) (wp_providerSync p)"
    "dateTimeSchema env (wp_createdAt p)" "dateTimeSchema env (wp_updatedAt p)"
    "wp_structureRevision p \<le> wp_revision p" "sync_consistent (wp_structureRevision p) (wp_providerSync p)"
    "wp_structureRevision p = 0 \<longrightarrow> wp_steps p = []"
    using valid by (auto simp: plan_valid_def plan_refinement_def blank_plan_def steps_ok_def validateWorkingPlanStepList_def text_total_def)
  have "sync_consistent (wp_structureRevision p + (if sc then 1 else 0)) (wp_providerSync p)"
    using facts(7) by (cases "wp_providerSync p") auto
  moreover have "safe_nat (wp_revision p)" "safe_nat (wp_structureRevision p + 1)" "safe_nat (wp_structureRevision p)"
    using room facts(6) by (auto intro: safe_nat_le)
  moreover have "wp_structureRevision p = 0 \<and> \<not> sc \<longrightarrow> draft = []" using sc facts(8) by auto
  ultimately show ?thesis
    using facts room now c applyDraftStructure_ok [OF facts(2) draft]
    by (auto simp: plan_valid_def plan_refinement_def applyDraftStructure_def)
qed

text \<open>
  C29. An edit a person queued during a turn is applied when the turn ends: on a valid plan with a
  queued edit the finalisation never throws and never turns it into a conflict. The plan then
  has exactly the drafted steps, each step that was there before keeps its progress and its
  blocker, new ones are pending, and no edit is pending any more.
\<close>

theorem queued_edit_is_applied:
  assumes valid: "plan_valid env p" and pend: "wp_pendingEdit p = Some e" and queued: "pe_status e = Queued"
    and room: "safe_nat (wp_revision p + 1)" and now: "dateTimeSchema env now"
  shows "\<exists>q. finalizePendingWorkingPlanEdit env p now = Inr \<lparr>fr_plan = q, fr_disposition = Some Applied,
          fr_structureChanged = (map structure_key (pe_draftSteps e) \<noteq> map step_key (wp_steps p))\<rparr>
    \<and> plan_valid env q \<and> wp_pendingEdit q = None \<and> wp_revision q = wp_revision p + 1
    \<and> map step_key (wp_steps q) = map structure_key (pe_draftSteps e) \<and> progress_kept (wp_steps p) (wp_steps q)"
proof -
  note d = plan_valid_D [OF valid]
  define sc where "sc \<longleftrightarrow> map step_key (wp_steps p) \<noteq> map structure_key (pe_draftSteps e)"
  let ?q = "p\<lparr>wp_revision := wp_revision p + 1, wp_structureRevision := wp_structureRevision p + (if sc then 1 else 0),
      wp_steps := applyDraftStructure (wp_steps p) (pe_draftSteps e), wp_pendingEdit := None, wp_updatedAt := now\<rparr>"
  have draft: "structure_ok (pe_draftSteps e)" using d(3) pend by (simp add: pending_ok_def)
  have q: "plan_valid env ?q"
    using applied_valid [OF disjI1 [OF valid] room draft now sc_def, of True] by simp
  have "finalizePendingWorkingPlanEdit env p now =
      rbind (parse_plan env ?q) (\<lambda>plan. Inr \<lparr>fr_plan = plan, fr_disposition = Some Applied, fr_structureChanged = sc\<rparr>)"
    using pend queued d(4) by (simp add: finalizePendingWorkingPlanEdit_def Let_def applyDraftStructure_keys sc_def)
  then show ?thesis
    using q valid_parse_plan [OF q] applyDraftStructure_keys [of "wp_steps p"] applyDraftStructure_progress
    by (auto simp: sc_def)
qed

section \<open>Submitting an edit\<close>

text \<open>
  An edit the interface admits: its parameters parse, it comes from the authenticated client, it
  replaces the pending edit if there is one, it is based on this structure or an older one, its
  drafted steps are known or new, redaction leaves its texts as they are, and the id factory
  makes fresh ids.
\<close>

definition start_plan :: "working_plan option \<Rightarrow> plan_edit_params \<Rightarrow> string \<Rightarrow> working_plan" where
  "start_plan current params now = (case current of None \<Rightarrow> blank_plan (ed_sessionId params) now | Some c \<Rightarrow> c)"

definition redaction_keeps :: "plan_env \<Rightarrow> js_string \<Rightarrow> bool" where
  "redaction_keeps env t \<longleftrightarrow> redactDurableText env (JsString t) = t"

definition edit_admissible :: "plan_env \<Rightarrow> working_plan option \<Rightarrow> plan_edit_params \<Rightarrow> attribution \<Rightarrow> string \<Rightarrow> nat \<Rightarrow> bool" where
  "edit_admissible env current params a now n \<longleftrightarrow>
     (let start = start_plan current params now; allowed = edit_allowed_ids current (ed_replaces params) (ed_baseSteps params) in
      (case current of None \<Rightarrow> ref_ok (ed_sessionId params) | Some p \<Rightarrow> plan_valid env p \<and> wp_sessionId p = ed_sessionId params)
    \<and> edit_ok params \<and> ed_client params = at_client a \<and> attribution_ok env a \<and> dateTimeSchema env now
    \<and> ed_replaces params = map_option pe_id (Option.bind current wp_pendingEdit)
    \<and> ed_basedOn params \<le> wp_structureRevision start
    \<and> (ed_basedOn params < wp_structureRevision start \<or> map structure_key (ed_baseSteps params) = map step_key (wp_steps start))
    \<and> list_all (\<lambda>i. i \<in> allowed) (draft_ids (ed_draftSteps params))
    \<and> list_all (redaction_keeps env) (map sx_text (ed_baseSteps params) @ map dr_text (ed_draftSteps params))
    \<and> safe_nat (wp_revision start + 1)
    \<and> ref_ok (createId env EditId n) \<and> ref_ok (createId env ReceiptId (n + 1))
    \<and> fresh_step_ids env (n + 2) (length (ed_draftSteps params)) allowed)"

lemma bounded_or_empty_keeps: "text_ok t \<Longrightarrow> redaction_keeps env t \<Longrightarrow> bounded_or_empty env t = t"
  by (auto simp: bounded_or_empty_def boundedWorkingPlanText_def redaction_keeps_def trimmed_def plan_limits)

lemma boundedStructureSteps_keeps:
  assumes "structure_ok steps" and "list_all (redaction_keeps env) (map sx_text steps)"
  shows "boundedStructureSteps env steps = steps"
  using assms unfolding boundedStructureSteps_def
  by (intro map_idI) (simp add: structure_ok_def structure_step_ok_def list_all_iff bounded_or_empty_keeps)

definition drafted_as :: "draft_step \<Rightarrow> structure_step \<Rightarrow> bool" where
  "drafted_as d s \<longleftrightarrow> sx_text s = dr_text d \<and> (\<forall>i. dr_id d = Some i \<longrightarrow> sx_id s = i)"

lemma draft_ids_simps [simp]:
  "draft_ids [] = []"
  "draft_ids (d # ds) = (case dr_id d of None \<Rightarrow> draft_ids ds | Some i \<Rightarrow> i # draft_ids ds)"
  by (simp_all add: draft_ids_def List.map_filter_simps split: option.split)

lemma boundedDraftSteps_ok:
  assumes "list_all draft_step_ok ds" and "distinct (draft_ids ds)" and "set (draft_ids ds) \<subseteq> allowed"
    and "list_all (redaction_keeps env) (map dr_text ds)" and "fresh_step_ids env n (length ds) allowed"
  shows "\<exists>ss. boundedDraftSteps env ds allowed n = Inr ss \<and> list_all2 drafted_as ds ss \<and> list_all structure_step_ok ss
    \<and> distinct (map sx_id ss) \<and> sx_id ` set ss \<subseteq> set (draft_ids ds) \<union> createId env StepId ` {n..<n + length ds}"
  using assms
proof (induction ds arbitrary: n)
  case (Cons d ds)
  have keep: "bounded_or_empty env (dr_text d) = dr_text d"
    using Cons.prems by (simp add: bounded_or_empty_keeps draft_step_ok_def)
  have less: "fresh_step_ids env n (length ds) allowed" "fresh_step_ids env (n + 1) (length ds) allowed"
    using Cons.prems(5) by (auto intro: fresh_step_ids_part)
  show ?case
  proof (cases "dr_id d")
    case None
    let ?s = "\<lparr>sx_id = createId env StepId n, sx_text = dr_text d\<rparr>"
    obtain ss where ss: "boundedDraftSteps env ds allowed (n + 1) = Inr ss" "list_all2 drafted_as ds ss" "list_all structure_step_ok ss"
      "distinct (map sx_id ss)" "sx_id ` set ss \<subseteq> set (draft_ids ds) \<union> createId env StepId ` {n + 1..<n + 1 + length ds}"
      using Cons.IH [of "n + 1"] Cons.prems less None by auto
    have "createId env StepId n \<notin> sx_id ` set ss"
    proof
      assume "createId env StepId n \<in> sx_id ` set ss"
      then have "createId env StepId n \<in> set (draft_ids ds) \<union> createId env StepId ` {n + 1..<n + 1 + length ds}"
        using ss(5) by (rule set_mp [rotated])
      then consider "createId env StepId n \<in> set (draft_ids ds)"
        | k where "n + 1 \<le> k" "k < n + 1 + length ds" "createId env StepId k = createId env StepId n"
        by force
      then show False
      proof cases
        case 1
        then show ?thesis using fresh_step_ids_D(2) [OF Cons.prems(5), of n] Cons.prems(3) None by auto
      next
        case 2
        then show ?thesis using fresh_step_ids_D(3) [OF Cons.prems(5), of n k] by simp
      qed
    qed
    moreover have "structure_step_ok ?s"
      using fresh_step_ids_D(1) [OF Cons.prems(5), of n] Cons.prems(1) by (simp add: structure_step_ok_def draft_step_ok_def)
    ultimately show ?thesis
      using ss None keep drafted_as_def [of d ?s] by (intro exI [of _ "?s # ss"]) (auto simp: subset_iff)
  next
    case (Some i)
    let ?s = "\<lparr>sx_id = i, sx_text = dr_text d\<rparr>"
    obtain ss where ss: "boundedDraftSteps env ds allowed n = Inr ss" "list_all2 drafted_as ds ss" "list_all structure_step_ok ss"
      "distinct (map sx_id ss)" "sx_id ` set ss \<subseteq> set (draft_ids ds) \<union> createId env StepId ` {n..<n + length ds}"
      using Cons.IH [of n] Cons.prems less Some by auto
    have "i \<notin> createId env StepId ` {n..<n + length ds}"
      using fresh_step_ids_D(2) [OF Cons.prems(5)] Cons.prems(3) Some by auto
    then have "i \<notin> sx_id ` set ss" using ss(5) Cons.prems(2) Some by auto
    moreover have "structure_step_ok ?s" using Cons.prems(1) Some by (simp add: structure_step_ok_def draft_step_ok_def)
    ultimately show ?thesis
      using ss Some keep Cons.prems(3) drafted_as_def [of d ?s] by (intro exI [of _ "?s # ss"]) (auto simp: throw_if_def subset_iff)
  qed
qed simp

lemma drafted_texts: "list_all2 drafted_as ds ss \<Longrightarrow> map sx_text ss = map dr_text ds"
  by (induction rule: list_all2_induct) (auto simp: drafted_as_def)

lemma admissible_draft:
  assumes adm: "edit_admissible env current params a now n"
  obtains ss where "boundedDraftSteps env (ed_draftSteps params) (edit_allowed_ids current (ed_replaces params) (ed_baseSteps params)) (n + 2) = Inr ss"
    and "list_all2 drafted_as (ed_draftSteps params) ss" and "structure_ok ss"
proof -
  let ?ds = "ed_draftSteps params" and ?allowed = "edit_allowed_ids current (ed_replaces params) (ed_baseSteps params)"
  have "edit_ok params" and "list_all (\<lambda>i. i \<in> ?allowed) (draft_ids ?ds)" and "list_all (redaction_keeps env) (map dr_text ?ds)"
    and "fresh_step_ids env (n + 2) (length ?ds) ?allowed"
    using adm by (auto simp: edit_admissible_def Let_def)
  then obtain ss where ss: "boundedDraftSteps env ?ds ?allowed (n + 2) = Inr ss" "list_all2 drafted_as ?ds ss"
      "list_all structure_step_ok ss" "distinct (map sx_id ss)"
    using boundedDraftSteps_ok [of ?ds ?allowed env "n + 2"] by (auto simp: edit_ok_def list_all_iff)
  then have "structure_ok ss"
    using \<open>edit_ok params\<close> text_total_map [OF drafted_texts [OF ss(2)]] list_all2_lengthD [OF ss(2)]
    by (simp add: structure_ok_def edit_ok_def validateWorkingPlanStepList_def)
  then show thesis using that ss by blast
qed

lemma held_valid:
  assumes adm: "edit_admissible env current params a now n" and ss: "structure_ok ss"
    and status: "status = (if ed_basedOn params < wp_structureRevision (start_plan current params now) then Conflicted else Queued)"
  shows "plan_valid env (held_plan (start_plan current params now) params (ed_baseSteps params) ss (createId env EditId n) status a now)"
proof -
  let ?start = "start_plan current params now"
  have facts: "ref_ok (wp_sessionId ?start)" "steps_ok (wp_steps ?start)" "pred_option (sync_ok env) (wp_providerSync ?start)"
    "dateTimeSchema env (wp_createdAt ?start)" "wp_structureRevision ?start \<le> wp_revision ?start"
    "sync_consistent (wp_structureRevision ?start) (wp_providerSync ?start)" "wp_structureRevision ?start = 0 \<longrightarrow> wp_steps ?start = []"
    using adm
    by (auto simp: edit_admissible_def start_plan_def plan_valid_def plan_refinement_def blank_plan_def steps_ok_def
          validateWorkingPlanStepList_def text_total_def Let_def split: option.splits)
  have room: "safe_nat (wp_revision ?start + 1)" using adm by (simp add: edit_admissible_def Let_def)
  then have "safe_nat (wp_structureRevision ?start)" using facts(5) by (auto intro: safe_nat_le)
  then show ?thesis
    using facts room ss adm status
    by (auto simp: held_plan_def plan_valid_def plan_refinement_def pending_ok_def edit_admissible_def edit_ok_def Let_def)
qed

text \<open>
  C22. What becomes of an admissible edit depends on two things only. Based on an older structure
  it is kept as a conflict; submitted while a turn is pinned it is queued; in both cases the
  steps and the structure revision stay as they were. Otherwise it is applied at once: the plan
  has the drafted texts in order under the drafted ids, each step that was there before keeps
  its progress and its blocker, and no edit is pending. The submission never throws, and its
  result and its receipt are ones the schemas accept.
\<close>

theorem edit_outcome:
  assumes adm: "edit_admissible env current params a now n"
  defines "start \<equiv> start_plan current params now"
  defines "stale \<equiv> ed_basedOn params < wp_structureRevision start"
  shows "\<exists>r. submitWorkingPlanEdit env current params a turnPinned now n = Inr r
    \<and> plan_valid env (sr_plan r) \<and> receipt_ok env (sr_receipt r)
    \<and> rc_disposition (sr_receipt r) = (if stale then DConflicted else if turnPinned then DQueued else Applied)
    \<and> (if stale \<or> turnPinned
       then wp_steps (sr_plan r) = wp_steps start \<and> wp_structureRevision (sr_plan r) = wp_structureRevision start
         \<and> (\<exists>e. wp_pendingEdit (sr_plan r) = Some e \<and> pe_id e = rc_editId (sr_receipt r)
              \<and> pe_status e = (if stale then Conflicted else Queued)
              \<and> list_all2 drafted_as (ed_draftSteps params) (pe_draftSteps e))
       else wp_pendingEdit (sr_plan r) = None \<and> progress_kept (wp_steps start) (wp_steps (sr_plan r))
         \<and> (\<exists>ss. list_all2 drafted_as (ed_draftSteps params) ss \<and> map step_key (wp_steps (sr_plan r)) = map structure_key ss))"
proof -
  let ?base = "ed_baseSteps params" and ?edit = "createId env EditId n"
  obtain ss where draft: "boundedDraftSteps env (ed_draftSteps params) (edit_allowed_ids current (ed_replaces params) ?base) (n + 2) = Inr ss"
      "list_all2 drafted_as (ed_draftSteps params) ss" "structure_ok ss"
    by (rule admissible_draft [OF adm])
  have params: "planEditParamsSchema params = Some params"
    using adm by (simp add: edit_admissible_def Let_def edits.ok_parse)
  have base: "boundedStructureSteps env ?base = ?base"
    using adm by (intro boundedStructureSteps_keeps) (auto simp: edit_admissible_def edit_ok_def Let_def)
  have guards: "check_replacement current (ed_replaces params) = Inr ()" "ed_client params = at_client a"
    "(case current of None \<Rightarrow> False | Some c \<Rightarrow> wp_sessionId c \<noteq> ed_sessionId params) = False"
    "\<not> ed_basedOn params > wp_structureRevision start"
    "\<not> (ed_basedOn params = wp_structureRevision start \<and> map structure_key ?base \<noteq> map step_key (wp_steps start))"
    using adm by (auto simp: edit_admissible_def check_replacement_def start_def Let_def split: option.splits)
  define out where "out = edit_candidate current start params ?base ss ?edit turnPinned a now"
  obtain q sc disp where out: "out = (q, sc, disp)" by (cases out)
  have q: "plan_valid env q"
  proof (cases "stale \<or> turnPinned")
    case True
    then show ?thesis using held_valid [OF adm draft(3) refl] out by (auto simp: out_def edit_candidate_def stale_def start_def Let_def)
  next
    case False
    let ?c = "map step_key (wp_steps start) \<noteq> map structure_key ss \<or> Option.bind current wp_pendingEdit \<noteq> None \<or> current = None"
    have valid: "plan_valid env start \<or> (\<exists>s t. start = blank_plan s t \<and> ref_ok s \<and> dateTimeSchema env t)"
      and room: "safe_nat (wp_revision start + 1)" and now: "dateTimeSchema env now" and "wp_revision start = 0 \<longrightarrow> ?c"
      using adm by (auto simp: edit_admissible_def start_def start_plan_def plan_valid_def Let_def split: option.splits)
    then show ?thesis
      using applied_valid [OF valid room draft(3) now refl, of ?c] False out
      by (auto simp: out_def edit_candidate_def stale_def applied_plan_def Let_def applyDraftStructure_keys)
  qed
  let ?receipt = "\<lparr>rc_id = createId env ReceiptId (n + 1), rc_editId = ?edit, rc_sessionId = ed_sessionId params,
      rc_disposition = disp, rc_basedOn = ed_basedOn params, rc_planRevision = wp_revision q,
      rc_structureRevision = wp_structureRevision q, rc_attribution = a, rc_createdAt = now\<rparr>"
  have receipt: "receipt_ok env ?receipt"
    using adm q by (auto simp: receipt_ok_def edit_admissible_def edit_ok_def plan_valid_def Let_def)
  have "submitWorkingPlanEdit env current params a turnPinned now n = Inr \<lparr>sr_plan = q, sr_receipt = ?receipt, sr_structureChanged = sc\<rparr>"
    using params base guards draft(1) valid_parse_plan [OF q] valid_parse_receipt [OF receipt] out
    by (simp add: submitWorkingPlanEdit_def throw_if_def Let_def start_plan_def [symmetric] start_def [symmetric] out_def [symmetric])
  moreover have "(disp, q) = (if stale \<or> turnPinned
      then (if stale then DConflicted else DQueued, held_plan start params ?base ss ?edit (if stale then Conflicted else Queued) a now)
      else (Applied, fst (applied_plan current start ss now)))"
    using out by (auto simp: out_def edit_candidate_def stale_def Let_def split: if_splits prod.splits)
  ultimately show ?thesis
    using q receipt draft(2) applyDraftStructure_keys [of "wp_steps start" ss] applyDraftStructure_progress [of "wp_steps start" ss]
    by (auto simp: held_plan_def applied_plan_def Let_def split: if_splits)
qed

section \<open>Blocking and clearing\<close>

lemma indexes_iff [simp]: "i \<in> set (indexes P xs) \<longleftrightarrow> i < length xs \<and> P (xs ! i)"
  by (auto simp: indexes_def)

lemma map_list_update_id: "f x = f (xs ! i) \<Longrightarrow> map f (xs[i := x]) = map f xs"
  by (simp add: map_update) (metis list_update_beyond list_update_id map_update not_le)

text \<open>Only progress and blockers move: the plan stays valid under new steps with the same structure.\<close>

lemma steps_update_valid:
  assumes valid: "plan_valid env p" and room: "safe_nat (wp_revision p + 1)" and now: "dateTimeSchema env t"
    and keys: "map step_key steps = map step_key (wp_steps p)" and ok: "list_all step_ok steps"
  shows "plan_valid env (p\<lparr>wp_revision := wp_revision p + 1, wp_steps := steps, wp_updatedAt := t\<rparr>)"
proof -
  note d = plan_valid_D [OF valid]
  have ids: "map st_id steps = map st_id (wp_steps p)" and texts: "map st_text steps = map st_text (wp_steps p)"
    and len: "length steps = length (wp_steps p)"
    using arg_cong [OF keys, of "map fst"] arg_cong [OF keys, of "map snd"] arg_cong [OF keys, of length]
    by (simp_all add: o_def)
  have "steps_ok steps"
    using d(1) ok ids text_total_map [OF texts] len by (simp add: steps_ok_def validateWorkingPlanStepList_def)
  moreover have "pending_consistent (wp_structureRevision p) steps (wp_pendingEdit p)"
    using d(4) keys by (cases "wp_pendingEdit p") (auto split: edit_status.splits)
  ultimately show ?thesis
    using valid room now len by (auto simp: plan_valid_def plan_refinement_def)
qed

definition clear_plan :: "js_string set \<Rightarrow> string \<Rightarrow> working_plan \<Rightarrow> working_plan" where
  "clear_plan approvals t p = (if list_ex (blocked_by approvals) (wp_steps p)
     then p\<lparr>wp_revision := wp_revision p + 1, wp_steps := map (unblock_step approvals) (wp_steps p), wp_updatedAt := t\<rparr> else p)"

lemma unblock_step_facts:
  "step_key (unblock_step approvals s) = step_key s" "step_ok s \<Longrightarrow> step_ok (unblock_step approvals s)"
  by (auto simp: unblock_step_def step_ok_def)

lemma unblock_blocked: "st_blocker s = None \<Longrightarrow> unblock_step {a} (s\<lparr>st_blocker := Some (Approval a)\<rparr>) = s"
  by (cases s) (simp add: unblock_step_def blocked_by_def)

lemma clear_plan_valid:
  assumes "plan_valid env p" and "safe_nat (wp_revision p + 1)" and "dateTimeSchema env t"
  shows "plan_valid env (clear_plan approvals t p)"
proof -
  have "list_all step_ok (wp_steps p)" using plan_valid_D(1) [OF assms(1)] by (simp add: steps_ok_def)
  then show ?thesis
    using assms(1) steps_update_valid [OF assms, of "map (unblock_step approvals) (wp_steps p)"]
    by (auto simp: clear_plan_def o_def list_all_iff unblock_step_facts)
qed

lemma clear_blockers_eq:
  assumes "list_all (\<lambda>p. plan_valid env p \<and> safe_nat (wp_revision p + 1)) plans" and "dateTimeSchema env t"
  shows "clearWorkingPlanApprovalBlockers env plans approvals t =
    Inr (map (clear_plan approvals t) plans, map wp_sessionId (filter (\<lambda>p. list_ex (blocked_by approvals) (wp_steps p)) plans))"
  using assms
proof (induction plans)
  case (Cons p plans)
  have "plan_valid env (clear_plan approvals t p)" using Cons.prems clear_plan_valid by simp
  then show ?case using Cons valid_parse_plan [of env "clear_plan approvals t p"]
    by (cases "list_ex (blocked_by approvals) (wp_steps p)") (simp_all add: clear_plan_def [of _ _ p])
qed simp

lemma clear_plan_steps: "wp_steps (clear_plan approvals t p) = map (unblock_step approvals) (wp_steps p)"
  by (auto simp: clear_plan_def unblock_step_def list_ex_iff intro!: map_idI [symmetric])

lemma block_result:
  assumes valid: "list_all (\<lambda>p. plan_valid env p \<and> safe_nat (wp_revision p + 1)) plans"
    and a: "ref_ok approvalId" and now: "dateTimeSchema env t"
  shows "blockWorkingPlanForApproval env plans sessionId approvalId t = Inr (plans, False)
    \<or> (\<exists>k j q. k < length plans \<and> wp_sessionId (plans ! k) = sessionId \<and> j < length (wp_steps (plans ! k))
        \<and> indexes (\<lambda>s. st_status s = In_Progress) (wp_steps (plans ! k)) = [j] \<and> st_blocker (wp_steps (plans ! k) ! j) = None
        \<and> q = (plans ! k)\<lparr>wp_revision := wp_revision (plans ! k) + 1,
             wp_steps := (wp_steps (plans ! k))[j := (wp_steps (plans ! k) ! j)\<lparr>st_blocker := Some (Approval approvalId)\<rparr>],
             wp_updatedAt := t\<rparr>
        \<and> plan_valid env q
        \<and> blockWorkingPlanForApproval env plans sessionId approvalId t = Inr (plans[k := q], True))"
proof (cases "\<exists>k ks j. indexes (\<lambda>p. wp_sessionId p = sessionId) plans = k # ks
    \<and> indexes (\<lambda>s. st_status s = In_Progress) (wp_steps (plans ! k)) = [j] \<and> st_blocker (wp_steps (plans ! k) ! j) = None")
  case False
  then show ?thesis by (auto simp: blockWorkingPlanForApproval_def Let_def split: list.splits)
next
  case True
  then obtain k ks j where k: "indexes (\<lambda>p. wp_sessionId p = sessionId) plans = k # ks"
    and j: "indexes (\<lambda>s. st_status s = In_Progress) (wp_steps (plans ! k)) = [j]"
    and none: "st_blocker (wp_steps (plans ! k) ! j) = None" by blast
  let ?p = "plans ! k"
  let ?s = "wp_steps ?p ! j"
  let ?steps = "(wp_steps ?p)[j := ?s\<lparr>st_blocker := Some (Approval approvalId)\<rparr>]"
  let ?q = "?p\<lparr>wp_revision := wp_revision ?p + 1, wp_steps := ?steps, wp_updatedAt := t\<rparr>"
  have kp: "k < length plans" "wp_sessionId ?p = sessionId"
    using indexes_iff [of k "\<lambda>p. wp_sessionId p = sessionId" plans] by (simp_all add: k)
  have js: "j < length (wp_steps ?p)" "st_status ?s = In_Progress"
    using indexes_iff [of j "\<lambda>s. st_status s = In_Progress" "wp_steps ?p"] by (simp_all add: j)
  have p: "plan_valid env ?p" "safe_nat (wp_revision ?p + 1)" using valid kp by (auto simp: list_all_length)
  have oks: "list_all step_ok (wp_steps ?p)" using plan_valid_D(1) [OF p(1)] by (simp add: steps_ok_def)
  then have "step_ok (?s\<lparr>st_blocker := Some (Approval approvalId)\<rparr>)"
    using js a by (auto simp: step_ok_def list_all_length)
  then have "list_all step_ok ?steps" using oks by (auto simp: list_all_iff dest!: set_update_subset_insert [THEN subsetD])
  moreover have "map step_key ?steps = map step_key (wp_steps ?p)" by (rule map_list_update_id) simp
  ultimately have q: "plan_valid env ?q" by (intro steps_update_valid [OF p now])
  have "blockWorkingPlanForApproval env plans sessionId approvalId t = Inr (plans[k := ?q], True)"
    using k j none valid_parse_plan [OF q] by (simp add: blockWorkingPlanForApproval_def Let_def)
  then show ?thesis using kp js j none q by blast
qed

text \<open>
  C37. Waiting for an approval leaves no trace once it is resolved. On valid plans neither the
  blocking nor the clearing throws; blocking marks at most one step, the only one in progress in
  the session's plan; and clearing that approval restores the steps of every plan exactly and
  reports the one session that changed.
\<close>

theorem approval_block_round_trip:
  assumes valid: "list_all (\<lambda>p. plan_valid env p \<and> safe_nat (wp_revision p + 2)) plans"
    and a: "ref_ok approvalId" and now: "dateTimeSchema env t" "dateTimeSchema env t'"
    and new: "list_all (\<lambda>p. \<not> list_ex (blocked_by {approvalId}) (wp_steps p)) plans"
  shows "\<exists>plans' changed plans''. blockWorkingPlanForApproval env plans sessionId approvalId t = Inr (plans', changed)
    \<and> list_all (plan_valid env) plans'
    \<and> clearWorkingPlanApprovalBlockers env plans' {approvalId} t' = Inr (plans'', if changed then [sessionId] else [])
    \<and> map wp_steps plans'' = map wp_steps plans"
proof -
  have valid1: "list_all (\<lambda>p. plan_valid env p \<and> safe_nat (wp_revision p + 1)) plans"
    using valid by (auto simp: list_all_iff intro: safe_nat_le)
  have idle: "map (unblock_step {approvalId}) (wp_steps p) = wp_steps p" if "p \<in> set plans" for p
    using new that by (intro map_idI) (auto simp: list_all_iff list_ex_iff unblock_step_def)
  consider (same) "blockWorkingPlanForApproval env plans sessionId approvalId t = Inr (plans, False)"
    | (block) k j q where "k < length plans" "wp_sessionId (plans ! k) = sessionId" "j < length (wp_steps (plans ! k))"
        "st_blocker (wp_steps (plans ! k) ! j) = None" "plan_valid env q"
        "q = (plans ! k)\<lparr>wp_revision := wp_revision (plans ! k) + 1,
             wp_steps := (wp_steps (plans ! k))[j := (wp_steps (plans ! k) ! j)\<lparr>st_blocker := Some (Approval approvalId)\<rparr>],
             wp_updatedAt := t\<rparr>"
        "blockWorkingPlanForApproval env plans sessionId approvalId t = Inr (plans[k := q], True)"
    using block_result [OF valid1 a now(1)] by blast
  then show ?thesis
  proof cases
    case same
    have "filter (\<lambda>p. list_ex (blocked_by {approvalId}) (wp_steps p)) plans = []"
      using new by (auto simp: filter_empty_conv list_all_iff)
    then show ?thesis
      using same clear_blockers_eq [OF valid1 now(2)] valid1 idle
      by (auto simp: list_all_iff clear_plan_steps o_def)
  next
    case block
    let ?plans = "plans[k := q]"
    have all: "list_all (\<lambda>p. plan_valid env p \<and> safe_nat (wp_revision p + 1)) ?plans"
      using valid block by (auto simp: list_all_length nth_list_update intro: safe_nat_le)
    have restored: "map (unblock_step {approvalId}) (wp_steps q) = wp_steps (plans ! k)"
    proof -
      have "map (unblock_step {approvalId}) (wp_steps q) = (map (unblock_step {approvalId}) (wp_steps (plans ! k)))[j := wp_steps (plans ! k) ! j]"
        using block unblock_blocked [OF block(4)] by (simp add: map_update)
      then show ?thesis using idle [of "plans ! k"] block by simp
    qed
    have marked: "list_ex (blocked_by {approvalId}) (wp_steps q)"
      using block by (auto simp: list_ex_length blocked_by_def intro!: exI [of _ j])
    have "filter (\<lambda>p. list_ex (blocked_by {approvalId}) (wp_steps p)) ?plans = [q]"
    proof -
      have "?plans = take k plans @ q # drop (Suc k) plans" using block by (simp add: upd_conv_take_nth_drop)
      moreover have "filter (\<lambda>p. list_ex (blocked_by {approvalId}) (wp_steps p)) (take k plans) = []"
        "filter (\<lambda>p. list_ex (blocked_by {approvalId}) (wp_steps p)) (drop (Suc k) plans) = []"
        using new by (auto simp: filter_empty_conv list_all_iff dest: in_set_takeD in_set_dropD)
      ultimately show ?thesis using marked by simp
    qed
    moreover have "map (\<lambda>p. map (unblock_step {approvalId}) (wp_steps p)) ?plans = map wp_steps plans"
    proof -
      have "map (\<lambda>p. map (unblock_step {approvalId}) (wp_steps p)) plans = map wp_steps plans" using idle by simp
      then have "map (\<lambda>p. map (unblock_step {approvalId}) (wp_steps p)) ?plans = (map wp_steps plans)[k := wp_steps (plans ! k)]"
        by (simp only: map_update restored)
      then show ?thesis by (simp add: map_update [symmetric])
    qed
    ultimately show ?thesis
      using block clear_blockers_eq [OF all now(2)] all
      by (auto simp: clear_plan_steps o_def list_all_iff)
  qed
qed

section \<open>Delivery and discarding\<close>

text \<open>
  Delivering a valid plan to a target with trimmed names never throws, leaves the steps alone,
  and is needed no more afterwards.
\<close>

lemma delivery_once:
  assumes valid: "plan_valid env p" and room: "safe_nat (wp_revision p + 1)" and now: "dateTimeSchema env t"
    and target: "trimmed 64 (tg_provider target)" "trimmed 256 (tg_model target)" "ref_ok (tg_providerThreadId target)"
  shows "\<exists>q. markWorkingPlanDelivered env p target t = Inr q \<and> plan_valid env q \<and> wp_steps q = wp_steps p
    \<and> \<not> workingPlanNeedsProviderDelivery q target \<and> markWorkingPlanDelivered env q target t' = Inr q"
proof (cases "workingPlanNeedsProviderDelivery p target")
  case True
  let ?q = "p\<lparr>wp_revision := wp_revision p + 1,
        wp_providerSync := Some \<lparr>sy_provider = tg_provider target, sy_model = tg_model target,
          sy_providerThreadId = tg_providerThreadId target,
          sy_structureRevision = wp_structureRevision p, sy_deliveredAt = t\<rparr>, wp_updatedAt := t\<rparr>"
  have q: "plan_valid env ?q" using valid room now target by (auto simp: plan_valid_def plan_refinement_def sync_ok_def)
  then show ?thesis using True valid_parse_plan [OF q]
    by (auto simp: markWorkingPlanDelivered_def workingPlanNeedsProviderDelivery_def)
qed (use valid in \<open>simp add: markWorkingPlanDelivered_def\<close>)

text \<open>Discarding removes the pending edit by its id and changes nothing of the steps.\<close>

lemma discard_outcome:
  assumes valid: "plan_valid env p" and pend: "wp_pendingEdit p = Some e" and room: "safe_nat (wp_revision p + 1)"
    and now: "dateTimeSchema env t" and a: "attribution_ok env a" and fresh: "ref_ok (createId env ReceiptId n)"
  shows "\<exists>q r. discardPendingWorkingPlanEdit env p (pe_id e) a t n = Inr (q, r) \<and> plan_valid env q \<and> receipt_ok env r
    \<and> wp_steps q = wp_steps p \<and> wp_pendingEdit q = None \<and> rc_disposition r = Discarded"
proof -
  let ?q = "p\<lparr>wp_revision := wp_revision p + 1, wp_pendingEdit := None, wp_updatedAt := t\<rparr>"
  have q: "plan_valid env ?q" using valid room now by (auto simp: plan_valid_def plan_refinement_def)
  have "receipt_ok env \<lparr>rc_id = createId env ReceiptId n, rc_editId = pe_id e, rc_sessionId = wp_sessionId p,
      rc_disposition = Discarded, rc_basedOn = pe_basedOn e, rc_planRevision = wp_revision ?q,
      rc_structureRevision = wp_structureRevision ?q, rc_attribution = a, rc_createdAt = t\<rparr>"
    using valid pend room now a fresh by (auto simp: receipt_ok_def plan_valid_def pending_ok_def trimmed_def)
  then show ?thesis
    using pend q valid_parse_plan [OF q] valid_parse_receipt by (simp add: discardPendingWorkingPlanEdit_def throw_if_def)
qed

section \<open>The prompt\<close>

lemma replace_unit_absent: "c \<notin> set by_text \<Longrightarrow> c \<notin> set (replace_unit c by_text s)"
  by (auto simp: replace_unit_def split: if_splits)

text \<open>
  The plan cannot break out of its frame in a prompt: whatever the steps say, the prompt is
  the instruction, one context block between its two markers, an empty line and the person's
  words, and the context holds no \<open><\<close>, so the first closing marker after it is the frame's own.
\<close>

theorem prompt_frame_is_closed:
  "agentPromptWithWorkingPlan plan userPrompt =
     js ''Domovoi's working plan is canonical session state. Follow it unless the work requires replanning, and report progress through your plan mechanism.''
       @ [10] @ js ''<domovoi_working_plan>'' @ [10] @ plan_context plan @ [10] @ js ''</domovoi_working_plan>'' @ [10, 10] @ userPrompt
   \<and> (60 :: js_char) \<notin> set (plan_context plan)"
proof
  show "(60 :: js_char) \<notin> set (plan_context plan)"
    unfolding plan_context_def by (rule replace_unit_absent) simp
qed (simp add: agentPromptWithWorkingPlan_def)

section \<open>The artifact\<close>

lemma concat_skip: "concat (map (\<lambda>i. if P (xs ! i) then [] else [xs ! i]) is) = filter (\<lambda>y. \<not> P y) (map ((!) xs) is)"
  by (induction "is") auto

lemma replace_matching:
  assumes k: "k < length xs"
  shows "concat (map (\<lambda>i. if i = k then [x] else if i \<in> set (indexes P xs) then [] else [xs ! i]) [0..<length xs])
    = filter (\<lambda>y. \<not> P y) (take k xs) @ x # filter (\<lambda>y. \<not> P y) (drop (Suc k) xs)"
proof -
  let ?f = "\<lambda>i. if i = k then [x] else if i \<in> set (indexes P xs) then [] else [xs ! i]"
  let ?g = "\<lambda>i. if P (xs ! i) then [] else [xs ! i]"
  have split: "[0..<length xs] = [0..<k] @ k # [Suc k..<length xs]"
    using k upt_add_eq_append [of 0 k "length xs - k"] upt_conv_Cons [OF k] by simp
  have maps: "map ?f [0..<k] = map ?g [0..<k]" "map ?f [Suc k..<length xs] = map ?g [Suc k..<length xs]"
    using k by (auto intro!: map_cong)
  have "concat (map ?f [0..<length xs]) = concat (map ?f [0..<k]) @ x # concat (map ?f [Suc k..<length xs])"
    by (subst split) simp
  then have "concat (map ?f [0..<length xs]) = concat (map ?g [0..<k]) @ x # concat (map ?g [Suc k..<length xs])"
    unfolding maps .
  moreover have "map ((!) xs) [0..<k] = take k xs" "map ((!) xs) [Suc k..<length xs] = drop (Suc k) xs"
    using k by (auto intro!: nth_equalityI)
  ultimately show ?thesis by (simp add: concat_skip)
qed

lemma filter_replace_matching:
  assumes k: "k < length xs" and "P (xs ! k)" and "P x"
  shows "filter P (filter (\<lambda>y. \<not> P y) (take k xs) @ x # filter (\<lambda>y. \<not> P y) (drop (Suc k) xs)) = [x]"
    and "filter (\<lambda>y. \<not> P y) (filter (\<lambda>y. \<not> P y) (take k xs) @ x # filter (\<lambda>y. \<not> P y) (drop (Suc k) xs)) = filter (\<lambda>y. \<not> P y) xs"
proof -
  have "xs = take k xs @ xs ! k # drop (Suc k) xs" using k by (rule id_take_nth_drop)
  then have "filter (\<lambda>y. \<not> P y) xs = filter (\<lambda>y. \<not> P y) (take k xs) @ filter (\<lambda>y. \<not> P y) (drop (Suc k) xs)"
    using assms(2) by (metis comp_apply filter.simps(2) filter_append)
  then show "filter (\<lambda>y. \<not> P y) (filter (\<lambda>y. \<not> P y) (take k xs) @ x # filter (\<lambda>y. \<not> P y) (drop (Suc k) xs)) = filter (\<lambda>y. \<not> P y) xs"
    using assms(3) by simp
  have "filter P (filter (\<lambda>y. \<not> P y) ys) = []" for ys by (auto simp: filter_empty_conv)
  then show "filter P (filter (\<lambda>y. \<not> P y) (take k xs) @ x # filter (\<lambda>y. \<not> P y) (drop (Suc k) xs)) = [x]"
    using assms(3) by simp
qed

text \<open>
  A plan whose structure changed is shown by exactly one artifact of its session: under the
  stable id, with the rendered steps, no path, and a revision above that of every artifact it
  replaces. All other artifacts stay, in order, and every annotation on a replaced artifact of
  the session is on the stable one.
\<close>

theorem plan_artifact_is_single:
  fixes annotations :: "'a annotation_scheme list"
  defines "mine \<equiv> \<lambda>p a. isWorkingPlanArtifact a (wp_sessionId p)"
  shows "let (r, notes) = syncWorkingPlanArtifact artifacts annotations plan True
    in filter (mine plan) (sn_artifacts r) = [sn_artifact r] \<and> sn_changed r
     \<and> filter (\<lambda>y. \<not> mine plan y) (sn_artifacts r) = filter (\<lambda>y. \<not> mine plan y) artifacts
     \<and> ar_id (sn_artifact r) = plan_artifact_id (wp_sessionId plan) \<and> ar_path (sn_artifact r) = None
     \<and> ar_content (sn_artifact r) = Some (renderWorkingPlanMarkdown (wp_steps plan))
     \<and> list_all (\<lambda>a. ar_revision a < ar_revision (sn_artifact r)) (filter (mine plan) artifacts)
     \<and> notes = map (\<lambda>n. if an_sessionId n = wp_sessionId plan \<and> list_ex (\<lambda>a. ar_id a = an_artifactId n) (filter (mine plan) artifacts)
                        then n\<lparr>an_artifactId := plan_artifact_id (wp_sessionId plan)\<rparr> else n) annotations"
proof -
  let ?P = "\<lambda>a. isWorkingPlanArtifact a (wp_sessionId plan)"
  let ?m = "indexes ?P artifacts"
  have own: "?P (new_plan_artifact plan\<lparr>ar_sessionId := wp_sessionId plan, ar_revision := v\<rparr>)" for v
    by (simp add: isWorkingPlanArtifact_def new_plan_artifact_def)
  show ?thesis
  proof (cases "?m = []")
    case True
    then have none: "filter ?P artifacts = []"
      by (metis (no_types, lifting) filter_empty_conv in_set_conv_nth indexes_iff list.set(1) empty_iff)
    have "new_plan_artifact plan = new_plan_artifact plan\<lparr>ar_sessionId := wp_sessionId plan, ar_revision := 1\<rparr>"
      by (simp add: new_plan_artifact_def)
    then have "?P (new_plan_artifact plan)" using own by metis
    then show ?thesis using True none
      by (simp add: syncWorkingPlanArtifact_def mine_def Let_def map_idI) (simp add: new_plan_artifact_def)
  next
    case False
    define kept where "kept = (case filter (\<lambda>i. ar_id (artifacts ! i) = plan_artifact_id (wp_sessionId plan)) ?m of i # _ \<Rightarrow> i | [] \<Rightarrow> hd ?m)"
    have "kept \<in> set ?m"
    proof (cases "filter (\<lambda>i. ar_id (artifacts ! i) = plan_artifact_id (wp_sessionId plan)) ?m")
      case (Cons i rest)
      then have "i \<in> set ?m" using filter_is_subset by (metis list.set_intros(1) subsetD)
      then show ?thesis by (simp add: kept_def Cons)
    qed (use False in \<open>simp add: kept_def del: indexes_iff\<close>)
    then have k: "kept < length artifacts" "?P (artifacts ! kept)" by auto
    define x where "x = new_plan_artifact plan\<lparr>ar_sessionId := ar_sessionId (artifacts ! kept),
        ar_revision := Suc (sum_list (map (\<lambda>i. ar_revision (artifacts ! i)) ?m))\<rparr>"
    have "ar_sessionId (artifacts ! kept) = wp_sessionId plan" using k by (simp add: isWorkingPlanArtifact_def)
    then have px: "?P x" unfolding x_def using own by simp
    have members: "set (filter ?P artifacts) = (\<lambda>i. artifacts ! i) ` set ?m"
      by (force simp: set_conv_nth [of artifacts])
    have rev: "ar_revision a < ar_revision x" if a: "a \<in> set (filter ?P artifacts)" for a
    proof -
      obtain i where "i \<in> set ?m" "a = artifacts ! i" using a unfolding members by blast
      then have "ar_revision a \<le> sum_list (map (\<lambda>i. ar_revision (artifacts ! i)) ?m)" by (auto intro: member_le_sum_list)
      then show ?thesis by (simp add: x_def)
    qed
    have ids: "i \<in> (\<lambda>i. ar_id (artifacts ! i)) ` set ?m \<longleftrightarrow> list_ex (\<lambda>a. ar_id a = i) (filter ?P artifacts)" for i
      unfolding list_ex_iff members by auto
    have run: "syncWorkingPlanArtifact artifacts annotations plan True =
      (\<lparr>sn_artifacts = filter (\<lambda>y. \<not> ?P y) (take kept artifacts) @ x # filter (\<lambda>y. \<not> ?P y) (drop (Suc kept) artifacts),
        sn_artifact = x, sn_changed = True\<rparr>,
       map (\<lambda>a. if an_sessionId a = wp_sessionId plan \<and> an_artifactId a \<in> (\<lambda>i. ar_id (artifacts ! i)) ` set ?m
                then a\<lparr>an_artifactId := plan_artifact_id (wp_sessionId plan)\<rparr> else a) annotations)"
      using False by (simp add: syncWorkingPlanArtifact_def Let_def kept_def [symmetric] x_def [symmetric] replace_matching [OF k(1)] del: indexes_iff)
    show ?thesis
      unfolding run mine_def using filter_replace_matching [OF k px] rev ids
      by (simp add: list_all_iff del: filter_append) (simp add: x_def new_plan_artifact_def)
  qed
qed

section \<open>Samples\<close>

definition sample_plan :: working_plan where
  "sample_plan = \<lparr>wp_sessionId = [83], wp_revision = 1, wp_structureRevision = 1, wp_steps = sample_steps,
     wp_providerSync = None, wp_pendingEdit = None, wp_createdAt = ''t'', wp_updatedAt = ''t''\<rparr>"

definition sample_update :: provider_update where
  "sample_update = \<lparr>pu_sessionId = [83], pu_provider = [112], pu_model = [109], pu_providerThreadId = [116], pu_steps = [],
     pu_taskChange = Some sample_change, pu_taskLinks = None, pu_updatedAt = ''t''\<rparr>"

definition sample_attribution :: attribution where
  "sample_attribution = \<lparr>at_client = Web, at_connectionId = ''c'', at_clientId = None\<rparr>"

definition sample_structure :: "structure_step list" where
  "sample_structure = [\<lparr>sx_id = [65], sx_text = [97]\<rparr>, \<lparr>sx_id = [66], sx_text = [98]\<rparr>, \<lparr>sx_id = [67], sx_text = [99]\<rparr>]"

definition sample_pending :: pending_edit where
  "sample_pending = \<lparr>pe_id = [69], pe_basedOn = 1, pe_baseSteps = sample_structure,
     pe_draftSteps = [\<lparr>sx_id = [67], sx_text = [100]\<rparr>, \<lparr>sx_id = [65], sx_text = [97]\<rparr>],
     pe_status = Queued, pe_submittedAt = ''t'', pe_submittedBy = sample_attribution\<rparr>"

definition sample_edit :: plan_edit_params where
  "sample_edit = \<lparr>ed_sessionId = [83], ed_basedOn = 1, ed_baseSteps = sample_structure,
     ed_draftSteps = [\<lparr>dr_id = Some [66], dr_text = [98]\<rparr>, \<lparr>dr_id = None, dr_text = [100]\<rparr>],
     ed_replaces = None, ed_client = Web\<rparr>"

lemmas sample_plan_defs = sample_plan_def sample_update_def sample_attribution_def sample_structure_def sample_pending_def
  sample_edit_def sample_plan_env_def

lemmas safe_nat_eval = safe_nat_def maxSafeInteger_def

lemma sample_plan_valid: "plan_valid sample_plan_env sample_plan"
  using sample_steps_ok
  by (simp add: plan_valid_def plan_refinement_def sample_plan_def trimmed_eval safe_nat_eval)
     (simp add: sample_plan_env_def)

lemma sample_structure_ok: "structure_ok sample_structure"
  by (simp add: structure_ok_def structure_step_ok_def sample_structure_def trimmed_eval validateWorkingPlanStepList_def text_total_def)

lemma sample_queued_valid: "plan_valid sample_plan_env (sample_plan\<lparr>wp_pendingEdit := Some sample_pending\<rparr>)"
proof -
  have "pending_ok sample_plan_env sample_pending"
    using sample_structure_ok
    by (simp add: pending_ok_def sample_pending_def structure_ok_def structure_step_ok_def trimmed_eval
      validateWorkingPlanStepList_def text_total_def attribution_ok_def sample_attribution_def safe_nat_eval)
      (simp add: sample_plan_env_def)
  then show ?thesis
    using sample_plan_valid
    by (simp add: plan_valid_def plan_refinement_def sample_plan_def sample_pending_def sample_structure_def sample_steps_def)
qed

lemma sample_sync_ok: "sync_ok sample_plan_env (providerSync sample_update 0)"
  by (simp add: sync_ok_def providerSync_def sample_plan_defs trimmed_eval safe_nat_eval)

theorem provider_update_keeps_plan_witness:
  "\<exists>r. updateWorkingPlanFromProvider sample_plan_env (Some sample_plan) sample_update 0 = Inr r
     \<and> plan_valid sample_plan_env (up_plan r)
     \<and> wp_steps (up_plan r) = ap_kept (mergeProviderTaskChange sample_plan_env sample_steps sample_change None 0)"
proof -
  have "fresh_step_ids sample_plan_env 0 (update_new_steps sample_update) (st_id ` set (wp_steps sample_plan))"
    using sample_change_fresh by (simp add: update_new_steps_def sample_update_def sample_plan_def)
  moreover have "wp_sessionId sample_plan = pu_sessionId sample_update" "safe_nat (wp_revision sample_plan + 1)"
    by (simp_all add: sample_plan_def sample_update_def safe_nat_eval)
  ultimately show ?thesis
    using provider_update_keeps_plan [OF sample_plan_valid _ sample_sync_ok]
    by (fastforce simp: provider_steps_def sample_update_def sample_plan_def Let_def)
qed

theorem queued_edit_is_applied_witness:
  "\<exists>q. finalizePendingWorkingPlanEdit sample_plan_env (sample_plan\<lparr>wp_pendingEdit := Some sample_pending\<rparr>) ''t'' =
       Inr \<lparr>fr_plan = q, fr_disposition = Some Applied, fr_structureChanged = True\<rparr>
     \<and> map step_key (wp_steps q) = [([67], [100]), ([65], [97])]"
proof -
  let ?p = "sample_plan\<lparr>wp_pendingEdit := Some sample_pending\<rparr>"
  have "wp_pendingEdit ?p = Some sample_pending" "pe_status sample_pending = Queued" "safe_nat (wp_revision ?p + 1)"
    "dateTimeSchema sample_plan_env ''t''"
    by (simp_all add: sample_pending_def sample_plan_def sample_plan_env_def safe_nat_eval)
  then show ?thesis
    using queued_edit_is_applied [OF sample_queued_valid, of sample_pending "''t''"]
    by (auto simp: sample_pending_def sample_plan_def sample_steps_def)
qed

lemma sample_env_simps [simp]:
  "dateTimeSchema sample_plan_env d" "uuidSchema sample_plan_env u" "redactDurableText sample_plan_env (JsString s) = s"
  "createId sample_plan_env EditId 0 = [101]" "createId sample_plan_env ReceiptId (Suc 0) = [114, 49]"
  by (simp_all add: sample_plan_env_def)

lemma sample_edit_fresh: "fresh_step_ids sample_plan_env (Suc (Suc 0)) (Suc (Suc 0)) {[65], [66], [67]}"
proof -
  have "createId sample_plan_env StepId (Suc (Suc 0)) = [115, 49, 49]"
    "createId sample_plan_env StepId (Suc (Suc (Suc 0))) = [115, 49, 49, 49]"
    by (simp_all add: sample_plan_env_def)
  then show ?thesis by (simp add: fresh_step_ids_def trimmed_eval upt_rec)
qed

lemma sample_edit_admissible: "edit_admissible sample_plan_env (Some sample_plan) sample_edit sample_attribution ''t'' 0"
proof -
  have "edit_ok sample_edit"
    using sample_structure_ok
    by (simp add: edit_ok_def sample_edit_def draft_step_ok_def trimmed_eval text_total_def safe_nat_eval)
  moreover have "edit_allowed_ids (Some sample_plan) (ed_replaces sample_edit) (ed_baseSteps sample_edit) = {[65], [66], [67]}"
    by (simp add: edit_allowed_ids_def sample_plan_def sample_edit_def sample_structure_def)
  moreover have "map structure_key (ed_baseSteps sample_edit) = map step_key (wp_steps sample_plan)"
    by (simp add: sample_edit_def sample_plan_def sample_structure_def sample_steps_def)
  moreover have "list_all (redaction_keeps sample_plan_env) xs" for xs by (simp add: list_all_iff redaction_keeps_def)
  moreover have "attribution_ok sample_plan_env sample_attribution" "ref_ok [101]" "ref_ok [114, 49]" "safe_nat 2"
    by (simp_all add: attribution_ok_def sample_attribution_def trimmed_eval safe_nat_eval)
  moreover have "wp_sessionId sample_plan = ed_sessionId sample_edit" "ed_client sample_edit = at_client sample_attribution"
    "ed_replaces sample_edit = None" "wp_pendingEdit sample_plan = None" "ed_basedOn sample_edit = wp_structureRevision sample_plan"
    "wp_revision sample_plan + 1 = 2" "draft_ids (ed_draftSteps sample_edit) = [[66]]" "length (ed_draftSteps sample_edit) = Suc (Suc 0)"
    by (simp_all add: sample_edit_def sample_plan_def sample_attribution_def)
  ultimately show ?thesis
    using sample_plan_valid sample_edit_fresh by (simp add: edit_admissible_def start_plan_def numeral_2_eq_2)
qed

theorem edit_outcome_witness:
  "\<exists>r. submitWorkingPlanEdit sample_plan_env (Some sample_plan) sample_edit sample_attribution False ''t'' 0 = Inr r
     \<and> rc_disposition (sr_receipt r) = Applied \<and> map st_text (wp_steps (sr_plan r)) = [[98], [100]]"
proof -
  have start: "start_plan (Some sample_plan) sample_edit ''t'' = sample_plan" by (simp add: start_plan_def)
  have based: "\<not> ed_basedOn sample_edit < wp_structureRevision sample_plan" by (simp add: sample_edit_def sample_plan_def)
  obtain r ss where r: "submitWorkingPlanEdit sample_plan_env (Some sample_plan) sample_edit sample_attribution False ''t'' 0 = Inr r"
    "rc_disposition (sr_receipt r) = Applied" "list_all2 drafted_as (ed_draftSteps sample_edit) ss"
    "map step_key (wp_steps (sr_plan r)) = map structure_key ss"
    using edit_outcome [OF sample_edit_admissible, of False] based unfolding start by auto
  have "map st_text (wp_steps (sr_plan r)) = map sx_text ss"
    using arg_cong [OF r(4), of "map snd"] by (simp add: o_def)
  then show ?thesis using r(1,2) drafted_texts [OF r(3)] by (simp add: sample_edit_def)
qed

theorem approval_block_round_trip_witness:
  "\<exists>plans' changed plans''. blockWorkingPlanForApproval sample_plan_env [sample_plan] [83] [81] ''t'' = Inr (plans', changed)
     \<and> clearWorkingPlanApprovalBlockers sample_plan_env plans' {[81]} ''t'' = Inr (plans'', if changed then [[83]] else [])
     \<and> map wp_steps plans'' = [sample_steps]"
proof -
  have plans: "list_all (\<lambda>p. plan_valid sample_plan_env p \<and> safe_nat (wp_revision p + 2)) [sample_plan]"
    using sample_plan_valid by (simp add: sample_plan_def safe_nat_eval)
  have a: "ref_ok [81]" by (simp add: trimmed_eval)
  have new: "list_all (\<lambda>p. \<not> list_ex (blocked_by {[81]}) (wp_steps p)) [sample_plan]"
    by (simp add: sample_plan_def sample_steps_def blocked_by_def)
  have steps: "map wp_steps [sample_plan] = [sample_steps]" by (simp add: sample_plan_def)
  show ?thesis
    using approval_block_round_trip [OF plans a sample_env_simps(1) sample_env_simps(1) new, of "[83]" "''t''" "''t''"]
    unfolding steps by (elim exE conjE) (intro exI conjI; assumption)
qed

end
