(* ===== verification/Json_Text.thy ===== *)
theory Json_Text
  imports Transfer_Manifest
begin

text \<open>
  The JSON text of a value is read back in one way only: \<open>json_stringify\<close> is injective, even with
  text after it, and the canonical form (\<open>canonicalJson\<close> of transfer-transaction.ts and of
  execution-resolution.ts) is the plain form of the value with its fields sorted. What a digest of
  canonical JSON identifies rests on these facts.
\<close>

section \<open>Strings\<close>

definition hex_value :: "js_char \<Rightarrow> nat" where
  "hex_value c = (if unat c < 58 then unat c - 48 else if unat c < 97 then unat c - 55 else unat c - 87)"

definition unescaped :: "js_char \<Rightarrow> js_char" where
  "unescaped c = (if c = 98 then 8 else if c = 116 then 9 else if c = 110 then 10
     else if c = 102 then 12 else if c = 114 then 13 else c)"

text \<open>Reading a JSON string from after its opening quote to its closing one, and what is left.\<close>

fun read_units :: "js_string \<Rightarrow> (js_string \<times> js_string) option" where
  "read_units [] = None"
| "read_units (c # s) =
     (if c = 34 then Some ([], s)
      else if c = 92 then
        (case s of
           [] \<Rightarrow> None
         | e # s1 \<Rightarrow>
             if e = 117 then
               (case s1 of
                  h1 # h2 # h3 # h4 # s2 \<Rightarrow>
                    map_option (\<lambda>(t, r). (word_of_nat (hex_value h1 * 4096 + hex_value h2 * 256 + hex_value h3 * 16 + hex_value h4) # t, r))
                      (read_units s2)
                | _ \<Rightarrow> None)
             else map_option (\<lambda>(t, r). (unescaped e # t, r)) (read_units s1))
      else map_option (\<lambda>(t, r). (c # t, r)) (read_units s))"

lemma unat_js_char: "n < 65536 \<Longrightarrow> unat (word_of_nat n :: js_char) = n"
  by (simp add: unsigned_of_nat take_bit_nat_eq_self)

lemma js_eq_iff [simp]: "js s = js t \<longleftrightarrow> s = t"
proof
  have inj: "inj (\<lambda>c. word_of_nat (of_char c) :: js_char)"
  proof (rule injI)
    fix a b :: char
    assume "(word_of_nat (of_char a) :: js_char) = word_of_nat (of_char b)"
    moreover have "unat (word_of_nat (of_char c) :: js_char) = of_char c" for c :: char
      by (rule unat_js_char, rule less_trans [OF nat_of_char_less_256]) simp
    ultimately have "(of_char a :: nat) = of_char b" by metis
    then show "a = b" by simp
  qed
  show "js s = js t \<Longrightarrow> s = t" unfolding js_def using inj by (rule map_injective [rotated])
qed simp

lemma hex_value_unit: "n < 16 \<Longrightarrow> hex_value (hex_unit n) = n"
  unfolding hex_value_def hex_unit_def using unat_js_char [of "48 + n"] unat_js_char [of "87 + n"] by (simp del: of_nat_add)

lemma nibbles: "n div 4096 * 4096 + n div 256 mod 16 * 256 + n div 16 mod 16 * 16 + n mod 16 = n" for n :: nat
proof -
  have a: "n div 16 = n div 256 * 16 + n div 16 mod 16"
    using div_mult_mod_eq [of "n div 16" 16] by (simp add: div_mult2_eq [symmetric])
  have b: "n div 256 = n div 4096 * 16 + n div 256 mod 16"
    using div_mult_mod_eq [of "n div 256" 16] by (simp add: div_mult2_eq [symmetric])
  have "n = n div 16 * 16 + n mod 16" by simp
  then show ?thesis using a b by linarith
qed

lemma read_escape:
  fixes c :: js_char
  shows "read_units (unicode_escape c @ s) = map_option (\<lambda>(t, r). (c # t, r)) (read_units s)"
proof -
  have "unat c < 65536" using unsigned_less [of c] by simp
  then have "unat c div 4096 < 16" by (simp add: less_mult_imp_div_less)
  then have "word_of_nat (hex_value (hex_unit (unat c div 4096)) * 4096 + hex_value (hex_unit (unat c div 256 mod 16)) * 256
      + hex_value (hex_unit (unat c div 16 mod 16)) * 16 + hex_value (hex_unit (unat c mod 16))) = c"
    by (simp add: hex_value_unit nibbles)
  then show ?thesis by (simp add: unicode_escape_def Let_def)
qed

lemma read_unit: "read_units (json_unit c @ s) = map_option (\<lambda>(t, r). (c # t, r)) (read_units s)"
proof -
  consider "c = 34 \<or> c = 92" | "c \<in> {8, 9, 10, 12, 13}"
    | "c \<notin> {34, 92, 8, 9, 10, 12, 13}" "unat c < 32 \<or> high_surrogate c \<or> low_surrogate c"
    | "c \<notin> {34, 92, 8, 9, 10, 12, 13}" "\<not> (unat c < 32 \<or> high_surrogate c \<or> low_surrogate c)" by blast
  then show ?thesis
  proof cases
    case 1
    then show ?thesis by (auto simp: json_unit_def unescaped_def)
  next
    case 2
    then show ?thesis by (auto simp: json_unit_def unescaped_def)
  next
    case 3
    then have "json_unit c = unicode_escape c" by (simp add: json_unit_def)
    then show ?thesis by (simp only: read_escape)
  next
    case 4
    then show ?thesis by (simp add: json_unit_def)
  qed
qed

lemma surrogate_units: "high_surrogate c \<or> low_surrogate c \<Longrightarrow> c \<noteq> 34 \<and> c \<noteq> 92"
  by (auto simp: high_surrogate_def low_surrogate_def)

lemma read_json_units: "read_units (json_units s @ 34 # r) = Some (s, r)"
proof (induction s rule: json_units.induct)
  case 1
  show ?case by simp
next
  case (2 c)
  show ?case using read_unit [of c "34 # r"] by simp
next
  case (3 c d s)
  show ?case
  proof (cases "high_surrogate c \<and> low_surrogate d")
    case True
    then have "c \<noteq> 34" "c \<noteq> 92" "d \<noteq> 34" "d \<noteq> 92" using surrogate_units by blast+
    then show ?thesis using 3 True by simp
  next
    case False
    then have "json_units (c # d # s) = json_unit c @ json_units (d # s)" by auto
    then show ?thesis using 3(2) [OF False] read_unit [of c "json_units (d # s) @ 34 # r"]
      by (simp del: read_units.simps json_units.simps)
  qed
qed

lemma json_string_prefix: "json_string s @ x = json_string t @ y \<Longrightarrow> s = t \<and> x = y"
proof -
  assume "json_string s @ x = json_string t @ y"
  then have "read_units (json_units s @ 34 # x) = read_units (json_units t @ 34 # y)" by (simp add: json_string_def)
  then show ?thesis by (simp only: read_json_units option.inject prod.inject)
qed

section \<open>Numbers\<close>

definition digit :: "js_char \<Rightarrow> bool" where
  "digit c \<longleftrightarrow> 48 \<le> unat c \<and> unat c \<le> 57"

definition digits_value :: "js_string \<Rightarrow> nat" where
  "digits_value s = foldl (\<lambda>n c. 10 * n + (unat c - 48)) 0 s"

lemma unat_digit: "n < 10 \<Longrightarrow> unat (word_of_nat (48 + n) :: js_char) = 48 + n"
  by (rule unat_js_char) simp

lemma decimal_digits: "list_all digit (decimal_nat n) \<and> decimal_nat n \<noteq> [] \<and> digits_value (decimal_nat n) = n"
proof (induction n rule: decimal_nat.induct)
  case (1 n)
  show ?case
  proof (cases "n < 10")
    case True
    then have "decimal_nat n = [word_of_nat (48 + n)]" by (subst decimal_nat.simps) simp
    then show ?thesis using unat_digit [OF True] True by (simp add: digit_def digits_value_def del: of_nat_add)
  next
    case False
    then have "decimal_nat n = decimal_nat (n div 10) @ [word_of_nat (48 + n mod 10)]"
      by (subst decimal_nat.simps) simp
    moreover have "unat (word_of_nat (48 + n mod 10) :: js_char) = 48 + n mod 10" by (rule unat_digit) simp
    ultimately show ?thesis using 1 [OF False] by (simp add: digit_def digits_value_def del: of_nat_add)
  qed
qed

text \<open>What may follow a value: nothing, a comma or a closing bracket.\<close>

definition delimited :: "js_string \<Rightarrow> bool" where
  "delimited s \<longleftrightarrow> s = [] \<or> hd s \<in> {44, 93, 125}"

lemma delimited_simps [simp]: "delimited []" "delimited (44 # s)" "delimited (93 # s)" "delimited (125 # s)"
  by (simp_all add: delimited_def)

lemma takeWhile_digits: "list_all digit a \<Longrightarrow> delimited x \<Longrightarrow> takeWhile digit (a @ x) = a"
  by (induction a) (auto simp: delimited_def digit_def takeWhile_eq_Nil_iff)

lemma digits_of_decimal: "delimited x \<Longrightarrow> takeWhile digit (decimal_nat n @ x) = decimal_nat n"
  using decimal_digits takeWhile_digits by blast

lemma decimal_nat_prefix:
  assumes "decimal_nat n @ x = decimal_nat m @ y" "delimited x" "delimited y"
  shows "n = m \<and> x = y"
proof -
  have "decimal_nat n = takeWhile digit (decimal_nat n @ x)" by (simp only: digits_of_decimal [OF assms(2)])
  also have "\<dots> = decimal_nat m" by (simp only: assms(1) digits_of_decimal [OF assms(3)])
  finally have eq: "decimal_nat n = decimal_nat m" .
  then have "digits_value (decimal_nat n) = digits_value (decimal_nat m)" by (simp only:)
  then have "n = m" using decimal_digits by metis
  then show ?thesis using assms(1) by blast
qed

lemma decimal_head: "\<exists>d t. decimal_nat n = d # t \<and> digit d"
  using decimal_digits [of n] by (cases "decimal_nat n") auto

lemma decimal_not_minus: "decimal_nat n @ x \<noteq> 45 # y"
proof
  assume "decimal_nat n @ x = 45 # y"
  moreover obtain d t where "decimal_nat n = d # t" "digit d" using decimal_head by blast
  moreover have "\<not> digit 45" by (simp add: digit_def)
  ultimately show False by auto
qed

lemma decimal_int_prefix:
  assumes "decimal_int n @ x = decimal_int m @ y" "delimited x" "delimited y"
  shows "n = m \<and> x = y"
proof (cases "n < 0"; cases "m < 0")
  assume "n < 0" "m < 0"
  then have "decimal_nat (nat (- n)) @ x = decimal_nat (nat (- m)) @ y" using assms(1) by (simp add: decimal_int_def)
  from decimal_nat_prefix [OF this assms(2,3)] show ?thesis using \<open>n < 0\<close> \<open>m < 0\<close> by auto
next
  assume "\<not> n < 0" "\<not> m < 0"
  then have "decimal_nat (nat n) @ x = decimal_nat (nat m) @ y" using assms(1) by (simp add: decimal_int_def)
  from decimal_nat_prefix [OF this assms(2,3)] show ?thesis using \<open>\<not> n < 0\<close> \<open>\<not> m < 0\<close> by auto
next
  assume "n < 0" "\<not> m < 0"
  then show ?thesis using assms(1) decimal_not_minus [of "nat m" y "decimal_nat (nat (- n)) @ x"] by (simp add: decimal_int_def)
next
  assume "\<not> n < 0" "m < 0"
  then show ?thesis using assms(1) decimal_not_minus [of "nat n" x "decimal_nat (nat (- m)) @ y"] by (simp add: decimal_int_def)
qed

section \<open>Values\<close>

text \<open>The first unit of a value's text tells its kind.\<close>

definition kind_unit :: "json \<Rightarrow> js_char \<Rightarrow> bool" where
  "kind_unit v c \<longleftrightarrow>
     (case v of JNull \<Rightarrow> c = 110 | JBool b \<Rightarrow> c = (if b then 116 else 102) | JNum _ \<Rightarrow> c = 45 \<or> digit c
      | JStr _ \<Rightarrow> c = 34 | JArr _ \<Rightarrow> c = 91 | JObj _ \<Rightarrow> c = 123)"

lemma stringify_head: "\<exists>c t. json_stringify v = c # t \<and> kind_unit v c"
proof (cases v)
  case (JNum n)
  obtain d t where d: "decimal_nat (nat n) = d # t" "digit d" using decimal_head by blast
  show ?thesis
  proof (cases "n < 0")
    case True
    then show ?thesis using JNum by (simp add: kind_unit_def decimal_int_def)
  next
    case False
    then show ?thesis using JNum d by (simp add: kind_unit_def decimal_int_def)
  qed
qed (auto simp: kind_unit_def json_string_def js_def)

lemma stringify_not_closing: "json_stringify v \<noteq> [] \<and> hd (json_stringify v) \<notin> {93, 125}"
proof -
  obtain c t where c: "json_stringify v = c # t" "kind_unit v c" using stringify_head by blast
  then have "c \<notin> {93, 125}" by (cases v) (auto simp: kind_unit_def digit_def split: if_splits)
  then show ?thesis using c(1) by simp
qed

lemma join_comma_Cons: "join_comma (x # xs) = x @ (if xs = [] then [] else 44 # join_comma xs)"
  by (cases xs) simp_all

lemma joined_prefix:
  assumes item: "\<And>a b x y. a \<in> set as \<Longrightarrow> f a @ x = f b @ y \<Longrightarrow> delimited x \<Longrightarrow> delimited y \<Longrightarrow> a = b \<and> x = y"
    and open_item: "\<And>a. f a \<noteq> [] \<and> hd (f a) \<noteq> close"
    and close: "close \<in> {93, 125}"
  shows "join_comma (map f as) @ close # x = join_comma (map f bs) @ close # y \<Longrightarrow> as = bs \<and> x = y"
  using item
proof (induction as arbitrary: bs)
  case Nil
  show ?case
  proof (cases bs)
    case (Cons b bs')
    then show ?thesis using Nil.prems(1) open_item [of b] by (cases "f b") (auto simp: join_comma_Cons)
  qed (use Nil in simp)
next
  case (Cons a as)
  show ?case
  proof (cases bs)
    case Nil
    then show ?thesis using Cons.prems(1) open_item [of a] by (cases "f a") (auto simp: join_comma_Cons)
  next
    case bs: (Cons b bs')
    let ?x = "if as = [] then close # x else 44 # join_comma (map f as) @ close # x"
    let ?y = "if bs' = [] then close # y else 44 # join_comma (map f bs') @ close # y"
    have "f a @ ?x = f b @ ?y" using Cons.prems(1) bs by (auto simp: join_comma_Cons)
    moreover have "delimited ?x" "delimited ?y" using close by (auto simp: delimited_def)
    ultimately have ab: "a = b" "?x = ?y" using Cons.prems(2) [of a ?x b ?y] by auto
    have "close \<noteq> 44" using close by auto
    show ?thesis
    proof (cases "as = []")
      case True
      then show ?thesis using ab bs \<open>close \<noteq> 44\<close> by (cases "bs' = []") auto
    next
      case False
      then have "bs' \<noteq> []" using ab(2) \<open>close \<noteq> 44\<close> by (cases "bs' = []") auto
      then have "join_comma (map f as) @ close # x = join_comma (map f bs') @ close # y" using ab(2) False by simp
      from Cons.IH [OF this] Cons.prems(2) have "as = bs' \<and> x = y" by auto
      then show ?thesis using ab(1) bs by simp
    qed
  qed
qed

lemma stringify_prefix:
  "json_stringify v @ x = json_stringify w @ y \<Longrightarrow> delimited x \<Longrightarrow> delimited y \<Longrightarrow> v = w \<and> x = y"
proof (induction v arbitrary: w x y)
  case JNull
  then show ?case using stringify_head [of w] by (cases w) (auto simp: kind_unit_def digit_def js_def split: if_splits)
next
  case (JBool b)
  then show ?case using stringify_head [of w] by (cases w) (auto simp: kind_unit_def digit_def js_def split: if_splits)
next
  case (JNum n)
  have "kind_unit (JNum n) c \<Longrightarrow> kind_unit w c \<Longrightarrow> \<exists>m. w = JNum m" for c
    by (cases w) (auto simp: kind_unit_def digit_def split: if_splits)
  then obtain m where "w = JNum m"
    using stringify_head [of w] stringify_head [of "JNum n"] JNum.prems(1) by fastforce
  then show ?case using JNum decimal_int_prefix [of n x m y] by simp
next
  case (JStr s)
  then obtain t where "w = JStr t"
    using stringify_head [of w] by (cases w) (auto simp: kind_unit_def digit_def json_string_def split: if_splits)
  then show ?case using JStr json_string_prefix [of s x t y] by simp
next
  case (JArr vs)
  then obtain ws where w: "w = JArr ws"
    using stringify_head [of w] by (cases w) (auto simp: kind_unit_def digit_def split: if_splits)
  have "vs = ws \<and> x = y"
  proof (rule joined_prefix [of vs json_stringify 93])
    show "json_stringify a @ x = json_stringify b @ y \<Longrightarrow> delimited x \<Longrightarrow> delimited y \<Longrightarrow> a = b \<and> x = y"
      if "a \<in> set vs" for a b x y using JArr.IH [OF that] by blast
  qed (use JArr.prems(1) w stringify_not_closing in auto)
  then show ?case using w by simp
next
  case (JObj fs)
  then obtain gs where w: "w = JObj gs"
    using stringify_head [of w] by (cases w) (auto simp: kind_unit_def digit_def split: if_splits)
  let ?f = "\<lambda>(k, v). json_string k @ 58 # json_stringify v"
  have field: "(case map_prod id json_stringify p of (k, v) \<Rightarrow> json_string k @ 58 # v) = ?f p" for p by (cases p) simp
  have texts: "join_comma (map ?f fs) @ 125 # x = join_comma (map ?f gs) @ 125 # y"
    using JObj.prems(1) w by (simp add: comp_def field)
  have "fs = gs \<and> x = y"
  proof (rule joined_prefix [of fs ?f 125])
    fix a b x y
    assume a: "a \<in> set fs" "?f a @ x = ?f b @ y" "delimited x" "delimited y"
    obtain k v where k: "a = (k, v)" by fastforce
    obtain l u where l: "b = (l, u)" by fastforce
    have "k = l" "json_stringify v @ x = json_stringify u @ y"
      using a(2) k l json_string_prefix [of k "58 # json_stringify v @ x" l "58 # json_stringify u @ y"] by auto
    moreover have "v \<in> Basic_BNFs.snds a" using k by simp
    note JObj.IH [OF a(1) this, of x u y]
    ultimately show "a = b \<and> x = y" using a(3,4) k l by simp
  qed (use texts in \<open>auto simp: json_string_def\<close>)
  then show ?case using w by simp
qed

lemma json_stringify_inj: "json_stringify v = json_stringify w \<Longrightarrow> v = w"
  using stringify_prefix [of v "[]" w "[]"] by simp

section \<open>The canonical form\<close>

primrec sorted_fields :: "json \<Rightarrow> json" where
  "sorted_fields JNull = JNull"
| "sorted_fields (JBool b) = JBool b"
| "sorted_fields (JNum n) = JNum n"
| "sorted_fields (JStr s) = JStr s"
| "sorted_fields (JArr vs) = JArr (map sorted_fields vs)"
| "sorted_fields (JObj fs) = JObj (sort_key fst (map (map_prod id sorted_fields) fs))"

lemma sort_key_map_snd: "sort_key fst (map (map_prod id f) xs) = map (map_prod id f) (sort_key fst xs)"
proof -
  have ins: "insort_key fst (map_prod id f x) (map (map_prod id f) ys) = map (map_prod id f) (insort_key fst x ys)" for x ys
    by (induction ys) auto
  show ?thesis
  proof (induction xs)
    case (Cons x xs)
    then show ?case by (simp only: list.map sort_key_simps ins)
  qed simp
qed

lemma canonical_is_sorted: "canonicalJson v = json_stringify (sorted_fields v)"
proof (induction v)
  case (JArr vs)
  then have "map canonicalJson vs = map json_stringify (map sorted_fields vs)" by simp
  then show ?case by (simp only: canonicalJson.simps json_stringify.simps sorted_fields.simps)
next
  case (JObj fs)
  have "map_prod id canonicalJson p = map_prod id json_stringify (map_prod id sorted_fields p)" if "p \<in> set fs" for p
    using JObj.IH [OF that] by (cases p) simp
  then have fields: "map (map_prod id canonicalJson) fs = map (map_prod id json_stringify) (map (map_prod id sorted_fields) fs)"
    by simp
  show ?case by (simp only: canonicalJson.simps json_stringify.simps sorted_fields.simps fields sort_key_map_snd)
qed simp_all

text \<open>Equal canonical texts come from values with the same fields.\<close>

lemma canonical_inj: "canonicalJson v = canonicalJson w \<Longrightarrow> sorted_fields v = sorted_fields w"
  by (simp add: canonical_is_sorted json_stringify_inj)

text \<open>So values with the same canonical text have the same fields, each with the same canonical text.\<close>

lemma sorted_object:
  assumes "sorted_fields (JObj fs) = sorted_fields (JObj gs)"
  shows "set (map (map_prod id sorted_fields) fs) = set (map (map_prod id sorted_fields) gs)"
proof -
  have "sort_key fst (map (map_prod id sorted_fields) fs) = sort_key fst (map (map_prod id sorted_fields) gs)"
    using assms by simp
  then show ?thesis by (metis set_sort)
qed

lemma sorted_keys: "sorted_fields (JObj fs) = sorted_fields (JObj gs) \<Longrightarrow> fst ` set fs = fst ` set gs"
  using arg_cong [OF sorted_object, of fs gs "(`) fst"] by (simp add: image_image)

lemma sorted_field:
  assumes "sorted_fields (JObj fs) = sorted_fields (JObj gs)" "distinct (map fst gs)" "(k, v) \<in> set fs" "(k, w) \<in> set gs"
  shows "sorted_fields v = sorted_fields w"
proof -
  have "(k, sorted_fields v) \<in> set (map (map_prod id sorted_fields) gs)"
    using sorted_object [OF assms(1)] assms(3) by force
  then obtain w' where "(k, w') \<in> set gs" "sorted_fields v = sorted_fields w'" by auto
  then show ?thesis using assms(2,4) by (metis eq_key_imp_eq_value)
qed

lemma sorted_array: "(\<And>x y. sorted_fields (f x) = sorted_fields (f y) \<Longrightarrow> x = y) \<Longrightarrow>
    sorted_fields (JArr (map f xs)) = sorted_fields (JArr (map f ys)) \<Longrightarrow> xs = ys"
proof -
  assume inj: "\<And>x y. sorted_fields (f x) = sorted_fields (f y) \<Longrightarrow> x = y"
    and "sorted_fields (JArr (map f xs)) = sorted_fields (JArr (map f ys))"
  then have "map (sorted_fields \<circ> f) xs = map (sorted_fields \<circ> f) ys" by simp
  moreover have "inj (sorted_fields \<circ> f)" using inj by (intro injI) simp
  ultimately show ?thesis by (metis inj_map_eq_map)
qed

end
