(* ===== verification/Json_Fields.thy ===== *)
theory Json_Fields
  imports Json_Text
begin

text \<open>
  Reading a JSON text with every value of a repeated key kept: \<open>readFields\<close> of
  apps/daemon/src/emergency-stop-intents.ts, which scans text \<open>JSON.parse\<close> has already accepted.

  Of \<open>JSON.parse\<close>, what the scanner uses: which texts it accepts (the grammar of JSON, as a function
  that finds where a value ends), the value of a string and of a scalar. The number a numeral stands
  for is a parameter, \<open>num\<close>: the value of its text where that is an integer. A place in the text is
  the rest of the text from there on. Where the code would run past the end of the text without
  ever stopping, or throws, the result is \<open>None\<close>; on accepted text neither happens.
\<close>

section \<open>The texts JSON.parse accepts\<close>

definition json_space :: "js_char \<Rightarrow> bool" where
  "json_space c \<longleftrightarrow> c \<in> {32, 9, 10, 13}"

definition skip_space :: "js_string \<Rightarrow> js_string" where
  "skip_space = dropWhile json_space"

definition hex_digit :: "js_char \<Rightarrow> bool" where
  "hex_digit c \<longleftrightarrow> digit c \<or> 65 \<le> unat c \<and> unat c \<le> 70 \<or> 97 \<le> unat c \<and> unat c \<le> 102"

text \<open>Each function takes one thing off the front of a text and gives the rest of it.\<close>

fun string_rest :: "js_string \<Rightarrow> js_string option" where
  "string_rest [] = None"
| "string_rest (c # s) =
     (if c = 34 then Some s
      else if unat c < 32 then None
      else if c = 92 then
        (case s of
           [] \<Rightarrow> None
         | e # s1 \<Rightarrow>
             if e = 117 then
               (case s1 of
                  h1 # h2 # h3 # h4 # s2 \<Rightarrow> if list_all hex_digit [h1, h2, h3, h4] then string_rest s2 else None
                | _ \<Rightarrow> None)
             else if e \<in> {34, 92, 47, 98, 102, 110, 114, 116} then string_rest s1 else None)
      else string_rest s)"

definition sign_rest :: "js_char set \<Rightarrow> js_string \<Rightarrow> js_string option" where
  "sign_rest signs s = Some (case s of c # r \<Rightarrow> if c \<in> signs then r else s | [] \<Rightarrow> [])"

definition digits_rest :: "js_string \<Rightarrow> js_string option" where
  "digits_rest s = (case s of c # r \<Rightarrow> if digit c then Some (dropWhile digit r) else None | [] \<Rightarrow> None)"

definition integer_rest :: "js_string \<Rightarrow> js_string option" where
  "integer_rest s = (case s of c # r \<Rightarrow> if c = 48 then Some r else digits_rest s | [] \<Rightarrow> None)"

definition fraction_rest :: "js_string \<Rightarrow> js_string option" where
  "fraction_rest s = (case s of c # r \<Rightarrow> if c = 46 then digits_rest r else Some s | [] \<Rightarrow> Some [])"

definition exponent_rest :: "js_string \<Rightarrow> js_string option" where
  "exponent_rest s = (case s of
       c # r \<Rightarrow> if c = 101 \<or> c = 69 then Option.bind (sign_rest {43, 45} r) digits_rest else Some s
     | [] \<Rightarrow> Some [])"

definition number_rest :: "js_string \<Rightarrow> js_string option" where
  "number_rest s =
     Option.bind (sign_rest {45} s) (\<lambda>a. Option.bind (integer_rest a) (\<lambda>b. Option.bind (fraction_rest b) exponent_rest))"

definition word_rest :: "js_string \<Rightarrow> js_string \<Rightarrow> js_string option" where
  "word_rest w s = (if take (length w) s = w then Some (drop (length w) s) else None)"

definition primitive_rest :: "js_string \<Rightarrow> js_string option" where
  "primitive_rest s = (case s of
       [] \<Rightarrow> None
     | c # _ \<Rightarrow>
         if c = 116 then word_rest (js ''true'') s
         else if c = 102 then word_rest (js ''false'') s
         else if c = 110 then word_rest (js ''null'') s
         else number_rest s)"

definition opens :: "js_char \<Rightarrow> js_string \<Rightarrow> bool" where
  "opens c s \<longleftrightarrow> take 1 s = [c]"

text \<open>A value, the members of an object and the items of a list up to their closing bracket; the number is fuel.\<close>

fun json_value :: "nat \<Rightarrow> js_string \<Rightarrow> js_string option"
  and json_members :: "nat \<Rightarrow> js_string \<Rightarrow> js_string option"
  and json_items :: "nat \<Rightarrow> js_string \<Rightarrow> js_string option" where
  "json_value 0 t = None"
| "json_value (Suc n) t = (case skip_space t of
       [] \<Rightarrow> None
     | c # s \<Rightarrow>
         if c = 123 then (if opens 125 (skip_space s) then Some (tl (skip_space s)) else json_members n (skip_space s))
         else if c = 91 then (if opens 93 (skip_space s) then Some (tl (skip_space s)) else json_items n (skip_space s))
         else if c = 34 then string_rest s
         else primitive_rest (c # s))"
| "json_members 0 s = None"
| "json_members (Suc n) s = (case skip_space s of
       [] \<Rightarrow> None
     | q # s1 \<Rightarrow>
         if q \<noteq> 34 then None
         else Option.bind (string_rest s1) (\<lambda>r. case skip_space r of
             [] \<Rightarrow> None
           | k # r1 \<Rightarrow>
               if k \<noteq> 58 then None
               else Option.bind (json_value n r1) (\<lambda>r2. case skip_space r2 of
                   [] \<Rightarrow> None
                 | e # r3 \<Rightarrow> if e = 44 then json_members n r3 else if e = 125 then Some r3 else None)))"
| "json_items 0 s = None"
| "json_items (Suc n) s =
     Option.bind (json_value n s) (\<lambda>r2. case skip_space r2 of
         [] \<Rightarrow> None
       | e # r3 \<Rightarrow> if e = 44 then json_items n r3 else if e = 93 then Some r3 else None)"

text \<open>Twice the length of a text is fuel enough: every second call takes a unit off it.\<close>

definition json_fuel :: "js_string \<Rightarrow> nat" where
  "json_fuel t = 2 * Suc (length t)"

definition json_accepts :: "js_string \<Rightarrow> bool" where
  "json_accepts t \<longleftrightarrow> (case json_value (json_fuel t) t of None \<Rightarrow> False | Some r \<Rightarrow> skip_space r = [])"

section \<open>Values with every repeated key\<close>

datatype field_value =
    FText js_string
  | FNum int
  | FFields "(js_string \<times> field_value list) list"
  | FItems "field_value list"
  | FOther

text \<open>\<open>fields.get(key)\<close>, then \<open>values.push(item)\<close> or \<open>fields.set(key, [item])\<close>.\<close>

fun add_field :: "js_string \<Rightarrow> field_value \<Rightarrow> (js_string \<times> field_value list) list \<Rightarrow> (js_string \<times> field_value list) list" where
  "add_field k v [] = [(k, [v])]"
| "add_field k v ((a, vs) # fs) = (if a = k then (a, vs @ [v]) # fs else (a, vs) # add_field k v fs)"

text \<open>\<open>JSON.parse\<close> of a slice that is one string or one scalar.\<close>

definition parse_scalar :: "(js_string \<Rightarrow> int option) \<Rightarrow> js_string \<Rightarrow> field_value option" where
  "parse_scalar num s =
     (if \<not> json_accepts s then None
      else (case skip_space s of
          [] \<Rightarrow> None
        | c # r \<Rightarrow>
            if c = 34 then map_option (\<lambda>(u, _). FText u) (read_units r)
            else if c = 45 \<or> digit c then Some (case num s of Some n \<Rightarrow> FNum n | None \<Rightarrow> FOther)
            else Some FOther))"

section \<open>The scanner\<close>

text \<open>\<open>stringEnd\<close>: what a string takes from after its opening quote, to its closing one, and the rest.\<close>

fun string_end :: "js_string \<Rightarrow> (js_string \<times> js_string) option" where
  "string_end [] = None"
| "string_end (c # s) =
     (if c = 34 then Some ([c], s)
      else if c = 92 then
        (case s of [] \<Rightarrow> None | d # s1 \<Rightarrow> map_option (\<lambda>(w, r). (c # d # w, r)) (string_end s1))
      else map_option (\<lambda>(w, r). (c # w, r)) (string_end s))"

definition stringEnd :: "js_string \<Rightarrow> (js_string \<times> js_string) option" where
  "stringEnd s = (case s of [] \<Rightarrow> None | q # s1 \<Rightarrow> map_option (\<lambda>(w, r). (q # w, r)) (string_end s1))"

text \<open>\<open>primitiveEnd\<close>\<close>

definition primitive_unit :: "js_char \<Rightarrow> bool" where
  "primitive_unit c \<longleftrightarrow> c \<notin> {44, 125, 93} \<and> \<not> json_space c"

lemma string_end_shorter: "string_end s = Some (w, r) \<Longrightarrow> length r < length s"
  by (induction s arbitrary: w r rule: string_end.induct) (fastforce split: if_splits list.splits)+

text \<open>\<open>skipContainer\<close>, from a depth on: brackets are counted, strings are passed over.\<close>

function skipContainer :: "nat \<Rightarrow> js_string \<Rightarrow> js_string option" where
  "skipContainer depth [] = None"
| "skipContainer depth (c # s) =
     (if c = 34 then
        (case string_end s of
           None \<Rightarrow> None
         | Some (_, r) \<Rightarrow> if depth > 0 then skipContainer depth r else Some r)
      else
        let depth' = (if c \<in> {123, 91} then depth + 1 else if c \<in> {125, 93} then depth - 1 else depth)
        in if depth' > 0 then skipContainer depth' s else Some s)"
  by pat_completeness auto
termination
  by (relation "measure (\<lambda>(_, s). length s)") (auto dest: string_end_shorter)

text \<open>A key of an object, and the text from after its colon on.\<close>

definition scan_key :: "(js_string \<Rightarrow> int option) \<Rightarrow> js_string \<Rightarrow> (js_string \<times> js_string) option" where
  "scan_key num s = (case stringEnd (skip_space s) of
       None \<Rightarrow> None
     | Some (w, r) \<Rightarrow> (case parse_scalar num w of
         Some (FText k) \<Rightarrow> Some (k, drop 1 (skip_space r))
       | _ \<Rightarrow> None))"

text \<open>A string or another scalar.\<close>

definition scan_scalar :: "(js_string \<Rightarrow> int option) \<Rightarrow> js_string \<Rightarrow> (field_value \<times> js_string) option" where
  "scan_scalar num s = (case (if opens 34 s then stringEnd s else Some (takeWhile primitive_unit s, dropWhile primitive_unit s)) of
       None \<Rightarrow> None
     | Some (w, r) \<Rightarrow> map_option (\<lambda>v. (v, r)) (parse_scalar num w))"

text \<open>\<open>value(depth)\<close>, and the two kinds of its loop, for an object and for a list.\<close>

fun scan_value :: "(js_string \<Rightarrow> int option) \<Rightarrow> nat \<Rightarrow> nat \<Rightarrow> js_string \<Rightarrow> (field_value \<times> js_string) option"
  and scan_members :: "(js_string \<Rightarrow> int option) \<Rightarrow> nat \<Rightarrow> nat \<Rightarrow> (js_string \<times> field_value list) list \<Rightarrow> js_string
        \<Rightarrow> ((js_string \<times> field_value list) list \<times> js_string) option"
  and scan_items :: "(js_string \<Rightarrow> int option) \<Rightarrow> nat \<Rightarrow> nat \<Rightarrow> field_value list \<Rightarrow> js_string \<Rightarrow> (field_value list \<times> js_string) option" where
  "scan_value num 0 depth t = None"
| "scan_value num (Suc n) depth t =
     (if opens 123 (skip_space t) \<or> opens 91 (skip_space t) then
        (if depth > 2 then map_option (Pair FOther) (skipContainer 0 (skip_space t))
         else if opens 123 (skip_space t) then
           (if opens 125 (skip_space (tl (skip_space t))) then Some (FFields [], tl (skip_space (tl (skip_space t))))
            else map_option (map_prod FFields id) (scan_members num n depth [] (skip_space (tl (skip_space t)))))
         else
           (if opens 93 (skip_space (tl (skip_space t))) then Some (FItems [], tl (skip_space (tl (skip_space t))))
            else map_option (map_prod FItems id) (scan_items num n depth [] (skip_space (tl (skip_space t))))))
      else scan_scalar num (skip_space t))"
| "scan_members num 0 depth fs s = None"
| "scan_members num (Suc n) depth fs s = (case scan_key num s of
       None \<Rightarrow> None
     | Some (k, r1) \<Rightarrow> (case scan_value num n (Suc depth) r1 of
         None \<Rightarrow> None
       | Some (item, r2) \<Rightarrow>
           if opens 44 (skip_space r2) then scan_members num n depth (add_field k item fs) (tl (skip_space r2))
           else Some (add_field k item fs, tl (skip_space r2))))"
| "scan_items num 0 depth xs s = None"
| "scan_items num (Suc n) depth xs s = (case scan_value num n (Suc depth) (skip_space s) of
       None \<Rightarrow> None
     | Some (item, r2) \<Rightarrow>
         if opens 44 (skip_space r2) then scan_items num n depth (xs @ [item]) (tl (skip_space r2))
         else Some (xs @ [item], tl (skip_space r2)))"

definition readFields :: "(js_string \<Rightarrow> int option) \<Rightarrow> js_string \<Rightarrow> field_value option" where
  "readFields num t = map_option fst (scan_value num (json_fuel t) 0 t)"

section \<open>Slices\<close>

text \<open>A unit that ends no scalar, opens no bracket and starts no string.\<close>

definition tight :: "js_char \<Rightarrow> bool" where
  "tight c \<longleftrightarrow> primitive_unit c \<and> c \<notin> {34, 123, 91}"

lemma digit_tight: "digit c \<Longrightarrow> tight c"
  by (auto simp: digit_def tight_def primitive_unit_def json_space_def)

lemma hex_digit_plain: "hex_digit c \<Longrightarrow> c \<noteq> 34 \<and> c \<noteq> 92"
  by (auto simp: hex_digit_def digit_def)

lemma string_slice:
  "string_rest s = Some r \<Longrightarrow> \<exists>w u. s = w @ r \<and> string_end s = Some (w, r) \<and> string_rest w = Some [] \<and> read_units w = Some (u, [])"
proof (induction s rule: string_rest.induct)
  case (2 c s)
  consider (quote) "c = 34" | (esc) h1 h2 h3 h4 s2 where "c = 92" "s = 117 # h1 # h2 # h3 # h4 # s2" "list_all hex_digit [h1, h2, h3, h4]"
      "string_rest s2 = Some r"
    | (pair) e s1 where "c = 92" "s = e # s1" "e \<noteq> 117" "e \<in> {34, 92, 47, 98, 102, 110, 114, 116}" "string_rest s1 = Some r"
    | (unit) "c \<noteq> 34" "c \<noteq> 92" "\<not> unat c < 32" "string_rest s = Some r"
  proof (cases "c = 92")
    case False
    then show ?thesis using that(1,4) 2(4) by (cases "c = 34"; cases "unat c < 32") simp_all
  next
    case True
    then obtain e s1 where s: "s = e # s1" using 2(4) by (cases s) simp_all
    show ?thesis
    proof (cases "e = 117")
      case False
      then show ?thesis using that(3) 2(4) True s by (cases "e \<in> {34, 92, 47, 98, 102, 110, 114, 116}") simp_all
    next
      case u: True
      have "(case s1 of h1 # h2 # h3 # h4 # s2 \<Rightarrow> if list_all hex_digit [h1, h2, h3, h4] then string_rest s2 else None | _ \<Rightarrow> None) = Some r"
        using 2(4) True s u by simp
      then obtain h1 h2 h3 h4 s2 where "s1 = h1 # h2 # h3 # h4 # s2" "list_all hex_digit [h1, h2, h3, h4]" "string_rest s2 = Some r"
        by (simp split: list.splits if_splits)
      then show ?thesis using that(2) True s u by blast
    qed
  qed
  then show ?case
  proof cases
    case quote
    then show ?thesis using 2(4) by simp
  next
    case esc
    then obtain w u where "s2 = w @ r" "string_end s2 = Some (w, r)" "string_rest w = Some []" "read_units w = Some (u, [])"
      using 2(1) by fastforce
    then show ?thesis using esc hex_digit_plain by (intro exI [of _ "c # 117 # h1 # h2 # h3 # h4 # w"]
        exI [of _ "word_of_nat (hex_value h1 * 4096 + hex_value h2 * 256 + hex_value h3 * 16 + hex_value h4) # u"]) auto
  next
    case pair
    then obtain w u where "s1 = w @ r" "string_end s1 = Some (w, r)" "string_rest w = Some []" "read_units w = Some (u, [])"
      using 2(2) by fastforce
    then show ?thesis using pair by (intro exI [of _ "c # e # w"] exI [of _ "unescaped e # u"]) auto
  next
    case unit
    then obtain w u where "s = w @ r" "string_end s = Some (w, r)" "string_rest w = Some []" "read_units w = Some (u, [])"
      using 2(3) by fastforce
    then show ?thesis using unit by (intro exI [of _ "c # w"] exI [of _ "c # u"]) auto
  qed
qed simp

text \<open>
  A function that takes units off the front of a text takes the same ones whatever part of the
  rest is there.
\<close>

definition local_rest :: "(js_string \<Rightarrow> js_string option) \<Rightarrow> bool" where
  "local_rest f \<longleftrightarrow> (\<forall>s a. f s = Some a \<longrightarrow>
     (\<exists>p. s = p @ a \<and> list_all tight p \<and> (\<forall>q r. a = q @ r \<longrightarrow> f (p @ q) = Some q)))"

lemma local_restI:
  "(\<And>s a. f s = Some a \<Longrightarrow> \<exists>p. s = p @ a \<and> list_all tight p \<and> (\<forall>q r. a = q @ r \<longrightarrow> f (p @ q) = Some q)) \<Longrightarrow> local_rest f"
  by (simp add: local_rest_def)

lemma local_bind:
  assumes "local_rest f" "local_rest g"
  shows "local_rest (\<lambda>s. Option.bind (f s) g)"
proof (rule local_restI)
  fix s b
  assume "Option.bind (f s) g = Some b"
  then obtain a where a: "f s = Some a" "g a = Some b" by (auto simp: bind_eq_Some_conv)
  obtain p where p: "s = p @ a" "list_all tight p" "\<And>q r. a = q @ r \<Longrightarrow> f (p @ q) = Some q"
    using assms(1) a(1) unfolding local_rest_def by blast
  obtain p' where p': "a = p' @ b" "list_all tight p'" "\<And>q r. b = q @ r \<Longrightarrow> g (p' @ q) = Some q"
    using assms(2) a(2) unfolding local_rest_def by blast
  have "Option.bind (f ((p @ p') @ q)) g = Some q" if "b = q @ r" for q r
    using p(3) [of "p' @ q" r] p' that by simp
  then show "\<exists>p. s = p @ b \<and> list_all tight p \<and> (\<forall>q r. b = q @ r \<longrightarrow> Option.bind (f (p @ q)) g = Some q)"
    using p p' by (intro exI [of _ "p @ p'"]) simp
qed

lemma dropWhile_stop: "q = [] \<or> \<not> P (hd q) \<Longrightarrow> list_all P p \<Longrightarrow> dropWhile P (p @ q) = q"
  by (induction p) (auto simp: dropWhile_eq_self_iff)

lemma dropWhile_stops: "dropWhile P s = q @ r \<Longrightarrow> q = [] \<or> \<not> P (hd q)"
  by (cases q) (auto dest: hd_dropWhile simp: dropWhile_eq_Cons_conv)

lemma local_digits: "local_rest digits_rest"
proof (rule local_restI)
  fix s a
  assume "digits_rest s = Some a"
  then obtain c t where s: "s = c # t" "digit c" "a = dropWhile digit t" by (auto simp: digits_rest_def split: list.splits if_splits)
  have "list_all digit (takeWhile digit t)" by (auto simp: list_all_iff dest: set_takeWhileD)
  then have "digits_rest ((c # takeWhile digit t) @ q) = Some q" if "a = q @ r" for q r
    using s(2) dropWhile_stop dropWhile_stops [of digit t q r] that s(3) by (simp add: digits_rest_def)
  moreover have "list_all tight (c # takeWhile digit t)"
    using s(2) by (auto simp: list_all_iff intro!: digit_tight dest: set_takeWhileD)
  ultimately show "\<exists>p. s = p @ a \<and> list_all tight p \<and> (\<forall>q r. a = q @ r \<longrightarrow> digits_rest (p @ q) = Some q)"
    using s by (intro exI [of _ "c # takeWhile digit t"]) simp
qed

lemma local_sign: "(\<And>c. c \<in> signs \<Longrightarrow> tight c) \<Longrightarrow> local_rest (sign_rest signs)"
proof (rule local_restI)
  fix s a
  assume t: "\<And>c. c \<in> signs \<Longrightarrow> tight c" and "sign_rest signs s = Some a"
  then consider c where "s = c # a" "c \<in> signs" | "s = a" "a = [] \<or> hd a \<notin> signs"
    by (cases s) (auto simp: sign_rest_def split: if_splits)
  then show "\<exists>p. s = p @ a \<and> list_all tight p \<and> (\<forall>q r. a = q @ r \<longrightarrow> sign_rest signs (p @ q) = Some q)"
  proof cases
    case (1 c)
    then show ?thesis using t by (intro exI [of _ "[c]"]) (simp add: sign_rest_def)
  next
    case 2
    then have "sign_rest signs q = Some q" if "a = q @ r" for q r
      using that by (cases q) (auto simp: sign_rest_def)
    then show ?thesis using 2 by (intro exI [of _ "[]"]) simp
  qed
qed

text \<open>A part that starts with certain units, or is not there at all.\<close>

lemma local_optional:
  assumes "local_rest g" "\<And>c. P c \<Longrightarrow> tight c"
    and f: "\<And>s. f s = (case s of c # r \<Rightarrow> if P c then g r else Some s | [] \<Rightarrow> Some [])"
  shows "local_rest f"
proof (rule local_restI)
  fix s a
  assume "f s = Some a"
  then consider (part) c t where "s = c # t" "P c" "g t = Some a" | (none) "s = a" "a = [] \<or> \<not> P (hd a)"
    by (cases s) (auto simp: f split: if_splits)
  then show "\<exists>p. s = p @ a \<and> list_all tight p \<and> (\<forall>q r. a = q @ r \<longrightarrow> f (p @ q) = Some q)"
  proof cases
    case part
    obtain p where "t = p @ a" "list_all tight p" "\<forall>q r. a = q @ r \<longrightarrow> g (p @ q) = Some q"
      using assms(1) part(3) unfolding local_rest_def by blast
    then show ?thesis using part assms(2) by (intro exI [of _ "c # p"]) (simp add: f)
  next
    case none
    then have "f q = Some q" if "a = q @ r" for q r
      using that by (cases q) (auto simp: f)
    then show ?thesis using none by (intro exI [of _ "[]"]) simp
  qed
qed

lemma local_integer: "local_rest integer_rest"
proof (rule local_restI)
  fix s a
  assume "integer_rest s = Some a"
  then consider "s = 48 # a" | "digits_rest s = Some a" "hd s \<noteq> 48" "s \<noteq> []"
    by (cases s) (auto simp: integer_rest_def split: if_splits)
  then show "\<exists>p. s = p @ a \<and> list_all tight p \<and> (\<forall>q r. a = q @ r \<longrightarrow> integer_rest (p @ q) = Some q)"
  proof cases
    case 1
    then show ?thesis using digit_tight [of 48] by (intro exI [of _ "[48]"]) (simp add: integer_rest_def digit_def)
  next
    case 2
    obtain p where p: "s = p @ a" "list_all tight p" "\<And>q r. a = q @ r \<Longrightarrow> digits_rest (p @ q) = Some q"
      using local_digits 2(1) unfolding local_rest_def by blast
    have "p \<noteq> []" using p(3) [of "[]" a] by (auto simp: digits_rest_def)
    then have "integer_rest (p @ q) = Some q" if "a = q @ r" for q r
      using p that 2(2) by (cases p) (auto simp: integer_rest_def)
    then show ?thesis using p by blast
  qed
qed

lemma local_number: "local_rest number_rest"
proof -
  have exponent: "local_rest exponent_rest"
    by (rule local_optional [where P = "\<lambda>c. c = 101 \<or> c = 69" and g = "\<lambda>r. Option.bind (sign_rest {43, 45} r) digits_rest"])
      (auto simp: exponent_rest_def tight_def primitive_unit_def json_space_def split: list.split intro!: local_bind local_sign local_digits)
  have fraction: "local_rest fraction_rest"
    by (rule local_optional [where P = "\<lambda>c. c = 46" and g = digits_rest])
      (auto simp: fraction_rest_def tight_def primitive_unit_def json_space_def split: list.split intro!: local_digits)
  have "local_rest (\<lambda>s. Option.bind (sign_rest {45} s) (\<lambda>a. Option.bind (integer_rest a) (\<lambda>b. Option.bind (fraction_rest b) exponent_rest)))"
    by (intro local_bind local_sign local_integer fraction exponent) (auto simp: tight_def primitive_unit_def json_space_def)
  then show ?thesis by (simp add: number_rest_def [abs_def])
qed

lemma local_word: "list_all tight w \<Longrightarrow> local_rest (word_rest w)"
proof (rule local_restI)
  fix s a
  assume w: "list_all tight w" and "word_rest w s = Some a"
  then have "s = w @ a" by (auto simp: word_rest_def split: if_splits) (metis append_take_drop_id)
  moreover have "word_rest w (w @ q) = Some q" for q by (simp add: word_rest_def)
  ultimately show "\<exists>p. s = p @ a \<and> list_all tight p \<and> (\<forall>q r. a = q @ r \<longrightarrow> word_rest w (p @ q) = Some q)" using w by blast
qed

lemma words_tight: "list_all tight (js ''true'')" "list_all tight (js ''false'')" "list_all tight (js ''null'')"
  by (simp_all add: js_def tight_def primitive_unit_def json_space_def)

lemma primitive_slice:
  assumes "primitive_rest s = Some r"
  shows "\<exists>p. s = p @ r \<and> p \<noteq> [] \<and> list_all tight p \<and> primitive_rest p = Some []"
proof -
  obtain c t where s: "s = c # t" using assms by (cases s) (simp_all add: primitive_rest_def)
  define f where "f = (if c = 116 then word_rest (js ''true'') else if c = 102 then word_rest (js ''false'')
     else if c = 110 then word_rest (js ''null'') else number_rest)"
  have f: "primitive_rest (c # u) = f (c # u)" for u by (simp add: primitive_rest_def f_def)
  have "local_rest f" using local_word words_tight local_number by (simp add: f_def)
  then obtain p where p: "s = p @ r" "list_all tight p" "\<And>q x. r = q @ x \<Longrightarrow> f (p @ q) = Some q"
    using assms unfolding s f local_rest_def by blast
  have "f [] = None" by (simp add: f_def word_rest_def number_rest_def sign_rest_def integer_rest_def) (simp add: js_def)
  then have ne: "p \<noteq> []" using p(3) [of "[]" r] by auto
  then obtain q where "p = c # q" using p(1) s by (cases p) auto
  then show ?thesis using p p(3) [of "[]" r] ne f by auto
qed

section \<open>Passing over a container\<close>

lemma skip_space_split: "s = takeWhile json_space s @ skip_space s"
  by (simp add: skip_space_def)

lemma skip_units: "0 < k \<Longrightarrow> list_all (\<lambda>c. c \<notin> {34, 123, 91, 125, 93}) p \<Longrightarrow> skipContainer k (p @ s) = skipContainer k s"
  by (induction p) simp_all

lemma skip_spaces: "0 < k \<Longrightarrow> skipContainer k (skip_space s) = skipContainer k s"
proof -
  assume k: "0 < k"
  have "list_all (\<lambda>c. c \<notin> {34, 123, 91, 125, 93}) (takeWhile json_space s)"
    by (auto simp: list_all_iff json_space_def dest!: set_takeWhileD)
  from skip_units [OF k this, of "skip_space s"] show ?thesis using skip_space_split [of s] by simp
qed

lemma skip_string: "0 < k \<Longrightarrow> string_rest s = Some r \<Longrightarrow> skipContainer k (34 # s) = skipContainer k r"
  using string_slice [of s r] by auto

lemma skip_primitive: "0 < k \<Longrightarrow> primitive_rest s = Some r \<Longrightarrow> skipContainer k s = skipContainer k r"
proof -
  assume k: "0 < k" and "primitive_rest s = Some r"
  then obtain p where p: "s = p @ r" "list_all tight p" using primitive_slice by blast
  have "list_all (\<lambda>c. c \<notin> {34, 123, 91, 125, 93}) p" using p(2) by (auto simp: list_all_iff tight_def primitive_unit_def)
  from skip_units [OF k this] p(1) show ?thesis by simp
qed

lemma skip_bracket: "c \<in> {123, 91} \<Longrightarrow> skipContainer k (c # s) = skipContainer (Suc k) s"
  by auto

lemma skip_close: "c \<in> {125, 93} \<Longrightarrow> skipContainer (Suc k) (c # s) = (if 0 < k then skipContainer k s else Some s)"
  by auto

lemma skip_plain: "0 < k \<Longrightarrow> c \<in> {44, 58} \<Longrightarrow> skipContainer k (c # s) = skipContainer k s"
  by auto

lemma opens_iff: "opens c s \<longleftrightarrow> s = c # tl s"
  by (cases s) (auto simp: opens_def)

declare skipContainer.simps [simp del]

text \<open>A whole value leaves the depth as it is; the members or items of a container end at its closing bracket.\<close>

lemma skips:
  "(\<forall>t r k. json_value n t = Some r \<longrightarrow> 0 < k \<longrightarrow> skipContainer k t = skipContainer k r)
   \<and> (\<forall>s r k. json_members n s = Some r \<longrightarrow> skipContainer (Suc k) s = (if 0 < k then skipContainer k r else Some r))
   \<and> (\<forall>s r k. json_items n s = Some r \<longrightarrow> skipContainer (Suc k) s = (if 0 < k then skipContainer k r else Some r))"
proof (induction n)
  case (Suc n)
  then have value_skip: "json_value n t = Some r \<Longrightarrow> 0 < k \<Longrightarrow> skipContainer k t = skipContainer k r"
    and members_skip: "json_members n s = Some r \<Longrightarrow> skipContainer (Suc k) s = (if 0 < k then skipContainer k r else Some r)"
    and items_skip: "json_items n s = Some r \<Longrightarrow> skipContainer (Suc k) s = (if 0 < k then skipContainer k r else Some r)" for t s r k
    by blast+
  have empty: "skipContainer (Suc k) s = skipContainer k (tl (skip_space s))"
    if "0 < k" "opens c (skip_space s)" "c \<in> {125, 93}" for k s c
    using that skip_spaces [of "Suc k" s] skip_close [of c k "tl (skip_space s)"] by (simp add: opens_iff)
  have v: "skipContainer k t = skipContainer k r" if run: "json_value (Suc n) t = Some r" and k: "0 < k" for t r k
  proof -
    obtain c s where t: "skip_space t = c # s" using run by (cases "skip_space t") simp_all
    consider "c = 123" | "c = 91" | "c = 34" "string_rest s = Some r"
      | "c \<notin> {123, 91, 34}" "primitive_rest (c # s) = Some r"
      using run t by (cases "c = 123"; cases "c = 91"; cases "c = 34") simp_all
    then have "skipContainer k (c # s) = skipContainer k r"
    proof cases
      case 1
      then show ?thesis
        using run t k empty [of k 125 s] members_skip [of "skip_space s" r k] skip_spaces [of "Suc k" s]
        by (cases "opens 125 (skip_space s)") (simp_all add: skip_bracket)
    next
      case 2
      then show ?thesis
        using run t k empty [of k 93 s] items_skip [of "skip_space s" r k] skip_spaces [of "Suc k" s]
        by (cases "opens 93 (skip_space s)") (simp_all add: skip_bracket)
    next
      case 3
      then show ?thesis using skip_string [OF k] by simp
    next
      case 4
      then show ?thesis using skip_primitive [OF k] by blast
    qed
    then show ?thesis using skip_spaces [OF k, of t] t by simp
  qed
  have m: "skipContainer (Suc k) s = (if 0 < k then skipContainer k r else Some r)" if run: "json_members (Suc n) s = Some r" for s r k
  proof -
    obtain s1 where s: "skip_space s = 34 # s1" using run by (auto split: list.splits if_splits)
    then obtain r1 where r1: "string_rest s1 = Some r1" using run by (auto simp: bind_eq_Some_conv)
    obtain r2 where r2: "skip_space r1 = 58 # r2" using run s r1 by (auto split: list.splits if_splits)
    obtain r3 where r3: "json_value n r2 = Some r3" using run s r1 r2 by (auto simp: bind_eq_Some_conv)
    obtain e r4 where r4: "skip_space r3 = e # r4" "e = 44 \<and> json_members n r4 = Some r \<or> e = 125 \<and> r4 = r"
      using run s r1 r2 r3 by (auto split: list.splits if_splits)
    have "skipContainer (Suc k) s = skipContainer (Suc k) r1"
      using skip_spaces [of "Suc k" s] s skip_string [of "Suc k" s1 r1] r1 by simp
    also have "\<dots> = skipContainer (Suc k) r2"
      using skip_spaces [of "Suc k" r1] r2 skip_plain [of "Suc k" 58 r2] by simp
    also have "\<dots> = skipContainer (Suc k) r3" using value_skip [OF r3] by simp
    also have "\<dots> = skipContainer (Suc k) (e # r4)" using skip_spaces [of "Suc k" r3] r4(1) by simp
    finally show ?thesis using r4(2) members_skip [of r4 r k] skip_plain [of "Suc k" 44 r4] skip_close [of 125 k r4] by auto
  qed
  have i: "skipContainer (Suc k) s = (if 0 < k then skipContainer k r else Some r)" if run: "json_items (Suc n) s = Some r" for s r k
  proof -
    obtain r3 where r3: "json_value n s = Some r3" using run by (auto simp: bind_eq_Some_conv)
    obtain e r4 where r4: "skip_space r3 = e # r4" "e = 44 \<and> json_items n r4 = Some r \<or> e = 93 \<and> r4 = r"
      using run r3 by (auto split: list.splits if_splits)
    have "skipContainer (Suc k) s = skipContainer (Suc k) (e # r4)"
      using value_skip [OF r3, of "Suc k"] skip_spaces [of "Suc k" r3] r4(1) by simp
    then show ?thesis using r4(2) items_skip [of r4 r k] skip_plain [of "Suc k" 44 r4] skip_close [of 93 k r4] by auto
  qed
  show ?case using v m i by blast
qed simp

text \<open>So a container is passed over to where it ends.\<close>

lemma skip_whole:
  assumes "json_value n t = Some r" "opens 123 (skip_space t) \<or> opens 91 (skip_space t)"
  shows "skipContainer 0 (skip_space t) = Some r"
proof (cases n)
  case (Suc m)
  obtain c s where t: "skip_space t = c # s" "c = 123 \<or> c = 91" using assms(2) by (cases "skip_space t") (auto simp: opens_def)
  have first: "skipContainer 0 (skip_space t) = skipContainer (Suc 0) (skip_space s)"
    using t skip_bracket [of c 0 s] skip_spaces [of "Suc 0" s] by simp
  consider d where "d \<in> {125, 93}" "skip_space s = d # r" | "json_members m (skip_space s) = Some r" | "json_items m (skip_space s) = Some r"
    using assms(1) t Suc by (cases "skip_space s") (auto simp: opens_def split: if_splits)
  then show ?thesis
  proof cases
    case (1 d)
    then show ?thesis unfolding first using skip_close [of d 0 r] by simp
  qed (use skips [of m] first in \<open>auto dest: spec [of _ "0::nat"]\<close>)
qed (use assms in simp)

section \<open>Accepted text is read\<close>

text \<open>What follows a value in accepted text.\<close>

definition ends_here :: "js_string \<Rightarrow> bool" where
  "ends_here r \<longleftrightarrow> r = [] \<or> \<not> primitive_unit (hd r)"

lemma skipped_ends: "skip_space r = [] \<or> hd (skip_space r) \<in> {44, 125, 93} \<Longrightarrow> ends_here r"
  by (cases r) (auto simp: ends_here_def skip_space_def primitive_unit_def split: if_splits)

lemma accepted_string: "string_rest w = Some [] \<Longrightarrow> json_accepts (34 # w)"
  by (simp add: json_accepts_def json_fuel_def skip_space_def json_space_def)

lemma primitive_first: "p \<noteq> [] \<Longrightarrow> list_all tight p \<Longrightarrow> \<not> json_space (hd p) \<and> hd p \<notin> {34, 123, 91}"
  by (cases p) (auto simp: tight_def primitive_unit_def)

lemma accepted_primitive: "primitive_rest p = Some [] \<Longrightarrow> p \<noteq> [] \<Longrightarrow> list_all tight p \<Longrightarrow> json_accepts p"
  using primitive_first [of p] by (cases p) (auto simp: json_accepts_def json_fuel_def skip_space_def)

lemma scan_string_ok: "string_rest s = Some r \<Longrightarrow> \<exists>u. scan_scalar num (34 # s) = Some (FText u, r)"
proof -
  assume "string_rest s = Some r"
  then obtain w u where w: "string_end s = Some (w, r)" "string_rest w = Some []" "read_units w = Some (u, [])" using string_slice by blast
  have "parse_scalar num (34 # w) = Some (FText u)"
    using accepted_string [OF w(2)] w(3) by (simp add: parse_scalar_def skip_space_def json_space_def)
  then show ?thesis using w(1) by (simp add: scan_scalar_def stringEnd_def opens_def)
qed

lemma scan_primitive_ok:
  assumes "primitive_rest s = Some r" "ends_here r"
  shows "\<exists>v. scan_scalar num s = Some (v, r)"
proof -
  obtain p where p: "s = p @ r" "p \<noteq> []" "list_all tight p" "primitive_rest p = Some []" using primitive_slice [OF assms(1)] by blast
  have units: "list_all primitive_unit p" using p(3) by (auto simp: list_all_iff tight_def)
  have drop: "dropWhile primitive_unit s = r" using dropWhile_stop [of r primitive_unit p] assms(2) units p(1) by (auto simp: ends_here_def)
  have take: "takeWhile primitive_unit s = p" using drop takeWhile_dropWhile_id [of primitive_unit s] p(1) by simp
  have "\<exists>v. parse_scalar num p = Some v"
    using accepted_primitive [OF p(4,2,3)] primitive_first [OF p(2,3)] p(2)
    by (cases p) (auto simp: parse_scalar_def skip_space_def)
  then obtain v where "parse_scalar num p = Some v" by blast
  moreover have "\<not> opens 34 s" using primitive_first [OF p(2,3)] p(1,2) by (cases p) (auto simp: opens_def)
  ultimately show ?thesis using take drop by (simp add: scan_scalar_def)
qed

lemma scans:
  "(\<forall>t r depth. json_value n t = Some r \<longrightarrow> ends_here r \<longrightarrow> (\<exists>v. scan_value num n depth t = Some (v, r)))
   \<and> (\<forall>s r depth fs. json_members n s = Some r \<longrightarrow> (\<exists>fs'. scan_members num n depth fs s = Some (fs', r)))
   \<and> (\<forall>s r depth xs. json_items n s = Some r \<longrightarrow> (\<exists>xs'. scan_items num n depth xs s = Some (xs', r)))"
proof (induction n)
  case (Suc n)
  then have value_scan: "json_value n t = Some r \<Longrightarrow> ends_here r \<Longrightarrow> \<exists>v. scan_value num n depth t = Some (v, r)"
    and members_scan: "json_members n s = Some r \<Longrightarrow> \<exists>fs'. scan_members num n depth fs s = Some (fs', r)"
    and items_scan: "json_items n s = Some r \<Longrightarrow> \<exists>xs'. scan_items num n depth xs s = Some (xs', r)" for t s r depth fs xs
    by blast+
  have v: "\<exists>v. scan_value num (Suc n) depth t = Some (v, r)" if run: "json_value (Suc n) t = Some r" and r: "ends_here r" for t r depth
  proof -
    obtain c s where t: "skip_space t = c # s" using run by (cases "skip_space t") simp_all
    have deep: "skipContainer 0 (skip_space t) = Some r" if "c = 123 \<or> c = 91"
      using skip_whole [OF run] that t by (simp add: opens_def)
    consider (obj) "c = 123" | (items) "c = 91" | (str) "c = 34" "string_rest s = Some r"
      | (prim) "c \<notin> {123, 91, 34}" "primitive_rest (c # s) = Some r"
      using run t by (cases "c = 123"; cases "c = 91"; cases "c = 34") simp_all
    then show ?thesis
    proof cases
      case obj
      then have "opens 123 (skip_space t)" "tl (skip_space t) = s" using t by (simp_all add: opens_def)
      then show ?thesis
        using run t obj deep members_scan [of "skip_space s" r depth "[]"]
        by (cases "2 < depth"; cases "opens 125 (skip_space s)") auto
    next
      case items
      then have "opens 91 (skip_space t)" "\<not> opens 123 (skip_space t)" "tl (skip_space t) = s" using t by (simp_all add: opens_def)
      then show ?thesis
        using run t items deep items_scan [of "skip_space s" r depth "[]"]
        by (cases "2 < depth"; cases "opens 93 (skip_space s)") auto
    next
      case str
      then show ?thesis using t scan_string_ok [of s r num] by (auto simp: opens_def)
    next
      case prim
      then show ?thesis using t scan_primitive_ok [OF _ r] by (simp add: opens_def)
    qed
  qed
  have m: "\<exists>fs'. scan_members num (Suc n) depth fs s = Some (fs', r)" if run: "json_members (Suc n) s = Some r" for s r depth fs
  proof -
    obtain s1 where s: "skip_space s = 34 # s1" using run by (auto split: list.splits if_splits)
    then obtain r1 where r1: "string_rest s1 = Some r1" using run by (auto simp: bind_eq_Some_conv)
    obtain r2 where r2: "skip_space r1 = 58 # r2" using run s r1 by (auto split: list.splits if_splits)
    obtain r3 where r3: "json_value n r2 = Some r3" using run s r1 r2 by (auto simp: bind_eq_Some_conv)
    obtain e r4 where r4: "skip_space r3 = e # r4" "e = 44 \<and> json_members n r4 = Some r \<or> e = 125 \<and> r4 = r"
      using run s r1 r2 r3 by (auto split: list.splits if_splits)
    obtain u where "scan_scalar num (34 # s1) = Some (FText u, r1)" using scan_string_ok [OF r1] by blast
    then have "scan_key num s = Some (u, r2)"
      by (auto simp: scan_key_def scan_scalar_def s r2 opens_def split: option.splits)
    moreover obtain v where "scan_value num n (Suc depth) r2 = Some (v, r3)"
      using value_scan [OF r3 skipped_ends, of "Suc depth"] r4 by auto
    ultimately show ?thesis using r4 members_scan [of r4 r depth] by (auto simp: opens_def)
  qed
  have i: "\<exists>xs'. scan_items num (Suc n) depth xs s = Some (xs', r)" if run: "json_items (Suc n) s = Some r" for s r depth xs
  proof -
    obtain r3 where r3: "json_value n s = Some r3" using run by (auto simp: bind_eq_Some_conv)
    obtain e r4 where r4: "skip_space r3 = e # r4" "e = 44 \<and> json_items n r4 = Some r \<or> e = 93 \<and> r4 = r"
      using run r3 by (auto split: list.splits if_splits)
    have "json_value n (skip_space s) = Some r3" using r3 by (cases n) (simp_all add: skip_space_def)
    then obtain v where "scan_value num n (Suc depth) (skip_space s) = Some (v, r3)"
      using value_scan [of "skip_space s" r3 "Suc depth"] skipped_ends [of r3] r4 by auto
    then show ?thesis using r4 items_scan [of r4 r depth] by (auto simp: opens_def)
  qed
  show ?case using v m i by blast
qed simp

text \<open>On text that \<open>JSON.parse\<close> accepts the scanner returns a value: it neither throws nor runs past the end.\<close>

lemma readFields_returns:
  assumes "json_accepts t"
  shows "\<exists>v. readFields num t = Some v"
proof -
  obtain r where r: "json_value (json_fuel t) t = Some r" "skip_space r = []" using assms by (auto simp: json_accepts_def split: option.splits)
  then show ?thesis using scans [of "json_fuel t" num] skipped_ends [of r] by (fastforce simp: readFields_def)
qed

section \<open>Written text is accepted and read back\<close>

text \<open>What a value is read as: its fields in the order of their first use, each with every value it has.\<close>

fun json_fields :: "json \<Rightarrow> field_value" where
  "json_fields (JStr s) = FText s"
| "json_fields (JNum n) = FNum n"
| "json_fields (JArr xs) = FItems (map json_fields xs)"
| "json_fields (JObj fs) = FFields (fold (\<lambda>(k, v). add_field k v) (map (\<lambda>(k, v). (k, json_fields v)) fs) [])"
| "json_fields _ = FOther"

text \<open>A value whose containers are no deeper than the scanner looks, of strings and of whole numbers that \<open>num\<close> reads.\<close>

fun shallow :: "(js_string \<Rightarrow> int option) \<Rightarrow> nat \<Rightarrow> json \<Rightarrow> bool" where
  "shallow num depth (JStr s) \<longleftrightarrow> True"
| "shallow num depth (JNum n) \<longleftrightarrow> 0 \<le> n \<and> num (decimal_int n) = Some n"
| "shallow num depth (JArr xs) \<longleftrightarrow> depth \<le> 2 \<and> list_all (shallow num (Suc depth)) xs"
| "shallow num depth (JObj fs) \<longleftrightarrow> depth \<le> 2 \<and> list_all (\<lambda>(k, v). shallow num (Suc depth) v) fs"
| "shallow num depth _ \<longleftrightarrow> False"

lemma hex_digit_unit: "n < 16 \<Longrightarrow> hex_digit (hex_unit n)"
  using unat_js_char [of "48 + n"] unat_js_char [of "87 + n"]
  by (auto simp: hex_unit_def hex_digit_def digit_def simp del: of_nat_add)

lemma string_rest_escape: "string_rest (unicode_escape c @ s) = string_rest s"
proof -
  have "unat c < 65536" using unsigned_less [of c] by simp
  then have "unat c div 4096 < 16" by (simp add: less_mult_imp_div_less)
  then show ?thesis by (simp add: unicode_escape_def hex_digit_unit Let_def)
qed

lemma string_rest_unit: "string_rest (json_unit c @ s) = string_rest s"
  by (simp add: json_unit_def string_rest_escape)

lemma surrogate_visible: "high_surrogate c \<or> low_surrogate c \<Longrightarrow> \<not> unat c < 32"
  by (auto simp: high_surrogate_def low_surrogate_def)

lemma string_rest_units: "string_rest (json_units s @ 34 # x) = Some x"
proof (induction s rule: json_units.induct)
  case (2 c)
  then show ?case using string_rest_unit [of c "34 # x"] by simp
next
  case (3 c d s)
  show ?case
  proof (cases "high_surrogate c \<and> low_surrogate d")
    case True
    then have "c \<noteq> 34" "c \<noteq> 92" "d \<noteq> 34" "d \<noteq> 92" using surrogate_units by blast+
    then show ?thesis using 3 True surrogate_visible [of c] surrogate_visible [of d] by simp
  next
    case False
    then have "json_units (c # d # s) = json_unit c @ json_units (d # s)" by auto
    then show ?thesis using 3(2) [OF False] string_rest_unit [of c "json_units (d # s) @ 34 # x"]
      by (simp del: json_units.simps)
  qed
qed simp

lemma string_read: "string_rest (tl (json_string s) @ x) = Some x" "stringEnd (json_string s @ x) = Some (json_string s, x)"
  "parse_scalar num (json_string s) = Some (FText s)"
proof -
  let ?w = "json_units s @ [34]"
  show r: "string_rest (tl (json_string s) @ x) = Some x" for x using string_rest_units by (simp add: json_string_def)
  obtain w where w: "tl (json_string s) @ x = w @ x" "string_end (tl (json_string s) @ x) = Some (w, x)" using string_slice [OF r] by blast
  then show "stringEnd (json_string s @ x) = Some (json_string s, x)" by (simp add: json_string_def stringEnd_def)
  have "json_accepts (34 # ?w)" using accepted_string r [of "[]"] by (simp add: json_string_def)
  then show "parse_scalar num (json_string s) = Some (FText s)"
    using read_json_units [of s "[]"] by (simp add: parse_scalar_def json_string_def skip_space_def json_space_def)
qed

lemma decimal_first: "\<exists>d ds. decimal_nat n = d # ds \<and> digit d \<and> list_all digit ds \<and> (d = 48 \<longrightarrow> ds = [])"
proof (induction n rule: decimal_nat.induct)
  case (1 n)
  show ?case
  proof (cases "n < 10")
    case True
    then have "decimal_nat n = [word_of_nat (48 + n)]" by (subst decimal_nat.simps) simp
    then show ?thesis using unat_digit [OF True] True by (simp add: digit_def del: of_nat_add)
  next
    case False
    obtain d ds where d: "decimal_nat (n div 10) = d # ds" "digit d" "list_all digit ds" "d = 48 \<longrightarrow> ds = []" using 1 [OF False] by blast
    have "d \<noteq> 48"
    proof
      assume "d = 48"
      then have "digits_value (decimal_nat (n div 10)) = 0" using d by (simp add: digits_value_def)
      then show False using decimal_digits [of "n div 10"] False by simp
    qed
    moreover have "digit (word_of_nat (48 + n mod 10))" using unat_digit [of "n mod 10"] by (simp add: digit_def del: of_nat_add)
    moreover have "decimal_nat n = decimal_nat (n div 10) @ [word_of_nat (48 + n mod 10)]"
      using False by (subst decimal_nat.simps) simp
    ultimately show ?thesis using d by simp
  qed
qed

lemma number_read: "0 \<le> n \<Longrightarrow> delimited x \<Longrightarrow> primitive_rest (decimal_int n @ x) = Some x"
proof -
  assume n: "0 \<le> n" and x: "delimited x"
  obtain d ds where d: "decimal_nat (nat n) = d # ds" "digit d" "list_all digit ds" "d = 48 \<longrightarrow> ds = []" using decimal_first by blast
  have nd: "x = [] \<or> \<not> digit (hd x)" using x by (auto simp: delimited_def digit_def)
  have dn: "d \<notin> {45, 116, 102, 110}" using d(2) by (auto simp: digit_def)
  have "integer_rest (d # ds @ x) = Some x"
    using d dropWhile_stop [OF nd d(3)] by (auto simp: integer_rest_def digits_rest_def)
  moreover have "fraction_rest x = Some x" "exponent_rest x = Some x"
    using x by (auto simp: fraction_rest_def exponent_rest_def delimited_def split: list.split)
  moreover have "sign_rest {45} (d # ds @ x) = Some (d # ds @ x)" using dn by (simp add: sign_rest_def)
  ultimately have "number_rest (d # ds @ x) = Some x" by (simp add: number_rest_def)
  then show ?thesis using dn d(1) n by (simp add: primitive_rest_def decimal_int_def)
qed

lemma number_scan: "0 \<le> n \<Longrightarrow> delimited x \<Longrightarrow> num (decimal_int n) = Some n \<Longrightarrow> scan_scalar num (decimal_int n @ x) = Some (FNum n, x)"
proof -
  assume n: "0 \<le> n" and x: "delimited x" and num: "num (decimal_int n) = Some n"
  obtain d ds where d: "decimal_int n = d # ds" "digit d" "list_all digit ds" using decimal_first [of "nat n"] n by (auto simp: decimal_int_def)
  have tight: "list_all tight (decimal_int n)" using d by (auto simp: list_all_iff digit_tight)
  then have units: "list_all primitive_unit (decimal_int n)" by (auto simp: list_all_iff tight_def)
  have stop: "x = [] \<or> \<not> primitive_unit (hd x)" using x by (auto simp: delimited_def primitive_unit_def)
  have drop: "dropWhile primitive_unit (decimal_int n @ x) = x" by (rule dropWhile_stop [OF stop units])
  have take: "takeWhile primitive_unit (decimal_int n @ x) = decimal_int n"
    using drop takeWhile_dropWhile_id [of primitive_unit "decimal_int n @ x"] by simp
  have "json_accepts (decimal_int n)"
    using accepted_primitive [of "decimal_int n"] number_read [OF n, of "[]"] d(1) tight by simp
  moreover have "\<not> json_space d" "d \<noteq> 34" using d(2) by (auto simp: digit_def json_space_def)
  ultimately have "parse_scalar num (decimal_int n) = Some (FNum n)"
    using d num by (simp add: parse_scalar_def skip_space_def)
  moreover have "\<not> opens 34 (decimal_int n @ x)" using d(1) \<open>d \<noteq> 34\<close> by (simp add: opens_def)
  ultimately show ?thesis using take drop by (simp add: scan_scalar_def)
qed

lemma stringify_first: "\<exists>c t. json_stringify v = c # t \<and> \<not> json_space c \<and> c \<notin> {93, 125}"
proof -
  obtain c t where c: "json_stringify v = c # t" "kind_unit v c" using stringify_head by blast
  then have "\<not> json_space c \<and> c \<notin> {93, 125}" by (cases v) (auto simp: kind_unit_def digit_def json_space_def split: if_splits)
  then show ?thesis using c(1) by blast
qed

lemma skip_none [simp]: "\<not> json_space c \<Longrightarrow> skip_space (c # s) = c # s"
  by (simp add: skip_space_def)

lemma no_space [simp]: "\<not> json_space 44" "\<not> json_space 93" "\<not> json_space 125" "\<not> json_space 58" "\<not> json_space 34" "\<not> json_space 123" "\<not> json_space 91"
  by (simp_all add: json_space_def)

lemma skip_stringify: "skip_space (json_stringify v @ x) = json_stringify v @ x"
  using stringify_first [of v] by auto

text \<open>The reading of one value's text, with enough fuel.\<close>

definition reads_value :: "(js_string \<Rightarrow> int option) \<Rightarrow> nat \<Rightarrow> json \<Rightarrow> bool" where
  "reads_value num depth v \<longleftrightarrow> (\<forall>n x. delimited x \<longrightarrow> 2 * length (json_stringify v) \<le> n \<longrightarrow>
     json_value n (json_stringify v @ x) = Some x \<and> scan_value num n depth (json_stringify v @ x) = Some (json_fields v, x))"

lemma reads_valueD:
  "reads_value num depth v \<Longrightarrow> delimited x \<Longrightarrow> 2 * length (json_stringify v) \<le> n \<Longrightarrow>
     json_value n (json_stringify v @ x) = Some x \<and> scan_value num n depth (json_stringify v @ x) = Some (json_fields v, x)"
  by (simp add: reads_value_def)

lemma items_read:
  "list_all (reads_value num (Suc depth)) xs \<Longrightarrow> xs \<noteq> [] \<Longrightarrow> 2 * length (join_comma (map json_stringify xs)) < n \<Longrightarrow>
   json_items n (join_comma (map json_stringify xs) @ 93 # x) = Some x
   \<and> scan_items num n depth ys (join_comma (map json_stringify xs) @ 93 # x) = Some (ys @ map json_fields xs, x)"
proof (induction xs arbitrary: n ys)
  case (Cons v vs)
  obtain m where n: "n = Suc m" using Cons.prems(3) by (cases n) simp_all
  let ?tail = "if vs = [] then 93 # x else 44 # join_comma (map json_stringify vs) @ 93 # x"
  have whole: "join_comma (json_stringify v # map json_stringify vs) @ 93 # x = json_stringify v @ ?tail" by (simp add: join_comma_Cons)
  have len: "2 * length (json_stringify v) \<le> m" using Cons.prems(3) n by (simp add: join_comma_Cons split: if_splits)
  have v: "json_value m (json_stringify v @ ?tail) = Some ?tail" "scan_value num m (Suc depth) (json_stringify v @ ?tail) = Some (json_fields v, ?tail)"
    using reads_valueD [OF _ _ len, of num "Suc depth" ?tail] Cons.prems(1) by simp_all
  show ?case
  proof (cases "vs = []")
    case True
    then show ?thesis using v skip_stringify [of v "93 # x"] by (simp add: whole n opens_def)
  next
    case False
    then have "2 * length (join_comma (map json_stringify vs)) < m" using Cons.prems(3) n by (simp add: join_comma_Cons)
    from Cons.IH [OF _ False this, of "ys @ [json_fields v]"] show ?thesis
      using v False Cons.prems(1) skip_stringify [of v ?tail] by (simp add: whole n opens_def)
  qed
qed simp

definition field_text :: "js_string \<times> json \<Rightarrow> js_string" where
  "field_text p = json_string (fst p) @ 58 # json_stringify (snd p)"

lemma key_read: "scan_key num (json_string k @ 58 # s) = Some (k, s)"
  using string_read(2) [of k "58 # s"] string_read(3) [of num k] skip_none [of 34]
  by (simp add: scan_key_def json_string_def)

lemma members_read:
  "list_all (\<lambda>p. reads_value num (Suc depth) (snd p)) fs \<Longrightarrow> fs \<noteq> [] \<Longrightarrow> 2 * length (join_comma (map field_text fs)) < n \<Longrightarrow>
   json_members n (join_comma (map field_text fs) @ 125 # x) = Some x
   \<and> scan_members num n depth ys (join_comma (map field_text fs) @ 125 # x)
       = Some (fold (\<lambda>(k, v). add_field k v) (map (\<lambda>(k, v). (k, json_fields v)) fs) ys, x)"
proof (induction fs arbitrary: n ys)
  case (Cons p fs)
  obtain k v where p: "p = (k, v)" by fastforce
  obtain m where n: "n = Suc m" using Cons.prems(3) by (cases n) simp_all
  let ?tail = "if fs = [] then 125 # x else 44 # join_comma (map field_text fs) @ 125 # x"
  have whole: "join_comma (field_text (k, v) # map field_text fs) @ 125 # x = json_string k @ 58 # json_stringify v @ ?tail"
    by (simp add: join_comma_Cons field_text_def p)
  have one: "field_text (k, v) @ y = json_string k @ 58 # json_stringify v @ y" for y by (simp add: field_text_def)
  have len: "2 * length (json_stringify v) \<le> m" using Cons.prems(3) n by (simp add: join_comma_Cons field_text_def p split: if_splits)
  have v: "json_value m (json_stringify v @ ?tail) = Some ?tail" "scan_value num m (Suc depth) (json_stringify v @ ?tail) = Some (json_fields v, ?tail)"
    using reads_valueD [OF _ _ len, of num "Suc depth" ?tail] Cons.prems(1) p by simp_all
  have key: "json_string k = 34 # tl (json_string k)" by (simp add: json_string_def)
  have member: "json_members (Suc m) (json_string k @ 58 # json_stringify v @ ?tail) = (case skip_space ?tail of [] \<Rightarrow> None
      | e # r3 \<Rightarrow> if e = 44 then json_members m r3 else if e = 125 then Some r3 else None)"
    using string_read(1) [of k "58 # json_stringify v @ ?tail"] v(1) by (subst key) simp
  show ?case
  proof (cases "fs = []")
    case True
    then show ?thesis using v member by (simp add: one n opens_def key_read p)
  next
    case False
    then have "2 * length (join_comma (map field_text fs)) < m" using Cons.prems(3) n by (simp add: join_comma_Cons)
    from Cons.IH [OF _ False this, of "add_field k (json_fields v) ys"] show ?thesis
      using v member False Cons.prems(1) by (simp add: whole n opens_def key_read p)
  qed
qed simp

lemma object_text: "json_stringify (JObj fs) = 123 # join_comma (map field_text fs) @ [125]"
proof -
  have "(case map_prod id json_stringify p of (k, v) \<Rightarrow> json_string k @ 58 # v) = field_text p" for p by (cases p) (simp add: field_text_def)
  then show ?thesis by (simp add: comp_def)
qed

lemma written_reads: "shallow num depth v \<Longrightarrow> reads_value num depth v"
proof (induction v arbitrary: depth)
  case (JNum n)
  obtain d ds where d: "decimal_int n = d # ds" "digit d" using decimal_first [of "nat n"] JNum by (auto simp: decimal_int_def)
  then have "\<not> json_space d" "d \<notin> {123, 91, 34}" by (auto simp: digit_def json_space_def)
  then show ?case
    unfolding reads_value_def
  proof (intro allI impI)
    fix k x
    assume x: "delimited x" and "2 * length (json_stringify (JNum n)) \<le> k"
    then obtain m where k: "k = Suc m" using d(1) by (cases k) simp_all
    show "json_value k (json_stringify (JNum n) @ x) = Some x
        \<and> scan_value num k depth (json_stringify (JNum n) @ x) = Some (json_fields (JNum n), x)"
      using number_read [of n x] number_scan [of n x num] JNum x d \<open>\<not> json_space d\<close> \<open>d \<notin> {123, 91, 34}\<close>
      by (simp add: k opens_def)
  qed
next
  case (JStr s)
  show ?case
    unfolding reads_value_def
  proof (intro allI impI)
    fix k x
    assume "2 * length (json_stringify (JStr s)) \<le> k"
    then obtain m where k: "k = Suc m" by (cases k) (simp_all add: json_string_def)
    have "json_value k (json_string s @ x) = Some x"
      using string_read(1) [of s x] by (simp add: k json_string_def)
    moreover have "scan_value num k depth (json_string s @ x) = Some (FText s, x)"
      using string_read(2) [of s x] string_read(3) [of num s]
      by (simp add: k scan_scalar_def) (simp add: json_string_def opens_def)
    ultimately show "json_value k (json_stringify (JStr s) @ x) = Some x
        \<and> scan_value num k depth (json_stringify (JStr s) @ x) = Some (json_fields (JStr s), x)"
      by simp
  qed
next
  case (JArr vs)
  have all: "list_all (reads_value num (Suc depth)) vs" and depth: "depth \<le> 2"
    using JArr by (auto simp: list_all_iff)
  show ?case
    unfolding reads_value_def
  proof (intro allI impI)
    fix k x
    assume k: "2 * length (json_stringify (JArr vs)) \<le> k"
    then obtain m where m: "k = Suc m" by (cases k) simp_all
    show "json_value k (json_stringify (JArr vs) @ x) = Some x
        \<and> scan_value num k depth (json_stringify (JArr vs) @ x) = Some (json_fields (JArr vs), x)"
    proof (cases "vs = []")
      case True
      then show ?thesis using depth by (simp add: m opens_def)
    next
      case False
      then obtain v ws where "vs = v # ws" by (cases vs) simp_all
      then obtain c s where c: "join_comma (map json_stringify vs) @ 93 # x = c # s" "\<not> json_space c" "c \<noteq> 93"
        using stringify_first [of v] by (auto simp: join_comma_Cons)
      have "2 * length (join_comma (map json_stringify vs)) < m" using k m by simp
      note items = items_read [OF all False this, of x "[]"]
      show ?thesis using items depth c by (simp add: m opens_def)
    qed
  qed
next
  case (JObj fs)
  have all: "list_all (\<lambda>p. reads_value num (Suc depth) (snd p)) fs" and depth: "depth \<le> 2"
    using JObj by (auto simp: list_all_iff)
  show ?case
    unfolding reads_value_def
  proof (intro allI impI)
    fix k x
    assume k: "2 * length (json_stringify (JObj fs)) \<le> k"
    then obtain m where m: "k = Suc m" by (cases k) simp_all
    show "json_value k (json_stringify (JObj fs) @ x) = Some x
        \<and> scan_value num k depth (json_stringify (JObj fs) @ x) = Some (json_fields (JObj fs), x)"
    proof (cases "fs = []")
      case True
      then show ?thesis using depth by (simp add: m opens_def)
    next
      case False
      then obtain p qs where "fs = p # qs" by (cases fs) simp_all
      then obtain s where s: "join_comma (map field_text fs) @ 125 # x = 34 # s"
        by (auto simp: join_comma_Cons field_text_def json_string_def)
      have "2 * length (join_comma (map field_text fs)) < m" using k m unfolding object_text by simp
      note members = members_read [OF all False this, of x "[]"]
      show ?thesis unfolding object_text using members depth s by (simp add: m opens_def)
    qed
  qed
qed simp_all

text \<open>What \<open>JSON.stringify\<close> wrote is accepted, and its fields are read back.\<close>

lemma written_accepted: "shallow num 0 v \<Longrightarrow> json_accepts (json_stringify v)"
  and readFields_written: "shallow num 0 v \<Longrightarrow> readFields num (json_stringify v) = Some (json_fields v)"
proof -
  assume "shallow num 0 v"
  from reads_valueD [OF written_reads [OF this], of "[]" "json_fuel (json_stringify v)"]
  have r: "json_value (json_fuel (json_stringify v)) (json_stringify v) = Some []"
    "scan_value num (json_fuel (json_stringify v)) 0 (json_stringify v) = Some (json_fields v, [])"
    by (simp_all add: json_fuel_def)
  then show "json_accepts (json_stringify v)" by (simp add: json_accepts_def skip_space_def)
  show "readFields num (json_stringify v) = Some (json_fields v)" using r by (simp add: readFields_def)
qed

end
