(* ===== verification/Emergency_Stop.thy ===== *)
theory Emergency_Stop
  imports Json_Fields
begin

text \<open>
  The journal of emergency stops (apps/daemon/src/emergency-stop-intents.ts). A stop writes its
  intent before its first effect and clears it after its save, so a restart finds the stops that
  were cut off and finishes them: it reads the journal in passes of bounded size, sets aside rows
  no stop can be read from, stages what each round did, and clears exactly the rows a saved round
  finished.

  The SQLite tables are lists of rows, the journal in rowid order. A trigger in the store may
  refuse to delete a row; the rowids it protects are a field of the store. SHA-256, Zod's date
  check and string length, the message of a JSON syntax error and the number a JSON numeral
  stands for are fields of \<open>stop_env\<close>; which texts are JSON and what \<open>readFields\<close> reads from one is
  defined in Json_Fields.
\<close>

section \<open>Values\<close>

datatype sql_value = SqlNull | SqlInt int | SqlReal js_string | SqlText js_string | SqlBlob "8 word list"

definition sql_kind :: "sql_value \<Rightarrow> string" where
  "sql_kind v = (case v of SqlNull \<Rightarrow> ''null'' | SqlInt _ \<Rightarrow> ''bigint'' | SqlReal _ \<Rightarrow> ''number''
     | SqlText _ \<Rightarrow> ''string'' | SqlBlob _ \<Rightarrow> ''blob'')"

definition sql_bytes :: "sql_value \<Rightarrow> 8 word list" where
  "sql_bytes v = (case v of SqlNull \<Rightarrow> [] | SqlInt n \<Rightarrow> utf8 (decimal_int n) | SqlReal s \<Rightarrow> utf8 s
     | SqlText s \<Rightarrow> utf8 s | SqlBlob b \<Rightarrow> b)"

record stop_env =
  sha256_bytes :: "8 word list \<Rightarrow> string"
  isoDateTime :: "js_string \<Rightarrow> bool"
  zodLength :: "js_string \<Rightarrow> nat"
  jsonError :: "js_string \<Rightarrow> js_string"
  numberValue :: "js_string \<Rightarrow> int option"

definition rowIdentity :: "stop_env \<Rightarrow> sql_value \<Rightarrow> sql_value \<Rightarrow> string" where
  "rowIdentity env key record = sha256_bytes env (concat (map (\<lambda>v.
     utf8 (js (sql_kind v) @ [58] @ decimal_nat (length (sql_bytes v)) @ [58]) @ sql_bytes v) [key, record]))"

section \<open>Reading a row\<close>

definition maximumEmergencyStopIntentBytes :: nat where
  "maximumEmergencyStopIntentBytes = 1048576"

definition maximumEntries :: nat where
  "maximumEntries = 10000"

definition maximumWork :: nat where
  "maximumWork = 2 * maximumEntries"

definition stopIdSchema :: "js_string \<Rightarrow> bool" where
  "stopIdSchema s \<longleftrightarrow> take 5 s = js ''stop-'' \<and> length s = 41
     \<and> list_all (\<lambda>c. c \<in> set (js ''0123456789abcdef-'')) (drop 5 s)"

definition zod_text :: "stop_env \<Rightarrow> nat \<Rightarrow> js_string \<Rightarrow> bool" where
  "zod_text env maximum s \<longleftrightarrow> s \<noteq> [] \<and> zodLength env s \<le> maximum"

definition sessionIdSchema :: "stop_env \<Rightarrow> js_string \<Rightarrow> bool" where
  "sessionIdSchema env = zod_text env 1024"

definition providerSchema :: "stop_env \<Rightarrow> js_string \<Rightarrow> bool" where
  "providerSchema env = zod_text env 1024"

definition providerThreadIdSchema :: "stop_env \<Rightarrow> js_string \<Rightarrow> bool" where
  "providerThreadIdSchema env = zod_text env 4096"

definition client_names :: "(js_string \<times> client_kind) list" where
  "client_names = [(js ''desktop'', Desktop), (js ''web'', Web), (js ''tablet'', Tablet), (js ''phone'', Phone), (js ''cli'', Cli)]"

record in_flight =
  if_sessionId :: js_string
  if_thread :: "(js_string \<times> js_string) option"

record stop_intent =
  si_stopId :: js_string
  si_clients :: "client_kind list"
  si_requestedAt :: js_string
  si_sessionIds :: "js_string list"
  si_inFlight :: "in_flight list"

text \<open>\<open>[...new Set(values)]\<close>\<close>

definition uniq :: "'a list \<Rightarrow> 'a list" where
  "uniq xs = rev (remdups (rev xs))"

fun text_value :: "field_value \<Rightarrow> js_string option" where
  "text_value (FText s) = Some s"
| "text_value _ = None"

fun items_of :: "field_value \<Rightarrow> field_value list" where
  "items_of (FItems xs) = xs"
| "items_of _ = []"

fun fields_of :: "field_value \<Rightarrow> (js_string \<times> field_value list) list option" where
  "fields_of (FFields fs) = Some fs"
| "fields_of _ = None"

text \<open>\<open>all(fields, name)\<close> and \<open>valid(schema, values)\<close> of string schemas.\<close>

definition all_values :: "(js_string \<times> field_value list) list \<Rightarrow> string \<Rightarrow> field_value list" where
  "all_values fs name = (case map_of fs (js name) of None \<Rightarrow> [] | Some vs \<Rightarrow> vs)"

definition valid_texts :: "(js_string \<Rightarrow> bool) \<Rightarrow> field_value list \<Rightarrow> js_string list" where
  "valid_texts schema vs = uniq (filter schema (List.map_filter text_value vs))"

definition valid_clients :: "field_value list \<Rightarrow> client_kind list" where
  "valid_clients vs = uniq (List.map_filter (map_of client_names) (List.map_filter text_value vs))"

definition repeated :: "(js_string \<times> field_value list) list \<Rightarrow> bool" where
  "repeated fs = list_ex (\<lambda>(k, vs). length vs > 1) fs"

text \<open>The strict schema of what a stop writes, on a record with no repeated key.\<close>

definition one_value :: "'a list \<Rightarrow> 'a option" where
  "one_value vs = (if length vs = 1 then Some (hd vs) else None)"

definition one_text :: "field_value list \<Rightarrow> js_string option" where
  "one_text vs = Option.bind (one_value vs) text_value"

definition strict_in_flight :: "stop_env \<Rightarrow> field_value \<Rightarrow> in_flight option" where
  "strict_in_flight env v =
     Option.bind (fields_of v) (\<lambda>fs.
     Option.bind (one_text (all_values fs ''sessionId'')) (\<lambda>s.
     if set (map fst fs) \<subseteq> {js ''sessionId'', js ''provider'', js ''providerThreadId''} \<and> sessionIdSchema env s
     then if all_values fs ''provider'' = [] \<and> all_values fs ''providerThreadId'' = []
       then Some \<lparr>if_sessionId = s, if_thread = None\<rparr>
       else Option.bind (one_text (all_values fs ''provider'')) (\<lambda>p.
            Option.bind (one_text (all_values fs ''providerThreadId'')) (\<lambda>t.
            if providerSchema env p \<and> providerThreadIdSchema env t
            then Some \<lparr>if_sessionId = s, if_thread = Some (p, t)\<rparr> else None))
     else None))"

definition strict_list :: "(field_value \<Rightarrow> 'a option) \<Rightarrow> field_value \<Rightarrow> 'a list option" where
  "strict_list item v = (case v of
     FItems xs \<Rightarrow> if length xs \<le> maximumEntries then those (map item xs) else None
   | _ \<Rightarrow> None)"

definition strict_session :: "stop_env \<Rightarrow> field_value \<Rightarrow> js_string option" where
  "strict_session env v = (case text_value v of Some s \<Rightarrow> if sessionIdSchema env s then Some s else None | None \<Rightarrow> None)"

definition intentSchema :: "stop_env \<Rightarrow> (js_string \<times> field_value list) list \<Rightarrow> stop_intent option" where
  "intentSchema env fs =
     (if set (map fst fs) \<subseteq> set (map js [''version'', ''stopId'', ''client'', ''requestedAt'', ''sessionIds'', ''inFlight''])
        \<and> all_values fs ''version'' = [FNum 1]
      then Option.bind (one_text (all_values fs ''stopId'')) (\<lambda>i.
           Option.bind (Option.bind (one_text (all_values fs ''client'')) (map_of client_names)) (\<lambda>client.
           Option.bind (one_text (all_values fs ''requestedAt'')) (\<lambda>t.
           Option.bind (Option.bind (one_value (all_values fs ''sessionIds'')) (strict_list (strict_session env))) (\<lambda>sessions.
           Option.bind (if all_values fs ''inFlight'' = [] then Some []
             else Option.bind (one_value (all_values fs ''inFlight'')) (strict_list (strict_in_flight env))) (\<lambda>flights.
           if stopIdSchema i \<and> isoDateTime env t
           then Some \<lparr>si_stopId = i, si_clients = [client], si_requestedAt = t, si_sessionIds = uniq sessions, si_inFlight = flights\<rparr>
           else None)))))
      else None)"

datatype read_reason = NotText | ParseError js_string | NotObject | NoStopId | RepeatsField | NotStrict

record read_stops =
  rd_intents :: "stop_intent list"
  rd_partial :: "read_reason option"
  rd_overflow :: bool

text \<open>The dispatches one in-flight entry names: each session with each whole pair of provider and thread.\<close>

definition entry_dispatches :: "stop_env \<Rightarrow> (js_string \<times> field_value list) list \<Rightarrow> in_flight list" where
  "entry_dispatches env entry =
     (let providers = valid_texts (providerSchema env) (all_values entry ''provider'');
          threads = valid_texts (providerThreadIdSchema env) (all_values entry ''providerThreadId'')
      in concat (map (\<lambda>s.
           if providers = [] \<or> threads = [] then [\<lparr>if_sessionId = s, if_thread = None\<rparr>]
           else concat (map (\<lambda>p. map (\<lambda>t. \<lparr>if_sessionId = s, if_thread = Some (p, t)\<rparr>) threads) providers))
         (valid_texts (sessionIdSchema env) (all_values entry ''sessionId''))))"

text \<open>The \<open>fill\<close> loop adds one dispatch at a time and stops one past the kept number.\<close>

fun fill :: "in_flight list \<Rightarrow> in_flight list \<Rightarrow> in_flight list" where
  "fill built [] = built"
| "fill built (d # ds) = (if maximumEntries < length built + 1 then built @ [d] else fill (built @ [d]) ds)"

type_synonym record_fields = "(js_string \<times> field_value list) list"

definition flight_entries :: "record_fields \<Rightarrow> record_fields list" where
  "flight_entries read = List.map_filter fields_of (concat (map items_of (all_values read ''inFlight'')))"

definition any_repeated :: "record_fields \<Rightarrow> bool" where
  "any_repeated read \<longleftrightarrow> repeated read \<or> list_ex repeated (flight_entries read)"

definition named_stops :: "sql_value \<Rightarrow> record_fields \<Rightarrow> js_string list" where
  "named_stops key read =
     (let named = valid_texts stopIdSchema (all_values read ''stopId'') in
      if named \<noteq> [] then named
      else (case key of SqlText k \<Rightarrow> if stopIdSchema k then [k] else [] | _ \<Rightarrow> []))"

text \<open>The stops of a row that is not exactly what a stop writes, from the fields that can be read.\<close>

definition partial_stops :: "stop_env \<Rightarrow> js_string \<Rightarrow> js_string list \<Rightarrow> record_fields \<Rightarrow> read_stops" where
  "partial_stops env now stopIds read =
     (let sessionIds = valid_texts (sessionIdSchema env) (concat (map items_of (all_values read ''sessionIds'')));
          inFlight = fill [] (concat (map (entry_dispatches env) (flight_entries read)));
          clients = valid_clients (all_values read ''client'');
          requestedAt = (case valid_texts (isoDateTime env) (all_values read ''requestedAt'') of t # _ \<Rightarrow> t | [] \<Rightarrow> now);
          keptSessions = take maximumEntries sessionIds;
          keptFlights = take maximumEntries inFlight;
          work = max 1 (length clients * length keptSessions + length keptFlights);
          finished = take (max 1 (maximumWork div work)) stopIds
      in \<lparr>rd_intents = map (\<lambda>i. \<lparr>si_stopId = i, si_clients = clients, si_requestedAt = requestedAt,
             si_sessionIds = keptSessions, si_inFlight = keptFlights\<rparr>) finished,
          rd_partial = Some (if any_repeated read then RepeatsField else NotStrict),
          rd_overflow = (length sessionIds > maximumEntries \<or> length inFlight > maximumEntries
            \<or> length finished < length stopIds)\<rparr>)"

definition read_fields_stops :: "stop_env \<Rightarrow> js_string \<Rightarrow> sql_value \<Rightarrow> record_fields \<Rightarrow> read_reason + read_stops" where
  "read_fields_stops env now key read =
     (case (if any_repeated read then None else intentSchema env read) of
        Some intent \<Rightarrow> Inr \<lparr>rd_intents = [intent], rd_partial = None, rd_overflow = False\<rparr>
      | None \<Rightarrow> if named_stops key read = [] then Inl NoStopId
                else Inr (partial_stops env now (named_stops key read) read))"

text \<open>On text \<open>JSON.parse\<close> accepts \<open>readFields\<close> returns (\<open>readFields_returns\<close>), so \<open>NotObject\<close> is a value with no fields.\<close>

definition readIntent :: "stop_env \<Rightarrow> js_string \<Rightarrow> sql_value \<Rightarrow> sql_value \<Rightarrow> read_reason + read_stops" where
  "readIntent env now key record =
     (case record of
        SqlText text_record \<Rightarrow>
          if \<not> json_accepts text_record then Inl (ParseError (jsonError env text_record))
          else (case Option.bind (readFields (numberValue env) text_record) fields_of of
              None \<Rightarrow> Inl NotObject
            | Some read \<Rightarrow> read_fields_stops env now key read)
      | _ \<Rightarrow> Inl NotText)"

section \<open>The store\<close>

record journal_row =
  jr_row :: int
  jr_key :: sql_value
  jr_record :: sql_value

record listed_row =
  lr_row :: int
  lr_identity :: string
  lr_keep :: bool
  lr_cleared :: bool

record stop_line =
  ln_id :: js_string
  ln_sessionId :: js_string
  ln_client :: js_string
  ln_createdAt :: js_string

record stop_store =
  ss_intents :: "journal_row list"
  ss_rows :: "listed_row list"
  ss_lines :: "stop_line list"
  ss_recovery :: "js_string list"
  ss_quarantine :: "(sql_value \<times> sql_value \<times> read_reason) list"
  ss_protected :: "int list"

definition row_identity :: "stop_env \<Rightarrow> journal_row \<Rightarrow> string" where
  "row_identity env r = rowIdentity env (jr_key r) (jr_record r)"

definition listed :: "stop_store \<Rightarrow> int \<Rightarrow> string \<Rightarrow> bool" where
  "listed store row identity = list_ex (\<lambda>l. lr_row l = row \<and> lr_identity l = identity) (ss_rows store)"

text \<open>\<open>DELETE FROM emergency_stop_intents WHERE ...\<close>: the rows left, and how many went.\<close>

definition delete_rows :: "(journal_row \<Rightarrow> bool) \<Rightarrow> stop_store \<Rightarrow> stop_store \<times> nat" where
  "delete_rows which store =
     (let gone = (\<lambda>r. which r \<and> jr_row r \<notin> set (ss_protected store)) in
      (store\<lparr>ss_intents := filter (\<lambda>r. \<not> gone r) (ss_intents store)\<rparr>, length (filter gone (ss_intents store))))"

datatype stop_error = IntentInvalid | IntentTooLarge | KeyTaken | NoLastRow

text \<open>The JSON of what a stop writes, and its row: SQLite gives it the rowid after the largest.\<close>

definition client_text :: "client_kind \<Rightarrow> string" where
  "client_text k = (case k of Desktop \<Rightarrow> ''desktop'' | Web \<Rightarrow> ''web'' | Tablet \<Rightarrow> ''tablet'' | Phone \<Rightarrow> ''phone'' | Cli \<Rightarrow> ''cli'')"

record stop_request =
  rq_stopId :: js_string
  rq_client :: client_kind
  rq_requestedAt :: js_string
  rq_sessionIds :: "js_string list"
  rq_inFlight :: "in_flight list option"

definition in_flight_json :: "in_flight \<Rightarrow> json" where
  "in_flight_json f = JObj ((js ''sessionId'', JStr (if_sessionId f)) #
     (case if_thread f of None \<Rightarrow> []
      | Some (p, t) \<Rightarrow> [(js ''provider'', JStr p), (js ''providerThreadId'', JStr t)]))"

definition request_json :: "stop_request \<Rightarrow> json" where
  "request_json q = JObj ([(js ''version'', JNum 1), (js ''stopId'', JStr (rq_stopId q)),
     (js ''client'', JStr (js (client_text (rq_client q)))), (js ''requestedAt'', JStr (rq_requestedAt q)),
     (js ''sessionIds'', JArr (map JStr (rq_sessionIds q)))]
     @ (case rq_inFlight q of None \<Rightarrow> [] | Some fs \<Rightarrow> [(js ''inFlight'', JArr (map in_flight_json fs))]))"

definition in_flight_ok :: "stop_env \<Rightarrow> in_flight \<Rightarrow> bool" where
  "in_flight_ok env f \<longleftrightarrow> sessionIdSchema env (if_sessionId f)
     \<and> (case if_thread f of None \<Rightarrow> True | Some (p, t) \<Rightarrow> providerSchema env p \<and> providerThreadIdSchema env t)"

definition request_ok :: "stop_env \<Rightarrow> stop_request \<Rightarrow> bool" where
  "request_ok env q \<longleftrightarrow> stopIdSchema (rq_stopId q) \<and> isoDateTime env (rq_requestedAt q)
     \<and> length (rq_sessionIds q) \<le> maximumEntries \<and> list_all (sessionIdSchema env) (rq_sessionIds q)
     \<and> (case rq_inFlight q of None \<Rightarrow> True | Some fs \<Rightarrow> length fs \<le> maximumEntries \<and> list_all (in_flight_ok env) fs)"

definition next_rowid :: "stop_store \<Rightarrow> int" where
  "next_rowid store = (if ss_intents store = [] then 1 else Max (set (map jr_row (ss_intents store))) + 1)"

definition begin_stop :: "stop_env \<Rightarrow> stop_request \<Rightarrow> stop_store \<Rightarrow> stop_error + stop_store" where
  "begin_stop env q store =
     rbind (throw_if (\<not> request_ok env q) IntentInvalid) (\<lambda>_.
     let record = json_stringify (request_json q) in
     rbind (throw_if (length (utf8 record) > maximumEmergencyStopIntentBytes) IntentTooLarge) (\<lambda>_.
     rbind (throw_if (list_ex (\<lambda>r. jr_key r = SqlText (rq_stopId q)) (ss_intents store)) KeyTaken) (\<lambda>_.
     Inr (store\<lparr>ss_intents := ss_intents store
       @ [\<lparr>jr_row = next_rowid store, jr_key = SqlText (rq_stopId q), jr_record = SqlText record\<rparr>]\<rparr>))))"

definition quarantine :: "journal_row \<Rightarrow> read_reason \<Rightarrow> bool \<Rightarrow> stop_store \<Rightarrow> stop_store \<times> bool \<times> bool" where
  "quarantine r why move store =
     (let copied = list_ex (\<lambda>(k, c, _). k = jr_key r \<and> c = jr_record r) (ss_quarantine store);
          store1 = (if copied then store else store\<lparr>ss_quarantine := ss_quarantine store @ [(jr_key r, jr_record r, why)]\<rparr>)
      in if move
         then (case delete_rows (\<lambda>x. jr_row x = jr_row r \<and> jr_key x = jr_key r \<and> jr_record x = jr_record r) store1 of
                 (store2, n) \<Rightarrow> (store2, \<not> copied, n > 0))
         else (store1, \<not> copied, False))"

record read_row =
  rr_row :: int
  rr_identity :: string
  rr_keep :: bool

record pass_result =
  pr_intents :: "(sql_value \<times> int \<times> stop_intent \<times> bool) list"
  pr_partial :: "(sql_value \<times> read_reason) list"
  pr_overflow :: "sql_value list"
  pr_setAside :: "(sql_value \<times> read_reason) list"
  pr_read :: "read_row list"

definition pass_row :: "stop_env \<Rightarrow> js_string \<Rightarrow> journal_row \<Rightarrow> stop_store \<times> pass_result \<Rightarrow> stop_store \<times> pass_result" where
  "pass_row env now r = (\<lambda>(store, out).
     let identity = row_identity env r in
     if listed store (jr_row r) identity then (store, out)
     else case readIntent env now (jr_key r) (jr_record r) of
       Inl why \<Rightarrow>
         (case quarantine r why True store of (store', _, moved) \<Rightarrow>
           (store', out\<lparr>pr_read := pr_read out @ (if moved then [] else [\<lparr>rr_row = jr_row r, rr_identity = identity, rr_keep = True\<rparr>]),
              pr_setAside := pr_setAside out @ [(jr_key r, why)]\<rparr>))
     | Inr read \<Rightarrow>
         let (store', partial) = (case rd_partial read of
               None \<Rightarrow> (store, [])
             | Some why \<Rightarrow> (case quarantine r why False store of (s, copied, _) \<Rightarrow> (s, if copied then [(jr_key r, why)] else [])))
         in (store', out\<lparr>pr_partial := pr_partial out @ partial,
               pr_overflow := pr_overflow out @ (if rd_overflow read then [jr_key r] else []),
               pr_read := pr_read out @ [\<lparr>rr_row = jr_row r, rr_identity = identity, rr_keep = rd_overflow read\<rparr>],
               pr_intents := pr_intents out @ map (\<lambda>i. (jr_key r, jr_row r, i, rd_overflow read)) (rd_intents read)\<rparr>))"

definition rows_after :: "int option \<Rightarrow> stop_store \<Rightarrow> journal_row list" where
  "rows_after after store = (case after of None \<Rightarrow> ss_intents store
     | Some a \<Rightarrow> filter (\<lambda>r. jr_row r > a) (ss_intents store))"

definition empty_pass :: pass_result where
  "empty_pass = \<lparr>pr_intents = [], pr_partial = [], pr_overflow = [], pr_setAside = [], pr_read = []\<rparr>"

definition pending :: "stop_env \<Rightarrow> nat \<Rightarrow> js_string \<Rightarrow> int option \<Rightarrow> stop_store \<Rightarrow> stop_store \<times> pass_result \<times> int option" where
  "pending env rowsPerPass now after store =
     (let rows = take rowsPerPass (rows_after after store);
          (store', out) = fold (pass_row env now) rows (store, empty_pass)
      in (store', out,
          if rows \<noteq> [] \<and> length rows = rowsPerPass \<and> rows_after (Some (jr_row (last rows))) store' \<noteq> []
          then Some (jr_row (last rows)) else None))"

definition clear_stop :: "sql_value \<Rightarrow> stop_store \<Rightarrow> stop_store" where
  "clear_stop key store = fst (delete_rows (\<lambda>r. jr_key r = key) store)"

definition clearRow :: "int \<Rightarrow> stop_store \<Rightarrow> stop_store" where
  "clearRow row store = fst (delete_rows (\<lambda>r. jr_row r = row) store)"

definition beginRecovery :: "stop_store \<Rightarrow> stop_store" where
  "beginRecovery store = store\<lparr>ss_rows := [], ss_lines := []\<rparr>"

definition insert_listed :: "read_row \<Rightarrow> stop_store \<Rightarrow> stop_store" where
  "insert_listed r store = (if listed store (rr_row r) (rr_identity r) then store
     else store\<lparr>ss_rows := ss_rows store @ [\<lparr>lr_row = rr_row r, lr_identity = rr_identity r, lr_keep = rr_keep r, lr_cleared = False\<rparr>]\<rparr>)"

definition insert_stop :: "js_string \<Rightarrow> stop_store \<Rightarrow> stop_store" where
  "insert_stop i store = (if i \<in> set (ss_recovery store) then store else store\<lparr>ss_recovery := ss_recovery store @ [i]\<rparr>)"

definition insert_line :: "stop_line \<Rightarrow> stop_store \<Rightarrow> stop_store" where
  "insert_line l store = (if list_ex (\<lambda>x. ln_id x = ln_id l) (ss_lines store) then store
     else store\<lparr>ss_lines := ss_lines store @ [l]\<rparr>)"

definition stage :: "read_row list \<Rightarrow> js_string list \<Rightarrow> stop_line list \<Rightarrow> stop_store \<Rightarrow> stop_store" where
  "stage read acted lines store = fold insert_line lines (fold insert_stop acted (fold insert_listed read store))"

definition recovering :: "js_string list \<Rightarrow> stop_store \<Rightarrow> js_string set" where
  "recovering stopIds store = set (filter (\<lambda>i. i \<in> set (ss_recovery store)) stopIds)"

definition stagedLines :: "stop_store \<Rightarrow> stop_line list" where
  "stagedLines store = ss_lines store"

definition due :: "listed_row \<Rightarrow> bool" where
  "due l \<longleftrightarrow> \<not> lr_keep l \<and> \<not> lr_cleared l"

definition same_listed :: "listed_row \<Rightarrow> listed_row \<Rightarrow> bool" where
  "same_listed l x \<longleftrightarrow> lr_row x = lr_row l \<and> lr_identity x = lr_identity l"

definition clear_listed :: "stop_env \<Rightarrow> listed_row \<Rightarrow> stop_store \<Rightarrow> stop_store" where
  "clear_listed env l store =
     (let same = (case find (\<lambda>r. jr_row r = lr_row l) (ss_intents store) of
            None \<Rightarrow> False | Some r \<Rightarrow> row_identity env r = lr_identity l);
          forget = (\<lambda>s. s\<lparr>ss_rows := filter (\<lambda>x. \<not> same_listed l x) (ss_rows s)\<rparr>)
      in if same
         then (case delete_rows (\<lambda>r. jr_row r = lr_row l) store of (store', n) \<Rightarrow>
                 if n = 0 then store'\<lparr>ss_rows := map (\<lambda>x. if same_listed l x then x\<lparr>lr_cleared := True\<rparr> else x) (ss_rows store')\<rparr>
                 else forget store')
         else forget store)"

lemma clear_listed_rows:
  "ss_rows (clear_listed env l store) = filter (\<lambda>x. \<not> same_listed l x) (ss_rows store)
   \<or> ss_rows (clear_listed env l store) = map (\<lambda>x. if same_listed l x then x\<lparr>lr_cleared := True\<rparr> else x) (ss_rows store)"
  by (auto simp: clear_listed_def delete_rows_def Let_def)

lemma clear_listed_due: "length (filter due (ss_rows (clear_listed env l store))) \<le> length (filter (\<lambda>x. due x \<and> \<not> same_listed l x) (ss_rows store))"
proof -
  have a: "filter due (filter (\<lambda>x. \<not> same_listed l x) xs) = filter (\<lambda>x. due x \<and> \<not> same_listed l x) xs" for xs
    by (simp add: conj_commute)
  have "filter due (map (\<lambda>x. if same_listed l x then x\<lparr>lr_cleared := True\<rparr> else x) xs) = filter (\<lambda>x. due x \<and> \<not> same_listed l x) xs" for xs
    by (induction xs) (auto simp: due_def)
  then show ?thesis using clear_listed_rows [of env l store] a by auto
qed

lemma filter_conj_less: "x \<in> set xs \<Longrightarrow> P x \<Longrightarrow> \<not> Q x \<Longrightarrow> length (filter (\<lambda>y. P y \<and> Q y) xs) < length (filter P xs)"
proof (induction xs)
  case (Cons y ys)
  have "length (filter (\<lambda>y. P y \<and> Q y) ys) \<le> length (filter P ys)" by (induction ys) auto
  then show ?case using Cons by auto
qed simp

lemma clear_batch_due: "length (filter due (ss_rows (fold (clear_listed env) ls store))) \<le> length (filter due (ss_rows store))"
proof (induction ls arbitrary: store)
  case (Cons l ls)
  have "length (filter (\<lambda>x. due x \<and> \<not> same_listed l x) xs) \<le> length (filter due xs)" for xs by (induction xs) auto
  then have "length (filter due (ss_rows (clear_listed env l store))) \<le> length (filter due (ss_rows store))"
    by (rule order_trans [OF clear_listed_due])
  with Cons.IH [of "clear_listed env l store"] show ?case by simp
qed simp

function finish_batches :: "stop_env \<Rightarrow> nat \<Rightarrow> stop_store \<Rightarrow> stop_store" where
  "finish_batches env rowsPerPass store =
     (let batch = take rowsPerPass (filter due (ss_rows store)) in
      if batch = [] then store else finish_batches env rowsPerPass (fold (clear_listed env) batch store))"
  by auto
termination
proof (relation "measure (\<lambda>(env, n, store). length (filter due (ss_rows store)))")
  fix env :: stop_env and n :: nat and store :: stop_store and batch :: "listed_row list"
  assume b: "batch = take n (filter due (ss_rows store))" and ne: "batch \<noteq> []"
  obtain l ls where ls: "batch = l # ls" using ne by (cases batch) auto
  then have "l \<in> set (filter due (ss_rows store))" using b by (metis in_set_takeD list.set_intros(1))
  then have "length (filter (\<lambda>x. due x \<and> \<not> same_listed l x) (ss_rows store)) < length (filter due (ss_rows store))"
    by (intro filter_conj_less [of l]) (auto simp: same_listed_def)
  then show "((env, n, fold (clear_listed env) batch store), env, n, store) \<in> measure (\<lambda>(env, n, store). length (filter due (ss_rows store)))"
    using clear_batch_due [of env ls "clear_listed env l store"] clear_listed_due [of env l store] ls by simp
qed simp

declare finish_batches.simps [simp del]

definition finishRound :: "stop_env \<Rightarrow> nat \<Rightarrow> stop_store \<Rightarrow> stop_store" where
  "finishRound env rowsPerPass store = (finish_batches env rowsPerPass store)\<lparr>ss_lines := []\<rparr>"

text \<open>The paging loop of \<open>#unread\<close>; \<open>Inl NoLastRow\<close> is the type error of a pass of no rows.\<close>

function unread_from :: "stop_env \<Rightarrow> nat \<Rightarrow> int option \<Rightarrow> stop_store \<Rightarrow> stop_error + bool" where
  "unread_from env rowsPerPass after store =
     (let rows = take rowsPerPass (rows_after after store) in
      if list_ex (\<lambda>r. \<not> listed store (jr_row r) (row_identity env r)) rows then Inr True
      else if length rows < rowsPerPass then Inr False
      else if rows = [] then Inl NoLastRow
      else unread_from env rowsPerPass (Some (jr_row (last rows))) store)"
  by auto
termination
proof (relation "measure (\<lambda>(env, n, after, store). length (rows_after after store))")
  fix env :: stop_env and n :: nat and after :: "int option" and store :: stop_store and rows :: "journal_row list"
  assume rows: "rows = take n (rows_after after store)" and ne: "rows \<noteq> []"
  let ?r = "last rows"
  have mem: "?r \<in> set (rows_after after store)" using rows ne by (metis in_set_takeD last_in_set)
  have sub: "rows_after (Some (jr_row ?r)) store = filter (\<lambda>x. True \<and> jr_row x > jr_row ?r) (rows_after after store)"
    if "after = None \<or> (\<exists>a. after = Some a \<and> a < jr_row ?r)"
    using that by (cases after) (auto simp: rows_after_def intro!: filter_cong)
  have "after = None \<or> (\<exists>a. after = Some a \<and> a < jr_row ?r)"
    using mem by (auto simp: rows_after_def split: option.splits)
  then show "((env, n, Some (jr_row ?r), store), env, n, after, store) \<in> measure (\<lambda>(env, n, after, store). length (rows_after after store))"
    using sub filter_conj_less [of ?r "rows_after after store" "\<lambda>_. True" "\<lambda>x. jr_row x > jr_row ?r"] mem by simp
qed simp

declare unread_from.simps [simp del]

definition finishRecovery :: "stop_env \<Rightarrow> nat \<Rightarrow> stop_store \<Rightarrow> stop_error + bool \<times> stop_store" where
  "finishRecovery env rowsPerPass store =
     (let done_store = store\<lparr>ss_lines := [], ss_recovery := []\<rparr> in
      rbind (unread_from env rowsPerPass None done_store) (\<lambda>unread.
      Inr (if unread then (False, store) else (True, done_store))))"

section \<open>The journal is read to its end\<close>

definition journal_sorted :: "stop_store \<Rightarrow> bool" where
  "journal_sorted store \<longleftrightarrow> sorted_wrt (<) (map jr_row (ss_intents store))"

lemma sorted_filter_wrt: "sorted_wrt P xs \<Longrightarrow> sorted_wrt P (filter Q xs)"
  by (induction xs) auto

lemma rows_after_sorted: "journal_sorted store \<Longrightarrow> sorted_wrt (\<lambda>a b. jr_row a < jr_row b) (rows_after after store)"
  by (auto simp: journal_sorted_def rows_after_def sorted_wrt_map intro: sorted_filter_wrt split: option.split)

lemma filter_past_last:
  assumes "sorted_wrt (\<lambda>a b. jr_row a < jr_row b) xs" and "take n xs \<noteq> []"
  shows "filter (\<lambda>r. jr_row (last (take n xs)) < jr_row r) xs = drop n xs"
proof -
  let ?r = "last (take n xs)"
  have parts: "xs = butlast (take n xs) @ [?r] @ drop n xs"
    by (metis append.assoc append_butlast_last_id append_take_drop_id assms(2))
  have "sorted_wrt (\<lambda>a b. jr_row a < jr_row b) (butlast (take n xs) @ [?r] @ drop n xs)" using assms(1) parts by simp
  then have "\<forall>a\<in>set (butlast (take n xs)). jr_row a < jr_row ?r" "\<forall>b\<in>set (drop n xs). jr_row ?r < jr_row b"
    by (auto simp: sorted_wrt_append)
  then have "filter (\<lambda>r. jr_row ?r < jr_row r) (butlast (take n xs) @ [?r] @ drop n xs) = drop n xs"
    by (auto simp: filter_empty_conv)
  then show ?thesis unfolding parts [symmetric] .
qed

lemma rows_after_next:
  assumes "journal_sorted store" and ne: "take n (rows_after after store) \<noteq> []"
  shows "rows_after (Some (jr_row (last (take n (rows_after after store))))) store = drop n (rows_after after store)"
proof -
  let ?xs = "rows_after after store" let ?r = "last (take n ?xs)"
  have "?r \<in> set ?xs" using ne by (metis in_set_takeD last_in_set)
  then have "rows_after (Some (jr_row ?r)) store = filter (\<lambda>x. jr_row ?r < jr_row x) ?xs"
    by (cases after) (auto simp: rows_after_def intro!: filter_cong)
  then show ?thesis using filter_past_last [OF rows_after_sorted [OF assms(1)] ne] by simp
qed

definition unlisted :: "stop_env \<Rightarrow> stop_store \<Rightarrow> journal_row \<Rightarrow> bool" where
  "unlisted env store r \<longleftrightarrow> \<not> listed store (jr_row r) (row_identity env r)"

lemma unread_from_eq:
  assumes "journal_sorted store" and "0 < n"
  shows "unread_from env n after store = Inr (list_ex (unlisted env store) (rows_after after store))"
  using assms
proof (induction env n after store rule: unread_from.induct)
  case (1 env n after store)
  let ?xs = "rows_after after store"
  have split: "list_ex (unlisted env store) ?xs \<longleftrightarrow>
      list_ex (unlisted env store) (take n ?xs) \<or> list_ex (unlisted env store) (drop n ?xs)"
    by (metis append_take_drop_id list_ex_append)
  have fold_un: "list_ex (\<lambda>r. \<not> listed store (jr_row r) (row_identity env r)) xs = list_ex (unlisted env store) xs" for xs
    by (simp add: unlisted_def [abs_def])
  consider "list_ex (unlisted env store) (take n ?xs)"
    | "\<not> list_ex (unlisted env store) (take n ?xs)" "length ?xs < n"
    | "\<not> list_ex (unlisted env store) (take n ?xs)" "n \<le> length ?xs" by linarith
  then show ?case
  proof cases
    case 1
    then show ?thesis using split by (subst unread_from.simps) (simp add: fold_un Let_def)
  next
    case 2
    then show ?thesis by (subst unread_from.simps) (simp add: fold_un Let_def)
  next
    case 3
    then have ne: "take n ?xs \<noteq> []" using \<open>0 < n\<close> by auto
    have step: "unread_from env n after store = unread_from env n (Some (jr_row (last (take n ?xs)))) store"
      using 3 ne by (subst unread_from.simps) (simp add: fold_un Let_def)
    have "unread_from env n (Some (jr_row (last (take n ?xs)))) store = Inr (list_ex (unlisted env store) (drop n ?xs))"
      using "1.IH" [OF refl] 3 ne "1.prems" rows_after_next [OF "1.prems"(1) ne] by (simp add: fold_un)
    then show ?thesis using step split 3 by simp
  qed
qed

text \<open>
  A recovery ends only when it has read everything. For every page size the paging search for
  unread rows is the plain question whether the journal holds a row that is not listed with its
  identity: if it does, finishing answers false and changes nothing, so another round is due; if
  it does not, finishing answers true and empties the lines and the list of stops, and nothing
  else.
\<close>

theorem recovery_ends_when_all_read:
  assumes "journal_sorted store" and "0 < rowsPerPass"
  shows "finishRecovery env rowsPerPass store =
    Inr (if list_ex (unlisted env store) (ss_intents store) then (False, store)
         else (True, store\<lparr>ss_lines := [], ss_recovery := []\<rparr>))"
proof -
  let ?s = "store\<lparr>ss_lines := [], ss_recovery := []\<rparr>"
  have "journal_sorted ?s" using assms by (simp add: journal_sorted_def)
  moreover have "rows_after None ?s = ss_intents store" by (simp add: rows_after_def)
  moreover have "list_ex (unlisted env ?s) xs = list_ex (unlisted env store) xs" for xs
    by (simp add: unlisted_def [abs_def] listed_def)
  ultimately have "unread_from env rowsPerPass None ?s = Inr (list_ex (unlisted env store) (ss_intents store))"
    using unread_from_eq [of ?s rowsPerPass env None] assms(2) by simp
  then show ?thesis by (simp add: finishRecovery_def)
qed

section \<open>A round clears what it finished\<close>

definition matches :: "stop_env \<Rightarrow> listed_row \<Rightarrow> journal_row \<Rightarrow> bool" where
  "matches env l r \<longleftrightarrow> jr_row r = lr_row l \<and> row_identity env r = lr_identity l"

definition held :: "stop_env \<Rightarrow> stop_store \<Rightarrow> listed_row \<Rightarrow> bool" where
  "held env store l \<longleftrightarrow> list_ex (\<lambda>r. matches env l r \<and> jr_row r \<in> set (ss_protected store)) (ss_intents store)"

definition round_finished :: "stop_env \<Rightarrow> stop_store \<Rightarrow> stop_store" where
  "round_finished env store = store\<lparr>
     ss_intents := filter (\<lambda>r. \<not> (list_ex (\<lambda>l. due l \<and> matches env l r) (ss_rows store) \<and> jr_row r \<notin> set (ss_protected store))) (ss_intents store),
     ss_rows := concat (map (\<lambda>l. if \<not> due l then [l] else if held env store l then [l\<lparr>lr_cleared := True\<rparr>] else []) (ss_rows store))\<rparr>"

definition listing_ok :: "stop_store \<Rightarrow> bool" where
  "listing_ok store \<longleftrightarrow> distinct (map jr_row (ss_intents store)) \<and> distinct (map (\<lambda>l. (lr_row l, lr_identity l)) (ss_rows store))"

lemma clear_listed_eq:
  assumes ok: "listing_ok store"
  shows "clear_listed env l store = store\<lparr>
     ss_intents := filter (\<lambda>r. \<not> (matches env l r \<and> jr_row r \<notin> set (ss_protected store))) (ss_intents store),
     ss_rows := (if held env store l then map (\<lambda>x. if same_listed l x then x\<lparr>lr_cleared := True\<rparr> else x) (ss_rows store)
                 else filter (\<lambda>x. \<not> same_listed l x) (ss_rows store))\<rparr>"
proof (cases "\<exists>r\<in>set (ss_intents store). matches env l r")
  case True
  then obtain r where r: "r \<in> set (ss_intents store)" "matches env l r" by blast
  have "inj_on jr_row (set (ss_intents store))" using ok by (simp add: listing_ok_def distinct_map)
  then have inj: "x = r" if "x \<in> set (ss_intents store)" "jr_row x = lr_row l" for x
    using r that by (metis inj_onD matches_def)
  have same: "(case find (\<lambda>r. jr_row r = lr_row l) (ss_intents store) of None \<Rightarrow> False | Some r \<Rightarrow> row_identity env r = lr_identity l)"
  proof -
    have "find (\<lambda>r. jr_row r = lr_row l) (ss_intents store) = Some r"
      using r(2) by (intro find_unique [OF r(1)] inj) (simp_all add: matches_def)
    then show ?thesis using r(2) by (simp add: matches_def)
  qed
  have gone: "filter (\<lambda>x. \<not> (jr_row x = lr_row l \<and> jr_row x \<notin> set (ss_protected store))) (ss_intents store)
      = filter (\<lambda>x. \<not> (matches env l x \<and> jr_row x \<notin> set (ss_protected store))) (ss_intents store)"
    using inj r by (intro filter_cong) (auto simp: matches_def)
  have held: "held env store l \<longleftrightarrow> lr_row l \<in> set (ss_protected store)"
    using r by (auto simp: held_def list_ex_iff matches_def)
  have none: "filter (\<lambda>x. jr_row x = lr_row l \<and> jr_row x \<notin> set (ss_protected store)) (ss_intents store) = [] \<longleftrightarrow> lr_row l \<in> set (ss_protected store)"
    using r by (auto simp: filter_empty_conv matches_def)
  show ?thesis
    unfolding clear_listed_def Let_def if_P [OF same] delete_rows_def gone held
    using none by (auto simp: gone)
next
  case False
  then have "\<not> (case find (\<lambda>r. jr_row r = lr_row l) (ss_intents store) of None \<Rightarrow> False | Some r \<Rightarrow> row_identity env r = lr_identity l)"
    by (auto simp: matches_def split: option.splits dest: find_Some_in_set)
  moreover have "filter (\<lambda>r. \<not> (matches env l r \<and> jr_row r \<notin> set (ss_protected store))) (ss_intents store) = ss_intents store"
    using False by (auto intro: filter_True)
  moreover have "\<not> held env store l" using False by (auto simp: held_def list_ex_iff)
  ultimately show ?thesis by (simp add: clear_listed_def)
qed

lemma mark_keys:
  "map (\<lambda>l. (lr_row l, lr_identity l)) (map (\<lambda>x. if same_listed l x then x\<lparr>lr_cleared := True\<rparr> else x) xs)
     = map (\<lambda>l. (lr_row l, lr_identity l)) xs"
  by simp

lemma clear_listed_ok: "listing_ok store \<Longrightarrow> listing_ok (clear_listed env l store)"
  using mark_keys [of l "ss_rows store"]
  by (simp add: clear_listed_eq listing_ok_def distinct_map_filter del: map_map)

lemma marked_differs: "\<not> lr_cleared l \<Longrightarrow> l\<lparr>lr_cleared := True\<rparr> \<noteq> l"
  by (cases l) simp

lemma concat_map_filter: "(\<And>x. x \<in> set xs \<Longrightarrow> \<not> P x \<Longrightarrow> f x = []) \<Longrightarrow> concat (map f (filter P xs)) = concat (map f xs)"
  by (induction xs) auto

text \<open>Clearing one due row leaves what the whole round will do unchanged.\<close>

lemma clear_listed_round:
  assumes ok: "listing_ok store" and l: "l \<in> set (ss_rows store)" "due l"
  shows "round_finished env (clear_listed env l store) = round_finished env store"
proof -
  let ?s = "clear_listed env l store" and ?prot = "set (ss_protected store)"
  let ?F = "\<lambda>x. if \<not> due x then [x] else if held env store x then [x\<lparr>lr_cleared := True\<rparr>] else []"
  have key: "same_listed l x \<longleftrightarrow> x = l" if "x \<in> set (ss_rows store)" for x
    using ok l that by (auto simp: listing_ok_def distinct_map same_listed_def dest: inj_onD)
  have prot: "ss_protected ?s = ss_protected store" by (simp add: clear_listed_eq [OF ok])
  have held: "held env ?s x = held env store x" for x
    by (auto simp: held_def clear_listed_eq [OF ok] list_ex_iff)
  have dues: "due x \<and> x \<in> set (ss_rows ?s) \<longleftrightarrow> due x \<and> x \<in> set (ss_rows store) \<and> x \<noteq> l" for x
    using key l marked_differs [of l] by (auto simp: clear_listed_eq [OF ok] due_def split: if_splits)
  have "ss_intents (round_finished env ?s) = ss_intents (round_finished env store)"
  proof -
    have un: "(list_ex (\<lambda>x. due x \<and> matches env x r) (ss_rows ?s) \<or> matches env l r) \<longleftrightarrow> list_ex (\<lambda>x. due x \<and> matches env x r) (ss_rows store)" for r
      using dues l unfolding list_ex_iff by blast
    have ints: "ss_intents ?s = filter (\<lambda>r. \<not> (matches env l r \<and> jr_row r \<notin> ?prot)) (ss_intents store)"
      by (simp add: clear_listed_eq [OF ok])
    have "ss_intents (round_finished env ?s) = filter (\<lambda>r. \<not> (matches env l r \<and> jr_row r \<notin> ?prot)
        \<and> \<not> (list_ex (\<lambda>x. due x \<and> matches env x r) (ss_rows ?s) \<and> jr_row r \<notin> ?prot)) (ss_intents store)"
      by (simp add: round_finished_def prot ints)
    also have "\<dots> = filter (\<lambda>r. \<not> (list_ex (\<lambda>x. due x \<and> matches env x r) (ss_rows store) \<and> jr_row r \<notin> ?prot)) (ss_intents store)"
      unfolding un [symmetric] by (rule filter_cong) auto
    finally show ?thesis by (simp add: round_finished_def)
  qed
  moreover have rows: "ss_rows (round_finished env ?s) = concat (map ?F (ss_rows ?s))" by (simp add: round_finished_def held cong: if_cong)
  moreover have "ss_rows (round_finished env ?s) = ss_rows (round_finished env store)"
  proof (cases "held env store l")
    case True
    then have "ss_rows ?s = map (\<lambda>x. if x = l then x\<lparr>lr_cleared := True\<rparr> else x) (ss_rows store)"
      using key by (simp add: clear_listed_eq [OF ok])
    moreover have "?F (if x = l then x\<lparr>lr_cleared := True\<rparr> else x) = ?F x" for x
      using True l by (simp add: due_def)
    ultimately have "map ?F (ss_rows ?s) = map ?F (ss_rows store)" by (simp only: map_map o_def)
    then show ?thesis unfolding rows by (simp add: round_finished_def)
  next
    case False
    then have eq: "ss_rows ?s = filter (\<lambda>x. x \<noteq> l) (ss_rows store)"
      using key by (simp add: clear_listed_eq [OF ok] cong: filter_cong)
    have "concat (map ?F (ss_rows ?s)) = concat (map ?F (ss_rows store))"
      unfolding eq by (rule concat_map_filter) (use False l in simp)
    then show ?thesis unfolding rows by (simp add: round_finished_def)
  qed
  moreover have "ss_lines (round_finished env ?s) = ss_lines (round_finished env store)"
    "ss_recovery (round_finished env ?s) = ss_recovery (round_finished env store)"
    "ss_quarantine (round_finished env ?s) = ss_quarantine (round_finished env store)"
    "ss_protected (round_finished env ?s) = ss_protected (round_finished env store)"
    by (simp_all add: round_finished_def clear_listed_eq [OF ok])
  ultimately show ?thesis by (intro stop_store.equality) simp_all
qed

lemma clear_batch_round:
  assumes "listing_ok store" and "set ls \<subseteq> {l \<in> set (ss_rows store). due l}" and "distinct ls"
  shows "listing_ok (fold (clear_listed env) ls store) \<and> round_finished env (fold (clear_listed env) ls store) = round_finished env store"
  using assms
proof (induction ls arbitrary: store)
  case (Cons l ls)
  let ?s = "clear_listed env l store"
  have l: "l \<in> set (ss_rows store)" "due l" using Cons.prems by auto
  have "x \<in> set (ss_rows ?s)" if x: "x \<in> set ls" for x
  proof -
    have "x \<in> set (ss_rows store)" "x \<noteq> l" using Cons.prems x by auto
    then have "\<not> same_listed l x"
      using Cons.prems(1) l by (auto simp: listing_ok_def distinct_map same_listed_def dest: inj_onD)
    then show ?thesis using \<open>x \<in> set (ss_rows store)\<close> by (force simp: clear_listed_eq [OF Cons.prems(1)])
  qed
  then have "set ls \<subseteq> {l \<in> set (ss_rows ?s). due l}" using Cons.prems by auto
  then show ?case
    using Cons.IH [of ?s] Cons.prems clear_listed_ok [OF Cons.prems(1)] clear_listed_round [OF Cons.prems(1) l] by simp
qed simp

lemma finish_batches_eq:
  assumes "listing_ok store" and "0 < n"
  shows "finish_batches env n store = round_finished env store"
  using assms
proof (induction env n store rule: finish_batches.induct)
  case (1 env n store)
  let ?batch = "take n (filter due (ss_rows store))"
  show ?case
  proof (cases "?batch = []")
    case True
    then have none: "\<forall>l\<in>set (ss_rows store). \<not> due l" using \<open>0 < n\<close> by (auto simp: filter_empty_conv)
    then have "concat (map (\<lambda>l. if \<not> due l then [l] else if held env store l then [l\<lparr>lr_cleared := True\<rparr>] else []) (ss_rows store)) = ss_rows store"
      by (induction "ss_rows store") (simp_all add: map_concat concat_map_singleton cong: map_cong)
    then show ?thesis using True none by (subst finish_batches.simps) (auto simp: round_finished_def list_ex_iff)
  next
    case False
    have "distinct (ss_rows store)" using "1.prems"(1) by (auto simp: listing_ok_def distinct_map)
    then have dist: "distinct ?batch" by (simp add: distinct_take)
    have "set ?batch \<subseteq> {l \<in> set (ss_rows store). due l}" by (auto dest: in_set_takeD)
    note clear_batch_round [OF "1.prems"(1) this dist, of env]
    then show ?thesis using "1.IH" [OF refl False] "1.prems"(2) False by (subst finish_batches.simps) simp
  qed
qed

text \<open>
  C20. Once a round is saved, finishing it in batches is one exact change of the store: a row goes
  from the journal exactly when the round listed it to be cleared, it is still the row that was
  read (its identity matches) and the store lets it go; a row that could not be removed stays
  listed as cleared; every other listed row to clear is forgotten, so a new row under its rowid
  is read again; rows kept for overflow and the list of stops stay, and the lines are dropped.
\<close>

theorem round_clears_what_it_finished:
  assumes "listing_ok store" and "0 < rowsPerPass"
  shows "finishRound env rowsPerPass store = (round_finished env store)\<lparr>ss_lines := []\<rparr>"
  by (simp add: finishRound_def finish_batches_eq [OF assms])

section \<open>A pass loses no stop\<close>

lemma strict_sorted_rows_eq:
  assumes "sorted_wrt (\<lambda>a b. jr_row a < jr_row b) xs" and "sorted_wrt (\<lambda>a b. jr_row a < jr_row b) ys" and "set xs = set ys"
  shows "xs = ys"
proof -
  have inj: "inj_on jr_row (set xs)"
    using assms(1) by (metis distinct_map sorted_wrt_map strict_sorted_iff)
  have "map jr_row xs = map jr_row ys"
    using assms by (intro strict_sorted_equal) (simp_all add: sorted_wrt_map)
  then show ?thesis using inj assms(3) by (metis inj_on_Un map_inj_on sup.idem)
qed

definition quarantined :: "stop_store \<Rightarrow> journal_row \<Rightarrow> bool" where
  "quarantined store r = list_ex (\<lambda>(k, c, _). k = jr_key r \<and> c = jr_record r) (ss_quarantine store)"

definition accounted :: "stop_env \<Rightarrow> js_string \<Rightarrow> stop_store \<Rightarrow> pass_result \<Rightarrow> journal_row \<Rightarrow> bool" where
  "accounted env now store out r =
     (case readIntent env now (jr_key r) (jr_record r) of
        Inl why \<Rightarrow> quarantined store r \<and> (jr_key r, why) \<in> set (pr_setAside out)
      | Inr read \<Rightarrow> \<lparr>rr_row = jr_row r, rr_identity = row_identity env r, rr_keep = rd_overflow read\<rparr> \<in> set (pr_read out)
          \<and> (rd_partial read \<noteq> None \<longrightarrow> quarantined store r)
          \<and> list_all (\<lambda>i. (jr_key r, jr_row r, i, rd_overflow read) \<in> set (pr_intents out)) (rd_intents read))"

text \<open>What a quarantine keeps: everything but the row it moves, which it has copied first.\<close>

lemma quarantine_facts:
  assumes "quarantine r why move store = (store', copied, moved)"
  shows "ss_rows store' = ss_rows store" and "ss_lines store' = ss_lines store" and "ss_recovery store' = ss_recovery store"
    and "quarantined store' r" and "quarantined store x \<Longrightarrow> quarantined store' x"
    and "set (ss_intents store') \<subseteq> set (ss_intents store)"
    and "x \<in> set (ss_intents store) \<Longrightarrow> x \<in> set (ss_intents store') \<or> (move \<and> x = r)"
    and "sorted_wrt P (ss_intents store) \<Longrightarrow> sorted_wrt P (ss_intents store')"
  using assms
  by (auto simp: quarantine_def quarantined_def delete_rows_def Let_def sorted_filter_wrt split: if_splits)

definition pass_inv :: "stop_env \<Rightarrow> js_string \<Rightarrow> stop_store \<Rightarrow> journal_row list \<Rightarrow> stop_store \<times> pass_result \<Rightarrow> bool" where
  "pass_inv env now start seen = (\<lambda>(store, out).
     ss_rows store = ss_rows start \<and> ss_lines store = ss_lines start \<and> ss_recovery store = ss_recovery start
   \<and> set (ss_intents store) \<subseteq> set (ss_intents start)
   \<and> (\<forall>x. quarantined start x \<longrightarrow> quarantined store x)
   \<and> (\<forall>x\<in>set (ss_intents start). x \<in> set (ss_intents store)
        \<or> (x \<in> set seen \<and> isl (readIntent env now (jr_key x) (jr_record x)) \<and> quarantined store x))
   \<and> (\<forall>x\<in>set seen. unlisted env start x \<longrightarrow> accounted env now store out x))"

lemma accounted_mono:
  assumes "accounted env now store out r" and "\<And>x. quarantined store x \<Longrightarrow> quarantined store' x"
    and "set (pr_setAside out) \<subseteq> set (pr_setAside out')" and "set (pr_read out) \<subseteq> set (pr_read out')"
    and "set (pr_intents out) \<subseteq> set (pr_intents out')"
  shows "accounted env now store' out' r"
  using assms by (auto simp: accounted_def list_all_iff split: sum.splits)

text \<open>One row: the store and the report only grow, but for the row moved aside.\<close>

lemma pass_row_facts:
  assumes run: "pass_row env now r (store, out) = (store', out')"
  shows "ss_rows store' = ss_rows store" and "ss_lines store' = ss_lines store" and "ss_recovery store' = ss_recovery store"
    and "set (ss_intents store') \<subseteq> set (ss_intents store)" and "quarantined store x \<Longrightarrow> quarantined store' x"
    and "x \<in> set (ss_intents store) \<Longrightarrow> x \<in> set (ss_intents store')
      \<or> (x = r \<and> isl (readIntent env now (jr_key r) (jr_record r)) \<and> quarantined store' r)"
    and "set (pr_setAside out) \<subseteq> set (pr_setAside out')" and "set (pr_read out) \<subseteq> set (pr_read out')"
    and "set (pr_intents out) \<subseteq> set (pr_intents out')"
    and "unlisted env store r \<Longrightarrow> accounted env now store' out' r"
    and "sorted_wrt P (ss_intents store) \<Longrightarrow> sorted_wrt P (ss_intents store')"
proof -
  consider (known) "listed store (jr_row r) (row_identity env r)" "store' = store" "out' = out"
    | (aside) why c m where "unlisted env store r" "readIntent env now (jr_key r) (jr_record r) = Inl why"
        "quarantine r why True store = (store', c, m)"
        "out' = out\<lparr>pr_read := pr_read out @ (if m then [] else [\<lparr>rr_row = jr_row r, rr_identity = row_identity env r, rr_keep = True\<rparr>]),
              pr_setAside := pr_setAside out @ [(jr_key r, why)]\<rparr>"
    | (stop) read where "unlisted env store r" "readIntent env now (jr_key r) (jr_record r) = Inr read"
        "(rd_partial read = None \<and> store' = store) \<or> (\<exists>why c m. rd_partial read = Some why \<and> quarantine r why False store = (store', c, m))"
        "pr_read out' = pr_read out @ [\<lparr>rr_row = jr_row r, rr_identity = row_identity env r, rr_keep = rd_overflow read\<rparr>]"
        "pr_intents out' = pr_intents out @ map (\<lambda>i. (jr_key r, jr_row r, i, rd_overflow read)) (rd_intents read)"
        "pr_setAside out' = pr_setAside out"
    using run by (auto simp: pass_row_def Let_def unlisted_def split: if_splits sum.splits option.splits prod.splits)
  note cases = this
  show "ss_rows store' = ss_rows store" "ss_lines store' = ss_lines store" "ss_recovery store' = ss_recovery store"
    "set (ss_intents store') \<subseteq> set (ss_intents store)"
    "sorted_wrt P (ss_intents store) \<Longrightarrow> sorted_wrt P (ss_intents store')"
    using cases by (cases; auto dest: quarantine_facts)+
  show "set (pr_setAside out) \<subseteq> set (pr_setAside out')" "set (pr_read out) \<subseteq> set (pr_read out')"
    "set (pr_intents out) \<subseteq> set (pr_intents out')"
    using cases by (cases; auto)+
  show "quarantined store x \<Longrightarrow> quarantined store' x" using cases by cases (auto dest: quarantine_facts(5))
  show "x \<in> set (ss_intents store) \<Longrightarrow> x \<in> set (ss_intents store')
      \<or> (x = r \<and> isl (readIntent env now (jr_key r) (jr_record r)) \<and> quarantined store' r)"
    using cases by cases (auto dest: quarantine_facts(4,7))
  show "unlisted env store r \<Longrightarrow> accounted env now store' out' r"
    using cases
    by cases (auto simp: unlisted_def accounted_def list_all_iff dest: quarantine_facts(4))
qed

lemma pass_row_inv:
  assumes inv: "pass_inv env now start seen (store, out)" and run: "pass_row env now r (store, out) = (store', out')"
  shows "pass_inv env now start (seen @ [r]) (store', out')"
proof -
  note facts = pass_row_facts [OF run]
  have same: "unlisted env store x \<longleftrightarrow> unlisted env start x" for x
    using inv by (simp add: pass_inv_def unlisted_def listed_def)
  have acc: "accounted env now store' out' x" if "x \<in> set (seen @ [r])" "unlisted env start x" for x
  proof (cases "x \<in> set seen")
    case True
    then have "accounted env now store out x" using inv that(2) by (simp add: pass_inv_def)
    then show ?thesis by (rule accounted_mono) (rule facts(5,7,8,9), assumption?)+
  next
    case False
    then show ?thesis using that facts(10) same by simp
  qed
  show ?thesis
    unfolding pass_inv_def split_conv
  proof (intro conjI allI ballI impI)
    fix x assume "x \<in> set (ss_intents start)"
    then show "x \<in> set (ss_intents store') \<or> (x \<in> set (seen @ [r]) \<and> isl (readIntent env now (jr_key x) (jr_record x)) \<and> quarantined store' x)"
      using inv facts(5,6) unfolding pass_inv_def split_conv by (metis Un_iff insertI1 list.simps(15) set_append)
  qed (use inv facts acc in \<open>auto simp: pass_inv_def\<close>)
qed

lemma pass_rows_inv:
  assumes "pass_inv env now start seen (store, out)"
  shows "pass_inv env now start (seen @ rows) (fold (pass_row env now) rows (store, out))"
  using assms
proof (induction rows arbitrary: seen store out)
  case (Cons r rows)
  obtain store' out' where run: "pass_row env now r (store, out) = (store', out')" by fastforce
  then show ?case using Cons.IH [OF pass_row_inv [OF Cons.prems run]] by simp
qed simp

lemma pass_rows_sorted:
  "sorted_wrt P (ss_intents (fst s)) \<Longrightarrow> sorted_wrt P (ss_intents (fst (fold (pass_row env now) rows s)))"
proof (induction rows arbitrary: s)
  case (Cons r rows)
  have "sorted_wrt P (ss_intents (fst (pass_row env now r s)))"
    using Cons.prems pass_row_facts(11) [of env now r "fst s" "snd s"] by (cases "pass_row env now r s") simp
  then show ?case using Cons.IH by simp
qed simp

text \<open>
  C4. A pass over the journal loses no stop. It reads at most the rows of one page, in order,
  after the given rowid. A row that leaves the journal is one no stop could be read from, and a
  copy of it, as stored, is in quarantine. Each row of the page that recovery has not read yet is
  accounted for: set aside with its reason, or reported with every stop read from it and listed
  to be cleared or, past the limits, kept. The answer names where to go on exactly when rows are
  left after the page, and nothing else of the store changes.
\<close>

theorem pass_loses_no_stop:
  assumes sorted: "journal_sorted store"
    and run: "pending env rowsPerPass now after store = (store', out, next_row)" and page: "0 < rowsPerPass"
  defines "rows \<equiv> take rowsPerPass (rows_after after store)"
  shows "set (ss_intents store') \<subseteq> set (ss_intents store)
    \<and> (\<forall>x\<in>set (ss_intents store). x \<notin> set (ss_intents store') \<longrightarrow>
         x \<in> set rows \<and> isl (readIntent env now (jr_key x) (jr_record x)) \<and> quarantined store' x)
    \<and> (\<forall>x\<in>set rows. unlisted env store x \<longrightarrow> accounted env now store' out x)
    \<and> ss_rows store' = ss_rows store \<and> ss_lines store' = ss_lines store \<and> ss_recovery store' = ss_recovery store
    \<and> next_row = (if drop rowsPerPass (rows_after after store) = [] then None else Some (jr_row (last rows)))
    \<and> (next_row \<noteq> None \<longrightarrow> rows_after next_row store' = drop rowsPerPass (rows_after after store))"
proof -
  obtain s o1 where fold: "fold (pass_row env now) rows (store, empty_pass) = (s, o1)" by fastforce
  then have out: "s = store'" "o1 = out"
    and next_row: "next_row = (if rows \<noteq> [] \<and> length rows = rowsPerPass \<and> rows_after (Some (jr_row (last rows))) store' \<noteq> []
      then Some (jr_row (last rows)) else None)"
    using run by (auto simp: pending_def Let_def rows_def)
  have "pass_inv env now store [] (store, empty_pass)" by (simp add: pass_inv_def)
  then have inv: "pass_inv env now store rows (store', out)"
    using pass_rows_inv [of env now store "[]" store empty_pass rows] fold out by simp
  have later: "rows_after (Some (jr_row (last rows))) store' = drop rowsPerPass (rows_after after store)" if ne: "rows \<noteq> []"
  proof -
    let ?Q = "\<lambda>r. jr_row (last rows) < jr_row r"
    have tail: "rows_after (Some (jr_row (last rows))) store = drop rowsPerPass (rows_after after store)"
      using rows_after_next [OF sorted] ne by (simp add: rows_def)
    have srt: "sorted_wrt (\<lambda>a b. jr_row a < jr_row b) (ss_intents store)" using sorted by (simp add: journal_sorted_def sorted_wrt_map)
    then have srt': "sorted_wrt (\<lambda>a b. jr_row a < jr_row b) (ss_intents store')"
      using pass_rows_sorted [of _ "(store, empty_pass)" env now rows] fold out by simp
    have "set (filter ?Q (ss_intents store')) = set (filter ?Q (ss_intents store))"
    proof
      show "set (filter ?Q (ss_intents store)) \<subseteq> set (filter ?Q (ss_intents store'))"
      proof
        fix x assume x: "x \<in> set (filter ?Q (ss_intents store))"
        then have "x \<in> set (drop rowsPerPass (rows_after after store))" unfolding tail [symmetric] by (simp add: rows_after_def)
        then have "x \<notin> set rows"
          using rows_after_sorted [OF sorted, of after] unfolding rows_def
          by (metis (mono_tags, lifting) append_take_drop_id less_irrefl sorted_wrt_append)
        then show "x \<in> set (filter ?Q (ss_intents store'))" using inv x by (auto simp: pass_inv_def)
      qed
    qed (use inv in \<open>auto simp: pass_inv_def\<close>)
    then have "filter ?Q (ss_intents store') = filter ?Q (ss_intents store)"
      using sorted_filter_wrt [OF srt] sorted_filter_wrt [OF srt'] by (intro strict_sorted_rows_eq) auto
    then show ?thesis using tail by (simp add: rows_after_def)
  qed
  have next_page: "next_row = (if drop rowsPerPass (rows_after after store) = [] then None else Some (jr_row (last rows)))"
  proof (cases "drop rowsPerPass (rows_after after store) = []")
    case False
    then have "length rows = rowsPerPass" "rows \<noteq> []" using page by (auto simp: rows_def)
    then show ?thesis using next_row later False by simp
  qed (use next_row later in auto)
  have "drop rowsPerPass (rows_after after store) \<noteq> [] \<Longrightarrow> rows \<noteq> []" using page by (auto simp: rows_def)
  then show ?thesis
    using inv next_page later unfolding pass_inv_def split_conv by (auto split: if_splits)
qed

section \<open>The work one row asks\<close>

definition stop_work :: "stop_intent \<Rightarrow> nat" where
  "stop_work i = max 1 (length (si_clients i) * length (si_sessionIds i) + length (si_inFlight i))"

lemma uniq_facts: "set (uniq xs) = set xs" "distinct (uniq xs)" "length (uniq xs) \<le> length xs"
  by (simp_all add: uniq_def) (metis length_remdups_leq length_rev)

lemma client_kinds: "length (uniq (xs :: client_kind list)) \<le> 5"
proof -
  have "set (uniq xs) \<subseteq> {Desktop, Web, Tablet, Phone, Cli}" by (auto intro: client_kind.exhaust)
  then have "card (set (uniq xs)) \<le> card {Desktop, Web, Tablet, Phone, Cli}" by (intro card_mono) auto
  moreover have "card {Desktop, Web, Tablet, Phone, Cli} \<le> 5" by (simp add: card_insert_if)
  ultimately show ?thesis by (simp add: distinct_card [OF uniq_facts(2)])
qed

lemma fill_length: "length built \<le> maximumEntries \<Longrightarrow> length (fill built ds) \<le> Suc maximumEntries"
  by (induction built ds rule: fill.induct) auto

text \<open>The dispatches built are the first ones named, one past the kept number at most.\<close>

lemma fill_take: "length built \<le> maximumEntries \<Longrightarrow> fill built ds = take (Suc maximumEntries) (built @ ds)"
proof (induction built ds rule: fill.induct)
  case (2 built d ds)
  then show ?case by (cases "length built = maximumEntries") auto
qed simp

lemma those_length: "those xs = Some ys \<Longrightarrow> length ys = length xs"
  by (induction xs arbitrary: ys) (auto split: option.splits)

lemma strict_list_length: "strict_list item v = Some ys \<Longrightarrow> length ys \<le> maximumEntries"
  by (auto simp: strict_list_def dest!: those_length split: field_value.splits if_splits)

lemma intentSchema_bounds:
  assumes "intentSchema env fs = Some i"
  shows "length (si_clients i) = 1 \<and> length (si_sessionIds i) \<le> maximumEntries \<and> length (si_inFlight i) \<le> maximumEntries"
proof -
  obtain sessions v where s: "si_sessionIds i = uniq sessions" "strict_list (strict_session env) v = Some sessions"
    and f: "si_inFlight i = [] \<or> (\<exists>w. strict_list (strict_in_flight env) w = Some (si_inFlight i))"
    and c: "length (si_clients i) = 1"
    using assms by (fastforce simp: intentSchema_def bind_eq_Some_conv split: if_splits)
  have "length (si_sessionIds i) \<le> maximumEntries"
    using s(1) uniq_facts(3) [of sessions] strict_list_length [OF s(2)] by simp
  moreover have "length (si_inFlight i) \<le> maximumEntries" using f strict_list_length by fastforce
  ultimately show ?thesis using c by simp
qed

lemma cap_work: "0 < work \<Longrightarrow> length (take (max 1 (limit div work)) xs) * work \<le> max limit (work :: nat)"
proof -
  assume w: "0 < work"
  have "length (take (max 1 (limit div work)) xs) * work \<le> max 1 (limit div work) * work" by simp
  also have "\<dots> \<le> max limit work"
    using div_times_less_eq_dividend [of limit work] by (cases "limit div work = 0") (auto simp: max_absorb2 Suc_le_eq intro: max.coboundedI1)
  finally show ?thesis .
qed

text \<open>
  C35. One row asks a bounded amount of work, however its fields repeat: at most 10000 sessions
  and 10000 dispatches per stop, at most five client kinds, and over all the stops read from it
  at most the work limit of 20000 units, or the work of a single stop where that alone is more,
  so never more than 60000 units.
\<close>

theorem row_work_is_bounded:
  assumes run: "readIntent env now key record = Inr read"
  shows "list_all (\<lambda>i. length (si_clients i) \<le> 5 \<and> length (si_sessionIds i) \<le> maximumEntries
        \<and> length (si_inFlight i) \<le> maximumEntries) (rd_intents read)
    \<and> rd_intents read \<noteq> []
    \<and> sum_list (map stop_work (rd_intents read)) \<le> max maximumWork (stop_work (hd (rd_intents read)))
    \<and> sum_list (map stop_work (rd_intents read)) \<le> 3 * maximumWork"
proof -
  consider (strict) fs i where "intentSchema env fs = Some i" "rd_intents read = [i]"
    | (loose) fields stopIds where "stopIds \<noteq> []" "read = partial_stops env now stopIds fields"
    using run by (auto simp: readIntent_def read_fields_stops_def split: sql_value.splits option.splits if_splits)
  then show ?thesis
  proof cases
    case strict
    note b = intentSchema_bounds [OF strict(1)]
    have "stop_work i \<le> maximumWork" using b by (simp add: stop_work_def maximumWork_def maximumEntries_def)
    then show ?thesis using strict b by simp
  next
    case (loose fields stopIds)
    define clients where "clients = valid_clients (all_values fields ''client'')"
    define sessions where "sessions = take maximumEntries (valid_texts (sessionIdSchema env) (concat (map items_of (all_values fields ''sessionIds''))))"
    define flights where "flights = take maximumEntries (fill [] (concat (map (entry_dispatches env) (flight_entries fields))))"
    define at_time where "at_time = (case valid_texts (isoDateTime env) (all_values fields ''requestedAt'') of t # _ \<Rightarrow> t | [] \<Rightarrow> now)"
    have sizes: "length clients \<le> 5" "length sessions \<le> maximumEntries" "length flights \<le> maximumEntries"
      by (simp_all add: clients_def valid_clients_def client_kinds sessions_def flights_def)
    have intents: "rd_intents read = map (\<lambda>i. \<lparr>si_stopId = i, si_clients = clients, si_requestedAt = at_time, si_sessionIds = sessions, si_inFlight = flights\<rparr>)
         (take (max 1 (maximumWork div max 1 (length clients * length sessions + length flights))) stopIds)"
      unfolding loose(2) partial_stops_def Let_def clients_def sessions_def flights_def at_time_def by simp
    let ?work = "max 1 (length clients * length sessions + length flights)"
    let ?stops = "take (max 1 (maximumWork div ?work)) stopIds"
    have each: "stop_work i = ?work" if "i \<in> set (rd_intents read)" for i
      using that intents by (auto simp: stop_work_def)
    have total: "sum_list (map stop_work (rd_intents read)) = length ?stops * ?work"
      using each intents by (simp add: sum_list_triv o_def stop_work_def)
    have "length clients * length sessions \<le> 5 * maximumEntries" using sizes by (intro mult_le_mono) auto
    then have "?work \<le> 3 * maximumWork" using sizes by (auto simp: maximumWork_def maximumEntries_def)
    then have "max maximumWork ?work \<le> 3 * maximumWork" by simp
    moreover have "length ?stops * ?work \<le> max maximumWork ?work" by (rule cap_work) simp
    moreover have ne: "rd_intents read \<noteq> []" using intents loose(1) by simp
    moreover have "stop_work (hd (rd_intents read)) = ?work" using each ne by simp
    moreover have "list_all (\<lambda>i. length (si_clients i) \<le> 5 \<and> length (si_sessionIds i) \<le> maximumEntries
        \<and> length (si_inFlight i) \<le> maximumEntries) (rd_intents read)" using intents sizes by (auto simp: list_all_iff)
    ultimately show ?thesis unfolding total by (metis order_trans)
  qed
qed

text \<open>
  The bound is not the work limit itself: a row that names three clients and the largest number
  of sessions is read as one stop of 30000 units, is not reported as overflow, and is finished.
\<close>

lemma uniq_distinct: "distinct xs \<Longrightarrow> uniq xs = xs"
  by (simp add: uniq_def distinct_remdups_id)

definition wide_fields :: record_fields where
  "wide_fields = [(js ''stopId'', [FText (js ''stop-'' @ replicate 36 97)]),
     (js ''client'', [FText (js ''desktop''), FText (js ''web''), FText (js ''tablet'')]),
     (js ''sessionIds'', [FItems (map (\<lambda>i. FText [word_of_nat i]) [0..<maximumEntries])])]"

definition wide_env :: stop_env where
  "wide_env = \<lparr>sha256_bytes = (\<lambda>_. []), isoDateTime = (\<lambda>_. True), zodLength = length, jsonError = id, numberValue = (\<lambda>_. None)\<rparr>"

definition wide_text :: js_string where
  "wide_text = json_stringify (JObj ([(js ''stopId'', JStr (js ''stop-'' @ replicate 36 97))]
     @ map (\<lambda>c. (js ''client'', JStr (js c))) [''desktop'', ''web'', ''tablet'']
     @ [(js ''sessionIds'', JArr (map (\<lambda>i. JStr [word_of_nat i]) [0..<maximumEntries]))]))"

lemma wide_reads: "json_accepts wide_text" "readFields num wide_text = Some (FFields wide_fields)"
proof -
  let ?v = "JObj ([(js ''stopId'', JStr (js ''stop-'' @ replicate 36 97))]
     @ map (\<lambda>c. (js ''client'', JStr (js c))) [''desktop'', ''web'', ''tablet'']
     @ [(js ''sessionIds'', JArr (map (\<lambda>i. JStr [word_of_nat i]) [0..<maximumEntries]))])"
  have "shallow n 0 ?v" for n by (simp add: list_all_iff)
  moreover have "json_fields ?v = FFields wide_fields" by (simp add: wide_fields_def o_def)
  ultimately show "json_accepts wide_text" "readFields num wide_text = Some (FFields wide_fields)"
    unfolding wide_text_def using written_accepted readFields_written by metis+
qed

lemma map_filter_texts: "List.map_filter text_value (map (\<lambda>i. FText (f i)) xs) = map f xs"
  by (induction xs) (simp_all add: List.map_filter_simps)

lemma wide_sessions:
  "valid_texts (sessionIdSchema wide_env) (concat (map items_of (all_values wide_fields ''sessionIds''))) = map (\<lambda>i. [word_of_nat i]) [0..<maximumEntries]"
proof -
  have "concat (map items_of (all_values wide_fields ''sessionIds'')) = map (\<lambda>i. FText [word_of_nat i]) [0..<maximumEntries]"
    by (simp add: all_values_def wide_fields_def)
  moreover have "sessionIdSchema wide_env [c]" for c by (simp add: sessionIdSchema_def zod_text_def wide_env_def)
  moreover have "distinct (map (\<lambda>i. [word_of_nat i :: js_char]) [0..<maximumEntries])"
  proof -
    have "i = j" if "i < maximumEntries" "j < maximumEntries" "(word_of_nat i :: js_char) = word_of_nat j" for i j
    proof -
      have "i < 65536" "j < 65536" using that by (simp_all add: maximumEntries_def)
      then show ?thesis using that(3) unat_js_char by metis
    qed
    then show ?thesis by (auto simp: distinct_map inj_on_def)
  qed
  ultimately show ?thesis by (simp add: valid_texts_def map_filter_texts uniq_distinct)
qed

lemma row_can_exceed_work_limit:
  "\<exists>read. readIntent wide_env now key (SqlText wide_text) = Inr read \<and> \<not> rd_overflow read
     \<and> length (rd_intents read) = 1 \<and> sum_list (map stop_work (rd_intents read)) = 3 * maximumEntries \<and> maximumWork < 3 * maximumEntries"
proof -
  have stops: "named_stops key wide_fields = [js ''stop-'' @ replicate 36 97]"
    by (simp add: named_stops_def all_values_def wide_fields_def valid_texts_def List.map_filter_simps stopIdSchema_def
      uniq_distinct Let_def) (simp add: js_def list_all_iff)
  have flights: "flight_entries wide_fields = []"
    by (simp add: flight_entries_def all_values_def wide_fields_def List.map_filter_simps)
  have clients: "valid_clients (all_values wide_fields ''client'') = [Desktop, Web, Tablet]"
    by (simp add: valid_clients_def all_values_def wide_fields_def client_names_def List.map_filter_simps uniq_distinct)
  have "any_repeated wide_fields" by (simp add: any_repeated_def repeated_def wide_fields_def)
  then have "readIntent wide_env now key (SqlText wide_text) = Inr (partial_stops wide_env now [js ''stop-'' @ replicate 36 97] wide_fields)"
    using readIntent_def [of wide_env now key "SqlText wide_text"]
    by (simp add: read_fields_stops_def stops wide_reads)
  then show ?thesis
    by (simp add: partial_stops_def wide_sessions flights clients stop_work_def Let_def)
       (simp add: maximumWork_def maximumEntries_def)
qed

section \<open>The tables stay in order\<close>

definition store_ok :: "stop_store \<Rightarrow> bool" where
  "store_ok store \<longleftrightarrow> journal_sorted store \<and> distinct (map (\<lambda>l. (lr_row l, lr_identity l)) (ss_rows store))
     \<and> distinct (ss_recovery store) \<and> distinct (map ln_id (ss_lines store))"

lemma store_ok_listing: "store_ok store \<Longrightarrow> listing_ok store"
  by (auto simp: store_ok_def listing_ok_def journal_sorted_def strict_sorted_iff)

lemma journal_sorted_filter: "sorted_wrt (<) (map jr_row xs) \<Longrightarrow> sorted_wrt (<) (map jr_row (filter P xs))"
  by (simp add: sorted_wrt_map sorted_filter_wrt)

datatype stop_op =
    BeginStop stop_request
  | Pass nat js_string "int option"
  | ClearKey sql_value
  | ClearRow int
  | BeginRecovery
  | Stage "read_row list" "js_string list" "stop_line list"
  | FinishRound nat
  | FinishRecovery nat

fun stop_step :: "stop_env \<Rightarrow> stop_op \<Rightarrow> stop_store \<Rightarrow> stop_store" where
  "stop_step env (BeginStop q) s = (case begin_stop env q s of Inl _ \<Rightarrow> s | Inr s' \<Rightarrow> s')"
| "stop_step env (Pass n now after) s = fst (pending env n now after s)"
| "stop_step env (ClearKey k) s = clear_stop k s"
| "stop_step env (ClearRow r) s = clearRow r s"
| "stop_step env BeginRecovery s = beginRecovery s"
| "stop_step env (Stage read acted ls) s = stage read acted ls s"
| "stop_step env (FinishRound n) s = finishRound env n s"
| "stop_step env (FinishRecovery n) s = (case finishRecovery env n s of Inl _ \<Rightarrow> s | Inr (_, s') \<Rightarrow> s')"

lemma begin_keeps: "store_ok s \<Longrightarrow> begin_stop env q s = Inr s' \<Longrightarrow> store_ok s'"
proof -
  assume ok: "store_ok s" and run: "begin_stop env q s = Inr s'"
  have "jr_row r < next_rowid s" if "r \<in> set (ss_intents s)" for r
  proof -
    have "jr_row r \<le> Max (set (map jr_row (ss_intents s)))" using that by (intro Max_ge) auto
    then show ?thesis using that by (auto simp: next_rowid_def)
  qed
  then show ?thesis using ok run
    by (auto simp: begin_stop_def Let_def rbind_Inr_iff store_ok_def journal_sorted_def sorted_wrt_append)
qed

lemma pass_keeps: "store_ok s \<Longrightarrow> store_ok (fst (pending env n now after s))"
proof -
  assume ok: "store_ok s"
  let ?rows = "take n (rows_after after s)"
  obtain s' o' where run: "fold (pass_row env now) ?rows (s, empty_pass) = (s', o')" by fastforce
  have "pass_inv env now s ?rows (s', o')"
    using pass_rows_inv [of env now s "[]" s empty_pass ?rows] run by (simp add: pass_inv_def)
  moreover have "journal_sorted s'"
    using ok pass_rows_sorted [of "\<lambda>a b. jr_row a < jr_row b" "(s, empty_pass)" env now ?rows] run
    by (simp add: store_ok_def journal_sorted_def sorted_wrt_map)
  ultimately show ?thesis using ok run by (simp add: pending_def store_ok_def pass_inv_def Let_def)
qed

lemma delete_keeps: "store_ok s \<Longrightarrow> store_ok (fst (delete_rows P s))"
  by (simp add: delete_rows_def store_ok_def journal_sorted_def journal_sorted_filter Let_def)

lemma stage_keeps: "store_ok s \<Longrightarrow> store_ok (stage read acted ls s)"
proof -
  assume ok: "store_ok s"
  have "store_ok (insert_listed r z)" if "store_ok z" for r z
    using that by (auto simp: insert_listed_def store_ok_def journal_sorted_def listed_def list_ex_iff)
  moreover have "store_ok (insert_stop i z)" if "store_ok z" for i z
    using that by (auto simp: insert_stop_def store_ok_def journal_sorted_def)
  moreover have "store_ok (insert_line l z)" if "store_ok z" for l z
    using that by (auto simp: insert_line_def store_ok_def journal_sorted_def list_ex_iff)
  ultimately show ?thesis unfolding stage_def using ok
    by (intro fold_invariant [where P = store_ok and Q = "\<lambda>_. True"]) auto
qed

lemma round_keeps: "store_ok s \<Longrightarrow> store_ok (finishRound env n s)"
proof (cases n)
  case 0
  assume "store_ok s"
  moreover have "finish_batches env 0 s = s" by (subst finish_batches.simps) simp
  ultimately show ?thesis using 0 by (simp add: finishRound_def store_ok_def journal_sorted_def)
next
  case (Suc m)
  assume ok: "store_ok s"
  let ?key = "\<lambda>l. (lr_row l, lr_identity l)"
  have "map ?key (concat (map (\<lambda>l. if \<not> due l then [l] else if held env s l then [l\<lparr>lr_cleared := True\<rparr>] else []) xs))
      = map ?key (filter (\<lambda>l. \<not> due l \<or> held env s l) xs)" for xs
    by (induction xs) auto
  then have "distinct (map ?key (ss_rows (round_finished env s)))"
    using ok by (simp add: round_finished_def store_ok_def distinct_map_filter)
  moreover have "finishRound env n s = (round_finished env s)\<lparr>ss_lines := []\<rparr>"
    using finish_batches_eq [OF store_ok_listing [OF ok], of n env] Suc by (simp add: finishRound_def)
  ultimately show ?thesis
    using ok by (simp add: store_ok_def journal_sorted_def round_finished_def journal_sorted_filter)
qed

interpretation stops: machine_invariant "stop_step env" store_ok for env
proof
  fix s op
  assume ok: "store_ok s"
  show "store_ok (stop_step env op s)"
  proof (cases op)
    case (BeginStop q)
    then show ?thesis using ok begin_keeps by (auto split: sum.split)
  next
    case (FinishRecovery n)
    then show ?thesis using ok
      by (auto simp: finishRecovery_def Let_def rbind_Inr_iff store_ok_def journal_sorted_def split: sum.split if_splits)
  next
    case BeginRecovery
    then show ?thesis using ok by (simp add: beginRecovery_def store_ok_def journal_sorted_def)
  qed (use ok pass_keeps delete_keeps stage_keeps round_keeps in \<open>simp_all add: clear_stop_def clearRow_def\<close>)
qed

definition empty_stop_store :: "int list \<Rightarrow> stop_store" where
  "empty_stop_store protected = \<lparr>ss_intents = [], ss_rows = [], ss_lines = [], ss_recovery = [], ss_quarantine = [], ss_protected = protected\<rparr>"

text \<open>
  Under every sequence of operations the tables keep the order the recovery relies on: the
  journal is in strictly rising rowid order, and no listed row, stop or line is there twice.
\<close>

theorem stop_store_invariant: "store_ok (fold (stop_step env) ops (empty_stop_store protected))"
  by (rule stops.inv_run) (simp add: store_ok_def journal_sorted_def empty_stop_store_def)

section \<open>A restart reads back what a stop wrote\<close>

lemma request_shallow: "numberValue env (decimal_int 1) = Some 1 \<Longrightarrow> shallow (numberValue env) 0 (request_json q)"
proof -
  assume one: "numberValue env (decimal_int 1) = Some 1"
  have "shallow num 2 (in_flight_json f)" for num f by (simp add: in_flight_json_def split: option.split)
  then show ?thesis
    using one by (cases "rq_inFlight q") (simp_all add: request_json_def list_all_iff numeral_2_eq_2)
qed

lemma client_names_text: "map_of client_names (js (client_text k)) = Some k"
  by (cases k) (simp_all add: client_names_def client_text_def)

lemma those_map_Some: "(\<And>x. x \<in> set xs \<Longrightarrow> f x = Some (g x)) \<Longrightarrow> those (map f xs) = Some (map g xs)"
  by (induction xs) simp_all

lemma strict_flight_back: "in_flight_ok env f \<Longrightarrow> strict_in_flight env (json_fields (in_flight_json f)) = Some f"
  by (cases f) (auto simp: strict_in_flight_def in_flight_json_def in_flight_ok_def all_values_def one_text_def one_value_def split: option.splits)

lemma request_reads_back:
  assumes ok: "request_ok env q" and fs: "json_fields (request_json q) = FFields fs"
  shows "read_fields_stops env now key fs = Inr \<lparr>rd_intents = [\<lparr>si_stopId = rq_stopId q, si_clients = [rq_client q],
    si_requestedAt = rq_requestedAt q, si_sessionIds = uniq (rq_sessionIds q),
    si_inFlight = (case rq_inFlight q of None \<Rightarrow> [] | Some f \<Rightarrow> f)\<rparr>], rd_partial = None, rd_overflow = False\<rparr>"
proof -
  let ?flights = "case rq_inFlight q of None \<Rightarrow> [] | Some f \<Rightarrow> [(js ''inFlight'', [FItems (map (json_fields \<circ> in_flight_json) f)])]"
  have fs_eq: "fs = [(js ''version'', [FNum 1]), (js ''stopId'', [FText (rq_stopId q)]),
     (js ''client'', [FText (js (client_text (rq_client q)))]), (js ''requestedAt'', [FText (rq_requestedAt q)]),
     (js ''sessionIds'', [FItems (map FText (rq_sessionIds q))])] @ ?flights"
    using fs by (auto simp: request_json_def o_def split: option.splits)
  have flight_fields: "fields_of (json_fields (in_flight_json f)) = Some gs \<Longrightarrow> \<not> repeated gs" for f gs
    by (auto simp: in_flight_json_def repeated_def split: option.splits)
  have "\<not> repeated fs" by (auto simp: repeated_def fs_eq split: option.splits)
  moreover have "\<not> list_ex repeated (flight_entries fs)"
    using flight_fields by (auto simp: flight_entries_def all_values_def list_ex_iff List.map_filter_def fs_eq split: option.splits)
  ultimately have "\<not> any_repeated fs" by (simp add: any_repeated_def)
  have sessions: "strict_list (strict_session env) (FItems (map FText (rq_sessionIds q))) = Some (rq_sessionIds q)"
    using ok by (simp add: strict_list_def request_ok_def o_def list_all_iff strict_session_def those_map_Some [where g = id])
  have flights: "strict_list (strict_in_flight env) (FItems (map (json_fields \<circ> in_flight_json) f)) = Some f" if "rq_inFlight q = Some f" for f
    using ok that strict_flight_back [of env]
    by (simp add: strict_list_def request_ok_def o_def list_all_iff those_map_Some [where g = id])
  have "intentSchema env fs = Some \<lparr>si_stopId = rq_stopId q, si_clients = [rq_client q],
    si_requestedAt = rq_requestedAt q, si_sessionIds = uniq (rq_sessionIds q),
    si_inFlight = (case rq_inFlight q of None \<Rightarrow> [] | Some f \<Rightarrow> f)\<rparr>"
  proof (cases "rq_inFlight q")
    case None
    then show ?thesis
      using ok sessions by (simp add: fs_eq intentSchema_def all_values_def one_text_def one_value_def client_names_text request_ok_def)
  next
    case (Some f)
    then show ?thesis
      using ok sessions flights [OF Some]
      by (simp add: fs_eq intentSchema_def all_values_def one_text_def one_value_def client_names_text request_ok_def del: o_apply)
  qed
  then show ?thesis using \<open>\<not> any_repeated fs\<close> by (simp add: read_fields_stops_def)
qed

text \<open>
  C27. A stop that was cut off is found again: once the intent is written, a restart accepts the
  text of its row as JSON, and the scanner of repeated keys and the strict schema read from it
  exactly that stop, whole: its id, client and time, its sessions, each once, and every dispatch
  it caught in flight. Of the JSON the platform reads, only that the numeral 1 is one is assumed.
\<close>

theorem restart_reads_the_stop:
  assumes run: "begin_stop env q store = Inr store'" and one: "numberValue env (decimal_int 1) = Some 1"
  shows "\<exists>row. ss_intents store' = ss_intents store @ [row]
    \<and> readIntent env now (jr_key row) (jr_record row) = Inr \<lparr>rd_intents = [\<lparr>si_stopId = rq_stopId q, si_clients = [rq_client q],
        si_requestedAt = rq_requestedAt q, si_sessionIds = uniq (rq_sessionIds q),
        si_inFlight = (case rq_inFlight q of None \<Rightarrow> [] | Some f \<Rightarrow> f)\<rparr>], rd_partial = None, rd_overflow = False\<rparr>"
proof -
  have ok: "request_ok env q" using run by (simp add: begin_stop_def result_simps Let_def)
  obtain fs where fs: "json_fields (request_json q) = FFields fs" by (simp add: request_json_def)
  have written: "json_accepts (json_stringify (request_json q))"
    "readFields (numberValue env) (json_stringify (request_json q)) = Some (json_fields (request_json q))"
    using written_accepted readFields_written request_shallow [OF one] by blast+
  show ?thesis
    using run request_reads_back [OF ok fs] fs
    by (auto simp: begin_stop_def result_simps Let_def readIntent_def written)
qed

section \<open>Samples\<close>

definition sample_request :: stop_request where
  "sample_request = \<lparr>rq_stopId = js ''stop-'' @ replicate 36 97, rq_client = Web, rq_requestedAt = [116],
     rq_sessionIds = [[65], [66]], rq_inFlight = Some [\<lparr>if_sessionId = [65], if_thread = None\<rparr>]\<rparr>"

definition sample_stop_env :: stop_env where
  "sample_stop_env = \<lparr>sha256_bytes = map (\<lambda>b. char_of (unat b)), isoDateTime = (\<lambda>_. True), zodLength = length,
     jsonError = id, numberValue = (\<lambda>s. if s \<noteq> [] \<and> list_all digit s then Some (int (digits_value s)) else None)\<rparr>"

definition sample_stop_store :: stop_store where
  "sample_stop_store = \<lparr>ss_intents = [\<lparr>jr_row = 1, jr_key = SqlNull, jr_record = SqlNull\<rparr>, \<lparr>jr_row = 2, jr_key = SqlInt 1, jr_record = SqlNull\<rparr>],
     ss_rows = [], ss_lines = [], ss_recovery = [], ss_quarantine = [], ss_protected = []\<rparr>"

lemma sample_store_ok: "store_ok sample_stop_store"
  by (simp add: store_ok_def journal_sorted_def sample_stop_store_def)

theorem recovery_ends_when_all_read_witness:
  "finishRecovery sample_stop_env 1 sample_stop_store = Inr (False, sample_stop_store)"
  using recovery_ends_when_all_read [of sample_stop_store 1 sample_stop_env] sample_store_ok
  by (simp add: store_ok_def unlisted_def listed_def sample_stop_store_def)

theorem round_clears_what_it_finished_witness:
  "finishRound sample_stop_env 1 sample_stop_store = (round_finished sample_stop_env sample_stop_store)\<lparr>ss_lines := []\<rparr>"
  using round_clears_what_it_finished [of sample_stop_store 1 sample_stop_env] store_ok_listing [OF sample_store_ok] by simp

theorem pass_loses_no_stop_witness:
  "\<exists>store' out. pending sample_stop_env 1 [116] None sample_stop_store = (store', out, Some 1)
     \<and> accounted sample_stop_env [116] store' out \<lparr>jr_row = 1, jr_key = SqlNull, jr_record = SqlNull\<rparr>"
proof -
  obtain store' out next_row where run: "pending sample_stop_env 1 [116] None sample_stop_store = (store', out, next_row)"
    by (metis prod_cases3)
  have "journal_sorted sample_stop_store" using sample_store_ok by (simp add: store_ok_def)
  from pass_loses_no_stop [OF this run] show ?thesis
    using run by (simp add: rows_after_def unlisted_def listed_def sample_stop_store_def)
qed

lemma js_char_less: "unat (c :: js_char) < 65536"
proof -
  have "unat c < 2 ^ LENGTH(16)" by (rule unsigned_less)
  then show ?thesis by simp
qed

lemma length_json_string: "length (json_string s) \<le> 2 + 6 * length s"
proof -
  have unit: "length (json_unit c) \<le> 6" for c by (simp add: json_unit_def unicode_escape_def Let_def)
  have "length (json_units s) \<le> 6 * length s"
  proof (induction s rule: json_units.induct)
    case (2 c)
    then show ?case using unit [of c] by simp
  next
    case (3 c d s)
    then show ?case using unit [of c] by auto
  qed simp
  then show ?thesis by (simp add: json_string_def)
qed

lemma sample_request_begins: "\<not> isl (begin_stop sample_stop_env sample_request sample_stop_store)"
proof -
  have "request_ok sample_stop_env sample_request"
    by (simp add: request_ok_def sample_request_def stopIdSchema_def in_flight_ok_def sessionIdSchema_def zod_text_def
      sample_stop_env_def maximumEntries_def) (simp add: js_def list_all_iff)
  moreover have "length (utf8 s) \<le> 3 * length s" for s
  proof (induction s rule: utf8.induct)
    case (2 c)
    then show ?case using js_char_less [of c] by (auto simp: utf8_point_def)
  next
    case (3 c d s)
    then show ?case using js_char_less [of c] by (auto simp: utf8_point_def)
  qed simp
  moreover have "3 * length (json_stringify (request_json sample_request)) \<le> maximumEmergencyStopIntentBytes"
  proof -
    have len: "length (js s) = length s" for s by (simp add: js_def)
    note bound = length_json_string [of "js ''version''"] length_json_string [of "js ''stopId''"] length_json_string [of "js ''client''"]
      length_json_string [of "js ''requestedAt''"] length_json_string [of "js ''sessionIds''"] length_json_string [of "js ''inFlight''"]
      length_json_string [of "js ''web''"] length_json_string [of "js ''sessionId''"] length_json_string [of "[65]"] length_json_string [of "[66]"]
      length_json_string [of "[116]"] length_json_string [of "js ''stop-'' @ replicate 36 97"]
    show ?thesis
      using bound by (simp add: request_json_def sample_request_def in_flight_json_def client_text_def len decimal_int_def decimal_nat.simps
        maximumEmergencyStopIntentBytes_def)
  qed
  ultimately have "request_ok sample_stop_env sample_request"
    "\<not> maximumEmergencyStopIntentBytes < length (utf8 (json_stringify (request_json sample_request)))"
    by (auto simp: not_less intro: order_trans)
  then show ?thesis by (simp add: begin_stop_def throw_if_def Let_def sample_stop_store_def)
qed

theorem restart_reads_the_stop_witness:
  "\<exists>store' row read. begin_stop sample_stop_env sample_request sample_stop_store = Inr store' \<and> row \<in> set (ss_intents store')
     \<and> readIntent sample_stop_env [116] (jr_key row) (jr_record row) = Inr read \<and> map si_sessionIds (rd_intents read) = [[[65], [66]]]"
proof -
  obtain store' where run: "begin_stop sample_stop_env sample_request sample_stop_store = Inr store'"
    using sample_request_begins by (cases "begin_stop sample_stop_env sample_request sample_stop_store") auto
  have "numberValue sample_stop_env (decimal_int 1) = Some 1"
    by (simp add: sample_stop_env_def decimal_int_def decimal_nat.simps digit_def digits_value_def)
  from restart_reads_the_stop [OF run this, of "[116]"] show ?thesis
    using run by (auto simp: sample_request_def uniq_distinct)
qed

theorem row_work_is_bounded_witness:
  "\<exists>read. readIntent wide_env [116] SqlNull (SqlText wide_text) = Inr read \<and> sum_list (map stop_work (rd_intents read)) \<le> 3 * maximumWork"
proof -
  obtain read where run: "readIntent wide_env [116] SqlNull (SqlText wide_text) = Inr read"
    using row_can_exceed_work_limit [of "[116]" SqlNull] by blast
  then show ?thesis using row_work_is_bounded [OF run] by blast
qed

end
