(* ===== verification/Rpc_Outbound.thy ===== *)
theory Rpc_Outbound
  imports Domovoi_Prelude
begin

text \<open>
  Backpressure on what the daemon writes to its clients (apps/daemon/src/rpc-outbound.ts) and the
  writer in front of it (apps/daemon/src/rpc-writer.ts). A response that would fill the client's
  buffer closes the client; a workspace notification that would fill it is dropped, and one
  marker with one timer promises the client a fresh snapshot once its buffer has drained; after
  64 polls the client is closed instead.

  Clients are numbered. What the WebSocket package does to a client's buffer and state when it is
  given a frame or told to close is the argument \<open>ws\<close>; the network's own changes are steps.
  Timers that are scheduled and neither fired nor cancelled are a list, and firing one is a step.
  The resync callback, which the server answers with a snapshot after it has flushed the deltas
  it still held, is the list of notifications it makes on the way and its answer.
\<close>

section \<open>Clients, timers and the wire\<close>

definition rpcWebSocketHighWaterBytes :: int where
  "rpcWebSocketHighWaterBytes = 1024 * 1024"

definition rpcWebSocketLowWaterBytes :: int where
  "rpcWebSocketLowWaterBytes = 256 * 1024"

definition rpcWebSocketBackpressurePollMilliseconds :: int where
  "rpcWebSocketBackpressurePollMilliseconds = 16"

definition maximumRpcWebSocketBackpressurePolls :: int where
  "maximumRpcWebSocketBackpressurePolls = 64"

definition retryableSlowClientCloseCode :: nat where
  "retryableSlowClientCloseCode = 1013"

definition retryableSlowClientCloseReason :: string where
  "retryableSlowClientCloseReason = ''client too slow; retry''"

type_synonym sock = nat

record peer =
  readyState :: nat
  bufferedAmount :: nat

definition openSocketState :: nat where
  "openSocketState = 1"

text \<open>The WebSocket package: a client after a frame of so many bytes, and after a close.\<close>

record ws_package =
  on_send :: "nat \<Rightarrow> peer \<Rightarrow> peer"
  on_close :: "peer \<Rightarrow> peer"

text \<open>
  What was written, in order. A terminal notification is written by the same call as any other
  frame; its own constructor only records which branch wrote it.
\<close>

datatype wire_event = Sent sock js_string | SentTerminal sock js_string | Closed sock nat string

datatype resync = Resync (calls: "(sock \<times> string \<times> js_string \<times> resync) list") (answer: "js_string option")

record pending_resync =
  pr_message :: resync
  pr_timer :: nat
  pr_pollsRemaining :: int

record outbound =
  highWaterBytes :: int
  lowWaterBytes :: int
  pollMilliseconds :: int
  maximumPolls :: int
  pendingResyncs :: "(sock, pending_resync) jsmap"
  peers :: "sock \<Rightarrow> peer"
  timers :: "(nat \<times> sock) list"
  next_timer :: nat
  wire :: "wire_event list"

record outbound_options =
  opt_highWaterBytes :: "int option"
  opt_lowWaterBytes :: "int option"
  opt_pollMilliseconds :: "int option"
  opt_maximumPolls :: "int option"

datatype outbound_error = InvalidBackpressureBounds | NotAResponseFrame | NotANotificationFrame

definition coalescibleWorkspaceNotifications :: "string list" where
  "coalescibleWorkspaceNotifications = [''workspace.changed'', ''workspace.delta'']"

definition terminalNotifications :: "string list" where
  "terminalNotifications = [''terminal.output'', ''terminal.closed'', ''terminal.ownership'', ''terminal.resized'']"

definition default_to :: "'a \<Rightarrow> 'a option \<Rightarrow> 'a" where
  "default_to d x = (case x of None \<Rightarrow> d | Some v \<Rightarrow> v)"

definition new_outbound :: "outbound_options \<Rightarrow> (sock \<Rightarrow> peer) \<Rightarrow> outbound_error + outbound" where
  "new_outbound opts clients =
     (let high = default_to rpcWebSocketHighWaterBytes (opt_highWaterBytes opts);
          low = default_to rpcWebSocketLowWaterBytes (opt_lowWaterBytes opts);
          poll = default_to rpcWebSocketBackpressurePollMilliseconds (opt_pollMilliseconds opts);
          polls = default_to maximumRpcWebSocketBackpressurePolls (opt_maximumPolls opts)
      in rbind (throw_if (low < 0 \<or> high \<le> 0 \<or> low \<ge> high \<or> polls \<le> 0) InvalidBackpressureBounds)
           (\<lambda>_. Inr \<lparr>highWaterBytes = high, lowWaterBytes = low, pollMilliseconds = poll, maximumPolls = polls,
                     pendingResyncs = [], peers = clients, timers = [], next_timer = 0, wire = []\<rparr>))"

definition retainedClientCount :: "outbound \<Rightarrow> nat" where
  "retainedClientCount st = length (pendingResyncs st)"

text \<open>The calls on the socket and on the timers.\<close>

definition socket_send :: "ws_package \<Rightarrow> (sock \<Rightarrow> js_string \<Rightarrow> wire_event) \<Rightarrow> sock \<Rightarrow> js_string \<Rightarrow> outbound \<Rightarrow> outbound" where
  "socket_send w ev s msg st =
     st\<lparr>peers := (peers st)(s := on_send w (length (utf8 msg)) (peers st s)), wire := wire st @ [ev s msg]\<rparr>"

definition socket_close :: "ws_package \<Rightarrow> sock \<Rightarrow> outbound \<Rightarrow> outbound" where
  "socket_close w s st =
     st\<lparr>peers := (peers st)(s := on_close w (peers st s)),
        wire := wire st @ [Closed s retryableSlowClientCloseCode retryableSlowClientCloseReason]\<rparr>"

definition schedule :: "sock \<Rightarrow> outbound \<Rightarrow> nat \<times> outbound" where
  "schedule s st = (next_timer st, st\<lparr>timers := timers st @ [(next_timer st, s)], next_timer := next_timer st + 1\<rparr>)"

definition cancel :: "nat \<Rightarrow> outbound \<Rightarrow> outbound" where
  "cancel t st = st\<lparr>timers := filter (\<lambda>x. fst x \<noteq> t) (timers st)\<rparr>"

section \<open>The operations\<close>

definition is_open :: "outbound \<Rightarrow> sock \<Rightarrow> bool" where
  "is_open st s \<longleftrightarrow> readyState (peers st s) = openSocketState"

definition wouldReachHighWater :: "sock \<Rightarrow> js_string \<Rightarrow> outbound \<Rightarrow> bool" where
  "wouldReachHighWater s msg st \<longleftrightarrow>
     int (bufferedAmount (peers st s)) + int (length (utf8 msg)) \<ge> highWaterBytes st"

definition forget :: "sock \<Rightarrow> outbound \<Rightarrow> outbound" where
  "forget s st =
     (let cancelled = (case map_of (pendingResyncs st) s of None \<Rightarrow> st | Some p \<Rightarrow> cancel (pr_timer p) st)
      in cancelled\<lparr>pendingResyncs := jm_delete s (pendingResyncs cancelled)\<rparr>)"

definition dispose :: "outbound \<Rightarrow> outbound" where
  "dispose st = fold forget (map fst (pendingResyncs st)) st"

definition closeSlowClient :: "ws_package \<Rightarrow> sock \<Rightarrow> outbound \<Rightarrow> outbound" where
  "closeSlowClient w s st = socket_close w s (forget s st)"

definition send :: "ws_package \<Rightarrow> sock \<Rightarrow> js_string \<Rightarrow> outbound \<Rightarrow> bool \<times> outbound" where
  "send w s msg st =
     (if \<not> is_open st s then (False, forget s st)
      else if wouldReachHighWater s msg st then (False, closeSlowClient w s st)
      else (True, socket_send w Sent s msg st))"

definition retainResync :: "sock \<Rightarrow> resync \<Rightarrow> outbound \<Rightarrow> outbound" where
  "retainResync s message st =
     (case map_of (pendingResyncs st) s of
        Some existing \<Rightarrow> st\<lparr>pendingResyncs := jm_set s (existing\<lparr>pr_message := message\<rparr>) (pendingResyncs st)\<rparr>
      | None \<Rightarrow>
          let (timer, st') = schedule s st
          in st'\<lparr>pendingResyncs := jm_set s \<lparr>pr_message = message, pr_timer = timer,
                                            pr_pollsRemaining = maximumPolls st'\<rparr> (pendingResyncs st')\<rparr>)"

definition notify :: "ws_package \<Rightarrow> sock \<Rightarrow> string \<Rightarrow> js_string \<Rightarrow> resync \<Rightarrow> outbound \<Rightarrow> bool \<times> outbound" where
  "notify w s meth msg resyncMessage st =
     (if meth \<in> set terminalNotifications
      then if \<not> is_open st s then (False, st) else (True, socket_send w SentTerminal s msg st)
      else if meth \<notin> set coalescibleWorkspaceNotifications then send w s msg st
      else if map_of (pendingResyncs st) s \<noteq> None \<or> wouldReachHighWater s msg st
      then (False, retainResync s resyncMessage st)
      else send w s msg st)"

text \<open>Calling the resync callback: the notifications it makes on the way, then its answer.\<close>

definition notify_call :: "ws_package \<Rightarrow> sock \<times> string \<times> js_string \<times> resync \<Rightarrow> outbound \<Rightarrow> outbound" where
  "notify_call w c st = (case c of (s, meth, msg, r) \<Rightarrow> snd (notify w s meth msg r st))"

definition run_message :: "ws_package \<Rightarrow> resync \<Rightarrow> outbound \<Rightarrow> js_string option \<times> outbound" where
  "run_message w r st = (answer r, fold (notify_call w) (calls r) st)"

definition checkResync :: "ws_package \<Rightarrow> sock \<Rightarrow> outbound \<Rightarrow> outbound" where
  "checkResync w s st =
     (case map_of (pendingResyncs st) s of
        None \<Rightarrow> st
      | Some pending \<Rightarrow>
          if \<not> is_open st s then st\<lparr>pendingResyncs := jm_delete s (pendingResyncs st)\<rparr>
          else if int (bufferedAmount (peers st s)) \<le> lowWaterBytes st then
            let (message, st') = run_message w (pr_message pending) (st\<lparr>pendingResyncs := jm_delete s (pendingResyncs st)\<rparr>)
            in (case message of
                  None \<Rightarrow> closeSlowClient w s st'
                | Some msg \<Rightarrow> snd (send w s msg st'))
          else if pr_pollsRemaining pending \<le> 1 then closeSlowClient w s st
          else
            let (timer, st') = schedule s st
            in st'\<lparr>pendingResyncs := jm_set s (pending\<lparr>pr_pollsRemaining := pr_pollsRemaining pending - 1,
                                                        pr_timer := timer\<rparr>) (pendingResyncs st')\<rparr>)"

definition fire :: "ws_package \<Rightarrow> nat \<Rightarrow> outbound \<Rightarrow> outbound" where
  "fire w t st =
     (case map_of (timers st) t of
        None \<Rightarrow> st
      | Some s \<Rightarrow> checkResync w s (cancel t st))"

section \<open>The writer\<close>

text \<open>
  A frame is issued when \<open>notificationMessage\<close>, or \<open>responseMessage\<close> or \<open>errorResponseMessage\<close>,
  built it and put it into its set of issued frames.
\<close>

datatype issuer = NotificationFrames | ResponseFrames

record frame =
  frame_method :: string
  frame_text :: js_string
  frame_issued :: "issuer option"

definition respond :: "ws_package \<Rightarrow> sock \<Rightarrow> frame \<Rightarrow> outbound \<Rightarrow> outbound_error + bool \<times> outbound" where
  "respond w s frame st =
     (if frame_issued frame \<noteq> Some ResponseFrames then Inl NotAResponseFrame else Inr (send w s (frame_text frame) st))"

definition writer_resync :: "(sock \<times> string \<times> js_string \<times> resync) list \<Rightarrow> frame option \<Rightarrow> resync" where
  "writer_resync cs nxt =
     Resync cs (case nxt of Some f \<Rightarrow> (if frame_issued f = Some NotificationFrames then Some (frame_text f) else None) | None \<Rightarrow> None)"

definition writer_notify ::
  "ws_package \<Rightarrow> sock \<Rightarrow> frame \<Rightarrow> (sock \<times> string \<times> js_string \<times> resync) list \<Rightarrow> frame option \<Rightarrow> outbound
     \<Rightarrow> outbound_error + bool \<times> outbound" where
  "writer_notify w s frame cs nxt st =
     (if frame_issued frame \<noteq> Some NotificationFrames then Inl NotANotificationFrame
      else Inr (notify w s (frame_method frame) (frame_text frame) (writer_resync cs nxt) st))"

section \<open>Runs\<close>

text \<open>
  The calls the server makes, a timer that fires, and the network: a client's buffer drains by
  some bytes, or its connection moves on to a later state.
\<close>

datatype outbound_op =
    Send sock js_string
  | Notify sock string js_string resync
  | Forget sock
  | Dispose
  | Fire nat
  | Drain sock nat
  | Ready sock nat

fun outbound_step :: "ws_package \<Rightarrow> outbound_op \<Rightarrow> outbound \<Rightarrow> outbound" where
  "outbound_step w (Send s t) st = snd (send w s t st)"
| "outbound_step w (Notify s meth t r) st = snd (notify w s meth t r st)"
| "outbound_step w (Forget s) st = forget s st"
| "outbound_step w Dispose st = dispose st"
| "outbound_step w (Fire t) st = fire w t st"
| "outbound_step w (Drain s n) st =
     st\<lparr>peers := (peers st)(s := (peers st s)\<lparr>bufferedAmount := bufferedAmount (peers st s) - n\<rparr>)\<rparr>"
| "outbound_step w (Ready s r) st =
     st\<lparr>peers := (peers st)(s := (peers st s)\<lparr>readyState := max r (readyState (peers st s))\<rparr>)\<rparr>"

definition outbound_run :: "ws_package \<Rightarrow> outbound_op list \<Rightarrow> outbound \<Rightarrow> outbound" where
  "outbound_run w ops st = fold (outbound_step w) ops st"

section \<open>One marker and one timer per client\<close>

definition outbound_inv :: "outbound \<Rightarrow> bool" where
  "outbound_inv st \<longleftrightarrow>
     jm_ok (pendingResyncs st) \<and> distinct (map fst (timers st)) \<and> (\<forall>t \<in> set (timers st). fst t < next_timer st)
     \<and> (\<forall>s. filter (\<lambda>t. snd t = s) (timers st)
            = (case map_of (pendingResyncs st) s of None \<Rightarrow> [] | Some p \<Rightarrow> [(pr_timer p, s)]))
     \<and> (\<forall>s p. map_of (pendingResyncs st) s = Some p \<longrightarrow> 1 \<le> pr_pollsRemaining p \<and> pr_pollsRemaining p \<le> maximumPolls st)
     \<and> 1 \<le> maximumPolls st \<and> 0 \<le> lowWaterBytes st \<and> lowWaterBytes st < highWaterBytes st"

text \<open>Every operation leaves the bounds alone.\<close>

definition same_bounds :: "outbound \<Rightarrow> outbound \<Rightarrow> bool" where
  "same_bounds st st' \<longleftrightarrow> highWaterBytes st' = highWaterBytes st \<and> lowWaterBytes st' = lowWaterBytes st
     \<and> maximumPolls st' = maximumPolls st"

lemma inv_upd_peers [simp]: "outbound_inv (st\<lparr>peers := ps, wire := es\<rparr>) = outbound_inv st"
  "outbound_inv (st\<lparr>peers := ps\<rparr>) = outbound_inv st"
  by (simp_all add: outbound_inv_def)

lemma inv_socket [simp]:
  "outbound_inv (socket_send w ev s t st) = outbound_inv st" "outbound_inv (socket_close w s st) = outbound_inv st"
  by (simp_all add: socket_send_def socket_close_def)

lemma inv_marker_timer:
  assumes "outbound_inv st" "map_of (pendingResyncs st) s = Some p"
  shows "(pr_timer p, s) \<in> set (timers st)"
proof -
  from assms have "filter (\<lambda>t. snd t = s) (timers st) = [(pr_timer p, s)]" by (auto simp: outbound_inv_def)
  then have "(pr_timer p, s) \<in> set (filter (\<lambda>t. snd t = s) (timers st))" by simp
  then show ?thesis by simp
qed

lemma inv_timer_marker:
  assumes "outbound_inv st" "map_of (timers st) t = Some s"
  shows "\<exists>p. map_of (pendingResyncs st) s = Some p \<and> pr_timer p = t"
proof -
  from assms(2) have "(t, s) \<in> set (filter (\<lambda>t. snd t = s) (timers st))" by (auto dest: map_of_SomeD)
  moreover from assms(1) have "filter (\<lambda>t. snd t = s) (timers st)
      = (case map_of (pendingResyncs st) s of None \<Rightarrow> [] | Some p \<Rightarrow> [(pr_timer p, s)])"
    by (simp add: outbound_inv_def)
  ultimately show ?thesis by (auto split: option.splits)
qed

lemma timer_of_other:
  assumes "outbound_inv st" "map_of (pendingResyncs st) s = Some p" "map_of (pendingResyncs st) s' = Some p'" "s' \<noteq> s"
  shows "pr_timer p' \<noteq> pr_timer p"
  using inv_marker_timer [OF assms(1,2)] inv_marker_timer [OF assms(1,3)] assms(1,4)
  by (auto simp: outbound_inv_def dest: eq_key_imp_eq_value)

lemma filter_swap: "filter P (filter Q xs) = filter Q (filter P xs)"
  by (simp add: conj_commute)

lemma distinct_ids_filter: "distinct (map fst xs) \<Longrightarrow> distinct (map fst (filter P xs))"
  by (rule distinct_map_filter)

lemma timers_without:
  assumes "outbound_inv st" "map_of (pendingResyncs st) s = Some p"
  shows "filter (\<lambda>t. snd t = s') (filter (\<lambda>x. fst x \<noteq> pr_timer p) (timers st))
    = (if s' = s then [] else case map_of (pendingResyncs st) s' of None \<Rightarrow> [] | Some p' \<Rightarrow> [(pr_timer p', s')])"
proof -
  from assms(1) have "filter (\<lambda>t. snd t = s') (timers st)
      = (case map_of (pendingResyncs st) s' of None \<Rightarrow> [] | Some p' \<Rightarrow> [(pr_timer p', s')])"
    by (simp add: outbound_inv_def)
  moreover have "filter (\<lambda>t. snd t = s') (filter (\<lambda>x. fst x \<noteq> pr_timer p) (timers st))
      = filter (\<lambda>x. fst x \<noteq> pr_timer p) (filter (\<lambda>t. snd t = s') (timers st))" by (rule filter_swap)
  ultimately show ?thesis
    using assms timer_of_other [OF assms] by (auto split: option.splits)
qed

lemma forget_cancelled:
  "map_of (pendingResyncs st) s = Some p \<Longrightarrow>
     forget s st = st\<lparr>timers := filter (\<lambda>x. fst x \<noteq> pr_timer p) (timers st), pendingResyncs := jm_delete s (pendingResyncs st)\<rparr>"
  by (simp add: forget_def cancel_def)

lemma jm_delete_absent: "map_of m k = None \<Longrightarrow> jm_delete k m = m"
  by (induction m) (auto simp: jm_delete_def split: if_splits)

lemma forget_absent: "map_of (pendingResyncs st) s = None \<Longrightarrow> forget s st = st"
  by (simp add: forget_def jm_delete_absent)

lemma forget_frame [simp]:
  "peers (forget s st) = peers st" "wire (forget s st) = wire st" "same_bounds st (forget s st)"
  "pendingResyncs (forget s st) = jm_delete s (pendingResyncs st)"
  by (simp_all add: forget_def cancel_def same_bounds_def split: option.splits)

lemma inv_forget [simp]: "outbound_inv st \<Longrightarrow> outbound_inv (forget s st)"
proof (cases "map_of (pendingResyncs st) s")
  case (Some p)
  assume inv: "outbound_inv st"
  note w = timers_without [OF inv Some]
  show ?thesis
    unfolding forget_cancelled [OF Some] outbound_inv_def
    using inv w by (auto simp: outbound_inv_def jsmap_simps distinct_ids_filter simp del: filter_filter split: if_splits)
qed (simp add: forget_absent)

lemma inv_retain [simp]: "outbound_inv st \<Longrightarrow> outbound_inv (retainResync s r st)"
  by (cases "map_of (pendingResyncs st) s")
    (auto simp: retainResync_def schedule_def outbound_inv_def jsmap_simps)

lemma inv_send [simp]: "outbound_inv st \<Longrightarrow> outbound_inv (snd (send w s t st))"
  by (simp add: send_def closeSlowClient_def)

lemma inv_notify [simp]: "outbound_inv st \<Longrightarrow> outbound_inv (snd (notify w s meth t r st))"
  by (simp add: notify_def)

lemma inv_notify_call [simp]: "outbound_inv st \<Longrightarrow> outbound_inv (notify_call w c st)"
  by (simp add: notify_call_def split: prod.splits)

interpretation callback: machine_invariant "notify_call w" outbound_inv for w
  by unfold_locales simp

interpretation disposal: machine_invariant forget outbound_inv
  by unfold_locales simp

text \<open>A timer that fires belongs to a marker, and clears it, renews it or closes the client.\<close>

definition repoll :: "sock \<Rightarrow> pending_resync \<Rightarrow> outbound \<Rightarrow> outbound" where
  "repoll s p st = st\<lparr>timers := filter (\<lambda>x. fst x \<noteq> pr_timer p) (timers st) @ [(next_timer st, s)],
     next_timer := next_timer st + 1,
     pendingResyncs := jm_set s (p\<lparr>pr_pollsRemaining := pr_pollsRemaining p - 1, pr_timer := next_timer st\<rparr>) (pendingResyncs st)\<rparr>"

definition answered :: "ws_package \<Rightarrow> sock \<Rightarrow> resync \<Rightarrow> outbound \<Rightarrow> outbound" where
  "answered w s r st = (let st' = fold (notify_call w) (calls r) (forget s st)
     in case answer r of None \<Rightarrow> closeSlowClient w s st' | Some t \<Rightarrow> snd (send w s t st'))"

lemma fire_cases:
  assumes "outbound_inv st" "map_of (timers st) t = Some s"
  shows "\<exists>p. map_of (pendingResyncs st) s = Some p \<and> pr_timer p = t \<and> fire w t st =
    (if \<not> is_open st s then forget s st
     else if int (bufferedAmount (peers st s)) \<le> lowWaterBytes st then answered w s (pr_message p) st
     else if pr_pollsRemaining p \<le> 1 then closeSlowClient w s st
     else repoll s p st)"
proof -
  from inv_timer_marker [OF assms] obtain p where p: "map_of (pendingResyncs st) s = Some p" "pr_timer p = t" by blast
  have "forget s (cancel t st) = forget s st"
    using p by (simp add: forget_def cancel_def)
  then show ?thesis
    using p assms(2)
    by (intro exI [of _ p])
      (simp add: fire_def checkResync_def answered_def run_message_def repoll_def schedule_def closeSlowClient_def
        is_open_def forget_cancelled cancel_def Let_def)
qed

lemma inv_repoll:
  assumes "outbound_inv st" "map_of (pendingResyncs st) s = Some p" "1 < pr_pollsRemaining p"
  shows "outbound_inv (repoll s p st)"
proof -
  from assms(1,2) have "pr_pollsRemaining p - 1 \<le> maximumPolls st" by (fastforce simp: outbound_inv_def)
  then show ?thesis
  using assms(1,3) timers_without [OF assms(1,2)] inv_marker_timer [OF assms(1,2)] assms(2)
  unfolding repoll_def outbound_inv_def
  by (auto simp: jsmap_simps distinct_ids_filter simp del: filter_filter split: if_splits)
qed

lemma inv_answered: "outbound_inv st \<Longrightarrow> outbound_inv (answered w s r st)"
  by (simp add: answered_def closeSlowClient_def callback.inv_run Let_def split: option.splits)

lemma inv_fire: "outbound_inv st \<Longrightarrow> outbound_inv (fire w t st)"
proof (cases "map_of (timers st) t")
  case (Some s)
  assume inv: "outbound_inv st"
  from fire_cases [OF inv Some, of w] obtain p where "map_of (pendingResyncs st) s = Some p"
    "fire w t st = (if \<not> is_open st s then forget s st
     else if int (bufferedAmount (peers st s)) \<le> lowWaterBytes st then answered w s (pr_message p) st
     else if pr_pollsRemaining p \<le> 1 then closeSlowClient w s st
     else repoll s p st)" by blast
  then show ?thesis
    using inv by (simp add: inv_answered inv_repoll closeSlowClient_def)
qed (simp add: fire_def)

interpretation outbound: machine_invariant "outbound_step w" outbound_inv for w
proof
  show "outbound_inv (outbound_step w op st)" if "outbound_inv st" for op st
    using that by (cases op) (simp_all add: inv_fire dispose_def disposal.inv_run)
qed

lemma inv_new: "new_outbound opts clients = Inr st \<Longrightarrow> outbound_inv st"
  by (auto simp: new_outbound_def outbound_inv_def jm_ok_def Let_def result_simps)

section \<open>The buffer of a client\<close>

text \<open>
  What is asked of the WebSocket package: a frame adds its bytes and at most \<open>h\<close> bytes of framing
  to the buffer and leaves the connection open or closed as it was; a close leaves the open state.
\<close>

definition ws_laws :: "nat \<Rightarrow> ws_package \<Rightarrow> bool" where
  "ws_laws h w \<longleftrightarrow> (\<forall>n p. bufferedAmount (on_send w n p) \<le> bufferedAmount p + n + h \<and> readyState (on_send w n p) = readyState p
     \<and> openSocketState < readyState (on_close w p))"

definition event_cost :: "nat \<Rightarrow> sock \<Rightarrow> wire_event \<Rightarrow> nat" where
  "event_cost h s e = (case e of SentTerminal s' m \<Rightarrow> if s' = s then length (utf8 m) + h else 0 | _ \<Rightarrow> 0)"

definition terminal_bytes :: "nat \<Rightarrow> sock \<Rightarrow> wire_event list \<Rightarrow> nat" where
  "terminal_bytes h s es = sum_list (map (event_cost h s) es)"

definition buffer_ok :: "nat \<Rightarrow> outbound \<Rightarrow> bool" where
  "buffer_ok h st \<longleftrightarrow> (\<forall>s. readyState (peers st s) \<le> openSocketState \<longrightarrow>
     int (bufferedAmount (peers st s)) < highWaterBytes st + int h + int (terminal_bytes h s (wire st)))"

lemma terminal_bytes_snoc [simp]: "terminal_bytes h s (es @ [e]) = terminal_bytes h s es + event_cost h s e"
  by (simp add: terminal_bytes_def)

lemma buffer_ok_socket:
  assumes "ws_laws h w" "buffer_ok h st"
  shows "\<not> wouldReachHighWater s t st \<Longrightarrow> buffer_ok h (socket_send w Sent s t st)"
    and "buffer_ok h (socket_send w SentTerminal s t st)"
    and "buffer_ok h (socket_close w s st)"
proof -
  let ?n = "length (utf8 t)"
  have grow: "int (bufferedAmount (on_send w ?n (peers st s))) \<le> int (bufferedAmount (peers st s)) + int ?n + int h"
    "readyState (on_send w ?n (peers st s)) = readyState (peers st s)"
    "openSocketState < readyState (on_close w (peers st s))"
    using assms(1) unfolding ws_laws_def by (simp_all flip: of_nat_add)
  show "buffer_ok h (socket_send w Sent s t st)" if "\<not> wouldReachHighWater s t st"
    using that assms(2) grow by (auto simp: buffer_ok_def socket_send_def wouldReachHighWater_def event_cost_def)
  show "buffer_ok h (socket_send w SentTerminal s t st)"
    using assms(2) grow by (fastforce simp: buffer_ok_def socket_send_def event_cost_def)
  show "buffer_ok h (socket_close w s st)"
    using assms(2) grow by (auto simp: buffer_ok_def socket_close_def event_cost_def)
qed

lemma buffer_ok_cong:
  "peers st' = peers st \<Longrightarrow> wire st' = wire st \<Longrightarrow> highWaterBytes st' = highWaterBytes st \<Longrightarrow> buffer_ok h st' = buffer_ok h st"
  by (simp add: buffer_ok_def)

lemma buffer_ok_forget [simp]: "buffer_ok h (forget s st) = buffer_ok h st"
  using forget_frame by (intro buffer_ok_cong) (simp_all add: same_bounds_def)

lemma buffer_ok_retain [simp]: "buffer_ok h (retainResync s r st) = buffer_ok h st"
  by (intro buffer_ok_cong) (auto simp: retainResync_def schedule_def split: option.splits)

lemma buffer_ok_send: "ws_laws h w \<Longrightarrow> buffer_ok h st \<Longrightarrow> buffer_ok h (snd (send w s t st))"
  by (simp add: send_def closeSlowClient_def buffer_ok_socket)

lemma buffer_ok_notify: "ws_laws h w \<Longrightarrow> buffer_ok h st \<Longrightarrow> buffer_ok h (snd (notify w s meth t r st))"
  by (simp add: notify_def buffer_ok_send buffer_ok_socket)

lemma buffer_ok_calls: "ws_laws h w \<Longrightarrow> buffer_ok h st \<Longrightarrow> buffer_ok h (fold (notify_call w) cs st)"
  by (induction cs arbitrary: st) (simp_all add: notify_call_def buffer_ok_notify split: prod.splits)

lemma buffer_ok_dispose: "buffer_ok h (fold forget ss st) = buffer_ok h st"
  by (induction ss arbitrary: st) simp_all

lemma buffer_ok_fire:
  assumes "outbound_inv st" "ws_laws h w" "buffer_ok h st"
  shows "buffer_ok h (fire w t st)"
proof (cases "map_of (timers st) t")
  case (Some s)
  have "buffer_ok h (answered w s r st)" for r
    using assms by (simp add: answered_def buffer_ok_calls buffer_ok_send buffer_ok_socket closeSlowClient_def Let_def split: option.splits)
  moreover have "buffer_ok h (repoll s p st)" for p
    using assms(3) by (simp add: repoll_def buffer_ok_def)
  ultimately show ?thesis
    using fire_cases [OF assms(1) Some, of w] assms by (auto simp: closeSlowClient_def buffer_ok_socket)
qed (simp add: fire_def assms)

interpretation buffers: machine_invariant "outbound_step w" "\<lambda>st. outbound_inv st \<and> (ws_laws h w \<longrightarrow> buffer_ok h st)" for w h
proof
  fix op st
  assume hyp: "outbound_inv st \<and> (ws_laws h w \<longrightarrow> buffer_ok h st)"
  have "buffer_ok h (outbound_step w op st)" if "ws_laws h w"
    using that hyp
    by (cases op) (auto simp: buffer_ok_send buffer_ok_notify buffer_ok_fire dispose_def buffer_ok_dispose,
      auto simp: buffer_ok_def)
  then show "outbound_inv (outbound_step w op st) \<and> (ws_laws h w \<longrightarrow> buffer_ok h (outbound_step w op st))"
    using hyp outbound.inv_step by blast
qed

section \<open>What a client is owed\<close>

definition slow_close :: "sock \<Rightarrow> wire_event" where
  "slow_close s = Closed s retryableSlowClientCloseCode retryableSlowClientCloseReason"

text \<open>
  From one state to another a client keeps its marker, unless it is closed as slow on the way or
  was not open; and a client that is not closed stays open.
\<close>

definition owed_step :: "sock \<Rightarrow> outbound \<Rightarrow> outbound \<Rightarrow> bool" where
  "owed_step s st st' \<longleftrightarrow> (\<exists>es. wire st' = wire st @ es \<and>
     (slow_close s \<in> set es \<or> (is_open st s \<longrightarrow> is_open st' s)
        \<and> (map_of (pendingResyncs st) s \<noteq> None \<longrightarrow> map_of (pendingResyncs st') s \<noteq> None \<or> \<not> is_open st s)))"

lemma owed_refl: "owed_step s st st"
  by (simp add: owed_step_def)

lemma owed_trans: "owed_step s st1 st2 \<Longrightarrow> owed_step s st2 st3 \<Longrightarrow> owed_step s st1 st3"
  unfolding owed_step_def by fastforce

lemma owed_socket_send: "ws_laws h w \<Longrightarrow> owed_step s st (socket_send w ev s' t st)"
  by (auto simp: owed_step_def socket_send_def is_open_def ws_laws_def)

lemma owed_close: "owed_step s st (closeSlowClient w s' st)"
  by (auto simp: owed_step_def closeSlowClient_def socket_close_def is_open_def slow_close_def jsmap_simps)

lemma owed_forget: "s' \<noteq> s \<or> \<not> is_open st s \<Longrightarrow> owed_step s st (forget s' st)"
  by (auto simp: owed_step_def is_open_def jsmap_simps)

lemma owed_retain: "owed_step s st (retainResync s' r st)"
  by (auto simp: owed_step_def retainResync_def schedule_def is_open_def jsmap_simps split: option.splits)

lemma owed_send: "ws_laws h w \<Longrightarrow> owed_step s st (snd (send w s' t st))"
  by (auto simp: send_def owed_close owed_socket_send intro: owed_forget)

lemma owed_notify: "ws_laws h w \<Longrightarrow> owed_step s st (snd (notify w s' meth t r st))"
  by (auto simp: notify_def owed_refl owed_send owed_socket_send owed_retain)

lemma owed_calls: "ws_laws h w \<Longrightarrow> owed_step s st (fold (notify_call w) cs st)"
proof (induction cs arbitrary: st)
  case (Cons c cs)
  obtain s' meth t r where "c = (s', meth, t, r)" by (cases c)
  then have "owed_step s st (notify_call w c st)"
    using Cons.prems by (simp add: notify_call_def owed_notify)
  then show ?case using Cons by (auto intro: owed_trans)
qed (simp add: owed_refl)

lemma owed_fire_other:
  assumes "outbound_inv st" "ws_laws h w" "map_of (timers st) t = Some s'" "s' \<noteq> s"
  shows "owed_step s st (fire w t st)"
proof -
  from fire_cases [OF assms(1,3), of w] obtain p where p:
    "fire w t st = (if \<not> is_open st s' then forget s' st
     else if int (bufferedAmount (peers st s')) \<le> lowWaterBytes st then answered w s' (pr_message p) st
     else if pr_pollsRemaining p \<le> 1 then closeSlowClient w s' st
     else repoll s' p st)" by blast
  have "owed_step s st (forget s' st)" using assms(4) by (simp add: owed_forget)
  moreover have "owed_step s (forget s' st) (answered w s' (pr_message p) st)"
    using assms(2) by (auto simp: answered_def Let_def split: option.split
      intro: owed_trans [OF owed_calls] owed_close owed_send)
  moreover have "owed_step s st (repoll s' p st)"
    using assms(4) by (auto simp: owed_step_def repoll_def is_open_def jsmap_simps)
  ultimately show ?thesis
    using p by (auto intro: owed_trans owed_close)
qed

text \<open>The client whose own timer fired gets the snapshot its marker promised, if it is not closed.\<close>

definition repaid :: "sock \<Rightarrow> resync \<Rightarrow> wire_event list \<Rightarrow> bool" where
  "repaid s r es \<longleftrightarrow> slow_close s \<in> set es \<or> (\<exists>m es'. answer r = Some m \<and> es = es' @ [Sent s m])"

lemma answered_repaid:
  assumes "ws_laws h w" "is_open st s"
  shows "\<exists>es. wire (answered w s r st) = wire st @ es \<and> repaid s r es"
proof -
  let ?st = "fold (notify_call w) (calls r) (forget s st)"
  from owed_calls [OF assms(1), of s "forget s st" "calls r"] assms(2) obtain es
    where es: "wire ?st = wire st @ es" "slow_close s \<in> set es \<or> is_open ?st s"
    by (auto simp: owed_step_def is_open_def)
  show ?thesis
  proof (cases "answer r")
    case None
    then show ?thesis
      using es by (auto simp: answered_def closeSlowClient_def socket_close_def repaid_def slow_close_def Let_def)
  next
    case (Some m)
    then show ?thesis
      using es by (auto simp: answered_def send_def closeSlowClient_def socket_close_def socket_send_def repaid_def slow_close_def Let_def)
  qed
qed

lemma fire_own_repaid:
  assumes "outbound_inv st" "ws_laws h w" "map_of (timers st) t = Some s" "map_of (pendingResyncs st) s = Some p"
    "is_open st s" "map_of (pendingResyncs (fire w t st)) s = None"
  shows "\<exists>es. wire (fire w t st) = wire st @ es \<and> repaid s (pr_message p) es"
proof -
  have "fire w t st = (if int (bufferedAmount (peers st s)) \<le> lowWaterBytes st then answered w s (pr_message p) st
     else if pr_pollsRemaining p \<le> 1 then closeSlowClient w s st
     else repoll s p st)"
    using fire_cases [OF assms(1,3), of w] assms(4,5) by auto
  moreover have "map_of (pendingResyncs (repoll s p st)) s \<noteq> None" by (simp add: repoll_def jsmap_simps)
  moreover have "\<exists>es. wire (closeSlowClient w s st) = wire st @ es \<and> repaid s (pr_message p) es"
    by (auto simp: closeSlowClient_def socket_close_def repaid_def slow_close_def)
  ultimately show ?thesis
    using answered_repaid [OF assms(2,5)] assms(6) by (auto split: if_splits)
qed

section \<open>Polling a client that does not drain\<close>

text \<open>The pending timer of a client fires so many times in a row.\<close>

fun poll_times :: "ws_package \<Rightarrow> sock \<Rightarrow> nat \<Rightarrow> outbound \<Rightarrow> outbound" where
  "poll_times w s 0 st = st"
| "poll_times w s (Suc n) st =
     poll_times w s n (case map_of (pendingResyncs st) s of None \<Rightarrow> st | Some p \<Rightarrow> fire w (pr_timer p) st)"

lemma marker_timer_lookup:
  "outbound_inv st \<Longrightarrow> map_of (pendingResyncs st) s = Some p \<Longrightarrow> map_of (timers st) (pr_timer p) = Some s"
  using inv_marker_timer by (auto simp: outbound_inv_def intro: map_of_is_SomeI)

lemma fire_undrained:
  assumes "outbound_inv st" "map_of (pendingResyncs st) s = Some p" "is_open st s"
    "lowWaterBytes st < int (bufferedAmount (peers st s))"
  shows "fire w (pr_timer p) st = (if pr_pollsRemaining p \<le> 1 then closeSlowClient w s st else repoll s p st)"
  using fire_cases [OF assms(1) marker_timer_lookup [OF assms(1,2)], of w] assms(2-4) by auto

lemma poll_times_undrained:
  assumes "outbound_inv st" "map_of (pendingResyncs st) s = Some p" "is_open st s"
    "lowWaterBytes st < int (bufferedAmount (peers st s))"
  shows "int n < pr_pollsRemaining p \<Longrightarrow> wire (poll_times w s n st) = wire st
           \<and> map_of (pendingResyncs (poll_times w s n st)) s \<noteq> None"
    and "int n = pr_pollsRemaining p \<Longrightarrow> wire (poll_times w s n st) = wire st @ [slow_close s]
           \<and> map_of (pendingResyncs (poll_times w s n st)) s = None"
  using assms
proof (induction n arbitrary: st p)
  case 0
  { case 1 then show ?case by simp }
  { case 2 then show ?case by (fastforce simp: outbound_inv_def) }
next
  case (Suc n)
  have closes: "wire (closeSlowClient w s st) = wire st @ [slow_close s]"
    "map_of (pendingResyncs (closeSlowClient w s st)) s = None" for st
    by (simp_all add: closeSlowClient_def socket_close_def slow_close_def jsmap_simps)
  have polls: "map_of (pendingResyncs (repoll s p st)) s
      = Some (p\<lparr>pr_pollsRemaining := pr_pollsRemaining p - 1, pr_timer := next_timer st\<rparr>)"
    "is_open (repoll s p st) s = is_open st s" "wire (repoll s p st) = wire st"
    "lowWaterBytes (repoll s p st) = lowWaterBytes st" "peers (repoll s p st) = peers st" for p st
    by (simp_all add: repoll_def is_open_def jsmap_simps)
  { case 1
    then have "1 < pr_pollsRemaining p" by simp
    then show ?case
      using 1 Suc.IH(1) [OF _ inv_repoll polls(1)] by (simp add: fire_undrained polls) }
  { case 2
    show ?case
    proof (cases "n = 0")
      case True
      then show ?thesis using 2 by (simp add: fire_undrained closes)
    next
      case False
      then have "1 < pr_pollsRemaining p" using 2 by simp
      then show ?thesis
        using 2 Suc.IH(2) [OF _ inv_repoll polls(1)] by (simp add: fire_undrained polls)
    qed }
qed

text \<open>
  Among any other operations: how often a client's own timer has fired, and whether each of those
  polls found the buffer above the low-water mark while nothing forgot the client.
\<close>

definition polls_client :: "sock \<Rightarrow> outbound_op \<Rightarrow> outbound \<Rightarrow> bool" where
  "polls_client s op st \<longleftrightarrow> (case op of Fire t \<Rightarrow> map_of (timers st) t = Some s | _ \<Rightarrow> False)"

fun own_polls :: "ws_package \<Rightarrow> sock \<Rightarrow> outbound_op list \<Rightarrow> outbound \<Rightarrow> nat" where
  "own_polls w s [] st = 0"
| "own_polls w s (op # ops) st = of_bool (polls_client s op st) + own_polls w s ops (outbound_step w op st)"

fun undrained :: "ws_package \<Rightarrow> sock \<Rightarrow> outbound_op list \<Rightarrow> outbound \<Rightarrow> bool" where
  "undrained w s [] st \<longleftrightarrow> True"
| "undrained w s (op # ops) st \<longleftrightarrow> op \<noteq> Forget s \<and> op \<noteq> Dispose
     \<and> (polls_client s op st \<longrightarrow> lowWaterBytes st < int (bufferedAmount (peers st s)))
     \<and> undrained w s ops (outbound_step w op st)"

definition disconnects :: "sock \<Rightarrow> outbound_op \<Rightarrow> bool" where
  "disconnects s op \<longleftrightarrow> (case op of Ready s' r \<Rightarrow> s' = s \<and> openSocketState < r | _ \<Rightarrow> False)"

text \<open>
  From one state to another an open client stays open and its marker keeps its polls but for
  \<open>n\<close> of them, unless the client is closed as slow on the way.
\<close>

definition waits :: "sock \<Rightarrow> nat \<Rightarrow> outbound \<Rightarrow> outbound \<Rightarrow> bool" where
  "waits s n st st' \<longleftrightarrow> (\<exists>es. wire st' = wire st @ es \<and>
     (slow_close s \<in> set es \<or> (is_open st s \<longrightarrow> is_open st' s
        \<and> (\<forall>p. map_of (pendingResyncs st) s = Some p \<longrightarrow>
             (\<exists>p'. map_of (pendingResyncs st') s = Some p' \<and> pr_pollsRemaining p' = pr_pollsRemaining p - int n)))))"

lemma waits_refl: "waits s 0 st st"
  by (simp add: waits_def)

lemma waits_trans: "waits s 0 st1 st2 \<Longrightarrow> waits s 0 st2 st3 \<Longrightarrow> waits s 0 st1 st3"
  unfolding waits_def by fastforce

lemma waits_socket_send: "ws_laws h w \<Longrightarrow> waits s 0 st (socket_send w ev s' t st)"
  by (auto simp: waits_def socket_send_def is_open_def ws_laws_def)

lemma waits_close: "waits s n st (closeSlowClient w s st)"
  by (simp add: waits_def closeSlowClient_def socket_close_def slow_close_def)

lemma waits_close_any: "waits s 0 st (closeSlowClient w s' st)"
  by (cases "s' = s")
    (auto simp: waits_close, auto simp: waits_def closeSlowClient_def socket_close_def is_open_def jsmap_simps)

lemma waits_forget: "s' \<noteq> s \<or> \<not> is_open st s \<Longrightarrow> waits s 0 st (forget s' st)"
  by (auto simp: waits_def is_open_def jsmap_simps)

lemma waits_retain: "waits s 0 st (retainResync s' r st)"
  by (auto simp: waits_def retainResync_def schedule_def is_open_def jsmap_simps split: option.splits)

lemma waits_send: "ws_laws h w \<Longrightarrow> waits s 0 st (snd (send w s' t st))"
  by (auto simp: send_def waits_close_any waits_socket_send intro: waits_forget)

lemma waits_notify: "ws_laws h w \<Longrightarrow> waits s 0 st (snd (notify w s' meth t r st))"
  by (auto simp: notify_def waits_refl waits_send waits_socket_send waits_retain)

lemma waits_calls: "ws_laws h w \<Longrightarrow> waits s 0 st (fold (notify_call w) cs st)"
proof (induction cs arbitrary: st)
  case (Cons c cs)
  obtain s' meth t r where "c = (s', meth, t, r)" by (cases c)
  then have "waits s 0 st (notify_call w c st)"
    using Cons.prems by (simp add: notify_call_def waits_notify)
  then show ?case using Cons by (auto intro: waits_trans)
qed (simp add: waits_refl)

lemma waits_answered:
  assumes "ws_laws h w" "s' \<noteq> s"
  shows "waits s 0 st (answered w s' r st)"
proof -
  have "waits s 0 st (fold (notify_call w) (calls r) (forget s' st))"
    using assms by (intro waits_trans [OF waits_forget waits_calls]) auto
  then show ?thesis
    using assms(1) by (auto simp: answered_def Let_def split: option.split intro: waits_trans waits_close_any waits_send)
qed

text \<open>A poll of the client itself costs one of its polls, or closes it; any other firing costs it none.\<close>

lemma waits_fire:
  assumes "outbound_inv st" "ws_laws h w"
    and "polls_client s (Fire t) st \<longrightarrow> lowWaterBytes st < int (bufferedAmount (peers st s))"
  shows "waits s (of_bool (polls_client s (Fire t) st)) st (fire w t st)"
proof (cases "map_of (timers st) t")
  case None
  then show ?thesis by (simp add: fire_def polls_client_def waits_refl)
next
  case (Some s')
  from fire_cases [OF assms(1) Some, of w] obtain p where p: "map_of (pendingResyncs st) s' = Some p"
    "fire w t st = (if \<not> is_open st s' then forget s' st
     else if int (bufferedAmount (peers st s')) \<le> lowWaterBytes st then answered w s' (pr_message p) st
     else if pr_pollsRemaining p \<le> 1 then closeSlowClient w s' st
     else repoll s' p st)" by blast
  show ?thesis
  proof (cases "s' = s")
    case False
    then have "waits s 0 st (repoll s' p st)"
      by (auto simp: waits_def repoll_def is_open_def jsmap_simps)
    then show ?thesis
      using p(2) False Some assms(2) by (simp add: polls_client_def waits_forget waits_answered waits_close_any)
  next
    case True
    then have "waits s 1 st (repoll s p st)" "\<not> is_open st s \<Longrightarrow> waits s 1 st (forget s st)"
      using p(1) by (auto simp: waits_def repoll_def is_open_def jsmap_simps)
    then show ?thesis
      using p(2) True Some assms(3) by (auto simp: polls_client_def waits_close)
  qed
qed

text \<open>Nothing written is taken back.\<close>

definition appends :: "outbound \<Rightarrow> outbound \<Rightarrow> bool" where
  "appends st st' \<longleftrightarrow> (\<exists>es. wire st' = wire st @ es)"

lemma appends_same: "wire st' = wire st \<Longrightarrow> appends st st'"
  by (simp add: appends_def)

lemma appends_trans: "appends st1 st2 \<Longrightarrow> appends st2 st3 \<Longrightarrow> appends st1 st3"
  by (auto simp: appends_def)

lemma appends_send: "appends st (snd (send w s t st))"
  by (simp add: appends_def send_def socket_send_def closeSlowClient_def socket_close_def)

lemma appends_notify: "appends st (snd (notify w s meth t r st))"
  by (auto simp: notify_def appends_send, auto simp: appends_def socket_send_def retainResync_def schedule_def split: option.split)

lemma appends_calls: "appends st (fold (notify_call w) cs st)"
  by (induction cs arbitrary: st)
    (auto simp: notify_call_def appends_same intro: appends_trans appends_notify split: prod.split)

lemma wire_forgets: "wire (fold forget ss st) = wire st"
  by (induction ss arbitrary: st) simp_all

lemma appends_fire: "appends st (fire w t st)"
proof -
  have close: "appends st (closeSlowClient w s st)" for s st
    by (simp add: appends_def closeSlowClient_def socket_close_def)
  have answer: "appends st (case m of None \<Rightarrow> closeSlowClient w s st2 | Some msg \<Rightarrow> snd (send w s msg st2))"
    if "st2 = fold (notify_call w) cs (st\<lparr>pendingResyncs := ps\<rparr>)" for s st st2 m cs ps
  proof -
    have "appends st st2"
      using that appends_trans [OF appends_same appends_calls] by simp
    then show ?thesis
      using close appends_send by (auto split: option.split intro: appends_trans)
  qed
  have check: "appends st (checkResync w s st)" for s st
  proof (cases "map_of (pendingResyncs st) s")
    case None
    then show ?thesis by (simp add: checkResync_def appends_same)
  next
    case (Some p)
    then show ?thesis
      by (simp add: checkResync_def run_message_def schedule_def answer close appends_same)
  qed
  show ?thesis
  proof (cases "map_of (timers st) t")
    case None
    then show ?thesis by (simp add: fire_def appends_same)
  next
    case (Some s)
    then show ?thesis
      using appends_trans [OF _ check, of st "cancel t st" s] by (simp add: fire_def cancel_def appends_same)
  qed
qed

lemma run_appends: "appends st (outbound_run w ops st)"
proof (induction ops arbitrary: st)
  case (Cons op ops)
  have "appends st (outbound_step w op st)"
    by (cases op) (simp_all add: appends_send appends_notify appends_fire appends_same dispose_def wire_forgets)
  then show ?case
    using Cons [of "outbound_step w op st"] by (auto simp: outbound_run_def intro: appends_trans)
qed (simp add: outbound_run_def appends_same)

lemma waits_step:
  assumes "outbound_inv st" "ws_laws h w" "undrained w s (op # ops) st" "\<not> disconnects s op"
  shows "waits s (of_bool (polls_client s op st)) st (outbound_step w op st)"
proof (cases op)
  case (Fire t)
  then show ?thesis using assms waits_fire [OF assms(1,2)] by simp
next
  case (Ready s' r)
  then show ?thesis using assms(4) by (auto simp: waits_def polls_client_def is_open_def disconnects_def max_def)
next
  case (Drain s' n)
  then show ?thesis by (auto simp: waits_def polls_client_def is_open_def)
qed (use assms(2,3) in \<open>auto simp: polls_client_def waits_send waits_notify waits_forget\<close>)

lemma undrained_run:
  assumes "outbound_inv st" "ws_laws h w" "map_of (pendingResyncs st) s = Some p" "is_open st s" "undrained w s ops st"
  shows "\<exists>es. wire (outbound_run w ops st) = wire st @ es
      \<and> (slow_close s \<in> set es \<or> list_ex (disconnects s) ops
        \<or> int (own_polls w s ops st) < pr_pollsRemaining p
          \<and> (\<exists>p'. map_of (pendingResyncs (outbound_run w ops st)) s = Some p'
               \<and> pr_pollsRemaining p' = pr_pollsRemaining p - int (own_polls w s ops st)))"
  using assms
proof (induction ops arbitrary: st p)
  case Nil
  then have "0 < pr_pollsRemaining p" by (fastforce simp: outbound_inv_def)
  then show ?case using Nil by (simp add: outbound_run_def)
next
  case (Cons op ops)
  let ?st = "outbound_step w op st"
  have run: "outbound_run w (op # ops) st = outbound_run w ops ?st" by (simp add: outbound_run_def)
  obtain es where grows: "wire (outbound_run w (op # ops) st) = wire st @ es"
    using run_appends [of st w "op # ops"] by (auto simp: appends_def)
  obtain es' where later: "wire (outbound_run w ops ?st) = wire ?st @ es'"
    using run_appends [of ?st w ops] by (auto simp: appends_def)
  show ?case
  proof (cases "disconnects s op")
    case True
    then show ?thesis using grows by auto
  next
    case False
    from waits_step [OF Cons.prems(1,2,5) False] obtain es1 where es1: "wire ?st = wire st @ es1"
      "slow_close s \<in> set es1 \<or> is_open ?st s \<and> (\<exists>p'. map_of (pendingResyncs ?st) s = Some p'
         \<and> pr_pollsRemaining p' = pr_pollsRemaining p - of_bool (polls_client s op st))"
      using Cons.prems(3,4) by (auto simp: waits_def)
    show ?thesis
    proof (cases "slow_close s \<in> set es1")
      case True
      then show ?thesis using es1(1) later by (auto simp: run)
    next
      case False
      then obtain p' where p': "map_of (pendingResyncs ?st) s = Some p'" "is_open ?st s"
        "pr_pollsRemaining p' = pr_pollsRemaining p - of_bool (polls_client s op st)" using es1(2) by blast
      from Cons.IH [OF outbound.inv_step [OF Cons.prems(1)] Cons.prems(2) p'(1,2)] Cons.prems(5) obtain es2 where
        "wire (outbound_run w ops ?st) = wire ?st @ es2"
        "slow_close s \<in> set es2 \<or> list_ex (disconnects s) ops \<or> int (own_polls w s ops ?st) < pr_pollsRemaining p'
          \<and> (\<exists>p''. map_of (pendingResyncs (outbound_run w ops ?st)) s = Some p''
               \<and> pr_pollsRemaining p'' = pr_pollsRemaining p' - int (own_polls w s ops ?st))"
        by auto
      then show ?thesis
        using es1(1) p'(3) by (intro exI [of _ "es1 @ es2"]) (auto simp: run)
    qed
  qed
qed

section \<open>Properties\<close>

text \<open>
  Whatever the server calls, however the network behaves and whichever timers fire, each
  client has at most one marker, exactly one timer while it has one and none otherwise, and
  between one and \<open>maximumPolls\<close> polls left: the policy retains a bounded amount per client.
\<close>

theorem one_marker_one_timer:
  assumes "new_outbound opts clients = Inr st0"
  assumes st_def: "st = outbound_run w ops st0"
  shows "distinct (map fst (pendingResyncs st))
    \<and> (\<forall>s. filter (\<lambda>t. snd t = s) (timers st)
          = (case map_of (pendingResyncs st) s of None \<Rightarrow> [] | Some p \<Rightarrow> [(pr_timer p, s)]))
    \<and> (\<forall>s p. map_of (pendingResyncs st) s = Some p \<longrightarrow> 1 \<le> pr_pollsRemaining p \<and> pr_pollsRemaining p \<le> maximumPolls st)"
  using outbound.inv_run [OF inv_new [OF assms(1)], of w ops]
  by (auto simp: st_def outbound_run_def outbound_inv_def jm_ok_def)

text \<open>
  The bytes waiting in an open client's buffer stay below the high-water mark plus the framing
  of one frame, not counting terminal notifications, which are not held back.
\<close>

theorem output_is_bounded:
  assumes "new_outbound opts clients = Inr st0" "ws_laws h w" "\<forall>s. bufferedAmount (clients s) = 0"
  assumes st_def: "st = outbound_run w ops st0"
  assumes "is_open st s"
  shows "int (bufferedAmount (peers st s)) < highWaterBytes st + int h + int (terminal_bytes h s (wire st))"
proof -
  have "outbound_inv st0" by (rule inv_new [OF assms(1)])
  moreover from this assms(1,3) have "buffer_ok h st0"
    by (auto simp: buffer_ok_def outbound_inv_def new_outbound_def Let_def result_simps)
  ultimately have "buffer_ok h st"
    using buffers.inv_run [of st0 h w ops] assms(2) by (auto simp: st_def outbound_run_def)
  then show ?thesis using assms(5) by (auto simp: buffer_ok_def is_open_def)
qed


text \<open>
  C31. A client that does not drain is given up after a bounded wait. Whatever the server calls in
  between, for this client or another, and whichever other timers fire: as long as nothing forgets
  the client and each of its polls finds its buffer above the low-water mark, it is closed as slow,
  or its connection is lost, or it still has its marker, with exactly one poll fewer for each time
  its own timer fired and at least one left. No notification buys it more time. So its polls, at most
  \<open>maximumPolls\<close>, cannot run out without a close; and left to its polls alone it is closed with
  the retryable code by the last of them and not before.
\<close>

theorem slow_client_is_closed:
  assumes "new_outbound opts clients = Inr st0" "ws_laws h w"
    and "st = outbound_run w before st0"
    and "map_of (pendingResyncs st) s = Some p" "is_open st s"
    and "undrained w s ops st"
  shows "(\<exists>es. wire (outbound_run w ops st) = wire st @ es
      \<and> (slow_close s \<in> set es \<or> list_ex (disconnects s) ops
        \<or> int (own_polls w s ops st) < pr_pollsRemaining p
          \<and> (\<exists>p'. map_of (pendingResyncs (outbound_run w ops st)) s = Some p'
               \<and> pr_pollsRemaining p' = pr_pollsRemaining p - int (own_polls w s ops st))))
    \<and> pr_pollsRemaining p \<le> maximumPolls st
    \<and> (lowWaterBytes st < int (bufferedAmount (peers st s)) \<longrightarrow>
        (\<forall>n < nat (pr_pollsRemaining p). wire (poll_times w s n st) = wire st)
        \<and> wire (poll_times w s (nat (pr_pollsRemaining p)) st) = wire st @ [slow_close s]
        \<and> map_of (pendingResyncs (poll_times w s (nat (pr_pollsRemaining p)) st)) s = None)"
proof -
  have inv: "outbound_inv st"
    using outbound.inv_run [OF inv_new [OF assms(1)]] by (simp add: assms(3) outbound_run_def)
  with assms(4) have "0 < pr_pollsRemaining p" "pr_pollsRemaining p \<le> maximumPolls st" by (fastforce simp: outbound_inv_def)+
  then show ?thesis
    using poll_times_undrained [OF inv assms(4,5), of _ w] undrained_run [OF inv assms(2,4-6)] by auto
qed

section \<open>Witnesses\<close>

definition sample_ws :: ws_package where
  "sample_ws = \<lparr>on_send = (\<lambda>n p. p\<lparr>bufferedAmount := bufferedAmount p + n + 4\<rparr>),
                on_close = (\<lambda>p. p\<lparr>readyState := 2\<rparr>)\<rparr>"

definition sample_bounds :: outbound_options where
  "sample_bounds = \<lparr>opt_highWaterBytes = Some 8, opt_lowWaterBytes = Some 2, opt_pollMilliseconds = None, opt_maximumPolls = Some 3\<rparr>"

definition sample_clients :: "nat \<Rightarrow> sock \<Rightarrow> peer" where
  "sample_clients n s = \<lparr>readyState = 1, bufferedAmount = n\<rparr>"

definition sample_outbound :: "nat \<Rightarrow> outbound" where
  "sample_outbound n = \<lparr>highWaterBytes = 8, lowWaterBytes = 2, pollMilliseconds = 16, maximumPolls = 3, pendingResyncs = [],
     peers = sample_clients n, timers = [], next_timer = 0, wire = []\<rparr>"

definition sample_snapshot :: resync where
  "sample_snapshot = Resync [] (Some [115])"

definition sample_delta :: outbound_op where
  "sample_delta = Notify 0 ''workspace.delta'' [] sample_snapshot"

lemma sample_ws_laws: "ws_laws 4 sample_ws"
  by (simp add: ws_laws_def sample_ws_def openSocketState_def)

lemma sample_new: "new_outbound sample_bounds (sample_clients n) = Inr (sample_outbound n)"
  by (simp add: new_outbound_def sample_bounds_def sample_outbound_def default_to_def throw_if_def
      rpcWebSocketBackpressurePollMilliseconds_def)

lemmas sample_eval = outbound_run_def notify_def send_def retainResync_def schedule_def is_open_def wouldReachHighWater_def
  terminalNotifications_def coalescibleWorkspaceNotifications_def sample_delta_def sample_outbound_def sample_clients_def
  openSocketState_def

theorem one_marker_one_timer_witness:
  "new_outbound sample_bounds (sample_clients 9) = Inr (sample_outbound 9) \<and>
   distinct (map fst (pendingResyncs (outbound_run sample_ws [sample_delta, Fire 0] (sample_outbound 9))))"
  using one_marker_one_timer [OF sample_new refl] sample_new by blast

theorem output_is_bounded_witness:
  "int (bufferedAmount (peers (outbound_run sample_ws [Send 0 [97]] (sample_outbound 0)) 0)) <
     highWaterBytes (outbound_run sample_ws [Send 0 [97]] (sample_outbound 0)) + int 4
       + int (terminal_bytes 4 0 (wire (outbound_run sample_ws [Send 0 [97]] (sample_outbound 0))))"
proof (rule output_is_bounded [OF sample_new sample_ws_laws _ refl])
  show "\<forall>s. bufferedAmount (sample_clients 0 s) = 0" by (simp add: sample_clients_def)
  show "is_open (outbound_run sample_ws [Send 0 [97]] (sample_outbound 0)) 0"
    by (simp add: sample_eval sample_ws_def socket_send_def utf8_point_def high_surrogate_def low_surrogate_def)
qed


theorem slow_client_is_closed_witness:
  "slow_close 0 \<in> set (wire (outbound_run sample_ws [Fire 0, sample_delta, Fire 1, sample_delta, Fire 2]
     (outbound_run sample_ws [sample_delta] (sample_outbound 9))))
   \<and> wire (poll_times sample_ws 0 3 (outbound_run sample_ws [sample_delta] (sample_outbound 9))) = [slow_close 0]"
proof -
  let ?st = "outbound_run sample_ws [sample_delta] (sample_outbound 9)"
  let ?ops = "[Fire 0, sample_delta, Fire 1, sample_delta, Fire 2]"
  let ?p = "\<lparr>pr_message = sample_snapshot, pr_timer = 0, pr_pollsRemaining = 3\<rparr>"
  note polled = sample_eval fire_def checkResync_def cancel_def polls_client_def closeSlowClient_def socket_close_def forget_def
  have start: "map_of (pendingResyncs ?st) 0 = Some ?p" "is_open ?st 0"
    and full: "lowWaterBytes ?st < int (bufferedAmount (peers ?st 0))" and quiet: "wire ?st = []"
    by (simp_all add: sample_eval)
  have waiting: "undrained sample_ws 0 ?ops ?st" and polls: "own_polls sample_ws 0 ?ops ?st = 3"
    and kept: "\<not> list_ex (disconnects 0) ?ops"
    by (simp_all add: polled sample_ws_def disconnects_def)
  note closed = slow_client_is_closed [OF sample_new sample_ws_laws refl start waiting, unfolded quiet polls]
  from conjunct1 [OF closed] kept have "slow_close 0 \<in> set (wire (outbound_run sample_ws ?ops ?st))"
    by (elim exE) simp
  moreover from closed full have "wire (poll_times sample_ws 0 3 ?st) = [slow_close 0]" by simp
  ultimately show ?thesis ..
qed

end
