(* ===== verification/Update_Activation.thy ===== *)
theory Update_Activation
  imports Transfer_Manifest Complex_Main
begin

text \<open>
  Activation of a staged update (apps/daemon/src/update-activation.ts) and the schemas of its
  journal (apps/daemon/src/update-state.ts). An activation holds a fence, writes each phase into
  a durable journal before the effect of that phase, switches the active runtime, starts it and
  waits for a healthy answer; a run that finds an unfinished journal rolls it back instead.

  The module defines the fence, the clock and the policy as interfaces and supplies none of
  them, so they are the argument \<open>activation_env\<close>: each call takes the outside world to an answer
  or an error and a new world, and an error may leave an effect behind. The source's promises
  become a state and error monad over the world and the local variables of \<open>#run\<close>.
\<close>

section \<open>Journal and runtimes\<close>

record activation_runtime =
  rt_version :: string
  rt_sha256 :: string
  rt_sourceCommit :: string
  rt_runtimeLockDigest :: string
  rt_receiptDigest :: string
  rt_path :: js_string

datatype activation_phase = Prepared | Starting | Rollback | Restarting | Committed | RolledBack

record activation_journal =
  aj_id :: string
  aj_generation :: js_string
  aj_previousRevision :: string
  aj_rollbackRevision :: string
  aj_phase :: activation_phase
  aj_previous :: activation_runtime
  aj_target :: activation_runtime

record active_runtime =
  ar_revision :: string
  ar_runtime :: activation_runtime

record activation_health =
  ah_id :: string
  ah_generation :: js_string
  ah_runtime :: activation_runtime
  ah_profileOwned :: bool
  ah_stateReady :: bool
  ah_listenerReady :: bool
  ah_healthy :: bool

datatype activation_result = Deferred | Busy | ResultCommitted | ResultRolledBack | Quarantined

datatype activation_error =
    ClockInvalid | DeadlineExpired | SchemaError | TimeoutPolicyError | FenceError nat

text \<open>\<open>updateVersionSchema\<close>: canonical semver of at most 128 code units.\<close>

definition numeric_identifier :: "string \<Rightarrow> bool" where
  "numeric_identifier s \<longleftrightarrow> s \<noteq> [] \<and> list_all digit_char s \<and> (hd s = CHR ''0'' \<longrightarrow> length s = 1)"

definition suffix_char :: "char \<Rightarrow> bool" where
  "suffix_char c \<longleftrightarrow> ascii_alnum c \<or> c = CHR ''.'' \<or> c = CHR ''-''"

fun optional_suffix :: "char \<Rightarrow> string \<Rightarrow> string option" where
  "optional_suffix tag [] = Some []"
| "optional_suffix tag (c # s) =
     (if c = tag then (if takeWhile suffix_char s = [] then None else Some (dropWhile suffix_char s)) else Some (c # s))"

definition version_suffix :: "string \<Rightarrow> bool" where
  "version_suffix s \<longleftrightarrow> (case optional_suffix CHR ''-'' s of None \<Rightarrow> False | Some t \<Rightarrow> optional_suffix CHR ''+'' t = Some [])"

fun version_numbers :: "nat \<Rightarrow> string \<Rightarrow> bool" where
  "version_numbers 0 s = version_suffix s"
| "version_numbers (Suc n) s =
     (numeric_identifier (takeWhile digit_char s) \<and>
      (let rest = dropWhile digit_char s
       in if n = 0 then version_suffix rest
          else case rest of c # s' \<Rightarrow> c = CHR ''.'' \<and> version_numbers n s' | [] \<Rightarrow> False))"

definition updateVersionSchema :: "string \<Rightarrow> bool" where
  "updateVersionSchema s \<longleftrightarrow> version_numbers 3 s \<and> length s \<le> 128"

definition digestSchema :: "string \<Rightarrow> bool" where
  "digestSchema s \<longleftrightarrow> tagged_hex [] 64 s"

definition activationRuntimeSchema :: "activation_runtime \<Rightarrow> bool" where
  "activationRuntimeSchema r \<longleftrightarrow>
     updateVersionSchema (rt_version r) \<and> digestSchema (rt_sha256 r) \<and> tagged_hex [] 40 (rt_sourceCommit r)
     \<and> tagged_hex ''sha256:'' 64 (rt_runtimeLockDigest r) \<and> digestSchema (rt_receiptDigest r)
     \<and> 1 \<le> length (rt_path r) \<and> length (rt_path r) \<le> 4096"

text \<open>The UUID check is the schema library's.\<close>

definition activationJournalSchema :: "(string \<Rightarrow> bool) \<Rightarrow> activation_journal \<Rightarrow> bool" where
  "activationJournalSchema uuid j \<longleftrightarrow>
     uuid (aj_id j) \<and> 1 \<le> length (aj_generation j) \<and> length (aj_generation j) \<le> 128
     \<and> uuid (aj_previousRevision j) \<and> uuid (aj_rollbackRevision j)
     \<and> activationRuntimeSchema (aj_previous j) \<and> activationRuntimeSchema (aj_target j)
     \<and> rt_version (aj_previous j) \<noteq> rt_version (aj_target j)"

section \<open>The interfaces\<close>

type_synonym ('w, 'a) outside = "'w \<Rightarrow> (activation_error + 'a) \<times> 'w"

record 'w activation_fence =
  fe_generation :: js_string
  assertHeld :: "('w, unit) outside"
  fe_release :: "('w, unit) outside"
  readJournal :: "('w, activation_journal option) outside"
  writeJournal :: "activation_journal \<Rightarrow> ('w, unit) outside"
  fe_active :: "('w, active_runtime) outside"
  fe_verify :: "activation_runtime \<Rightarrow> ('w, bool) outside"
  fe_qualified :: "activation_runtime \<Rightarrow> ('w, bool) outside"
  fe_switch :: "active_runtime \<Rightarrow> active_runtime \<Rightarrow> ('w, unit) outside"
  fe_restore :: "active_runtime \<Rightarrow> active_runtime \<Rightarrow> ('w, unit) outside"
  fe_start :: "activation_journal \<Rightarrow> activation_runtime \<Rightarrow> ('w, activation_health option) outside"
  fe_health :: "activation_journal \<Rightarrow> activation_runtime \<Rightarrow> ('w, activation_health option) outside"

text \<open>
  The rest of the world: acquiring a fence, the clock (absent when it is not a finite number),
  whether the deadline's and the startup's timers have fired by now, and the source of UUIDs.
\<close>

record 'w activation_env =
  acquire :: "('w, 'w activation_fence option) outside"
  now_ms :: "'w \<Rightarrow> rat option \<times> 'w"
  aborted :: "'w \<Rightarrow> bool"
  watchdog_aborted :: "'w \<Rightarrow> bool"
  randomUUID :: "'w \<Rightarrow> string \<times> 'w"
  uuid_check :: "string \<Rightarrow> bool"
  timeoutMs :: int
  startupTimeoutMs :: int

definition activation_policy :: "'w activation_env \<Rightarrow> activation_error + unit" where
  "activation_policy E =
     throw_if (\<bar>timeoutMs E\<bar> > maxSafeInteger \<or> timeoutMs E \<le> 0 \<or> timeoutMs E > 2147483647
       \<or> \<bar>startupTimeoutMs E\<bar> > maxSafeInteger \<or> startupTimeoutMs E \<le> 0 \<or> startupTimeoutMs E \<ge> timeoutMs E)
       TimeoutPolicyError"

text \<open>The local variables of \<open>#run\<close> and the world; \<open>lastTime\<close> is absent for minus infinity.\<close>

record 'w run_state =
  rs_world :: 'w
  lastTime :: "rat option"
  deadline :: "rat option"
  rs_fence :: "'w activation_fence option"

type_synonym ('w, 'a) act = "'w run_state \<Rightarrow> (activation_error + 'a) \<times> 'w run_state"

definition act_return :: "'a \<Rightarrow> ('w, 'a) act" where
  "act_return a s = (Inr a, s)"

definition act_throw :: "activation_error \<Rightarrow> ('w, 'a) act" where
  "act_throw e s = (Inl e, s)"

definition act_bind :: "('w, 'a) act \<Rightarrow> ('a \<Rightarrow> ('w, 'b) act) \<Rightarrow> ('w, 'b) act" where
  "act_bind m k s = (case m s of (Inl e, s') \<Rightarrow> (Inl e, s') | (Inr a, s') \<Rightarrow> k a s')"

definition act_catch :: "('w, 'a) act \<Rightarrow> ('w, 'a) act \<Rightarrow> ('w, 'a) act" where
  "act_catch m h s = (case m s of (Inl e, s') \<Rightarrow> h s' | (Inr a, s') \<Rightarrow> (Inr a, s'))"

definition await :: "('w, 'a) outside \<Rightarrow> ('w, 'a) act" where
  "await f s = (case f (rs_world s) of (r, w) \<Rightarrow> (r, s\<lparr>rs_world := w\<rparr>))"

definition parse_with :: "bool \<Rightarrow> ('w, unit) act" where
  "parse_with ok = (if ok then act_return () else act_throw SchemaError)"

section \<open>The state machine\<close>

definition sameRuntime :: "activation_runtime \<Rightarrow> activation_runtime \<Rightarrow> bool" where
  "sameRuntime a b \<longleftrightarrow> rt_version a = rt_version b \<and> rt_sha256 a = rt_sha256 b \<and> rt_sourceCommit a = rt_sourceCommit b
     \<and> rt_runtimeLockDigest a = rt_runtimeLockDigest b \<and> rt_receiptDigest a = rt_receiptDigest b \<and> rt_path a = rt_path b"

definition sameActive :: "active_runtime \<Rightarrow> active_runtime \<Rightarrow> bool" where
  "sameActive a b \<longleftrightarrow> ar_revision a = ar_revision b \<and> sameRuntime (ar_runtime a) (ar_runtime b)"

definition healthy :: "activation_health option \<Rightarrow> activation_journal \<Rightarrow> activation_runtime \<Rightarrow> bool" where
  "healthy health journal runtime \<longleftrightarrow> (case health of None \<Rightarrow> False | Some h \<Rightarrow>
     ah_id h = aj_id journal \<and> ah_generation h = aj_generation journal \<and> sameRuntime (ah_runtime h) runtime
     \<and> ah_profileOwned h \<and> ah_stateReady h \<and> ah_listenerReady h \<and> ah_healthy h)"

definition act_check :: "'w activation_env \<Rightarrow> ('w, unit) act" where
  "act_check E s =
     (case now_ms E (rs_world s) of (now, w) \<Rightarrow>
       let s1 = s\<lparr>rs_world := w\<rparr> in
       case now of
         None \<Rightarrow> (Inl ClockInvalid, s1)
       | Some t \<Rightarrow>
           if (case lastTime s of None \<Rightarrow> False | Some l \<Rightarrow> t < l) then (Inl ClockInvalid, s1)
           else
             let d = (case deadline s of None \<Rightarrow> t + of_int (timeoutMs E) | Some d \<Rightarrow> d);
                 s2 = s1\<lparr>lastTime := Some t, deadline := Some d\<rparr>
             in if t \<ge> d \<or> aborted E w then (Inl DeadlineExpired, s2)
                else case rs_fence s of None \<Rightarrow> (Inr (), s2) | Some f \<Rightarrow> await (assertHeld f) s2)"

definition act_call :: "'w activation_env \<Rightarrow> ('w, 'a) outside \<Rightarrow> ('w, 'a) act" where
  "act_call E operation = act_bind (act_check E) (\<lambda>_. act_bind (await operation) (\<lambda>result.
     act_bind (act_check E) (\<lambda>_. act_return result)))"

definition launch :: "'w activation_env \<Rightarrow> 'w activation_fence \<Rightarrow> activation_journal \<Rightarrow> activation_runtime
    \<Rightarrow> ('w, activation_health option) act" where
  "launch E f journal runtime = act_bind (act_check E) (\<lambda>_ s.
     let startupDeadline = map_option (\<lambda>t. t + of_int (startupTimeoutMs E)) (lastTime s)
     in act_bind (act_call E (fe_start f journal runtime)) (\<lambda>result s'.
          (Inr (if watchdog_aborted E (rs_world s') \<or> the (lastTime s') \<ge> the startupDeadline then None else result), s')) s)"

definition next_journal :: "'w activation_fence \<Rightarrow> activation_journal \<Rightarrow> activation_phase \<Rightarrow> bool \<Rightarrow> activation_journal" where
  "next_journal f journal phase newLaunch =
     journal\<lparr>aj_phase := phase, aj_generation := (if newLaunch then fe_generation f else aj_generation journal)\<rparr>"

definition write_phase :: "'w activation_env \<Rightarrow> 'w activation_fence \<Rightarrow> activation_journal \<Rightarrow> activation_phase \<Rightarrow> bool
    \<Rightarrow> ('w, activation_journal) act" where
  "write_phase E f journal phase newLaunch =
     (let nxt = next_journal f journal phase newLaunch
      in act_bind (parse_with (activationJournalSchema (uuid_check E) nxt)) (\<lambda>_.
           act_bind (act_call E (writeJournal f nxt)) (\<lambda>_. act_return nxt)))"

definition new_active :: "activation_journal \<Rightarrow> active_runtime" where
  "new_active j = \<lparr>ar_revision = aj_id j, ar_runtime = aj_target j\<rparr>"

definition old_active :: "activation_journal \<Rightarrow> active_runtime" where
  "old_active j = \<lparr>ar_revision = aj_previousRevision j, ar_runtime = aj_previous j\<rparr>"

definition restored_active :: "activation_journal \<Rightarrow> active_runtime" where
  "restored_active j = \<lparr>ar_revision = aj_rollbackRevision j, ar_runtime = aj_previous j\<rparr>"

text \<open>A condition that is asked only after the one before it held.\<close>

definition act_and :: "('w, bool) act \<Rightarrow> ('w, bool) act \<Rightarrow> ('w, bool) act" where
  "act_and m n = act_bind m (\<lambda>b. if b then n else act_return False)"

definition rolled_back :: "'w activation_env \<Rightarrow> 'w activation_fence \<Rightarrow> activation_journal \<Rightarrow> ('w, activation_result) act" where
  "rolled_back E f journal = act_bind (write_phase E f journal RolledBack False) (\<lambda>_. act_return ResultRolledBack)"

text \<open>Writing the rollback phase, restoring the previous runtime and starting it again.\<close>

definition restore_previous :: "'w activation_env \<Rightarrow> 'w activation_fence \<Rightarrow> activation_journal \<Rightarrow> active_runtime
    \<Rightarrow> ('w, activation_result) act" where
  "restore_previous E f journal active =
     act_bind (write_phase E f journal Rollback False) (\<lambda>journal1.
     act_bind (act_call E (fe_restore f active (restored_active journal))) (\<lambda>_.
     act_bind (write_phase E f journal1 Restarting True) (\<lambda>journal2.
     act_bind (launch E f journal2 (aj_previous journal2)) (\<lambda>health.
       if \<not> healthy health journal2 (aj_previous journal2) then act_return Quarantined
       else rolled_back E f journal2))))"

definition rollback_by_phase :: "'w activation_env \<Rightarrow> 'w activation_fence \<Rightarrow> activation_journal \<Rightarrow> active_runtime
    \<Rightarrow> ('w, activation_result) act" where
  "rollback_by_phase E f journal active =
     (if aj_phase journal = Prepared \<and> sameActive active (old_active journal) then rolled_back E f journal
      else if aj_phase journal = Restarting then
        if \<not> sameActive active (restored_active journal) then act_return Quarantined
        else act_bind (act_call E (fe_health f journal (aj_previous journal))) (\<lambda>health.
          if \<not> healthy health journal (aj_previous journal) then act_return Quarantined else rolled_back E f journal)
      else restore_previous E f journal active)"

definition rollback :: "'w activation_env \<Rightarrow> 'w activation_fence \<Rightarrow> activation_journal \<Rightarrow> ('w, activation_result) act" where
  "rollback E f journal = act_bind (act_call E (fe_active f)) (\<lambda>active.
     if \<not> sameActive active (new_active journal) \<and> \<not> sameActive active (old_active journal)
        \<and> \<not> sameActive active (restored_active journal) then act_return Quarantined
     else act_bind (act_and (act_call E (fe_qualified f (aj_previous journal))) (act_call E (fe_verify f (aj_previous journal))))
       (\<lambda>ok. if \<not> ok then act_return Quarantined else rollback_by_phase E f journal active))"

definition uuid_now :: "'w activation_env \<Rightarrow> ('w, string) act" where
  "uuid_now E s = (case randomUUID E (rs_world s) of (u, w) \<Rightarrow> (Inr u, s\<lparr>rs_world := w\<rparr>))"

text \<open>From the prepared journal to the committed one.\<close>

definition switch_over :: "'w activation_env \<Rightarrow> 'w activation_fence \<Rightarrow> active_runtime \<Rightarrow> activation_journal
    \<Rightarrow> ('w, activation_result) act" where
  "switch_over E f active journal0 =
     act_bind (parse_with (activationJournalSchema (uuid_check E) journal0)) (\<lambda>_.
     act_bind (write_phase E f journal0 Prepared False) (\<lambda>journal1.
     act_bind (act_call E (fe_switch f active (new_active journal1))) (\<lambda>_.
     act_bind (write_phase E f journal1 Starting True) (\<lambda>journal2.
     act_bind (act_catch (act_bind (launch E f journal2 (aj_target journal2)) (\<lambda>health. act_return (Some health)))
                         (act_bind (act_check E) (\<lambda>_. act_return None))) (\<lambda>launched.
       case launched of
         None \<Rightarrow> rollback E f journal2
       | Some health \<Rightarrow>
           if \<not> healthy health journal2 (aj_target journal2) then rollback E f journal2
           else act_bind (write_phase E f journal2 Committed False) (\<lambda>_. act_return ResultCommitted))))))"

definition activate_target :: "'w activation_env \<Rightarrow> 'w activation_fence \<Rightarrow> activation_runtime \<Rightarrow> ('w, activation_result) act" where
  "activate_target E f target = act_bind (act_call E (fe_qualified f target)) (\<lambda>ok.
     if \<not> ok then act_return Deferred
     else act_bind (act_call E (fe_active f)) (\<lambda>active.
       act_bind (parse_with (activationRuntimeSchema (ar_runtime active))) (\<lambda>_.
       if sameRuntime (ar_runtime active) target then act_return Deferred
       else act_bind (act_call E (fe_qualified f (ar_runtime active))) (\<lambda>ok'.
         if \<not> ok' then act_return Deferred
         else act_bind (act_and (act_call E (fe_verify f (ar_runtime active))) (act_call E (fe_verify f target))) (\<lambda>sound.
           if \<not> sound then act_return Quarantined
           else act_bind (uuid_now E) (\<lambda>id. act_bind (uuid_now E) (\<lambda>rollbackRevision.
             switch_over E f active \<lparr>aj_id = id, aj_generation = fe_generation f, aj_previousRevision = ar_revision active,
               aj_rollbackRevision = rollbackRevision, aj_phase = Prepared, aj_previous = ar_runtime active,
               aj_target = target\<rparr>)))))))"

fun phase_result :: "activation_phase \<Rightarrow> activation_result" where
  "phase_result Committed = ResultCommitted"
| "phase_result _ = ResultRolledBack"

definition with_fence :: "'w activation_env \<Rightarrow> activation_runtime option \<Rightarrow> 'w activation_fence \<Rightarrow> ('w, activation_result) act" where
  "with_fence E target f = act_bind (act_call E (readJournal f)) (\<lambda>stored.
     case stored of
       Some journal \<Rightarrow> act_bind (parse_with (activationJournalSchema (uuid_check E) journal)) (\<lambda>_.
         if aj_phase journal \<noteq> Committed \<and> aj_phase journal \<noteq> RolledBack then rollback E f journal
         else case target of None \<Rightarrow> act_return (phase_result (aj_phase journal)) | Some t \<Rightarrow> activate_target E f t)
     | None \<Rightarrow> (case target of None \<Rightarrow> act_return Deferred | Some t \<Rightarrow> activate_target E f t))"

definition acquire_fence :: "'w activation_env \<Rightarrow> ('w, unit) act" where
  "acquire_fence E = act_bind (act_check E) (\<lambda>_. act_bind (await (acquire E)) (\<lambda>f s. (Inr (), s\<lparr>rs_fence := f\<rparr>)))"

definition guarded_work :: "'w activation_env \<Rightarrow> activation_runtime option \<Rightarrow> ('w, activation_result) act" where
  "guarded_work E target = act_catch
     (act_bind (acquire_fence E) (\<lambda>_. act_bind (act_check E) (\<lambda>_ s.
        (case rs_fence s of None \<Rightarrow> act_return Deferred | Some f \<Rightarrow> with_fence E target f) s)))
     (act_return Quarantined)"

text \<open>The \<open>finally\<close> of \<open>work\<close>: a fence that was acquired is released, and a refused release throws.\<close>

definition release_fence :: "('w, unit) act" where
  "release_fence s = (case rs_fence s of None \<Rightarrow> (Inr (), s) | Some f \<Rightarrow> await (fe_release f) s)"

definition run_work :: "'w activation_env \<Rightarrow> activation_runtime option \<Rightarrow> 'w \<Rightarrow> (activation_error + activation_result) \<times> 'w" where
  "run_work E target w =
     (case act_bind (guarded_work E target) (\<lambda>r. act_bind release_fence (\<lambda>_. act_return r))
             \<lparr>rs_world = w, lastTime = None, deadline = None, rs_fence = None\<rparr> of
        (r, s) \<Rightarrow> (r, rs_world s))"

text \<open>
  One call of \<open>activate\<close> or \<open>recover\<close>. A call during another run answers busy; the answer of a run
  whose deadline timer fired first is quarantined, while its work still runs to its end.
\<close>

definition activation_run :: "'w activation_env \<Rightarrow> bool \<Rightarrow> bool \<Rightarrow> activation_runtime option \<Rightarrow> 'w
    \<Rightarrow> (activation_error + activation_result) \<times> 'w" where
  "activation_run E busy expired target w =
     (if busy then (Inr Busy, w)
      else case run_work E target w of (r, w') \<Rightarrow> (if expired then Inr Quarantined else r, w'))"

definition activate :: "'w activation_env \<Rightarrow> bool \<Rightarrow> bool \<Rightarrow> activation_runtime \<Rightarrow> 'w
    \<Rightarrow> (activation_error + activation_result) \<times> 'w" where
  "activate E busy expired target w =
     (if activationRuntimeSchema target then activation_run E busy expired (Some target) w else (Inl SchemaError, w))"

definition recover :: "'w activation_env \<Rightarrow> bool \<Rightarrow> bool \<Rightarrow> 'w \<Rightarrow> (activation_error + activation_result) \<times> 'w" where
  "recover E busy expired w = activation_run E busy expired None w"

section \<open>What the fence promises\<close>

text \<open>
  The durable part of the world: the stored journal and the active runtime; and the two facts
  about immutable runtimes that a positive answer of \<open>qualified\<close> and \<open>verify\<close> stands for.
\<close>

record 'w activation_view =
  journal_of :: "'w \<Rightarrow> activation_journal option"
  active_of :: "'w \<Rightarrow> active_runtime"
  is_qualified :: "activation_runtime \<Rightarrow> bool"
  is_verified :: "activation_runtime \<Rightarrow> bool"

definition unchanged :: "'w activation_view \<Rightarrow> 'w \<Rightarrow> 'w \<Rightarrow> bool" where
  "unchanged V w w' \<longleftrightarrow> journal_of V w' = journal_of V w \<and> active_of V w' = active_of V w"

definition quiet :: "'w activation_view \<Rightarrow> ('w \<Rightarrow> 'r \<times> 'w) \<Rightarrow> bool" where
  "quiet V f \<longleftrightarrow> (\<forall>w. unchanged V w (snd (f w)))"

text \<open>
  The promises of the interface's comments. A journal write replaces the journal; the switch and
  the restoration compare the whole active runtime, revision included, and swap it. Any of them
  may fail before its effect or after it. Nothing else changes the journal or the active runtime.
\<close>

definition writes_journal :: "'w activation_view \<Rightarrow> (activation_journal \<Rightarrow> ('w, unit) outside) \<Rightarrow> bool" where
  "writes_journal V wr \<longleftrightarrow> (\<forall>j w. active_of V (snd (wr j w)) = active_of V w
     \<and> (journal_of V (snd (wr j w)) = Some j \<or> isl (fst (wr j w)) \<and> journal_of V (snd (wr j w)) = journal_of V w))"

definition swaps_active :: "'w activation_view \<Rightarrow> (active_runtime \<Rightarrow> active_runtime \<Rightarrow> ('w, unit) outside) \<Rightarrow> bool" where
  "swaps_active V sw \<longleftrightarrow> (\<forall>e n w. journal_of V (snd (sw e n w)) = journal_of V w
     \<and> (active_of V w = e \<and> active_of V (snd (sw e n w)) = n
        \<or> isl (fst (sw e n w)) \<and> active_of V (snd (sw e n w)) = active_of V w))"

definition answers :: "('w, 'a) outside \<Rightarrow> ('w \<Rightarrow> 'a \<Rightarrow> bool) \<Rightarrow> bool" where
  "answers f P \<longleftrightarrow> (\<forall>w a w'. f w = (Inr a, w') \<longrightarrow> P w a)"

definition lawful_fence :: "'w activation_view \<Rightarrow> 'w activation_fence \<Rightarrow> bool" where
  "lawful_fence V f \<longleftrightarrow>
     quiet V (assertHeld f) \<and> quiet V (fe_release f)
     \<and> quiet V (readJournal f) \<and> answers (readJournal f) (\<lambda>w j. j = journal_of V w)
     \<and> quiet V (fe_active f) \<and> answers (fe_active f) (\<lambda>w a. a = active_of V w)
     \<and> (\<forall>r. quiet V (fe_verify f r) \<and> answers (fe_verify f r) (\<lambda>w b. b \<longrightarrow> is_verified V r))
     \<and> (\<forall>r. quiet V (fe_qualified f r) \<and> answers (fe_qualified f r) (\<lambda>w b. b \<longrightarrow> is_qualified V r))
     \<and> (\<forall>j r. quiet V (fe_start f j r) \<and> quiet V (fe_health f j r))
     \<and> writes_journal V (writeJournal f) \<and> swaps_active V (fe_switch f) \<and> swaps_active V (fe_restore f)"

definition lawful :: "'w activation_view \<Rightarrow> 'w activation_env \<Rightarrow> bool" where
  "lawful V E \<longleftrightarrow> quiet V (now_ms E) \<and> quiet V (randomUUID E) \<and> quiet V (acquire E)
     \<and> answers (acquire E) (\<lambda>w fo. \<forall>f. fo = Some f \<longrightarrow> lawful_fence V f)"

section \<open>The recovery invariant\<close>

text \<open>The active runtime that a journal in each phase accounts for.\<close>

fun explained :: "activation_journal \<Rightarrow> active_runtime \<Rightarrow> bool" where
  "explained j a =
     (case aj_phase j of
        Prepared \<Rightarrow> a = old_active j \<or> a = new_active j
      | Starting \<Rightarrow> a = new_active j
      | Rollback \<Rightarrow> a = new_active j \<or> a = restored_active j
      | Restarting \<Rightarrow> a = restored_active j
      | Committed \<Rightarrow> a = new_active j
      | RolledBack \<Rightarrow> a = old_active j \<or> a = restored_active j)"

definition consistent :: "'w activation_view \<Rightarrow> 'w \<Rightarrow> bool" where
  "consistent V w \<longleftrightarrow> pred_option (\<lambda>j. explained j (active_of V w)) (journal_of V w)"

definition trusted :: "'w activation_view \<Rightarrow> activation_runtime \<Rightarrow> bool" where
  "trusted V r \<longleftrightarrow> is_qualified V r \<and> is_verified V r"

definition fine :: "'w activation_view \<Rightarrow> active_runtime \<Rightarrow> activation_journal option \<Rightarrow> active_runtime \<Rightarrow> bool" where
  "fine V a0 J A \<longleftrightarrow> pred_option (\<lambda>j. explained j A) J \<and> (A = a0 \<or> trusted V (ar_runtime A))"

definition run_at :: "'w activation_view \<Rightarrow> 'w activation_fence \<Rightarrow> activation_journal option \<Rightarrow> active_runtime \<Rightarrow> 'w run_state \<Rightarrow> bool" where
  "run_at V f J A s \<longleftrightarrow> rs_fence s = Some f \<and> journal_of V (rs_world s) = J \<and> active_of V (rs_world s) = A"

definition run_fine :: "'w activation_view \<Rightarrow> active_runtime \<Rightarrow> 'w activation_fence \<Rightarrow> 'w run_state \<Rightarrow> bool" where
  "run_fine V a0 f s \<longleftrightarrow> rs_fence s = Some f \<and> fine V a0 (journal_of V (rs_world s)) (active_of V (rs_world s))"

text \<open>A triple of a computation: what holds after a value, and what holds after an error.\<close>

definition act_ok :: "('s \<Rightarrow> bool) \<Rightarrow> ('s \<Rightarrow> (activation_error + 'a) \<times> 's) \<Rightarrow> ('a \<Rightarrow> 's \<Rightarrow> bool) \<Rightarrow> ('s \<Rightarrow> bool) \<Rightarrow> bool" where
  "act_ok P m Q X \<longleftrightarrow> (\<forall>s. P s \<longrightarrow> (case m s of (Inr a, s') \<Rightarrow> Q a s' | (Inl e, s') \<Rightarrow> X s'))"

lemma bind_ok: "act_ok P m R X \<Longrightarrow> (\<And>a. act_ok (R a) (k a) Q X) \<Longrightarrow> act_ok P (act_bind m k) Q X"
  unfolding act_ok_def act_bind_def by (fastforce split: prod.splits sum.splits)

lemma return_ok: "(\<And>s. P s \<Longrightarrow> Q a s) \<Longrightarrow> act_ok P (act_return a) Q X"
  by (simp add: act_ok_def act_return_def)

lemma return_bind: "act_bind (act_return a) k = k a"
  by (rule ext) (simp add: act_bind_def act_return_def)

lemma catch_ok: "act_ok P m Q R \<Longrightarrow> act_ok R h Q X \<Longrightarrow> act_ok P (act_catch m h) Q X"
  unfolding act_ok_def act_catch_def by (fastforce split: prod.splits sum.splits)

lemma weaken_ok: "act_ok P m Q X \<Longrightarrow> (\<And>s. P' s \<Longrightarrow> P s) \<Longrightarrow> (\<And>a s. Q a s \<Longrightarrow> Q' a s) \<Longrightarrow> (\<And>s. X s \<Longrightarrow> X' s)
    \<Longrightarrow> act_ok P' m Q' X'"
  unfolding act_ok_def by (fastforce split: prod.splits sum.splits)

lemma conj_ok: "(C \<Longrightarrow> act_ok P m Q X) \<Longrightarrow> act_ok (\<lambda>s. P s \<and> C) m Q X"
  by (cases C) (simp_all add: act_ok_def)

lemma if_ok: "(b \<Longrightarrow> act_ok P m Q X) \<Longrightarrow> (\<not> b \<Longrightarrow> act_ok P n Q X) \<Longrightarrow> act_ok P (if b then m else n) Q X"
  by simp

lemma parse_ok: "(\<And>s. P s \<Longrightarrow> X s) \<Longrightarrow> act_ok P (parse_with b) (\<lambda>_ s. P s \<and> b) X"
  by (simp add: act_ok_def parse_with_def act_return_def act_throw_def)

lemma run_at_fine: "fine V a0 J A \<Longrightarrow> run_at V f J A s \<Longrightarrow> run_fine V a0 f s"
  by (auto simp: run_at_def run_fine_def)

lemma quietD: "quiet V g \<Longrightarrow> g w = (r, w') \<Longrightarrow> journal_of V w' = journal_of V w \<and> active_of V w' = active_of V w"
  unfolding quiet_def unchanged_def by (metis snd_conv)

lemma check_at:
  assumes "lawful V E" "lawful_fence V f" "run_at V f J A s"
  shows "run_at V f J A (snd (act_check E s))"
proof -
  obtain now w where now: "now_ms E (rs_world s) = (now, w)" by (cases "now_ms E (rs_world s)")
  have world: "journal_of V w = J" "active_of V w = A"
    using assms now quietD [of V "now_ms E" "rs_world s" now w] by (simp_all add: lawful_def run_at_def)
  then have "run_at V f J A (snd (await (assertHeld f) s'))" if "rs_world s' = w" "rs_fence s' = Some f" for s'
    using that assms(2) quietD [of V "assertHeld f" w]
    by (auto simp: await_def run_at_def lawful_fence_def split: prod.splits)
  then show ?thesis
    using world now assms(3) by (simp add: act_check_def run_at_def Let_def split: option.split)
qed

lemma call_split:
  assumes "lawful V E" "lawful_fence V f" "run_at V f J A s"
  obtains (refused) e s' where "act_call E op s = (Inl e, s')" "run_at V f J A s'"
  | (failed) w e w' s' where "journal_of V w = J" "active_of V w = A" "op w = (Inl e, w')"
      "act_call E op s = (Inl e, s')" "run_at V f (journal_of V w') (active_of V w') s'"
  | (late) w a w' e s' where "journal_of V w = J" "active_of V w = A" "op w = (Inr a, w')"
      "act_call E op s = (Inl e, s')" "run_at V f (journal_of V w') (active_of V w') s'"
  | (answered) w a w' s' where "journal_of V w = J" "active_of V w = A" "op w = (Inr a, w')"
      "act_call E op s = (Inr a, s')" "run_at V f (journal_of V w') (active_of V w') s'"
proof (cases "act_check E s")
  case (Pair r1 s1)
  with check_at [OF assms] have s1: "run_at V f J A s1" by simp
  show ?thesis
  proof (cases r1)
    case (Inl e)
    then show ?thesis using Pair s1 refused by (simp add: act_call_def act_bind_def)
  next
    case (Inr u)
    obtain r2 w' where op: "op (rs_world s1) = (r2, w')" by (cases "op (rs_world s1)")
    let ?s2 = "s1\<lparr>rs_world := w'\<rparr>"
    have s2: "run_at V f (journal_of V w') (active_of V w') ?s2"
      and w: "journal_of V (rs_world s1) = J" "active_of V (rs_world s1) = A"
      using s1 by (auto simp: run_at_def)
    show ?thesis
    proof (cases r2)
      case (Inl e)
      then show ?thesis using Pair \<open>r1 = Inr u\<close> op s2 w failed
        by (simp add: act_call_def act_bind_def await_def)
    next
      case (Inr a)
      obtain r3 s3 where chk: "act_check E ?s2 = (r3, s3)" by (cases "act_check E ?s2")
      with check_at [OF assms(1,2) s2] have s3: "run_at V f (journal_of V w') (active_of V w') s3" by simp
      show ?thesis
        using Pair \<open>r1 = Inr u\<close> \<open>r2 = Inr a\<close> op w chk s3 late answered
        by (cases r3) (simp_all add: act_call_def act_bind_def await_def act_return_def)
    qed
  qed
qed

text \<open>Calls that change nothing, journal writes and swaps of the active runtime.\<close>

definition call_ok :: "('s \<Rightarrow> bool) \<Rightarrow> (activation_error + 'a) \<times> 's \<Rightarrow> ('a \<Rightarrow> 's \<Rightarrow> bool) \<Rightarrow> bool" where
  "call_ok X r Q \<longleftrightarrow> (case r of (Inr a, s') \<Rightarrow> Q a s' | (Inl e, s') \<Rightarrow> X s')"

lemma act_ok_iff: "act_ok P m Q X \<longleftrightarrow> (\<forall>s. P s \<longrightarrow> call_ok X (m s) Q)"
  by (simp add: act_ok_def call_ok_def)

lemma call_ok_simps [simp]: "call_ok X (Inl e, s) Q = X s" "call_ok X (Inr a, s) Q = Q a s"
  by (simp_all add: call_ok_def)

lemma quiet_call_at:
  assumes "lawful V E" "lawful_fence V f" "quiet V op" "answers op P"
  shows "act_ok (run_at V f J A) (act_call E op)
    (\<lambda>a s. run_at V f J A s \<and> (\<exists>w. journal_of V w = J \<and> active_of V w = A \<and> P w a)) (run_at V f J A)"
  unfolding act_ok_iff
proof (intro allI impI)
  fix s
  assume s: "run_at V f J A s"
  show "call_ok (run_at V f J A) (act_call E op s)
    (\<lambda>a s. run_at V f J A s \<and> (\<exists>w. journal_of V w = J \<and> active_of V w = A \<and> P w a))"
  proof (cases rule: call_split [OF assms(1,2) s, of op, case_names refused failed late answered])
    case (answered w a w' s')
    then show ?thesis using quietD [OF assms(3), of w "Inr a" w'] assms(4) by (auto simp: answers_def)
  qed (use quietD [OF assms(3)] in auto)
qed

lemma quiet_call:
  assumes "lawful V E" "lawful_fence V f" "quiet V op" "answers op P" "fine V a0 J A"
  shows "act_ok (run_at V f J A) (act_call E op)
    (\<lambda>a s. run_at V f J A s \<and> (\<exists>w. journal_of V w = J \<and> active_of V w = A \<and> P w a)) (run_fine V a0 f)"
  by (rule weaken_ok [OF quiet_call_at [OF assms(1-4)]]) (auto intro: run_at_fine [OF assms(5)])

lemma journal_call:
  assumes "lawful V E" "lawful_fence V f" "fine V a0 J A" "fine V a0 (Some j) A"
  shows "act_ok (run_at V f J A) (act_call E (writeJournal f j)) (\<lambda>_. run_at V f (Some j) A) (run_fine V a0 f)"
  unfolding act_ok_iff
proof (intro allI impI)
  fix s
  assume s: "run_at V f J A s"
  have wr: "active_of V w' = active_of V w" "journal_of V w' = Some j \<or> isl r \<and> journal_of V w' = journal_of V w"
    if "writeJournal f j w = (r, w')" for w r w'
    using assms(2) that unfolding lawful_fence_def writes_journal_def by (metis fst_conv snd_conv)+
  note fines = run_at_fine [OF assms(3)] run_at_fine [OF assms(4)]
  show "call_ok (run_fine V a0 f) (act_call E (writeJournal f j) s) (\<lambda>_. run_at V f (Some j) A)"
  proof (cases rule: call_split [OF assms(1,2) s, of "writeJournal f j", case_names refused failed late answered])
    case (failed w e w' s')
    then show ?thesis using wr [of w "Inl e" w'] fines by auto
  next
    case (late w a w' e s')
    then show ?thesis using wr [of w "Inr a" w'] fines by auto
  next
    case (answered w a w' s')
    then show ?thesis using wr [of w "Inr a" w'] by auto
  qed (use fines in auto)
qed

lemma swaps_activeD:
  assumes "swaps_active V sw" "sw e n w = (r, w')"
  shows "journal_of V w' = journal_of V w"
    "active_of V w = e \<and> active_of V w' = n \<or> isl r \<and> active_of V w' = active_of V w"
  using assms unfolding swaps_active_def by (metis fst_conv snd_conv)+

lemma swap_call:
  assumes "lawful V E" "lawful_fence V f" "swaps_active V sw" "fine V a0 J A" "fine V a0 J n"
  shows "act_ok (run_at V f J A) (act_call E (sw A n)) (\<lambda>_. run_at V f J n) (run_fine V a0 f)"
  unfolding act_ok_iff
proof (intro allI impI)
  fix s
  assume s: "run_at V f J A s"
  have sw: "journal_of V w' = journal_of V w"
    "active_of V w = A \<and> active_of V w' = n \<or> isl r \<and> active_of V w' = active_of V w"
    if "sw A n w = (r, w')" for w r w'
    using swaps_activeD [OF assms(3) that] by simp_all
  note fines = run_at_fine [OF assms(4)] run_at_fine [OF assms(5)]
  show "call_ok (run_fine V a0 f) (act_call E (sw A n) s) (\<lambda>_. run_at V f J n)"
  proof (cases rule: call_split [OF assms(1,2) s, of "sw A n", case_names refused failed late answered])
    case (failed w e w' s')
    then show ?thesis using sw [of w "Inl e" w'] fines by auto
  next
    case (late w a w' e s')
    then show ?thesis using sw [of w "Inr a" w'] fines by auto
  next
    case (answered w a w' s')
    then show ?thesis using sw [of w "Inr a" w'] by auto
  qed (use fines in auto)
qed

lemma bindc_ok:
  assumes "act_ok P m (\<lambda>a s. P' s \<and> C a) X" "\<And>a. C a \<Longrightarrow> act_ok P' (k a) Q X"
  shows "act_ok P (act_bind m k) Q X"
  by (rule bind_ok [OF assms(1)], rule conj_ok, rule assms(2))

text \<open>The calls of the state machine, from a point where the journal explains the active runtime.\<close>

lemmas quiet_calls = lawful_fence_def answers_def

lemma active_call:
  assumes "lawful V E" "lawful_fence V f" "fine V a0 J A"
  shows "act_ok (run_at V f J A) (act_call E (fe_active f)) (\<lambda>a s. run_at V f J A s \<and> a = A) (run_fine V a0 f)"
  using quiet_call [OF assms(1,2) _ _ assms(3), where op = "fe_active f" and P = "\<lambda>w a. a = active_of V w"] assms(2)
  by (auto simp: lawful_fence_def elim: weaken_ok)

lemma read_call:
  assumes "lawful V E" "lawful_fence V f" "fine V a0 J A"
  shows "act_ok (run_at V f J A) (act_call E (readJournal f)) (\<lambda>j s. run_at V f J A s \<and> j = J) (run_fine V a0 f)"
  using quiet_call [OF assms(1,2) _ _ assms(3), where op = "readJournal f" and P = "\<lambda>w j. j = journal_of V w"] assms(2)
  by (auto simp: lawful_fence_def elim: weaken_ok)

lemma judge_call:
  assumes "lawful V E" "lawful_fence V f" "fine V a0 J A"
  shows "act_ok (run_at V f J A) (act_call E (fe_qualified f r)) (\<lambda>b s. run_at V f J A s \<and> (b \<longrightarrow> is_qualified V r)) (run_fine V a0 f)"
    and "act_ok (run_at V f J A) (act_call E (fe_verify f r)) (\<lambda>b s. run_at V f J A s \<and> (b \<longrightarrow> is_verified V r)) (run_fine V a0 f)"
  using quiet_call [OF assms(1,2) _ _ assms(3), where op = "fe_qualified f r" and P = "\<lambda>w b. b \<longrightarrow> is_qualified V r"]
    quiet_call [OF assms(1,2) _ _ assms(3), where op = "fe_verify f r" and P = "\<lambda>w b. b \<longrightarrow> is_verified V r"] assms(2)
  by (auto simp: lawful_fence_def elim: weaken_ok)

lemma plain_call:
  assumes "lawful V E" "lawful_fence V f" "fine V a0 J A" "quiet V op"
  shows "act_ok (run_at V f J A) (act_call E op) (\<lambda>_ s. run_at V f J A s \<and> True) (run_fine V a0 f)"
  using quiet_call [OF assms(1,2,4) _ assms(3), where P = "\<lambda>_ _. True"] by (auto simp: answers_def elim: weaken_ok)

lemma and_ok:
  assumes "act_ok P m (\<lambda>b s. P s \<and> (b \<longrightarrow> C)) X" "act_ok P n (\<lambda>b s. P s \<and> (b \<longrightarrow> D)) X"
  shows "act_ok P (act_and m n) (\<lambda>b s. P s \<and> (b \<longrightarrow> C \<and> D)) X"
  unfolding act_and_def
proof (rule bindc_ok [OF assms(1)])
  fix b
  assume c: "b \<longrightarrow> C"
  show "act_ok P (if b then n else act_return False) (\<lambda>b s. P s \<and> (b \<longrightarrow> C \<and> D)) X"
    using assms(2) c by (cases b) (auto elim: weaken_ok intro: return_ok)
qed

lemma check_ok:
  assumes "lawful V E" "lawful_fence V f"
  shows "act_ok (run_at V f J A) (act_check E) (\<lambda>_ s. run_at V f J A s \<and> True) (run_at V f J A)"
  unfolding act_ok_iff call_ok_def
  using check_at [OF assms] by (fastforce split: prod.splits sum.splits)

lemma launch_at:
  assumes "lawful V E" "lawful_fence V f"
  shows "act_ok (run_at V f J A) (launch E f j r) (\<lambda>_ s. run_at V f J A s \<and> True) (run_at V f J A)"
  unfolding launch_def
proof (rule bindc_ok [OF check_ok [OF assms]])
  have "quiet V (fe_start f j r)" "answers (fe_start f j r) (\<lambda>_ _. True)"
    using assms(2) by (simp_all add: lawful_fence_def answers_def)
  then have start: "act_ok (run_at V f J A) (act_call E (fe_start f j r)) (\<lambda>_ s. run_at V f J A s \<and> True) (run_at V f J A)"
    by (rule weaken_ok [OF quiet_call_at [OF assms]]) auto
  have "act_ok (run_at V f J A) (act_bind (act_call E (fe_start f j r)) (\<lambda>result s'.
      (Inr (if watchdog_aborted E (rs_world s') \<or> the (lastTime s') \<ge> the d then None else result), s')))
      (\<lambda>_ s. run_at V f J A s \<and> True) (run_at V f J A)" for d
    by (rule bindc_ok [OF start]) (simp add: act_ok_iff)
  then show "act_ok (run_at V f J A) (\<lambda>s. let startupDeadline = map_option (\<lambda>t. t + of_int (startupTimeoutMs E)) (lastTime s)
     in act_bind (act_call E (fe_start f j r)) (\<lambda>result s'.
          (Inr (if watchdog_aborted E (rs_world s') \<or> the (lastTime s') \<ge> the startupDeadline then None else result), s')) s)
      (\<lambda>_ s. run_at V f J A s \<and> True) (run_at V f J A)"
    by (simp add: act_ok_iff Let_def)
qed

lemma launch_ok:
  assumes "lawful V E" "lawful_fence V f" "fine V a0 J A"
  shows "act_ok (run_at V f J A) (launch E f j r) (\<lambda>_ s. run_at V f J A s \<and> True) (run_fine V a0 f)"
  by (rule weaken_ok [OF launch_at [OF assms(1,2)]]) (auto intro: run_at_fine [OF assms(3)])

lemma write_ok:
  assumes "lawful V E" "lawful_fence V f" "fine V a0 J A" "fine V a0 (Some (next_journal f j ph l)) A"
  shows "act_ok (run_at V f J A) (write_phase E f j ph l)
    (\<lambda>j' s. run_at V f (Some (next_journal f j ph l)) A s \<and> j' = next_journal f j ph l) (run_fine V a0 f)"
  unfolding write_phase_def Let_def
  by (rule bindc_ok [OF parse_ok], erule run_at_fine [OF assms(3)], rule bind_ok [OF journal_call [OF assms]])
    (rule return_ok, simp)

section \<open>What a run leaves behind\<close>

lemma sameRuntime_iff [simp]: "sameRuntime a b \<longleftrightarrow> a = b"
  by (auto simp: sameRuntime_def intro: activation_runtime.equality)

lemma sameActive_iff [simp]: "sameActive a b \<longleftrightarrow> a = b"
  by (auto simp: sameActive_def intro: active_runtime.equality)

lemma next_journal_simps [simp]:
  "new_active (next_journal f j ph l) = new_active j" "old_active (next_journal f j ph l) = old_active j"
  "restored_active (next_journal f j ph l) = restored_active j" "aj_phase (next_journal f j ph l) = ph"
  "aj_target (next_journal f j ph l) = aj_target j" "aj_previous (next_journal f j ph l) = aj_previous j"
  by (simp_all add: next_journal_def new_active_def old_active_def restored_active_def)

lemma active_runtimes [simp]:
  "ar_runtime (new_active j) = aj_target j" "ar_runtime (old_active j) = aj_previous j"
  "ar_runtime (restored_active j) = aj_previous j"
  by (simp_all add: new_active_def old_active_def restored_active_def)

definition settled :: "'w activation_view \<Rightarrow> activation_runtime option \<Rightarrow> activation_result \<Rightarrow> 'w \<Rightarrow> bool" where
  "settled V target r w \<longleftrightarrow>
     (r = ResultCommitted \<longrightarrow> (\<exists>j. journal_of V w = Some j \<and> aj_phase j = Committed \<and> active_of V w = new_active j
        \<and> (\<forall>t. target = Some t \<longrightarrow> aj_target j = t)))
     \<and> (r = ResultRolledBack \<longrightarrow> (\<exists>j. journal_of V w = Some j \<and> aj_phase j = RolledBack
        \<and> ar_runtime (active_of V w) = aj_previous j))"

definition run_settled :: "'w activation_view \<Rightarrow> active_runtime \<Rightarrow> 'w activation_fence \<Rightarrow> activation_runtime option
    \<Rightarrow> activation_result \<Rightarrow> 'w run_state \<Rightarrow> bool" where
  "run_settled V a0 f target r s \<longleftrightarrow> run_fine V a0 f s \<and> settled V target r (rs_world s)"

lemma quarantined_ok: "fine V a0 J A \<Longrightarrow> r = Quarantined \<or> r = Deferred
    \<Longrightarrow> act_ok (run_at V f J A) (act_return r) (run_settled V a0 f target) X"
  by (rule return_ok) (auto simp: run_settled_def settled_def intro: run_at_fine)

lemma rolled_back_ok:
  assumes "lawful V E" "lawful_fence V f" "fine V a0 (Some j) A" "A = old_active j \<or> A = restored_active j"
  shows "act_ok (run_at V f (Some j) A) (rolled_back E f j) (run_settled V a0 f target) (run_fine V a0 f)"
proof -
  have fine': "fine V a0 (Some (next_journal f j RolledBack False)) A"
    using assms(3,4) by (auto simp: fine_def)
  show ?thesis
    unfolding rolled_back_def
    by (rule bindc_ok [OF write_ok [OF assms(1-3) fine']], rule return_ok)
      (use assms(4) fine' in \<open>auto simp: run_settled_def settled_def run_at_def run_fine_def\<close>)
qed

text \<open>The restoration of the previous runtime and its restart.\<close>

lemma restore_ok:
  assumes laws: "lawful V E" "lawful_fence V f" and here: "fine V a0 (Some j) A"
    and A: "A = new_active j \<or> A = restored_active j" and tr: "trusted V (aj_previous j)"
  shows "act_ok (run_at V f (Some j) A) (restore_previous E f j A) (run_settled V a0 f target) (run_fine V a0 f)"
proof -
  let ?j1 = "next_journal f j Rollback False"
  let ?j2 = "next_journal f ?j1 Restarting True"
  have f1: "fine V a0 (Some ?j1) A" using here A by (auto simp: fine_def)
  have f2: "fine V a0 (Some ?j1) (restored_active j)" using tr by (simp add: fine_def)
  have f3: "fine V a0 (Some ?j2) (restored_active j)" using tr by (simp add: fine_def)
  have sw: "swaps_active V (fe_restore f)" using laws(2) by (simp add: lawful_fence_def)
  show ?thesis
    unfolding restore_previous_def
  proof (rule bindc_ok [OF write_ok [OF laws here f1]], rule bind_ok)
    show "act_ok (run_at V f (Some ?j1) A) (act_call E (fe_restore f A (restored_active j)))
        (\<lambda>_. run_at V f (Some ?j1) (restored_active j)) (run_fine V a0 f)"
      by (rule swap_call [OF laws sw f1 f2])
    fix j1
    assume "j1 = ?j1"
    then show "act_ok (run_at V f (Some ?j1) (restored_active j)) (act_bind (write_phase E f j1 Restarting True) (\<lambda>journal2.
     act_bind (launch E f journal2 (aj_previous journal2)) (\<lambda>health.
       if \<not> healthy health journal2 (aj_previous journal2) then act_return Quarantined
       else rolled_back E f journal2))) (run_settled V a0 f target) (run_fine V a0 f)" for u :: unit
    proof (simp only:, intro bindc_ok [OF write_ok [OF laws f2 f3]])
      fix j2
      assume "j2 = ?j2"
      then show "act_ok (run_at V f (Some ?j2) (restored_active j)) (act_bind (launch E f j2 (aj_previous j2)) (\<lambda>health.
         if \<not> healthy health j2 (aj_previous j2) then act_return Quarantined else rolled_back E f j2))
         (run_settled V a0 f target) (run_fine V a0 f)"
        using quarantined_ok [OF f3] rolled_back_ok [OF laws f3]
        by (intro bindc_ok [OF launch_ok [OF laws f3]]) simp
    qed
  qed
qed

lemma rollback_by_phase_ok:
  assumes laws: "lawful V E" "lawful_fence V f" and here: "fine V a0 (Some j) A"
    and unfinished: "aj_phase j \<noteq> Committed" "aj_phase j \<noteq> RolledBack" and tr: "trusted V (aj_previous j)"
  shows "act_ok (run_at V f (Some j) A) (rollback_by_phase E f j A) (run_settled V a0 f target) (run_fine V a0 f)"
proof -
  have health: "quiet V (fe_health f j (aj_previous j))" using laws(2) by (simp add: lawful_fence_def)
  have restart: "act_ok (run_at V f (Some j) A) (act_bind (act_call E (fe_health f j (aj_previous j))) (\<lambda>health.
       if \<not> healthy health j (aj_previous j) then act_return Quarantined else rolled_back E f j))
       (run_settled V a0 f target) (run_fine V a0 f)" if "A = restored_active j"
    using quarantined_ok [OF here] rolled_back_ok [OF laws here] that
    by (intro bindc_ok [OF plain_call [OF laws here health]]) simp
  have known: "aj_phase j = Restarting \<and> A = restored_active j \<or> aj_phase j = Prepared \<and> A = old_active j
      \<or> aj_phase j \<noteq> Restarting \<and> (A = new_active j \<or> A = restored_active j)"
    using here unfinished by (auto simp: fine_def split: activation_phase.splits)
  show ?thesis
    unfolding rollback_by_phase_def sameActive_iff
  proof (intro if_ok)
    show "act_ok (run_at V f (Some j) A) (rolled_back E f j) (run_settled V a0 f target) (run_fine V a0 f)"
      if "aj_phase j = Prepared \<and> A = old_active j"
      by (rule rolled_back_ok [OF laws here]) (use that in blast)
    show "act_ok (run_at V f (Some j) A) (restore_previous E f j A) (run_settled V a0 f target) (run_fine V a0 f)"
      if "\<not> (aj_phase j = Prepared \<and> A = old_active j)" "aj_phase j \<noteq> Restarting"
      by (rule restore_ok [OF laws here _ tr]) (use that known in blast)
  qed (rule quarantined_ok [OF here], simp, rule restart, simp)
qed

lemma rollback_ok:
  assumes laws: "lawful V E" "lawful_fence V f" and here: "fine V a0 (Some j) A"
    and unfinished: "aj_phase j \<noteq> Committed" "aj_phase j \<noteq> RolledBack"
  shows "act_ok (run_at V f (Some j) A) (rollback E f j) (run_settled V a0 f target) (run_fine V a0 f)"
proof -
  have judge: "act_ok (run_at V f (Some j) A)
      (act_and (act_call E (fe_qualified f (aj_previous j))) (act_call E (fe_verify f (aj_previous j))))
      (\<lambda>b s. run_at V f (Some j) A s \<and> (b \<longrightarrow> is_qualified V (aj_previous j) \<and> is_verified V (aj_previous j))) (run_fine V a0 f)"
    by (rule and_ok [OF judge_call [OF laws here]])
  show ?thesis
    unfolding rollback_def
  proof (rule bindc_ok [OF active_call [OF laws here]])
    fix active
    assume "active = A"
    then show "act_ok (run_at V f (Some j) A)
      (if \<not> sameActive active (new_active j) \<and> \<not> sameActive active (old_active j) \<and> \<not> sameActive active (restored_active j)
       then act_return Quarantined
       else act_bind (act_and (act_call E (fe_qualified f (aj_previous j))) (act_call E (fe_verify f (aj_previous j))))
         (\<lambda>ok. if \<not> ok then act_return Quarantined else rollback_by_phase E f j active))
      (run_settled V a0 f target) (run_fine V a0 f)"
      by (simp only:) (intro if_ok quarantined_ok [OF here] bindc_ok [OF judge] rollback_by_phase_ok [OF laws here unfinished],
        simp_all add: trusted_def)
  qed
qed

lemma switch_over_ok:
  assumes laws: "lawful V E" "lawful_fence V f" and here: "fine V a0 J A"
    and j: "old_active j = A" "trusted V (aj_target j)"
  shows "act_ok (run_at V f J A) (switch_over E f A j) (run_settled V a0 f (Some (aj_target j))) (run_fine V a0 f)"
proof -
  let ?j1 = "next_journal f j Prepared False"
  let ?j2 = "next_journal f ?j1 Starting True"
  let ?j3 = "next_journal f ?j2 Committed False"
  let ?Q = "run_settled V a0 f (Some (aj_target j))" and ?X = "run_fine V a0 f"
  have f1: "fine V a0 (Some ?j1) A" using here j by (auto simp: fine_def)
  have f2: "fine V a0 (Some ?j1) (new_active j)" and f3: "fine V a0 (Some ?j2) (new_active j)"
    and f4: "fine V a0 (Some ?j3) (new_active j)" using j by (auto simp: fine_def)
  have sw: "swaps_active V (fe_switch f)" using laws(2) by (simp add: lawful_fence_def)
  have "act_ok (run_at V f (Some ?j2) (new_active j)) (rollback E f ?j2) ?Q ?X"
    by (rule rollback_ok [OF laws f3]) simp_all
  moreover have "act_ok (run_at V f (Some ?j2) (new_active j))
      (act_bind (write_phase E f ?j2 Committed False) (\<lambda>_. act_return ResultCommitted)) ?Q ?X"
    by (rule bindc_ok [OF write_ok [OF laws f3 f4]], rule return_ok)
      (use f4 in \<open>auto simp: run_settled_def settled_def run_at_def run_fine_def\<close>)
  ultimately have finish: "act_ok (run_at V f (Some ?j2) (new_active j)) (case launched of None \<Rightarrow> rollback E f ?j2
       | Some health \<Rightarrow>
           if \<not> healthy health ?j2 (aj_target ?j2) then rollback E f ?j2
           else act_bind (write_phase E f ?j2 Committed False) (\<lambda>_. act_return ResultCommitted)) ?Q ?X" for launched
    by (simp split: option.split)
  have launched: "act_ok (run_at V f (Some ?j2) (new_active j))
      (act_catch (act_bind (launch E f ?j2 (aj_target ?j2)) (\<lambda>health. act_return (Some health)))
                 (act_bind (act_check E) (\<lambda>_. act_return None)))
      (\<lambda>_ s. run_at V f (Some ?j2) (new_active j) s \<and> True) ?X"
  proof (rule catch_ok)
    let ?P = "run_at V f (Some ?j2) (new_active j)"
    show "act_ok ?P (act_bind (launch E f ?j2 (aj_target ?j2)) (\<lambda>health. act_return (Some health))) (\<lambda>_ s. ?P s \<and> True) ?P"
      by (rule bindc_ok [OF launch_at [OF laws]], rule return_ok) simp
    show "act_ok ?P (act_bind (act_check E) (\<lambda>_. act_return None)) (\<lambda>_ s. ?P s \<and> True) ?X"
      by (rule bindc_ok [OF weaken_ok [OF check_ok [OF laws]]], assumption, assumption, erule run_at_fine [OF f3], rule return_ok) simp
  qed
  show ?thesis
    unfolding switch_over_def
    by (rule bindc_ok [OF parse_ok], erule run_at_fine [OF here], rule bindc_ok [OF write_ok [OF laws here f1]], simp only:,
        rule bind_ok, simp only: next_journal_simps, rule swap_call [OF laws sw f1 f2],
        rule bindc_ok [OF write_ok [OF laws f2 f3]], simp only:, rule bindc_ok [OF launched], rule finish)
qed

lemma uuid_ok:
  assumes "lawful V E"
  shows "act_ok (run_at V f J A) (uuid_now E) (\<lambda>_ s. run_at V f J A s \<and> True) X"
  using assms
  by (auto simp: act_ok_iff uuid_now_def run_at_def lawful_def split: prod.split dest!: quietD)

lemma activate_ok:
  assumes laws: "lawful V E" "lawful_fence V f" and here: "fine V a0 J A"
  shows "act_ok (run_at V f J A) (activate_target E f t) (run_settled V a0 f (Some t)) (run_fine V a0 f)"
proof -
  have sound: "act_ok (run_at V f J A) (act_and (act_call E (fe_verify f (ar_runtime A))) (act_call E (fe_verify f t)))
      (\<lambda>b s. run_at V f J A s \<and> (b \<longrightarrow> is_verified V (ar_runtime A) \<and> is_verified V t)) (run_fine V a0 f)"
    by (rule and_ok [OF judge_call(2) [OF laws here] judge_call(2) [OF laws here]])
  have over: "act_ok (run_at V f J A) (act_bind (uuid_now E) (\<lambda>id. act_bind (uuid_now E) (\<lambda>rollbackRevision.
             switch_over E f A \<lparr>aj_id = id, aj_generation = fe_generation f, aj_previousRevision = ar_revision A,
               aj_rollbackRevision = rollbackRevision, aj_phase = Prepared, aj_previous = ar_runtime A, aj_target = t\<rparr>)))
      (run_settled V a0 f (Some t)) (run_fine V a0 f)" if "is_qualified V t" "is_verified V t"
    by (intro bindc_ok [OF uuid_ok [OF laws(1)]],
        rule switch_over_ok [OF laws here, where j = "\<lparr>aj_id = _, aj_generation = _, aj_previousRevision = _, aj_rollbackRevision = _,
          aj_phase = _, aj_previous = _, aj_target = t\<rparr>", simplified])
      (use that in \<open>simp_all add: old_active_def trusted_def\<close>)
  show ?thesis
    unfolding activate_target_def
    apply (rule bindc_ok [OF judge_call(1) [OF laws here]])
    apply (rule if_ok, rule quarantined_ok [OF here], simp)
    apply (rule bindc_ok [OF active_call [OF laws here]])
    apply (simp only:)
    apply (rule bindc_ok [OF parse_ok], erule run_at_fine [OF here])
    apply (rule if_ok, rule quarantined_ok [OF here], simp)
    apply (rule bindc_ok [OF judge_call(1) [OF laws here]])
    apply (rule if_ok, rule quarantined_ok [OF here], simp)
    apply (rule bindc_ok [OF sound])
    apply (rule if_ok, rule quarantined_ok [OF here], simp)
    apply (rule over; simp)
    done
qed

lemma with_fence_ok:
  assumes laws: "lawful V E" "lawful_fence V f" and here: "fine V a0 J A"
  shows "act_ok (run_at V f J A) (with_fence E target f) (run_settled V a0 f target) (run_fine V a0 f)"
proof -
  have stored: "act_ok (run_at V f (Some j) A)
      (if aj_phase j \<noteq> Committed \<and> aj_phase j \<noteq> RolledBack then rollback E f j
       else case target of None \<Rightarrow> act_return (phase_result (aj_phase j)) | Some t \<Rightarrow> activate_target E f t)
      (run_settled V a0 f target) (run_fine V a0 f)" if "J = Some j" for j
  proof (rule if_ok)
    have h: "fine V a0 (Some j) A" using here that by simp
    show "act_ok (run_at V f (Some j) A) (rollback E f j) (run_settled V a0 f target) (run_fine V a0 f)"
      if "aj_phase j \<noteq> Committed \<and> aj_phase j \<noteq> RolledBack"
      by (rule rollback_ok [OF laws h]) (use that in simp_all)
    assume "\<not> (aj_phase j \<noteq> Committed \<and> aj_phase j \<noteq> RolledBack)"
    with h have "act_ok (run_at V f (Some j) A) (act_return (phase_result (aj_phase j))) (run_settled V a0 f None) (run_fine V a0 f)"
      by (intro return_ok) (auto simp: run_settled_def settled_def run_at_def run_fine_def fine_def)
    then show "act_ok (run_at V f (Some j) A)
      (case target of None \<Rightarrow> act_return (phase_result (aj_phase j)) | Some t \<Rightarrow> activate_target E f t)
      (run_settled V a0 f target) (run_fine V a0 f)"
      using activate_ok [OF laws h] by (cases target) simp_all
  qed
  show ?thesis
    unfolding with_fence_def
  proof (rule bindc_ok [OF read_call [OF laws here]])
    fix st
    assume "st = J"
    then show "act_ok (run_at V f J A) (case st of
       Some journal \<Rightarrow> act_bind (parse_with (activationJournalSchema (uuid_check E) journal)) (\<lambda>_.
         if aj_phase journal \<noteq> Committed \<and> aj_phase journal \<noteq> RolledBack then rollback E f journal
         else case target of None \<Rightarrow> act_return (phase_result (aj_phase journal)) | Some t \<Rightarrow> activate_target E f t)
     | None \<Rightarrow> (case target of None \<Rightarrow> act_return Deferred | Some t \<Rightarrow> activate_target E f t))
      (run_settled V a0 f target) (run_fine V a0 f)"
      using stored activate_ok [OF laws here] quarantined_ok [OF here, of Deferred] run_at_fine [OF here]
      by (cases J; cases target) (auto intro!: bindc_ok [OF parse_ok] simp del: if_split)
  qed
qed

text \<open>The whole run, with or without a fence.\<close>

definition open_at :: "'w activation_view \<Rightarrow> activation_journal option \<Rightarrow> active_runtime \<Rightarrow> 'w run_state \<Rightarrow> bool" where
  "open_at V J A s \<longleftrightarrow> journal_of V (rs_world s) = J \<and> active_of V (rs_world s) = A
     \<and> pred_option (lawful_fence V) (rs_fence s)"

definition open_fine :: "'w activation_view \<Rightarrow> active_runtime \<Rightarrow> 'w run_state \<Rightarrow> bool" where
  "open_fine V a0 s \<longleftrightarrow> fine V a0 (journal_of V (rs_world s)) (active_of V (rs_world s)) \<and> pred_option (lawful_fence V) (rs_fence s)"

lemma open_check:
  assumes "lawful V E"
  shows "act_ok (open_at V J A) (act_check E) (\<lambda>_ s. open_at V J A s \<and> True) (open_at V J A)"
  unfolding act_ok_iff
proof (intro allI impI)
  fix s
  assume s: "open_at V J A s"
  have "open_at V J A (snd (act_check E s))"
  proof (cases "rs_fence s")
    case None
    obtain now w where now: "now_ms E (rs_world s) = (now, w)" by (cases "now_ms E (rs_world s)")
    with assms s have "journal_of V w = J" "active_of V w = A"
      using quietD [of V "now_ms E" "rs_world s" now w] by (simp_all add: lawful_def open_at_def)
    then show ?thesis using now None by (simp add: act_check_def open_at_def Let_def split: option.split)
  next
    case (Some f)
    with s have "lawful_fence V f" "run_at V f J A s" by (simp_all add: open_at_def run_at_def)
    then show ?thesis using check_at [OF assms] by (fastforce simp: run_at_def open_at_def)
  qed
  then show "call_ok (open_at V J A) (act_check E s) (\<lambda>_ s. open_at V J A s \<and> True)"
    by (cases "act_check E s"; cases "fst (act_check E s)") simp_all
qed

lemma acquire_ok:
  assumes "lawful V E"
  shows "act_ok (open_at V J A) (acquire_fence E) (\<lambda>_ s. open_at V J A s \<and> True) (open_at V J A)"
  unfolding acquire_fence_def
proof (rule bindc_ok [OF open_check [OF assms]])
  fix u
  have q: "quiet V (acquire E)" "answers (acquire E) (\<lambda>w fo. \<forall>f. fo = Some f \<longrightarrow> lawful_fence V f)"
    using assms by (simp_all add: lawful_def)
  have fence: "pred_option (lawful_fence V) fo" if "acquire E w = (Inr fo, w')" for w fo w'
    using q(2) that by (cases fo) (auto simp: answers_def)
  show "act_ok (open_at V J A) (act_bind (await (acquire E)) (\<lambda>f s. (Inr (), s\<lparr>rs_fence := f\<rparr>))) (\<lambda>_ s. open_at V J A s \<and> True) (open_at V J A)"
    unfolding act_ok_iff
  proof (intro allI impI)
    fix s
    assume s: "open_at V J A s"
    obtain r w where r: "acquire E (rs_world s) = (r, w)" by (cases "acquire E (rs_world s)")
    with s quietD [OF q(1) r] fence
    show "call_ok (open_at V J A) (act_bind (await (acquire E)) (\<lambda>f s. (Inr (), s\<lparr>rs_fence := f\<rparr>)) s) (\<lambda>_ s. open_at V J A s \<and> True)"
      by (cases r) (auto simp: act_bind_def await_def open_at_def)
  qed
qed

lemma guarded_work_ok:
  assumes laws: "lawful V E" and here: "fine V a0 J A"
  shows "act_ok (open_at V J A) (guarded_work E target) (\<lambda>r s. open_fine V a0 s \<and> settled V target r (rs_world s)) (\<lambda>_. False)"
proof -
  have fine: "open_fine V a0 s" if "open_at V J A s" for s
    using that here by (auto simp: open_at_def open_fine_def)
  have body: "act_ok (open_at V J A) (\<lambda>s. (case rs_fence s of None \<Rightarrow> act_return Deferred | Some f \<Rightarrow> with_fence E target f) s)
      (\<lambda>r s. open_fine V a0 s \<and> settled V target r (rs_world s)) (open_fine V a0)"
    unfolding act_ok_iff
  proof (intro allI impI)
    fix s
    assume s: "open_at V J A s"
    show "call_ok (open_fine V a0) ((case rs_fence s of None \<Rightarrow> act_return Deferred | Some f \<Rightarrow> with_fence E target f) s)
        (\<lambda>r s. open_fine V a0 s \<and> settled V target r (rs_world s))"
    proof (cases "rs_fence s")
      case None
      then show ?thesis using fine [OF s] by (simp add: act_return_def settled_def)
    next
      case (Some f)
      with s have f: "lawful_fence V f" and at: "run_at V f J A s" by (simp_all add: open_at_def run_at_def)
      have "open_fine V a0 s'" if "run_fine V a0 f s'" for s'
        using that f by (simp add: run_fine_def open_fine_def)
      then show ?thesis
        using with_fence_ok [OF laws f here, of target] at Some
        by (cases "with_fence E target f s"; cases "fst (with_fence E target f s)") (auto simp: act_ok_iff run_settled_def dest!: spec [of _ s])
    qed
  qed
  show ?thesis
    unfolding guarded_work_def
  proof (rule catch_ok)
    show "act_ok (open_at V J A)
       (act_bind (acquire_fence E) (\<lambda>_. act_bind (act_check E) (\<lambda>_ s.
          (case rs_fence s of None \<Rightarrow> act_return Deferred | Some f \<Rightarrow> with_fence E target f) s)))
       (\<lambda>r s. open_fine V a0 s \<and> settled V target r (rs_world s)) (open_fine V a0)"
      by (rule bindc_ok [OF weaken_ok [OF acquire_ok [OF laws]]], assumption, assumption, erule fine,
          rule bindc_ok [OF weaken_ok [OF open_check [OF laws]]], assumption, assumption, erule fine, rule body)
    show "act_ok (open_fine V a0) (act_return Quarantined) (\<lambda>r s. open_fine V a0 s \<and> settled V target r (rs_world s)) (\<lambda>_. False)"
      by (rule return_ok) (simp add: settled_def)
  qed
qed

lemma run_work_ok:
  assumes "lawful V E" "consistent V w" "run_work E target w = (r, w')"
  shows "consistent V w' \<and> (active_of V w' = active_of V w \<or> trusted V (ar_runtime (active_of V w')))
    \<and> (\<forall>x. r = Inr x \<longrightarrow> settled V target x w')"
proof -
  let ?s0 = "\<lparr>rs_world = w, lastTime = None, deadline = None, rs_fence = None\<rparr>"
  have "fine V (active_of V w) (journal_of V w) (active_of V w)"
    using assms(2) by (simp add: fine_def consistent_def)
  from guarded_work_ok [OF assms(1) this, of target]
  have "call_ok (\<lambda>_. False) (guarded_work E target ?s0) (\<lambda>r s. open_fine V (active_of V w) s \<and> settled V target r (rs_world s))"
    by (simp add: act_ok_iff open_at_def)
  then obtain x s where work: "guarded_work E target ?s0 = (Inr x, s)"
    and s: "open_fine V (active_of V w) s" "settled V target x (rs_world s)"
    by (cases "guarded_work E target ?s0"; cases "fst (guarded_work E target ?s0)") auto
  obtain q s' where rel: "release_fence s = (q, s')" by (cases "release_fence s")
  have same: "journal_of V (rs_world s') = journal_of V (rs_world s) \<and> active_of V (rs_world s') = active_of V (rs_world s)"
  proof (cases "rs_fence s")
    case (Some f)
    then have "quiet V (fe_release f)" using s(1) by (simp add: open_fine_def lawful_fence_def)
    then show ?thesis
      using rel Some quietD [of V "fe_release f" "rs_world s"] by (auto simp: release_fence_def await_def split: prod.splits)
  qed (use rel in \<open>simp add: release_fence_def\<close>)
  have "w' = rs_world s'" "\<forall>y. r = Inr y \<longrightarrow> y = x"
    using assms(3) work rel by (auto simp: run_work_def act_bind_def act_return_def split: sum.splits prod.splits)
  then show ?thesis
    using s same by (auto simp: open_fine_def fine_def consistent_def settled_def)
qed

section \<open>Recovery with a willing world\<close>

text \<open>
  A world in which nothing fails: time stands still before every deadline, a fence is given, its
  operations succeed, vouched runtimes are judged so, and a started runtime answers as healthy.
\<close>

definition succeeds :: "('w, 'a) outside \<Rightarrow> bool" where
  "succeeds op \<longleftrightarrow> (\<forall>w. \<not> isl (fst (op w)))"

definition willing_fence :: "'w activation_view \<Rightarrow> 'w activation_fence \<Rightarrow> bool" where
  "willing_fence V f \<longleftrightarrow> lawful_fence V f \<and> 1 \<le> length (fe_generation f) \<and> length (fe_generation f) \<le> 128
     \<and> succeeds (assertHeld f) \<and> succeeds (fe_release f) \<and> succeeds (readJournal f) \<and> succeeds (fe_active f)
     \<and> (\<forall>j. succeeds (writeJournal f j)) \<and> (\<forall>e n w. active_of V w = e \<longrightarrow> \<not> isl (fst (fe_restore f e n w)))
     \<and> (\<forall>r w. is_verified V r \<longrightarrow> fst (fe_verify f r w) = Inr True)
     \<and> (\<forall>r w. is_qualified V r \<longrightarrow> fst (fe_qualified f r w) = Inr True)
     \<and> (\<forall>j r w. \<exists>h. fst (fe_start f j r w) = Inr h \<and> healthy h j r)
     \<and> (\<forall>j r w. \<exists>h. fst (fe_health f j r w) = Inr h \<and> healthy h j r)"

definition willing :: "'w activation_view \<Rightarrow> 'w activation_env \<Rightarrow> rat \<Rightarrow> bool" where
  "willing V E t \<longleftrightarrow> lawful V E \<and> 0 < timeoutMs E \<and> 0 < startupTimeoutMs E
     \<and> (\<forall>w. fst (now_ms E w) = Some t \<and> \<not> aborted E w \<and> \<not> watchdog_aborted E w
          \<and> (\<exists>f. fst (acquire E w) = Inr (Some f) \<and> willing_fence V f))"

definition timely :: "rat \<Rightarrow> 'w run_state \<Rightarrow> bool" where
  "timely t s \<longleftrightarrow> (lastTime s = None \<or> lastTime s = Some t) \<and> pred_option (\<lambda>d. t < d) (deadline s)"

definition sure_at :: "'w activation_view \<Rightarrow> rat \<Rightarrow> 'w activation_fence \<Rightarrow> activation_journal option \<Rightarrow> active_runtime \<Rightarrow> 'w run_state \<Rightarrow> bool" where
  "sure_at V t f J A s \<longleftrightarrow> run_at V f J A s \<and> timely t s"

lemma timely_check:
  assumes "willing V E t" "timely t s" "pred_option (willing_fence V) (rs_fence s)"
  shows "\<exists>s'. act_check E s = (Inr (), s') \<and> timely t s' \<and> lastTime s' = Some t \<and> rs_fence s' = rs_fence s
    \<and> unchanged V (rs_world s) (rs_world s')"
proof -
  obtain w where now: "now_ms E (rs_world s) = (Some t, w)" and ab: "\<not> aborted E w"
    using assms(1) by (metis prod.collapse willing_def)
  have same: "unchanged V (rs_world s) w"
    using assms(1) quietD [of V "now_ms E" "rs_world s" "Some t" w] now by (simp add: willing_def lawful_def unchanged_def)
  define d where "d = (case deadline s of None \<Rightarrow> t + of_int (timeoutMs E) | Some d \<Rightarrow> d)"
  have d: "t < d" using assms(1,2) by (auto simp: d_def timely_def willing_def split: option.split)
  let ?s2 = "s\<lparr>rs_world := w, lastTime := Some t, deadline := Some d\<rparr>"
  have eq: "act_check E s = (case rs_fence s of None \<Rightarrow> (Inr (), ?s2) | Some f \<Rightarrow> await (assertHeld f) ?s2)"
    using now ab d assms(2) by (auto simp: act_check_def d_def [symmetric] timely_def Let_def split: option.split)
  show ?thesis
  proof (cases "rs_fence s")
    case None
    then show ?thesis using eq same d by (simp add: timely_def)
  next
    case (Some f)
    with assms(3) have f: "succeeds (assertHeld f)" "quiet V (assertHeld f)" by (simp_all add: willing_fence_def lawful_fence_def)
    obtain r w' where r: "assertHeld f w = (r, w')" by (cases "assertHeld f w")
    with f(1) have "r = Inr ()" by (cases r) (auto simp: succeeds_def dest!: spec [of _ w])
    then show ?thesis
      using eq Some r same d quietD [OF f(2) r] by (simp add: await_def timely_def unchanged_def)
  qed
qed

lemma sure_check:
  assumes "willing V E t" "willing_fence V f"
  shows "act_ok (sure_at V t f J A) (act_check E) (\<lambda>_ s. sure_at V t f J A s \<and> lastTime s = Some t) (\<lambda>_. False)"
  unfolding act_ok_iff
proof (intro allI impI)
  fix s
  assume s: "sure_at V t f J A s"
  then show "call_ok (\<lambda>_. False) (act_check E s) (\<lambda>_ s. sure_at V t f J A s \<and> lastTime s = Some t)"
    using timely_check [OF assms(1), of s] assms(2) by (auto simp: sure_at_def run_at_def unchanged_def)
qed

lemma sure_call:
  assumes "willing V E t" "willing_fence V f"
    and op: "\<And>w. journal_of V w = J \<Longrightarrow> active_of V w = A \<Longrightarrow>
      \<exists>a w'. op w = (Inr a, w') \<and> C a \<and> journal_of V w' = J' \<and> active_of V w' = A'"
  shows "act_ok (sure_at V t f J A) (act_call E op) (\<lambda>a s. (sure_at V t f J' A' s \<and> lastTime s = Some t) \<and> C a) (\<lambda>_. False)"
  unfolding act_call_def
proof (rule bind_ok [OF sure_check [OF assms(1,2)]])
  fix u :: unit
  have "act_ok (\<lambda>s. sure_at V t f J A s \<and> lastTime s = Some t) (await op) (\<lambda>a s. sure_at V t f J' A' s \<and> C a) (\<lambda>_. False)"
    using op by (fastforce simp: act_ok_iff await_def sure_at_def run_at_def timely_def)
  then show "act_ok (\<lambda>s. sure_at V t f J A s \<and> lastTime s = Some t)
     (act_bind (await op) (\<lambda>result. act_bind (act_check E) (\<lambda>_. act_return result)))
     (\<lambda>a s. (sure_at V t f J' A' s \<and> lastTime s = Some t) \<and> C a) (\<lambda>_. False)"
    by (rule bindc_ok, intro bind_ok [OF sure_check [OF assms(1,2)]] return_ok) simp
qed

lemma sure_quiet:
  assumes "willing V E t" "willing_fence V f" "quiet V op"
    and "\<And>w. journal_of V w = J \<Longrightarrow> active_of V w = A \<Longrightarrow> \<exists>a. fst (op w) = Inr a \<and> C a"
  shows "act_ok (sure_at V t f J A) (act_call E op) (\<lambda>a s. sure_at V t f J A s \<and> C a) (\<lambda>_. False)"
proof (rule weaken_ok [OF sure_call [OF assms(1,2)]])
  fix w
  assume w: "journal_of V w = J" "active_of V w = A"
  obtain a where "fst (op w) = Inr a" "C a" using assms(4) [OF w] by blast
  then show "\<exists>a w'. op w = (Inr a, w') \<and> C a \<and> journal_of V w' = J \<and> active_of V w' = A"
    using quietD [OF assms(3)] w by (metis prod.collapse)
qed auto

lemma schema_next:
  "activationJournalSchema u j \<Longrightarrow> willing_fence V f \<Longrightarrow> activationJournalSchema u (next_journal f j ph l)"
  by (simp add: activationJournalSchema_def next_journal_def willing_fence_def)

lemma sure_write:
  assumes w: "willing V E t" "willing_fence V f" and j: "activationJournalSchema (uuid_check E) j"
  shows "act_ok (sure_at V t f J A) (write_phase E f j ph l)
    (\<lambda>j' s. sure_at V t f (Some (next_journal f j ph l)) A s \<and> j' = next_journal f j ph l) (\<lambda>_. False)"
proof -
  let ?n = "next_journal f j ph l"
  have "\<exists>a w'. writeJournal f ?n w = (Inr a, w') \<and> True \<and> journal_of V w' = Some ?n \<and> active_of V w' = A"
    if "active_of V w = A" for w
  proof -
    have "\<not> isl (fst (writeJournal f ?n w))" using w(2) by (simp add: willing_fence_def succeeds_def)
    moreover have "active_of V (snd (writeJournal f ?n w)) = A"
      "journal_of V (snd (writeJournal f ?n w)) = Some ?n \<or> isl (fst (writeJournal f ?n w))"
      using w(2) that by (auto simp: willing_fence_def lawful_fence_def writes_journal_def)
    ultimately show ?thesis
      by (cases "writeJournal f ?n w"; cases "fst (writeJournal f ?n w)") simp_all
  qed
  from sure_call [OF w this, of J]
  have call: "act_ok (sure_at V t f J A) (act_call E (writeJournal f ?n)) (\<lambda>_. sure_at V t f (Some ?n) A) (\<lambda>_. False)"
    by (rule weaken_ok) auto
  have parse: "parse_with (activationJournalSchema (uuid_check E) ?n) = act_return ()"
    using schema_next [OF j w(2)] by (simp add: parse_with_def)
  show ?thesis
    unfolding write_phase_def Let_def parse return_bind by (rule bind_ok [OF call], rule return_ok) simp
qed

lemma sure_restore:
  assumes w: "willing V E t" "willing_fence V f"
  shows "act_ok (sure_at V t f J A) (act_call E (fe_restore f A n)) (\<lambda>_. sure_at V t f J n) (\<lambda>_. False)"
proof -
  have "\<exists>a w'. fe_restore f A n w = (Inr a, w') \<and> True \<and> journal_of V w' = J \<and> active_of V w' = n"
    if "journal_of V w = J" "active_of V w = A" for w
  proof -
    have "\<not> isl (fst (fe_restore f A n w))" using w(2) that unfolding willing_fence_def by blast
    moreover have "swaps_active V (fe_restore f)" using w(2) by (simp add: willing_fence_def lawful_fence_def)
    ultimately show ?thesis
      using that swaps_activeD [of V "fe_restore f" A n w]
      by (cases "fe_restore f A n w"; cases "fst (fe_restore f A n w)") auto
  qed
  from sure_call [OF w this] show ?thesis by (rule weaken_ok) auto
qed

lemma sure_launch:
  assumes w: "willing V E t" "willing_fence V f"
  shows "act_ok (sure_at V t f J A) (launch E f j r) (\<lambda>h s. sure_at V t f J A s \<and> healthy h j r) (\<lambda>_. False)"
proof -
  have "\<exists>h w'. fe_start f j r w = (Inr h, w') \<and> healthy h j r \<and> journal_of V w' = J \<and> active_of V w' = A"
    if "journal_of V w = J" "active_of V w = A" for w
  proof -
    have q: "quiet V (fe_start f j r)" using w(2) by (simp add: willing_fence_def lawful_fence_def)
    obtain h where "fst (fe_start f j r w) = Inr h" "healthy h j r" using w(2) unfolding willing_fence_def by blast
    then show ?thesis using quietD [OF q] that by (metis prod.collapse)
  qed
  note start = sure_call [OF w this, of J A]
  have pos: "t + of_int (startupTimeoutMs E) > t" "\<not> watchdog_aborted E x" for x
    using w(1) by (simp_all add: willing_def)
  have "act_ok (sure_at V t f J A) (act_bind (act_call E (fe_start f j r)) (\<lambda>result s'.
      (Inr (if watchdog_aborted E (rs_world s') \<or> the (lastTime s') \<ge> t + of_int (startupTimeoutMs E) then None else result), s')))
      (\<lambda>h s. sure_at V t f J A s \<and> healthy h j r) (\<lambda>_. False)"
    by (rule bind_ok [OF start]) (use pos in \<open>auto simp: act_ok_iff\<close>)
  then show ?thesis
    unfolding launch_def
    by (intro bind_ok [OF sure_check [OF w]]) (auto simp: act_ok_iff Let_def)
qed

text \<open>
  What recovery leaves: the journal it found, closed as rolled back (its generation is that of the
  last launch), and the active runtime \<open>B\<close>; and where it puts the active runtime.
\<close>

definition closed_journal :: "activation_journal \<Rightarrow> activation_journal \<Rightarrow> bool" where
  "closed_journal j j' \<longleftrightarrow> (\<exists>g. j' = j\<lparr>aj_phase := RolledBack, aj_generation := g\<rparr>)"

definition undone_active :: "activation_journal \<Rightarrow> active_runtime \<Rightarrow> active_runtime" where
  "undone_active j A = (if aj_phase j = Prepared \<and> A = old_active j then old_active j else restored_active j)"

definition recovered :: "'w activation_view \<Rightarrow> rat \<Rightarrow> 'w activation_fence \<Rightarrow> activation_journal \<Rightarrow> active_runtime
    \<Rightarrow> activation_result \<Rightarrow> 'w run_state \<Rightarrow> bool" where
  "recovered V t f j B r s \<longleftrightarrow> (\<exists>j'. sure_at V t f (Some j') B s \<and> closed_journal j j') \<and> r = ResultRolledBack"

lemma closed_next [simp]: "closed_journal (next_journal f j ph l) j' = closed_journal j j'"
  by (simp add: closed_journal_def next_journal_def)

lemma closed_by_next: "closed_journal j (next_journal f j RolledBack l)"
  unfolding closed_journal_def next_journal_def by blast

lemma recovered_next: "recovered V t f (next_journal f j ph l) = recovered V t f j"
  by (simp add: recovered_def fun_eq_iff)

lemma sure_rolled_back:
  assumes w: "willing V E t" "willing_fence V f" and j: "activationJournalSchema (uuid_check E) j"
  shows "act_ok (sure_at V t f J A) (rolled_back E f j) (recovered V t f j A) (\<lambda>_. False)"
  unfolding rolled_back_def
  by (rule bindc_ok [OF sure_write [OF w j]], rule return_ok) (auto simp: recovered_def closed_by_next)

lemma sure_restore_previous:
  assumes w: "willing V E t" "willing_fence V f" and j: "activationJournalSchema (uuid_check E) j"
  shows "act_ok (sure_at V t f J A) (restore_previous E f j A) (recovered V t f j (restored_active j)) (\<lambda>_. False)"
proof -
  let ?j1 = "next_journal f j Rollback False"
  let ?j2 = "next_journal f ?j1 Restarting True"
  have j1: "activationJournalSchema (uuid_check E) ?j1" and j2: "activationJournalSchema (uuid_check E) ?j2"
    using schema_next [OF _ w(2)] j by blast+
  show ?thesis
    unfolding restore_previous_def
    apply (rule bindc_ok [OF sure_write [OF w j]])
    apply (rule bind_ok [OF sure_restore [OF w]])
    apply (simp only:)
    apply (rule bindc_ok [OF sure_write [OF w j1]])
    apply (simp only:)
    apply (rule bindc_ok [OF sure_launch [OF w]])
    using sure_rolled_back [OF w j2]
    apply (simp add: recovered_next)
    done
qed

lemma sure_rollback:
  assumes w: "willing V E t" "willing_fence V f" and j: "activationJournalSchema (uuid_check E) j"
    and A: "explained j A" "aj_phase j \<noteq> Committed" "aj_phase j \<noteq> RolledBack" and tr: "trusted V (aj_previous j)"
  shows "act_ok (sure_at V t f (Some j) A) (rollback E f j) (recovered V t f j (undone_active j A)) (\<lambda>_. False)"
proof -
  note laws = w(2) [unfolded willing_fence_def lawful_fence_def]
  have active: "act_ok (sure_at V t f (Some j) A) (act_call E (fe_active f)) (\<lambda>a s. sure_at V t f (Some j) A s \<and> a = A) (\<lambda>_. False)"
  proof (rule sure_quiet [OF w])
    show "quiet V (fe_active f)" using laws by blast
    fix x
    assume "active_of V x = A"
    moreover have "\<not> isl (fst (fe_active f x))" "\<And>a x'. fe_active f x = (Inr a, x') \<Longrightarrow> a = active_of V x"
      using laws by (auto simp: succeeds_def answers_def)
    ultimately show "\<exists>a. fst (fe_active f x) = Inr a \<and> a = A"
      by (cases "fe_active f x"; cases "fst (fe_active f x)") auto
  qed
  have qual: "act_ok (sure_at V t f (Some j) A) (act_call E (fe_qualified f (aj_previous j))) (\<lambda>b s. sure_at V t f (Some j) A s \<and> b) (\<lambda>_. False)"
    and ver: "act_ok (sure_at V t f (Some j) A) (act_call E (fe_verify f (aj_previous j))) (\<lambda>b s. sure_at V t f (Some j) A s \<and> b) (\<lambda>_. False)"
    using laws tr by (auto intro!: sure_quiet [OF w] simp: trusted_def)
  have judged: "act_ok (sure_at V t f (Some j) A)
      (act_and (act_call E (fe_qualified f (aj_previous j))) (act_call E (fe_verify f (aj_previous j))))
      (\<lambda>b s. sure_at V t f (Some j) A s \<and> b) (\<lambda>_. False)"
    unfolding act_and_def by (rule bindc_ok [OF qual]) (simp add: ver)
  have health: "act_ok (sure_at V t f (Some j) A) (act_call E (fe_health f j (aj_previous j)))
      (\<lambda>h s. sure_at V t f (Some j) A s \<and> healthy h j (aj_previous j)) (\<lambda>_. False)"
    using laws by (auto intro!: sure_quiet [OF w])
  have written: "act_ok (sure_at V t f (Some j) A) (rolled_back E f j) (recovered V t f j A) (\<lambda>_. False)"
    by (rule sure_rolled_back [OF w j])
  have again: "act_ok (sure_at V t f (Some j) A) (act_bind (act_call E (fe_health f j (aj_previous j))) (\<lambda>health.
          if \<not> healthy health j (aj_previous j) then act_return Quarantined else rolled_back E f j)) (recovered V t f j A) (\<lambda>_. False)"
    by (rule bindc_ok [OF health]) (simp add: written)
  have known: "A = new_active j \<or> A = old_active j \<or> A = restored_active j" "aj_phase j = Restarting \<Longrightarrow> A = restored_active j"
    using A by (auto split: activation_phase.splits)
  have phase: "act_ok (sure_at V t f (Some j) A) (rollback_by_phase E f j A) (recovered V t f j (undone_active j A)) (\<lambda>_. False)"
    unfolding rollback_by_phase_def sameActive_iff
  proof (intro if_ok)
    show "act_ok (sure_at V t f (Some j) A) (rolled_back E f j) (recovered V t f j (undone_active j A)) (\<lambda>_. False)"
      if "aj_phase j = Prepared \<and> A = old_active j"
      using written that by (simp add: undone_active_def)
    show "act_ok (sure_at V t f (Some j) A) (restore_previous E f j A) (recovered V t f j (undone_active j A)) (\<lambda>_. False)"
      if "\<not> (aj_phase j = Prepared \<and> A = old_active j)"
    proof -
      from that have "undone_active j A = restored_active j" by (auto simp: undone_active_def)
      then show ?thesis using sure_restore_previous [OF w j] by simp
    qed
    assume "aj_phase j = Restarting"
    then show "act_ok (sure_at V t f (Some j) A) (act_bind (act_call E (fe_health f j (aj_previous j))) (\<lambda>health.
          if \<not> healthy health j (aj_previous j) then act_return Quarantined else rolled_back E f j))
        (recovered V t f j (undone_active j A)) (\<lambda>_. False)"
      using again known(2) by (simp add: undone_active_def)
  qed (use known(2) in simp)
  show ?thesis
    unfolding rollback_def
    apply (rule bindc_ok [OF active])
    apply (simp only: sameActive_iff)
    apply (rule if_ok)
    using known(1) apply blast
    apply (rule bindc_ok [OF judged])
    apply (simp add: phase)
    done
qed

lemma sure_run:
  assumes w: "willing V E t" and j: "journal_of V x = Some j" "activationJournalSchema (uuid_check E) j" "consistent V x"
    and ph: "aj_phase j \<noteq> Committed" "aj_phase j \<noteq> RolledBack" and tr: "trusted V (aj_previous j)"
  shows "\<exists>x' j'. run_work E None x = (Inr ResultRolledBack, x') \<and> journal_of V x' = Some j' \<and> closed_journal j j'
    \<and> active_of V x' = undone_active j (active_of V x)"
proof -
  let ?s0 = "\<lparr>rs_world = x, lastTime = None, deadline = None, rs_fence = None\<rparr>"
  obtain s1 where s1: "act_check E ?s0 = (Inr (), s1)" "timely t s1" "unchanged V x (rs_world s1)"
    using timely_check [OF w, of ?s0] by (auto simp: timely_def)
  obtain f x2 where f: "acquire E (rs_world s1) = (Inr (Some f), x2)" "willing_fence V f"
    using w unfolding willing_def by (metis prod.collapse)
  have x2: "unchanged V (rs_world s1) x2"
    using quietD [of V "acquire E", OF _ f(1)] w by (simp add: willing_def lawful_def unchanged_def)
  let ?s2 = "s1\<lparr>rs_world := x2, rs_fence := Some f\<rparr>"
  obtain s3 where s3: "act_check E ?s2 = (Inr (), s3)" "timely t s3" "rs_fence s3 = Some f" "unchanged V x2 (rs_world s3)"
    using timely_check [OF w, of ?s2] s1(2) f(2) by (auto simp: timely_def)
  let ?A = "active_of V x"
  have at: "sure_at V t f (Some j) ?A s3"
    using s1(3) x2 s3 j(1) by (simp add: sure_at_def run_at_def unchanged_def)
  have ex: "explained j ?A" using j by (simp add: consistent_def)
  have read: "act_ok (sure_at V t f (Some j) ?A) (act_call E (readJournal f)) (\<lambda>r s. sure_at V t f (Some j) ?A s \<and> r = Some j) (\<lambda>_. False)"
  proof (rule sure_quiet [OF w f(2)])
    note laws = f(2) [unfolded willing_fence_def lawful_fence_def]
    show "quiet V (readJournal f)" using laws by blast
    fix y
    assume "journal_of V y = Some j"
    moreover have "\<not> isl (fst (readJournal f y))" "\<And>a y'. readJournal f y = (Inr a, y') \<Longrightarrow> a = journal_of V y"
      using laws by (auto simp: succeeds_def answers_def)
    ultimately show "\<exists>a. fst (readJournal f y) = Inr a \<and> a = Some j"
      by (cases "readJournal f y"; cases "fst (readJournal f y)") auto
  qed
  have "act_ok (sure_at V t f (Some j) ?A) (with_fence E None f) (recovered V t f j (undone_active j ?A)) (\<lambda>_. False)"
    unfolding with_fence_def
    using sure_rollback [OF w f(2) j(2) ex ph tr] j(2) ph
    by (intro bindc_ok [OF read]) (simp add: parse_with_def return_bind)
  with at obtain s4 j' where s4: "with_fence E None f s3 = (Inr ResultRolledBack, s4)" "rs_fence s4 = Some f"
    "journal_of V (rs_world s4) = Some j'" "active_of V (rs_world s4) = undone_active j ?A" "closed_journal j j'"
    unfolding act_ok_iff
    by (cases "with_fence E None f s3"; cases "fst (with_fence E None f s3)") (auto simp: recovered_def sure_at_def run_at_def dest!: spec [of _ s3])
  have work: "guarded_work E None ?s0 = (Inr ResultRolledBack, s4)"
    using s1(1) f(1) s3(1,3) s4(1)
    by (simp add: guarded_work_def acquire_fence_def act_catch_def act_bind_def await_def)
  obtain r x' where r: "fe_release f (rs_world s4) = (r, x')" by (cases "fe_release f (rs_world s4)")
  have released: "quiet V (fe_release f)" "succeeds (fe_release f)" using f(2) by (simp_all add: willing_fence_def lawful_fence_def)
  then obtain u where "r = Inr u" using r by (cases r) (auto simp: succeeds_def dest!: spec [of _ "rs_world s4"])
  with work r s4(2) have "run_work E None x = (Inr ResultRolledBack, x')"
    by (simp add: run_work_def act_bind_def release_fence_def await_def act_return_def)
  then show ?thesis using s4(3-5) quietD [OF released(1) r] by simp
qed

section \<open>Properties\<close>

text \<open>
  C11. Crash consistency. Through any number of calls of activate and recover, each of which may
  fail at any point with or without the failing effect having landed, the stored journal always
  accounts for the active runtime, and the active runtime is never one that qualification and
  verification did not both vouch for, unless it is the one the sequence began with.
\<close>

theorem activation_is_recoverable:
  assumes "lawful V E" "consistent V w"
    and "w' = fold (\<lambda>(busy, expired, target) w. snd (activation_run E busy expired target w)) runs w"
  shows "consistent V w' \<and> (active_of V w' = active_of V w \<or> trusted V (ar_runtime (active_of V w')))"
  using assms(2,3)
proof (induction runs arbitrary: w)
  case (Cons c runs)
  obtain busy expired target where c: "c = (busy, expired, target)" by (cases c)
  let ?w = "snd (activation_run E busy expired target w)"
  have step: "consistent V ?w \<and> (active_of V ?w = active_of V w \<or> trusted V (ar_runtime (active_of V ?w)))"
    using run_work_ok [OF assms(1) Cons.prems(1), of target] Cons.prems(1)
    by (cases "run_work E target w") (simp add: activation_run_def)
  then show ?case using Cons.IH [of ?w] Cons.prems(2) c by auto
qed simp

text \<open>
  C25. The answer of a run is the truth about the stored state: committed means that the journal
  records a committed activation, of the requested target, whose runtime is active under the
  journal's id; rolled back means that the previous runtime is active again.
\<close>

theorem activation_answer_is_true:
  assumes "lawful V E" "consistent V w" "activation_run E busy expired target w = (Inr r, w')"
  shows "(r = ResultCommitted \<longrightarrow> (\<exists>j. journal_of V w' = Some j \<and> aj_phase j = Committed \<and> active_of V w' = new_active j
      \<and> (\<forall>t. target = Some t \<longrightarrow> ar_runtime (active_of V w') = t)))
    \<and> (r = ResultRolledBack \<longrightarrow> (\<exists>j. journal_of V w' = Some j \<and> aj_phase j = RolledBack
      \<and> ar_runtime (active_of V w') = aj_previous j))"
proof (cases "busy \<or> expired")
  case True
  then show ?thesis using assms(3) by (auto simp: activation_run_def split: prod.splits if_splits)
next
  case False
  then show ?thesis
    using assms(3) run_work_ok [OF assms(1,2), of target "Inr r" w'] by (auto simp: activation_run_def settled_def split: prod.splits)
qed

text \<open>
  C26. An interrupted activation can always be recovered: from every consistent state with an
  unfinished, well-formed journal whose previous runtime is vouched for, one call of recover in a
  world where nothing fails answers rolled back, and leaves that same journal closed, its
  identity, revisions and runtimes as they were, with the previous runtime active: under the
  revision it had when the switch had not happened yet, and otherwise restored under the
  journal's rollback revision.
\<close>

theorem recovery_completes:
  assumes "willing V E t" "journal_of V w = Some j" "activationJournalSchema (uuid_check E) j" "consistent V w"
    and "aj_phase j \<noteq> Committed" "aj_phase j \<noteq> RolledBack" "trusted V (aj_previous j)"
  shows "\<exists>w' g. recover E False False w = (Inr ResultRolledBack, w')
    \<and> journal_of V w' = Some (j\<lparr>aj_phase := RolledBack, aj_generation := g\<rparr>)
    \<and> active_of V w' = \<lparr>ar_revision = (if aj_phase j = Prepared \<and> active_of V w = old_active j
          then aj_previousRevision j else aj_rollbackRevision j), ar_runtime = aj_previous j\<rparr>"
  using sure_run [OF assms]
  by (auto simp: recover_def activation_run_def closed_journal_def undone_active_def old_active_def restored_active_def)

section \<open>Witnesses\<close>

text \<open>A world that is only its journal and its active runtime, with a supervisor that never fails.\<close>

definition sample_runtime :: "string \<Rightarrow> activation_runtime" where
  "sample_runtime v = \<lparr>rt_version = v, rt_sha256 = replicate 64 CHR ''a'', rt_sourceCommit = replicate 40 CHR ''b'',
     rt_runtimeLockDigest = ''sha256:'' @ replicate 64 CHR ''c'', rt_receiptDigest = replicate 64 CHR ''d'', rt_path = [47]\<rparr>"

definition sample_journal :: "activation_phase \<Rightarrow> activation_journal" where
  "sample_journal ph = \<lparr>aj_id = ''u2'', aj_generation = [103], aj_previousRevision = ''u1'', aj_rollbackRevision = ''u3'',
     aj_phase = ph, aj_previous = sample_runtime ''1.0.0'', aj_target = sample_runtime ''2.0.0''\<rparr>"

definition sample_health :: "activation_journal \<Rightarrow> activation_runtime \<Rightarrow> activation_health" where
  "sample_health j r = \<lparr>ah_id = aj_id j, ah_generation = aj_generation j, ah_runtime = r, ah_profileOwned = True,
     ah_stateReady = True, ah_listenerReady = True, ah_healthy = True\<rparr>"

type_synonym sample_world = "activation_journal option \<times> active_runtime"

definition sample_swap :: "active_runtime \<Rightarrow> active_runtime \<Rightarrow> (sample_world, unit) outside" where
  "sample_swap e n w = (if snd w = e then (Inr (), (fst w, n)) else (Inl (FenceError 1), w))"

definition sample_fence :: "sample_world activation_fence" where
  "sample_fence = \<lparr>fe_generation = [103], assertHeld = (\<lambda>w. (Inr (), w)), fe_release = (\<lambda>w. (Inr (), w)),
     readJournal = (\<lambda>w. (Inr (fst w), w)), writeJournal = (\<lambda>j w. (Inr (), (Some j, snd w))), fe_active = (\<lambda>w. (Inr (snd w), w)),
     fe_verify = (\<lambda>r w. (Inr True, w)), fe_qualified = (\<lambda>r w. (Inr True, w)), fe_switch = sample_swap, fe_restore = sample_swap,
     fe_start = (\<lambda>j r w. (Inr (Some (sample_health j r)), w)), fe_health = (\<lambda>j r w. (Inr (Some (sample_health j r)), w))\<rparr>"

definition sample_env :: "sample_world activation_env" where
  "sample_env = \<lparr>acquire = (\<lambda>w. (Inr (Some sample_fence), w)), now_ms = (\<lambda>w. (Some 0, w)), aborted = (\<lambda>_. False),
     watchdog_aborted = (\<lambda>_. False), randomUUID = (\<lambda>w. (''u4'', w)), uuid_check = (\<lambda>_. True), timeoutMs = 1000, startupTimeoutMs = 500\<rparr>"

definition sample_view :: "sample_world activation_view" where
  "sample_view = \<lparr>journal_of = fst, active_of = snd, is_qualified = (\<lambda>_. True), is_verified = (\<lambda>_. True)\<rparr>"

lemmas sample_world_defs = sample_fence_def sample_view_def sample_env_def sample_swap_def sample_health_def

lemma sample_lawful: "lawful sample_view sample_env" "willing sample_view sample_env 0"
proof -
  have "lawful_fence sample_view sample_fence"
    by (simp add: lawful_fence_def quiet_def unchanged_def answers_def writes_journal_def swaps_active_def sample_world_defs)
  moreover from this have "willing_fence sample_view sample_fence"
    by (simp add: willing_fence_def succeeds_def healthy_def sample_world_defs)
  ultimately show "lawful sample_view sample_env" "willing sample_view sample_env 0"
    by (simp_all add: lawful_def willing_def quiet_def unchanged_def answers_def)
      (simp_all add: sample_env_def)
qed

lemma sample_versions: "updateVersionSchema ''1.0.0''" "updateVersionSchema ''2.0.0''"
  by code_simp+

lemma sample_runtime_valid: "updateVersionSchema v \<Longrightarrow> activationRuntimeSchema (sample_runtime v)"
  unfolding activationRuntimeSchema_def sample_runtime_def digestSchema_def
  using tagged_hex_replicate [of "[]" 64 "CHR ''a''"] tagged_hex_replicate [of "[]" 40 "CHR ''b''"]
    tagged_hex_replicate [of "''sha256:''" 64 "CHR ''c''"] tagged_hex_replicate [of "[]" 64 "CHR ''d''"]
  by (simp add: hex_lower_def)

lemma sample_journal_valid: "activationJournalSchema (uuid_check sample_env) (sample_journal ph)"
  using sample_runtime_valid sample_versions
  by (simp add: activationJournalSchema_def sample_journal_def sample_env_def) (simp add: sample_runtime_def)

lemma sample_consistent: "consistent sample_view (Some (sample_journal Committed), new_active (sample_journal Committed))"
  "consistent sample_view (Some (sample_journal Starting), new_active (sample_journal Starting))"
  by (simp_all add: consistent_def sample_view_def sample_journal_def)

theorem activation_is_recoverable_witness:
  "consistent sample_view (snd (activation_run sample_env False False (Some (sample_runtime ''1.0.0''))
     (Some (sample_journal Committed), new_active (sample_journal Committed))))"
  using activation_is_recoverable [OF sample_lawful(1) sample_consistent(1) refl,
    where runs = "[(False, False, Some (sample_runtime ''1.0.0''))]"] by simp

theorem activation_answer_is_true_witness:
  "\<exists>w'. activation_run sample_env False False None (Some (sample_journal Starting), new_active (sample_journal Starting))
      = (Inr ResultRolledBack, w')
    \<and> (\<exists>j. journal_of sample_view w' = Some j \<and> aj_phase j = RolledBack \<and> ar_runtime (active_of sample_view w') = aj_previous j)"
proof -
  let ?w = "(Some (sample_journal Starting), new_active (sample_journal Starting))"
  have "\<exists>w' j'. run_work sample_env None ?w = (Inr ResultRolledBack, w') \<and> journal_of sample_view w' = Some j'
      \<and> closed_journal (sample_journal Starting) j' \<and> active_of sample_view w' = undone_active (sample_journal Starting) (active_of sample_view ?w)"
    by (rule sure_run [OF sample_lawful(2) _ sample_journal_valid [of Starting] sample_consistent(2)])
      (simp_all add: sample_view_def sample_journal_def trusted_def)
  then obtain w' where "activation_run sample_env False False None ?w = (Inr ResultRolledBack, w')"
    by (auto simp: activation_run_def)
  then show ?thesis
    using activation_answer_is_true [OF sample_lawful(1) sample_consistent(2)] by blast
qed

theorem recovery_completes_witness:
  "\<exists>w' g. recover sample_env False False (Some (sample_journal Starting), new_active (sample_journal Starting)) = (Inr ResultRolledBack, w')
     \<and> journal_of sample_view w' = Some (sample_journal Starting\<lparr>aj_phase := RolledBack, aj_generation := g\<rparr>)
     \<and> active_of sample_view w' = \<lparr>ar_revision = ''u3'', ar_runtime = sample_runtime ''1.0.0''\<rparr>"
proof -
  let ?w = "(Some (sample_journal Starting), new_active (sample_journal Starting))"
  have "journal_of sample_view ?w = Some (sample_journal Starting)" by (simp add: sample_view_def)
  note run = recovery_completes [OF sample_lawful(2) this sample_journal_valid [of Starting] sample_consistent(2)]
  have parts: "aj_phase (sample_journal Starting) = Starting" "aj_rollbackRevision (sample_journal Starting) = ''u3''"
    "aj_previous (sample_journal Starting) = sample_runtime ''1.0.0''"
    by (simp_all add: sample_journal_def)
  moreover have "trusted sample_view r" for r by (simp add: trusted_def sample_view_def)
  ultimately show ?thesis using run by simp
qed

end
