(* ===== verification/Terminal_Reader.thy ===== *)
theory Terminal_Reader
  imports Domovoi_Prelude
begin

text \<open>
  How the phone reads a terminal's output without drawing it (the \<open>Reader\<close>, \<open>readPiece\<close>,
  \<open>nextLineStart\<close> and \<open>readableCut\<close> of apps/mobile/src/terminal-line-model.ts): the states of
  the DEC VT parser, what one piece of output draws, and where the front of a record may be cut
  so that the rest still reads as the terminal read it.

  A text is its UTF-16 code units; \<open>for (const char of text)\<close> goes through its characters, a
  surrogate pair as one character of two units and a lone surrogate as a character of its own.
\<close>

section \<open>Characters\<close>

fun characters :: "js_string \<Rightarrow> js_string list" where
  "characters [] = []"
| "characters [c] = [[c]]"
| "characters (c # d # s) =
     (if high_surrogate c \<and> low_surrogate d then [c, d] # characters s else [c] # characters (d # s))"

text \<open>\<open>char.codePointAt(0)\<close>.\<close>

fun code_point :: "js_string \<Rightarrow> nat" where
  "code_point [] = 0"
| "code_point [c] = unat c"
| "code_point (c # d # s) =
     (if high_surrogate c \<and> low_surrogate d then 65536 + (unat c - 55296) * 1024 + (unat d - 56320) else unat c)"

section \<open>The reader\<close>

datatype reader_mode = Ground | Escape | EscapeIntermediate | Csi | Osc | ControlString

datatype reader_action = NoAction | Print | Execute | Dispatch

record reader =
  rd_state :: reader_mode
  rd_start :: nat
  rd_parameters :: js_string
  rd_intermediates :: js_string
  rd_malformed :: bool

definition new_reader :: reader where
  "new_reader = \<lparr>rd_state = Ground, rd_start = 0, rd_parameters = [], rd_intermediates = [], rd_malformed = False\<rparr>"

text \<open>The state an escape's second character opens; a control sequence starts with nothing read.\<close>

definition introduced :: "nat \<Rightarrow> reader \<Rightarrow> reader_mode \<times> reader" where
  "introduced code r =
     (if code = 91 then (Csi, r\<lparr>rd_parameters := [], rd_intermediates := [], rd_malformed := False\<rparr>)
      else if code = 93 then (Osc, r)
      else if code = 80 \<or> code = 88 \<or> code = 94 \<or> code = 95 then (ControlString, r)
      else (Ground, r))"

definition introduce :: "nat \<Rightarrow> reader \<Rightarrow> reader" where
  "introduce code r = (case introduced code r of (m, r') \<Rightarrow> r'\<lparr>rd_state := m\<rparr>)"

definition csi_step :: "js_string \<Rightarrow> nat \<Rightarrow> reader \<Rightarrow> reader_action \<times> reader" where
  "csi_step char code r =
     (if code \<le> 47 then (NoAction, r\<lparr>rd_intermediates := rd_intermediates r @ char\<rparr>)
      else if code \<le> 63 then
        (NoAction, r\<lparr>rd_malformed := (rd_malformed r \<or> rd_intermediates r \<noteq> [] \<or> rd_parameters r \<noteq> [] \<and> code \<ge> 60),
                     rd_parameters := rd_parameters r @ char\<rparr>)
      else if code \<le> 126 then
        (if rd_malformed r \<or> rd_intermediates r \<noteq> [] then NoAction else Dispatch, r\<lparr>rd_state := Ground\<rparr>)
      else (Print, r\<lparr>rd_state := Ground\<rparr>))"

text \<open>The switch over the state.\<close>

definition mode_step :: "js_string \<Rightarrow> nat \<Rightarrow> reader \<Rightarrow> reader_action \<times> reader" where
  "mode_step char code r =
     (case rd_state r of
        Escape \<Rightarrow>
          if code \<le> 47 then (NoAction, r\<lparr>rd_state := EscapeIntermediate\<rparr>)
          else if code \<le> 126 then (NoAction, introduce code r)
          else (Print, r\<lparr>rd_state := Ground\<rparr>)
      | EscapeIntermediate \<Rightarrow>
          if code \<le> 47 then (NoAction, r)
          else (if code \<le> 126 then NoAction else Print, r\<lparr>rd_state := Ground\<rparr>)
      | Csi \<Rightarrow> csi_step char code r
      | _ \<Rightarrow> (Print, r))"

definition reader_step :: "js_string \<Rightarrow> nat \<Rightarrow> nat \<Rightarrow> reader \<Rightarrow> reader_action \<times> reader" where
  "reader_step char code index r =
     (if code = 24 \<or> code = 26 then (NoAction, r\<lparr>rd_state := Ground\<rparr>)
      else if code = 27 then (NoAction, r\<lparr>rd_start := index, rd_state := Escape\<rparr>)
      else if 128 \<le> code \<and> code \<le> 159 then (NoAction, introduce (code - 64) (r\<lparr>rd_start := index\<rparr>))
      else if rd_state r = Osc \<or> rd_state r = ControlString then
        (NoAction, if rd_state r = Osc \<and> code = 7 then r\<lparr>rd_state := Ground\<rparr> else r)
      else if code < 32 then (Execute, r)
      else if code = 127 then (NoAction, r)
      else mode_step char code r)"

text \<open>\<open>/^[<=>?]/.test(parameters)\<close>\<close>

definition private_marker :: "js_string \<Rightarrow> bool" where
  "private_marker p \<longleftrightarrow> (case p of [] \<Rightarrow> False | c # _ \<Rightarrow> 60 \<le> unat c \<and> unat c \<le> 63)"

section \<open>Reading a piece of output\<close>

datatype reader_state = Mode reader_mode | CsiDropped | CsiPrivate

definition resumed :: "reader_state \<Rightarrow> reader" where
  "resumed st =
     (case st of
        Mode Csi \<Rightarrow> introduce 91 new_reader
      | CsiDropped \<Rightarrow> (introduce 91 new_reader)\<lparr>rd_malformed := True\<rparr>
      | CsiPrivate \<Rightarrow> (introduce 91 new_reader)\<lparr>rd_parameters := [63]\<rparr>
      | Mode m \<Rightarrow> new_reader\<lparr>rd_state := m\<rparr>)"

definition lineFinals :: "js_string list" where
  "lineFinals = map js [''K'', ''C'', ''a'', ''D'', ''G'', ''`'', ''X'', ''P'', ''@'', ''A'', ''B'', ''E'', ''F'']"

definition char_draws :: "js_string \<Rightarrow> reader_action \<Rightarrow> reader \<Rightarrow> bool" where
  "char_draws char act r \<longleftrightarrow>
     act = Print
     \<or> act = Dispatch \<and> char \<in> set lineFinals \<and> \<not> private_marker (rd_parameters r)
     \<or> act = Execute \<and> (char = [10] \<or> char = [13] \<or> char = [8] \<or> char = [9])"

definition char_breaks :: "js_string \<Rightarrow> reader_action \<Rightarrow> nat" where
  "char_breaks char act = (if act = Execute \<and> char = [10] then 1 else 0)"

record piece =
  pc_state :: reader_state
  pc_lineBreaks :: nat
  pc_draws :: bool

text \<open>The loop over the characters: the reader, the line breaks and whether anything was drawn.\<close>

fun read_chars :: "js_string list \<Rightarrow> nat \<Rightarrow> reader \<times> nat \<times> bool \<Rightarrow> reader \<times> nat \<times> bool" where
  "read_chars [] index acc = acc"
| "read_chars (char # chars) index (r, breaks, draws) =
     (case reader_step char (code_point char) index r of
        (act, r') \<Rightarrow> read_chars chars (index + length char)
          (r', breaks + char_breaks char act, draws \<or> char_draws char act r'))"

definition left_state :: "reader \<Rightarrow> reader_state" where
  "left_state r =
     (if rd_state r \<noteq> Csi then Mode (rd_state r)
      else if rd_malformed r \<or> rd_intermediates r \<noteq> [] then CsiDropped
      else if private_marker (rd_parameters r) then CsiPrivate
      else Mode Csi)"

definition readPiece :: "reader_state \<Rightarrow> js_string \<Rightarrow> piece" where
  "readPiece st s =
     (case read_chars (characters s) 0 (resumed st, 0, False) of
        (r, breaks, draws) \<Rightarrow> \<lparr>pc_state = left_state r, pc_lineBreaks = breaks, pc_draws = draws\<rparr>)"

section \<open>The next line\<close>

text \<open>The rest of \<open>nextLineStart\<close>'s loop, from a character at \<open>index\<close>.\<close>

fun next_line_from :: "js_string list \<Rightarrow> nat \<Rightarrow> int \<Rightarrow> nat \<Rightarrow> bool \<Rightarrow> reader \<Rightarrow> nat option" where
  "next_line_from [] origin reach index broken r = None"
| "next_line_from (char # chars) origin reach index broken r =
     (case reader_step char (code_point char) index r of
        (act, r') \<Rightarrow>
          let after = index + length char;
              breaks = (code_point char = 10 \<and> act = Execute \<and> \<not> broken) in
          if breaks \<and> int index - int origin \<ge> reach then None
          else if (broken \<or> breaks) \<and> rd_state r' = Ground then Some (if act = Print then index else after)
          else if \<not> (broken \<or> breaks) \<and> int after - int origin \<ge> reach then None
          else next_line_from chars origin reach after (broken \<or> breaks) r')"

definition nextLineStart :: "js_string \<Rightarrow> nat \<Rightarrow> int \<Rightarrow> nat option" where
  "nextLineStart s first reach = next_line_from (characters (drop first s)) first reach first False new_reader"

section \<open>Cutting the front\<close>

fun reopening :: "reader_mode \<Rightarrow> js_string" where
  "reopening Ground = []"
| "reopening Escape = [27]"
| "reopening EscapeIntermediate = [27, 32]"
| "reopening Csi = [27, 91, 33]"
| "reopening Osc = [27, 93]"
| "reopening ControlString = [27, 80]"

definition longestReopening :: nat where
  "longestReopening = Max (set (map (length \<circ> reopening) [Ground, Escape, EscapeIntermediate, Csi, Osc, ControlString])) + 1"

record cut_state =
  cs_reader :: reader
  cs_plainAt :: "nat option"
  cs_statesPastCut :: "(nat \<times> reader_mode) list"
  cs_index :: nat
  cs_broken :: bool

record text_cut =
  ct_at :: nat
  ct_prefix :: js_string

text \<open>One character of the loop: the cut when it is found, or the loop's variables after it.\<close>

definition cut_char :: "int \<Rightarrow> int \<Rightarrow> js_string \<Rightarrow> cut_state \<Rightarrow> text_cut + cut_state" where
  "cut_char wanted lineBreakReach char s =
     (case reader_step char (code_point char) (cs_index s) (cs_reader s) of
        (act, r) \<Rightarrow>
          let start = cs_index s;
              index = start + length char;
              broken = (cs_broken s \<or> char = [10] \<and> act = Execute \<and> int start \<ge> wanted - 1 \<and> int index - wanted \<le> lineBreakReach) in
          if broken \<and> rd_state r = Ground
          then Inl \<lparr>ct_at = (if act = Print then start else index), ct_prefix = []\<rparr>
          else Inr \<lparr>cs_reader = r,
                 cs_plainAt = (if cs_plainAt s = None \<and> int index \<ge> wanted \<and> rd_state r = Ground then Some index else cs_plainAt s),
                 cs_statesPastCut = (if int index \<ge> wanted \<and> int index - wanted \<le> int longestReopening
                                     then cs_statesPastCut s @ [(nat (int index - wanted), rd_state r)] else cs_statesPastCut s),
                 cs_index = index, cs_broken = broken\<rparr>)"

fun cut_loop :: "int \<Rightarrow> int \<Rightarrow> js_string list \<Rightarrow> cut_state \<Rightarrow> text_cut + cut_state" where
  "cut_loop wanted reach [] s = Inr s"
| "cut_loop wanted reach (char # chars) s =
     (case cut_char wanted reach char s of
        Inl found \<Rightarrow> Inl found
      | Inr s' \<Rightarrow>
          if cs_plainAt s' \<noteq> None \<and> \<not> cs_broken s' \<and> int (cs_index s') - wanted > reach then Inr s'
          else cut_loop wanted reach chars s')"

definition readableCut :: "js_string \<Rightarrow> int \<Rightarrow> int \<Rightarrow> int \<Rightarrow> text_cut" where
  "readableCut s wanted lineBreakReach unfinishedReach =
     (case cut_loop wanted lineBreakReach (characters s)
             \<lparr>cs_reader = new_reader, cs_plainAt = (if wanted \<le> 0 then Some 0 else None), cs_statesPastCut = [],
              cs_index = 0, cs_broken = False\<rparr> of
        Inl found \<Rightarrow> found
      | Inr e \<Rightarrow>
          (case cs_plainAt e of
             Some p \<Rightarrow> \<lparr>ct_at = p, ct_prefix = []\<rparr>
           | None \<Rightarrow>
               if wanted - int (rd_start (cs_reader e)) \<le> unfinishedReach
               then \<lparr>ct_at = rd_start (cs_reader e), ct_prefix = []\<rparr>
               else (case find (\<lambda>(offset, m). offset \<ge> length (reopening m)) (cs_statesPastCut e) of
                   Some (offset, m) \<Rightarrow> \<lparr>ct_at = nat (wanted + int offset), ct_prefix = reopening m\<rparr>
                 | None \<Rightarrow> \<lparr>ct_at = length s, ct_prefix = reopening (rd_state (cs_reader e))\<rparr>)))"

section \<open>Characters of a text\<close>

lemma surrogates_disjoint: "high_surrogate c \<Longrightarrow> \<not> low_surrogate c"
  by (simp add: high_surrogate_def low_surrogate_def)

text \<open>A character is one unit, or a surrogate pair.\<close>

definition char_ok :: "js_string \<Rightarrow> bool" where
  "char_ok ch \<longleftrightarrow> (\<exists>c. ch = [c]) \<or> (\<exists>c d. ch = [c, d] \<and> high_surrogate c \<and> low_surrogate d)"

lemma characters_ok: "ch \<in> set (characters s) \<Longrightarrow> char_ok ch"
  by (induction s rule: characters.induct) (auto simp: char_ok_def split: if_splits)

lemma concat_characters [simp]: "concat (characters s) = s"
  by (induction s rule: characters.induct) auto

lemma code_point_unit: "char_ok ch \<Longrightarrow> code_point ch < 65536 \<Longrightarrow> \<exists>c. ch = [c] \<and> unat c = code_point ch"
  by (auto simp: char_ok_def)

lemma characters_Cons: "\<not> high_surrogate c \<or> s = [] \<or> \<not> low_surrogate (hd s) \<Longrightarrow> characters (c # s) = [c] # characters s"
  by (cases s) auto

text \<open>Two texts joined: their characters, unless the seam makes a pair of two lone surrogates.\<close>

definition seam :: "js_string \<Rightarrow> js_string \<Rightarrow> bool" where
  "seam a b \<longleftrightarrow> a \<noteq> [] \<and> b \<noteq> [] \<and> high_surrogate (last a) \<and> low_surrogate (hd b)"

lemma characters_append: "\<not> seam a b \<Longrightarrow> characters (a @ b) = characters a @ characters b"
proof (induction a rule: characters.induct)
  case (2 c)
  then show ?case by (cases b) (auto simp: seam_def)
next
  case (3 c d s)
  have "\<not> seam s b" "\<not> seam (d # s) b" using "3.prems" by (auto simp: seam_def split: if_splits)
  then show ?case using "3.IH" by auto
qed simp

lemma characters_seam:
  "seam a b \<Longrightarrow> \<exists>pre. characters a = pre @ [[last a]] \<and> characters b = [hd b] # characters (tl b)
     \<and> characters (a @ b) = pre @ [[last a, hd b]] @ characters (tl b)"
proof (induction a rule: characters.induct)
  case 1
  then show ?case by (simp add: seam_def)
next
  case (2 c)
  then have "\<not> high_surrogate (hd b)" using surrogates_disjoint by (auto simp: seam_def)
  with 2 show ?case by (cases b) (auto simp: seam_def characters_Cons)
next
  case (3 c d s)
  show ?case
  proof (cases "high_surrogate c \<and> low_surrogate d")
    case True
    then have "s \<noteq> []" using "3.prems" surrogates_disjoint by (auto simp: seam_def)
    then have "seam s b" using "3.prems" by (simp add: seam_def)
    from "3.IH"(1) [OF True this] \<open>s \<noteq> []\<close> True show ?thesis by auto
  next
    case False
    have "seam (d # s) b" using "3.prems" by (simp add: seam_def)
    from "3.IH"(2) [OF False this] False show ?thesis by auto
  qed
qed

section \<open>Reading on from a state\<close>

text \<open>What decides how a control sequence ends: that it will draw nothing.\<close>

definition dead :: "reader \<Rightarrow> bool" where
  "dead r \<longleftrightarrow> rd_malformed r \<or> rd_intermediates r \<noteq> [] \<or> private_marker (rd_parameters r)"

definition reads_alike :: "reader \<Rightarrow> reader \<Rightarrow> bool" where
  "reads_alike r q \<longleftrightarrow> rd_state r = rd_state q \<and> (rd_state r = Csi \<longrightarrow> dead r = dead q)"

lemma alike_resumed: "reads_alike r (resumed (left_state r))"
  by (cases "rd_state r")
    (auto simp: reads_alike_def left_state_def resumed_def introduce_def introduced_def new_reader_def dead_def private_marker_def)

lemma private_marker_append:
  "char_ok ch \<Longrightarrow> code_point ch \<le> 63 \<Longrightarrow>
     private_marker (p @ ch) \<longleftrightarrow> (if p = [] then 60 \<le> code_point ch else private_marker p)"
proof -
  assume "char_ok ch" "code_point ch \<le> 63"
  then obtain c where "ch = [c]" by (auto simp: char_ok_def)
  then show ?thesis using \<open>code_point ch \<le> 63\<close> by (cases p) (simp_all add: private_marker_def)
qed

lemma csi_step_dead:
  assumes "char_ok ch" "code_point ch \<le> 63" "rd_state x = Csi" "csi_step ch (code_point ch) x = (c, x')"
  shows "c = NoAction \<and> rd_state x' = Csi \<and> (dead x' \<longleftrightarrow> dead x \<or> code_point ch \<le> 47 \<or> 60 \<le> code_point ch)"
proof -
  obtain u where u: "ch = [u]" using assms(1,2) by (auto simp: char_ok_def)
  show ?thesis
  proof (cases "code_point ch \<le> 47")
    case True
    then show ?thesis using assms(3,4) u by (auto simp: csi_step_def dead_def)
  next
    case False
    then show ?thesis
      using assms(2-4) private_marker_append [OF assms(1,2), of "rd_parameters x"]
      by (cases "rd_parameters x = []") (auto simp: csi_step_def dead_def private_marker_def [of "[]"])
  qed
qed

lemma csi_step_alike:
  assumes "char_ok ch" "rd_state r = Csi" "rd_state q = Csi" "dead r = dead q"
    and "csi_step ch (code_point ch) r = (a, r')" "csi_step ch (code_point ch) q = (b, q')"
  shows "reads_alike r' q' \<and> char_draws ch a r' = char_draws ch b q' \<and> char_breaks ch a = char_breaks ch b"
proof (cases "code_point ch \<le> 63")
  case True
  from csi_step_dead [OF assms(1) True assms(2,5)] csi_step_dead [OF assms(1) True assms(3,6)] assms(4)
  show ?thesis by (simp add: reads_alike_def char_draws_def char_breaks_def)
next
  case False
  have ended: "rd_state x' = Ground \<and> char_breaks ch c = 0
      \<and> (char_draws ch c x' \<longleftrightarrow> code_point ch > 126 \<or> ch \<in> set lineFinals \<and> \<not> dead x)"
    if "csi_step ch (code_point ch) x = (c, x')" for x c x'
    using that False by (cases "code_point ch \<le> 126"; cases "rd_malformed x \<or> rd_intermediates x \<noteq> []")
      (auto simp: csi_step_def dead_def char_draws_def char_breaks_def)
  show ?thesis using ended [OF assms(5)] ended [OF assms(6)] assms(4) by (simp add: reads_alike_def)
qed

lemma introduce_alike: "reads_alike (introduce c x) (introduce c y)"
  by (simp add: introduce_def introduced_def reads_alike_def dead_def)

lemma mode_step_alike:
  assumes "char_ok ch" "reads_alike r q"
    and "mode_step ch (code_point ch) r = (a, r')" "mode_step ch (code_point ch) q = (b, q')"
  shows "reads_alike r' q' \<and> char_draws ch a r' = char_draws ch b q' \<and> char_breaks ch a = char_breaks ch b"
proof (cases "rd_state r")
  case Csi
  then show ?thesis
    using assms csi_step_alike [OF assms(1), of r q a r' b q'] by (simp add: mode_step_def reads_alike_def)
next
  case Escape
  then show ?thesis
    using assms(2-4) introduce_alike [of "code_point ch" r q]
    by (cases "code_point ch \<le> 47"; cases "code_point ch \<le> 126")
      (auto simp: mode_step_def reads_alike_def char_draws_def char_breaks_def)
qed (use assms(2-4) in \<open>auto simp: mode_step_def reads_alike_def char_draws_def char_breaks_def split: if_splits\<close>)

lemma step_alike:
  assumes "char_ok ch" "reads_alike r q"
    and "reader_step ch (code_point ch) i r = (a, r')" "reader_step ch (code_point ch) j q = (b, q')"
  shows "reads_alike r' q' \<and> char_draws ch a r' = char_draws ch b q' \<and> char_breaks ch a = char_breaks ch b"
proof -
  have st: "rd_state q = rd_state r" using assms(2) by (simp add: reads_alike_def)
  let ?c = "code_point ch"
  consider "?c = 24 \<or> ?c = 26" | "?c = 27" | "128 \<le> ?c \<and> ?c \<le> 159"
    | "\<not> (?c = 24 \<or> ?c = 26)" "?c \<noteq> 27" "\<not> (128 \<le> ?c \<and> ?c \<le> 159)" by blast
  then show ?thesis
  proof cases
    case 3
    then show ?thesis
      using assms(3,4) introduce_alike [of "?c - 64"] by (auto simp: reader_step_def char_draws_def char_breaks_def)
  next
    case 4
    show ?thesis
    proof (cases "rd_state r = Osc \<or> rd_state r = ControlString \<or> ?c < 32 \<or> ?c = 127")
      case True
      then show ?thesis
        using 4 assms(2-4) st
        by (auto simp: reader_step_def reads_alike_def dead_def char_draws_def char_breaks_def split: if_splits)
    next
      case False
      then have "reader_step ch ?c i r = mode_step ch ?c r" "reader_step ch ?c j q = mode_step ch ?c q"
        using 4 st unfolding reader_step_def by (simp_all only: if_False de_Morgan_disj simp_thms)
      with assms(3,4) have "mode_step ch ?c r = (a, r')" "mode_step ch ?c q = (b, q')" by (simp_all only:)
      then show ?thesis by (rule mode_step_alike [OF assms(1,2)])
    qed
  qed (use assms(3,4) in \<open>auto simp: reader_step_def reads_alike_def char_draws_def char_breaks_def\<close>)
qed

section \<open>Reading in pieces\<close>

lemma read_chars_append:
  "read_chars (a @ b) i acc = read_chars b (i + length (concat a)) (read_chars a i acc)"
proof (induction a arbitrary: i acc)
  case (Cons ch a)
  obtain r n d where "acc = (r, n, d)" by (cases acc)
  then show ?case using Cons by (simp add: add.assoc split: prod.split)
qed simp

definition counts :: "nat \<Rightarrow> bool \<Rightarrow> reader \<times> nat \<times> bool \<Rightarrow> reader \<times> nat \<times> bool \<Rightarrow> bool" where
  "counts n d x y \<longleftrightarrow> (case (x, y) of ((r, b, dr), (q, c, ds)) \<Rightarrow> reads_alike r q \<and> b = n + c \<and> dr = (d \<or> ds))"

text \<open>Readers that read alike count the same breaks and draw alike, from whatever was counted before.\<close>

lemma read_chars_alike:
  assumes "\<forall>ch \<in> set chars. char_ok ch" "reads_alike r q"
  shows "counts n d (read_chars chars i (r, n + m, d \<or> e)) (read_chars chars j (q, m, e))"
  using assms
proof (induction chars arbitrary: r q i j m e)
  case Nil
  then show ?case by (simp add: counts_def)
next
  case (Cons ch chars)
  obtain a r' b q' where st: "reader_step ch (code_point ch) i r = (a, r')" "reader_step ch (code_point ch) j q = (b, q')"
    by fastforce
  note alike = step_alike [OF _ Cons.prems(2) st]
  from Cons.prems(1) have "char_ok ch" by simp
  from alike [OF this] Cons.IH [of r' q' "i + length ch" "m + char_breaks ch b" "e \<or> char_draws ch b q'" "j + length ch"] Cons.prems(1) st
  show ?case by (simp add: add.assoc disj_assoc)
qed

text \<open>A pair split between two pieces reads as the pair does.\<close>

lemma step_wide:
  assumes "159 < code_point ch"
  shows "reader_step ch (code_point ch) i r =
    (if rd_state r = Osc \<or> rd_state r = ControlString then (NoAction, r) else (Print, r\<lparr>rd_state := Ground\<rparr>))"
  using assms by (cases "rd_state r") (simp_all add: reader_step_def mode_step_def csi_step_def)

lemma split_pair:
  assumes "high_surrogate c" "low_surrogate d"
  shows "read_chars [[c, d]] i acc = read_chars [[c], [d]] i acc"
proof -
  have "159 < code_point [c, d]" "159 < code_point [c]" "159 < code_point [d]"
    using assms by (simp_all add: high_surrogate_def low_surrogate_def)
  note w = this [THEN step_wide]
  obtain r n e where "acc = (r, n, e)" by (cases acc)
  then show ?thesis
    by (auto simp: w char_draws_def char_breaks_def simp del: code_point.simps)
qed

lemma read_characters_append:
  "read_chars (characters (a @ b)) i acc = read_chars (characters a @ characters b) i acc"
proof (cases "seam a b")
  case True
  from characters_seam [OF True] obtain pre where pre: "characters a = pre @ [[last a]]"
    "characters b = [hd b] # characters (tl b)" "characters (a @ b) = pre @ [[last a, hd b]] @ characters (tl b)" by blast
  have pair: "read_chars [[last a, hd b]] j x = read_chars [[last a], [hd b]] j x" for j x
    using True by (intro split_pair) (simp_all add: seam_def)
  have "read_chars ([[last a, hd b]] @ t) j x = read_chars ([[last a], [hd b]] @ t) j x" for t j x
    unfolding read_chars_append pair by simp
  then show ?thesis unfolding pre by (simp add: read_chars_append)
qed (simp add: characters_append)

definition same_ending :: "reader_state \<Rightarrow> reader_state \<Rightarrow> bool" where
  "same_ending st st' \<longleftrightarrow> st = st' \<or> {st, st'} = {CsiDropped, CsiPrivate}"

lemma alike_ending: "reads_alike r q \<Longrightarrow> same_ending (left_state r) (left_state q)"
  by (auto simp: reads_alike_def left_state_def same_ending_def dead_def)

lemma readPiece_append:
  "same_ending (pc_state (readPiece st (a @ b))) (pc_state (readPiece (pc_state (readPiece st a)) b))
   \<and> pc_lineBreaks (readPiece st (a @ b)) = pc_lineBreaks (readPiece st a) + pc_lineBreaks (readPiece (pc_state (readPiece st a)) b)
   \<and> (pc_draws (readPiece st (a @ b)) \<longleftrightarrow> pc_draws (readPiece st a) \<or> pc_draws (readPiece (pc_state (readPiece st a)) b))"
proof -
  obtain r n d where a: "read_chars (characters a) 0 (resumed st, 0, False) = (r, n, d)" by (cases "read_chars (characters a) 0 (resumed st, 0, False)") auto
  obtain q m e where b: "read_chars (characters b) 0 (resumed (left_state r), 0, False) = (q, m, e)"
    by (cases "read_chars (characters b) 0 (resumed (left_state r), 0, False)") auto
  obtain r' n' d' where ab: "read_chars (characters b) (length a) (r, n, d) = (r', n', d')"
    by (cases "read_chars (characters b) (length a) (r, n, d)") auto
  have "counts n d (read_chars (characters b) (length a) (r, n + 0, d \<or> False)) (read_chars (characters b) 0 (resumed (left_state r), 0, False))"
    by (rule read_chars_alike) (auto intro: characters_ok alike_resumed)
  then have "reads_alike r' q" "n' = n + m" "d' = (d \<or> e)" by (simp_all add: ab b counts_def)
  moreover have "read_chars (characters (a @ b)) 0 (resumed st, 0, False) = (r', n', d')"
    using a ab by (simp add: read_characters_append read_chars_append)
  ultimately show ?thesis using a b by (simp add: readPiece_def alike_ending)
qed

section \<open>What a terminal does with a text\<close>

text \<open>The visible actions of a text, in order: each with its character and, for a sequence, its parameters.\<close>

definition visible :: "js_string \<Rightarrow> reader_action \<times> reader \<Rightarrow> (reader_action \<times> js_string \<times> js_string) list" where
  "visible ch x = (case x of (act, r) \<Rightarrow>
     if act = NoAction then [] else [(act, ch, if act = Dispatch then rd_parameters r else [])])"

fun actions :: "js_string list \<Rightarrow> reader \<Rightarrow> (reader_action \<times> js_string \<times> js_string) list" where
  "actions [] r = []"
| "actions (ch # chars) r = visible ch (reader_step ch (code_point ch) 0 r) @ actions chars (snd (reader_step ch (code_point ch) 0 r))"

text \<open>The reader after some characters of a text that begin at an index.\<close>

fun reader_after :: "js_string list \<Rightarrow> nat \<Rightarrow> reader \<Rightarrow> reader" where
  "reader_after [] i r = r"
| "reader_after (ch # chars) i r = reader_after chars (i + length ch) (snd (reader_step ch (code_point ch) i r))"

lemma reader_after_append: "reader_after (a @ b) i r = reader_after b (i + length (concat a)) (reader_after a i r)"
  by (induction a arbitrary: i r) (simp_all add: add.assoc)

text \<open>Two readers that act alike on every text: a control sequence is dropped in both or the same in both.\<close>

definition dropping :: "reader \<Rightarrow> bool" where
  "dropping r \<longleftrightarrow> rd_malformed r \<or> rd_intermediates r \<noteq> []"

definition acts_alike :: "reader \<Rightarrow> reader \<Rightarrow> bool" where
  "acts_alike r q \<longleftrightarrow> rd_state r = rd_state q \<and> (rd_state r = Csi \<longrightarrow>
     dropping r \<and> dropping q
     \<or> rd_malformed r = rd_malformed q \<and> rd_intermediates r = rd_intermediates q \<and> rd_parameters r = rd_parameters q)"

lemma acts_refl [simp]: "acts_alike r r" "acts_alike (r\<lparr>rd_start := i\<rparr>) (r\<lparr>rd_start := j\<rparr>)"
  by (simp_all add: acts_alike_def dropping_def)

lemma introduce_acts: "acts_alike (introduce c x) (introduce c y)"
  by (simp add: introduce_def introduced_def acts_alike_def dropping_def)

definition step_agrees :: "js_string \<Rightarrow> reader_action \<times> reader \<Rightarrow> reader_action \<times> reader \<Rightarrow> bool" where
  "step_agrees ch x y \<longleftrightarrow> acts_alike (snd x) (snd y) \<and> visible ch x = visible ch y"

lemma mode_step_agrees:
  assumes "ch \<noteq> []" "acts_alike r q"
  shows "step_agrees ch (mode_step ch c r) (mode_step ch c q)"
proof (cases "rd_state r = Csi")
  case True
  with assms(2) consider "dropping r" "dropping q" "rd_state q = Csi"
    | "rd_malformed r = rd_malformed q" "rd_intermediates r = rd_intermediates q" "rd_parameters r = rd_parameters q" "rd_state q = Csi"
    by (auto simp: acts_alike_def)
  then show ?thesis
  proof cases
    case 1
    then show ?thesis using True
      by (auto simp: mode_step_def csi_step_def step_agrees_def acts_alike_def dropping_def visible_def)
  next
    case 2
    then show ?thesis using True
      by (auto simp: mode_step_def csi_step_def step_agrees_def acts_alike_def visible_def)
  qed
next
  case False
  with assms(2) have "rd_state q = rd_state r" "rd_state q \<noteq> Csi" by (auto simp: acts_alike_def)
  then show ?thesis
    using introduce_acts [of c r q] False
    by (cases "rd_state r") (auto simp: mode_step_def step_agrees_def acts_alike_def visible_def)
qed

lemma step_agrees:
  assumes "ch \<noteq> []" "acts_alike r q"
  shows "step_agrees ch (reader_step ch c i r) (reader_step ch c j q)"
proof -
  have st: "rd_state q = rd_state r" using assms(2) by (simp add: acts_alike_def)
  consider "c = 24 \<or> c = 26" | "c = 27" | "128 \<le> c \<and> c \<le> 159"
    | "\<not> (c = 24 \<or> c = 26)" "c \<noteq> 27" "\<not> (128 \<le> c \<and> c \<le> 159)" by blast
  then show ?thesis
  proof cases
    case 3
    then show ?thesis using introduce_acts [of "c - 64"] by (auto simp: reader_step_def step_agrees_def visible_def)
  next
    case 4
    show ?thesis
    proof (cases "rd_state r = Osc \<or> rd_state r = ControlString \<or> c < 32 \<or> c = 127")
      case True
      then show ?thesis
        using 4 assms(2) st by (auto simp: reader_step_def step_agrees_def visible_def acts_alike_def)
    next
      case False
      then have "reader_step ch c i r = mode_step ch c r" "reader_step ch c j q = mode_step ch c q"
        using 4 st unfolding reader_step_def by (simp_all only: if_False de_Morgan_disj simp_thms)
      then show ?thesis using mode_step_agrees [OF assms] by (simp only:)
    qed
  qed (auto simp: reader_step_def step_agrees_def visible_def acts_alike_def)
qed

lemma actions_alike: "\<forall>ch \<in> set chars. ch \<noteq> [] \<Longrightarrow> acts_alike r q \<Longrightarrow> actions chars r = actions chars q"
proof (induction chars arbitrary: r q)
  case (Cons ch chars)
  then have "step_agrees ch (reader_step ch (code_point ch) 0 r) (reader_step ch (code_point ch) 0 q)"
    by (intro step_agrees) simp_all
  then show ?case using Cons by (simp add: step_agrees_def)
qed simp

lemma reader_after_alike:
  "\<forall>ch \<in> set chars. ch \<noteq> [] \<Longrightarrow> acts_alike r q \<Longrightarrow> acts_alike (reader_after chars i r) (reader_after chars j q)"
proof (induction chars arbitrary: r q i j)
  case (Cons ch chars)
  then have "step_agrees ch (reader_step ch (code_point ch) i r) (reader_step ch (code_point ch) j q)"
    by (intro step_agrees) simp_all
  then show ?case using Cons by (simp add: step_agrees_def)
qed simp

text \<open>The characters that begin a sequence do so whatever came before them.\<close>

definition begins :: "nat \<Rightarrow> bool" where
  "begins c \<longleftrightarrow> c = 27 \<or> 128 \<le> c \<and> c \<le> 159"

lemma begins_anywhere: "begins (code_point ch) \<Longrightarrow> actions (ch # chars) r = actions (ch # chars) q" if "\<forall>ch \<in> set chars. ch \<noteq> []"
proof -
  assume b: "begins (code_point ch)"
  have "acts_alike (snd (reader_step ch (code_point ch) 0 r)) (snd (reader_step ch (code_point ch) 0 q))"
    using b introduce_acts [of "code_point ch - 64"] by (auto simp: begins_def reader_step_def acts_alike_def)
  moreover have "visible ch (reader_step ch (code_point ch) 0 x) = []" for x
    using b by (auto simp: begins_def reader_step_def visible_def)
  ultimately show ?thesis using actions_alike [OF that] by simp
qed

text \<open>A reader's sequence began where \<open>rd_start\<close> says, or nothing has begun yet.\<close>

lemma step_start:
  "rd_start (snd (reader_step ch c i r)) = (if begins c then i else rd_start r)"
  by (auto simp: reader_step_def begins_def introduce_def introduced_def mode_step_def csi_step_def split: reader_mode.split)

lemma print_anywhere:
  assumes "ch \<noteq> []" "fst (reader_step ch c i r) = Print"
  shows "reader_step ch c j new_reader = (Print, new_reader)" "rd_state (snd (reader_step ch c i r)) = Ground"
proof -
  have c: "c \<noteq> 24" "c \<noteq> 26" "c \<noteq> 27" "\<not> (128 \<le> c \<and> c \<le> 159)" "\<not> c < 32" "c \<noteq> 127"
    "rd_state r \<noteq> Osc" "rd_state r \<noteq> ControlString" "fst (mode_step ch c r) = Print"
    using assms(2) by (auto simp: reader_step_def split: if_splits)
  show "reader_step ch c j new_reader = (Print, new_reader)"
    using c(1-6) by (auto simp: reader_step_def mode_step_def new_reader_def)
  show "rd_state (snd (reader_step ch c i r)) = Ground"
    using c by (auto simp: reader_step_def mode_step_def csi_step_def split: if_splits reader_mode.splits)
qed

section \<open>Where a cut lands\<close>

lemma characters_step: "characters s = ch # rest \<Longrightarrow> characters (drop (length ch) s) = rest"
  by (cases s rule: characters.cases) (auto split: if_splits)

lemma characters_drop: "characters s = pre @ post \<Longrightarrow> characters (drop (length (concat pre)) s) = post"
proof (induction pre arbitrary: s)
  case (Cons ch pre)
  have "characters (drop (length ch) s) = pre @ post" by (rule characters_step) (use Cons.prems in simp)
  from Cons.IH [OF this] show ?case by (simp add: add.commute)
qed simp

lemma characters_nonempty: "characters s = pre @ post \<Longrightarrow> ch \<in> set pre \<union> set post \<Longrightarrow> ch \<noteq> []"
  using characters_ok [of ch s] by (auto simp: char_ok_def)

definition read_to :: "js_string list \<Rightarrow> reader" where
  "read_to pre = reader_after pre 0 new_reader"

lemma read_to_snoc: "read_to (pre @ [ch]) = snd (reader_step ch (code_point ch) (length (concat pre)) (read_to pre))"
  by (simp add: read_to_def reader_after_append)

text \<open>
  A cut is good when what is kept, read by a fresh reader, does what the terminal does with the
  rest of the text; a control sequence whose start a prefix replaces is dropped at its end.
\<close>

definition cut_ok :: "js_string \<Rightarrow> text_cut \<Rightarrow> bool" where
  "cut_ok s c \<longleftrightarrow> (\<exists>pre post. characters s = pre @ post \<and> ct_at c = length (concat pre)
     \<and> actions (characters (ct_prefix c @ drop (ct_at c) s)) new_reader
       = actions post ((read_to pre)\<lparr>rd_malformed := (rd_malformed (read_to pre) \<or> ct_prefix c \<noteq> [])\<rparr>))"

lemma plain_cut:
  assumes "characters s = pre @ post" "actions post new_reader = actions post (read_to pre)"
  shows "cut_ok s \<lparr>ct_at = length (concat pre), ct_prefix = []\<rparr>"
  unfolding cut_ok_def
  by (rule exI [of _ pre], rule exI [of _ post]) (use assms characters_drop [OF assms(1)] in simp)

lemma ground_cut:
  assumes "characters s = pre @ post" "rd_state (read_to pre) = Ground"
  shows "cut_ok s \<lparr>ct_at = length (concat pre), ct_prefix = []\<rparr>"
  using assms characters_nonempty [OF assms(1)]
  by (intro plain_cut actions_alike) (auto simp: acts_alike_def new_reader_def)

lemma printed_cut:
  assumes "characters s = pre @ ch # rest"
    and "fst (reader_step ch (code_point ch) i (read_to pre)) = Print"
  shows "cut_ok s \<lparr>ct_at = length (concat pre), ct_prefix = []\<rparr>"
proof (rule plain_cut [OF assms(1)])
  have ne: "ch \<noteq> []" "\<forall>x \<in> set rest. x \<noteq> []" using characters_nonempty [OF assms(1)] by auto
  let ?x = "reader_step ch (code_point ch) 0 (read_to pre)"
  have "step_agrees ch (reader_step ch (code_point ch) i (read_to pre)) ?x"
    by (rule step_agrees [OF ne(1)]) simp
  with assms(2) have pr: "fst ?x = Print"
    by (auto simp: step_agrees_def visible_def split: prod.splits if_splits)
  from print_anywhere [OF ne(1) pr]
  have "rd_state (snd ?x) = Ground" "reader_step ch (code_point ch) 0 new_reader = (Print, new_reader)" by blast+
  moreover from this(1) have "actions rest new_reader = actions rest (snd ?x)"
    by (intro actions_alike [OF ne(2)]) (simp add: acts_alike_def new_reader_def)
  moreover have "visible ch ?x = visible ch (Print, new_reader)" using pr by (cases ?x) (simp add: visible_def)
  ultimately show "actions (ch # rest) new_reader = actions (ch # rest) (read_to pre)" by simp
qed

lemma begun_cut:
  assumes "characters s = pre @ post" "pre = [] \<or> post \<noteq> [] \<and> begins (code_point (hd post))"
  shows "cut_ok s \<lparr>ct_at = length (concat pre), ct_prefix = []\<rparr>"
proof (rule plain_cut [OF assms(1)])
  show "actions post new_reader = actions post (read_to pre)"
  proof (cases "pre = []")
    case False
    with assms(2) obtain ch rest where post: "post = ch # rest" "begins (code_point ch)" by (cases post) auto
    have "\<forall>x \<in> set rest. x \<noteq> []" using characters_nonempty [OF assms(1)] post by auto
    then show ?thesis using post begins_anywhere [of rest ch] by simp
  qed (simp add: read_to_def)
qed

lemma small_unit: "u \<in> {27, 32, 33, 80, 91, 93} \<Longrightarrow> \<not> high_surrogate u" for u :: js_char
  by (auto simp: high_surrogate_def)

lemma reopened:
  assumes "\<forall>ch \<in> set (characters t). ch \<noteq> []" "rd_state r = m" "m \<noteq> Ground"
  shows "actions (characters (reopening m @ t)) new_reader = actions (characters t) (r\<lparr>rd_malformed := True\<rparr>)"
proof -
  have units: "characters (27 # x) = [27] # characters x" "characters (32 # x) = [32] # characters x"
    "characters (33 # x) = [33] # characters x" "characters (80 # x) = [80] # characters x"
    "characters (91 # x) = [91] # characters x" "characters (93 # x) = [93] # characters x" for x :: js_string
    using small_unit by (simp_all add: characters_Cons)
  let ?q = "new_reader\<lparr>rd_state := m, rd_intermediates := (if m = Csi then [33] else [])\<rparr>"
  have "actions (characters (reopening m @ t)) new_reader = actions (characters t) ?q"
    using assms(3)
    by (cases m) (simp_all add: units reader_step_def mode_step_def csi_step_def introduce_def introduced_def new_reader_def
        visible_def del: characters.simps)
  also have "\<dots> = actions (characters t) (r\<lparr>rd_malformed := True\<rparr>)"
    using assms(2) by (intro actions_alike [OF assms(1)]) (auto simp: acts_alike_def dropping_def)
  finally show ?thesis .
qed

text \<open>The loop's variables after the characters read so far.\<close>

definition cut_inv :: "js_string \<Rightarrow> int \<Rightarrow> js_string list \<Rightarrow> cut_state \<Rightarrow> bool" where
  "cut_inv s wanted pre e \<longleftrightarrow>
     cs_index e = length (concat pre) \<and> cs_reader e = read_to pre
     \<and> (\<forall>p. cs_plainAt e = Some p \<longrightarrow> wanted \<le> int p
          \<and> (\<exists>a b. pre = a @ b \<and> p = length (concat a) \<and> rd_state (read_to a) = Ground))
     \<and> (\<forall>(offset, m) \<in> set (cs_statesPastCut e).
          \<exists>a b. pre = a @ b \<and> int (length (concat a)) = wanted + int offset \<and> m = rd_state (read_to a))
     \<and> (\<exists>a b. pre = a @ b \<and> rd_start (read_to pre) = length (concat a) \<and> (a = [] \<or> b \<noteq> [] \<and> begins (code_point (hd b))))
     \<and> (cs_broken e \<longrightarrow> wanted \<le> int (cs_index e))"

lemma extend_split: "\<exists>a b. pre = a @ b \<and> P a \<Longrightarrow> \<exists>a b. pre @ [ch] = a @ b \<and> P a"
  by (metis append.assoc)

lemma start_snoc:
  assumes "\<exists>a b. pre = a @ b \<and> rd_start (read_to pre) = length (concat a) \<and> (a = [] \<or> b \<noteq> [] \<and> begins (code_point (hd b)))"
  shows "\<exists>a b. pre @ [ch] = a @ b \<and> rd_start (read_to (pre @ [ch])) = length (concat a)
    \<and> (a = [] \<or> b \<noteq> [] \<and> begins (code_point (hd b)))"
proof (cases "begins (code_point ch)")
  case True
  then show ?thesis
    by (intro exI [of _ pre] exI [of _ "[ch]"]) (simp add: read_to_snoc step_start)
next
  case False
  from assms obtain a b where ab: "pre = a @ b" "rd_start (read_to pre) = length (concat a)" "a = [] \<or> b \<noteq> [] \<and> begins (code_point (hd b))"
    by blast
  have keep: "rd_start (read_to (pre @ [ch])) = length (concat a)"
    using False ab(2) by (simp add: read_to_snoc step_start)
  show ?thesis
  proof (intro exI conjI)
    show "pre @ [ch] = a @ (b @ [ch])" by (simp add: ab(1))
    show "a = [] \<or> b @ [ch] \<noteq> [] \<and> begins (code_point (hd (b @ [ch])))" using ab(3) by auto
  qed (rule keep)
qed

lemma cut_char_ok:
  assumes inv: "cut_inv s wanted pre e" and s: "characters s = pre @ ch # rest"
  shows "case cut_char wanted reach ch e of
      Inl c \<Rightarrow> cut_ok s c \<and> ct_prefix c = [] \<and> wanted \<le> int (ct_at c)
    | Inr e' \<Rightarrow> cut_inv s wanted (pre @ [ch]) e'"
proof -
  obtain act r where st: "reader_step ch (code_point ch) (cs_index e) (cs_reader e) = (act, r)" by fastforce
  have r: "r = read_to (pre @ [ch])" "cs_index e = length (concat pre)" "cs_reader e = read_to pre"
    using inv st by (simp_all add: cut_inv_def read_to_snoc)
  define broken where "broken = (cs_broken e \<or> ch = [10] \<and> act = Execute \<and> int (cs_index e) \<ge> wanted - 1
    \<and> int (cs_index e + length ch) - wanted \<le> reach)"
  have ch: "0 < length ch" using characters_nonempty [OF s, of ch] by simp
  have past: "wanted \<le> int (cs_index e + length ch)" if broken
    using that inv ch by (auto simp: broken_def cut_inv_def)
  have start: "wanted \<le> int (cs_index e)" if "broken" "act = Print"
    using that inv by (auto simp: broken_def cut_inv_def)
  have eq: "cut_char wanted reach ch e =
    (if broken \<and> rd_state r = Ground
     then Inl \<lparr>ct_at = (if act = Print then cs_index e else cs_index e + length ch), ct_prefix = []\<rparr>
     else Inr \<lparr>cs_reader = r,
                 cs_plainAt = (if cs_plainAt e = None \<and> int (cs_index e + length ch) \<ge> wanted \<and> rd_state r = Ground
                   then Some (cs_index e + length ch) else cs_plainAt e),
                 cs_statesPastCut = (if int (cs_index e + length ch) \<ge> wanted \<and> int (cs_index e + length ch) - wanted \<le> int longestReopening
                   then cs_statesPastCut e @ [(nat (int (cs_index e + length ch) - wanted), rd_state r)] else cs_statesPastCut e),
                 cs_index = cs_index e + length ch, cs_broken = broken\<rparr>)"
    by (simp only: cut_char_def st prod.case Let_def broken_def)
  show ?thesis
  proof (cases "broken \<and> rd_state r = Ground")
    case True
    have "cut_ok s \<lparr>ct_at = length (concat pre), ct_prefix = []\<rparr>" if "act = Print"
      by (rule printed_cut [OF s, of "cs_index e"]) (use that st r in simp)
    moreover have "cut_ok s \<lparr>ct_at = length (concat (pre @ [ch])), ct_prefix = []\<rparr>"
      by (rule ground_cut [of _ _ rest]) (use True s r in simp_all)
    ultimately show ?thesis using True past start r by (simp add: eq)
  next
    case False
    have plain: "\<exists>a b. pre @ [ch] = a @ b \<and> p = length (concat a) \<and> rd_state (read_to a) = Ground"
      if "cs_plainAt e = Some p" for p
      using inv that extend_split [of pre "\<lambda>a. p = length (concat a) \<and> rd_state (read_to a) = Ground"] by (auto simp: cut_inv_def)
    have states: "\<exists>a b. pre @ [ch] = a @ b \<and> int (length (concat a)) = wanted + int k \<and> m = rd_state (read_to a)"
      if "(k, m) \<in> set (cs_statesPastCut e)" for k m
      using inv that extend_split [of pre "\<lambda>a. int (length (concat a)) = wanted + int k \<and> m = rd_state (read_to a)"]
      by (fastforce simp: cut_inv_def)
    have here: "\<exists>a b. pre @ [ch] = a @ b \<and> Q a" if "Q (pre @ [ch])" for Q
      using that by (intro exI [of _ "pre @ [ch]"] exI [of _ "[]"]) simp
    have "cut_inv s wanted (pre @ [ch]) \<lparr>cs_reader = r,
                 cs_plainAt = (if cs_plainAt e = None \<and> int (cs_index e + length ch) \<ge> wanted \<and> rd_state r = Ground
                   then Some (cs_index e + length ch) else cs_plainAt e),
                 cs_statesPastCut = (if int (cs_index e + length ch) \<ge> wanted \<and> int (cs_index e + length ch) - wanted \<le> int longestReopening
                   then cs_statesPastCut e @ [(nat (int (cs_index e + length ch) - wanted), rd_state r)] else cs_statesPastCut e),
                 cs_index = cs_index e + length ch, cs_broken = broken\<rparr>"
      unfolding cut_inv_def
    proof (intro conjI)
      show "\<exists>a b. pre @ [ch] = a @ b \<and> rd_start (read_to (pre @ [ch])) = length (concat a) \<and> (a = [] \<or> b \<noteq> [] \<and> begins (code_point (hd b)))"
        by (rule start_snoc) (use inv in \<open>simp add: cut_inv_def\<close>)
    qed (use inv r past plain states here in \<open>auto simp: cut_inv_def\<close>)
    then show ?thesis by (simp only: eq False if_False sum.case)
  qed
qed

lemma cut_loop_ok:
  assumes "cut_inv s wanted pre e" "characters s = pre @ chars"
  shows "case cut_loop wanted reach chars e of
      Inl c \<Rightarrow> cut_ok s c \<and> ct_prefix c = [] \<and> wanted \<le> int (ct_at c)
    | Inr e' \<Rightarrow> \<exists>pre' post'. cut_inv s wanted pre' e' \<and> characters s = pre' @ post' \<and> (cs_plainAt e' = None \<longrightarrow> post' = [])"
  using assms
proof (induction chars arbitrary: pre e)
  case Nil
  then show ?case by auto
next
  case (Cons ch chars)
  note step = cut_char_ok [OF Cons.prems, of reach]
  show ?case
  proof (cases "cut_char wanted reach ch e")
    case (Inl c)
    then show ?thesis using step by simp
  next
    case (Inr e')
    with step have inv: "cut_inv s wanted (pre @ [ch]) e'" by simp
    have s: "characters s = (pre @ [ch]) @ chars" using Cons.prems(2) by simp
    show ?thesis
    proof (cases "cs_plainAt e' \<noteq> None \<and> \<not> cs_broken e' \<and> int (cs_index e') - wanted > reach")
      case True
      then have "cut_loop wanted reach (ch # chars) e = Inr e'" using Inr by simp
      moreover have "\<exists>pre' post'. cut_inv s wanted pre' e' \<and> characters s = pre' @ post' \<and> (cs_plainAt e' = None \<longrightarrow> post' = [])"
        by (rule exI [of _ "pre @ [ch]"], rule exI [of _ chars]) (use inv s True in auto)
      ultimately show ?thesis by simp
    next
      case False
      then have "cut_loop wanted reach (ch # chars) e = cut_loop wanted reach chars e'" using Inr by (cases "cs_plainAt e'") auto
      then show ?thesis using Cons.IH [OF inv s] by simp
    qed
  qed
qed

lemma cut_begin: "cut_inv s wanted [] \<lparr>cs_reader = new_reader, cs_plainAt = (if wanted \<le> 0 then Some 0 else None), cs_statesPastCut = [],
    cs_index = 0, cs_broken = False\<rparr>"
  by (simp add: cut_inv_def read_to_def new_reader_def)

lemma reopened_cut:
  assumes "characters s = pre @ post" "rd_state (read_to pre) \<noteq> Ground"
  shows "cut_ok s \<lparr>ct_at = length (concat pre), ct_prefix = reopening (rd_state (read_to pre))\<rparr>"
proof -
  have post: "characters (drop (length (concat pre)) s) = post" by (rule characters_drop [OF assms(1)])
  have "\<forall>ch \<in> set (characters (drop (length (concat pre)) s)). ch \<noteq> []" using characters_nonempty [OF assms(1)] post by auto
  moreover have "reopening (rd_state (read_to pre)) \<noteq> []" using assms(2) by (cases "rd_state (read_to pre)") simp_all
  ultimately show ?thesis
    unfolding cut_ok_def
    using assms post reopened [of "drop (length (concat pre)) s" "read_to pre" "rd_state (read_to pre)"]
    by (intro exI [of _ pre] exI [of _ post]) simp
qed

lemma reopening_short: "length (reopening m) \<le> 3"
  by (cases m) simp_all

definition cut_near :: "js_string \<Rightarrow> int \<Rightarrow> int \<Rightarrow> text_cut \<Rightarrow> bool" where
  "cut_near s wanted unfinishedReach c \<longleftrightarrow>
     (ct_prefix c = [] \<and> wanted \<le> int (ct_at c) + max 0 unfinishedReach)
     \<or> wanted + int (length (ct_prefix c)) \<le> int (ct_at c)
     \<or> ct_at c = length s \<and> length (ct_prefix c) \<le> 3"

lemma readableCut_lands:
  "cut_ok s (readableCut s wanted lineBreakReach unfinishedReach)
   \<and> cut_near s wanted unfinishedReach (readableCut s wanted lineBreakReach unfinishedReach)"
proof -
  let ?e0 = "\<lparr>cs_reader = new_reader, cs_plainAt = (if wanted \<le> 0 then Some 0 else None), cs_statesPastCut = [],
    cs_index = 0, cs_broken = False\<rparr>"
  have loop: "case cut_loop wanted lineBreakReach (characters s) ?e0 of
      Inl c \<Rightarrow> cut_ok s c \<and> ct_prefix c = [] \<and> wanted \<le> int (ct_at c)
    | Inr e' \<Rightarrow> \<exists>pre' post'. cut_inv s wanted pre' e' \<and> characters s = pre' @ post' \<and> (cs_plainAt e' = None \<longrightarrow> post' = [])"
    by (rule cut_loop_ok [OF cut_begin]) simp
  show ?thesis
  proof (cases "cut_loop wanted lineBreakReach (characters s) ?e0")
    case (Inl c)
    then show ?thesis using loop by (auto simp: readableCut_def cut_near_def)
  next
    case (Inr e)
    with loop obtain pre post where e: "cut_inv s wanted pre e" "characters s = pre @ post" "cs_plainAt e = None \<longrightarrow> post = []" by auto
    show ?thesis
    proof (cases "cs_plainAt e")
      case (Some p)
      with e obtain a b where "pre = a @ b" "p = length (concat a)" "rd_state (read_to a) = Ground" "wanted \<le> int p" by (auto simp: cut_inv_def)
      then show ?thesis using Inr Some ground_cut [of s a "b @ post"] e(2) by (simp add: readableCut_def cut_near_def)
    next
      case None
      then have pre: "characters s = pre" using e by simp
      obtain a b where ab: "pre = a @ b" "rd_start (read_to pre) = length (concat a)" "a = [] \<or> b \<noteq> [] \<and> begins (code_point (hd b))"
        using e(1) by (auto simp: cut_inv_def)
      have rd: "cs_reader e = read_to pre" using e(1) by (simp add: cut_inv_def)
      show ?thesis
      proof (cases "wanted - int (rd_start (cs_reader e)) \<le> unfinishedReach")
        case True
        then show ?thesis using Inr None begun_cut [of s a b] pre ab rd by (auto simp: readableCut_def cut_near_def)
      next
        case far: False
        show ?thesis
        proof (cases "find (\<lambda>(offset, m). offset \<ge> length (reopening m)) (cs_statesPastCut e)")
          case (Some x)
          obtain k m where x: "x = (k, m)" by (cases x)
          then have "(k, m) \<in> set (cs_statesPastCut e)" using Some by (auto dest: find_Some_in_set)
          then obtain a' b' where k: "pre = a' @ b'" "int (length (concat a')) = wanted + int k" "m = rd_state (read_to a')"
            using e(1) by (fastforce simp: cut_inv_def)
          have "cut_ok s \<lparr>ct_at = length (concat a'), ct_prefix = reopening m\<rparr>"
            using reopened_cut [of s a' b'] ground_cut [of s a' b'] pre k by (cases "m = Ground") simp_all
          moreover have "nat (wanted + int k) = length (concat a')" using k(2) by simp
          moreover have "length (reopening m) \<le> k" using Some x find_Some_in_set by fastforce
          ultimately show ?thesis using Inr None far Some x k(2) by (simp add: readableCut_def cut_near_def)
        next
          case none: None
          have "length s = length (concat pre)" using concat_characters [of s] pre by simp
          moreover have "cut_ok s \<lparr>ct_at = length (concat pre), ct_prefix = reopening (rd_state (read_to pre))\<rparr>"
            using reopened_cut [of s pre "[]"] ground_cut [of s pre "[]"] pre by (cases "rd_state (read_to pre) = Ground") simp_all
          ultimately show ?thesis using Inr None far none rd reopening_short by (simp add: readableCut_def cut_near_def)
        qed
      qed
    qed
  qed
qed

section \<open>Where the next line starts\<close>

text \<open>The terminal carries out a line feed at this character.\<close>

definition feeds :: "js_string list \<Rightarrow> js_string \<Rightarrow> bool" where
  "feeds pre ch \<longleftrightarrow> code_point ch = 10 \<and> fst (reader_step ch (code_point ch) (length (concat pre)) (read_to pre)) = Execute"

definition first_feed :: "js_string list \<Rightarrow> js_string list \<Rightarrow> bool" where
  "first_feed chars pre \<longleftrightarrow> (\<exists>ch post. chars = pre @ ch # post \<and> feeds pre ch)
     \<and> (\<forall>a ch b. pre = a @ ch # b \<longrightarrow> \<not> feeds a ch)"

definition unfed :: "js_string list \<Rightarrow> bool" where
  "unfed pre \<longleftrightarrow> (\<forall>a ch b. pre = a @ ch # b \<longrightarrow> \<not> feeds a ch)"

lemma unfed_snoc: "unfed pre \<Longrightarrow> \<not> feeds pre ch \<Longrightarrow> unfed (pre @ [ch])"
  unfolding unfed_def
proof (intro allI impI)
  fix a c b
  assume pre: "\<forall>a ch b. pre = a @ ch # b \<longrightarrow> \<not> feeds a ch" "\<not> feeds pre ch" and "pre @ [ch] = a @ c # b"
  then show "\<not> feeds a c" by (cases b rule: rev_cases) auto
qed

lemma first_feed_extend: "first_feed chars pre \<Longrightarrow> first_feed (chars @ more_chars) pre"
  by (auto simp: first_feed_def)

lemma first_feed_here: "unfed pre \<Longrightarrow> feeds pre ch \<Longrightarrow> first_feed (pre @ [ch]) pre"
  by (auto simp: first_feed_def unfed_def)

lemma first_feed_short: "first_feed chars pre \<Longrightarrow> \<forall>ch \<in> set chars. ch \<noteq> [] \<Longrightarrow> length (concat pre) < length (concat chars)"
  by (auto simp: first_feed_def)

definition next_line_ok :: "js_string \<Rightarrow> int \<Rightarrow> nat \<Rightarrow> nat \<Rightarrow> bool" where
  "next_line_ok t reach first n \<longleftrightarrow>
     first \<le> n \<and> n - first \<le> length t \<and> cut_ok t \<lparr>ct_at = n - first, ct_prefix = []\<rparr>
     \<and> (\<exists>pre. first_feed (characters t) pre \<and> int (length (concat pre)) < reach \<and> first + length (concat pre) < n)"

lemma same_step:
  assumes "\<forall>x \<in> set (pre @ [ch]). x \<noteq> []"
  shows "fst (reader_step ch c i (reader_after pre first new_reader)) = fst (reader_step ch c j (read_to pre))"
    "rd_state (snd (reader_step ch c i (reader_after pre first new_reader))) = rd_state (snd (reader_step ch c j (read_to pre)))"
proof -
  have "step_agrees ch (reader_step ch c i (reader_after pre first new_reader)) (reader_step ch c j (read_to pre))"
    unfolding read_to_def by (intro step_agrees reader_after_alike) (use assms in auto)
  then show "fst (reader_step ch c i (reader_after pre first new_reader)) = fst (reader_step ch c j (read_to pre))"
    "rd_state (snd (reader_step ch c i (reader_after pre first new_reader))) = rd_state (snd (reader_step ch c j (read_to pre)))"
    by (auto simp: step_agrees_def visible_def acts_alike_def split: prod.splits if_splits)
qed

lemma next_line_from_ok:
  assumes "characters t = pre @ chars"
    and "if broken then \<exists>a. first_feed pre a \<and> int (length (concat a)) < reach else unfed pre"
    and "next_line_from chars first reach (first + length (concat pre)) broken (reader_after pre first new_reader) = Some n"
  shows "next_line_ok t reach first n"
  using assms
proof (induction chars arbitrary: pre broken)
  case (Cons ch chars)
  let ?i = "first + length (concat pre)"
  have ne: "\<forall>x \<in> set (pre @ [ch]). x \<noteq> []" using characters_nonempty [OF Cons.prems(1)] by auto
  obtain act r where st: "reader_step ch (code_point ch) ?i (reader_after pre first new_reader) = (act, r)" by fastforce
  have r: "r = reader_after (pre @ [ch]) first new_reader" using st by (simp add: reader_after_append)
  have act: "fst (reader_step ch (code_point ch) (length (concat pre)) (read_to pre)) = act"
    using same_step(1) [OF ne, of "code_point ch" ?i first] st by simp
  have mode: "rd_state (read_to (pre @ [ch])) = rd_state r"
    using same_step(2) [OF ne, of "code_point ch" ?i first] st by (simp add: read_to_snoc)
  define breaks where "breaks = (code_point ch = 10 \<and> act = Execute \<and> \<not> broken)"
  have breaks: "breaks \<longleftrightarrow> feeds pre ch \<and> \<not> broken" using act by (auto simp: breaks_def feeds_def)
  have eq: "next_line_from (ch # chars) first reach ?i broken (reader_after pre first new_reader) =
      (if breaks \<and> int ?i - int first \<ge> reach then None
       else if (broken \<or> breaks) \<and> rd_state r = Ground then Some (if act = Print then ?i else ?i + length ch)
       else if \<not> (broken \<or> breaks) \<and> int (?i + length ch) - int first \<ge> reach then None
       else next_line_from chars first reach (?i + length ch) (broken \<or> breaks) r)"
    by (simp only: next_line_from.simps st prod.case Let_def breaks_def)
  have late: "\<not> (breaks \<and> int ?i - int first \<ge> reach)" using Cons.prems(3) unfolding eq by (auto split: if_splits)
  have here: "if broken \<or> breaks then \<exists>a. first_feed (pre @ [ch]) a \<and> int (length (concat a)) < reach else unfed (pre @ [ch])"
  proof (cases broken)
    case True
    then show ?thesis using Cons.prems(2) first_feed_extend [of pre] by auto
  next
    case False
    then show ?thesis using Cons.prems(2) breaks late first_feed_here [of pre ch] unfed_snoc [of pre ch] by auto
  qed
  have s: "characters t = (pre @ [ch]) @ chars" using Cons.prems(1) by simp
  have len: "length (concat (pre @ [ch])) \<le> length t"
    using arg_cong [OF concat_characters [of t], of length] unfolding s by simp
  show ?case
  proof (cases "(broken \<or> breaks) \<and> rd_state r = Ground")
    case True
    then have n: "n = (if act = Print then ?i else ?i + length ch)" using Cons.prems(3) late unfolding eq by (auto split: if_splits)
    obtain a where a: "first_feed (pre @ [ch]) a" "int (length (concat a)) < reach" using here True by auto
    have whole: "first_feed (characters t) a" using first_feed_extend [OF a(1), of chars] s by simp
    show ?thesis
    proof (cases "act = Print")
      case True
      then have "broken" using \<open>(broken \<or> breaks) \<and> rd_state r = Ground\<close> by (simp add: breaks_def)
      then obtain b where b: "first_feed pre b" "int (length (concat b)) < reach" using Cons.prems(2) by auto
      have "length (concat b) < length (concat pre)" using first_feed_short [OF b(1)] ne by simp
      moreover have "first_feed (characters t) b" using first_feed_extend [OF b(1), of "ch # chars"] Cons.prems(1) by simp
      moreover have "cut_ok t \<lparr>ct_at = length (concat pre), ct_prefix = []\<rparr>"
        by (rule printed_cut [OF Cons.prems(1), of "length (concat pre)"]) (use act True in simp)
      ultimately show ?thesis using n True b(2) len by (auto simp: next_line_ok_def)
    next
      case False
      have "length (concat a) < length (concat (pre @ [ch]))" using first_feed_short [OF a(1)] ne by simp
      moreover have "cut_ok t \<lparr>ct_at = length (concat (pre @ [ch])), ct_prefix = []\<rparr>"
        by (rule ground_cut [OF s]) (use mode True in simp)
      ultimately show ?thesis using n False a(2) whole len by (auto simp: next_line_ok_def)
    qed
  next
    case False
    then have "next_line_from chars first reach (first + length (concat (pre @ [ch]))) (broken \<or> breaks)
        (reader_after (pre @ [ch]) first new_reader) = Some n"
      using Cons.prems(3) late r unfolding eq by (auto simp: add.assoc split: if_splits)
    from Cons.IH [OF s here this] show ?thesis .
  qed
qed simp

section \<open>Properties\<close>

text \<open>The pieces of a stream, each read from where the last one left the reader.\<close>

fun read_pieces :: "reader_state \<Rightarrow> js_string list \<Rightarrow> nat \<times> bool" where
  "read_pieces st [] = (0, False)"
| "read_pieces st (p # ps) =
     (let piece = readPiece st p; (breaks, draws) = read_pieces (pc_state piece) ps
      in (pc_lineBreaks piece + breaks, pc_draws piece \<or> draws))"

text \<open>
  C39. However a terminal's output is split into pieces, even inside a control sequence or between
  the halves of a surrogate pair, reading the pieces one after the other counts the same line
  breaks and finds the same drawing as reading the whole output at once: the few states carried
  between pieces lose nothing that matters.
\<close>

theorem pieces_read_as_one:
  "read_pieces st ps = (pc_lineBreaks (readPiece st (concat ps)), pc_draws (readPiece st (concat ps)))"
proof (induction ps arbitrary: st)
  case Nil
  show ?case by (simp add: readPiece_def)
next
  case (Cons p ps)
  then show ?case using readPiece_append [of st p "concat ps"] by (simp add: Let_def)
qed

text \<open>
  C38. Wherever the front of a record is cut, what is kept (the prefix and the text from the cut),
  read by a fresh reader, prints, executes and dispatches exactly what the terminal did from
  there on, in the same order; only a control sequence whose start was cut away is dropped.
\<close>

theorem cut_reads_as_the_terminal: "cut_ok s (readableCut s wanted lineBreakReach unfinishedReach)"
  using readableCut_lands by blast

text \<open>
  A cut frees what was asked for, up to the unfinished sequence kept whole: what is kept is no
  longer than the text from the wanted cut plus \<open>unfinishedReach\<close>, or than three units when less
  than that is left.
\<close>

theorem cut_frees_enough:
  assumes "wanted \<le> int (length s)"
    and "c = readableCut s wanted lineBreakReach unfinishedReach"
  shows "int (length (ct_prefix c)) + (int (length s) - int (ct_at c)) \<le> max (int (length s) - wanted + max 0 unfinishedReach) 3"
  using readableCut_lands [of s wanted lineBreakReach unfinishedReach] assms(1) unfolding assms(2) [symmetric] cut_near_def by auto

theorem cut_frees_enough_witness:
  "int (length (ct_prefix (readableCut [97, 98, 99, 10, 100] 2 4 0))) + (int 5 - int (ct_at (readableCut [97, 98, 99, 10, 100] 2 4 0))) \<le> max 3 3"
  using cut_frees_enough [of 2 "[97, 98, 99, 10, 100]" _ 4 0] by simp

text \<open>
  The next line starts past the first line feed the terminal carries out, that feed is within
  reach, and what is read from there by a fresh reader does what the terminal does: a feed inside
  a control sequence starts the line where the sequence ends, never in its middle.
\<close>

theorem next_line_is_found:
  assumes "nextLineStart s first reach = Some n"
  shows "next_line_ok (drop first s) reach first n"
  using assms unfolding nextLineStart_def
  by (intro next_line_from_ok [of _ "[]" _ False]) (simp_all add: unfed_def)

theorem next_line_is_found_witness: "next_line_ok (drop 1 [97, 27, 91, 10, 109, 98]) 4 1 5"
  by (rule next_line_is_found)
    (simp add: nextLineStart_def reader_step_def mode_step_def csi_step_def introduce_def introduced_def new_reader_def high_surrogate_def)

end
