(* ===== verification/Shell_Command.thy ===== *)
theory Shell_Command
  imports Domovoi_Prelude
begin

text \<open>
  How an approval request's command line is read (\<open>parseCommand\<close> and \<open>packageInvocation\<close> of
  apps/daemon/src/execution-resolution.ts): the scanner that splits a line into simple commands and
  words, and refuses every line whose meaning depends on more than quoting, and the recognition of
  a package manager running a script.

  A grammar of the accepted lines (\<open>lexeme\<close>, \<open>meaning\<close>) is stated on its own; the scanner accepts a
  line exactly when the grammar derives it, and with the words the grammar gives it.
\<close>

section \<open>The scanner\<close>

datatype shell_operator = AndIf | OrIf | PipeTo | SeqTo

record parsed_part =
  pp_operator :: "shell_operator option"
  pp_argv :: "js_string list"

datatype shell_quote = SingleQuote | DoubleQuote

record scan_state =
  sc_parts :: "parsed_part list"
  sc_operator :: "shell_operator option"
  sc_argv :: "js_string list"
  sc_token :: js_string
  sc_tokenStarted :: bool
  sc_quote :: "shell_quote option"
  sc_escaped :: bool

abbreviation c_double :: js_char where "c_double \<equiv> 34"
abbreviation c_dollar :: js_char where "c_dollar \<equiv> 36"
abbreviation c_amp :: js_char where "c_amp \<equiv> 38"
abbreviation c_single :: js_char where "c_single \<equiv> 39"
abbreviation c_semi :: js_char where "c_semi \<equiv> 59"
abbreviation c_backslash :: js_char where "c_backslash \<equiv> 92"
abbreviation c_backtick :: js_char where "c_backtick \<equiv> 96"
abbreviation c_pipe :: js_char where "c_pipe \<equiv> 124"

definition unsupportedUnquoted :: "js_char set" where
  "unsupportedUnquoted = {36, 96, 60, 62, 40, 41, 123, 125, 91, 93, 42, 63, 35}"

definition statefulShellCommands :: "js_string list" where
  "statefulShellCommands = map js [''.'', ''alias'', ''cd'', ''eval'', ''exec'', ''export'', ''popd'', ''pushd'', ''set'',
     ''source'', ''unalias'', ''unset'']"

definition pushToken :: "scan_state \<Rightarrow> scan_state" where
  "pushToken st =
     (if \<not> sc_tokenStarted st then st
      else st\<lparr>sc_argv := sc_argv st @ [sc_token st], sc_token := [], sc_tokenStarted := False\<rparr>)"

definition pushPart :: "shell_operator \<Rightarrow> scan_state \<Rightarrow> scan_state option" where
  "pushPart nextOperator st =
     (let st = pushToken st in
      if sc_argv st = [] then None
      else Some (st\<lparr>sc_parts := sc_parts st @ [\<lparr>pp_operator = sc_operator st, pp_argv = sc_argv st\<rparr>],
                    sc_operator := Some nextOperator, sc_argv := []\<rparr>))"

definition add_char :: "js_char \<Rightarrow> scan_state \<Rightarrow> scan_state" where
  "add_char c st = st\<lparr>sc_token := sc_token st @ [c], sc_tokenStarted := True\<rparr>"

definition scan_double :: "js_char \<Rightarrow> js_string \<Rightarrow> scan_state \<Rightarrow> scan_state option" where
  "scan_double c rest st =
     (if c = c_double then Some (st\<lparr>sc_quote := None, sc_tokenStarted := True\<rparr>)
      else if c = c_backslash then
        (case rest of
           n # _ \<Rightarrow> if n \<noteq> c_double \<and> n \<noteq> c_backslash then None else Some (st\<lparr>sc_escaped := True, sc_tokenStarted := True\<rparr>)
         | [] \<Rightarrow> None)
      else if c = c_dollar \<or> c = c_backtick then None
      else Some (add_char c st))"

text \<open>One character outside quotes; the flag says that the next character was taken with it.\<close>

definition scan_unquoted :: "js_char \<Rightarrow> js_string \<Rightarrow> scan_state \<Rightarrow> (scan_state \<times> bool) option" where
  "scan_unquoted c rest st =
     (if c = c_backslash then Some (st\<lparr>sc_escaped := True, sc_tokenStarted := True\<rparr>, False)
      else if c = c_single then Some (st\<lparr>sc_quote := Some SingleQuote, sc_tokenStarted := True\<rparr>, False)
      else if c = c_double then Some (st\<lparr>sc_quote := Some DoubleQuote, sc_tokenStarted := True\<rparr>, False)
      else if js_whitespace c then Some (pushToken st, False)
      else if c \<in> unsupportedUnquoted then None
      else if c = c_amp \<and> take 1 rest = [c_amp] then map_option (\<lambda>s. (s, True)) (pushPart AndIf st)
      else if c = c_pipe \<and> take 1 rest = [c_pipe] then map_option (\<lambda>s. (s, True)) (pushPart OrIf st)
      else if c = c_pipe then map_option (\<lambda>s. (s, False)) (pushPart PipeTo st)
      else if c = c_semi then map_option (\<lambda>s. (s, False)) (pushPart SeqTo st)
      else if c = c_amp then None
      else Some (add_char c st, False))"

definition scan_char :: "js_char \<Rightarrow> js_string \<Rightarrow> scan_state \<Rightarrow> (scan_state \<times> bool) option" where
  "scan_char c rest st =
     (if sc_escaped st then Some ((add_char c st)\<lparr>sc_escaped := False\<rparr>, False)
      else case sc_quote st of
        Some SingleQuote \<Rightarrow>
          Some (if c = c_single then st\<lparr>sc_quote := None, sc_tokenStarted := True\<rparr> else add_char c st, False)
      | Some DoubleQuote \<Rightarrow> map_option (\<lambda>s. (s, False)) (scan_double c rest st)
      | None \<Rightarrow> scan_unquoted c rest st)"

function scan :: "js_string \<Rightarrow> scan_state \<Rightarrow> scan_state option" where
  "scan [] st = Some st"
| "scan (c # rest) st =
     (case scan_char c rest st of
        None \<Rightarrow> None
      | Some (st', taken) \<Rightarrow> scan (if taken then tl rest else rest) st')"
  by pat_completeness auto
termination by (relation "measure (\<lambda>(s, _). length s)") auto

definition scan_start :: scan_state where
  "scan_start = \<lparr>sc_parts = [], sc_operator = None, sc_argv = [], sc_token = [], sc_tokenStarted = False,
     sc_quote = None, sc_escaped = False\<rparr>"

text \<open>
  \<open>toLowerCase\<close> as far as the comparison with \<open>statefulShellCommands\<close> sees it: the only character
  outside ASCII that it maps into ASCII is the Kelvin sign, to a k, which none of the names has.
\<close>

definition ascii_lower :: "js_char \<Rightarrow> js_char" where
  "ascii_lower c = (if 65 \<le> unat c \<and> unat c \<le> 90 then c + 32 else c)"

definition name_start :: "js_char \<Rightarrow> bool" where
  "name_start c \<longleftrightarrow> (let n = unat c in 65 \<le> n \<and> n \<le> 90 \<or> 97 \<le> n \<and> n \<le> 122 \<or> n = 95)"

definition assignment_char :: "js_char \<Rightarrow> bool" where
  "assignment_char c \<longleftrightarrow> name_start c \<or> 48 \<le> unat c \<and> unat c \<le> 57"

text \<open>\<open>/^[A-Za-z_][A-Za-z0-9_]*=/u\<close>\<close>

fun assignment :: "js_string \<Rightarrow> bool" where
  "assignment [] = False"
| "assignment (c # s) \<longleftrightarrow> name_start c \<and> take 1 (dropWhile assignment_char s) = [61]"

definition changes_shell :: "parsed_part \<Rightarrow> bool" where
  "changes_shell part \<longleftrightarrow> map ascii_lower (hd (pp_argv part)) \<in> set statefulShellCommands \<or> assignment (hd (pp_argv part))"

definition close_scan :: "scan_state \<Rightarrow> parsed_part list option" where
  "close_scan st =
     (if sc_quote st \<noteq> None \<or> sc_escaped st then None
      else
        let st = pushToken st in
        if sc_argv st = [] then None
        else Some (sc_parts st @ [\<lparr>pp_operator = sc_operator st, pp_argv = sc_argv st\<rparr>]))"

definition line_refused :: "js_string \<Rightarrow> bool" where
  "line_refused command \<longleftrightarrow> command = [] \<or> length command > 8192 \<or> (\<exists>c \<in> set command. c \<in> {13, 10, 0})"

definition parseCommand :: "js_string \<Rightarrow> parsed_part list option" where
  "parseCommand command =
     (if line_refused command then None
      else case scan command scan_start of
        None \<Rightarrow> None
      | Some st \<Rightarrow>
          (case close_scan st of
             None \<Rightarrow> None
           | Some parts \<Rightarrow> if \<exists>part \<in> set parts. changes_shell part then None else Some parts))"

section \<open>Package scripts\<close>

datatype package_manager = Npm | Pnpm | Yarn | Bun

fun manager_text :: "package_manager \<Rightarrow> js_string" where
  "manager_text Npm = js ''npm''"
| "manager_text Pnpm = js ''pnpm''"
| "manager_text Yarn = js ''yarn''"
| "manager_text Bun = js ''bun''"

definition packageManagers :: "package_manager list" where
  "packageManagers = [Npm, Pnpm, Yarn, Bun]"

definition packageSubcommands :: "js_string list" where
  "packageSubcommands = map js
     [''add'', ''audit'', ''create'', ''dedupe'', ''dlx'', ''exec'', ''i'', ''init'', ''install'', ''link'',
      ''pack'', ''patch'', ''publish'', ''remove'', ''rm'', ''store'', ''up'', ''update'', ''why'', ''x'']"

definition npmScriptShortcuts :: "js_string list" where
  "npmScriptShortcuts = map js [''start'', ''stop'', ''test'']"

text \<open>
  \<open>/^[a-z0-9](?:[a-z0-9:._-]*[a-z0-9])?$/iu\<close>. With both flags a letter is compared by its simple
  case folding, so the long s (U+017F) and the Kelvin sign (U+212A) are letters of the class too.
\<close>

definition script_letter :: "js_char \<Rightarrow> bool" where
  "script_letter c \<longleftrightarrow> (let n = unat c in 97 \<le> n \<and> n \<le> 122 \<or> 65 \<le> n \<and> n \<le> 90 \<or> 48 \<le> n \<and> n \<le> 57 \<or> n = 383 \<or> n = 8490)"

definition script_inner :: "js_char \<Rightarrow> bool" where
  "script_inner c \<longleftrightarrow> script_letter c \<or> c \<in> {58, 46, 95, 45}"

definition scriptName :: "js_string \<Rightarrow> bool" where
  "scriptName s \<longleftrightarrow> s \<noteq> [] \<and> script_letter (hd s) \<and> script_letter (last s) \<and> list_all script_inner s"

record package_invocation =
  pi_manager :: package_manager
  pi_script :: js_string
  pi_arguments :: "js_string list"
  pi_argv :: "js_string list"

datatype invocation = NotPackage | InvalidInvocation | Invocation package_invocation

text \<open>The script a subcommand names, and what follows it; \<open>None\<close> when it names none.\<close>

definition script_of :: "package_manager \<Rightarrow> js_string \<Rightarrow> js_string list \<Rightarrow> (js_string option \<times> js_string list) option" where
  "script_of manager subcommand following =
     (if subcommand = js ''run'' then Some (if following = [] then None else Some (hd following), tl following)
      else case manager of
        Npm \<Rightarrow> if subcommand \<notin> set npmScriptShortcuts then None else Some (Some subcommand, following)
      | Bun \<Rightarrow> None
      | _ \<Rightarrow> if subcommand \<in> set packageSubcommands then None else Some (Some subcommand, following))"

definition dashes :: js_string where
  "dashes = [45, 45]"

definition packageInvocation :: "js_string list \<Rightarrow> nat \<Rightarrow> invocation" where
  "packageInvocation argv forwardedArgumentCount =
     (case argv of
        name # subcommand # following \<Rightarrow>
          (case find (\<lambda>m. manager_text m = name) packageManagers of
             None \<Rightarrow> NotPackage
           | Some manager \<Rightarrow>
               if subcommand = [] then NotPackage
               else if hd subcommand = 45 then InvalidInvocation
               else (case script_of manager subcommand following of
                   None \<Rightarrow> NotPackage
                 | Some (script, remainder) \<Rightarrow>
                     (case script of
                        None \<Rightarrow> InvalidInvocation
                      | Some s \<Rightarrow>
                          if \<not> scriptName s then InvalidInvocation
                          else if remainder \<noteq> [] \<and> hd remainder \<noteq> dashes \<and> length remainder \<noteq> forwardedArgumentCount
                          then InvalidInvocation
                          else
                            let args = (if remainder = [] then [] else if hd remainder = dashes then tl remainder else remainder) in
                            Invocation \<lparr>pi_manager = manager, pi_script = s, pi_arguments = args,
                              pi_argv = [manager_text manager, js ''run'', s] @ (if args = [] then [] else dashes # args)\<rparr>)))
      | _ \<Rightarrow> NotPackage)"

section \<open>The grammar of accepted lines\<close>

text \<open>
  A line is a sequence of lexemes: white space, an operator between commands, or a piece of a word,
  which is a bare character, a character after a backslash, or a quoted run.
\<close>

datatype double_char = Plain js_char | Backslashed js_char

datatype lexeme =
    Blank js_char
  | Separator shell_operator
  | Bare js_char
  | Escaped js_char
  | Single js_string
  | Double "double_char list"

definition bare :: "js_char \<Rightarrow> bool" where
  "bare c \<longleftrightarrow> \<not> js_whitespace c \<and> c \<notin> unsupportedUnquoted \<and> c \<notin> {c_double, c_single, c_backslash, c_amp, c_pipe, c_semi}"

fun double_ok :: "double_char \<Rightarrow> bool" where
  "double_ok (Plain c) \<longleftrightarrow> c \<notin> {c_double, c_backslash, c_dollar, c_backtick}"
| "double_ok (Backslashed c) \<longleftrightarrow> c \<in> {c_double, c_backslash}"

fun lexeme_ok :: "lexeme \<Rightarrow> bool" where
  "lexeme_ok (Blank c) \<longleftrightarrow> js_whitespace c"
| "lexeme_ok (Separator _) \<longleftrightarrow> True"
| "lexeme_ok (Bare c) \<longleftrightarrow> bare c"
| "lexeme_ok (Escaped _) \<longleftrightarrow> True"
| "lexeme_ok (Single s) \<longleftrightarrow> c_single \<notin> set s"
| "lexeme_ok (Double ds) \<longleftrightarrow> list_all double_ok ds"

fun operator_text :: "shell_operator \<Rightarrow> js_string" where
  "operator_text AndIf = [c_amp, c_amp]"
| "operator_text OrIf = [c_pipe, c_pipe]"
| "operator_text PipeTo = [c_pipe]"
| "operator_text SeqTo = [c_semi]"

fun double_text :: "double_char \<Rightarrow> js_string" where
  "double_text (Plain c) = [c]"
| "double_text (Backslashed c) = [c_backslash, c]"

fun double_value :: "double_char \<Rightarrow> js_char" where
  "double_value (Plain c) = c"
| "double_value (Backslashed c) = c"

fun lexeme_text :: "lexeme \<Rightarrow> js_string" where
  "lexeme_text (Blank c) = [c]"
| "lexeme_text (Separator op) = operator_text op"
| "lexeme_text (Bare c) = [c]"
| "lexeme_text (Escaped c) = [c_backslash, c]"
| "lexeme_text (Single s) = [c_single] @ s @ [c_single]"
| "lexeme_text (Double ds) = [c_double] @ concat (map double_text ds) @ [c_double]"

text \<open>What a piece of a word stands for, once its quoting is removed.\<close>

fun lexeme_value :: "lexeme \<Rightarrow> js_string" where
  "lexeme_value (Bare c) = [c]"
| "lexeme_value (Escaped c) = [c]"
| "lexeme_value (Single s) = s"
| "lexeme_value (Double ds) = map double_value ds"
| "lexeme_value _ = []"

fun is_piece :: "lexeme \<Rightarrow> bool" where
  "is_piece (Blank _) = False"
| "is_piece (Separator _) = False"
| "is_piece _ = True"

text \<open>The words of a simple command: the maximal runs of pieces, each the concatenation of its pieces.\<close>

fun words :: "lexeme list \<Rightarrow> js_string list" where
  "words [] = []"
| "words (l # ls) =
     (if \<not> is_piece l then words ls
      else case ls of
        m # _ \<Rightarrow> if is_piece m then (lexeme_value l @ hd (words ls)) # tl (words ls) else lexeme_value l # words ls
      | [] \<Rightarrow> [lexeme_value l])"

text \<open>The simple commands of a line: what stands before the first operator, and after each.\<close>

fun segments :: "lexeme list \<Rightarrow> lexeme list \<times> (shell_operator \<times> lexeme list) list" where
  "segments [] = ([], [])"
| "segments (l # ls) =
     (case segments ls of (s, r) \<Rightarrow>
        (case l of Separator op \<Rightarrow> ([], (op, s) # r) | _ \<Rightarrow> (l # s, r)))"

definition meaning :: "lexeme list \<Rightarrow> parsed_part list" where
  "meaning ls =
     (case segments ls of (s, r) \<Rightarrow>
        \<lparr>pp_operator = None, pp_argv = words s\<rparr> # map (\<lambda>(op, s). \<lparr>pp_operator = Some op, pp_argv = words s\<rparr>) r)"

section \<open>The scanner reads lexemes\<close>

definition ground :: "scan_state \<Rightarrow> bool" where
  "ground st \<longleftrightarrow> sc_quote st = None \<and> \<not> sc_escaped st"

definition add_text :: "js_string \<Rightarrow> scan_state \<Rightarrow> scan_state" where
  "add_text s st = st\<lparr>sc_token := sc_token st @ s, sc_tokenStarted := True, sc_quote := None\<rparr>"

definition lex_step :: "lexeme \<Rightarrow> scan_state \<Rightarrow> scan_state option" where
  "lex_step l st =
     (case l of
        Blank _ \<Rightarrow> Some (pushToken st)
      | Separator op \<Rightarrow> pushPart op st
      | _ \<Rightarrow> Some (add_text (lexeme_value l) st))"

fun lex_run :: "lexeme list \<Rightarrow> scan_state \<Rightarrow> scan_state option" where
  "lex_run [] st = Some st"
| "lex_run (l # ls) st = (case lex_step l st of None \<Rightarrow> None | Some st' \<Rightarrow> lex_run ls st')"

lemma ground_simps [simp]:
  "ground st \<Longrightarrow> ground (pushToken st)" "ground st \<Longrightarrow> ground (add_text s st)"
  "ground st \<Longrightarrow> pushPart op st = Some st' \<Longrightarrow> ground st'"
  by (auto simp: ground_def pushToken_def add_text_def pushPart_def Let_def split: if_splits)

lemma lex_step_ground: "ground st \<Longrightarrow> lex_step l st = Some st' \<Longrightarrow> ground st'"
  by (cases l) (auto simp: lex_step_def)

lemma add_char_text: "add_char c (st\<lparr>sc_quote := q\<rparr>) = (add_text [c] st)\<lparr>sc_quote := q\<rparr>"
  by (simp add: add_char_def add_text_def)

lemma add_text_Nil: "add_text [] (st\<lparr>sc_tokenStarted := True\<rparr>) = st\<lparr>sc_tokenStarted := True, sc_quote := None\<rparr>"
  by (simp add: add_text_def)

lemma scan_single:
  "c_single \<notin> set s \<Longrightarrow> sc_quote st = Some SingleQuote \<Longrightarrow> \<not> sc_escaped st \<Longrightarrow>
   scan (s @ c_single # rest) st = scan rest (add_text s st)"
proof (induction s arbitrary: st)
  case Nil
  then show ?case by (cases st) (simp add: scan_char_def add_text_def)
next
  case (Cons c s)
  then show ?case by (simp add: scan_char_def add_char_def add_text_def)
qed

lemma scan_double_quoted:
  "list_all double_ok ds \<Longrightarrow> sc_quote st = Some DoubleQuote \<Longrightarrow> \<not> sc_escaped st \<Longrightarrow>
   scan (concat (map double_text ds) @ c_double # rest) st = scan rest (add_text (map double_value ds) st)"
proof (induction ds arbitrary: st)
  case Nil
  then show ?case by (cases st) (simp add: scan_char_def scan_double_def add_text_def)
next
  case (Cons d ds)
  show ?case
  proof (cases d)
    case (Plain c)
    then show ?thesis using Cons by (simp add: scan_char_def scan_double_def add_char_def add_text_def)
  next
    case (Backslashed c)
    then have "c = c_double \<or> c = c_backslash" using Cons.prems(1) by simp
    then show ?thesis using Cons Backslashed by (cases st) (auto simp: scan_char_def scan_double_def add_char_def add_text_def)
  qed
qed

lemma unquoted_simps [simp]:
  "\<not> js_whitespace c_backslash" "\<not> js_whitespace c_single" "\<not> js_whitespace c_double"
  "\<not> js_whitespace c_amp" "\<not> js_whitespace c_pipe" "\<not> js_whitespace c_semi"
  "c_amp \<notin> unsupportedUnquoted" "c_pipe \<notin> unsupportedUnquoted" "c_semi \<notin> unsupportedUnquoted"
  by (simp_all add: js_whitespace_def unsupportedUnquoted_def)

lemma blank_special: "js_whitespace c \<Longrightarrow> c \<notin> {c_backslash, c_single, c_double}"
  by auto

lemma scan_lexeme:
  assumes "ground st" "lexeme_ok l" "l = Separator PipeTo \<longrightarrow> take 1 rest \<noteq> [c_pipe]"
  shows "scan (lexeme_text l @ rest) st = (case lex_step l st of None \<Rightarrow> None | Some st' \<Rightarrow> scan rest st')"
proof -
  have g: "\<not> sc_escaped st" "sc_quote st = None" using assms(1) by (simp_all add: ground_def)
  show ?thesis
  proof (cases l)
    case (Blank c)
    then have "js_whitespace c" using assms(2) by simp
    then show ?thesis using g Blank blank_special [of c] by (simp add: scan_char_def scan_unquoted_def lex_step_def)
  next
    case (Separator op)
    then show ?thesis using g assms(3)
      by (cases op; cases "pushPart op st") (simp_all add: scan_char_def scan_unquoted_def lex_step_def)
  next
    case (Bare c)
    then have "bare c" using assms(2) by simp
    then show ?thesis using g Bare
      by (cases st) (simp add: scan_char_def scan_unquoted_def lex_step_def bare_def add_char_def add_text_def)
  next
    case (Escaped c)
    then show ?thesis using g
      by (cases st) (simp add: scan_char_def scan_unquoted_def lex_step_def add_char_def add_text_def)
  next
    case (Single s)
    then show ?thesis using g assms(2)
        scan_single [of s "st\<lparr>sc_quote := Some SingleQuote, sc_tokenStarted := True\<rparr>" rest]
      by (simp add: scan_char_def scan_unquoted_def lex_step_def add_text_def)
  next
    case (Double ds)
    then show ?thesis using g assms(2)
        scan_double_quoted [of ds "st\<lparr>sc_quote := Some DoubleQuote, sc_tokenStarted := True\<rparr>" rest]
      by (simp add: scan_char_def scan_unquoted_def lex_step_def add_text_def)
  qed
qed

lemma single_closes:
  "scan s st = Some e \<Longrightarrow> ground e \<Longrightarrow> sc_quote st = Some SingleQuote \<Longrightarrow> \<not> sc_escaped st \<Longrightarrow>
   \<exists>a rest. s = a @ c_single # rest \<and> c_single \<notin> set a"
proof (induction s arbitrary: st)
  case Nil
  then show ?case by (simp add: ground_def)
next
  case (Cons c s)
  show ?case
  proof (cases "c = c_single")
    case True
    then show ?thesis by (intro exI [of _ "[]"] exI [of _ s]) simp
  next
    case False
    then have "scan s (add_char c st) = Some e" using Cons.prems by (simp add: scan_char_def)
    from Cons.IH [OF this Cons.prems(2)] Cons.prems(3,4) obtain a rest where "s = a @ c_single # rest" "c_single \<notin> set a"
      by (auto simp: add_char_def)
    then show ?thesis using False by (intro exI [of _ "c # a"] exI [of _ rest]) simp
  qed
qed

lemma double_closes:
  "scan s st = Some e \<Longrightarrow> ground e \<Longrightarrow> sc_quote st = Some DoubleQuote \<Longrightarrow> \<not> sc_escaped st \<Longrightarrow>
   \<exists>ds rest. s = concat (map double_text ds) @ c_double # rest \<and> list_all double_ok ds"
proof (induction "length s" arbitrary: s st rule: less_induct)
  case less
  show ?case
  proof (cases s)
    case Nil
    then show ?thesis using less.prems by (simp add: ground_def)
  next
    case (Cons c t)
    have more: "\<exists>ds rest. s = concat (map double_text ds) @ c_double # rest \<and> list_all double_ok ds"
      if "s = double_text d @ u" "double_ok d" "scan u st' = Some e" "sc_quote st' = Some DoubleQuote" "\<not> sc_escaped st'" for d u st'
    proof -
      have "length u < length s" using that(1) by (cases d) simp_all
      from less.hyps [OF this that(3) less.prems(2) that(4,5)] obtain ds rest
        where "u = concat (map double_text ds) @ c_double # rest" "list_all double_ok ds" by blast
      then show ?thesis using that(1,2) by (intro exI [of _ "d # ds"] exI [of _ rest]) simp
    qed
    consider "c = c_double" | "c = c_backslash" | "c \<noteq> c_double" "c \<noteq> c_backslash" by blast
    then show ?thesis
    proof cases
      case 1
      then show ?thesis using Cons by (intro exI [of _ "[]"] exI [of _ t]) simp
    next
      case 2
      then obtain n u where t: "t = n # u" "n = c_double \<or> n = c_backslash"
        using less.prems Cons by (auto simp: scan_char_def scan_double_def split: list.splits if_splits)
      have "scan u ((add_char n (st\<lparr>sc_escaped := True, sc_tokenStarted := True\<rparr>))\<lparr>sc_escaped := False\<rparr>) = Some e"
        using less.prems Cons 2 t by (auto simp: scan_char_def scan_double_def)
      then show ?thesis
        by (rule more [of "Backslashed n", rotated 2]) (use Cons 2 t less.prems(3) in \<open>auto simp: add_char_def\<close>)
    next
      case 3
      then have "c \<notin> {c_dollar, c_backtick}" "scan t (add_char c st) = Some e"
        using less.prems Cons by (auto simp: scan_char_def scan_double_def split: if_splits)
      then show ?thesis
        by (intro more [of "Plain c" t "add_char c st"]) (use Cons 3 less.prems(3,4) in \<open>auto simp: add_char_def\<close>)
    qed
  qed
qed

lemma first_lexeme:
  assumes "ground st" "scan (c # s) st = Some e" "ground e"
  shows "\<exists>l rest. c # s = lexeme_text l @ rest \<and> lexeme_ok l \<and> (l = Separator PipeTo \<longrightarrow> take 1 rest \<noteq> [c_pipe])"
proof -
  have g: "\<not> sc_escaped st" "sc_quote st = None" using assms(1) by (simp_all add: ground_def)
  have read: "scan_unquoted c s st \<noteq> None" using assms(2) g by (auto simp: scan_char_def split: option.splits)
  have found: ?thesis if "c # s = lexeme_text l @ rest" "lexeme_ok l" "l = Separator PipeTo \<longrightarrow> take 1 rest \<noteq> [c_pipe]" for l rest
    using that by blast
  consider "c = c_backslash" | "c = c_single" | "c = c_double" | "js_whitespace c"
    | "c = c_amp" | "c = c_pipe" | "c = c_semi" | "bare c"
    using read unfolding bare_def by (auto simp: scan_unquoted_def split: if_splits)
  then show ?thesis
  proof cases
    case 1
    then obtain d t where "s = d # t" using assms g by (cases s) (auto simp: scan_char_def scan_unquoted_def ground_def)
    with 1 show ?thesis by (intro found [of "Escaped d" t]) simp_all
  next
    case 2
    then obtain a rest where "s = a @ c_single # rest" "c_single \<notin> set a"
      using assms g single_closes [of s "st\<lparr>sc_quote := Some SingleQuote, sc_tokenStarted := True\<rparr>" e]
      by (auto simp: scan_char_def scan_unquoted_def)
    with 2 show ?thesis by (intro found [of "Single a" rest]) simp_all
  next
    case 3
    then obtain ds rest where "s = concat (map double_text ds) @ c_double # rest" "list_all double_ok ds"
      using assms g double_closes [of s "st\<lparr>sc_quote := Some DoubleQuote, sc_tokenStarted := True\<rparr>" e]
      by (auto simp: scan_char_def scan_unquoted_def)
    with 3 show ?thesis by (intro found [of "Double ds" rest]) simp_all
  next
    case 4
    then show ?thesis by (intro found [of "Blank c" s]) simp_all
  next
    case 5
    then have "take 1 s = [c_amp]" using read by (auto simp: scan_unquoted_def split: if_splits)
    then have "s = c_amp # tl s" by (cases s) simp_all
    with 5 show ?thesis by (intro found [of "Separator AndIf" "tl s"]) simp_all
  next
    case 6
    show ?thesis
    proof (cases "take 1 s = [c_pipe]")
      case True
      then have "s = c_pipe # tl s" by (cases s) simp_all
      with 6 show ?thesis by (intro found [of "Separator OrIf" "tl s"]) simp_all
    next
      case False
      with 6 show ?thesis by (intro found [of "Separator PipeTo" s]) simp_all
    qed
  next
    case 7
    then show ?thesis by (intro found [of "Separator SeqTo" s]) simp_all
  next
    case 8
    then show ?thesis by (intro found [of "Bare c" s]) simp_all
  qed
qed

lemma lexeme_text_nonempty [simp]: "lexeme_text l \<noteq> []"
proof (cases l)
  case (Separator op)
  then show ?thesis by (cases op) simp_all
qed simp_all

lemma scan_sound:
  "ground st \<Longrightarrow> scan s st = Some e \<Longrightarrow> ground e \<Longrightarrow>
   \<exists>ls. list_all lexeme_ok ls \<and> concat (map lexeme_text ls) = s \<and> lex_run ls st = Some e"
proof (induction "length s" arbitrary: s st rule: less_induct)
  case less
  show ?case
  proof (cases s)
    case Nil
    then show ?thesis using less.prems by (intro exI [of _ "[]"]) simp
  next
    case (Cons c t)
    obtain l rest where l: "s = lexeme_text l @ rest" "lexeme_ok l" "l = Separator PipeTo \<longrightarrow> take 1 rest \<noteq> [c_pipe]"
      using first_lexeme [of st c t e] less.prems Cons by auto
    have short: "length rest < length s" using l(1) by (simp add: length_greater_0_conv)
    obtain st' where st': "lex_step l st = Some st'" "scan rest st' = Some e"
      using scan_lexeme [OF less.prems(1) l(2,3)] less.prems(2) l(1) by (auto split: option.splits)
    from less.hyps [OF short lex_step_ground [OF less.prems(1) st'(1)] st'(2) less.prems(3)]
    obtain ls where "list_all lexeme_ok ls" "concat (map lexeme_text ls) = rest" "lex_run ls st' = Some e" by blast
    then show ?thesis using l st'(1) by (intro exI [of _ "l # ls"]) simp
  qed
qed

lemma starts_with_pipe:
  assumes "list_all lexeme_ok ls" "take 1 (concat (map lexeme_text ls)) = [c_pipe]"
  shows "\<exists>op ls'. ls = Separator op # ls'"
proof (cases ls)
  case (Cons l ls')
  then have "lexeme_ok l" "take 1 (lexeme_text l) = [c_pipe]"
    using assms by (cases "lexeme_text l"; simp)+
  then show ?thesis using Cons by (cases l) (auto simp: bare_def)
qed (use assms in simp)

lemma scan_complete:
  "list_all lexeme_ok ls \<Longrightarrow> ground st \<Longrightarrow> lex_run ls st = Some e \<Longrightarrow> scan (concat (map lexeme_text ls)) st = Some e"
proof (induction ls arbitrary: st)
  case (Cons l ls)
  obtain st' where st': "lex_step l st = Some st'" "lex_run ls st' = Some e"
    using Cons.prems(3) by (auto split: option.splits)
  have "l = Separator PipeTo \<longrightarrow> take 1 (concat (map lexeme_text ls)) \<noteq> [c_pipe]"
  proof (intro impI notI)
    assume l: "l = Separator PipeTo" "take 1 (concat (map lexeme_text ls)) = [c_pipe]"
    then obtain op ls' where "ls = Separator op # ls'" using starts_with_pipe [of ls] Cons.prems(1) by auto
    moreover have "sc_argv st' = []" "\<not> sc_tokenStarted st'"
      using st'(1) l(1) by (auto simp: lex_step_def pushPart_def pushToken_def Let_def split: if_splits)
    ultimately show False using st'(2) by (simp add: lex_step_def pushPart_def pushToken_def)
  qed
  from scan_lexeme [OF Cons.prems(2) _ this] Cons.prems(1) st'(1)
  have "scan (concat (map lexeme_text (l # ls))) st = scan (concat (map lexeme_text ls)) st'" by simp
  also have "\<dots> = Some e"
    using Cons.IH [OF _ lex_step_ground [OF Cons.prems(2) st'(1)] st'(2)] Cons.prems(1) by simp
  finally show ?case .
qed simp

section \<open>Words and commands\<close>

definition pending_word :: "scan_state \<Rightarrow> lexeme list" where
  "pending_word st = (if sc_tokenStarted st then [Single (sc_token st)] else [])"

definition fresh :: "scan_state \<Rightarrow> bool" where
  "fresh st \<longleftrightarrow> (sc_tokenStarted st \<or> sc_token st = [])"

definition remaining :: "lexeme list \<Rightarrow> scan_state \<Rightarrow> parsed_part list" where
  "remaining ls st =
     (case segments ls of (s, r) \<Rightarrow>
        \<lparr>pp_operator = sc_operator st, pp_argv = sc_argv st @ words (pending_word st @ s)\<rparr>
        # map (\<lambda>(op, s). \<lparr>pp_operator = Some op, pp_argv = words s\<rparr>) r)"

lemma words_piece:
  "is_piece l \<Longrightarrow> fresh st \<Longrightarrow> words (pending_word st @ l # ls) = words (Single (sc_token st @ lexeme_value l) # ls)"
  by (auto simp: pending_word_def fresh_def split: list.splits)

lemma words_blank: "words (pending_word st @ Blank c # ls) = words (pending_word st) @ words ls"
  by (simp add: pending_word_def)

lemma pushToken_words: "sc_argv (pushToken st) = sc_argv st @ words (pending_word st)" "pending_word (pushToken st) = []"
  by (simp_all add: pushToken_def pending_word_def)

lemma pushToken_same [simp]: "sc_parts (pushToken st) = sc_parts st" "sc_operator (pushToken st) = sc_operator st"
  "fresh st \<Longrightarrow> fresh (pushToken st)"
  by (auto simp: pushToken_def fresh_def)

lemma remaining_blank: "remaining (Blank c # ls) st = remaining ls (pushToken st)"
  by (simp add: remaining_def words_blank pushToken_words split: prod.split)

lemma remaining_separator:
  "remaining (Separator op # ls) st =
   \<lparr>pp_operator = sc_operator st, pp_argv = sc_argv (pushToken st)\<rparr>
   # remaining ls ((pushToken st)\<lparr>sc_parts := ps, sc_operator := Some op, sc_argv := []\<rparr>)"
proof -
  have "pending_word ((pushToken st)\<lparr>sc_parts := ps, sc_operator := Some op, sc_argv := []\<rparr>) = []"
    using pushToken_words(2) [of st] by (auto simp: pending_word_def split: if_splits)
  then show ?thesis by (simp add: remaining_def pushToken_words split: prod.split)
qed

lemma remaining_piece: "is_piece l \<Longrightarrow> fresh st \<Longrightarrow> remaining (l # ls) st = remaining ls (add_text (lexeme_value l) st)"
proof -
  assume l: "is_piece l" "fresh st"
  obtain s r where "segments ls = (s, r)" by fastforce
  moreover from this l have "segments (l # ls) = (l # s, r)" by (cases l) simp_all
  moreover have "pending_word (add_text (lexeme_value l) st) = [Single (sc_token st @ lexeme_value l)]"
    by (simp add: pending_word_def add_text_def)
  ultimately show ?thesis using words_piece [OF l, of s] by (simp add: remaining_def add_text_def)
qed

lemma lex_run_remaining:
  "ground st \<Longrightarrow> fresh st \<Longrightarrow>
   (case lex_run ls st of None \<Rightarrow> None | Some e \<Rightarrow> close_scan e)
   = (if \<forall>p \<in> set (remaining ls st). pp_argv p \<noteq> [] then Some (sc_parts st @ remaining ls st) else None)"
proof (induction ls arbitrary: st)
  case Nil
  then show ?case by (simp add: close_scan_def remaining_def pushToken_words ground_def Let_def)
next
  case (Cons l ls)
  consider c where "l = Blank c" | op where "l = Separator op" | "is_piece l" by (cases l) simp_all
  then show ?case
  proof cases
    case 1
    then show ?thesis using Cons.IH [of "pushToken st"] Cons.prems by (simp add: lex_step_def remaining_blank)
  next
    case 2
    show ?thesis
    proof (cases "sc_argv (pushToken st) = []")
      case True
      then show ?thesis using 2 by (simp add: lex_step_def pushPart_def Let_def remaining_separator [where ps = "[]"])
    next
      case False
      let ?st = "(pushToken st)\<lparr>sc_parts := sc_parts st @ [\<lparr>pp_operator = sc_operator st, pp_argv = sc_argv (pushToken st)\<rparr>],
        sc_operator := Some op, sc_argv := []\<rparr>"
      have "ground ?st" "fresh ?st" using Cons.prems by (auto simp: ground_def fresh_def pushToken_def)
      from Cons.IH [OF this] show ?thesis using 2 False
        by (simp add: lex_step_def pushPart_def Let_def
            remaining_separator [where ps = "sc_parts st @ [\<lparr>pp_operator = sc_operator st, pp_argv = sc_argv (pushToken st)\<rparr>]"])
    qed
  next
    case 3
    have "fresh (add_text (lexeme_value l) st)" by (simp add: fresh_def add_text_def)
    with 3 show ?thesis
      using Cons.IH [of "add_text (lexeme_value l) st"] Cons.prems remaining_piece [OF 3, of st ls]
      by (cases l) (simp_all add: lex_step_def, simp_all add: add_text_def)
  qed
qed

text \<open>What the grammar says a line means.\<close>

definition derives :: "js_string \<Rightarrow> parsed_part list \<Rightarrow> bool" where
  "derives command parts \<longleftrightarrow>
     (\<exists>ls. list_all lexeme_ok ls \<and> concat (map lexeme_text ls) = command \<and> meaning ls = parts)
     \<and> (\<forall>part \<in> set parts. pp_argv part \<noteq> [])"

lemma scan_start_facts [simp]: "ground scan_start" "fresh scan_start" "remaining ls scan_start = meaning ls" "sc_parts scan_start = []"
  by (simp_all add: scan_start_def ground_def fresh_def remaining_def meaning_def pending_word_def split: prod.split)

lemma close_ground: "close_scan e = Some ps \<Longrightarrow> ground e"
  by (auto simp: close_scan_def ground_def split: if_splits)

lemma scan_derives:
  "(\<exists>e. scan command scan_start = Some e \<and> close_scan e = Some parts) \<longleftrightarrow> derives command parts"
proof
  assume "\<exists>e. scan command scan_start = Some e \<and> close_scan e = Some parts"
  then obtain e where e: "scan command scan_start = Some e" "close_scan e = Some parts" by blast
  from scan_sound [OF _ e(1) close_ground [OF e(2)]] obtain ls
    where ls: "list_all lexeme_ok ls" "concat (map lexeme_text ls) = command" "lex_run ls scan_start = Some e" by auto
  with lex_run_remaining [of scan_start ls] e(2) have "meaning ls = parts" "\<forall>p \<in> set parts. pp_argv p \<noteq> []"
    by (auto split: if_splits)
  then show "derives command parts" using ls by (auto simp: derives_def)
next
  assume "derives command parts"
  then obtain ls where ls: "list_all lexeme_ok ls" "concat (map lexeme_text ls) = command" "meaning ls = parts"
    "\<forall>p \<in> set parts. pp_argv p \<noteq> []" by (auto simp: derives_def)
  then obtain e where "lex_run ls scan_start = Some e" "close_scan e = Some parts"
    using lex_run_remaining [of scan_start ls] by (auto split: option.splits)
  then show "\<exists>e. scan command scan_start = Some e \<and> close_scan e = Some parts"
    using scan_complete [OF ls(1), of scan_start e] ls(2) by auto
qed

section \<open>Writing a command line\<close>

text \<open>Any word can be written: each character in quotes of its own, a single quote after a backslash.\<close>

definition quoted_char :: "js_char \<Rightarrow> lexeme" where
  "quoted_char c = (if c = c_single then Escaped c else Single [c])"

definition quoted_word :: "js_string \<Rightarrow> lexeme list" where
  "quoted_word w = Single [] # map quoted_char w"

definition written_command :: "js_string list \<Rightarrow> lexeme list" where
  "written_command argv = concat (map (\<lambda>w. Blank 32 # quoted_word w) argv)"

definition written_line :: "parsed_part list \<Rightarrow> lexeme list" where
  "written_line parts =
     concat (map (\<lambda>p. (case pp_operator p of None \<Rightarrow> [] | Some op \<Rightarrow> [Separator op]) @ written_command (pp_argv p)) parts)"

definition shell_text :: "parsed_part list \<Rightarrow> js_string" where
  "shell_text parts = concat (map lexeme_text (written_line parts))"

definition well_formed_parts :: "parsed_part list \<Rightarrow> bool" where
  "well_formed_parts parts \<longleftrightarrow>
     (\<exists>p ps. parts = p # ps \<and> pp_operator p = None \<and> (\<forall>q \<in> set ps. pp_operator q \<noteq> None))
     \<and> (\<forall>p \<in> set parts. pp_argv p \<noteq> [])"

lemma written_ok: "list_all lexeme_ok (written_line parts)"
proof -
  have "list_all lexeme_ok (quoted_word w)" for w by (auto simp: quoted_word_def quoted_char_def list_all_iff)
  then show ?thesis
    by (auto simp: written_line_def written_command_def list_all_iff js_whitespace_def split: option.splits)
qed

lemma words_quoted: "list_all is_piece ps \<Longrightarrow> ps \<noteq> [] \<Longrightarrow>
   words (ps @ ls) = (if ls = [] \<or> \<not> is_piece (hd ls) then concat (map lexeme_value ps) # words ls
     else (concat (map lexeme_value ps) @ hd (words ls)) # tl (words ls))"
proof (induction ps)
  case (Cons p ps)
  show ?case
  proof (cases ps)
    case Nil
    then show ?thesis using Cons.prems by (cases ls) auto
  next
    case (Cons q qs)
    then show ?thesis using Cons.IH Cons.prems by auto
  qed
qed simp

lemma quoted_value: "concat (map lexeme_value (quoted_word w)) = w" "list_all is_piece (quoted_word w)"
proof -
  have "concat (map (lexeme_value \<circ> quoted_char) w) = w" by (induction w) (simp_all add: quoted_char_def)
  then show "concat (map lexeme_value (quoted_word w)) = w" by (simp add: quoted_word_def)
  show "list_all is_piece (quoted_word w)" by (auto simp: quoted_word_def quoted_char_def list_all_iff)
qed

lemma words_written: "words (written_command argv) = argv"
proof (induction argv)
  case Nil
  show ?case by (simp add: written_command_def)
next
  case (Cons w argv)
  have start: "written_command argv = [] \<or> \<not> is_piece (hd (written_command argv))"
    by (cases argv) (simp_all add: written_command_def)
  have "words (written_command (w # argv)) = words (quoted_word w @ written_command argv)"
    by (simp add: written_command_def)
  also have "\<dots> = w # words (written_command argv)"
    using words_quoted [of "quoted_word w" "written_command argv"] quoted_value [of w] start
    by (auto simp: quoted_word_def)
  finally show ?case using Cons by simp
qed

lemma segments_plain:
  "\<forall>l \<in> set ls. \<forall>op. l \<noteq> Separator op \<Longrightarrow> segments (ls @ ms) = (ls @ fst (segments ms), snd (segments ms))"
proof (induction ls)
  case (Cons l ls)
  then show ?case by (cases l) (auto split: prod.split)
qed (simp split: prod.split)

lemma written_plain: "\<forall>l \<in> set (written_command argv). \<forall>op. l \<noteq> Separator op"
  by (auto simp: written_command_def quoted_word_def quoted_char_def)

lemma segments_line:
  "\<forall>q \<in> set ps. pp_operator q \<noteq> None \<Longrightarrow>
   segments (written_line ps) = ([], map (\<lambda>q. (the (pp_operator q), written_command (pp_argv q))) ps)"
proof (induction ps)
  case (Cons q ps)
  then obtain op where "pp_operator q = Some op" by auto
  then show ?case
    using Cons segments_plain [OF written_plain [of "pp_argv q"], of "written_line ps"]
    by (simp add: written_line_def)
qed (simp add: written_line_def)

lemma meaning_written: "well_formed_parts parts \<Longrightarrow> meaning (written_line parts) = parts"
proof -
  assume "well_formed_parts parts"
  then obtain p ps where p: "parts = p # ps" "pp_operator p = None" "\<forall>q \<in> set ps. pp_operator q \<noteq> None"
    by (auto simp: well_formed_parts_def)
  have "segments (written_line parts) = (written_command (pp_argv p), map (\<lambda>q. (the (pp_operator q), written_command (pp_argv q))) ps)"
    using p segments_plain [OF written_plain [of "pp_argv p"], of "written_line ps"] segments_line [OF p(3)]
    by (simp add: written_line_def)
  moreover have "map (\<lambda>q. \<lparr>pp_operator = Some (the (pp_operator q)), pp_argv = pp_argv q\<rparr>) ps = ps"
    using p(3) by (intro map_idI) auto
  ultimately show ?thesis using p by (simp add: meaning_def words_written comp_def)
qed

section \<open>Properties\<close>

text \<open>
  C13. The scanner accepts a command line exactly when the grammar derives it, and reads from it
  exactly the commands and words the grammar gives: only white space, the four operators, bare
  characters, backslashed characters and quoted runs without an expansion. A line that is empty,
  too long or has a line break, or one of whose commands would change the shell itself, is refused.
\<close>

theorem command_is_read_as_written:
  "parseCommand command = Some parts \<longleftrightarrow>
     derives command parts \<and> \<not> line_refused command \<and> list_all (\<lambda>part. \<not> changes_shell part) parts"
  using scan_derives [of command parts] by (auto simp: parseCommand_def list_all_iff split: option.splits if_splits)

text \<open>
  Every list of commands can be written as a line that is read back as exactly those commands:
  whatever characters a word has, quoting it keeps them.
\<close>

theorem quoted_command_reads_back:
  assumes "well_formed_parts parts"
    and "\<not> line_refused (shell_text parts)"
    and "\<forall>part \<in> set parts. \<not> changes_shell part"
  shows "parseCommand (shell_text parts) = Some parts"
proof -
  have "derives (shell_text parts) parts"
    unfolding derives_def shell_text_def
    using written_ok meaning_written [OF assms(1)] assms(1) by (auto simp: well_formed_parts_def)
  then obtain e where "scan (shell_text parts) scan_start = Some e" "close_scan e = Some parts"
    using scan_derives by blast
  then show ?thesis using assms(2,3) by (auto simp: parseCommand_def)
qed

theorem quoted_command_reads_back_witness:
  "parseCommand (shell_text [\<lparr>pp_operator = None, pp_argv = [[97], [36, 39]]\<rparr>, \<lparr>pp_operator = Some PipeTo, pp_argv = [[98]]\<rparr>])
   = Some [\<lparr>pp_operator = None, pp_argv = [[97], [36, 39]]\<rparr>, \<lparr>pp_operator = Some PipeTo, pp_argv = [[98]]\<rparr>]"
  by (rule quoted_command_reads_back)
    (simp_all add: well_formed_parts_def line_refused_def shell_text_def written_line_def written_command_def quoted_word_def
      quoted_char_def changes_shell_def statefulShellCommands_def js_def ascii_lower_def assignment_char_def name_start_def)

end
