(* ===== verification/Posix_Path.thy ===== *)
theory Posix_Path
  imports Domovoi_Prelude
begin

text \<open>
  The functions of Node's \<open>path\<close> module (POSIX) that the path walk and the worktree check use, on
  strings, and what they do to an absolute path given by its components.
\<close>

section \<open>Functions on strings\<close>

text \<open>\<open>value.split("/")\<close>\<close>

fun split_slash :: "js_string \<Rightarrow> js_string list" where
  "split_slash [] = [[]]"
| "split_slash (c # s) =
     (if c = 47 then [] # split_slash s else (c # hd (split_slash s)) # tl (split_slash s))"

fun join_slash :: "js_string list \<Rightarrow> js_string" where
  "join_slash [] = []"
| "join_slash [p] = p"
| "join_slash (p # q # ps) = p @ 47 # join_slash (q # ps)"

abbreviation dot :: js_string where "dot \<equiv> [46]"
abbreviation dotdot :: js_string where "dotdot \<equiv> [46, 46]"

definition isAbsolute :: "js_string \<Rightarrow> bool" where
  "isAbsolute p \<longleftrightarrow> take 1 p = [47]"

text \<open>\<open>parse(path).root\<close>, and the parts of a path after splitting at runs of separators.\<close>

definition path_root :: "js_string \<Rightarrow> js_string" where
  "path_root p = (if isAbsolute p then [47] else [])"

definition path_parts :: "js_string \<Rightarrow> js_string list" where
  "path_parts p = filter (\<lambda>c. c \<noteq> []) (split_slash p)"

text \<open>\<open>normalize\<close>: empty parts and dots go, and ".." takes the part before it away.\<close>

fun normal_parts :: "bool \<Rightarrow> js_string list \<Rightarrow> js_string list \<Rightarrow> js_string list" where
  "normal_parts rel acc [] = acc"
| "normal_parts rel acc (p # ps) =
     (if p = [] \<or> p = dot then normal_parts rel acc ps
      else if p = dotdot then
        (if acc \<noteq> [] \<and> last acc \<noteq> dotdot then normal_parts rel (butlast acc) ps
         else if rel then normal_parts rel (acc @ [p]) ps
         else normal_parts rel acc ps)
      else normal_parts rel (acc @ [p]) ps)"

definition path_normalize :: "js_string \<Rightarrow> js_string" where
  "path_normalize p =
     (if p = [] then dot
      else
        let s = join_slash (normal_parts (\<not> isAbsolute p) [] (split_slash p)) in
        if s = [] then (if isAbsolute p then [47] else if last p = 47 then dot @ [47] else dot)
        else path_root p @ s @ (if last p = 47 then [47] else []))"

definition path_join :: "js_string \<Rightarrow> js_string \<Rightarrow> js_string" where
  "path_join a b = path_normalize (if a = [] then b else if b = [] then a else a @ 47 # b)"

text \<open>\<open>dirname\<close> and \<open>basename\<close> of a path with no separator at its end and none twice in a row.\<close>

definition path_dirname :: "js_string \<Rightarrow> js_string" where
  "path_dirname p =
     (case dropWhile (\<lambda>c. c \<noteq> 47) (rev p) of
        [] \<Rightarrow> dot
      | _ # before \<Rightarrow> if before = [] then [47] else rev before)"

definition path_basename :: "js_string \<Rightarrow> js_string" where
  "path_basename p = rev (takeWhile (\<lambda>c. c \<noteq> 47) (rev p))"

text \<open>\<open>resolve(p)\<close> and \<open>relative(a, b)\<close> of absolute paths.\<close>

definition resolved_parts :: "js_string \<Rightarrow> js_string list" where
  "resolved_parts p = normal_parts False [] (split_slash p)"

fun relative_parts :: "js_string list \<Rightarrow> js_string list \<Rightarrow> js_string list" where
  "relative_parts (a # as) (b # bs) =
     (if a = b then relative_parts as bs else replicate (Suc (length as)) dotdot @ b # bs)"
| "relative_parts as [] = replicate (length as) dotdot"
| "relative_parts [] bs = bs"

definition path_relative :: "js_string \<Rightarrow> js_string \<Rightarrow> js_string" where
  "path_relative a b = join_slash (relative_parts (resolved_parts a) (resolved_parts b))"

section \<open>Absolute paths by their components\<close>

definition plain :: "js_string \<Rightarrow> bool" where
  "plain c \<longleftrightarrow> c \<noteq> [] \<and> 47 \<notin> set c \<and> c \<noteq> dot \<and> c \<noteq> dotdot"

definition abs_path :: "js_string list \<Rightarrow> js_string" where
  "abs_path cs = (if cs = [] then [47] else concat (map ((#) 47) cs))"

lemma split_no_slash: "47 \<notin> set c \<Longrightarrow> split_slash c = [c]"
  by (induction c) auto

lemma split_slash_nonempty [simp]: "split_slash s \<noteq> []"
  by (cases s) auto

lemma split_append_slash: "split_slash (s @ 47 # t) = split_slash s @ split_slash t"
proof (induction s)
  case (Cons c s)
  then show ?case by (cases "split_slash s") auto
qed simp

lemma split_components: "list_all (\<lambda>c. 47 \<notin> set c) cs \<Longrightarrow> split_slash (concat (map ((#) 47) cs)) = [] # cs"
proof (induction cs rule: rev_induct)
  case (snoc c cs)
  then show ?case using split_append_slash [of "concat (map ((#) 47) cs)" c] by (simp add: split_no_slash)
qed simp

lemma plain_no_slash: "list_all plain cs \<Longrightarrow> list_all (\<lambda>c. 47 \<notin> set c) cs"
  by (simp add: list_all_iff plain_def)

lemma normal_plain: "list_all plain cs \<Longrightarrow> normal_parts rel acc cs = acc @ cs"
  by (induction cs arbitrary: acc) (auto simp: plain_def)

lemma split_abs: "list_all plain cs \<Longrightarrow> split_slash (abs_path cs) = (if cs = [] then [[], []] else [] # cs)"
  by (simp add: abs_path_def split_components plain_no_slash)

lemma resolved_abs: "list_all plain cs \<Longrightarrow> resolved_parts (abs_path cs) = cs"
  by (simp add: resolved_parts_def split_abs normal_plain)

lemma parts_abs: "list_all plain cs \<Longrightarrow> path_parts (abs_path cs) = cs"
proof -
  assume cs: "list_all plain cs"
  then have "filter (\<lambda>c. c \<noteq> []) cs = cs" by (auto simp: list_all_iff plain_def intro!: filter_True)
  then show ?thesis using cs by (simp add: path_parts_def split_abs)
qed

lemma join_slash_abs: "cs \<noteq> [] \<Longrightarrow> 47 # join_slash cs = abs_path cs"
proof (induction cs rule: join_slash.induct)
  case (3 p q ps)
  then show ?case by (simp add: abs_path_def)
qed (simp_all add: abs_path_def)

lemma abs_absolute [simp]: "isAbsolute (abs_path cs)" "abs_path cs \<noteq> []"
  by (cases cs; simp add: isAbsolute_def abs_path_def)+

lemma abs_snoc: "cs \<noteq> [] \<Longrightarrow> abs_path (cs @ [c]) = abs_path cs @ 47 # c"
  by (simp add: abs_path_def)

lemma join_slash_Nil: "join_slash cs = [] \<Longrightarrow> cs = [] \<or> cs = [[]]"
  by (cases cs rule: join_slash.cases) auto

lemma join_plain: "list_all plain cs \<Longrightarrow> plain c \<Longrightarrow> path_join (abs_path cs) c = abs_path (cs @ [c])"
proof -
  assume cs: "list_all plain cs" "plain c"
  let ?p = "abs_path cs @ 47 # c"
  have "split_slash ?p = split_slash (abs_path cs) @ [c]"
    using split_append_slash [of "abs_path cs" c] cs(2) by (simp add: split_no_slash plain_def)
  then have parts: "normal_parts False [] (split_slash ?p) = cs @ [c]"
    using cs normal_plain [of "cs @ [c]" False "[]"] by (cases "cs = []") (auto simp: split_abs plain_def [of c])
  have abs: "isAbsolute ?p" by (cases cs) (simp_all add: isAbsolute_def abs_path_def)
  have "join_slash (cs @ [c]) \<noteq> []" using cs(2) join_slash_Nil [of "cs @ [c]"] by (auto simp: plain_def)
  moreover have "last ?p \<noteq> 47"
    using cs(2) by (cases c rule: rev_cases) (auto simp: plain_def)
  ultimately have "path_normalize ?p = 47 # join_slash (cs @ [c])"
    using parts abs by (simp add: path_normalize_def path_root_def Let_def)
  then show ?thesis using cs(2) join_slash_abs [of "cs @ [c]"] by (simp add: path_join_def plain_def)
qed

lemma dirname_abs: "list_all plain cs \<Longrightarrow> path_dirname (abs_path cs) = abs_path (butlast cs)"
proof (cases cs rule: rev_cases)
  case Nil
  then show ?thesis by (simp add: path_dirname_def abs_path_def)
next
  case (snoc ds c)
  assume "list_all plain cs"
  then have c: "47 \<notin> set (rev c)" using snoc by (simp add: plain_def)
  then have "dropWhile (\<lambda>x. x \<noteq> 47) (rev c @ 47 # rest) = 47 # rest" for rest by (induction "rev c") (auto simp: dropWhile_append)
  then show ?thesis
  proof (cases "ds = []")
    case True
    then show ?thesis using snoc c by (simp add: path_dirname_def abs_path_def dropWhile_append)
  next
    case False
    then show ?thesis using snoc c abs_snoc [of ds c] by (simp add: path_dirname_def dropWhile_append)
  qed
qed

end
