(* ===== verification/Execution_Record.thy ===== *)
theory Execution_Record
  imports Shell_Command Json_Text Posix_Path "HOL-Library.Multiset"
begin

text \<open>
  The record an approval stands for (packages/protocol/src/execution.ts, and \<open>resolveShell\<close>,
  \<open>fingerprint\<close> and \<open>resolveCommandExecution\<close> of apps/daemon/src/execution-resolution.ts): a command
  line split into its commands, each package script expanded into the script bodies it runs, to any
  depth, and the digest by which a standing rule recognises the same execution again.

  The environment has the redaction of commands (secret-redaction.ts), of which only the two flags
  are used, and SHA-256 of the UTF-8 of a text in hexadecimal.
\<close>

section \<open>Records and their schemas\<close>

record exec_part =
  ep_operator :: "shell_operator option"
  ep_argv :: "js_string list"
  ep_expandsTo :: "nat list"

datatype script_phase = PrePhase | MainPhase | PostPhase

datatype entry_source =
    RequestSource
  | ScriptSource package_manager js_string js_string script_phase "js_string list" js_string

record exec_entry =
  ee_id :: nat
  ee_source :: entry_source
  ee_parts :: "exec_part list"

datatype file_tool = Edit | Write | MultiEdit | NotebookEdit

datatype exec_record =
    ShellRecord js_string "exec_entry list"
  | WorkspaceToolRecord js_string file_tool
  | FileToolRecord js_string file_tool js_string

datatype unresolved_reason =
  CommandMissing | CwdOutsideProject | UnsupportedSyntax | PackageScriptUnresolved | SensitiveContent

datatype resolution = Resolved exec_record js_string | Unresolved unresolved_reason

record exec_env =
  redactDurableCommand :: "js_string \<Rightarrow> bool \<times> bool"
  sha_hex :: "js_string \<Rightarrow> js_string"

definition maximumExecutionEntries :: nat where "maximumExecutionEntries = 64"
definition maximumExecutionParts :: nat where "maximumExecutionParts = 32"
definition maximumExecutionArguments :: nat where "maximumExecutionArguments = 128"
definition maximumExecutionTextLength :: nat where "maximumExecutionTextLength = 8192"

definition executionDigestSchema :: "js_string \<Rightarrow> bool" where
  "executionDigestSchema s \<longleftrightarrow> take 7 s = js ''sha256:'' \<and> length s = 71
     \<and> list_all (\<lambda>c. let n = unat c in 97 \<le> n \<and> n \<le> 102 \<or> 48 \<le> n \<and> n \<le> 57) (drop 7 s)"

definition ascii_letter :: "js_char \<Rightarrow> bool" where
  "ascii_letter c \<longleftrightarrow> (let n = unat c in 65 \<le> n \<and> n \<le> 90 \<or> 97 \<le> n \<and> n \<le> 122)"

definition projectRelativePathSchema :: "js_string \<Rightarrow> bool" where
  "projectRelativePathSchema v \<longleftrightarrow> v \<noteq> [] \<and> length v \<le> 4096 \<and>
     (v = [46]
      \<or> hd v \<noteq> 47 \<and> \<not> (ascii_letter (hd v) \<and> take 1 (tl v) = [58]) \<and> 92 \<notin> set v
        \<and> list_all (\<lambda>p. p \<noteq> [] \<and> p \<noteq> [46] \<and> p \<noteq> [46, 46]) (split_slash v))"

definition executionArgumentSchema :: "js_string \<Rightarrow> bool" where
  "executionArgumentSchema s \<longleftrightarrow> length s \<le> maximumExecutionTextLength"

definition executionArgvSchema :: "js_string list \<Rightarrow> bool" where
  "executionArgvSchema argv \<longleftrightarrow> list_all executionArgumentSchema argv
     \<and> 1 \<le> length argv \<and> length argv \<le> maximumExecutionArguments \<and> hd argv \<noteq> []"

definition path_ends_with :: "js_string \<Rightarrow> js_string \<Rightarrow> bool" where
  "path_ends_with v e \<longleftrightarrow> length e \<le> length v \<and> drop (length v - length e) v = e"

fun executionEntrySourceSchema :: "entry_source \<Rightarrow> bool" where
  "executionEntrySourceSchema RequestSource = True"
| "executionEntrySourceSchema (ScriptSource manager manifest name phase args digest) \<longleftrightarrow>
     projectRelativePathSchema manifest
     \<and> (manifest = js ''package.json'' \<or> path_ends_with manifest (js ''/package.json''))
     \<and> scriptName name \<and> length name \<le> 256
     \<and> list_all executionArgumentSchema args \<and> length args \<le> maximumExecutionArguments
     \<and> executionDigestSchema digest"

definition executionPartSchema :: "exec_part \<Rightarrow> bool" where
  "executionPartSchema p \<longleftrightarrow> executionArgvSchema (ep_argv p) \<and> length (ep_expandsTo p) \<le> 3 \<and> distinct (ep_expandsTo p)"

definition executionEntrySchema :: "exec_entry \<Rightarrow> bool" where
  "executionEntrySchema e \<longleftrightarrow> executionEntrySourceSchema (ee_source e) \<and> list_all executionPartSchema (ee_parts e)
     \<and> 1 \<le> length (ee_parts e) \<and> length (ee_parts e) \<le> maximumExecutionParts"

text \<open>The refinement of a shell record's entries: a tree with the request at its root.\<close>

definition entry_references :: "exec_entry \<Rightarrow> nat list" where
  "entry_references e = concat (map ep_expandsTo (ee_parts e))"

definition references :: "exec_entry list \<Rightarrow> nat list" where
  "references es = concat (map entry_references es)"

definition entries_refinement :: "exec_entry list \<Rightarrow> bool" where
  "entries_refinement es \<longleftrightarrow>
     (\<forall>i < length es.
        ee_id (es ! i) = i
        \<and> (i = 0 \<longleftrightarrow> ee_source (es ! i) = RequestSource)
        \<and> (\<forall>j < length (ee_parts (es ! i)). j = 0 \<longleftrightarrow> ep_operator (ee_parts (es ! i) ! j) = None)
        \<and> (\<forall>target \<in> set (entry_references (es ! i)). i < target \<and> target < length es))
     \<and> (\<forall>i < length es. 0 < i \<longrightarrow> count_list (references es) i = 1)"

fun executionRecordSchema :: "exec_record \<Rightarrow> bool" where
  "executionRecordSchema (ShellRecord cwd es) \<longleftrightarrow> projectRelativePathSchema cwd
     \<and> list_all executionEntrySchema es \<and> 1 \<le> length es \<and> length es \<le> maximumExecutionEntries
     \<and> entries_refinement es"
| "executionRecordSchema (WorkspaceToolRecord cwd tool) \<longleftrightarrow> projectRelativePathSchema cwd"
| "executionRecordSchema (FileToolRecord cwd tool path) \<longleftrightarrow>
     projectRelativePathSchema cwd \<and> projectRelativePathSchema path \<and> path \<noteq> [46]"

section \<open>The digest\<close>

fun operator_json :: "shell_operator option \<Rightarrow> json" where
  "operator_json None = JNull"
| "operator_json (Some op) = JStr (operator_text op)"

definition texts_json :: "js_string list \<Rightarrow> json" where
  "texts_json xs = JArr (map JStr xs)"

definition part_json :: "exec_part \<Rightarrow> json" where
  "part_json p = JObj [(js ''operator'', operator_json (ep_operator p)), (js ''argv'', texts_json (ep_argv p)),
     (js ''expandsTo'', JArr (map (JNum \<circ> int) (ep_expandsTo p)))]"

fun phase_text :: "script_phase \<Rightarrow> js_string" where
  "phase_text PrePhase = js ''pre''"
| "phase_text MainPhase = js ''main''"
| "phase_text PostPhase = js ''post''"

fun source_json :: "entry_source \<Rightarrow> json" where
  "source_json RequestSource = JObj [(js ''kind'', JText ''request'')]"
| "source_json (ScriptSource manager manifest name phase args digest) =
     JObj [(js ''kind'', JText ''package-script''), (js ''manager'', JStr (manager_text manager)),
       (js ''manifest'', JStr manifest), (js ''name'', JStr name), (js ''phase'', JStr (phase_text phase)),
       (js ''arguments'', texts_json args), (js ''sourceDigest'', JStr digest)]"

definition entry_json :: "exec_entry \<Rightarrow> json" where
  "entry_json e = JObj [(js ''id'', JNum (int (ee_id e))), (js ''source'', source_json (ee_source e)),
     (js ''parts'', JArr (map part_json (ee_parts e)))]"

fun tool_text :: "file_tool \<Rightarrow> js_string" where
  "tool_text Edit = js ''Edit''"
| "tool_text Write = js ''Write''"
| "tool_text MultiEdit = js ''MultiEdit''"
| "tool_text NotebookEdit = js ''NotebookEdit''"

fun record_json :: "exec_record \<Rightarrow> json" where
  "record_json (ShellRecord cwd es) =
     JObj [(js ''version'', JNum 1), (js ''coverage'', JText ''command-and-script-text''), (js ''cwd'', JStr cwd),
       (js ''kind'', JText ''shell''), (js ''entries'', JArr (map entry_json es))]"
| "record_json (WorkspaceToolRecord cwd tool) =
     JObj [(js ''version'', JNum 1), (js ''coverage'', JText ''tool-and-workspace-scope''), (js ''cwd'', JStr cwd),
       (js ''kind'', JText ''workspace-file-tool''), (js ''tool'', JStr (tool_text tool)), (js ''scope'', JText ''workspace'')]"
| "record_json (FileToolRecord cwd tool path) =
     JObj [(js ''version'', JNum 1), (js ''coverage'', JText ''tool-and-file''), (js ''cwd'', JStr cwd),
       (js ''kind'', JText ''workspace-file-tool''), (js ''tool'', JStr (tool_text tool)), (js ''scope'', JText ''file''),
       (js ''path'', JStr path)]"

definition digestPrefix :: js_string where
  "digestPrefix = js ''domovoi.execution-record.v1'' @ [0]"

definition sourceDigest :: "exec_env \<Rightarrow> js_string \<Rightarrow> js_string" where
  "sourceDigest env source = js ''sha256:'' @ sha_hex env source"

text \<open>\<open>fingerprint\<close>; \<open>None\<close> when a schema refuses, which throws.\<close>

definition record_digest :: "exec_env \<Rightarrow> exec_record \<Rightarrow> js_string" where
  "record_digest env r = js ''sha256:'' @ sha_hex env (digestPrefix @ canonicalJson (record_json r))"

definition fingerprint :: "exec_env \<Rightarrow> exec_record \<Rightarrow> resolution option" where
  "fingerprint env r =
     (if executionRecordSchema r \<and> executionDigestSchema (record_digest env r)
      then Some (Resolved r (record_digest env r)) else None)"

section \<open>Expanding package scripts\<close>

record package_manifest =
  mn_path :: js_string
  mn_scripts :: "(js_string \<times> js_string) list"

text \<open>
  \<open>manifest.scripts[name]\<close> also finds the functions every object inherits. Of their names only the
  seven without underscores can be a script's name. A function has its source text, by which the
  redaction judges it, and a \<open>length\<close>, by which \<open>parseCommand\<close> refuses it when it is 0 and throws
  otherwise, since a function has no \<open>slice\<close>.
\<close>

datatype script_value = ScriptText js_string | InheritedFunction js_string nat

definition objectPrototype :: "(js_string \<times> script_value) list" where
  "objectPrototype = map (\<lambda>(name, (shown, n)). (js name,
       InheritedFunction (js (''function '' @ shown @ ''() { [native code] }'')) n))
     [(''constructor'', (''Object'', 1)), (''hasOwnProperty'', (''hasOwnProperty'', 1)),
      (''isPrototypeOf'', (''isPrototypeOf'', 1)), (''propertyIsEnumerable'', (''propertyIsEnumerable'', 1)),
      (''toLocaleString'', (''toLocaleString'', 0)), (''toString'', (''toString'', 0)), (''valueOf'', (''valueOf'', 0))]"

definition script_at :: "package_manifest \<Rightarrow> js_string \<Rightarrow> script_value option" where
  "script_at mf name =
     (case map_of (mn_scripts mf) name of Some body \<Rightarrow> Some (ScriptText body) | None \<Rightarrow> map_of objectPrototype name)"

fun script_source :: "script_value \<Rightarrow> js_string" where
  "script_source (ScriptText body) = body"
| "script_source (InheritedFunction shown n) = shown"

record script_definition =
  sd_phase :: script_phase
  sd_name :: js_string
  sd_body :: script_value
  sd_arguments :: "js_string list"

definition hook_definition :: "package_manifest \<Rightarrow> script_phase \<Rightarrow> js_string \<Rightarrow> script_definition list" where
  "hook_definition mf phase name =
     (case script_at mf name of
        None \<Rightarrow> []
      | Some body \<Rightarrow> [\<lparr>sd_phase = phase, sd_name = name, sd_body = body, sd_arguments = []\<rparr>])"

definition script_definitions :: "package_manifest \<Rightarrow> package_invocation \<Rightarrow> script_value \<Rightarrow> script_definition list" where
  "script_definitions mf call main =
     hook_definition mf PrePhase (js ''pre'' @ pi_script call)
     @ [\<lparr>sd_phase = MainPhase, sd_name = pi_script call, sd_body = main, sd_arguments = pi_arguments call\<rparr>]
     @ hook_definition mf PostPhase (js ''post'' @ pi_script call)"

text \<open>Why an expansion stops: a reason for the answer, or an exception.\<close>

datatype stop = Stop unresolved_reason | Thrown

fun parse_script :: "script_value \<Rightarrow> stop + parsed_part list" where
  "parse_script (ScriptText body) = (case parseCommand body of None \<Rightarrow> Inl (Stop UnsupportedSyntax) | Some ps \<Rightarrow> Inr ps)"
| "parse_script (InheritedFunction shown n) = Inl (if n = 0 then Stop UnsupportedSyntax else Thrown)"

definition append_last :: "js_string list \<Rightarrow> parsed_part list \<Rightarrow> parsed_part list" where
  "append_last args ps =
     (if args = [] then ps else butlast ps @ [(last ps)\<lparr>pp_argv := pp_argv (last ps) @ args\<rparr>])"

definition raw_part :: "parsed_part \<Rightarrow> exec_part" where
  "raw_part p = \<lparr>ep_operator = pp_operator p, ep_argv = pp_argv p, ep_expandsTo = []\<rparr>"

definition update_part :: "nat \<Rightarrow> nat \<Rightarrow> (exec_part \<Rightarrow> exec_part) \<Rightarrow> exec_entry list \<Rightarrow> exec_entry list" where
  "update_part i pt f es = es[i := (es ! i)\<lparr>ee_parts := (ee_parts (es ! i))[pt := f (ee_parts (es ! i) ! pt)]\<rparr>]"

definition definition_source :: "exec_env \<Rightarrow> package_manifest \<Rightarrow> package_invocation \<Rightarrow> script_definition \<Rightarrow> entry_source" where
  "definition_source env mf call d =
     ScriptSource (pi_manager call) (mn_path mf) (sd_name d) (sd_phase d) (sd_arguments d)
       (sourceDigest env (script_source (sd_body d)))"

type_synonym expander = "nat \<Rightarrow> (package_manager \<times> js_string) list \<Rightarrow> nat \<Rightarrow> exec_entry list \<Rightarrow> stop + exec_entry list"

text \<open>One definition of a part's script: its entry, the part's reference to it, and its own expansion.\<close>

definition expand_definition ::
  "exec_env \<Rightarrow> package_manifest \<Rightarrow> package_invocation \<Rightarrow> expander \<Rightarrow> (package_manager \<times> js_string) list \<Rightarrow> nat \<Rightarrow> nat
   \<Rightarrow> script_definition \<Rightarrow> exec_entry list \<Rightarrow> stop + exec_entry list" where
  "expand_definition env mf call rec ancestors i pt d es =
     (if length es \<ge> maximumExecutionEntries then Inl (Stop PackageScriptUnresolved)
      else case redactDurableCommand env (script_source (sd_body d)) of (redacted, truncated) \<Rightarrow>
        if redacted then Inl (Stop SensitiveContent)
        else if truncated then Inl (Stop PackageScriptUnresolved)
        else rbind (parse_script (sd_body d)) (\<lambda>parsed.
          let nested = \<lparr>ee_id = length es, ee_source = definition_source env mf call d,
                        ee_parts = map raw_part (append_last (sd_arguments d) parsed)\<rparr>;
              es' = update_part i pt (\<lambda>p. p\<lparr>ep_expandsTo := ep_expandsTo p @ [length es]\<rparr>) (es @ [nested])
          in rec (length es) ancestors (length (sd_arguments d)) es'))"

fun rfold :: "('a \<Rightarrow> 's \<Rightarrow> 'e + 's) \<Rightarrow> 'a list \<Rightarrow> 's \<Rightarrow> 'e + 's" where
  "rfold f [] s = Inr s"
| "rfold f (x # xs) s = rbind (f x s) (rfold f xs)"

definition expand_part ::
  "exec_env \<Rightarrow> package_manifest option \<Rightarrow> expander \<Rightarrow> nat \<Rightarrow> (package_manager \<times> js_string) list \<Rightarrow> nat \<Rightarrow> nat
   \<Rightarrow> exec_entry list \<Rightarrow> stop + exec_entry list" where
  "expand_part env m rec i ancestors forwarded pt es =
     (let parts = ee_parts (es ! i) in
      case packageInvocation (ep_argv (parts ! pt)) (if pt = length parts - 1 then forwarded else 0) of
        InvalidInvocation \<Rightarrow> Inl (Stop PackageScriptUnresolved)
      | NotPackage \<Rightarrow> Inr es
      | Invocation call \<Rightarrow>
          (case m of
             None \<Rightarrow> Inl (Stop PackageScriptUnresolved)
           | Some mf \<Rightarrow>
               if (pi_manager call, pi_script call) \<in> set ancestors then Inl (Stop PackageScriptUnresolved)
               else (case script_at mf (pi_script call) of
                   None \<Rightarrow> Inl (Stop PackageScriptUnresolved)
                 | Some main \<Rightarrow>
                     rfold (expand_definition env mf call rec (ancestors @ [(pi_manager call, pi_script call)]) i pt)
                       (script_definitions mf call main)
                       (update_part i pt (\<lambda>p. p\<lparr>ep_argv := pi_argv call\<rparr>) es))))"

text \<open>\<open>expand\<close>, with the levels that are left in place of its depth.\<close>

primrec expand :: "exec_env \<Rightarrow> package_manifest option \<Rightarrow> nat \<Rightarrow> expander" where
  "expand env m 0 = (\<lambda>i ancestors forwarded es. Inl (Stop PackageScriptUnresolved))"
| "expand env m (Suc levels) = (\<lambda>i ancestors forwarded es.
     rfold (expand_part env m (expand env m levels) i ancestors forwarded) [0..<length (ee_parts (es ! i))] es)"

definition maximumResolutionDepth :: nat where "maximumResolutionDepth = 8"

definition resolveShell :: "exec_env \<Rightarrow> js_string \<Rightarrow> js_string \<Rightarrow> package_manifest option \<Rightarrow> resolution option" where
  "resolveShell env command cwd m =
     (if fst (redactDurableCommand env command) then Some (Unresolved SensitiveContent)
      else case parseCommand command of
        None \<Rightarrow> Some (Unresolved UnsupportedSyntax)
      | Some rootParts \<Rightarrow>
          (case expand env m (maximumResolutionDepth + 1) 0 [] 0
                  [\<lparr>ee_id = 0, ee_source = RequestSource, ee_parts = map raw_part rootParts\<rparr>] of
             Inl (Stop reason) \<Rightarrow> Some (Unresolved reason)
           | Inl Thrown \<Rightarrow> None
           | Inr es \<Rightarrow> fingerprint env (ShellRecord cwd es)))"

definition resolveCommandExecution ::
  "exec_env \<Rightarrow> js_string option \<Rightarrow> js_string option \<Rightarrow> (js_string \<times> js_string) list option \<Rightarrow> js_string option
   \<Rightarrow> resolution option" where
  "resolveCommandExecution env command cwd packageScripts manifest =
     (case map_option js_trim command of
        None \<Rightarrow> Some (Unresolved CommandMissing)
      | Some c \<Rightarrow>
          if c = [] then Some (Unresolved CommandMissing)
          else resolveShell env c (case cwd of None \<Rightarrow> [46] | Some d \<Rightarrow> d)
            (map_option (\<lambda>scripts. \<lparr>mn_path = (case manifest of None \<Rightarrow> js ''package.json'' | Some p \<Rightarrow> p),
               mn_scripts = scripts\<rparr>) packageScripts))"

section \<open>What a record says of the manifest\<close>

text \<open>
  A part of a record explains the command it was read from: a command that runs no script stands as
  it was read; one that runs a script is written out in full and refers to the entries of that
  script's bodies, before, main and after, as the manifest has them.
\<close>

definition part_explained ::
  "exec_env \<Rightarrow> package_manifest option \<Rightarrow> exec_entry list \<Rightarrow> exec_part \<Rightarrow> parsed_part \<Rightarrow> nat \<Rightarrow> bool" where
  "part_explained env m es p q forwarded \<longleftrightarrow>
     ep_operator p = pp_operator q
     \<and> (case packageInvocation (pp_argv q) forwarded of
          NotPackage \<Rightarrow> ep_argv p = pp_argv q \<and> ep_expandsTo p = []
        | InvalidInvocation \<Rightarrow> False
        | Invocation call \<Rightarrow>
            ep_argv p = pi_argv call
            \<and> (\<exists>mf main. m = Some mf \<and> script_at mf (pi_script call) = Some main
                 \<and> (\<forall>t \<in> set (ep_expandsTo p). t < length es)
                 \<and> map (\<lambda>t. ee_source (es ! t)) (ep_expandsTo p)
                    = map (definition_source env mf call) (script_definitions mf call main)))"

definition parts_explained ::
  "exec_env \<Rightarrow> package_manifest option \<Rightarrow> exec_entry list \<Rightarrow> exec_part list \<Rightarrow> parsed_part list \<Rightarrow> nat \<Rightarrow> bool" where
  "parts_explained env m es ps qs forwarded \<longleftrightarrow> length ps = length qs
     \<and> (\<forall>j < length qs. part_explained env m es (ps ! j) (qs ! j) (if j = length qs - 1 then forwarded else 0))"

text \<open>An entry of a script: its body is in the manifest, hides no secret, and its parts explain it.\<close>

definition script_explained :: "exec_env \<Rightarrow> package_manifest option \<Rightarrow> exec_entry list \<Rightarrow> exec_entry \<Rightarrow> bool" where
  "script_explained env m es e \<longleftrightarrow>
     (\<exists>mf manager name phase args body qs. m = Some mf
        \<and> ee_source e = ScriptSource manager (mn_path mf) name phase args (sourceDigest env body)
        \<and> script_at mf name = Some (ScriptText body)
        \<and> redactDurableCommand env body = (False, False)
        \<and> parseCommand body = Some qs
        \<and> parts_explained env m es (ee_parts e) (append_last args qs) (length args))"

text \<open>Entries are only added, and keep where they came from.\<close>

definition extends :: "exec_entry list \<Rightarrow> exec_entry list \<Rightarrow> bool" where
  "extends es es' \<longleftrightarrow> length es \<le> length es' \<and> (\<forall>j < length es. ee_source (es' ! j) = ee_source (es ! j))"

lemma extends_refl [simp]: "extends es es"
  by (simp add: extends_def)

lemma extends_trans: "extends a b \<Longrightarrow> extends b c \<Longrightarrow> extends a c"
  by (simp add: extends_def)

lemma part_explained_mono: "part_explained env m es p q n \<Longrightarrow> extends es es' \<Longrightarrow> part_explained env m es' p q n"
  by (fastforce simp: part_explained_def extends_def split: invocation.splits cong: map_cong)

lemma parts_explained_mono: "parts_explained env m es ps qs n \<Longrightarrow> extends es es' \<Longrightarrow> parts_explained env m es' ps qs n"
  unfolding parts_explained_def using part_explained_mono by blast

lemma script_explained_mono: "script_explained env m es e \<Longrightarrow> extends es es' \<Longrightarrow> script_explained env m es' e"
  unfolding script_explained_def using parts_explained_mono by blast

definition new_explained :: "exec_env \<Rightarrow> package_manifest option \<Rightarrow> exec_entry list \<Rightarrow> exec_entry list \<Rightarrow> bool" where
  "new_explained env m es es' \<longleftrightarrow> (\<forall>j. length es \<le> j \<longrightarrow> j < length es' \<longrightarrow> script_explained env m es' (es' ! j))"

text \<open>Only entry \<open>i\<close> changes, and of it only its parts.\<close>

definition only_entry :: "nat \<Rightarrow> exec_entry list \<Rightarrow> exec_entry list \<Rightarrow> bool" where
  "only_entry i es es' \<longleftrightarrow> extends es es' \<and> (\<forall>j < length es. j \<noteq> i \<longrightarrow> es' ! j = es ! j)"

text \<open>Only part \<open>pt\<close> of entry \<open>i\<close> changes.\<close>

definition only_part :: "nat \<Rightarrow> nat \<Rightarrow> exec_entry list \<Rightarrow> exec_entry list \<Rightarrow> bool" where
  "only_part i pt es es' \<longleftrightarrow> only_entry i es es' \<and> length (ee_parts (es' ! i)) = length (ee_parts (es ! i))
     \<and> (\<forall>j < length (ee_parts (es ! i)). j \<noteq> pt \<longrightarrow> ee_parts (es' ! i) ! j = ee_parts (es ! i) ! j)"

lemma only_entry_trans: "only_entry i a b \<Longrightarrow> only_entry i b c \<Longrightarrow> only_entry i a c"
  unfolding only_entry_def using extends_trans by (fastforce simp: extends_def)

lemma only_part_trans: "only_part i pt a b \<Longrightarrow> only_part i pt b c \<Longrightarrow> only_part i pt a c"
  unfolding only_part_def using only_entry_trans by fastforce

lemma new_explained_trans:
  assumes "new_explained env m a b" "new_explained env m b c" "only_entry i b c" "i < length a" "extends a b"
  shows "new_explained env m a c"
  unfolding new_explained_def
proof (intro allI impI)
  fix j
  assume j: "length a \<le> j" "j < length c"
  show "script_explained env m c (c ! j)"
  proof (cases "j < length b")
    case True
    then have "script_explained env m b (b ! j)" using assms(1) j(1) by (simp add: new_explained_def)
    moreover have "c ! j = b ! j" using assms(3,4) True j(1) by (simp add: only_entry_def)
    ultimately show ?thesis using script_explained_mono assms(3) by (simp add: only_entry_def)
  next
    case False
    then show ?thesis using assms(2) j(2) by (simp add: new_explained_def)
  qed
qed

text \<open>What the expansion of an entry promises.\<close>

definition rec_ok :: "exec_env \<Rightarrow> package_manifest option \<Rightarrow> expander \<Rightarrow> bool" where
  "rec_ok env m rec \<longleftrightarrow> (\<forall>i ancestors forwarded es es' qs.
     i < length es \<longrightarrow> ee_parts (es ! i) = map raw_part qs \<longrightarrow> rec i ancestors forwarded es = Inr es' \<longrightarrow>
     only_entry i es es' \<and> new_explained env m es es' \<and> parts_explained env m es' (ee_parts (es' ! i)) qs forwarded)"

lemma update_part_simps [simp]:
  "length (update_part i pt f es) = length es"
  "j \<noteq> i \<Longrightarrow> update_part i pt f es ! j = es ! j"
  "i < length es \<Longrightarrow> ee_parts (update_part i pt f es ! i) = (ee_parts (es ! i))[pt := f (ee_parts (es ! i) ! pt)]"
  "i < length es \<Longrightarrow> ee_source (update_part i pt f es ! i) = ee_source (es ! i)"
  "i < length es \<Longrightarrow> ee_id (update_part i pt f es ! i) = ee_id (es ! i)"
  by (simp_all add: update_part_def)

lemma update_part_only: "i < length es \<Longrightarrow> only_part i pt es (update_part i pt f es)"
  by (auto simp: only_part_def only_entry_def extends_def update_part_def nth_list_update)

lemma definition_step:
  assumes rec: "rec_ok env (Some mf) rec" and run: "expand_definition env mf call rec ancestors i pt d es = Inr es'"
    and i: "i < length es" "pt < length (ee_parts (es ! i))" and d: "script_at mf (sd_name d) = Some (sd_body d)"
  shows "only_part i pt es es' \<and> new_explained env (Some mf) es es'
    \<and> ee_parts (es' ! i) ! pt = (ee_parts (es ! i) ! pt)\<lparr>ep_expandsTo := ep_expandsTo (ee_parts (es ! i) ! pt) @ [length es]\<rparr>
    \<and> length es < length es' \<and> ee_source (es' ! length es) = definition_source env mf call d"
proof -
  obtain redacted truncated where r: "redactDurableCommand env (script_source (sd_body d)) = (redacted, truncated)" by fastforce
  with run have flags: "\<not> redacted" "\<not> truncated" by (auto simp: expand_definition_def split: if_splits)
  obtain parsed where parsed: "parse_script (sd_body d) = Inr parsed"
    using run r by (auto simp: expand_definition_def result_simps split: if_splits)
  then obtain body where body: "sd_body d = ScriptText body" "parseCommand body = Some parsed"
    by (cases "sd_body d") (auto split: option.splits)
  let ?n = "length es"
  let ?nested = "\<lparr>ee_id = ?n, ee_source = definition_source env mf call d, ee_parts = map raw_part (append_last (sd_arguments d) parsed)\<rparr>"
  let ?es = "update_part i pt (\<lambda>p. p\<lparr>ep_expandsTo := ep_expandsTo p @ [?n]\<rparr>) (es @ [?nested])"
  have run': "rec ?n ancestors (length (sd_arguments d)) ?es = Inr es'"
    using run r flags parsed by (auto simp: expand_definition_def Let_def split: if_splits)
  have raw: "?n < length ?es" "ee_parts (?es ! ?n) = map raw_part (append_last (sd_arguments d) parsed)" using i(1) by simp_all
  have only: "only_entry ?n ?es es'" and new: "new_explained env (Some mf) ?es es'"
    and parts: "parts_explained env (Some mf) es' (ee_parts (es' ! ?n)) (append_last (sd_arguments d) parsed) (length (sd_arguments d))"
    using rec [unfolded rec_ok_def, rule_format, OF raw run'] by blast+
  have grown: "length ?es = Suc ?n" by simp
  have same: "es' ! j = ?es ! j" if "j < ?n" for j using only that by (simp add: only_entry_def)
  have long: "Suc ?n \<le> length es'" using only by (simp add: only_entry_def extends_def)
  have "ee_source (es' ! j) = ee_source (es ! j)" "j \<noteq> i \<Longrightarrow> es' ! j = es ! j" if "j < ?n" for j
    using same [OF that] that i by (cases "j = i"; simp add: nth_append)+
  then have part: "only_part i pt es es'"
    using same [OF i(1)] long i by (simp add: only_part_def only_entry_def extends_def nth_append)
  have source: "ee_source (es' ! ?n) = definition_source env mf call d"
    using only i(1) by (simp add: only_entry_def extends_def)
  moreover have at: "ee_parts (es' ! i) ! pt = (ee_parts (es ! i) ! pt)\<lparr>ep_expandsTo := ep_expandsTo (ee_parts (es ! i) ! pt) @ [?n]\<rparr>"
    using only i by (simp add: only_entry_def nth_append)
  moreover have "new_explained env (Some mf) es es'"
    unfolding new_explained_def
  proof (intro allI impI)
    fix j
    assume j: "?n \<le> j" "j < length es'"
    show "script_explained env (Some mf) es' (es' ! j)"
    proof (cases "j = ?n")
      case True
      then show ?thesis using source r flags body parts d
        unfolding script_explained_def definition_source_def
        by (intro exI [of _ mf] exI [of _ "pi_manager call"] exI [of _ "sd_name d"] exI [of _ "sd_phase d"]
            exI [of _ "sd_arguments d"] exI [of _ body] exI [of _ parsed]) simp
    next
      case False
      then show ?thesis using new j by (simp add: new_explained_def)
    qed
  qed
  ultimately show ?thesis using part long by simp
qed

lemma only_partD:
  assumes "only_part i pt es es'" "i < length es"
  shows "extends es es'" "only_entry i es es'" "i < length es'" "length (ee_parts (es' ! i)) = length (ee_parts (es ! i))"
    "j < length (ee_parts (es ! i)) \<Longrightarrow> j \<noteq> pt \<Longrightarrow> ee_parts (es' ! i) ! j = ee_parts (es ! i) ! j"
  using assms by (auto simp: only_part_def only_entry_def extends_def)

lemma only_part_refl [simp]: "only_part i pt es es"
  by (simp add: only_part_def only_entry_def)

lemma new_explained_refl [simp]: "new_explained env m es es"
  by (simp add: new_explained_def)

lemma definitions_step:
  assumes rec: "rec_ok env (Some mf) rec"
  shows "rfold (expand_definition env mf call rec ancestors i pt) ds es = Inr es' \<Longrightarrow>
    i < length es \<Longrightarrow> pt < length (ee_parts (es ! i)) \<Longrightarrow> \<forall>d \<in> set ds. script_at mf (sd_name d) = Some (sd_body d) \<Longrightarrow>
    only_part i pt es es' \<and> new_explained env (Some mf) es es'
    \<and> (\<exists>ts. ee_parts (es' ! i) ! pt = (ee_parts (es ! i) ! pt)\<lparr>ep_expandsTo := ep_expandsTo (ee_parts (es ! i) ! pt) @ ts\<rparr>
        \<and> (\<forall>t \<in> set ts. t < length es') \<and> map (\<lambda>t. ee_source (es' ! t)) ts = map (definition_source env mf call) ds)"
proof (induction ds arbitrary: es)
  case Nil
  then show ?case by (auto intro!: exI [of _ "[]"])
next
  case (Cons d ds)
  then obtain es1 where run: "expand_definition env mf call rec ancestors i pt d es = Inr es1"
      "rfold (expand_definition env mf call rec ancestors i pt) ds es1 = Inr es'" by (auto simp: result_simps)
  note one = definition_step [OF rec run(1) Cons.prems(2,3)]
  have d: "script_at mf (sd_name d) = Some (sd_body d)" using Cons.prems(4) by simp
  note o1 = one [OF d]
  note f1 = only_partD [OF conjunct1 [OF o1] Cons.prems(2)]
  have pre: "i < length es1" "pt < length (ee_parts (es1 ! i))" using f1(3,4) Cons.prems(3) by simp_all
  from Cons.IH [OF run(2) pre] Cons.prems(4) obtain ts where o2: "only_part i pt es1 es'" "new_explained env (Some mf) es1 es'"
      "ee_parts (es' ! i) ! pt = (ee_parts (es1 ! i) ! pt)\<lparr>ep_expandsTo := ep_expandsTo (ee_parts (es1 ! i) ! pt) @ ts\<rparr>"
      "\<forall>t \<in> set ts. t < length es'" "map (\<lambda>t. ee_source (es' ! t)) ts = map (definition_source env mf call) ds" by auto
  note f2 = only_partD [OF o2(1) pre(1)]
  have "only_part i pt es es'" using only_part_trans o1 o2(1) by blast
  moreover have "new_explained env (Some mf) es es'"
    using new_explained_trans [OF _ o2(2) f2(2) Cons.prems(2) f1(1)] o1 by blast
  moreover have "length es < length es'" "ee_source (es' ! length es) = definition_source env mf call d"
    using o1 f2(1) by (auto simp: extends_def)
  ultimately show ?case using o1 o2(3-5) by (intro conjI exI [of _ "length es # ts"]) simp_all
qed

lemma definitions_found:
  assumes "script_at mf (pi_script call) = Some main" "d \<in> set (script_definitions mf call main)"
  shows "script_at mf (sd_name d) = Some (sd_body d)"
  using assms by (auto simp: script_definitions_def hook_definition_def split: option.splits)

lemma part_step:
  assumes rec: "rec_ok env m rec" and run: "expand_part env m rec i ancestors forwarded pt es = Inr es'"
    and i: "i < length es" "pt < length (ee_parts (es ! i))" and raw: "ee_parts (es ! i) ! pt = raw_part q"
  shows "only_part i pt es es' \<and> new_explained env m es es'
    \<and> part_explained env m es' (ee_parts (es' ! i) ! pt) q (if pt = length (ee_parts (es ! i)) - 1 then forwarded else 0)"
proof -
  let ?n = "if pt = length (ee_parts (es ! i)) - 1 then forwarded else 0"
  have argv: "ep_argv (ee_parts (es ! i) ! pt) = pp_argv q" by (simp add: raw raw_part_def)
  show ?thesis
  proof (cases "packageInvocation (pp_argv q) ?n")
    case NotPackage
    then have "es' = es" using run argv by (simp add: expand_part_def Let_def)
    then show ?thesis using NotPackage raw by (simp add: part_explained_def raw_part_def)
  next
    case InvalidInvocation
    then show ?thesis using run argv by (simp add: expand_part_def Let_def)
  next
    case (Invocation call)
    let ?es = "update_part i pt (\<lambda>p. p\<lparr>ep_argv := pi_argv call\<rparr>) es"
    obtain mf main where m: "m = Some mf" "script_at mf (pi_script call) = Some main"
      and run': "rfold (expand_definition env mf call rec (ancestors @ [(pi_manager call, pi_script call)]) i pt)
        (script_definitions mf call main) ?es = Inr es'"
      using run argv Invocation by (auto simp: expand_part_def Let_def split: option.splits if_splits)
    have pre: "i < length ?es" "pt < length (ee_parts (?es ! i))" using i by simp_all
    have found: "\<forall>d \<in> set (script_definitions mf call main). script_at mf (sd_name d) = Some (sd_body d)"
      using definitions_found [OF m(2)] by blast
    from definitions_step [OF rec [unfolded m(1)] run' pre found] obtain ts
      where o: "only_part i pt ?es es'" "new_explained env (Some mf) ?es es'"
        "ee_parts (es' ! i) ! pt = (ee_parts (?es ! i) ! pt)\<lparr>ep_expandsTo := ep_expandsTo (ee_parts (?es ! i) ! pt) @ ts\<rparr>"
        "\<forall>t \<in> set ts. t < length es'"
        "map (\<lambda>t. ee_source (es' ! t)) ts = map (definition_source env mf call) (script_definitions mf call main)" by blast
    have "only_part i pt es es'" using only_part_trans [OF update_part_only [OF i(1)] o(1)] .
    moreover have "new_explained env m es es'" using o(2) m(1) by (simp add: new_explained_def)
    moreover have "part_explained env m es' (ee_parts (es' ! i) ! pt) q ?n"
    proof -
      have "ee_parts (es' ! i) ! pt = \<lparr>ep_operator = pp_operator q, ep_argv = pi_argv call, ep_expandsTo = ts\<rparr>"
        using o(3) i raw by (simp add: raw_part_def)
      then show ?thesis unfolding part_explained_def Invocation using o(4,5) m by simp
    qed
    ultimately show ?thesis by blast
  qed
qed

lemma parts_step:
  assumes rec: "rec_ok env m rec"
  shows "rfold (expand_part env m rec i ancestors forwarded) pts es = Inr es' \<Longrightarrow> i < length es \<Longrightarrow> distinct pts \<Longrightarrow>
    length (ee_parts (es ! i)) = length qs \<Longrightarrow> \<forall>j \<in> set pts. j < length qs \<and> ee_parts (es ! i) ! j = raw_part (qs ! j) \<Longrightarrow>
    only_entry i es es' \<and> new_explained env m es es' \<and> length (ee_parts (es' ! i)) = length qs
    \<and> (\<forall>j < length qs. j \<notin> set pts \<longrightarrow> ee_parts (es' ! i) ! j = ee_parts (es ! i) ! j)
    \<and> (\<forall>j \<in> set pts. part_explained env m es' (ee_parts (es' ! i) ! j) (qs ! j) (if j = length qs - 1 then forwarded else 0))"
proof (induction pts arbitrary: es)
  case Nil
  then show ?case by (simp add: only_entry_def)
next
  case (Cons pt pts)
  obtain es1 where run: "expand_part env m rec i ancestors forwarded pt es = Inr es1"
      "rfold (expand_part env m rec i ancestors forwarded) pts es1 = Inr es'" using Cons.prems(1) by (auto simp: result_simps)
  have pt: "pt < length (ee_parts (es ! i))" "ee_parts (es ! i) ! pt = raw_part (qs ! pt)" using Cons.prems by auto
  note o1 = part_step [OF rec run(1) Cons.prems(2) pt]
  note f1 = only_partD [OF conjunct1 [OF o1] Cons.prems(2)]
  have pre: "\<forall>j \<in> set pts. j < length qs \<and> ee_parts (es1 ! i) ! j = raw_part (qs ! j)"
  proof
    fix j
    assume "j \<in> set pts"
    then have "j \<noteq> pt" "j < length qs" "ee_parts (es ! i) ! j = raw_part (qs ! j)" using Cons.prems(3,5) by auto
    then show "j < length qs \<and> ee_parts (es1 ! i) ! j = raw_part (qs ! j)" using f1(5) [of j] Cons.prems(4) by simp
  qed
  have len: "length (ee_parts (es1 ! i)) = length qs" "distinct pts" using f1(4) Cons.prems(3,4) by simp_all
  note o2 = Cons.IH [OF run(2) f1(3) len(2) len(1) pre]
  have ext: "extends es1 es'" using o2 by (simp add: only_entry_def)
  have "ee_parts (es' ! i) ! pt = ee_parts (es1 ! i) ! pt" using o2 Cons.prems(3,4) pt(1) by simp
  then have "part_explained env m es' (ee_parts (es' ! i) ! pt) (qs ! pt) (if pt = length qs - 1 then forwarded else 0)"
    using o1 part_explained_mono ext Cons.prems(4) by metis
  moreover have "only_entry i es es'" using only_entry_trans f1(2) o2 by blast
  moreover have "new_explained env m es es'"
    using new_explained_trans [OF _ _ _ Cons.prems(2) f1(1)] o1 o2 by blast
  moreover have "\<forall>j < length qs. j \<notin> set (pt # pts) \<longrightarrow> ee_parts (es' ! i) ! j = ee_parts (es ! i) ! j"
    using o2 f1(5) Cons.prems(4) by simp
  ultimately show ?case using o2 by simp
qed

lemma expand_ok: "rec_ok env m (expand env m levels)"
proof (induction levels)
  case 0
  show ?case by (simp add: rec_ok_def)
next
  case (Suc levels)
  show ?case
    unfolding rec_ok_def
  proof (intro allI impI)
    fix i ancestors forwarded es es' qs
    assume a: "i < length es" "ee_parts (es ! i) = map raw_part qs" "expand env m (Suc levels) i ancestors forwarded es = Inr es'"
    have run: "rfold (expand_part env m (expand env m levels) i ancestors forwarded) [0..<length qs] es = Inr es'"
      using a(2,3) by simp
    note o = parts_step [OF Suc run a(1), of qs]
    have "only_entry i es es' \<and> new_explained env m es es' \<and> length (ee_parts (es' ! i)) = length qs
      \<and> (\<forall>j < length qs. part_explained env m es' (ee_parts (es' ! i) ! j) (qs ! j) (if j = length qs - 1 then forwarded else 0))"
      using o a(2) by simp
    then show "only_entry i es es' \<and> new_explained env m es es' \<and> parts_explained env m es' (ee_parts (es' ! i)) qs forwarded"
      by (simp add: parts_explained_def)
  qed
qed

section \<open>A record is a tree\<close>

definition operators_ok :: "exec_part list \<Rightarrow> bool" where
  "operators_ok ps \<longleftrightarrow> (\<forall>j < length ps. j = 0 \<longleftrightarrow> ep_operator (ps ! j) = None)"

definition entry_ok :: "nat \<Rightarrow> nat \<Rightarrow> exec_entry \<Rightarrow> bool" where
  "entry_ok n i e \<longleftrightarrow> ee_id e = i \<and> (i = 0 \<longleftrightarrow> ee_source e = RequestSource) \<and> operators_ok (ee_parts e)
     \<and> (\<forall>t \<in> set (entry_references e). i < t \<and> t < n)"

definition tree_ok :: "exec_entry list \<Rightarrow> bool" where
  "tree_ok es \<longleftrightarrow> (\<forall>i < length es. entry_ok (length es) i (es ! i)) \<and> mset (references es) = mset [1..<length es]"

lemma tree_refinement: "tree_ok es \<Longrightarrow> entries_refinement es"
proof -
  assume t: "tree_ok es"
  have "count_list (references es) i = 1" if "i < length es" "0 < i" for i
  proof -
    have "count_list (references es) i = count (mset (references es)) i" by (simp only: count_mset)
    also have "\<dots> = count (mset [1..<length es]) i" using t by (simp only: tree_ok_def)
    also have "\<dots> = 1" using that distinct_count_atmost_1 [of "[1..<length es]"] by simp
    finally show ?thesis .
  qed
  moreover have "\<forall>i < length es. entry_ok (length es) i (es ! i)" using t unfolding tree_ok_def by blast
  ultimately show ?thesis unfolding entries_refinement_def entry_ok_def operators_ok_def by blast
qed

lemma entry_ok_change:
  assumes "entry_ok n i e" "ee_id e' = ee_id e" "ee_source e' = ee_source e" "operators_ok (ee_parts e')"
    and "\<And>t. t \<in> set (entry_references e') \<Longrightarrow> t \<in> set (entry_references e) \<or> i < t \<and> t < n'" "n \<le> n'"
  shows "entry_ok n' i e'"
  using assms unfolding entry_ok_def by fastforce

lemma concat_map_update:
  assumes "i < length xs" "mset (f y) = mset (f (xs ! i)) + mset zs"
  shows "mset (concat (map f (xs[i := y]))) = mset (concat (map f xs)) + mset zs"
proof -
  have xs: "xs = take i xs @ xs ! i # drop (Suc i) xs" by (rule id_take_nth_drop [OF assms(1)])
  have "mset (concat (map f (take i xs @ xs ! i # drop (Suc i) xs))) + mset zs
    = mset (concat (map f (take i xs))) + mset (f y) + mset (concat (map f (drop (Suc i) xs)))"
    using assms(2) by simp
  then show ?thesis using xs by (simp add: upd_conv_take_nth_drop [OF assms(1)])
qed

lemma update_references:
  assumes "i < length es" "pt < length (ee_parts (es ! i))"
    and "ep_expandsTo (f (ee_parts (es ! i) ! pt)) = ep_expandsTo (ee_parts (es ! i) ! pt) @ ts"
  shows "mset (entry_references (update_part i pt f es ! i)) = mset (entry_references (es ! i)) + mset ts"
    "mset (references (update_part i pt f es)) = mset (references es) + mset ts"
proof -
  show "mset (entry_references (update_part i pt f es ! i)) = mset (entry_references (es ! i)) + mset ts"
    using assms concat_map_update [of pt "ee_parts (es ! i)" ep_expandsTo "f (ee_parts (es ! i) ! pt)" ts]
    by (simp add: entry_references_def)
  then have "mset (concat (map entry_references (es[i := update_part i pt f es ! i]))) = mset (concat (map entry_references es)) + mset ts"
    by (rule concat_map_update [OF assms(1)])
  moreover have "es[i := update_part i pt f es ! i] = update_part i pt f es" using assms(1) by (simp add: update_part_def)
  ultimately show "mset (references (update_part i pt f es)) = mset (references es) + mset ts"
    by (simp only: references_def)
qed

lemma update_operators:
  assumes "pt < length ps" "ep_operator (f (ps ! pt)) = ep_operator (ps ! pt)" "operators_ok ps"
  shows "operators_ok (ps[pt := f (ps ! pt)])"
proof -
  have "ep_operator (ps[pt := f (ps ! pt)] ! j) = ep_operator (ps ! j)" if "j < length ps" for j
    using assms(1,2) that by (cases "j = pt") simp_all
  then show ?thesis using assms(3) unfolding operators_ok_def by (metis length_list_update)
qed

lemma tree_entry: "tree_ok es \<Longrightarrow> i < length es \<Longrightarrow> entry_ok (length es) i (es ! i)"
  by (simp add: tree_ok_def)

lemma tree_argv:
  assumes t: "tree_ok es" and i: "i < length es" "pt < length (ee_parts (es ! i))"
  shows "tree_ok (update_part i pt (\<lambda>p. p\<lparr>ep_argv := a\<rparr>) es)" (is "tree_ok ?es")
proof -
  have refs: "mset (entry_references (?es ! i)) = mset (entry_references (es ! i))" "mset (references ?es) = mset (references es)"
    using update_references [OF i, of "\<lambda>p. p\<lparr>ep_argv := a\<rparr>" "[]"] by simp_all
  have same: "set (entry_references (?es ! i)) = set (entry_references (es ! i))" by (rule mset_eq_setD [OF refs(1)])
  have ops: "operators_ok (ee_parts (?es ! i))"
    using update_operators [OF i(2), of "\<lambda>p. p\<lparr>ep_argv := a\<rparr>"] tree_entry [OF t i(1)] i(1) by (simp add: entry_ok_def)
  have "entry_ok (length ?es) j (?es ! j)" if "j < length es" for j
  proof (cases "j = i")
    case True
    then show ?thesis
      using ops same i(1) by (intro entry_ok_change [OF tree_entry [OF t that]]) simp_all
  next
    case False
    then show ?thesis using tree_entry [OF t that] by simp
  qed
  then show ?thesis using t refs(2) by (simp add: tree_ok_def)
qed

lemma tree_grow:
  assumes t: "tree_ok es" and i: "i < length es" "pt < length (ee_parts (es ! i))"
    and n: "ee_id e = length es" "ee_source e \<noteq> RequestSource" "operators_ok (ee_parts e)" "entry_references e = []"
  shows "tree_ok (update_part i pt (\<lambda>p. p\<lparr>ep_expandsTo := ep_expandsTo p @ [length es]\<rparr>) (es @ [e]))" (is "tree_ok ?es")
proof -
  let ?f = "\<lambda>p. p\<lparr>ep_expandsTo := ep_expandsTo p @ [length es]\<rparr>"
  have i': "i < length (es @ [e])" "pt < length (ee_parts ((es @ [e]) ! i))" "(es @ [e]) ! i = es ! i"
    using i by (simp_all add: nth_append)
  have refs: "mset (entry_references (?es ! i)) = mset (entry_references (es ! i)) + {#length es#}"
      "mset (references ?es) = mset (references es) + {#length es#}"
    using update_references [OF i'(1,2), of ?f "[length es]"] i'(3) n(4) by (simp_all add: references_def)
  have same: "set (entry_references (?es ! i)) = insert (length es) (set (entry_references (es ! i)))"
    using arg_cong [OF refs(1), of set_mset] by simp
  have ops: "operators_ok (ee_parts (?es ! i))"
    using update_operators [OF i(2), of ?f] tree_entry [OF t i(1)] i' by (simp add: entry_ok_def)
  have "entry_ok (length ?es) j (?es ! j)" if j: "j < length ?es" for j
  proof -
    consider "j = i" | "j < length es" "j \<noteq> i" | "j = length es" using j by force
    then show ?thesis
    proof cases
      case 1
      show ?thesis unfolding 1
        using ops same i' i(1) by (intro entry_ok_change [OF tree_entry [OF t i(1)]]) auto
    next
      case 2
      then have "?es ! j = es ! j" by (simp add: nth_append)
      then show ?thesis using tree_entry [OF t 2(1)] by (intro entry_ok_change [OF tree_entry [OF t 2(1)]]) (simp_all add: entry_ok_def)
    next
      case 3
      then have "?es ! j = e" using i by simp
      moreover have "length es \<noteq> 0" using i(1) by auto
      ultimately show ?thesis using n 3 by (simp add: entry_ok_def)
    qed
  qed
  moreover have "mset (references ?es) = mset [1..<length ?es]"
    using refs(2) t i(1) by (simp add: tree_ok_def)
  ultimately show ?thesis by (simp add: tree_ok_def)
qed

definition rec_tree :: "expander \<Rightarrow> bool" where
  "rec_tree rec \<longleftrightarrow> (\<forall>i ancestors forwarded es es' qs.
     tree_ok es \<longrightarrow> i < length es \<longrightarrow> ee_parts (es ! i) = map raw_part qs \<longrightarrow> rec i ancestors forwarded es = Inr es' \<longrightarrow> tree_ok es')"

lemma meaning_operators: "j < length (meaning ls) \<Longrightarrow> j = 0 \<longleftrightarrow> pp_operator (meaning ls ! j) = None"
  by (cases "segments ls"; cases j) (auto simp: meaning_def split: prod.splits)

lemma parse_operators: "parseCommand c = Some qs \<Longrightarrow> qs \<noteq> [] \<and> (\<forall>j < length qs. j = 0 \<longleftrightarrow> pp_operator (qs ! j) = None)"
proof -
  assume "parseCommand c = Some qs"
  then have "\<exists>e. scan c scan_start = Some e \<and> close_scan e = Some qs"
    by (auto simp: parseCommand_def split: option.splits if_splits)
  then obtain ls where "meaning ls = qs" unfolding scan_derives derives_def by blast
  then show ?thesis using meaning_operators [of _ ls] by (auto simp: meaning_def split: prod.splits)
qed

lemma append_last_operators:
  "qs \<noteq> [] \<Longrightarrow> length (append_last args qs) = length qs \<and> map pp_operator (append_last args qs) = map pp_operator qs"
  by (cases qs rule: rev_cases) (simp_all add: append_last_def)

lemma raw_operators:
  assumes "parseCommand c = Some qs"
  shows "operators_ok (map raw_part (append_last args qs))"
proof -
  note q = parse_operators [OF assms]
  have "pp_operator (append_last args qs ! j) = pp_operator (qs ! j)" if "j < length qs" for j
    using append_last_operators [of qs args] q that by (metis nth_map)
  then show ?thesis using q append_last_operators [of qs args] by (simp add: operators_ok_def raw_part_def)
qed

lemma definition_tree:
  assumes rec: "rec_tree rec" and run: "expand_definition env mf call rec ancestors i pt d es = Inr es'"
    and t: "tree_ok es" and i: "i < length es" "pt < length (ee_parts (es ! i))"
  shows "tree_ok es'"
proof -
  obtain parsed where parsed: "parse_script (sd_body d) = Inr parsed"
    and run': "rec (length es) ancestors (length (sd_arguments d))
      (update_part i pt (\<lambda>p. p\<lparr>ep_expandsTo := ep_expandsTo p @ [length es]\<rparr>) (es @ [\<lparr>ee_id = length es,
         ee_source = definition_source env mf call d, ee_parts = map raw_part (append_last (sd_arguments d) parsed)\<rparr>])) = Inr es'"
    using run by (auto simp: expand_definition_def Let_def result_simps split: prod.splits if_splits)
  then obtain body where body: "parseCommand body = Some parsed"
    by (cases "sd_body d") (auto split: option.splits)
  have "tree_ok (update_part i pt (\<lambda>p. p\<lparr>ep_expandsTo := ep_expandsTo p @ [length es]\<rparr>) (es @ [\<lparr>ee_id = length es,
         ee_source = definition_source env mf call d, ee_parts = map raw_part (append_last (sd_arguments d) parsed)\<rparr>]))"
    using t i raw_operators [OF body]
    by (intro tree_grow) (simp_all add: definition_source_def entry_references_def raw_part_def)
  then show ?thesis by (rule rec [unfolded rec_tree_def, rule_format, OF _ _ _ run']) (use i in simp_all)
qed

lemma definitions_tree:
  assumes rec: "rec_ok env (Some mf) rec" "rec_tree rec"
  shows "rfold (expand_definition env mf call rec ancestors i pt) ds es = Inr es' \<Longrightarrow> tree_ok es \<Longrightarrow>
    i < length es \<Longrightarrow> pt < length (ee_parts (es ! i)) \<Longrightarrow> \<forall>d \<in> set ds. script_at mf (sd_name d) = Some (sd_body d) \<Longrightarrow> tree_ok es'"
proof (induction ds arbitrary: es)
  case (Cons d ds)
  then obtain es1 where run: "expand_definition env mf call rec ancestors i pt d es = Inr es1"
      "rfold (expand_definition env mf call rec ancestors i pt) ds es1 = Inr es'" by (auto simp: result_simps)
  have d: "script_at mf (sd_name d) = Some (sd_body d)" using Cons.prems(5) by simp
  note f = only_partD [OF conjunct1 [OF definition_step [OF rec(1) run(1) Cons.prems(3,4) d]] Cons.prems(3)]
  have "tree_ok es1" by (rule definition_tree [OF rec(2) run(1) Cons.prems(2-4)])
  then show ?case using Cons.IH [OF run(2)] f(3,4) Cons.prems(4,5) by simp
qed simp

lemma part_tree:
  assumes rec: "rec_ok env m rec" "rec_tree rec" and run: "expand_part env m rec i ancestors forwarded pt es = Inr es'"
    and t: "tree_ok es" and i: "i < length es" "pt < length (ee_parts (es ! i))"
  shows "tree_ok es'"
proof (cases "packageInvocation (ep_argv (ee_parts (es ! i) ! pt)) (if pt = length (ee_parts (es ! i)) - 1 then forwarded else 0)")
  case (Invocation call)
  obtain mf main where m: "m = Some mf" "script_at mf (pi_script call) = Some main"
    and run': "rfold (expand_definition env mf call rec (ancestors @ [(pi_manager call, pi_script call)]) i pt)
      (script_definitions mf call main) (update_part i pt (\<lambda>p. p\<lparr>ep_argv := pi_argv call\<rparr>) es) = Inr es'"
    using run Invocation by (auto simp: expand_part_def Let_def split: option.splits if_splits)
  have found: "\<forall>d \<in> set (script_definitions mf call main). script_at mf (sd_name d) = Some (sd_body d)"
    using definitions_found [OF m(2)] by blast
  show ?thesis
    by (rule definitions_tree [OF rec(1) [unfolded m(1)] rec(2) run' tree_argv [OF t i] _ _ found]) (use i in simp_all)
qed (use run t in \<open>simp_all add: expand_part_def Let_def\<close>)

lemma parts_tree:
  assumes rec: "rec_ok env m rec" "rec_tree rec"
  shows "rfold (expand_part env m rec i ancestors forwarded) pts es = Inr es' \<Longrightarrow> tree_ok es \<Longrightarrow> i < length es \<Longrightarrow> distinct pts \<Longrightarrow>
    \<forall>j \<in> set pts. j < length (ee_parts (es ! i)) \<and> (\<exists>q. ee_parts (es ! i) ! j = raw_part q) \<Longrightarrow> tree_ok es'"
proof (induction pts arbitrary: es)
  case (Cons pt pts)
  obtain es1 where run: "expand_part env m rec i ancestors forwarded pt es = Inr es1"
      "rfold (expand_part env m rec i ancestors forwarded) pts es1 = Inr es'" using Cons.prems(1) by (auto simp: result_simps)
  obtain q where pt: "pt < length (ee_parts (es ! i))" "ee_parts (es ! i) ! pt = raw_part q" using Cons.prems(5) by auto
  note f = only_partD [OF conjunct1 [OF part_step [OF rec(1) run(1) Cons.prems(3) pt]] Cons.prems(3)]
  have "tree_ok es1" by (rule part_tree [OF rec run(1) Cons.prems(2,3) pt(1)])
  moreover have "\<forall>j \<in> set pts. j < length (ee_parts (es1 ! i)) \<and> (\<exists>q. ee_parts (es1 ! i) ! j = raw_part q)"
  proof
    fix j
    assume "j \<in> set pts"
    then have "j \<noteq> pt" "j < length (ee_parts (es ! i)) \<and> (\<exists>q. ee_parts (es ! i) ! j = raw_part q)" using Cons.prems(4,5) by auto
    then show "j < length (ee_parts (es1 ! i)) \<and> (\<exists>q. ee_parts (es1 ! i) ! j = raw_part q)" using f(4,5) by simp
  qed
  ultimately show ?case using Cons.IH [OF run(2)] f(3) Cons.prems(4) by simp
qed simp

lemma expand_tree: "rec_tree (expand env m levels)"
proof (induction levels)
  case 0
  show ?case by (simp add: rec_tree_def)
next
  case (Suc levels)
  show ?case
    unfolding rec_tree_def
  proof (intro allI impI)
    fix i ancestors forwarded es es' qs
    assume a: "tree_ok es" "i < length es" "ee_parts (es ! i) = map raw_part qs" "expand env m (Suc levels) i ancestors forwarded es = Inr es'"
    then have run: "rfold (expand_part env m (expand env m levels) i ancestors forwarded) [0..<length qs] es = Inr es'" by simp
    show "tree_ok es'" by (rule parts_tree [OF expand_ok Suc run a(1,2)]) (use a(3) in auto)
  qed
qed

section \<open>A digest names one record\<close>

lemma operator_json_inj: "operator_json a = operator_json b \<Longrightarrow> a = b"
proof -
  have "operator_text x = operator_text y \<Longrightarrow> x = y" for x y by (cases x; cases y) simp_all
  then show "operator_json a = operator_json b \<Longrightarrow> a = b" by (cases a; cases b) simp_all
qed

lemma sorted_scalars [simp]: "sorted_fields (operator_json p) = operator_json p" "sorted_fields (texts_json xs) = texts_json xs"
  by (cases p) (simp_all add: texts_json_def)

lemma texts_json_inj: "texts_json xs = texts_json ys \<Longrightarrow> xs = ys"
  by (simp add: texts_json_def inj_map_eq_map inj_def)

lemma part_json_inj: "sorted_fields (part_json p) = sorted_fields (part_json q) \<Longrightarrow> p = q"
proof -
  assume eq: "sorted_fields (part_json p) = sorted_fields (part_json q)"
  note field = sorted_field [OF eq [unfolded part_json_def]]
  have "operator_json (ep_operator p) = operator_json (ep_operator q)" using field [of "js ''operator''"] by simp
  moreover have "texts_json (ep_argv p) = texts_json (ep_argv q)" using field [of "js ''argv''"] by simp
  moreover have "ep_expandsTo p = ep_expandsTo q"
    using field [of "js ''expandsTo''"] sorted_array [of "JNum \<circ> int"] by simp
  ultimately show ?thesis by (simp add: operator_json_inj texts_json_inj)
qed

lemma source_json_inj: "sorted_fields (source_json a) = sorted_fields (source_json b) \<Longrightarrow> a = b"
proof -
  assume eq: "sorted_fields (source_json a) = sorted_fields (source_json b)"
  show ?thesis
  proof (cases a)
    case a: RequestSource
    show ?thesis
    proof (cases b)
      case b: (ScriptSource m2 p2 n2 h2 a2 d2)
      show ?thesis using sorted_keys [OF eq [unfolded a b source_json.simps]] by auto
    qed (use a in simp)
  next
    case a: (ScriptSource m1 p1 n1 h1 a1 d1)
    show ?thesis
    proof (cases b)
      case b: RequestSource
      show ?thesis using sorted_keys [OF eq [unfolded a b source_json.simps]] by auto
    next
      case b: (ScriptSource m2 p2 n2 h2 a2 d2)
      note field = sorted_field [OF eq [unfolded a b source_json.simps]]
      have "manager_text m1 = manager_text m2" using field [of "js ''manager''"] by simp
      then have "m1 = m2" by (cases m1; cases m2) simp_all
      moreover have "phase_text h1 = phase_text h2" using field [of "js ''phase''"] by simp
      then have "h1 = h2" by (cases h1; cases h2) simp_all
      moreover have "p1 = p2" using field [of "js ''manifest''"] by simp
      moreover have "n1 = n2" using field [of "js ''name''"] by simp
      moreover have "texts_json a1 = texts_json a2" using field [of "js ''arguments''"] by simp
      moreover have "d1 = d2" using field [of "js ''sourceDigest''"] by simp
      ultimately show ?thesis using a b by (simp add: texts_json_inj)
    qed
  qed
qed

lemma entry_json_inj: "sorted_fields (entry_json d) = sorted_fields (entry_json e) \<Longrightarrow> d = e"
proof -
  assume eq: "sorted_fields (entry_json d) = sorted_fields (entry_json e)"
  note field = sorted_field [OF eq [unfolded entry_json_def]]
  have "ee_id d = ee_id e" using field [of "js ''id''"] by simp
  moreover have "ee_source d = ee_source e"
    by (rule source_json_inj, rule field [of "js ''source''"]) simp_all
  moreover have "ee_parts d = ee_parts e"
    by (rule sorted_array [OF part_json_inj], assumption, rule field [of "js ''parts''"]) simp_all
  ultimately show ?thesis by simp
qed

lemma tool_text_inj: "tool_text s = tool_text t \<Longrightarrow> s = t"
  by (cases s; cases t) simp_all

fun coverage_text :: "exec_record \<Rightarrow> js_string" where
  "coverage_text (ShellRecord _ _) = js ''command-and-script-text''"
| "coverage_text (WorkspaceToolRecord _ _) = js ''tool-and-workspace-scope''"
| "coverage_text (FileToolRecord _ _ _) = js ''tool-and-file''"

lemma record_object: "\<exists>fs. record_json r = JObj fs \<and> distinct (map fst fs) \<and> (js ''coverage'', JStr (coverage_text r)) \<in> set fs"
  by (cases r) simp_all

lemma coverage_same: "sorted_fields (record_json r) = sorted_fields (record_json q) \<Longrightarrow> coverage_text r = coverage_text q"
proof -
  assume eq: "sorted_fields (record_json r) = sorted_fields (record_json q)"
  obtain fs where fs: "record_json r = JObj fs" "(js ''coverage'', JStr (coverage_text r)) \<in> set fs" using record_object by blast
  obtain gs where gs: "record_json q = JObj gs" "distinct (map fst gs)" "(js ''coverage'', JStr (coverage_text q)) \<in> set gs"
    using record_object by blast
  show ?thesis using sorted_field [OF eq [unfolded fs(1) gs(1)] gs(2) fs(2) gs(3)] by simp
qed

lemma record_json_inj: "sorted_fields (record_json r) = sorted_fields (record_json q) \<Longrightarrow> r = q"
proof -
  assume eq: "sorted_fields (record_json r) = sorted_fields (record_json q)"
  show ?thesis
  proof (cases r)
    case r: (ShellRecord c1 es1)
    then obtain c2 es2 where q: "q = ShellRecord c2 es2" using coverage_same [OF eq] by (cases q) simp_all
    note field = sorted_field [OF eq [unfolded r q record_json.simps]]
    have "JStr c1 = JStr c2" using field [of "js ''cwd''" "JStr c1" "JStr c2"] by simp
    moreover have "es1 = es2"
      by (rule sorted_array [OF entry_json_inj], assumption, rule field [of "js ''entries''"]) simp_all
    ultimately show ?thesis using r q by simp
  next
    case r: (WorkspaceToolRecord c1 t1)
    then obtain c2 t2 where q: "q = WorkspaceToolRecord c2 t2" using coverage_same [OF eq] by (cases q) simp_all
    note field = sorted_field [OF eq [unfolded r q record_json.simps]]
    have "c1 = c2" "tool_text t1 = tool_text t2"
      using field [of "js ''cwd''" "JStr c1" "JStr c2"] field [of "js ''tool''" "JStr (tool_text t1)" "JStr (tool_text t2)"] by simp_all
    then show ?thesis using r q tool_text_inj by simp
  next
    case r: (FileToolRecord c1 t1 p1)
    then obtain c2 t2 p2 where q: "q = FileToolRecord c2 t2 p2" using coverage_same [OF eq] by (cases q) simp_all
    note field = sorted_field [OF eq [unfolded r q record_json.simps]]
    have "c1 = c2" "tool_text t1 = tool_text t2" "p1 = p2"
      using field [of "js ''cwd''" "JStr c1" "JStr c2"] field [of "js ''tool''" "JStr (tool_text t1)" "JStr (tool_text t2)"]
        field [of "js ''path''" "JStr p1" "JStr p2"] by simp_all
    then show ?thesis using r q tool_text_inj by simp
  qed
qed

lemma resolveShell_explained:
  assumes "resolveShell env command cwd m = Some (Resolved r d)"
  shows "\<exists>es qs. r = ShellRecord cwd es \<and> parseCommand command = Some qs \<and> fst (redactDurableCommand env command) = False
    \<and> es \<noteq> [] \<and> parts_explained env m es (ee_parts (es ! 0)) qs 0
    \<and> (\<forall>j. 0 < j \<longrightarrow> j < length es \<longrightarrow> script_explained env m es (es ! j))
    \<and> entries_refinement es"
proof -
  obtain qs es where q: "parseCommand command = Some qs" "\<not> fst (redactDurableCommand env command)"
    and run: "expand env m (maximumResolutionDepth + 1) 0 [] 0
      [\<lparr>ee_id = 0, ee_source = RequestSource, ee_parts = map raw_part qs\<rparr>] = Inr es" (is "expand _ _ _ _ _ _ ?start = _")
    and r: "r = ShellRecord cwd es"
    using assms by (auto simp: resolveShell_def fingerprint_def split: if_splits option.splits sum.splits stop.splits)
  have raw: "0 < length ?start" "ee_parts (?start ! 0) = map raw_part qs" by simp_all
  note ok = expand_ok [of env m "maximumResolutionDepth + 1", unfolded rec_ok_def, rule_format, OF raw run]
  have "operators_ok (map raw_part qs)" using raw_operators [OF q(1), of "[]"] by (simp add: append_last_def)
  then have "tree_ok ?start"
    by (simp add: tree_ok_def entry_ok_def references_def entry_references_def raw_part_def)
  then have "entries_refinement es"
    using expand_tree [of env m "maximumResolutionDepth + 1", unfolded rec_tree_def, rule_format, OF _ raw run] tree_refinement by blast
  moreover have "es \<noteq> []" using ok by (auto simp: only_entry_def extends_def)
  ultimately show ?thesis
    using q r ok by (intro exI [of _ es] exI [of _ qs]) (auto simp: new_explained_def Suc_le_eq)
qed

section \<open>Properties\<close>

text \<open>
  C10. What an approval is asked for is what will run: in a resolved command the first entry holds
  the commands of the request as its text has them; every other entry is a script of the manifest
  as it stands, its body unredacted and read in full, with the digest of that body and the
  arguments passed on to it; every part that runs a script refers to exactly the entries of that
  script (before, main, after, in this order), and the entries form a tree rooted at the request.
\<close>

theorem resolved_record_is_what_runs:
  assumes "resolveShell env command cwd m = Some (Resolved r d)"
  shows "\<exists>es qs. r = ShellRecord cwd es \<and> parseCommand command = Some qs \<and> fst (redactDurableCommand env command) = False
    \<and> es \<noteq> [] \<and> parts_explained env m es (ee_parts (es ! 0)) qs 0
    \<and> (\<forall>j. 0 < j \<longrightarrow> j < length es \<longrightarrow> script_explained env m es (es ! j))
    \<and> entries_refinement es"
  by (rule resolveShell_explained [OF assms])

text \<open>
  C14. A digest stands for one execution: two records with the same digest are the same record,
  provided that SHA-256 does not collide on their two texts. So a standing rule, which holds a
  digest, never matches a different command, script body, directory or file.
\<close>

theorem digest_names_one_record:
  assumes "fingerprint env r = Some (Resolved r d)" "fingerprint env q = Some (Resolved q d)"
    and "sha_hex env (digestPrefix @ canonicalJson (record_json r)) = sha_hex env (digestPrefix @ canonicalJson (record_json q)) \<Longrightarrow>
      digestPrefix @ canonicalJson (record_json r) = digestPrefix @ canonicalJson (record_json q)"
  shows "r = q"
proof -
  have "sha_hex env (digestPrefix @ canonicalJson (record_json r)) = sha_hex env (digestPrefix @ canonicalJson (record_json q))"
    using assms(1,2) by (auto simp: fingerprint_def record_digest_def split: if_splits)
  from assms(3) [OF this] have "canonicalJson (record_json r) = canonicalJson (record_json q)" by simp
  then show ?thesis using canonical_inj record_json_inj by blast
qed

section \<open>Witnesses\<close>

definition sample_exec_env :: exec_env where
  "sample_exec_env = \<lparr>redactDurableCommand = (\<lambda>_. (False, False)), sha_hex = (\<lambda>_. replicate 64 97)\<rparr>"

definition sample_manifest :: package_manifest where
  "sample_manifest = \<lparr>mn_path = js ''package.json'', mn_scripts = [(js ''test'', js ''tsc'')]\<rparr>"

definition sample_entries :: "exec_entry list" where
  "sample_entries =
     [\<lparr>ee_id = 0, ee_source = RequestSource,
        ee_parts = [\<lparr>ep_operator = None, ep_argv = [js ''npm'', js ''run'', js ''test''], ep_expandsTo = [1]\<rparr>]\<rparr>,
      \<lparr>ee_id = 1, ee_source = ScriptSource Npm (js ''package.json'') (js ''test'') MainPhase [] (js ''sha256:'' @ replicate 64 97),
        ee_parts = [\<lparr>ep_operator = None, ep_argv = [js ''tsc''], ep_expandsTo = []\<rparr>]\<rparr>]"

lemmas scan_simps = scan_char_def scan_unquoted_def pushToken_def pushPart_def add_char_def close_scan_def scan_start_def
  unsupportedUnquoted_def js_whitespace_def Let_def

lemma sample_parse:
  "parseCommand (js ''npm test'') = Some [\<lparr>pp_operator = None, pp_argv = [js ''npm'', js ''test'']\<rparr>]"
  "parseCommand (js ''tsc'') = Some [\<lparr>pp_operator = None, pp_argv = [js ''tsc'']\<rparr>]"
  by (simp_all add: parseCommand_def line_refused_def js_def scan_simps changes_shell_def statefulShellCommands_def
      ascii_lower_def name_start_def name_char_def)

lemma sample_invocation:
  "packageInvocation [js ''npm'', js ''test''] 0 = Invocation \<lparr>pi_manager = Npm, pi_script = js ''test'', pi_arguments = [],
     pi_argv = [js ''npm'', js ''run'', js ''test'']\<rparr>"
  "packageInvocation [js ''tsc''] 0 = NotPackage"
  by (simp_all add: packageInvocation_def packageManagers_def script_of_def npmScriptShortcuts_def scriptName_def)
     (simp_all add: js_def script_letter_def script_inner_def)

lemma js_append: "js s @ js t = js (s @ t)"
  by (simp add: js_def)

lemma js_lengths: "length (js s) = length s" "js s = [] \<longleftrightarrow> s = []"
  by (simp_all add: js_def)

lemma sample_scripts:
  "script_at sample_manifest (js ''test'') = Some (ScriptText (js ''tsc''))"
  "script_at sample_manifest (js ''pre'' @ js ''test'') = None" "script_at sample_manifest (js ''post'' @ js ''test'') = None"
  by (simp_all add: script_at_def sample_manifest_def objectPrototype_def js_append)

lemma sample_expand:
  "expand sample_exec_env (Some sample_manifest) (maximumResolutionDepth + 1) 0 [] 0
     [\<lparr>ee_id = 0, ee_source = RequestSource, ee_parts = map raw_part [\<lparr>pp_operator = None, pp_argv = [js ''npm'', js ''test'']\<rparr>]\<rparr>]
   = Inr sample_entries"
proof -
  obtain n where depth: "maximumResolutionDepth + 1 = Suc (Suc n)" by (simp add: maximumResolutionDepth_def)
  have env: "redactDurableCommand sample_exec_env t = (False, False)" "sha_hex sample_exec_env t = replicate 64 97"
    "mn_path sample_manifest = js ''package.json''" for t
    by (simp_all add: sample_exec_env_def sample_manifest_def)
  show ?thesis
    unfolding depth
    by (simp add: env expand_part_def raw_part_def sample_invocation Let_def sample_scripts script_definitions_def
        hook_definition_def expand_definition_def maximumExecutionEntries_def sample_parse append_last_def update_part_def
        definition_source_def sourceDigest_def sample_entries_def)
qed

lemma sample_schema: "executionRecordSchema (ShellRecord [46] sample_entries)"
proof -
  have "executionDigestSchema (js ''sha256:'' @ replicate 64 97)"
    by (simp add: executionDigestSchema_def js_def list_all_iff)
  moreover have "projectRelativePathSchema (js ''package.json'')"
    by (simp add: projectRelativePathSchema_def js_def ascii_letter_def)
  moreover have "projectRelativePathSchema [46]" by (simp add: projectRelativePathSchema_def)
  moreover have "scriptName (js ''test'')" by (simp add: scriptName_def js_def script_letter_def script_inner_def)
  moreover have "entries_refinement sample_entries"
    by (simp add: entries_refinement_def sample_entries_def entry_references_def references_def All_less_Suc less_Suc_eq)
  ultimately show ?thesis
    by (simp add: sample_entries_def executionEntrySchema_def executionPartSchema_def executionArgvSchema_def executionArgumentSchema_def
        maximumExecutionTextLength_def maximumExecutionArguments_def maximumExecutionParts_def maximumExecutionEntries_def
        js_lengths)
qed

theorem resolved_record_is_what_runs_witness:
  "\<exists>es qs. ShellRecord [46] sample_entries = ShellRecord [46] es \<and> parseCommand (js ''npm test'') = Some qs
    \<and> fst (redactDurableCommand sample_exec_env (js ''npm test'')) = False
    \<and> es \<noteq> [] \<and> parts_explained sample_exec_env (Some sample_manifest) es (ee_parts (es ! 0)) qs 0
    \<and> (\<forall>j. 0 < j \<longrightarrow> j < length es \<longrightarrow> script_explained sample_exec_env (Some sample_manifest) es (es ! j))
    \<and> entries_refinement es"
proof (rule resolved_record_is_what_runs)
  have "executionDigestSchema (record_digest sample_exec_env (ShellRecord [46] sample_entries))"
    by (simp add: record_digest_def sample_exec_env_def executionDigestSchema_def js_def list_all_iff)
  then show "resolveShell sample_exec_env (js ''npm test'') [46] (Some sample_manifest)
      = Some (Resolved (ShellRecord [46] sample_entries) (record_digest sample_exec_env (ShellRecord [46] sample_entries)))"
    using sample_expand sample_schema
    by (simp add: resolveShell_def sample_parse fingerprint_def del: expand.simps executionRecordSchema.simps)
      (simp add: sample_exec_env_def)
qed

theorem digest_names_one_record_witness: "FileToolRecord [46] Edit [97] = FileToolRecord [46] Edit [97]"
proof (rule digest_names_one_record)
  have "executionRecordSchema (FileToolRecord [46] Edit [97])" by (simp add: projectRelativePathSchema_def ascii_letter_def)
  moreover have "executionDigestSchema (record_digest sample_exec_env (FileToolRecord [46] Edit [97]))"
    by (simp add: record_digest_def sample_exec_env_def executionDigestSchema_def js_def list_all_iff)
  ultimately show "fingerprint sample_exec_env (FileToolRecord [46] Edit [97])
      = Some (Resolved (FileToolRecord [46] Edit [97]) (record_digest sample_exec_env (FileToolRecord [46] Edit [97])))"
    by (simp add: fingerprint_def)
  then show "fingerprint sample_exec_env (FileToolRecord [46] Edit [97])
      = Some (Resolved (FileToolRecord [46] Edit [97]) (record_digest sample_exec_env (FileToolRecord [46] Edit [97])))" .
qed (rule refl)

end
