(* ===== verification/Followed_Path.thy ===== *)
theory Followed_Path
  imports Posix_Path
begin

text \<open>
  Where a path really leads (apps/daemon/src/followed-path.ts, POSIX): the walk that follows links
  one component at a time, the spelling of the place it reaches, and the identity of a file target
  that an approval holds on to.

  The file system is a parameter: what \<open>lstat\<close>, \<open>readlink\<close> and \<open>realpath\<close> answer. It stands still
  while a path is followed, so \<open>readlink\<close> answers for what \<open>lstat\<close> has just shown to be a link. A lookup
  that runs past its deadline rejects the whole walk and is not modelled.
\<close>

section \<open>The file system\<close>

datatype node_kind = Regular | Directory | Fifo | Socket | Device | Symlink | Missing | Unreadable

record node_identity =
  ni_kind :: node_kind
  ni_dev :: js_string
  ni_ino :: js_string
  ni_nlink :: "nat option"

datatype lstat_answer = Found node_identity | NotFound | LookupFails

datatype realpath_answer = RealPath js_string | NoRealPath | RealPathFails

record disk =
  dk_lstat :: "js_string \<Rightarrow> lstat_answer"
  dk_readlink :: "js_string \<Rightarrow> js_string"
  dk_realpath :: "js_string \<Rightarrow> realpath_answer"

text \<open>
  What the walk takes for a link. A lookup that fails shows nothing: the walk then goes on as if
  there were none and marks the whole walk unreadable, and its place is only a guess.
\<close>

definition is_link :: "disk \<Rightarrow> js_string \<Rightarrow> bool" where
  "is_link D p \<longleftrightarrow> (case dk_lstat D p of Found node \<Rightarrow> ni_kind node = Symlink | _ \<Rightarrow> False)"

section \<open>The walk\<close>

definition requestedPath :: "js_string \<Rightarrow> js_string \<Rightarrow> js_string option \<Rightarrow> js_string" where
  "requestedPath workspace p cwd =
     (if isAbsolute p then p
      else (case cwd of None \<Rightarrow> workspace | Some d \<Rightarrow> if isAbsolute d then d else workspace @ 47 # d) @ 47 # p)"

definition maximumLinksFollowed :: nat where "maximumLinksFollowed = 40"

text \<open>\<open>below\<close> of credential-stores.ts, and a directory with the parts after it as written.\<close>

definition withTrailingSeparator :: "js_string \<Rightarrow> js_string" where
  "withTrailingSeparator d = (if d \<noteq> [] \<and> last d = 47 then d else d @ [47])"

definition below :: "js_string \<Rightarrow> js_string list \<Rightarrow> js_string" where
  "below d parts = withTrailingSeparator d @ join_slash parts"

definition written_path :: "js_string \<Rightarrow> js_string list \<Rightarrow> js_string" where
  "written_path d parts = (if parts = [] then d else below d parts)"

record walk_log =
  wl_aliases :: "js_string list"
  wl_links :: "(js_string \<times> js_string) list"
  wl_hops :: "js_string list"
  wl_unreadable :: bool

definition log_link :: "js_string \<Rightarrow> js_string \<Rightarrow> js_string \<Rightarrow> js_string \<Rightarrow> js_string list \<Rightarrow> js_string list \<Rightarrow> walk_log \<Rightarrow> walk_log" where
  "log_link current next target current' targetParts pending log =
     log\<lparr>wl_hops := wl_hops log @ [next, target, if isAbsolute target then target else path_join current target],
         wl_links := wl_links log @ [(next, written_path current' targetParts)],
         wl_aliases := wl_aliases log @ [written_path current' pending]\<rparr>"

definition link_start :: "js_string \<Rightarrow> js_string \<Rightarrow> js_string" where
  "link_start current target = (if path_root target \<noteq> [] then path_root target else current)"

function walk_loop :: "disk \<Rightarrow> nat \<Rightarrow> js_string \<Rightarrow> js_string list \<Rightarrow> walk_log \<Rightarrow> (js_string \<times> walk_log) option" where
  "walk_loop D links current [] log = Some (current, log)"
| "walk_loop D links current (part # pending) log =
     (if part = dot then walk_loop D links current pending log
      else if part = dotdot then walk_loop D links (path_dirname current) pending log
      else
        let next = path_join current part in
        if is_link D next then
          (if Suc links > maximumLinksFollowed then None
           else
             let target = dk_readlink D next;
                 current' = link_start current target;
                 targetParts = path_parts target;
                 pending' = targetParts @ pending
             in walk_loop D (Suc links) current' pending' (log_link current next target current' targetParts pending' log))
        else walk_loop D links next pending
               (if dk_lstat D next = LookupFails then log\<lparr>wl_unreadable := True\<rparr> else log))"
  by pat_completeness auto
termination
  by (relation "measures [\<lambda>(D, links, current, pending, log). maximumLinksFollowed - links,
      \<lambda>(D, links, current, pending, log). length pending]") (auto simp: Let_def)

text \<open>\<open>join(real, ...missing)\<close>\<close>

definition path_join_all :: "js_string \<Rightarrow> js_string list \<Rightarrow> js_string" where
  "path_join_all p ps = path_normalize (join_slash (filter (\<lambda>c. c \<noteq> []) (p # ps)))"

lemma dirname_shorter:
  "path_dirname p \<noteq> p \<Longrightarrow>
   2 * length (path_dirname p) + (if path_dirname p = dot then 0 else if path_dirname p = [] then 3 else 1)
   < 2 * length p + (if p = dot then 0 else if p = [] then 3 else 1)"
proof -
  assume d: "path_dirname p \<noteq> p"
  show ?thesis
  proof (cases "dropWhile (\<lambda>c. c \<noteq> 47) (rev p)")
    case Nil
    have "path_dirname p = dot" unfolding path_dirname_def Nil by simp
    then show ?thesis using d by (cases p) auto
  next
    case (Cons c before)
    have "length (dropWhile (\<lambda>c. c \<noteq> 47) (rev p)) \<le> length p"
      using length_dropWhile_le [of "\<lambda>c. c \<noteq> 47" "rev p"] by simp
    then have len: "Suc (length before) \<le> length p" using Cons by simp
    show ?thesis
    proof (cases "before = []")
      case True
      then have e: "path_dirname p = [47]" using Cons by (simp add: path_dirname_def)
      have "c = 47" using Cons hd_dropWhile [of "\<lambda>c. c \<noteq> 47" "rev p"] by simp
      then have "length p \<noteq> 1" using d e Cons True by (cases p) (auto split: if_splits)
      then show ?thesis using e len by (cases p) auto
    next
      case False
      then have "path_dirname p = rev before" using Cons by (simp add: path_dirname_def)
      then show ?thesis using False len by auto
    qed
  qed
qed

text \<open>The loop of \<open>spelledPath\<close>: the deepest part that exists, as \<open>realpath\<close> writes it, and the rest.\<close>

function spelled_from :: "disk \<Rightarrow> js_string \<Rightarrow> js_string \<Rightarrow> js_string list \<Rightarrow> js_string" where
  "spelled_from D p existing missing =
     (case dk_realpath D existing of
        RealPath r \<Rightarrow> path_join_all r missing
      | RealPathFails \<Rightarrow> p
      | NoRealPath \<Rightarrow>
          let parent = path_dirname existing in
          if parent = existing then p else spelled_from D p parent (path_basename existing # missing))"
  by pat_completeness auto
termination
proof (relation "measure (\<lambda>(D, p, existing, missing).
    2 * length existing + (if existing = dot then 0 else if existing = [] then 3 else 1))", goal_cases)
  case (2 D p existing missing parent)
  then show ?case using dirname_shorter [of existing] by simp
qed simp

definition spelledPath :: "disk \<Rightarrow> js_string \<Rightarrow> js_string" where
  "spelledPath D p = (if \<not> isAbsolute p then p else spelled_from D p p [])"

record followed_path =
  fp_path :: js_string
  fp_walked :: js_string
  fp_log :: walk_log

definition no_log :: walk_log where
  "no_log = \<lparr>wl_aliases = [], wl_links = [], wl_hops = [], wl_unreadable = False\<rparr>"

definition walkPath :: "disk \<Rightarrow> js_string \<Rightarrow> followed_path option" where
  "walkPath D p =
     map_option (\<lambda>(current, log). \<lparr>fp_path = (if wl_unreadable log then current else spelledPath D current),
         fp_walked = current, fp_log = log\<rparr>)
       (walk_loop D 0 (path_root p) (path_parts p) no_log)"

text \<open>\<open>followPath\<close> gives the walk without its flag, which \<open>fp_log\<close> keeps here.\<close>

definition followPath :: "disk \<Rightarrow> js_string \<Rightarrow> followed_path option" where
  "followPath D p = walkPath D p"

text \<open>\<open>resolve(workspace)\<close> of an absolute path.\<close>

definition path_resolve :: "js_string \<Rightarrow> js_string" where
  "path_resolve p = abs_path (resolved_parts p)"

definition followedTarget :: "disk \<Rightarrow> js_string \<Rightarrow> js_string \<Rightarrow> js_string option \<Rightarrow> (followed_path \<times> followed_path) option" where
  "followedTarget D workspace p cwd =
     (case (followPath D (requestedPath workspace p cwd), followPath D (path_resolve workspace)) of
        (Some target, Some realWorkspace) \<Rightarrow> Some (realWorkspace, target)
      | _ \<Rightarrow> None)"

section \<open>The identity of a file target\<close>

record file_target =
  ft_entry :: node_identity
  ft_realPath :: "js_string option"
  ft_walkedPath :: "js_string option"
  ft_target :: node_identity

definition no_node :: "node_kind \<Rightarrow> node_identity" where
  "no_node k = \<lparr>ni_kind = k, ni_dev = [], ni_ino = [], ni_nlink = None\<rparr>"

definition unreadableFileTargetIdentity :: file_target where
  "unreadableFileTargetIdentity = \<lparr>ft_entry = no_node Unreadable, ft_realPath = None, ft_walkedPath = None,
     ft_target = no_node Unreadable\<rparr>"

definition nodeIdentity :: "disk \<Rightarrow> js_string \<Rightarrow> node_identity" where
  "nodeIdentity D p = (case dk_lstat D p of Found node \<Rightarrow> node | NotFound \<Rightarrow> no_node Missing | LookupFails \<Rightarrow> no_node Unreadable)"

definition fileTargetIdentity :: "disk \<Rightarrow> js_string \<Rightarrow> js_string \<Rightarrow> js_string option \<Rightarrow> file_target" where
  "fileTargetIdentity D workspace p cwd =
     (let requested = requestedPath workspace p cwd;
          walk = walkPath D requested;
          read = (case walk of Some w \<Rightarrow> if wl_unreadable (fp_log w) then None else Some w | None \<Rightarrow> None)
      in \<lparr>ft_entry = nodeIdentity D requested, ft_realPath = map_option fp_path read, ft_walkedPath = map_option fp_walked read,
          ft_target = (case read of None \<Rightarrow> no_node Unreadable | Some w \<Rightarrow> nodeIdentity D (fp_path w))\<rparr>)"

definition fileTargetUnreadable :: "file_target \<Rightarrow> bool" where
  "fileTargetUnreadable t \<longleftrightarrow> ni_kind (ft_entry t) = Unreadable \<or> ft_realPath t = None \<or> ni_kind (ft_target t) = Unreadable"

definition fileTargetHasOtherNames :: "file_target \<Rightarrow> bool" where
  "fileTargetHasOtherNames t \<longleftrightarrow> ni_kind (ft_target t) = Regular \<and> (case ni_nlink (ft_target t) of None \<Rightarrow> False | Some n \<Rightarrow> n > 1)"

definition sameNode :: "node_identity \<Rightarrow> node_identity \<Rightarrow> bool" where
  "sameNode a b \<longleftrightarrow> ni_kind a = ni_kind b \<and> ni_dev a = ni_dev b \<and> ni_ino a = ni_ino b \<and> ni_nlink a = ni_nlink b"

definition fileTargetChanged :: "file_target option \<Rightarrow> file_target \<Rightarrow> bool" where
  "fileTargetChanged before now =
     (if fileTargetUnreadable now then True
      else case before of
        None \<Rightarrow> \<not> (ni_kind (ft_target now) = Regular
                     \<or> ni_kind (ft_entry now) = Missing \<and> ni_kind (ft_target now) = Missing)
      | Some b \<Rightarrow> \<not> sameNode (ft_entry b) (ft_entry now) \<or> ft_realPath b \<noteq> ft_realPath now
          \<or> \<not> sameNode (ft_target b) (ft_target now))"

section \<open>How a file system follows a path\<close>

text \<open>
  The rule of the file system, without a bound: from a directory, the parts of a path are taken one
  by one; a link is replaced by its target, read from the directory it is in or from the root, and
  ".." leaves the directory reached. The number counts the links.
\<close>

inductive leads :: "disk \<Rightarrow> js_string \<Rightarrow> js_string list \<Rightarrow> js_string \<Rightarrow> nat \<Rightarrow> bool" for D where
  arrived: "leads D current [] current 0"
| stay: "leads D current pending place n \<Longrightarrow> leads D current (dot # pending) place n"
| up: "leads D (path_dirname current) pending place n \<Longrightarrow> leads D current (dotdot # pending) place n"
| down: "part \<notin> {dot, dotdot} \<Longrightarrow> \<not> is_link D (path_join current part) \<Longrightarrow>
    leads D (path_join current part) pending place n \<Longrightarrow> leads D current (part # pending) place n"
| follow: "part \<notin> {dot, dotdot} \<Longrightarrow> is_link D (path_join current part) \<Longrightarrow> target = dk_readlink D (path_join current part) \<Longrightarrow>
    leads D (if isAbsolute target then [47] else current) (path_parts target @ pending) place n \<Longrightarrow>
    leads D current (part # pending) place (Suc n)"

lemma link_start_eq: "link_start current target = (if isAbsolute target then [47] else current)"
  by (simp add: link_start_def path_root_def)

lemma walk_leads: "walk_loop D links current pending log = Some (place, log') \<Longrightarrow>
    links \<le> maximumLinksFollowed \<Longrightarrow> \<exists>n. leads D current pending place n \<and> links + n \<le> maximumLinksFollowed"
proof (induction D links current pending log rule: walk_loop.induct)
  case (1 D links current log)
  then show ?case by (auto intro: leads.arrived)
next
  case (2 D links current part pending log)
  note run = 2(5) and bound = 2(6)
  consider (stays) "part = dot" | (ups) "part = dotdot" | (link) "part \<notin> {dot, dotdot}" "is_link D (path_join current part)"
    | (downs) "part \<notin> {dot, dotdot}" "\<not> is_link D (path_join current part)" by auto
  then show ?case
  proof cases
    case stays
    then show ?thesis using 2(1) run bound by (auto intro: leads.stay)
  next
    case ups
    then show ?thesis using 2(2) run bound by (auto intro: leads.up)
  next
    case link
    let ?target = "dk_readlink D (path_join current part)"
    have more_links: "Suc links \<le> maximumLinksFollowed" using run link by (auto simp: Let_def split: if_splits)
    then have "\<exists>n. leads D (link_start current ?target) (path_parts ?target @ pending) place n \<and> Suc links + n \<le> maximumLinksFollowed"
      using 2(3) run link by (auto simp: Let_def)
    then obtain n where n: "leads D (link_start current ?target) (path_parts ?target @ pending) place n"
      "Suc links + n \<le> maximumLinksFollowed" by blast
    show ?thesis using leads.follow [OF link refl n(1) [unfolded link_start_eq]] n(2) by (intro exI [of _ "Suc n"]) simp
  next
    case downs
    then have "\<exists>n. leads D (path_join current part) pending place n \<and> links + n \<le> maximumLinksFollowed"
      using 2(4) run bound by (auto simp: Let_def)
    then show ?thesis using leads.down [OF downs] by blast
  qed
qed

lemma leads_walk: "leads D current pending place n \<Longrightarrow> links + n \<le> maximumLinksFollowed \<Longrightarrow>
    \<exists>log'. walk_loop D links current pending log = Some (place, log')"
proof (induction arbitrary: links log rule: leads.induct)
  case (down part current pending place n)
  then show ?case by (auto simp: Let_def)
next
  case (follow part current target pending place n)
  then have "Suc links \<le> maximumLinksFollowed" "Suc links + n \<le> maximumLinksFollowed" by simp_all
  then show ?case using follow by (auto simp: Let_def link_start_eq)
qed simp_all

section \<open>A followed path has no links\<close>

definition settled :: "disk \<Rightarrow> js_string list \<Rightarrow> bool" where
  "settled D cs \<longleftrightarrow> list_all plain cs \<and> (\<forall>i. 0 < i \<longrightarrow> i \<le> length cs \<longrightarrow> \<not> is_link D (abs_path (take i cs)))"

definition part_ok :: "js_string \<Rightarrow> bool" where
  "part_ok p \<longleftrightarrow> p \<noteq> [] \<and> 47 \<notin> set p"

lemma split_slash_free: "c \<in> set (split_slash s) \<Longrightarrow> 47 \<notin> set c"
proof (induction s arbitrary: c)
  case (Cons x s)
  then show ?case by (cases "split_slash s") (auto split: if_splits)
qed simp

lemma path_parts_ok: "list_all part_ok (path_parts p)"
  using split_slash_free by (auto simp: path_parts_def list_all_iff part_ok_def)

lemma settled_butlast: "settled D cs \<Longrightarrow> settled D (butlast cs)"
  by (auto simp: settled_def list_all_iff butlast_conv_take min_def dest: in_set_takeD)

lemma settled_snoc: "settled D cs \<Longrightarrow> plain c \<Longrightarrow> \<not> is_link D (abs_path (cs @ [c])) \<Longrightarrow> settled D (cs @ [c])"
  by (auto simp: settled_def le_Suc_eq)

lemma settled_root [simp]: "settled D []"
  by (simp add: settled_def)

lemma leads_settled:
  "leads D current pending place n \<Longrightarrow> current = abs_path cs \<Longrightarrow> settled D cs \<Longrightarrow> list_all part_ok pending \<Longrightarrow>
   \<exists>ds. place = abs_path ds \<and> settled D ds"
proof (induction arbitrary: cs rule: leads.induct)
  case (arrived current)
  then show ?case by blast
next
  case (up current pending place n)
  then show ?case using dirname_abs [of cs] settled_butlast by (auto simp: settled_def)
next
  case (down part current pending place n)
  then have part: "plain part" by (auto simp: plain_def part_ok_def)
  have "path_join current part = abs_path (cs @ [part])" using down part join_plain [of cs part] by (simp add: settled_def)
  then show ?case using down part settled_snoc by simp
next
  case (follow part current target pending place n)
  have "(if isAbsolute target then [47] else current) = abs_path (if isAbsolute target then [] else cs)"
    using follow.prems(1) by (simp add: abs_path_def)
  then show ?case using follow path_parts_ok [of target] by (cases "isAbsolute target") auto
qed auto

text \<open>
  A component at which \<open>lstat\<close> answered: it showed something that is no link, or that nothing is
  there. A failed lookup shows neither.
\<close>

definition shown_no_link :: "disk \<Rightarrow> js_string \<Rightarrow> bool" where
  "shown_no_link D p \<longleftrightarrow> (case dk_lstat D p of Found node \<Rightarrow> ni_kind node \<noteq> Symlink | NotFound \<Rightarrow> True | LookupFails \<Rightarrow> False)"

definition link_free :: "disk \<Rightarrow> js_string list \<Rightarrow> bool" where
  "link_free D cs \<longleftrightarrow> list_all plain cs \<and> (\<forall>i. 0 < i \<longrightarrow> i \<le> length cs \<longrightarrow> shown_no_link D (abs_path (take i cs)))"

lemma link_free_root [simp]: "link_free D []"
  by (simp add: link_free_def)

lemma link_free_butlast: "link_free D cs \<Longrightarrow> link_free D (butlast cs)"
  by (auto simp: link_free_def list_all_iff butlast_conv_take min_def dest: in_set_takeD)

lemma link_free_snoc: "link_free D cs \<Longrightarrow> plain c \<Longrightarrow> shown_no_link D (abs_path (cs @ [c])) \<Longrightarrow> link_free D (cs @ [c])"
  by (auto simp: link_free_def le_Suc_eq)

lemma link_free_plain: "link_free D cs \<Longrightarrow> list_all plain cs"
  by (simp add: link_free_def)

lemma log_link_unreadable [simp]: "wl_unreadable (log_link current next target current' ps pending log) = wl_unreadable log"
  by (simp add: log_link_def)

lemma walk_readable: "walk_loop D links current pending log = Some (place, log') \<Longrightarrow> \<not> wl_unreadable log' \<Longrightarrow> \<not> wl_unreadable log"
  by (induction D links current pending log rule: walk_loop.induct) (auto simp: Let_def split: if_splits)

lemma walk_link_free:
  "walk_loop D links current pending log = Some (place, log') \<Longrightarrow> \<not> wl_unreadable log' \<Longrightarrow>
   current = abs_path cs \<Longrightarrow> link_free D cs \<Longrightarrow> list_all part_ok pending \<Longrightarrow> \<exists>ds. place = abs_path ds \<and> link_free D ds"
proof (induction D links current pending log arbitrary: cs rule: walk_loop.induct)
  case (1 D links current log)
  then show ?case by auto
next
  case (2 D links current part pending log)
  note run = 2(5) and readable = 2(6) and place = 2(7) and ok = 2(8) and parts = 2(9)
  let ?next = "path_join current part"
  consider (stays) "part = dot" | (ups) "part = dotdot" | (link) "part \<notin> {dot, dotdot}" "is_link D ?next"
    | (downs) "part \<notin> {dot, dotdot}" "\<not> is_link D ?next" by auto
  then show ?case
  proof cases
    case stays
    then show ?thesis using 2(1) run readable place ok parts by simp
  next
    case ups
    then show ?thesis
      using 2(2) [OF _ _ _ readable _ link_free_butlast [OF ok]] run place parts dirname_abs [OF link_free_plain [OF ok]] by simp
  next
    case link
    let ?target = "dk_readlink D ?next"
    have "link_start current ?target = abs_path (if isAbsolute ?target then [] else cs)"
      using place by (simp add: link_start_eq abs_path_def)
    then show ?thesis
      using 2(3) [OF _ _ refl _ _ refl refl refl refl _ readable] link run ok parts path_parts_ok [of ?target]
      by (auto simp: Let_def split: if_splits)
  next
    case downs
    have part: "plain part" using downs parts by (auto simp: plain_def part_ok_def)
    have next_is: "?next = abs_path (cs @ [part])" using place join_plain [OF link_free_plain [OF ok] part] by simp
    have rest: "walk_loop D links ?next pending (if dk_lstat D ?next = LookupFails then log\<lparr>wl_unreadable := True\<rparr> else log) = Some (place, log')"
      using run downs by (simp add: Let_def)
    have "dk_lstat D ?next \<noteq> LookupFails" using walk_readable [OF rest readable] by auto
    then have "shown_no_link D ?next"
      using downs by (auto simp: shown_no_link_def is_link_def split: lstat_answer.splits)
    then have "link_free D (cs @ [part])" using link_free_snoc [OF ok part] next_is by simp
    then show ?thesis using 2(4) [OF _ _ refl _ rest readable next_is] downs parts by simp
  qed
qed

lemma walk_stays_readable:
  "walk_loop D links current pending log = Some (place, log') \<Longrightarrow> (\<And>q. dk_lstat D q \<noteq> LookupFails) \<Longrightarrow> wl_unreadable log' = wl_unreadable log"
  by (induction D links current pending log rule: walk_loop.induct) (auto simp: Let_def split: if_splits)

text \<open>
  What is asked of \<open>realpath\<close>: the name it gives has no link in it, and is a name of the same
  directory, so what is below the one is below the other.
\<close>

definition realpath_laws :: "disk \<Rightarrow> bool" where
  "realpath_laws D \<longleftrightarrow> (\<forall>qs r. list_all plain qs \<longrightarrow> dk_realpath D (abs_path qs) = RealPath r \<longrightarrow>
     (\<exists>ds. r = abs_path ds \<and> link_free D ds
        \<and> (\<forall>ts. ts \<noteq> [] \<longrightarrow> dk_lstat D (abs_path (ds @ ts)) = dk_lstat D (abs_path (qs @ ts)))))"

lemma split_join: "list_all plain ms \<Longrightarrow> ms \<noteq> [] \<Longrightarrow> split_slash (join_slash ms) = ms"
  by (induction ms rule: join_slash.induct) (auto simp: split_append_slash split_no_slash plain_def)

lemma plain_last: "plain c \<Longrightarrow> last c \<noteq> 47"
  by (metis last_in_set plain_def)

lemma last_plain: "list_all plain cs \<Longrightarrow> cs \<noteq> [] \<Longrightarrow> last (join_slash cs) \<noteq> 47 \<and> join_slash cs \<noteq> []"
  by (induction cs rule: join_slash.induct) (simp_all add: plain_last plain_def)

lemma join_all_plain: "list_all plain ds \<Longrightarrow> list_all plain ms \<Longrightarrow> path_join_all (abs_path ds) ms = abs_path (ds @ ms)"
proof -
  assume ok: "list_all plain ds" "list_all plain ms"
  have keep: "filter (\<lambda>c. c \<noteq> []) (abs_path ds # ms) = abs_path ds # ms"
    using ok(2) by (auto simp: list_all_iff plain_def intro!: filter_True)
  let ?p = "join_slash (abs_path ds # ms)"
  have p: "?p = (if ms = [] then abs_path ds else abs_path ds @ 47 # join_slash ms)" by (cases ms) simp_all
  obtain s where s: "abs_path ds = 47 # s" by (cases ds) (simp_all add: abs_path_def)
  have abs: "isAbsolute ?p" "?p \<noteq> []" by (simp_all add: p [unfolded s] s isAbsolute_def)
  have parts: "normal_parts False [] (split_slash ?p) = ds @ ms"
  proof (cases "ms = []")
    case True
    then show ?thesis using resolved_abs [OF ok(1)] by (simp add: p resolved_parts_def)
  next
    case False
    then have "split_slash ?p = split_slash (abs_path ds) @ ms"
      using ok(2) by (simp add: p split_append_slash split_join)
    also have "normal_parts False [] \<dots> = ds @ ms"
      using ok normal_plain [of "ds @ ms" False "[]"] by (cases "ds = []") (simp_all add: split_abs)
    finally show ?thesis .
  qed
  have tail: "last ?p \<noteq> 47" if "ds @ ms \<noteq> []"
  proof (cases "ms = []")
    case True
    then have "?p = 47 # join_slash ds" using that join_slash_abs [of ds] by (simp add: p)
    then show ?thesis using last_plain [OF ok(1)] that True by simp
  next
    case False
    then show ?thesis using last_plain [OF ok(2)] by (simp add: p)
  qed
  show ?thesis
  proof (cases "ds @ ms = []")
    case True
    then show ?thesis by (simp add: path_join_all_def abs_path_def path_normalize_def isAbsolute_def)
  next
    case False
    then have "join_slash (ds @ ms) \<noteq> []" using ok last_plain [of "ds @ ms"] by simp
    then have "path_normalize ?p = 47 # join_slash (ds @ ms)"
      using abs parts tail [OF False] by (simp add: path_normalize_def path_root_def Let_def)
    then show ?thesis using join_slash_abs [OF False] keep by (simp add: path_join_all_def)
  qed
qed

lemma basename_abs: "plain c \<Longrightarrow> path_basename (abs_path (cs @ [c])) = c"
proof -
  assume "plain c"
  then have "takeWhile (\<lambda>x. x \<noteq> 47) (rev c @ 47 # rest) = rev c" for rest
    by (subst takeWhile_append2) (auto simp: plain_def)
  then show ?thesis by (cases cs) (simp_all add: path_basename_def abs_path_def)
qed

lemma link_free_moved:
  assumes "link_free D (qs @ ms)" "link_free D ds"
    and "\<And>ts. ts \<noteq> [] \<Longrightarrow> dk_lstat D (abs_path (ds @ ts)) = dk_lstat D (abs_path (qs @ ts))"
  shows "link_free D (ds @ ms)"
  unfolding link_free_def
proof (intro conjI allI impI)
  show "list_all plain (ds @ ms)" using assms(1,2) by (simp add: link_free_def)
  fix i assume i: "0 < i" "i \<le> length (ds @ ms)"
  show "shown_no_link D (abs_path (take i (ds @ ms)))"
  proof (cases "i \<le> length ds")
    case True
    then show ?thesis using assms(2) i by (simp add: link_free_def)
  next
    case False
    define j where "j = i - length ds"
    have "shown_no_link D (abs_path (take (length qs + j) (qs @ ms)))"
      using assms(1) [unfolded link_free_def, THEN conjunct2, rule_format, of "length qs + j"] i False by (simp add: j_def)
    then show ?thesis
      using assms(3) [of "take j ms"] i False by (cases ms) (simp_all add: shown_no_link_def j_def)
  qed
qed

lemma spelled_link_free:
  "realpath_laws D \<Longrightarrow> existing = abs_path qs \<Longrightarrow> p = abs_path (qs @ missing) \<Longrightarrow> link_free D (qs @ missing) \<Longrightarrow>
   \<exists>ds. spelled_from D p existing missing = abs_path ds \<and> link_free D ds"
proof (induction D p existing missing arbitrary: qs rule: spelled_from.induct)
  case (1 D p existing missing)
  note laws = 1(2) and here = 1(3) and whole = 1(4) and ok = 1(5)
  show ?case
  proof (cases "dk_realpath D existing")
    case (RealPath r)
    then obtain ds where ds: "r = abs_path ds" "link_free D ds"
      "\<And>ts. ts \<noteq> [] \<Longrightarrow> dk_lstat D (abs_path (ds @ ts)) = dk_lstat D (abs_path (qs @ ts))"
      using laws [unfolded realpath_laws_def, rule_format, of qs r] ok here by (auto simp: link_free_def)
    have "list_all plain missing" using ok by (simp add: link_free_def)
    then have "spelled_from D p existing missing = abs_path (ds @ missing)"
      using RealPath ds(1,2) by (simp add: join_all_plain link_free_plain)
    then show ?thesis using link_free_moved [OF ok ds(2,3)] by blast
  next
    case RealPathFails
    then show ?thesis using whole ok by auto
  next
    case NoRealPath
    have plain: "list_all plain qs" using ok by (simp add: link_free_def)
    have parent: "path_dirname existing = abs_path (butlast qs)" using dirname_abs [OF plain] here by simp
    show ?thesis
    proof (cases "path_dirname existing = existing")
      case True
      then show ?thesis using NoRealPath whole ok by auto
    next
      case False
      then obtain ds c where qs: "qs = ds @ [c]" using parent here by (cases qs rule: rev_cases) auto
      then have "path_basename existing = c" using basename_abs plain here by simp
      then show ?thesis
        using 1(1) [OF NoRealPath refl False laws, of ds] NoRealPath False parent whole ok qs by (simp add: Let_def)
    qed
  qed
qed

section \<open>Properties\<close>

text \<open>
  C16. The walk finds where the file system's own rule leads, whenever that takes at most forty
  links, and finds nothing when it takes more or never ends: a link is followed before the ".."
  after it, and a dangling link leads to where it points.
\<close>

theorem walk_is_path_resolution:
  "(\<exists>w. walkPath D p = Some w \<and> fp_walked w = place)
   \<longleftrightarrow> (\<exists>n. leads D (path_root p) (path_parts p) place n \<and> n \<le> maximumLinksFollowed)"
proof
  assume "\<exists>w. walkPath D p = Some w \<and> fp_walked w = place"
  then obtain log where "walk_loop D 0 (path_root p) (path_parts p) no_log = Some (place, log)" by (auto simp: walkPath_def)
  from walk_leads [OF this] show "\<exists>n. leads D (path_root p) (path_parts p) place n \<and> n \<le> maximumLinksFollowed" by auto
next
  assume "\<exists>n. leads D (path_root p) (path_parts p) place n \<and> n \<le> maximumLinksFollowed"
  then obtain n where "leads D (path_root p) (path_parts p) place n" "0 + n \<le> maximumLinksFollowed" by auto
  from leads_walk [OF this, of no_log] obtain log
    where "walk_loop D 0 (path_root p) (path_parts p) no_log = Some (place, log)" by blast
  then show "\<exists>w. walkPath D p = Some w \<and> fp_walked w = place" by (simp add: walkPath_def)
qed


text \<open>A disk on which \<open>/a\<close> is a link to \<open>b/..\<close> and everything else is a regular file.\<close>

definition sample_disk :: disk where
  "sample_disk = \<lparr>dk_lstat = (\<lambda>p. Found \<lparr>ni_kind = (if p = [47, 97] then Symlink else Regular), ni_dev = [], ni_ino = [], ni_nlink = Some 1\<rparr>),
     dk_readlink = (\<lambda>_. [98, 47, 46, 46]), dk_realpath = RealPath\<rparr>"

lemma sample_follow: "\<exists>w. followPath sample_disk [47, 97, 47, 99] = Some w \<and> fp_walked w = [47, 99]"
  by (simp add: followPath_def walkPath_def path_root_def isAbsolute_def path_parts_def path_join_def path_normalize_def Let_def
      is_link_def sample_disk_def maximumLinksFollowed_def link_start_def path_dirname_def)

text \<open>The same disk, where only \<open>/c\<close> is known to \<open>realpath\<close>.\<close>

definition placed_disk :: disk where
  "placed_disk = sample_disk\<lparr>dk_realpath := (\<lambda>p. if p = [47, 99] then RealPath p else NoRealPath)\<rparr>"

lemma placed_follow: "\<exists>w. followPath placed_disk [47, 97, 47, 99] = Some w \<and> fp_walked w = [47, 99]"
  by (simp add: followPath_def walkPath_def path_root_def isAbsolute_def path_parts_def path_join_def path_normalize_def Let_def
      is_link_def placed_disk_def sample_disk_def maximumLinksFollowed_def link_start_def path_dirname_def)

lemma placed_laws: "realpath_laws placed_disk"
  unfolding realpath_laws_def
proof (intro allI impI)
  fix qs r assume "list_all plain qs" "dk_realpath placed_disk (abs_path qs) = RealPath r"
  then have "abs_path qs = abs_path [[99]]" "r = abs_path [[99]]"
    by (auto simp: placed_disk_def abs_path_def split: if_splits)
  moreover have "plain [99]" by (simp add: plain_def)
  ultimately have "qs = [[99]]" "r = abs_path [[99]]" "link_free placed_disk [[99]]"
    using parts_abs [OF \<open>list_all plain qs\<close>] parts_abs [of "[[99]]"]
    by (simp_all add: link_free_def le_Suc_eq shown_no_link_def placed_disk_def sample_disk_def abs_path_def)
  then show "\<exists>ds. r = abs_path ds \<and> link_free placed_disk ds
      \<and> (\<forall>ts. ts \<noteq> [] \<longrightarrow> dk_lstat placed_disk (abs_path (ds @ ts)) = dk_lstat placed_disk (abs_path (qs @ ts)))"
    by blast
qed


end
