(* ===== verification/Execution_Request.thy ===== *)
theory Execution_Request
  imports Execution_Record Followed_Path
begin

text \<open>
  What an approval request stands for (\<open>resolveExecution\<close> of apps/daemon/src/execution-resolution.ts):
  the directory it runs in, the manifest its scripts are read from, the file an edit reaches, and the
  record and digest of the execution, or the reason there is none.

  Besides the file system of \<open>Followed_Path\<close>, the contents of an opened file and \<open>JSON.parse\<close> are
  parameters. The lookups that run past the request's deadline reject it and are not modelled.
\<close>

section \<open>The directory\<close>

record exec_input =
  ei_workspaceRoot :: js_string
  ei_cwd :: "js_string option"
  ei_command :: "js_string option"
  ei_filePath :: "js_string option"
  ei_blockedPath :: "js_string option"
  ei_tool :: "js_string option"

text \<open>A file once opened: what \<open>stat\<close> says of the handle, and its text when it is read in time.\<close>

record opened_file =
  of_isFile :: bool
  of_size :: nat
  of_text :: "js_string option"

record file_reads =
  fr_open :: "js_string \<Rightarrow> opened_file option"
  fr_parse :: "js_string \<Rightarrow> json option"

definition tool_named :: "js_string \<Rightarrow> file_tool option" where
  "tool_named command = find (\<lambda>t. tool_text t = command) [Edit, Write, MultiEdit, NotebookEdit]"

definition readTools :: "js_string list" where
  "readTools = map js [''Read'', ''Glob'', ''Grep'', ''LS'', ''NotebookRead'']"

definition inside :: "js_string \<Rightarrow> js_string \<Rightarrow> bool" where
  "inside root candidate \<longleftrightarrow>
     (let fromRoot = path_relative root candidate in
      fromRoot = [] \<or> take 3 fromRoot \<noteq> [46, 46, 47] \<and> fromRoot \<noteq> dotdot \<and> \<not> isAbsolute fromRoot)"

record canonical_directory =
  cd_root :: js_string
  cd_absolute :: js_string
  cd_relative :: js_string

fun found_path :: "realpath_answer \<Rightarrow> js_string option" where
  "found_path (RealPath p) = Some p"
| "found_path _ = None"

text \<open>A relative directory is read from the root as written.\<close>

definition requested_directory :: "js_string \<Rightarrow> js_string option \<Rightarrow> js_string" where
  "requested_directory root cwd = (case cwd of None \<Rightarrow> root | Some d \<Rightarrow> if isAbsolute d then d else root @ 47 # d)"

definition canonicalCwd :: "disk \<Rightarrow> js_string \<Rightarrow> js_string option \<Rightarrow> canonical_directory option" where
  "canonicalCwd D workspaceRoot cwd =
     Option.bind (found_path (dk_realpath D workspaceRoot)) (\<lambda>root.
       Option.bind (found_path (dk_realpath D (requested_directory root cwd))) (\<lambda>absolute.
         if \<not> inside root absolute then None
         else
           let fromRoot = path_relative root absolute in
           Some \<lparr>cd_root = root, cd_absolute = absolute, cd_relative = (if fromRoot = [] then dot else fromRoot)\<rparr>))"

definition pathStaysInside :: "disk \<Rightarrow> js_string \<Rightarrow> js_string \<Rightarrow> js_string \<Rightarrow> bool" where
  "pathStaysInside D root cwd p =
     (case followedTarget D root p (Some cwd) of
        None \<Rightarrow> False
      | Some (workspace, target) \<Rightarrow> inside (fp_path workspace) (fp_path target))"

text \<open>None when the lookup fails, which throws.\<close>

definition cannotStandForTarget :: "disk \<Rightarrow> js_string \<Rightarrow> bool option" where
  "cannotStandForTarget D target =
     (case dk_lstat D target of
        Found node \<Rightarrow> Some (ni_kind node \<noteq> Regular \<or> (case ni_nlink node of None \<Rightarrow> False | Some n \<Rightarrow> n > 1))
      | NotFound \<Rightarrow> Some False
      | LookupFails \<Rightarrow> None)"

section \<open>The manifest\<close>

definition maximumManifestBytes :: nat where "maximumManifestBytes = 1024 * 1024"

text \<open>None for a file that is not read, for whatever reason: the caller treats an exception alike.\<close>

definition readRegularFile :: "disk \<Rightarrow> file_reads \<Rightarrow> js_string \<Rightarrow> js_string option" where
  "readRegularFile D F p =
     (case dk_lstat D p of
        Found node \<Rightarrow>
          (if ni_kind node \<noteq> Regular then None
           else case fr_open F p of
             None \<Rightarrow> None
           | Some h \<Rightarrow> if \<not> of_isFile h \<or> of_size h > maximumManifestBytes then None else of_text h)
      | _ \<Rightarrow> None)"

fun string_fields :: "(js_string \<times> json) list \<Rightarrow> (js_string \<times> js_string) list" where
  "string_fields [] = []"
| "string_fields ((k, JStr v) # fs) = (k, v) # string_fields fs"
| "string_fields (_ # fs) = string_fields fs"

fun manifest_scripts :: "json \<Rightarrow> (js_string \<times> js_string) list option" where
  "manifest_scripts (JObj fs) =
     (case map_of fs (js ''scripts'') of Some (JObj scripts) \<Rightarrow> Some (string_fields scripts) | _ \<Rightarrow> None)"
| "manifest_scripts _ = None"

definition readManifest :: "disk \<Rightarrow> file_reads \<Rightarrow> js_string \<Rightarrow> js_string \<Rightarrow> package_manifest option" where
  "readManifest D F root cwd =
     Option.bind (found_path (dk_realpath D (path_join cwd (js ''package.json'')))) (\<lambda>canonicalPath.
       if \<not> inside root canonicalPath then None
       else Option.bind (readRegularFile D F canonicalPath) (\<lambda>text'.
         if length text' > maximumManifestBytes then None
         else Option.bind (Option.bind (fr_parse F text') manifest_scripts) (\<lambda>scripts.
           Some \<lparr>mn_path = path_relative root canonicalPath, mn_scripts = scripts\<rparr>)))"

section \<open>The resolution\<close>

definition resolutionReadsFilePath :: "js_string option \<Rightarrow> bool" where
  "resolutionReadsFilePath command =
     (case map_option js_trim command of
        None \<Rightarrow> False
      | Some tool \<Rightarrow> tool_named tool \<noteq> None \<or> tool \<in> set readTools)"

text \<open>An edit of a file, in the directory the request runs in.\<close>

definition resolveFileTool ::
  "exec_env \<Rightarrow> disk \<Rightarrow> canonical_directory \<Rightarrow> exec_input \<Rightarrow> file_tool \<Rightarrow> resolution option" where
  "resolveFileTool env D directory input tool =
     (case (ei_blockedPath input, ei_filePath input) of
        (None, Some filePath) \<Rightarrow>
          (case followedTarget D (cd_root directory) filePath (Some (cd_absolute directory)) of
             None \<Rightarrow> Some (Unresolved CwdOutsideProject)
           | Some (workspace, target) \<Rightarrow>
               if \<not> inside (fp_path workspace) (fp_path target) then Some (Unresolved CwdOutsideProject)
               else
                 let p = path_relative (fp_path workspace) (fp_path target) in
                 if p = [] \<or> p = dot then Some (Unresolved UnsupportedSyntax)
                 else Option.bind (cannotStandForTarget D (fp_path target)) (\<lambda>cannot.
                   if cannot then Some (Unresolved UnsupportedSyntax)
                   else fingerprint env (FileToolRecord (cd_relative directory) tool p)))
      | _ \<Rightarrow> Some (Unresolved UnsupportedSyntax))"

definition needs_manifest :: "parsed_part list \<Rightarrow> bool" where
  "needs_manifest parts = list_ex (\<lambda>p. packageInvocation (pp_argv p) 0 \<noteq> NotPackage) parts"

definition manifest_for :: "disk \<Rightarrow> file_reads \<Rightarrow> canonical_directory \<Rightarrow> parsed_part list \<Rightarrow> package_manifest option" where
  "manifest_for D F directory parts =
     (if needs_manifest parts then readManifest D F (cd_root directory) (cd_absolute directory) else None)"

definition resolveExecutionOrThrow :: "exec_env \<Rightarrow> disk \<Rightarrow> file_reads \<Rightarrow> exec_input \<Rightarrow> resolution option" where
  "resolveExecutionOrThrow env D F input =
     (case map_option js_trim (ei_command input) of
        None \<Rightarrow> Some (Unresolved CommandMissing)
      | Some command \<Rightarrow>
          if command = [] then Some (Unresolved CommandMissing)
          else case canonicalCwd D (ei_workspaceRoot input) (ei_cwd input) of
            None \<Rightarrow> Some (Unresolved CwdOutsideProject)
          | Some directory \<Rightarrow>
              if command \<in> set readTools
                 \<and> (case ei_filePath input of None \<Rightarrow> False
                     | Some p \<Rightarrow> \<not> pathStaysInside D (cd_root directory) (cd_absolute directory) p)
              then Some (Unresolved CwdOutsideProject)
              else if ei_tool input \<noteq> None then Some (Unresolved UnsupportedSyntax)
              else case tool_named command of
                Some tool \<Rightarrow> resolveFileTool env D directory input tool
              | None \<Rightarrow>
                  (case parseCommand command of
                     None \<Rightarrow> Some (Unresolved UnsupportedSyntax)
                   | Some parts \<Rightarrow>
                       resolveShell env command (cd_relative directory) (manifest_for D F directory parts)))"

definition resolveExecution :: "exec_env \<Rightarrow> disk \<Rightarrow> file_reads \<Rightarrow> exec_input \<Rightarrow> resolution" where
  "resolveExecution env D F input =
     (case resolveExecutionOrThrow env D F input of Some r \<Rightarrow> r | None \<Rightarrow> Unresolved UnsupportedSyntax)"

section \<open>A place inside a directory\<close>

definition place_in :: "js_string \<Rightarrow> js_string \<Rightarrow> js_string \<Rightarrow> bool" where
  "place_in root candidate p \<longleftrightarrow>
     resolved_parts candidate = resolved_parts root @ (if p = [] then [] else split_slash p)"

lemma normal_parts_plain:
  "list_all plain acc \<Longrightarrow> list_all (\<lambda>c. 47 \<notin> set c) ps \<Longrightarrow> list_all plain (normal_parts False acc ps)"
proof (induction ps arbitrary: acc)
  case (Cons p ps)
  have "list_all plain (butlast acc)" using Cons.prems(1) by (auto simp: list_all_iff dest: in_set_butlastD)
  moreover have "plain p \<or> p \<in> {[], dot, dotdot}" using Cons.prems(2) by (auto simp: plain_def)
  ultimately show ?case using Cons by auto
qed simp

lemma resolved_plain: "list_all plain (resolved_parts p)"
  unfolding resolved_parts_def
  by (rule normal_parts_plain) (auto simp: list_all_iff dest: split_slash_free)

lemma relative_parts_cases:
  assumes "relative_parts as bs = cs"
  shows "bs = as @ cs \<or> (\<exists>ws. cs = dotdot # ws)"
  using assms
proof (induction as bs arbitrary: cs rule: relative_parts.induct)
  case (2 as)
  then show ?case by (cases as) auto
qed (auto split: if_splits)

lemma inside_place: "inside root candidate \<Longrightarrow> place_in root candidate (path_relative root candidate)"
proof -
  assume i: "inside root candidate"
  define cs where "cs = relative_parts (resolved_parts root) (resolved_parts candidate)"
  have "cs \<noteq> dotdot # ws" for ws
    using i by (cases ws) (auto simp: inside_def path_relative_def Let_def cs_def [symmetric])
  then have bs: "resolved_parts candidate = resolved_parts root @ cs" using relative_parts_cases [OF cs_def [symmetric]] by blast
  have "list_all plain cs" using resolved_plain [of candidate] by (simp add: bs)
  moreover have "join_slash cs = [] \<longleftrightarrow> cs = []" using join_slash_Nil [of cs] calculation by (auto simp: plain_def)
  moreover have "path_relative root candidate = join_slash cs" by (simp add: path_relative_def cs_def)
  ultimately show ?thesis using bs split_join [of cs] by (simp only: place_in_def) simp
qed

text \<open>The directory a request runs in, and what may stand for the target of an edit.\<close>

definition runs_in :: "disk \<Rightarrow> exec_input \<Rightarrow> js_string \<Rightarrow> js_string \<Rightarrow> js_string \<Rightarrow> bool" where
  "runs_in D input root absolute cwd \<longleftrightarrow>
     dk_realpath D (ei_workspaceRoot input) = RealPath root
     \<and> dk_realpath D (requested_directory root (ei_cwd input)) = RealPath absolute
     \<and> place_in root absolute (if cwd = dot then [] else cwd)"

definition one_file_or_none :: "lstat_answer \<Rightarrow> bool" where
  "one_file_or_none a \<longleftrightarrow>
     a = NotFound \<or> (\<exists>node. a = Found node \<and> ni_kind node = Regular \<and> (\<forall>n. ni_nlink node = Some n \<longrightarrow> n \<le> 1))"

lemma found_path_Some [simp]: "found_path a = Some p \<longleftrightarrow> a = RealPath p"
  by (cases a) simp_all

lemma canonicalCwd_runs_in:
  assumes "canonicalCwd D (ei_workspaceRoot input) (ei_cwd input) = Some dir"
  shows "runs_in D input (cd_root dir) (cd_absolute dir) (cd_relative dir)"
proof -
  obtain root absolute where dir: "dir = \<lparr>cd_root = root, cd_absolute = absolute,
      cd_relative = (let r = path_relative root absolute in if r = [] then dot else r)\<rparr>"
    and "dk_realpath D (ei_workspaceRoot input) = RealPath root" "inside root absolute"
      "dk_realpath D (requested_directory root (ei_cwd input)) = RealPath absolute"
    using assms by (fastforce simp: canonicalCwd_def Let_def bind_eq_Some_conv split: if_splits)
  then have d: "dk_realpath D (ei_workspaceRoot input) = RealPath (cd_root dir)"
      "dk_realpath D (requested_directory (cd_root dir) (ei_cwd input)) = RealPath (cd_absolute dir)"
      "inside (cd_root dir) (cd_absolute dir)"
      "cd_relative dir = (let r = path_relative (cd_root dir) (cd_absolute dir) in if r = [] then dot else r)"
    by simp_all
  have "path_relative (cd_root dir) (cd_absolute dir) \<noteq> dot"
  proof
    assume "path_relative (cd_root dir) (cd_absolute dir) = dot"
    then have "dot \<in> set (resolved_parts (cd_absolute dir))"
      using inside_place [OF d(3)] by (simp add: place_in_def)
    then show False using resolved_plain [of "cd_absolute dir"] by (auto simp: list_all_iff plain_def)
  qed
  then show ?thesis using d inside_place [OF d(3)] by (auto simp: runs_in_def Let_def)
qed

lemma tool_named_Some: "tool_named c = Some t \<longleftrightarrow> c = tool_text t"
  by (cases t) (auto simp: tool_named_def split: if_splits)

text \<open>The manifest of a record is a file inside the worktree.\<close>

definition manifest_read :: "disk \<Rightarrow> file_reads \<Rightarrow> js_string \<Rightarrow> js_string \<Rightarrow> package_manifest \<Rightarrow> bool" where
  "manifest_read D F root absolute mf \<longleftrightarrow>
     (\<exists>p contents json. dk_realpath D (path_join absolute (js ''package.json'')) = RealPath p
        \<and> place_in root p (mn_path mf)
        \<and> readRegularFile D F p = Some contents \<and> fr_parse F contents = Some json
        \<and> manifest_scripts json = Some (mn_scripts mf))"

lemma readManifest_read: "readManifest D F root absolute = Some mf \<Longrightarrow> manifest_read D F root absolute mf"
  by (auto simp: readManifest_def manifest_read_def bind_eq_Some_conv inside_place split: if_splits)

text \<open>A resolved request ran the directory's lookup, and then either an edit or a shell command.\<close>

lemma resolved_request:
  assumes "resolveExecution env D F input = Resolved r d"
  shows "\<exists>command dir. ei_command input = Some command \<and> ei_tool input = None
    \<and> canonicalCwd D (ei_workspaceRoot input) (ei_cwd input) = Some dir
    \<and> (case tool_named (js_trim command) of
         Some tool \<Rightarrow> resolveFileTool env D dir input tool = Some (Resolved r d)
       | None \<Rightarrow> \<exists>parts. parseCommand (js_trim command) = Some parts
           \<and> resolveShell env (js_trim command) (cd_relative dir) (manifest_for D F dir parts) = Some (Resolved r d))"
  using assms
  by (auto simp: resolveExecution_def resolveExecutionOrThrow_def split: option.splits if_splits)

lemma file_tool_record:
  assumes "resolveFileTool env D dir input tool = Some (Resolved r d)"
  shows "\<exists>filePath workspace target. ei_blockedPath input = None \<and> ei_filePath input = Some filePath
    \<and> followedTarget D (cd_root dir) filePath (Some (cd_absolute dir)) = Some (workspace, target)
    \<and> inside (fp_path workspace) (fp_path target)
    \<and> path_relative (fp_path workspace) (fp_path target) \<noteq> []
    \<and> cannotStandForTarget D (fp_path target) = Some False
    \<and> r = FileToolRecord (cd_relative dir) tool (path_relative (fp_path workspace) (fp_path target))"
  using assms
  by (auto simp: resolveFileTool_def Let_def fingerprint_def bind_eq_Some_conv split: option.splits if_splits)

lemma can_stand: "cannotStandForTarget D p = Some False \<Longrightarrow> one_file_or_none (dk_lstat D p)"
  by (auto simp: cannotStandForTarget_def one_file_or_none_def split: lstat_answer.splits option.splits)

lemma shell_record:
  assumes "resolveShell env command cwd m = Some (Resolved r d)"
  shows "\<exists>es. r = ShellRecord cwd es"
  using resolveShell_explained [OF assms] by blast

section \<open>Properties\<close>

text \<open>
  C15. The record of an edit names the one file the edit reaches: the request is for that tool and for
  no provider tool, its path, followed link by link from the canonical directory, ends at the
  recorded path inside the worktree, also followed, and there lies a regular file without another
  name, or nothing yet.
\<close>

theorem edit_record_names_the_file_reached:
  assumes "resolveExecution env D F input = Resolved (FileToolRecord cwd tool p) d"
  shows "\<exists>command filePath root absolute workspace target.
    ei_command input = Some command \<and> js_trim command = tool_text tool \<and> ei_tool input = None
    \<and> ei_blockedPath input = None \<and> ei_filePath input = Some filePath
    \<and> runs_in D input root absolute cwd
    \<and> followedTarget D root filePath (Some absolute) = Some (workspace, target)
    \<and> p \<noteq> [] \<and> place_in (fp_path workspace) (fp_path target) p
    \<and> one_file_or_none (dk_lstat D (fp_path target))"
proof -
  obtain command dir where c: "ei_command input = Some command" "ei_tool input = None"
      "canonicalCwd D (ei_workspaceRoot input) (ei_cwd input) = Some dir"
    and run: "case tool_named (js_trim command) of
         Some tool' \<Rightarrow> resolveFileTool env D dir input tool' = Some (Resolved (FileToolRecord cwd tool p) d)
       | None \<Rightarrow> \<exists>parts. parseCommand (js_trim command) = Some parts
           \<and> resolveShell env (js_trim command) (cd_relative dir) (manifest_for D F dir parts) = Some (Resolved (FileToolRecord cwd tool p) d)"
    using resolved_request [OF assms] by blast
  obtain tool' where t: "js_trim command = tool_text tool'"
      "resolveFileTool env D dir input tool' = Some (Resolved (FileToolRecord cwd tool p) d)"
    using run shell_record by (fastforce simp: tool_named_Some split: option.splits)
  show ?thesis
    using file_tool_record [OF t(2)] canonicalCwd_runs_in [OF c(3)] c(1,2) t(1) inside_place can_stand by fastforce
qed

text \<open>
  C17. The record of a command says what the request will run: the command's text names no file tool
  and comes with no provider tool, the recorded directory is where the request's directory really
  lies inside the worktree, and the record explains the command by the scripts of the manifest
  there, read from a file inside the worktree, when the command runs a script.
\<close>

theorem command_record_says_what_runs:
  assumes "resolveExecution env D F input = Resolved (ShellRecord cwd es) d"
  shows "\<exists>command root absolute m qs.
    ei_command input = Some command \<and> ei_tool input = None \<and> tool_named (js_trim command) = None
    \<and> runs_in D input root absolute cwd
    \<and> (case m of None \<Rightarrow> True | Some mf \<Rightarrow> manifest_read D F root absolute mf)
    \<and> parseCommand (js_trim command) = Some qs \<and> es \<noteq> []
    \<and> parts_explained env m es (ee_parts (es ! 0)) qs 0
    \<and> (\<forall>j. 0 < j \<longrightarrow> j < length es \<longrightarrow> script_explained env m es (es ! j))
    \<and> entries_refinement es"
proof -
  obtain command dir where c: "ei_command input = Some command" "ei_tool input = None"
      "canonicalCwd D (ei_workspaceRoot input) (ei_cwd input) = Some dir"
    and run: "case tool_named (js_trim command) of
         Some tool' \<Rightarrow> resolveFileTool env D dir input tool' = Some (Resolved (ShellRecord cwd es) d)
       | None \<Rightarrow> \<exists>parts. parseCommand (js_trim command) = Some parts
           \<and> resolveShell env (js_trim command) (cd_relative dir) (manifest_for D F dir parts) = Some (Resolved (ShellRecord cwd es) d)"
    using resolved_request [OF assms] by blast
  have none: "tool_named (js_trim command) = None" using run file_tool_record by (fastforce split: option.splits)
  then obtain parts where parts: "parseCommand (js_trim command) = Some parts"
    and shell: "resolveShell env (js_trim command) (cd_relative dir) (manifest_for D F dir parts) = Some (Resolved (ShellRecord cwd es) d)"
    using run by auto
  let ?m = "manifest_for D F dir parts"
  have "case ?m of None \<Rightarrow> True | Some mf \<Rightarrow> manifest_read D F (cd_root dir) (cd_absolute dir) mf"
    by (auto simp: manifest_for_def readManifest_read split: option.splits)
  then show ?thesis
    using resolveShell_explained [OF shell] canonicalCwd_runs_in [OF c(3)] c none
    by (intro exI [of _ command] exI [of _ "cd_root dir"] exI [of _ "cd_absolute dir"] exI [of _ ?m]) auto
qed

section \<open>Witnesses\<close>

text \<open>An edit of \<open>a/c\<close> in the worktree \<open>/\<close> of \<open>sample_disk\<close>, where \<open>/a\<close> is a link to \<open>b/..\<close>.\<close>

definition sample_edit :: exec_input where
  "sample_edit = \<lparr>ei_workspaceRoot = [47], ei_cwd = None, ei_command = Some (js ''Edit''), ei_filePath = Some [97, 47, 99],
     ei_blockedPath = None, ei_tool = None\<rparr>"

definition sample_reads :: file_reads where
  "sample_reads = \<lparr>fr_open = (\<lambda>_. Some \<lparr>of_isFile = True, of_size = 0, of_text = Some []\<rparr>),
     fr_parse = (\<lambda>_. Some (JObj [(js ''scripts'', JObj [(js ''test'', JStr (js ''tsc''))])]))\<rparr>"

lemma relative_root [simp]: "path_relative [47] [47] = []" "path_relative [47] [47, 99] = [99]"
  by (simp_all add: path_relative_def resolved_parts_def)

lemma sample_directory:
  "canonicalCwd sample_disk [47] None = Some \<lparr>cd_root = [47], cd_absolute = [47], cd_relative = dot\<rparr>"
  by (simp add: canonicalCwd_def sample_disk_def requested_directory_def inside_def)

lemma sample_target:
  "\<exists>workspace target. followedTarget sample_disk [47] [97, 47, 99] (Some [47]) = Some (workspace, target)
     \<and> fp_path workspace = [47] \<and> fp_path target = [47, 99]"
  by (simp add: followedTarget_def requestedPath_def followPath_def walkPath_def path_root_def isAbsolute_def path_parts_def path_join_def
      path_normalize_def Let_def is_link_def sample_disk_def maximumLinksFollowed_def link_start_def path_dirname_def
      path_resolve_def resolved_parts_def abs_path_def spelledPath_def path_join_all_def log_link_def no_log_def)

lemma sample_edit_resolved:
  "\<exists>d. resolveExecution sample_exec_env sample_disk sample_reads sample_edit = Resolved (FileToolRecord dot Edit [99]) d"
proof -
  obtain workspace target where t: "followedTarget sample_disk [47] [97, 47, 99] (Some [47]) = Some (workspace, target)"
    "fp_path workspace = [47]" "fp_path target = [47, 99]" using sample_target by blast
  have "executionRecordSchema (FileToolRecord dot Edit [99])" by (simp add: projectRelativePathSchema_def ascii_letter_def)
  moreover have "executionDigestSchema (record_digest sample_exec_env (FileToolRecord dot Edit [99]))"
    by (simp add: record_digest_def sample_exec_env_def executionDigestSchema_def js_def list_all_iff)
  moreover have "cannotStandForTarget sample_disk [47, 99] = Some False" by (simp add: cannotStandForTarget_def sample_disk_def)
  moreover have "js_trim (js ''Edit'') = js ''Edit''" by (simp add: js_trim_def js_def js_whitespace_def)
  moreover have "tool_named (js ''Edit'') = Some Edit" by (simp add: tool_named_def)
  moreover have "js ''Edit'' \<notin> set readTools" by (simp add: readTools_def)
  ultimately show ?thesis
    using t sample_directory
    by (simp add: resolveExecution_def resolveExecutionOrThrow_def sample_edit_def js_lengths resolveFileTool_def inside_def
        isAbsolute_def fingerprint_def Let_def del: executionRecordSchema.simps)
qed

theorem edit_record_names_the_file_reached_witness:
  "\<exists>command filePath root absolute workspace target.
    ei_command sample_edit = Some command \<and> js_trim command = tool_text Edit \<and> ei_tool sample_edit = None
    \<and> ei_blockedPath sample_edit = None \<and> ei_filePath sample_edit = Some filePath
    \<and> runs_in sample_disk sample_edit root absolute dot
    \<and> followedTarget sample_disk root filePath (Some absolute) = Some (workspace, target)
    \<and> [99 :: js_char] \<noteq> [] \<and> place_in (fp_path workspace) (fp_path target) [99]
    \<and> one_file_or_none (dk_lstat sample_disk (fp_path target))"
  using sample_edit_resolved by (blast intro: edit_record_names_the_file_reached)

lemma sample_command_resolved:
  "\<exists>d. resolveExecution sample_exec_env sample_disk sample_reads (sample_edit\<lparr>ei_command := Some (js ''npm test'')\<rparr>)
     = Resolved (ShellRecord dot sample_entries) d"
proof -
  have "executionDigestSchema (record_digest sample_exec_env (ShellRecord dot sample_entries))"
    by (simp add: record_digest_def sample_exec_env_def executionDigestSchema_def js_def list_all_iff)
  then have shell: "\<exists>d. resolveShell sample_exec_env (js ''npm test'') dot (Some sample_manifest) = Some (Resolved (ShellRecord dot sample_entries) d)"
    using sample_expand sample_schema
    by (simp add: resolveShell_def sample_parse fingerprint_def del: expand.simps executionRecordSchema.simps)
      (simp add: sample_exec_env_def)
  have "path_join [47] (js ''package.json'') = 47 # js ''package.json''" "path_relative [47] (47 # js ''package.json'') = js ''package.json''"
    by (simp_all add: path_join_def path_normalize_def path_relative_def resolved_parts_def js_def isAbsolute_def path_root_def)
  moreover have "inside [47] (47 # js ''package.json'')"
    by (simp add: inside_def path_relative_def resolved_parts_def js_def isAbsolute_def)
  ultimately have "readManifest sample_disk sample_reads [47] [47] = Some sample_manifest"
    by (simp add: readManifest_def readRegularFile_def sample_disk_def sample_reads_def maximumManifestBytes_def sample_manifest_def js_def)
  then have "manifest_for sample_disk sample_reads \<lparr>cd_root = [47], cd_absolute = [47], cd_relative = dot\<rparr>
      [\<lparr>pp_operator = None, pp_argv = [js ''npm'', js ''test'']\<rparr>] = Some sample_manifest"
    by (simp add: manifest_for_def needs_manifest_def sample_invocation)
  moreover have "js_trim (js ''npm test'') = js ''npm test''" by (simp add: js_trim_def js_def js_whitespace_def)
  moreover have "tool_named (js ''npm test'') = None" by (simp add: tool_named_def)
  moreover have "js ''npm test'' \<notin> set readTools" by (simp add: readTools_def)
  ultimately show ?thesis
    using shell sample_directory
    by (auto simp: resolveExecution_def resolveExecutionOrThrow_def sample_edit_def js_lengths sample_parse)
qed

theorem command_record_says_what_runs_witness:
  "\<exists>command root absolute m qs.
    ei_command (sample_edit\<lparr>ei_command := Some (js ''npm test'')\<rparr>) = Some command
    \<and> ei_tool (sample_edit\<lparr>ei_command := Some (js ''npm test'')\<rparr>) = None \<and> tool_named (js_trim command) = None
    \<and> runs_in sample_disk (sample_edit\<lparr>ei_command := Some (js ''npm test'')\<rparr>) root absolute dot
    \<and> (case m of None \<Rightarrow> True | Some mf \<Rightarrow> manifest_read sample_disk sample_reads root absolute mf)
    \<and> parseCommand (js_trim command) = Some qs \<and> sample_entries \<noteq> []
    \<and> parts_explained sample_exec_env m sample_entries (ee_parts (sample_entries ! 0)) qs 0
    \<and> (\<forall>j. 0 < j \<longrightarrow> j < length sample_entries \<longrightarrow> script_explained sample_exec_env m sample_entries (sample_entries ! j))
    \<and> entries_refinement sample_entries"
proof -
  obtain d where "resolveExecution sample_exec_env sample_disk sample_reads (sample_edit\<lparr>ei_command := Some (js ''npm test'')\<rparr>)
     = Resolved (ShellRecord dot sample_entries) d" using sample_command_resolved by blast
  then show ?thesis by (rule command_record_says_what_runs)
qed

end
