(* ===== verification/Fleet_Schema.thy ===== *)
theory Fleet_Schema
  imports Transfer_Manifest
begin

text \<open>
  The schemas of the fleet (packages/protocol/src/fleet.ts, fleet-health.ts, transport.ts,
  protocol-version.ts, and apps/daemon/src/fleet-operations.ts): what a machine says of itself, the
  endpoints that may be dialled, the health a daemon derives, the entries of a fleet snapshot and
  the journaled operations. A schema that trims or copies is a function to the parsed value.

  The \<open>URL\<close> class, the schema library's UUID, URL and date checks, \<open>Date\<close>, the redaction of durable
  text, the order of \<open>localeCompare\<close> and of a SQLite index are parameters.
\<close>

section \<open>The environment\<close>

record url =
  url_protocol :: js_string
  url_hostname :: js_string
  url_username :: js_string
  url_password :: js_string
  url_search :: js_string
  url_hash :: js_string

record fleet_env =
  fe_url :: "js_string \<Rightarrow> url option"
  fe_is_url :: "js_string \<Rightarrow> bool"
  fe_is_uuid :: "string \<Rightarrow> bool"
  fe_date :: "string \<Rightarrow> bool"
  fe_iso :: "int \<Rightarrow> string"
  fe_date_parse :: "string \<Rightarrow> int option"
  fe_uuid :: "nat \<Rightarrow> string"
  fe_audit :: "nat \<Rightarrow> bool"
  fe_redact :: "js_string \<Rightarrow> js_string \<times> bool"
  fe_index_le :: "string \<Rightarrow> string \<Rightarrow> bool"
  fe_locale_le :: "string \<Rightarrow> string \<Rightarrow> bool"

definition maximumFleetMachines :: nat where "maximumFleetMachines = 128"
definition maximumFleetEntries :: nat where "maximumFleetEntries = 512"
definition staleHeartbeatMs :: int where "staleHeartbeatMs = 30000"
definition offlineHeartbeatMs :: int where "offlineHeartbeatMs = 120000"

section \<open>Endpoints\<close>

definition isTransportLoopbackHost :: "js_string \<Rightarrow> bool" where
  "isTransportLoopbackHost host \<longleftrightarrow> host \<in> set (map js [''127.0.0.1'', ''[::1]'', ''localhost''])"

definition starts :: "string \<Rightarrow> js_string \<Rightarrow> bool" where
  "starts p s \<longleftrightarrow> take (length p) s = js p"

definition websocketEndpointSchema :: "fleet_env \<Rightarrow> js_string \<Rightarrow> bool" where
  "websocketEndpointSchema env e \<longleftrightarrow>
     length e \<le> 2048 \<and> (starts ''ws://'' e \<or> starts ''wss://'' e) \<and> list_all (\<lambda>c. \<not> js_whitespace c \<and> c \<noteq> 92) e
     \<and> fe_is_url env e
     \<and> (case fe_url env e of
          None \<Rightarrow> False
        | Some u \<Rightarrow> url_username u = [] \<and> url_password u = [] \<and> url_search u = [] \<and> url_hash u = [])"

definition url_where :: "fleet_env \<Rightarrow> (url \<Rightarrow> bool) \<Rightarrow> js_string \<Rightarrow> bool" where
  "url_where env P e \<longleftrightarrow> (case fe_url env e of None \<Rightarrow> False | Some u \<Rightarrow> P u)"

definition loopbackTransportEndpointSchema :: "fleet_env \<Rightarrow> js_string \<Rightarrow> bool" where
  "loopbackTransportEndpointSchema env e \<longleftrightarrow>
     websocketEndpointSchema env e \<and> url_where env (\<lambda>u. isTransportLoopbackHost (url_hostname u)) e"

definition hex_unit_lower :: "js_char \<Rightarrow> bool" where
  "hex_unit_lower c \<longleftrightarrow> c \<in> set (js ''0123456789abcdef'')"

text \<open>\<open>/^\[::ffff:7f[\da-f]{2}:/u\<close>\<close>

definition mapped_loopback :: "js_string \<Rightarrow> bool" where
  "mapped_loopback h \<longleftrightarrow> starts ''[::ffff:7f'' h
     \<and> (case drop 10 h of a # b # c # _ \<Rightarrow> hex_unit_lower a \<and> hex_unit_lower b \<and> c = 58 | _ \<Rightarrow> False)"

definition remoteTransportEndpointSchema :: "fleet_env \<Rightarrow> js_string \<Rightarrow> bool" where
  "remoteTransportEndpointSchema env e \<longleftrightarrow>
     websocketEndpointSchema env e
     \<and> url_where env (\<lambda>u. url_protocol u = js ''wss:'' \<and> \<not> isTransportLoopbackHost (url_hostname u)
         \<and> url_hostname u \<notin> set (map js [''0.0.0.0'', ''[::]'', ''localhost.''])
         \<and> \<not> starts ''127.'' (url_hostname u) \<and> \<not> mapped_loopback (url_hostname u)) e"

definition directTransportEndpointSchema :: "fleet_env \<Rightarrow> js_string \<Rightarrow> bool" where
  "directTransportEndpointSchema env e \<longleftrightarrow>
     websocketEndpointSchema env e
     \<and> url_where env (\<lambda>u. url_protocol u = js ''wss:'' \<or> url_protocol u = js ''ws:'' \<and> isTransportLoopbackHost (url_hostname u)) e"

text \<open>A candidate is always \<open>authenticated: true\<close>; an SSH forward also says whether it is configured.\<close>

datatype transport_candidate =
    LocalTransport (tc_endpoint: js_string)
  | WslTransport (tc_endpoint: js_string)
  | LanTransport (tc_endpoint: js_string)
  | TailnetTransport (tc_endpoint: js_string)
  | SshTransport (tc_endpoint: js_string) (tc_configured: bool)
  | RelayTransport (tc_endpoint: js_string)

fun transportCandidateSchema :: "fleet_env \<Rightarrow> transport_candidate \<Rightarrow> bool" where
  "transportCandidateSchema env (LocalTransport e) = loopbackTransportEndpointSchema env e"
| "transportCandidateSchema env (WslTransport e) = loopbackTransportEndpointSchema env e"
| "transportCandidateSchema env (LanTransport e) = remoteTransportEndpointSchema env e"
| "transportCandidateSchema env (TailnetTransport e) = remoteTransportEndpointSchema env e"
| "transportCandidateSchema env (SshTransport e _) = loopbackTransportEndpointSchema env e"
| "transportCandidateSchema env (RelayTransport e) = remoteTransportEndpointSchema env e"

fun transport_rank :: "transport_candidate \<Rightarrow> nat" where
  "transport_rank (LocalTransport _) = 0"
| "transport_rank (WslTransport _) = 1"
| "transport_rank (LanTransport _) = 2"
| "transport_rank (TailnetTransport _) = 3"
| "transport_rank (SshTransport _ _) = 4"
| "transport_rank (RelayTransport _) = 5"

text \<open>\<open>orderedTransports\<close> throws for a candidate its schema refuses; its sort is stable.\<close>

definition orderedTransports :: "fleet_env \<Rightarrow> transport_candidate list \<Rightarrow> transport_candidate list option" where
  "orderedTransports env cs =
     (if length cs \<le> 16 \<and> list_all (transportCandidateSchema env) cs then Some (sort_key transport_rank cs) else None)"

fun usable_transport :: "bool \<Rightarrow> transport_candidate \<Rightarrow> bool" where
  "usable_transport encryptedRelay (SshTransport _ configured) = configured"
| "usable_transport encryptedRelay (RelayTransport _) = encryptedRelay"
| "usable_transport encryptedRelay _ = True"

definition usableTransports :: "fleet_env \<Rightarrow> transport_candidate list \<Rightarrow> bool \<Rightarrow> transport_candidate list option" where
  "usableTransports env cs encryptedRelay = map_option (filter (usable_transport encryptedRelay)) (orderedTransports env cs)"

section \<open>Protocol versions\<close>

definition digit_unit :: "char \<Rightarrow> bool" where
  "digit_unit c \<longleftrightarrow> c \<in> set ''0123456789''"

definition canonical_number :: "string \<Rightarrow> bool" where
  "canonical_number s \<longleftrightarrow> s \<noteq> [] \<and> list_all digit_unit s \<and> (hd s = CHR ''0'' \<longrightarrow> length s = 1)"

fun split_dots :: "string \<Rightarrow> string list" where
  "split_dots [] = [[]]"
| "split_dots (c # s) =
     (if c = CHR ''.'' then [] # split_dots s else (c # hd (split_dots s)) # tl (split_dots s))"

definition protocolVersionSchema :: "string \<Rightarrow> bool" where
  "protocolVersionSchema v \<longleftrightarrow> length v \<le> 64 \<and> length (split_dots v) = 3 \<and> list_all canonical_number (split_dots v)"

definition read_number :: "string \<Rightarrow> nat" where
  "read_number = foldl (\<lambda>n c. 10 * n + (of_char c - 48)) 0"

definition protocolVersion :: string where "protocolVersion = ''0.8.0''"

definition readVersion :: "string \<Rightarrow> (nat \<times> nat) option" where
  "readVersion v =
     (if protocolVersionSchema v then Some (read_number (split_dots v ! 0), read_number (split_dots v ! 1)) else None)"

datatype protocol_compatibility = Compatible | MachineBehind | MachineAhead

definition compare_versions :: "nat \<times> nat \<Rightarrow> nat \<times> nat \<Rightarrow> protocol_compatibility" where
  "compare_versions machine client =
     (if fst machine = fst client \<and> snd machine = snd client then Compatible
      else if fst machine \<noteq> fst client then (if fst machine > fst client then MachineAhead else MachineBehind)
      else if snd machine > snd client then MachineAhead else MachineBehind)"

definition protocolCompatibility :: "string \<Rightarrow> string \<Rightarrow> protocol_compatibility option" where
  "protocolCompatibility machineVersion clientVersion =
     (case (readVersion machineVersion, readVersion clientVersion) of
        (Some m, Some c) \<Rightarrow> Some (compare_versions m c)
      | _ \<Rightarrow> None)"

section \<open>The facts of a machine\<close>

datatype machine_capability = Sessions | Terminals | Previews | Worktrees | Skills

datatype fleet_connection = LocalConnection | LanConnection | TailnetConnection | SshConnection | RelayConnection | WslConnection
  | DirectConnection

fun connection_text :: "fleet_connection \<Rightarrow> js_string" where
  "connection_text LocalConnection = js ''local''"
| "connection_text LanConnection = js ''lan''"
| "connection_text TailnetConnection = js ''tailnet''"
| "connection_text SshConnection = js ''ssh''"
| "connection_text RelayConnection = js ''relay''"
| "connection_text WslConnection = js ''wsl''"
| "connection_text DirectConnection = js ''direct''"

definition all_connections :: "fleet_connection list" where
  "all_connections = [LocalConnection, LanConnection, TailnetConnection, SshConnection, RelayConnection, WslConnection, DirectConnection]"

record wsl_facts =
  wf_distribution :: js_string
  wf_version :: nat

record verified_route =
  vr_endpoint :: js_string
  vr_lastAuthenticatedAt :: string

record fleet_facts =
  ff_id :: string
  ff_label :: js_string
  ff_platform :: js_string
  ff_arch :: js_string
  ff_version :: js_string
  ff_capabilities :: "machine_capability list"
  ff_protocolVersion :: string
  ff_transports :: "transport_candidate list"
  ff_wsl :: "wsl_facts option"
  ff_connection :: fleet_connection
  ff_verifiedRoute :: "verified_route option"

definition machineWslFactsSchema :: "wsl_facts \<Rightarrow> wsl_facts option" where
  "machineWslFactsSchema w =
     (case trimmed_text 128 (wf_distribution w) of
        Some d \<Rightarrow> if wf_version w \<in> {1, 2} then Some (w\<lparr>wf_distribution := d\<rparr>) else None
      | None \<Rightarrow> None)"

definition fleetVerifiedRouteSchema :: "fleet_env \<Rightarrow> verified_route \<Rightarrow> bool" where
  "fleetVerifiedRouteSchema env r \<longleftrightarrow> directTransportEndpointSchema env (vr_endpoint r) \<and> fe_date env (vr_lastAuthenticatedAt r)"

text \<open>An optional field: absent, or its schema's value.\<close>

definition optional :: "('a \<Rightarrow> 'b option) \<Rightarrow> 'a option \<Rightarrow> 'b option option" where
  "optional schema v = (case v of None \<Rightarrow> Some None | Some x \<Rightarrow> map_option Some (schema x))"

definition refineDescriptor :: "fleet_facts \<Rightarrow> bool" where
  "refineDescriptor f \<longleftrightarrow> distinct (ff_capabilities f) \<and> (ff_wsl f = None \<or> ff_platform f = js ''linux'')"

definition refineObservedFacts :: "fleet_facts \<Rightarrow> bool" where
  "refineObservedFacts f \<longleftrightarrow> refineDescriptor f \<and> (ff_connection f = DirectConnection \<longrightarrow> ff_verifiedRoute f \<noteq> None)"

definition fleetMachineFactsObject :: "fleet_env \<Rightarrow> fleet_facts \<Rightarrow> fleet_facts option" where
  "fleetMachineFactsObject env f =
     (case (trimmed_text 128 (ff_label f), trimmed_text 64 (ff_platform f), trimmed_text 64 (ff_arch f),
            trimmed_text 64 (ff_version f), optional machineWslFactsSchema (ff_wsl f)) of
        (Some label, Some platform, Some arch, Some version, Some wsl) \<Rightarrow>
          if machineIdSchema (ff_id f) \<and> length (ff_capabilities f) \<le> 16 \<and> protocolVersionSchema (ff_protocolVersion f)
             \<and> length (ff_transports f) \<le> 8 \<and> list_all (transportCandidateSchema env) (ff_transports f)
             \<and> pred_option (fleetVerifiedRouteSchema env) (ff_verifiedRoute f)
          then Some (f\<lparr>ff_label := label, ff_platform := platform, ff_arch := arch, ff_version := version, ff_wsl := wsl\<rparr>)
          else None
      | _ \<Rightarrow> None)"

definition fleetMachineFactsSchema :: "fleet_env \<Rightarrow> fleet_facts \<Rightarrow> fleet_facts option" where
  "fleetMachineFactsSchema env f =
     Option.bind (fleetMachineFactsObject env f) (\<lambda>g. if refineObservedFacts g then Some g else None)"

section \<open>Health\<close>

datatype heartbeat_state = Online | Stale | Offline

definition machineHeartbeatState :: "int \<Rightarrow> int \<Rightarrow> heartbeat_state" where
  "machineHeartbeatState lastSeenMs nowMs =
     (let silence = nowMs - lastSeenMs in
      if silence > offlineHeartbeatMs then Offline else if silence > staleHeartbeatMs then Stale else Online)"

datatype fleet_health = Healthy | ReconnectingHealth | Degraded | Unreachable | VersionMismatch | UpgradeRequired | PairingRequired
  | CredentialStoreUnavailable

fun health_text :: "fleet_health \<Rightarrow> js_string" where
  "health_text Healthy = js ''healthy''"
| "health_text ReconnectingHealth = js ''reconnecting''"
| "health_text Degraded = js ''degraded''"
| "health_text Unreachable = js ''unreachable''"
| "health_text VersionMismatch = js ''version-mismatch''"
| "health_text UpgradeRequired = js ''upgrade-required''"
| "health_text PairingRequired = js ''pairing-required''"
| "health_text CredentialStoreUnavailable = js ''credential-store-unavailable''"

text \<open>\<open>fleetHealthSchema.exclude(["healthy", "degraded"])\<close>\<close>

definition failure_healths :: "fleet_health list" where
  "failure_healths = [ReconnectingHealth, Unreachable, VersionMismatch, UpgradeRequired, PairingRequired, CredentialStoreUnavailable]"

definition fleetConnectionFailureSchema :: "js_string \<Rightarrow> fleet_health option" where
  "fleetConnectionFailureSchema s = find (\<lambda>h. health_text h = s) failure_healths"

datatype connection_state = Connected | Reconnecting | Disconnected

definition fleetMachineHealth :: "heartbeat_state \<Rightarrow> connection_state \<Rightarrow> string \<Rightarrow> string \<Rightarrow> fleet_health option" where
  "fleetMachineHealth heartbeat connection machineVersion clientVersion =
     map_option (\<lambda>compatibility.
       if compatibility = MachineBehind then UpgradeRequired
       else if compatibility = MachineAhead then VersionMismatch
       else if heartbeat = Offline then Unreachable
       else if connection = Reconnecting then ReconnectingHealth
       else if heartbeat = Stale then Degraded
       else Healthy) (protocolCompatibility machineVersion clientVersion)"

record fleet_machine =
  fm_facts :: fleet_facts
  fm_heartbeat :: heartbeat_state
  fm_lastSeenAt :: string
  fm_health :: fleet_health
  fm_self :: bool

definition fleetMachineSchema :: "fleet_env \<Rightarrow> fleet_machine \<Rightarrow> fleet_machine option" where
  "fleetMachineSchema env m =
     (case fleetMachineFactsSchema env (fm_facts m) of
        None \<Rightarrow> None
      | Some f \<Rightarrow>
          if fe_date env (fm_lastSeenAt m) \<and> \<not> (fm_self m \<and> ff_verifiedRoute f \<noteq> None) then Some (m\<lparr>fm_facts := f\<rparr>) else None)"

section \<open>Journaled operations\<close>

record claim_receipt =
  pc_deviceId :: string
  pc_machineId :: string
  pc_expiresAt :: string

definition pendingDeviceClaimSchema :: "fleet_env \<Rightarrow> claim_receipt \<Rightarrow> bool" where
  "pendingDeviceClaimSchema env c \<longleftrightarrow> deviceIdSchema (pc_deviceId c) \<and> machineIdSchema (pc_machineId c) \<and> fe_date env (pc_expiresAt c)"

datatype fleet_operation =
    EnrollOperation (op_id: string) (op_machine: string) (op_startedAt: string) (op_facts: fleet_facts) (op_digest: string)
      (op_claim: "claim_receipt option")
  | ForgetOperation (op_id: string) (op_machine: string) (op_startedAt: string) (op_held: "string option") (op_revoked: bool)

fun is_enroll :: "fleet_operation \<Rightarrow> bool" where
  "is_enroll (EnrollOperation _ _ _ _ _ _) = True"
| "is_enroll (ForgetOperation _ _ _ _ _) = False"

definition operation_fields :: "fleet_env \<Rightarrow> fleet_operation \<Rightarrow> bool" where
  "operation_fields env p \<longleftrightarrow> fe_is_uuid env (op_id p) \<and> machineIdSchema (op_machine p) \<and> fe_date env (op_startedAt p)"

fun fleetOperationSchema :: "fleet_env \<Rightarrow> fleet_operation \<Rightarrow> fleet_operation option" where
  "fleetOperationSchema env (EnrollOperation i m t f d c) =
     (case fleetMachineFactsSchema env f of
        None \<Rightarrow> None
      | Some g \<Rightarrow>
          if operation_fields env (EnrollOperation i m t f d c) \<and> ff_verifiedRoute g \<noteq> None \<and> sha256DigestSchema d
             \<and> pred_option (pendingDeviceClaimSchema env) c \<and> ff_id g = m
          then Some (EnrollOperation i m t g d c) else None)"
| "fleetOperationSchema env (ForgetOperation i m t h r) =
     (if operation_fields env (ForgetOperation i m t h r) \<and> pred_option sha256DigestSchema h
      then Some (ForgetOperation i m t h r) else None)"

section \<open>Snapshots\<close>

datatype fleet_entry =
    MachineEntry fleet_machine
  | PendingEntry string string bool string
  | UnenrolledEntry string

fun fleetEntryMachineId :: "fleet_entry \<Rightarrow> string" where
  "fleetEntryMachineId (MachineEntry m) = ff_id (fm_facts m)"
| "fleetEntryMachineId (PendingEntry _ machine _ _) = machine"
| "fleetEntryMachineId (UnenrolledEntry machine) = machine"

fun fleetEntrySchema :: "fleet_env \<Rightarrow> fleet_entry \<Rightarrow> fleet_entry option" where
  "fleetEntrySchema env (MachineEntry m) = map_option MachineEntry (fleetMachineSchema env m)"
| "fleetEntrySchema env (PendingEntry i m enroll t) =
     (if fe_is_uuid env i \<and> machineIdSchema m \<and> fe_date env t then Some (PendingEntry i m enroll t) else None)"
| "fleetEntrySchema env (UnenrolledEntry m) = (if machineIdSchema m then Some (UnenrolledEntry m) else None)"

text \<open>An explicit projection: the digest and the facts of an operation never reach a client.\<close>

definition fleetOperationSummary :: "fleet_env \<Rightarrow> fleet_operation \<Rightarrow> fleet_entry option" where
  "fleetOperationSummary env p = fleetEntrySchema env (PendingEntry (op_id p) (op_machine p) (is_enroll p) (op_startedAt p))"

datatype quarantine_reason = InvalidJson | InvalidFacts

text \<open>Only a valid machine identity can be forgotten and enrolled again; any other row is repaired offline.\<close>

record quarantined_entry =
  qn_id :: string
  qn_machineId :: "string option"
  qn_reason :: quarantine_reason
  qn_detectedAt :: string
  qn_recoverable :: bool

definition fleetQuarantinedEntrySchema :: "fleet_env \<Rightarrow> quarantined_entry \<Rightarrow> bool" where
  "fleetQuarantinedEntrySchema env q \<longleftrightarrow> fe_is_uuid env (qn_id q) \<and> pred_option machineIdSchema (qn_machineId q)
     \<and> fe_date env (qn_detectedAt q) \<and> ((qn_machineId q \<noteq> None) = qn_recoverable q)"

record fleet_snapshot =
  fs_entries :: "fleet_entry list"
  fs_quarantined :: "quarantined_entry list option"

fun is_machine_entry :: "fleet_entry \<Rightarrow> bool" where
  "is_machine_entry (MachineEntry m) = True"
| "is_machine_entry _ = False"

fun is_self_entry :: "fleet_entry \<Rightarrow> bool" where
  "is_self_entry (MachineEntry m) = fm_self m"
| "is_self_entry _ = False"

definition quarantined_of :: "fleet_snapshot \<Rightarrow> quarantined_entry list" where
  "quarantined_of s = (case fs_quarantined s of None \<Rightarrow> [] | Some qs \<Rightarrow> qs)"

definition snapshot_refinement :: "fleet_snapshot \<Rightarrow> bool" where
  "snapshot_refinement s \<longleftrightarrow>
     length (filter is_machine_entry (fs_entries s)) \<le> maximumFleetMachines
     \<and> distinct (map fleetEntryMachineId (fs_entries s) @ List.map_filter qn_machineId (quarantined_of s))
     \<and> length (filter is_self_entry (fs_entries s)) \<le> 1
     \<and> length (fs_entries s) + length (quarantined_of s) \<le> maximumFleetEntries
     \<and> distinct (map qn_id (quarantined_of s))"

definition fleetSnapshotSchema :: "fleet_env \<Rightarrow> fleet_snapshot \<Rightarrow> fleet_snapshot option" where
  "fleetSnapshotSchema env s =
     (case all_some (map (fleetEntrySchema env) (fs_entries s)) of
        None \<Rightarrow> None
      | Some entries \<Rightarrow>
          let parsed = s\<lparr>fs_entries := entries\<rparr> in
          if length entries \<le> maximumFleetEntries
             \<and> pred_option (\<lambda>qs. 1 \<le> length qs \<and> length qs \<le> maximumFleetEntries \<and> list_all (fleetQuarantinedEntrySchema env) qs)
                 (fs_quarantined s)
             \<and> snapshot_refinement parsed
          then Some parsed else None)"

end
