(* ===== verification/Fleet_Registry.thy ===== *)
theory Fleet_Registry
  imports Fleet_Schema
begin

text \<open>
  The fleet registry (apps/daemon/src/fleet-registry.ts): the SQLite tables of machines and of
  unfinished operations, and every method of \<open>SqliteFleetRegistry\<close> as a step on them.

  A JSON column holds what its text parses to: no JSON, a value of another shape, or the value;
  \<open>JSON.stringify\<close> writes the value. Random UUIDs are drawn by number; a rollback does not give them
  back. \<open>Date.now()\<close> is an argument, \<open>clock\<close>. \<open>fw_lastSeen\<close> is \<open>None\<close> for a number that is no integer.
  Of the audit log a quarantine writes to, the target, the reason and the time of an entry are kept;
  whether an append persists is up to the log, \<open>fe_audit\<close>, for each entry by the number of the UUID
  it is about. The schema migration and a text column that holds something else than text are not
  modelled.
\<close>

section \<open>Tables\<close>

datatype 'a column = BadJson | BadShape | Held 'a

record fleet_row =
  fw_id :: string
  fw_label :: js_string
  fw_platform :: js_string
  fw_arch :: js_string
  fw_version :: js_string
  fw_connection :: js_string
  fw_capabilities :: "machine_capability list column"
  fw_protocol :: string
  fw_transports :: "transport_candidate list column"
  fw_lastSeen :: "int option"
  fw_route :: "verified_route column option"
  fw_credential :: "string option"
  fw_health :: "js_string option"
  fw_wsl :: "wsl_facts column option"
  fw_quarantineId :: "string option"
  fw_quarantinedAt :: "string option"
  fw_quarantineReason :: "js_string option"

record operation_row =
  or_id :: string
  or_machine :: string
  or_payload :: "fleet_operation column"

record quarantine_audit =
  qa_target :: string
  qa_reason :: quarantine_reason
  qa_occurredAt :: string

record fleet_db =
  fd_machines :: "fleet_row list"
  fd_operations :: "operation_row list"
  fd_audit :: "quarantine_audit list"
  fd_uuids :: nat

datatype fleet_error = FleetLimitReached | FleetOperationInProgress | FleetSnapshotOverflow nat | FleetThrown

type_synonym 'a fleet_action = "fleet_db \<Rightarrow> fleet_db \<times> (fleet_error + 'a)"

definition new_fleet :: fleet_db where
  "new_fleet = \<lparr>fd_machines = [], fd_operations = [], fd_audit = [], fd_uuids = 0\<rparr>"

section \<open>Composing steps\<close>

definition fa_bind :: "'a fleet_action \<Rightarrow> ('a \<Rightarrow> 'b fleet_action) \<Rightarrow> 'b fleet_action" where
  "fa_bind f g st = (case f st of (st1, Inl e) \<Rightarrow> (st1, Inl e) | (st1, Inr a) \<Rightarrow> g a st1)"

definition fa_return :: "'a \<Rightarrow> 'a fleet_action" where
  "fa_return a st = (st, Inr a)"

definition fa_throw :: "fleet_error \<Rightarrow> 'a fleet_action" where
  "fa_throw e st = (st, Inl e)"

definition fa_get :: "(fleet_db \<Rightarrow> fleet_error + 'a) \<Rightarrow> 'a fleet_action" where
  "fa_get f st = (st, f st)"

definition fa_put :: "(fleet_db \<Rightarrow> fleet_db) \<Rightarrow> unit fleet_action" where
  "fa_put f st = (f st, Inr ())"

text \<open>What is not a value throws.\<close>

definition fa_parse :: "'a option \<Rightarrow> 'a fleet_action" where
  "fa_parse v = (case v of None \<Rightarrow> fa_throw FleetThrown | Some a \<Rightarrow> fa_return a)"

definition fa_require :: "bool \<Rightarrow> fleet_error \<Rightarrow> unit fleet_action" where
  "fa_require b e = (if b then fa_return () else fa_throw e)"

text \<open>\<open>BEGIN IMMEDIATE\<close>, then \<open>COMMIT\<close> or \<open>ROLLBACK\<close>; a nested transaction is the plain call.\<close>

definition fleet_transaction :: "'a fleet_action \<Rightarrow> 'a fleet_action" where
  "fleet_transaction f st =
     (case f st of
        (st1, Inl e) \<Rightarrow> (st\<lparr>fd_uuids := fd_uuids st1\<rparr>, Inl e)
      | (st1, Inr a) \<Rightarrow> (st1, Inr a))"

definition randomUUID :: "fleet_env \<Rightarrow> string fleet_action" where
  "randomUUID env st = (st\<lparr>fd_uuids := Suc (fd_uuids st)\<rparr>, Inr (fe_uuid env (fd_uuids st)))"

text \<open>\<open>new Date(ms).toISOString()\<close> throws outside the range of dates.\<close>

definition date_range :: "int \<Rightarrow> bool" where
  "date_range ms \<longleftrightarrow> \<bar>ms\<bar> \<le> 8640000000000000"

definition safe_integer :: "int \<Rightarrow> bool" where
  "safe_integer n \<longleftrightarrow> \<bar>n\<bar> \<le> 9007199254740991"

definition iso_date :: "fleet_env \<Rightarrow> int \<Rightarrow> string option" where
  "iso_date env ms = (if date_range ms then Some (fe_iso env ms) else None)"

fun insort_by :: "('a \<Rightarrow> 'a \<Rightarrow> bool) \<Rightarrow> 'a \<Rightarrow> 'a list \<Rightarrow> 'a list" where
  "insort_by le x [] = [x]"
| "insort_by le x (y # ys) = (if le x y then x # y # ys else y # insort_by le x ys)"

definition sort_by :: "('a \<Rightarrow> 'a \<Rightarrow> bool) \<Rightarrow> 'a list \<Rightarrow> 'a list" where
  "sort_by le xs = foldr (insort_by le) xs []"

section \<open>Facts on their way in\<close>

definition bounded_redaction :: "fleet_env \<Rightarrow> nat \<Rightarrow> js_string \<Rightarrow> js_string" where
  "bounded_redaction env n s = take n (fst (fe_redact env s))"

definition fact_endpoints :: "fleet_facts \<Rightarrow> js_string list" where
  "fact_endpoints f = map tc_endpoint (ff_transports f) @ (case ff_verifiedRoute f of None \<Rightarrow> [] | Some r \<Rightarrow> [vr_endpoint r])"

definition durableFacts :: "fleet_env \<Rightarrow> fleet_facts \<Rightarrow> fleet_facts option" where
  "durableFacts env facts =
     Option.bind (fleetMachineFactsSchema env facts) (\<lambda>f.
       if list_ex (\<lambda>e. snd (fe_redact env e)) (fact_endpoints f) then None
       else fleetMachineFactsSchema env (f\<lparr>
         ff_label := bounded_redaction env 128 (ff_label f),
         ff_platform := bounded_redaction env 64 (ff_platform f),
         ff_arch := bounded_redaction env 64 (ff_arch f),
         ff_version := bounded_redaction env 64 (ff_version f),
         ff_wsl := map_option (\<lambda>w. w\<lparr>wf_distribution := bounded_redaction env 128 (wf_distribution w)\<rparr>) (ff_wsl f)\<rparr>))"

definition new_row :: "fleet_facts \<Rightarrow> int \<Rightarrow> string option \<Rightarrow> fleet_row" where
  "new_row f nowMs digest =
     \<lparr>fw_id = ff_id f, fw_label = ff_label f, fw_platform = ff_platform f, fw_arch = ff_arch f, fw_version = ff_version f,
      fw_connection = connection_text (ff_connection f), fw_capabilities = Held (ff_capabilities f),
      fw_protocol = ff_protocolVersion f, fw_transports = Held (ff_transports f), fw_lastSeen = Some nowMs,
      fw_route = map_option Held (ff_verifiedRoute f), fw_credential = digest, fw_health = None,
      fw_wsl = map_option Held (ff_wsl f), fw_quarantineId = None, fw_quarantinedAt = None, fw_quarantineReason = None\<rparr>"

fun upsert :: "fleet_row \<Rightarrow> fleet_row list \<Rightarrow> fleet_row list" where
  "upsert r [] = [r]"
| "upsert r (q # qs) = (if fw_id q = fw_id r then r # qs else q # upsert r qs)"

definition writeMachine :: "fleet_facts \<Rightarrow> int \<Rightarrow> string option \<Rightarrow> unit fleet_action" where
  "writeMachine f nowMs digest = fa_put (\<lambda>st. st\<lparr>fd_machines := upsert (new_row f nowMs digest) (fd_machines st)\<rparr>)"

section \<open>Rows on their way out\<close>

fun no_json :: "'a column \<Rightarrow> bool" where
  "no_json BadJson = True"
| "no_json _ = False"

fun held_value :: "'a column \<Rightarrow> 'a option" where
  "held_value (Held a) = Some a"
| "held_value _ = None"

definition row_facts :: "fleet_row \<Rightarrow> fleet_facts option" where
  "row_facts r =
     (case (held_value (fw_capabilities r), held_value (fw_transports r), optional held_value (fw_route r), optional held_value (fw_wsl r),
            find (\<lambda>c. connection_text c = fw_connection r) all_connections) of
        (Some capabilities, Some transports, Some route, Some wsl, Some connection) \<Rightarrow>
          Some \<lparr>ff_id = fw_id r, ff_label = fw_label r, ff_platform = fw_platform r, ff_arch = fw_arch r, ff_version = fw_version r,
            ff_capabilities = capabilities, ff_protocolVersion = fw_protocol r, ff_transports = transports, ff_wsl = wsl,
            ff_connection = connection, ff_verifiedRoute = route\<rparr>
      | _ \<Rightarrow> None)"

text \<open>A syntax error in a column comes before every other fault of the facts.\<close>

definition parse_or :: "'a option \<Rightarrow> quarantine_reason + 'a" where
  "parse_or v = (case v of None \<Rightarrow> Inl InvalidFacts | Some a \<Rightarrow> Inr a)"

definition readFacts :: "fleet_env \<Rightarrow> fleet_row \<Rightarrow> quarantine_reason + fleet_facts" where
  "readFacts env r =
     (if no_json (fw_capabilities r) \<or> no_json (fw_transports r) \<or> fw_route r = Some BadJson \<or> fw_wsl r = Some BadJson
      then Inl InvalidJson
      else parse_or (Option.bind (row_facts r) (fleetMachineFactsSchema env)))"

definition row_health :: "fleet_row \<Rightarrow> heartbeat_state \<Rightarrow> fleet_health option" where
  "row_health r heartbeat =
     (case fw_health r of
        None \<Rightarrow> fleetMachineHealth heartbeat (if heartbeat = Offline then Disconnected else Connected) (fw_protocol r) protocolVersion
      | Some h \<Rightarrow> fleetConnectionFailureSchema h)"

definition readMachine :: "fleet_env \<Rightarrow> fleet_row \<Rightarrow> string \<Rightarrow> int \<Rightarrow> quarantine_reason + fleet_machine" where
  "readMachine env r selfId nowMs =
     (case fw_lastSeen r of
        None \<Rightarrow> Inl InvalidFacts
      | Some seen \<Rightarrow>
          if \<not> safe_integer seen \<or> \<not> pred_option sha256DigestSchema (fw_credential r) then Inl InvalidFacts
          else
            let heartbeat = machineHeartbeatState seen nowMs in
            rbind (readFacts env r) (\<lambda>facts.
            rbind (parse_or (iso_date env seen)) (\<lambda>lastSeenAt.
            rbind (parse_or (row_health r heartbeat)) (\<lambda>health.
            parse_or (fleetMachineSchema env \<lparr>fm_facts = facts, fm_heartbeat = heartbeat, fm_lastSeenAt = lastSeenAt,
              fm_health = health, fm_self = (fw_id r = selfId)\<rparr>)))))"

fun reason_text :: "quarantine_reason \<Rightarrow> js_string" where
  "reason_text InvalidJson = js ''invalid-json''"
| "reason_text InvalidFacts = js ''invalid-facts''"

definition quarantinedEntry :: "fleet_env \<Rightarrow> fleet_row \<Rightarrow> quarantined_entry option" where
  "quarantinedEntry env r =
     (case (fw_quarantineId r, fw_quarantinedAt r,
            Option.bind (fw_quarantineReason r) (\<lambda>t. find (\<lambda>q. reason_text q = t) [InvalidJson, InvalidFacts])) of
        (Some i, Some t, Some reason) \<Rightarrow>
          let entry = \<lparr>qn_id = i, qn_machineId = (if machineIdSchema (fw_id r) then Some (fw_id r) else None),
                       qn_reason = reason, qn_detectedAt = t, qn_recoverable = machineIdSchema (fw_id r)\<rparr>
          in if fleetQuarantinedEntrySchema env entry then Some entry else None
      | _ \<Rightarrow> None)"

section \<open>Quarantine\<close>

definition marked :: "fleet_row \<Rightarrow> bool" where
  "marked r \<longleftrightarrow> fw_quarantineId r \<noteq> None \<or> fw_quarantinedAt r \<noteq> None \<or> fw_quarantineReason r \<noteq> None"

text \<open>What is wrong with a row, if anything.\<close>

definition row_fault :: "fleet_env \<Rightarrow> string \<Rightarrow> int \<Rightarrow> fleet_row \<Rightarrow> quarantine_reason option" where
  "row_fault env selfId nowMs r =
     (if marked r then (if quarantinedEntry env r = None then Some InvalidFacts else None)
      else (case readMachine env r selfId nowMs of Inl reason \<Rightarrow> Some reason | Inr _ \<Rightarrow> None))"

definition mark_row :: "string \<Rightarrow> string \<Rightarrow> quarantine_reason \<Rightarrow> fleet_row \<Rightarrow> fleet_row" where
  "mark_row i t reason r = r\<lparr>fw_quarantineId := Some i, fw_quarantinedAt := Some t, fw_quarantineReason := Some (reason_text reason)\<rparr>"

text \<open>
  \<open>this.#audit.append\<close>: an entry that cannot be persisted throws, and the transaction takes the mark
  back. The entry is about the UUID drawn last.
\<close>

definition append_audit :: "fleet_env \<Rightarrow> quarantine_audit \<Rightarrow> unit fleet_action" where
  "append_audit env entry =
     fa_bind (fa_get Inr) (\<lambda>st.
     fa_bind (fa_require (fe_audit env (fd_uuids st)) FleetThrown) (\<lambda>_.
     fa_put (\<lambda>st. st\<lparr>fd_audit := fd_audit st @ [entry]\<rparr>)))"

definition quarantine_row :: "fleet_env \<Rightarrow> int \<Rightarrow> fleet_row \<Rightarrow> quarantine_reason \<Rightarrow> unit fleet_action" where
  "quarantine_row env nowMs r reason =
     fa_bind (randomUUID env) (\<lambda>i.
     fa_bind (fa_parse (iso_date env nowMs)) (\<lambda>detectedAt.
     fa_bind (fa_put (\<lambda>st. st\<lparr>fd_machines := map (\<lambda>q. if fw_id q = fw_id r then mark_row i detectedAt reason q else q) (fd_machines st)\<rparr>)) (\<lambda>_.
     append_audit env \<lparr>qa_target = i, qa_reason = reason, qa_occurredAt = detectedAt\<rparr>)))"

fun scan_rows :: "fleet_env \<Rightarrow> string \<Rightarrow> int \<Rightarrow> fleet_row list \<Rightarrow> fleet_row list fleet_action" where
  "scan_rows env selfId nowMs [] = fa_return []"
| "scan_rows env selfId nowMs (r # rs) =
     (case row_fault env selfId nowMs r of
        Some reason \<Rightarrow> fa_bind (quarantine_row env nowMs r reason) (\<lambda>_. scan_rows env selfId nowMs rs)
      | None \<Rightarrow> fa_bind (scan_rows env selfId nowMs rs) (\<lambda>valid. fa_return (if marked r then valid else r # valid)))"

definition validRows :: "fleet_env \<Rightarrow> (fleet_db \<Rightarrow> fleet_row \<Rightarrow> bool) \<Rightarrow> string \<Rightarrow> int \<Rightarrow> fleet_row list fleet_action" where
  "validRows env predicate selfId nowMs st =
     scan_rows env selfId nowMs
       (sort_by (\<lambda>a b. fe_index_le env (fw_id a) (fw_id b)) (filter (predicate st) (fd_machines st))) st"

section \<open>Operations in the journal\<close>

definition read_operation :: "fleet_env \<Rightarrow> operation_row \<Rightarrow> fleet_operation option" where
  "read_operation env r = Option.bind (held_value (or_payload r)) (fleetOperationSchema env)"

definition pendingOperations :: "fleet_env \<Rightarrow> fleet_operation list fleet_action" where
  "pendingOperations env = fa_get (\<lambda>st.
     case all_some (map (read_operation env)
            (sort_by (\<lambda>a b. fe_index_le env (or_machine a) (or_machine b)) (fd_operations st))) of
       None \<Rightarrow> Inl FleetThrown
     | Some ps \<Rightarrow> Inr ps)"

definition operation_of :: "fleet_env \<Rightarrow> string \<Rightarrow> fleet_operation option fleet_action" where
  "operation_of env i = fa_get (\<lambda>st.
     case find (\<lambda>r. or_id r = i) (fd_operations st) of
       None \<Rightarrow> Inr None
     | Some r \<Rightarrow> (case read_operation env r of None \<Rightarrow> Inl FleetThrown | Some p \<Rightarrow> Inr (Some p)))"

definition deleteOperation :: "string \<Rightarrow> unit fleet_action" where
  "deleteOperation i = fa_put (\<lambda>st. st\<lparr>fd_operations := filter (\<lambda>r. or_id r \<noteq> i) (fd_operations st)\<rparr>)"

definition has_operation :: "fleet_db \<Rightarrow> string \<Rightarrow> bool" where
  "has_operation st machine \<longleftrightarrow> list_ex (\<lambda>r. or_machine r = machine) (fd_operations st)"

definition requireSpace :: "fleet_env \<Rightarrow> int \<Rightarrow> string \<Rightarrow> unit fleet_action" where
  "requireSpace env clock machine =
     fa_bind (pendingOperations env) (\<lambda>operations.
     fa_bind (validRows env (\<lambda>_ _. True) [] clock) (\<lambda>rows.
       let forgetting = map op_machine (filter (\<lambda>p. \<not> is_enroll p) operations);
           admitted = remdups (map fw_id (filter (\<lambda>r. fw_id r \<notin> set forgetting) rows) @ map op_machine (filter is_enroll operations))
       in fa_require (machine \<in> set admitted \<or> length admitted < maximumFleetMachines) FleetLimitReached))"

definition stage_operation :: "fleet_env \<Rightarrow> int \<Rightarrow> fleet_operation \<Rightarrow> unit fleet_action" where
  "stage_operation env clock p = fleet_transaction (
     fa_bind (fa_get Inr) (\<lambda>st.
     fa_bind (fa_require (\<not> has_operation st (op_machine p)) FleetOperationInProgress) (\<lambda>_.
     fa_bind (if is_enroll p then requireSpace env clock (op_machine p) else fa_return ()) (\<lambda>_.
     fa_bind (fa_require (op_id p \<notin> set (map or_id (fd_operations st))) FleetThrown) (\<lambda>_.
     fa_put (\<lambda>st. st\<lparr>fd_operations := fd_operations st @ [\<lparr>or_id = op_id p, or_machine = op_machine p, or_payload = Held p\<rparr>]\<rparr>))))))"

section \<open>The methods\<close>

definition record_machine :: "fleet_env \<Rightarrow> fleet_facts \<Rightarrow> int \<Rightarrow> int \<Rightarrow> unit fleet_action" where
  "record_machine env facts nowMs clock =
     fa_bind (fa_parse (durableFacts env facts)) (\<lambda>machine.
     fleet_transaction (
       fa_bind (requireSpace env clock (ff_id machine)) (\<lambda>_.
       writeMachine machine nowMs None)))"

definition stageEnrollment :: "fleet_env \<Rightarrow> fleet_facts \<Rightarrow> string \<Rightarrow> int \<Rightarrow> claim_receipt option \<Rightarrow> int \<Rightarrow> fleet_operation fleet_action" where
  "stageEnrollment env facts digest nowMs claim clock =
     fa_bind (randomUUID env) (\<lambda>i.
     fa_bind (fa_parse (iso_date env nowMs)) (\<lambda>startedAt.
     fa_bind (fa_parse (durableFacts env facts)) (\<lambda>durable.
     fa_bind (fa_parse (fleetOperationSchema env (EnrollOperation i (ff_id facts) startedAt durable digest claim))) (\<lambda>pending.
     fa_bind (stage_operation env clock pending) (\<lambda>_.
     fa_return pending)))))"

definition stageForget :: "fleet_env \<Rightarrow> string \<Rightarrow> string option \<Rightarrow> int \<Rightarrow> fleet_operation fleet_action" where
  "stageForget env machine digest nowMs =
     fa_bind (randomUUID env) (\<lambda>i.
     fa_bind (fa_parse (iso_date env nowMs)) (\<lambda>startedAt.
     fa_bind (fa_parse (fleetOperationSchema env (ForgetOperation i machine startedAt digest False))) (\<lambda>pending.
     fa_bind (stage_operation env 0 pending) (\<lambda>_.
     fa_return pending))))"

text \<open>A route that was authenticated at a time that is not a date leaves no value for \<open>last_seen_ms\<close>.\<close>

definition authenticated_at :: "fleet_env \<Rightarrow> fleet_facts \<Rightarrow> int option" where
  "authenticated_at env f = Option.bind (ff_verifiedRoute f) (\<lambda>r. fe_date_parse env (vr_lastAuthenticatedAt r))"

definition completeEnrollment :: "fleet_env \<Rightarrow> string \<Rightarrow> string \<Rightarrow> bool fleet_action" where
  "completeEnrollment env i digest = fleet_transaction (
     fa_bind (operation_of env i) (\<lambda>pending.
       case pending of
         Some (EnrollOperation _ _ _ facts staged _) \<Rightarrow>
           if staged \<noteq> digest then fa_return False
           else
             fa_bind (fa_parse (authenticated_at env facts)) (\<lambda>seen.
             fa_bind (writeMachine facts seen (Some staged)) (\<lambda>_.
             fa_bind (deleteOperation i) (\<lambda>_.
             fa_return True)))
       | _ \<Rightarrow> fa_return False))"

definition set_health :: "(fleet_row \<Rightarrow> bool) \<Rightarrow> js_string \<Rightarrow> unit fleet_action" where
  "set_health P health = fa_put (\<lambda>st. st\<lparr>fd_machines := map (\<lambda>r. if P r then r\<lparr>fw_health := Some health\<rparr> else r) (fd_machines st)\<rparr>)"

definition abortEnrollment :: "fleet_env \<Rightarrow> string \<Rightarrow> bool fleet_action" where
  "abortEnrollment env i = fleet_transaction (
     fa_bind (operation_of env i) (\<lambda>pending.
       case pending of
         Some (EnrollOperation _ machine _ _ _ _) \<Rightarrow>
           fa_bind (set_health (\<lambda>r. fw_id r = machine) (health_text PairingRequired)) (\<lambda>_.
           fa_bind (deleteOperation i) (\<lambda>_.
           fa_return True))
       | _ \<Rightarrow> fa_return False))"

definition confirmRemoteRevocation :: "fleet_env \<Rightarrow> string \<Rightarrow> bool fleet_action" where
  "confirmRemoteRevocation env i = fleet_transaction (
     fa_bind (operation_of env i) (\<lambda>pending.
       case pending of
         Some (ForgetOperation j machine t digest _) \<Rightarrow>
           fa_bind (fa_put (\<lambda>st. st\<lparr>fd_operations :=
             map (\<lambda>r. if or_id r = i then r\<lparr>or_payload := Held (ForgetOperation j machine t digest True)\<rparr> else r) (fd_operations st)\<rparr>)) (\<lambda>_.
           fa_return True)
       | _ \<Rightarrow> fa_return False))"

record enrolled_machine =
  em_facts :: fleet_facts
  em_digest :: string

text \<open>The facts of a row that has just been read once, and its digest.\<close>

definition enrolled_of :: "fleet_env \<Rightarrow> fleet_row \<Rightarrow> enrolled_machine option" where
  "enrolled_of env r =
     (case (readFacts env r, fw_credential r) of
        (Inr f, Some d) \<Rightarrow> if sha256DigestSchema d then Some \<lparr>em_facts = f, em_digest = d\<rparr> else None
      | _ \<Rightarrow> None)"

definition pendingForgetEnrollment :: "fleet_env \<Rightarrow> string \<Rightarrow> int \<Rightarrow> enrolled_machine option fleet_action" where
  "pendingForgetEnrollment env i clock =
     fa_bind (operation_of env i) (\<lambda>operation.
       case operation of
         Some (ForgetOperation _ machine _ (Some digest) _) \<Rightarrow>
           fa_bind (fleet_transaction (validRows env (\<lambda>_ r. fw_id r = machine \<and> fw_credential r = Some digest) [] clock)) (\<lambda>rows.
             case rows of
               [] \<Rightarrow> fa_return None
             | r # _ \<Rightarrow> fa_parse (case readFacts env r of Inr f \<Rightarrow> Some (Some \<lparr>em_facts = f, em_digest = digest\<rparr>) | Inl _ \<Rightarrow> None))
       | _ \<Rightarrow> fa_return None)"

definition completeForget :: "fleet_env \<Rightarrow> string \<Rightarrow> bool fleet_action" where
  "completeForget env i = fleet_transaction (
     fa_bind (operation_of env i) (\<lambda>pending.
       case pending of
         Some (ForgetOperation _ machine _ _ _) \<Rightarrow>
           fa_bind (fa_put (\<lambda>st. st\<lparr>fd_machines := filter (\<lambda>r. fw_id r \<noteq> machine) (fd_machines st)\<rparr>)) (\<lambda>_.
           fa_bind (deleteOperation i) (\<lambda>_.
           fa_return True))
       | _ \<Rightarrow> fa_return False))"

text \<open>The row an authenticated contact may write: enrolled with this digest, not quarantined, nothing under way.\<close>

definition current_row :: "fleet_db \<Rightarrow> string \<Rightarrow> string \<Rightarrow> fleet_row \<Rightarrow> bool" where
  "current_row st machine digest r \<longleftrightarrow>
     fw_id r = machine \<and> fw_credential r = Some digest \<and> \<not> marked r \<and> \<not> has_operation st machine"

definition refreshAuthenticated :: "fleet_env \<Rightarrow> fleet_facts \<Rightarrow> string \<Rightarrow> int \<Rightarrow> bool fleet_action" where
  "refreshAuthenticated env facts digest nowMs =
     fa_bind (fa_parse (durableFacts env facts)) (\<lambda>machine.
     fleet_transaction (
       fa_bind (fa_get Inr) (\<lambda>st.
         if list_ex (current_row st (ff_id machine) digest) (fd_machines st)
         then fa_bind (writeMachine machine nowMs (Some digest)) (\<lambda>_. fa_return True)
         else fa_return False)))"

definition recordFailure :: "fleet_env \<Rightarrow> string \<Rightarrow> string \<Rightarrow> js_string \<Rightarrow> bool fleet_action" where
  "recordFailure env machine digest failure =
     fa_bind (fa_parse (fleetConnectionFailureSchema failure)) (\<lambda>health.
     fa_bind (fa_get Inr) (\<lambda>st.
     fa_bind (set_health (current_row st machine digest) (health_text health)) (\<lambda>_.
     fa_return (list_ex (current_row st machine digest) (fd_machines st)))))"

definition lookupMachine :: "fleet_env \<Rightarrow> string \<Rightarrow> string \<Rightarrow> int \<Rightarrow> fleet_machine option fleet_action" where
  "lookupMachine env machine selfId nowMs =
     fa_bind (fleet_transaction (validRows env (\<lambda>st r. fw_id r = machine \<and> \<not> has_operation st (fw_id r)) selfId nowMs)) (\<lambda>rows.
       case rows of
         [] \<Rightarrow> fa_return None
       | r # _ \<Rightarrow> fa_parse (case readMachine env r selfId nowMs of Inr m \<Rightarrow> Some (Some m) | Inl _ \<Rightarrow> None))"

definition enrolled :: "fleet_env \<Rightarrow> int \<Rightarrow> enrolled_machine list fleet_action" where
  "enrolled env clock =
     fa_bind (fleet_transaction (validRows env (\<lambda>st r. fw_credential r \<noteq> None \<and> \<not> has_operation st (fw_id r)) [] clock)) (\<lambda>rows.
     fa_parse (all_some (map (enrolled_of env) rows)))"

section \<open>The snapshot\<close>

fun put_machines :: "fleet_env \<Rightarrow> string \<Rightarrow> int \<Rightarrow> fleet_row list \<Rightarrow> (string, fleet_entry) jsmap \<Rightarrow> (string, fleet_entry) jsmap option" where
  "put_machines env selfId nowMs [] entries = Some entries"
| "put_machines env selfId nowMs (r # rs) entries =
     (case readMachine env r selfId nowMs of
        Inl _ \<Rightarrow> None
      | Inr m \<Rightarrow> put_machines env selfId nowMs rs (jm_set (fw_id r) (MachineEntry m) entries))"

fun put_pending :: "fleet_env \<Rightarrow> fleet_operation list \<Rightarrow> (string, fleet_entry) jsmap \<Rightarrow> (string, fleet_entry) jsmap option" where
  "put_pending env [] entries = Some entries"
| "put_pending env (p # ps) entries =
     (case fleetOperationSummary env p of
        None \<Rightarrow> None
      | Some entry \<Rightarrow> put_pending env ps (jm_set (op_machine p) entry entries))"

fun put_unenrolled :: "string list \<Rightarrow> string list \<Rightarrow> (string, fleet_entry) jsmap \<Rightarrow> (string, fleet_entry) jsmap option" where
  "put_unenrolled quarantinedIds [] entries = Some entries"
| "put_unenrolled quarantinedIds (i # is) entries =
     (if \<not> machineIdSchema i then None
      else put_unenrolled quarantinedIds is
        (if map_of entries i = None \<and> i \<notin> set quarantinedIds then jm_set i (UnenrolledEntry i) entries else entries))"

definition quarantined_entries :: "fleet_env \<Rightarrow> fleet_db \<Rightarrow> (string, fleet_entry) jsmap \<Rightarrow> quarantined_entry list option" where
  "quarantined_entries env st entries =
     map_option (filter (\<lambda>q. case qn_machineId q of None \<Rightarrow> True | Some m \<Rightarrow> map_of entries m = None))
       (all_some (map (quarantinedEntry env)
         (sort_by (\<lambda>a b. fe_index_le env (the (fw_quarantineId a)) (the (fw_quarantineId b)))
           (filter (\<lambda>r. fw_quarantineId r \<noteq> None) (fd_machines st)))))"

definition self_first :: "fleet_env \<Rightarrow> string \<Rightarrow> string \<times> fleet_entry \<Rightarrow> string \<times> fleet_entry \<Rightarrow> bool" where
  "self_first env selfId a b \<longleftrightarrow> fst a = selfId \<or> fst b \<noteq> selfId \<and> fe_locale_le env (fst a) (fst b)"

definition snapshot :: "fleet_env \<Rightarrow> string \<Rightarrow> int \<Rightarrow> string list \<Rightarrow> fleet_snapshot fleet_action" where
  "snapshot env selfId nowMs credentialMachineIds = fleet_transaction (
     fa_bind (validRows env (\<lambda>_ _. True) selfId nowMs) (\<lambda>rows.
     fa_bind (fa_parse (put_machines env selfId nowMs rows [])) (\<lambda>machines.
     fa_bind (pendingOperations env) (\<lambda>operations.
     fa_bind (fa_parse (put_pending env operations machines)) (\<lambda>known.
     fa_bind (fa_get (\<lambda>st. Inr (quarantined_entries env st known))) (\<lambda>damaged.
     fa_bind (fa_parse damaged) (\<lambda>quarantined.
     fa_bind (fa_parse (put_unenrolled (List.map_filter qn_machineId quarantined) credentialMachineIds known)) (\<lambda>entries.
     fa_bind (fa_require (length entries + length quarantined \<le> maximumFleetEntries)
                (FleetSnapshotOverflow (length entries + length quarantined))) (\<lambda>_.
     fa_parse (fleetSnapshotSchema env \<lparr>fs_entries = map snd (sort_by (self_first env selfId) entries),
       fs_quarantined = (if quarantined = [] then None else Some quarantined)\<rparr>))))))))))"

end
