(* ===== verification/Fleet_Lifecycle.thy ===== *)
theory Fleet_Lifecycle
  imports Fleet_Registry "HOL-Library.Multiset"
begin

text \<open>
  What the fleet registry keeps over any sequence of calls, failing ones and rows damaged on disk
  included: one row and one operation per machine, no more admitted machines than the limit, and
  quarantine marks that can be read; and what follows for a machine that is forgotten or damaged.
\<close>

section \<open>Actions\<close>

named_theorems fleet_run

lemma fa_bind_Inr [fleet_run]: "fa_bind f g st = (st', Inr b) \<longleftrightarrow> (\<exists>st1 a. f st = (st1, Inr a) \<and> g a st1 = (st', Inr b))"
  by (auto simp: fa_bind_def split: prod.splits sum.splits)

lemma fa_return_Inr [fleet_run]: "fa_return a st = (st', Inr b) \<longleftrightarrow> st' = st \<and> b = a"
  by (auto simp: fa_return_def)

lemma fa_throw_Inr [fleet_run]: "fa_throw e st = (st', Inr b) \<longleftrightarrow> False"
  by (simp add: fa_throw_def)

lemma fa_get_Inr [fleet_run]: "fa_get f st = (st', Inr b) \<longleftrightarrow> st' = st \<and> f st = Inr b"
  by (auto simp: fa_get_def)

lemma fa_put_Inr [fleet_run]: "fa_put f st = (st', Inr b) \<longleftrightarrow> st' = f st"
  by (auto simp: fa_put_def)

lemma fa_parse_Inr [fleet_run]: "fa_parse v st = (st', Inr b) \<longleftrightarrow> st' = st \<and> v = Some b"
  by (cases v) (auto simp: fa_parse_def fa_return_def fa_throw_def)

lemma fa_require_Inr [fleet_run]: "fa_require c e st = (st', Inr b) \<longleftrightarrow> st' = st \<and> c"
  by (auto simp: fa_require_def fa_return_def fa_throw_def)

lemma randomUUID_Inr [fleet_run]:
  "randomUUID env st = (st', Inr i) \<longleftrightarrow> st' = st\<lparr>fd_uuids := Suc (fd_uuids st)\<rparr> \<and> i = fe_uuid env (fd_uuids st)"
  by (auto simp: randomUUID_def)

lemma transaction_Inr [fleet_run]: "fleet_transaction f st = (st', Inr a) \<longleftrightarrow> f st = (st', Inr a)"
  by (auto simp: fleet_transaction_def split: prod.splits sum.splits)

text \<open>UUIDs are not given back.\<close>

definition advances :: "'a fleet_action \<Rightarrow> bool" where
  "advances f \<longleftrightarrow> (\<forall>st. fd_uuids st \<le> fd_uuids (fst (f st)))"

named_theorems advances_intros

lemma advances_bind [advances_intros]: "advances f \<Longrightarrow> (\<And>a. advances (g a)) \<Longrightarrow> advances (fa_bind f g)"
proof -
  assume f: "advances f" and g: "\<And>a. advances (g a)"
  show ?thesis
    unfolding advances_def
  proof
    fix st
    obtain st1 x where x: "f st = (st1, x)" by (cases "f st")
    then have "fd_uuids st \<le> fd_uuids st1" using f unfolding advances_def by (metis fst_conv)
    then show "fd_uuids st \<le> fd_uuids (fst (fa_bind f g st))"
      using g x unfolding advances_def by (cases x) (auto simp: fa_bind_def intro: order_trans)
  qed
qed

lemma advances_simple [advances_intros]:
  "advances (fa_return a)" "advances (fa_throw e)" "advances (fa_get h)" "advances (fa_parse v)" "advances (fa_require c e)"
  "advances (randomUUID env)"
  by (auto simp: advances_def fa_return_def fa_throw_def fa_get_def fa_parse_def fa_require_def randomUUID_def split: option.split)

lemma advances_put [advances_intros]: "(\<And>st. fd_uuids (f st) = fd_uuids st) \<Longrightarrow> advances (fa_put f)"
  by (simp add: advances_def fa_put_def)

lemma advances_transaction [advances_intros]: "advances f \<Longrightarrow> advances (fleet_transaction f)"
  unfolding advances_def fleet_transaction_def by (auto split: prod.splits sum.splits) (metis fst_conv)+

lemma advances_scan [advances_intros]: "advances (scan_rows env selfId nowMs rs)"
  by (induction rs) (auto intro!: advances_intros simp: quarantine_row_def append_audit_def split: option.split)

lemma advances_valid [advances_intros]: "advances (validRows env P selfId nowMs)"
  using advances_scan by (auto simp: advances_def validRows_def)

lemma advances_rest [advances_intros]:
  "advances (pendingOperations env)" "advances (operation_of env i)" "advances (deleteOperation i)"
  "advances (writeMachine f n d)" "advances (requireSpace env clock m)" "advances (set_health P h)"
  by (auto simp: pendingOperations_def operation_of_def deleteOperation_def writeMachine_def requireSpace_def set_health_def Let_def
      intro!: advances_intros)

text \<open>An invariant that no advance of the UUIDs breaks: a call keeps it when its success does.\<close>

definition fa_keeps :: "(fleet_db \<Rightarrow> bool) \<Rightarrow> 'a fleet_action \<Rightarrow> bool" where
  "fa_keeps I f \<longleftrightarrow> (\<forall>st. I st \<longrightarrow> I (fst (f st)))"

definition uuid_closed :: "(fleet_db \<Rightarrow> bool) \<Rightarrow> bool" where
  "uuid_closed I \<longleftrightarrow> (\<forall>st n. I st \<longrightarrow> fd_uuids st \<le> n \<longrightarrow> I (st\<lparr>fd_uuids := n\<rparr>))"

named_theorems keeps_intros

lemma keeps_bind [keeps_intros]: "fa_keeps I f \<Longrightarrow> (\<And>a. fa_keeps I (g a)) \<Longrightarrow> fa_keeps I (fa_bind f g)"
  unfolding fa_keeps_def fa_bind_def by (fastforce split: prod.splits sum.splits)

lemma keeps_simple [keeps_intros]:
  "fa_keeps I (fa_return a)" "fa_keeps I (fa_throw e)" "fa_keeps I (fa_get h)" "fa_keeps I (fa_parse v)" "fa_keeps I (fa_require c e)"
  by (auto simp: fa_keeps_def fa_return_def fa_throw_def fa_get_def fa_parse_def fa_require_def split: option.split)

lemma keeps_uuid [keeps_intros]: "uuid_closed I \<Longrightarrow> fa_keeps I (randomUUID env)"
  by (simp add: fa_keeps_def randomUUID_def uuid_closed_def)

lemma keeps_transaction:
  assumes "uuid_closed I" "advances f" "\<And>st st' a. I st \<Longrightarrow> f st = (st', Inr a) \<Longrightarrow> I st'"
  shows "fa_keeps I (fleet_transaction f)"
  unfolding fa_keeps_def
proof (intro allI impI)
  fix st
  assume I: "I st"
  obtain st1 x where x: "f st = (st1, x)" by (cases "f st")
  then have "fd_uuids st \<le> fd_uuids st1" using assms(2) unfolding advances_def by (metis fst_conv)
  then show "I (fst (fleet_transaction f st))"
    using I x assms(1,3) unfolding uuid_closed_def by (cases x) (auto simp: fleet_transaction_def)
qed

lemma keeps_operation_of [keeps_intros]: "fa_keeps I (operation_of env i)"
  by (simp add: operation_of_def keeps_intros)

section \<open>The invariant\<close>

text \<open>What the runtime promises of \<open>randomUUID\<close> and \<open>toISOString\<close>.\<close>

definition fleet_laws :: "fleet_env \<Rightarrow> bool" where
  "fleet_laws env \<longleftrightarrow> inj (fe_uuid env) \<and> (\<forall>k. fe_is_uuid env (fe_uuid env k)) \<and> (\<forall>t. date_range t \<longrightarrow> fe_date env (fe_iso env t))"

definition journal_row_ok :: "fleet_env \<Rightarrow> operation_row \<Rightarrow> bool" where
  "journal_row_ok env r \<longleftrightarrow> (\<exists>p. or_payload r = Held p \<and> fleetOperationSchema env p = Some p \<and> or_id r = op_id p \<and> or_machine r = op_machine p)"

definition mark_ok :: "fleet_env \<Rightarrow> nat \<Rightarrow> fleet_row \<Rightarrow> bool" where
  "mark_ok env n r \<longleftrightarrow>
     (\<exists>k t reason. k < n \<and> date_range t \<and> fw_quarantineId r = Some (fe_uuid env k) \<and> fw_quarantinedAt r = Some (fe_iso env t)
        \<and> fw_quarantineReason r = Some (reason_text reason))"

definition row_kind :: "bool \<Rightarrow> operation_row \<Rightarrow> bool" where
  "row_kind enroll r \<longleftrightarrow> (\<exists>p. or_payload r = Held p \<and> is_enroll p = enroll)"

definition machines_under :: "bool \<Rightarrow> fleet_db \<Rightarrow> string set" where
  "machines_under enroll st = or_machine ` {r \<in> set (fd_operations st). row_kind enroll r}"

definition live_ids :: "fleet_db \<Rightarrow> string set" where
  "live_ids st = fw_id ` {r \<in> set (fd_machines st). \<not> marked r}"

text \<open>The machines that count against the limit: live rows not being forgotten, and enrolments under way.\<close>

definition admitted :: "fleet_db \<Rightarrow> string set" where
  "admitted st = (live_ids st - machines_under False st) \<union> machines_under True st"

definition journal_ok :: "fleet_env \<Rightarrow> fleet_db \<Rightarrow> bool" where
  "journal_ok env st \<longleftrightarrow> distinct (map or_id (fd_operations st)) \<and> distinct (map or_machine (fd_operations st))
     \<and> (\<forall>r \<in> set (fd_operations st). journal_row_ok env r)"

definition marks_ok :: "fleet_env \<Rightarrow> fleet_db \<Rightarrow> bool" where
  "marks_ok env st \<longleftrightarrow> distinct (map fw_quarantineId (filter marked (fd_machines st)))
     \<and> (\<forall>r \<in> set (fd_machines st). marked r \<longrightarrow> mark_ok env (fd_uuids st) r)"

definition fleet_ok :: "fleet_env \<Rightarrow> fleet_db \<Rightarrow> bool" where
  "fleet_ok env st \<longleftrightarrow> distinct (map fw_id (fd_machines st)) \<and> journal_ok env st \<and> marks_ok env st
     \<and> card (admitted st) \<le> maximumFleetMachines"

lemma finite_admitted [simp]: "finite (admitted st)"
  by (simp add: admitted_def live_ids_def machines_under_def)

lemma fleet_ok_uuid: "uuid_closed (fleet_ok env)"
proof -
  have "mark_ok env n r" if "mark_ok env m r" "m \<le> n" for m n r
    using that unfolding mark_ok_def by (meson less_le_trans)
  then show ?thesis
    unfolding uuid_closed_def fleet_ok_def journal_ok_def marks_ok_def admitted_def live_ids_def machines_under_def by auto
qed

lemma mark_entry:
  assumes "fleet_laws env" "mark_ok env n r"
  shows "\<exists>e. quarantinedEntry env r = Some e \<and> qn_id e = the (fw_quarantineId r)
    \<and> qn_machineId e = (if machineIdSchema (fw_id r) then Some (fw_id r) else None)"
proof -
  obtain k t reason where m: "fw_quarantineId r = Some (fe_uuid env k)" "date_range t" "fw_quarantinedAt r = Some (fe_iso env t)"
    "fw_quarantineReason r = Some (reason_text reason)" using assms(2) by (auto simp: mark_ok_def)
  then show ?thesis
    using assms(1) by (cases reason) (auto simp: quarantinedEntry_def fleetQuarantinedEntrySchema_def fleet_laws_def Let_def)
qed

lemma marked_no_fault: "fleet_laws env \<Longrightarrow> mark_ok env n r \<Longrightarrow> marked r \<Longrightarrow> row_fault env selfId nowMs r = None"
  using mark_entry [of env n r] by (auto simp: row_fault_def)

section \<open>A scan\<close>

lemma card_admitted: "admitted st' \<subseteq> admitted st \<Longrightarrow> card (admitted st) \<le> n \<Longrightarrow> card (admitted st') \<le> n"
  using card_mono [OF finite_admitted] by (meson order_trans)

lemma mark_row_simps [simp]:
  "fw_id (mark_row i t q r) = fw_id r" "marked (mark_row i t q r)" "fw_quarantineId (mark_row i t q r) = Some i"
  "fw_quarantinedAt (mark_row i t q r) = Some t" "fw_quarantineReason (mark_row i t q r) = Some (reason_text q)"
  by (simp_all add: mark_row_def marked_def)

lemma mark_ok_mono: "mark_ok env m r \<Longrightarrow> m \<le> n \<Longrightarrow> mark_ok env n r"
  unfolding mark_ok_def by (meson less_le_trans)

lemma mark_number: "mark_ok env n r \<Longrightarrow> \<exists>k < n. fw_quarantineId r = Some (fe_uuid env k)"
  by (auto simp: mark_ok_def)

lemma quarantine_step:
  assumes laws: "fleet_laws env" and ok: "fleet_ok env st" and r: "r \<in> set (fd_machines st)" "\<not> marked r"
    and run: "quarantine_row env nowMs r reason st = (st1, Inr u)"
  shows "fleet_ok env st1 \<and> admitted st1 \<subseteq> admitted st \<and> fd_operations st1 = fd_operations st \<and> fd_uuids st \<le> fd_uuids st1
    \<and> (\<exists>i t. fd_machines st1 = map (\<lambda>q. if q = r then mark_row i t reason q else q) (fd_machines st))"
proof -
  let ?n = "fd_uuids st" and ?t = "fe_iso env nowMs"
  let ?i = "fe_uuid env ?n"
  have t: "date_range nowMs" using run by (auto simp: quarantine_row_def append_audit_def fleet_run iso_date_def split: if_splits)
  have st1: "st1 = st\<lparr>fd_uuids := Suc ?n, fd_machines := map (\<lambda>q. if fw_id q = fw_id r then mark_row ?i ?t reason q else q) (fd_machines st),
       fd_audit := fd_audit st @ [\<lparr>qa_target = ?i, qa_reason = reason, qa_occurredAt = ?t\<rparr>]\<rparr>"
    using run t by (auto simp: quarantine_row_def append_audit_def fleet_run iso_date_def)
  obtain xs ys where ms: "fd_machines st = xs @ r # ys" using split_list [OF r(1)] by blast
  have fresh: "fw_id r \<notin> fw_id ` set xs" "fw_id r \<notin> fw_id ` set ys" "distinct (map fw_id (fd_machines st))"
    using ok by (auto simp: fleet_ok_def ms)
  then have others: "map (\<lambda>q. if fw_id q = fw_id r then f q else q) xs = xs" "map (\<lambda>q. if fw_id q = fw_id r then f q else q) ys = ys"
    "map (\<lambda>q. if q = r then f q else q) xs = xs" "map (\<lambda>q. if q = r then f q else q) ys = ys" for f
    by (auto intro!: map_idI) (metis image_eqI)+
  have ms1: "fd_machines st1 = xs @ mark_row ?i ?t reason r # ys" by (simp add: st1 ms others)
  have "mark_ok env (Suc ?n) (mark_row ?i ?t reason r)" using t by (auto simp: mark_ok_def)
  moreover have marks: "distinct (map fw_quarantineId (filter marked (xs @ ys)))"
      "\<forall>q \<in> set (xs @ ys). marked q \<longrightarrow> mark_ok env ?n q"
    using ok r(2) by (auto simp: fleet_ok_def marks_ok_def ms)
  moreover have "Some ?i \<notin> fw_quarantineId ` {q \<in> set (xs @ ys). marked q}"
    using marks(2) laws by (fastforce simp: fleet_laws_def inj_def dest: mark_number)
  moreover have "fd_uuids st1 = Suc ?n" by (simp add: st1)
  moreover have "\<forall>q \<in> set (xs @ ys). marked q \<longrightarrow> mark_ok env (Suc ?n) q" using marks(2) mark_ok_mono le_SucI by blast
  ultimately have "marks_ok env st1"
    unfolding marks_ok_def ms1 by auto
  moreover have "live_ids st1 \<subseteq> live_ids st" by (auto simp: live_ids_def ms ms1)
  then have fewer: "admitted st1 \<subseteq> admitted st" by (auto simp: admitted_def machines_under_def st1)
  moreover have "map fw_id (fd_machines st1) = map fw_id (fd_machines st)" by (simp add: ms ms1)
  moreover have ops: "fd_operations st1 = fd_operations st" by (simp add: st1)
  ultimately have "fleet_ok env st1"
    using ok card_admitted [of st1 st] unfolding fleet_ok_def journal_ok_def ops by metis
  moreover have "fd_machines st1 = map (\<lambda>q. if q = r then mark_row ?i ?t reason q else q) (fd_machines st)"
    by (simp add: ms ms1 others)
  moreover have "fd_uuids st \<le> fd_uuids st1" by (simp add: st1)
  ultimately show ?thesis using fewer ops by blast
qed

text \<open>After a scan every faulty row is marked, every other row is as it was, and the valid rows are those without a mark.\<close>

definition scanned :: "fleet_env \<Rightarrow> string \<Rightarrow> int \<Rightarrow> fleet_row set \<Rightarrow> fleet_db \<Rightarrow> fleet_db \<Rightarrow> bool" where
  "scanned env selfId nowMs rs st st' \<longleftrightarrow>
     fd_operations st' = fd_operations st \<and> fd_uuids st \<le> fd_uuids st'
     \<and> list_all2 (\<lambda>q q'. if q \<in> rs then (case row_fault env selfId nowMs q of
            None \<Rightarrow> q' = q
          | Some reason \<Rightarrow> \<not> marked q \<and> (\<exists>i t. q' = mark_row i t reason q)) else q' = q)
         (fd_machines st) (fd_machines st')"

lemma scan_rows_ok:
  assumes laws: "fleet_laws env"
  shows "scan_rows env selfId nowMs rs st = (st', Inr valid) \<Longrightarrow> fleet_ok env st \<Longrightarrow> set rs \<subseteq> set (fd_machines st) \<Longrightarrow> distinct rs \<Longrightarrow>
    fleet_ok env st' \<and> admitted st' \<subseteq> admitted st \<and> scanned env selfId nowMs (set rs) st st'
    \<and> valid = filter (\<lambda>r. \<not> marked r \<and> row_fault env selfId nowMs r = None) rs"
proof (induction rs arbitrary: st valid)
  case Nil
  then show ?case by (auto simp: scanned_def fleet_run list_all2_same)
next
  case (Cons r rs)
  have marks: "row_fault env selfId nowMs q = None" if "q \<in> set (fd_machines st)" "marked q" for q
    using Cons.prems(2) that laws marked_no_fault by (auto simp: fleet_ok_def marks_ok_def)
  show ?case
  proof (cases "row_fault env selfId nowMs r")
    case None
    then obtain valid' where run: "scan_rows env selfId nowMs rs st = (st', Inr valid')"
      and v: "valid = (if marked r then valid' else r # valid')" using Cons.prems(1) by (auto simp: fleet_run)
    note ih = Cons.IH [OF run Cons.prems(2)]
    have "scanned env selfId nowMs (set (r # rs)) st st'"
      using ih Cons.prems(3,4) None by (auto simp: scanned_def elim!: list_all2_mono)
    then show ?thesis using ih Cons.prems(3,4) v None by auto
  next
    case (Some reason)
    then obtain st1 u where q: "quarantine_row env nowMs r reason st = (st1, Inr u)"
      and run: "scan_rows env selfId nowMs rs st1 = (st', Inr valid)" using Cons.prems(1) by (auto simp: fleet_run)
    have r: "r \<in> set (fd_machines st)" "\<not> marked r" using Cons.prems(3) marks Some by auto
    obtain i t where fewer: "admitted st1 \<subseteq> admitted st" and o: "fleet_ok env st1" "fd_operations st1 = fd_operations st" "fd_uuids st \<le> fd_uuids st1"
        "fd_machines st1 = map (\<lambda>q. if q = r then mark_row i t reason q else q) (fd_machines st)"
      using quarantine_step [OF laws Cons.prems(2) r q] by blast
    have sub: "set rs \<subseteq> set (fd_machines st1)" using Cons.prems(3,4) o(4) by force
    note ih = Cons.IH [OF run o(1) sub]
    have d: "distinct (fd_machines st)" using Cons.prems(2) by (auto simp: fleet_ok_def distinct_map)
    have "mark_row i t reason r \<notin> set rs"
    proof
      assume "mark_row i t reason r \<in> set rs"
      then have m: "mark_row i t reason r \<in> set (fd_machines st)" using Cons.prems(3) by auto
      then have "mark_row i t reason r = r"
        using r(1) Cons.prems(2) by (auto simp: fleet_ok_def distinct_map inj_on_def)
      then show False using r(2) mark_row_simps(2) by metis
    qed
    then have "scanned env selfId nowMs (set (r # rs)) st st'"
      using ih Cons.prems(4) o Some r(2) unfolding scanned_def o(4) list_all2_map1
      by (auto elim!: list_all2_mono split: if_splits) blast+
    then show ?thesis using ih Cons.prems(4) Some fewer by auto
  qed
qed

lemma mset_insort_by: "mset (insort_by le x xs) = add_mset x (mset xs)"
  by (induction xs) auto

lemma mset_sort_by [simp]: "mset (sort_by le xs) = mset xs"
proof (induction xs)
  case (Cons x xs)
  then show ?case by (simp add: sort_by_def mset_insort_by)
qed (simp add: sort_by_def)

lemma sort_by_set [simp]: "set (sort_by le xs) = set xs" "length (sort_by le xs) = length xs"
  by (metis mset_sort_by set_mset_mset) (metis mset_sort_by size_mset)

lemma sort_by_distinct [simp]: "distinct (map f (sort_by le xs)) \<longleftrightarrow> distinct (map f xs)"
  by (metis mset_map mset_sort_by mset_eq_imp_distinct_iff)

lemma valid_rows_ok:
  assumes laws: "fleet_laws env" and ok: "fleet_ok env st" and run: "validRows env P selfId nowMs st = (st', Inr valid)"
  shows "fleet_ok env st' \<and> admitted st' \<subseteq> admitted st \<and> scanned env selfId nowMs {r \<in> set (fd_machines st). P st r} st st'
    \<and> set valid = {r \<in> set (fd_machines st). P st r \<and> \<not> marked r \<and> row_fault env selfId nowMs r = None}
    \<and> distinct (map fw_id valid)"
proof -
  let ?rs = "sort_by (\<lambda>a b. fe_index_le env (fw_id a) (fw_id b)) (filter (P st) (fd_machines st))"
  have d: "distinct (map fw_id ?rs)" using ok by (simp add: fleet_ok_def distinct_map_filter)
  then have "distinct ?rs" by (simp add: distinct_map)
  moreover have "set ?rs \<subseteq> set (fd_machines st)" by auto
  ultimately have s: "fleet_ok env st' \<and> admitted st' \<subseteq> admitted st" "scanned env selfId nowMs (set ?rs) st st'"
      "valid = filter (\<lambda>r. \<not> marked r \<and> row_fault env selfId nowMs r = None) ?rs"
    using scan_rows_ok [OF laws run [unfolded validRows_def] ok] by blast+
  have "set ?rs = {r \<in> set (fd_machines st). P st r}" by simp
  moreover have "set valid = {r \<in> set (fd_machines st). P st r \<and> \<not> marked r \<and> row_fault env selfId nowMs r = None}"
    unfolding s(3) by auto
  moreover have "distinct (map fw_id valid)" unfolding s(3) using d by (rule distinct_map_filter)
  ultimately show ?thesis using s(1,2) by simp
qed

lemma scanned_nth:
  assumes "scanned env selfId nowMs rs st st'" "i < length (fd_machines st)"
  shows "(fd_machines st ! i \<notin> rs \<or> row_fault env selfId nowMs (fd_machines st ! i) = None) \<and> fd_machines st' ! i = fd_machines st ! i
    \<or> fd_machines st ! i \<in> rs \<and> \<not> marked (fd_machines st ! i)
      \<and> (\<exists>reason u t. row_fault env selfId nowMs (fd_machines st ! i) = Some reason \<and> fd_machines st' ! i = mark_row u t reason (fd_machines st ! i))"
proof -
  have "if fd_machines st ! i \<in> rs then (case row_fault env selfId nowMs (fd_machines st ! i) of None \<Rightarrow> fd_machines st' ! i = fd_machines st ! i
      | Some reason \<Rightarrow> \<not> marked (fd_machines st ! i) \<and> (\<exists>u t. fd_machines st' ! i = mark_row u t reason (fd_machines st ! i)))
      else fd_machines st' ! i = fd_machines st ! i"
    using assms unfolding scanned_def by (blast dest: list_all2_nthD)
  then show ?thesis by (cases "row_fault env selfId nowMs (fd_machines st ! i)") (auto split: if_splits)
qed

lemma scanned_length: "scanned env selfId nowMs rs st st' \<Longrightarrow> length (fd_machines st') = length (fd_machines st)"
  by (auto simp: scanned_def dest: list_all2_lengthD)

lemma scanned_live:
  assumes s: "scanned env selfId nowMs {r \<in> set (fd_machines st). True} st st'"
  shows "live_ids st' = fw_id ` {r \<in> set (fd_machines st). \<not> marked r \<and> row_fault env selfId nowMs r = None}"
proof -
  have "{q \<in> set (fd_machines st'). \<not> marked q} = {q \<in> set (fd_machines st). \<not> marked q \<and> row_fault env selfId nowMs q = None}"
  proof (intro set_eqI iffI)
    fix q
    assume "q \<in> {q \<in> set (fd_machines st'). \<not> marked q}"
    then obtain i where "i < length (fd_machines st)" "q = fd_machines st' ! i" "\<not> marked q"
      using scanned_length [OF s] by (auto simp: in_set_conv_nth)
    then show "q \<in> {q \<in> set (fd_machines st). \<not> marked q \<and> row_fault env selfId nowMs q = None}"
      using scanned_nth [OF s, of i] by auto
  next
    fix q
    assume "q \<in> {q \<in> set (fd_machines st). \<not> marked q \<and> row_fault env selfId nowMs q = None}"
    then obtain i where "i < length (fd_machines st)" "q = fd_machines st ! i" "\<not> marked q" "row_fault env selfId nowMs q = None"
      by (auto simp: in_set_conv_nth)
    then show "q \<in> {q \<in> set (fd_machines st'). \<not> marked q}"
      using scanned_nth [OF s, of i] scanned_length [OF s] by (auto simp: in_set_conv_nth)
  qed
  then show ?thesis by (simp add: live_ids_def)
qed

lemma pending_operations_read:
  assumes "fleet_ok env st" "pendingOperations env st = (st', Inr ps)"
  shows "st' = st \<and> set ps = {p. \<exists>r \<in> set (fd_operations st). or_payload r = Held p}"
proof -
  let ?rs = "sort_by (\<lambda>a b. fe_index_le env (or_machine a) (or_machine b)) (fd_operations st)"
  have p: "st' = st" "map (read_operation env) ?rs = map Some ps"
    using assms(2) by (auto simp: pendingOperations_def fleet_run all_some_iff split: option.splits)
  have "read_operation env r = Some p \<longleftrightarrow> or_payload r = Held p" if "r \<in> set (fd_operations st)" for r p
    using assms(1) that by (fastforce simp: fleet_ok_def journal_ok_def journal_row_ok_def read_operation_def)
  then have "p \<in> set ps \<longleftrightarrow> (\<exists>r \<in> set (fd_operations st). or_payload r = Held p)" for p
  proof -
    have "p \<in> set ps \<longleftrightarrow> Some p \<in> set (map (read_operation env) ?rs)" unfolding p(2) by auto
    also have "\<dots> \<longleftrightarrow> (\<exists>r \<in> set (fd_operations st). read_operation env r = Some p)" by force
    finally show ?thesis using \<open>\<And>r p. r \<in> set (fd_operations st) \<Longrightarrow> (read_operation env r = Some p) = (or_payload r = Held p)\<close> by blast
  qed
  then show ?thesis using p(1) by auto
qed

lemma under_operations:
  assumes "fleet_ok env st" "set ps = {p. \<exists>r \<in> set (fd_operations st). or_payload r = Held p}"
  shows "op_machine ` {p \<in> set ps. is_enroll p = enroll} = machines_under enroll st"
proof -
  have m: "or_machine r = op_machine p" if "r \<in> set (fd_operations st)" "or_payload r = Held p" for r p
    using assms(1) that by (fastforce simp: fleet_ok_def journal_ok_def journal_row_ok_def)
  then show ?thesis
    unfolding machines_under_def row_kind_def assms(2) by (force simp: image_iff)
qed

lemma require_space_ok:
  assumes laws: "fleet_laws env" and ok: "fleet_ok env st" and run: "requireSpace env clock m st = (st', Inr u)"
  shows "fleet_ok env st' \<and> admitted st' \<subseteq> admitted st \<and> fd_operations st' = fd_operations st \<and> (m \<in> admitted st' \<or> card (admitted st') < maximumFleetMachines)
    \<and> scanned env [] clock {r \<in> set (fd_machines st). True} st st'"
proof -
  obtain ps st1 rows where ps: "pendingOperations env st = (st1, Inr ps)" and rows: "validRows env (\<lambda>_ _. True) [] clock st1 = (st', Inr rows)"
    and space: "m \<in> set (map fw_id (filter (\<lambda>r. fw_id r \<notin> set (map op_machine (filter (\<lambda>p. \<not> is_enroll p) ps))) rows) @ map op_machine (filter is_enroll ps))
      \<or> length (remdups (map fw_id (filter (\<lambda>r. fw_id r \<notin> set (map op_machine (filter (\<lambda>p. \<not> is_enroll p) ps))) rows) @ map op_machine (filter is_enroll ps))) < maximumFleetMachines"
      (is "m \<in> set ?ids \<or> _")
    using run by (auto simp: requireSpace_def fleet_run Let_def)
  note p = pending_operations_read [OF ok ps]
  then have st1: "st1 = st" by simp
  note v = valid_rows_ok [OF laws ok rows [unfolded st1]]
  have ops: "fd_operations st' = fd_operations st" using v by (simp add: scanned_def)
  have under: "machines_under e st' = machines_under e st" for e by (simp add: machines_under_def ops)
  have live: "live_ids st' = fw_id ` set rows" using v scanned_live [of env "[]" clock st st'] by simp
  have "set ?ids = (fw_id ` set rows - machines_under False st) \<union> machines_under True st"
    using under_operations [OF ok conjunct2 [OF p], of False] under_operations [OF ok conjunct2 [OF p], of True] by auto
  then have "set ?ids = admitted st'" by (simp add: admitted_def live under)
  then have "m \<in> admitted st' \<or> card (admitted st') < maximumFleetMachines"
    using space by (metis length_remdups_card_conv)
  then show ?thesis using v ops by blast
qed

section \<open>The writes\<close>

lemma upsert_set: "distinct (map fw_id ms) \<Longrightarrow> set (upsert r ms) = insert r {q \<in> set ms. fw_id q \<noteq> fw_id r}"
proof (induction r ms rule: upsert.induct)
  case (2 r q qs)
  have "fw_id x \<noteq> fw_id q" if "x \<in> set qs" for x using 2(2) that by (metis distinct.simps(2) image_eqI list.set_map list.simps(9))
  then show ?case using 2 by auto
qed simp

lemma distinct_filter_both: "distinct (map f (filter P xs)) \<Longrightarrow> distinct (map f (filter P (filter Q xs)))"
  by (induction xs) auto

lemma upsert_ids: "distinct (map fw_id ms) \<Longrightarrow> distinct (map fw_id (upsert r ms))"
proof (induction r ms rule: upsert.induct)
  case (2 r q qs)
  then show ?case using upsert_set [of qs r] by auto
qed simp

lemma upsert_marked:
  "distinct (map fw_id ms) \<Longrightarrow> \<not> marked r \<Longrightarrow> filter marked (upsert r ms) = filter marked (filter (\<lambda>q. fw_id q \<noteq> fw_id r) ms)"
proof (induction r ms rule: upsert.induct)
  case (2 r q qs)
  then show ?case
  proof (cases "fw_id q = fw_id r")
    case True
    have "fw_id x \<noteq> fw_id q" if "x \<in> set qs" for x using 2(2) that by (metis distinct.simps(2) image_eqI list.set_map list.simps(9))
    then have "filter (\<lambda>q. fw_id q \<noteq> fw_id r) qs = qs" using True by (auto intro!: filter_True)
    then show ?thesis using True 2(3) by simp
  qed (use 2 in simp)
qed simp

lemma room: "m \<in> admitted st \<or> card (admitted st) < n \<Longrightarrow> admitted st' \<subseteq> insert m (admitted st) \<Longrightarrow> card (admitted st) \<le> n \<Longrightarrow> card (admitted st') \<le> n"
proof -
  assume a: "m \<in> admitted st \<or> card (admitted st) < n" "admitted st' \<subseteq> insert m (admitted st)" "card (admitted st) \<le> n"
  have "card (admitted st') \<le> card (insert m (admitted st))" using a(2) by (rule card_mono [rotated]) simp
  also have "\<dots> \<le> n" using a(1,3) by (auto simp: card_insert_if)
  finally show ?thesis .
qed

lemma new_row_simps [simp]: "fw_id (new_row f t d) = ff_id f" "\<not> marked (new_row f t d)" "fw_credential (new_row f t d) = d"
  by (simp_all add: new_row_def marked_def)

lemma write_machine_ok:
  assumes ok: "fleet_ok env st" and space: "ff_id f \<in> admitted st \<or> card (admitted st) < maximumFleetMachines"
    and run: "writeMachine f t d st = (st', Inr u)"
  shows "fleet_ok env st' \<and> admitted st' \<subseteq> insert (ff_id f) (admitted st)"
proof -
  let ?r = "new_row f t d"
  have ids: "distinct (map fw_id (fd_machines st))" using ok by (simp add: fleet_ok_def)
  have ms: "fd_machines st' = upsert ?r (fd_machines st)" and rest: "fd_operations st' = fd_operations st" "fd_uuids st' = fd_uuids st"
    using run by (auto simp: writeMachine_def fleet_run)
  have rows: "set (fd_machines st') = insert ?r {q \<in> set (fd_machines st). fw_id q \<noteq> ff_id f}" using upsert_set [OF ids, of ?r] by (simp add: ms)
  have marks: "distinct (map fw_quarantineId (filter marked (fd_machines st)))" "\<forall>q \<in> set (fd_machines st). marked q \<longrightarrow> mark_ok env (fd_uuids st) q"
    using ok by (simp_all add: fleet_ok_def marks_ok_def)
  have "distinct (map fw_quarantineId (filter marked (fd_machines st')))"
    unfolding ms upsert_marked [OF ids new_row_simps(2)] by (rule distinct_filter_both [OF marks(1)])
  then have "marks_ok env st'" using marks(2) unfolding marks_ok_def rest rows by simp
  moreover have "live_ids st' \<subseteq> insert (ff_id f) (live_ids st)" unfolding live_ids_def rows by auto
  then have more: "admitted st' \<subseteq> insert (ff_id f) (admitted st)"
    unfolding admitted_def machines_under_def rest by blast
  then have "card (admitted st') \<le> maximumFleetMachines" using room [OF space] ok by (simp add: fleet_ok_def)
  ultimately show ?thesis
    using ok upsert_ids [OF ids, of ?r] more unfolding fleet_ok_def journal_ok_def rest ms by simp
qed

text \<open>Dropping rows and operations, and changing a row's health, keeps the invariant when nothing is admitted anew.\<close>

lemma fewer_ok:
  assumes ok: "fleet_ok env st" and "fd_uuids st' = fd_uuids st"
    and ms: "fd_machines st' = filter P (fd_machines st)" and ops: "fd_operations st' = filter Q (fd_operations st)"
    and ad: "admitted st' \<subseteq> admitted st"
  shows "fleet_ok env st'"
proof -
  have "marks_ok env st'"
    using ok distinct_filter_both [of fw_quarantineId marked "fd_machines st" P] unfolding fleet_ok_def marks_ok_def ms assms(2) by simp
  moreover have "journal_ok env st'"
    using ok distinct_map_filter unfolding fleet_ok_def journal_ok_def ops by auto
  moreover have "distinct (map fw_id (fd_machines st'))" using ok distinct_map_filter unfolding fleet_ok_def ms by blast
  ultimately show ?thesis using ok card_admitted [OF ad] unfolding fleet_ok_def by blast
qed

lemma set_health_ok: "fleet_ok env st \<Longrightarrow> set_health P h st = (st', Inr u) \<Longrightarrow> fleet_ok env st' \<and> admitted st' = admitted st \<and> fd_operations st' = fd_operations st"
proof -
  assume ok: "fleet_ok env st" and run: "set_health P h st = (st', Inr u)"
  define f where "f = (\<lambda>r. if P r then r\<lparr>fw_health := Some h\<rparr> else r)"
  have st': "st' = st\<lparr>fd_machines := map f (fd_machines st)\<rparr>" using run by (simp add: set_health_def fleet_run f_def)
  have same: "fw_id (f r) = fw_id r" "marked (f r) = marked r" "fw_quarantineId (f r) = fw_quarantineId r"
    "mark_ok env n (f r) = mark_ok env n r" for r n
    by (simp_all add: marked_def mark_ok_def f_def)
  have "{r \<in> set (map f (fd_machines st)). \<not> marked r} = f ` {r \<in> set (fd_machines st). \<not> marked r}" using same(2) by auto
  then have live: "live_ids st' = live_ids st" by (simp add: live_ids_def st' image_image same(1))
  have "filter marked (map f (fd_machines st)) = map f (filter marked (fd_machines st))"
    unfolding filter_map comp_def same by simp
  then have "map fw_quarantineId (filter marked (map f (fd_machines st))) = map fw_quarantineId (filter marked (fd_machines st))"
    by (simp add: comp_def same)
  then have "marks_ok env st'" using ok same by (auto simp: fleet_ok_def marks_ok_def st')
  moreover have "map fw_id (fd_machines st') = map fw_id (fd_machines st)" by (simp add: comp_def same st')
  moreover have ops: "fd_operations st' = fd_operations st" by (simp add: st')
  moreover have "admitted st' = admitted st" unfolding admitted_def machines_under_def live ops ..
  ultimately show ?thesis using ok live unfolding fleet_ok_def journal_ok_def by metis
qed

lemma facts_idem: "fleetMachineFactsSchema env f = Some g \<Longrightarrow> fleetMachineFactsSchema env g = Some g"
proof -
  assume "fleetMachineFactsSchema env f = Some g"
  then have obj: "fleetMachineFactsObject env f = Some g" and refined: "refineObservedFacts g"
    by (auto simp: fleetMachineFactsSchema_def bind_eq_Some_conv split: if_splits)
  obtain label platform arch version wsl where t: "trimmed_text 128 (ff_label f) = Some label" "trimmed_text 64 (ff_platform f) = Some platform"
      "trimmed_text 64 (ff_arch f) = Some arch" "trimmed_text 64 (ff_version f) = Some version" "optional machineWslFactsSchema (ff_wsl f) = Some wsl"
    and g: "g = f\<lparr>ff_label := label, ff_platform := platform, ff_arch := arch, ff_version := version, ff_wsl := wsl\<rparr>"
    and rest: "machineIdSchema (ff_id f) \<and> length (ff_capabilities f) \<le> 16 \<and> protocolVersionSchema (ff_protocolVersion f)
             \<and> length (ff_transports f) \<le> 8 \<and> list_all (transportCandidateSchema env) (ff_transports f)
             \<and> pred_option (fleetVerifiedRouteSchema env) (ff_verifiedRoute f)"
    using obj by (auto simp: fleetMachineFactsObject_def split: option.splits if_splits)
  have wsl: "machineWslFactsSchema w = Some v \<Longrightarrow> machineWslFactsSchema v = Some v" for w v
    by (auto simp: machineWslFactsSchema_def dest: trimmed_text_idem split: option.splits if_splits)
  have "optional machineWslFactsSchema wsl = Some wsl"
    using t(5) by (auto simp: optional_def split: option.splits dest: wsl)
  then have "fleetMachineFactsObject env g = Some g"
    using t(1-4) [THEN trimmed_text_idem] rest by (simp add: fleetMachineFactsObject_def g)
  then show ?thesis using refined by (simp add: fleetMachineFactsSchema_def)
qed

lemma facts_id: "fleetMachineFactsSchema env f = Some g \<Longrightarrow> ff_id g = ff_id f"
  by (auto simp: fleetMachineFactsSchema_def fleetMachineFactsObject_def bind_eq_Some_conv split: option.splits if_splits)

lemma operation_idem:
  "fleetOperationSchema env p = Some q \<Longrightarrow>
   fleetOperationSchema env q = Some q \<and> op_id q = op_id p \<and> op_machine q = op_machine p \<and> is_enroll q = is_enroll p"
  by (cases p) (auto simp: operation_fields_def dest: facts_idem split: option.splits if_splits)

lemma stage_ok:
  assumes laws: "fleet_laws env" and p: "fleetOperationSchema env p = Some p" and ok: "fleet_ok env st" and run: "stage_operation env clock p st = (st', Inr u)"
  shows "fleet_ok env st' \<and> admitted st' \<subseteq> admitted st \<union> (if is_enroll p then {op_machine p} else {})"
proof -
  obtain st1 where none: "\<not> has_operation st (op_machine p)" and new: "op_id p \<notin> set (map or_id (fd_operations st))"
    and space: "(if is_enroll p then requireSpace env clock (op_machine p) else fa_return ()) st = (st1, Inr ())"
    and st': "st' = st1\<lparr>fd_operations := fd_operations st1 @ [\<lparr>or_id = op_id p, or_machine = op_machine p, or_payload = Held p\<rparr>]\<rparr>"
    using run unfolding stage_operation_def by (auto simp: fleet_run)
  have s: "fleet_ok env st1" "fd_operations st1 = fd_operations st" "admitted st1 \<subseteq> admitted st"
    "is_enroll p \<Longrightarrow> op_machine p \<in> admitted st1 \<or> card (admitted st1) < maximumFleetMachines"
    using space require_space_ok [OF laws ok] ok by (auto simp: fleet_run split: if_splits)
  have "journal_row_ok env \<lparr>or_id = op_id p, or_machine = op_machine p, or_payload = Held p\<rparr>" using p by (simp add: journal_row_ok_def)
  moreover have "op_machine p \<notin> set (map or_machine (fd_operations st1))" using none s(2) by (auto simp: has_operation_def list_ex_iff)
  ultimately have "journal_ok env st'" using s(1) new unfolding s(2) [symmetric] by (auto simp: fleet_ok_def journal_ok_def st')
  moreover have more: "admitted st' \<subseteq> admitted st1 \<union> (if is_enroll p then {op_machine p} else {})"
    by (auto simp: admitted_def live_ids_def machines_under_def row_kind_def st')
  then have "card (admitted st') \<le> maximumFleetMachines"
    using room [of "op_machine p" st1 maximumFleetMachines st'] card_admitted [of st' st1] s(1,4) by (auto simp: fleet_ok_def split: if_splits)
  ultimately have "fleet_ok env st'" using s(1) by (simp add: fleet_ok_def marks_ok_def st')
  then show ?thesis using more s(3) by blast
qed

section \<open>Every call keeps the invariant\<close>

text \<open>The invariant, with a bound on which machines are admitted.\<close>

definition fleet_in :: "fleet_env \<Rightarrow> string set \<Rightarrow> fleet_db \<Rightarrow> bool" where
  "fleet_in env A st \<longleftrightarrow> fleet_ok env st \<and> admitted st \<subseteq> A"

lemma fleet_in_uuid: "uuid_closed (fleet_in env A)"
  using fleet_ok_uuid [of env]
  by (auto simp: uuid_closed_def fleet_in_def admitted_def live_ids_def machines_under_def)

lemma operation_found:
  assumes ok: "fleet_ok env st" and run: "operation_of env i st = (st', Inr (Some p))"
  shows "st' = st \<and> (\<exists>r \<in> set (fd_operations st). or_id r = i \<and> or_payload r = Held p \<and> or_machine r = op_machine p)
    \<and> fleetOperationSchema env p = Some p"
proof -
  obtain r where r: "find (\<lambda>r. or_id r = i) (fd_operations st) = Some r" "read_operation env r = Some p" "st' = st"
    using run by (auto simp: operation_of_def fleet_run split: option.splits)
  then have "r \<in> set (fd_operations st)" "or_id r = i" using find_Some_in_set by fastforce+
  then show ?thesis
    using ok r(2,3) by (fastforce simp: fleet_ok_def journal_ok_def journal_row_ok_def read_operation_def)
qed

lemma under_kind: "r \<in> set (fd_operations st) \<Longrightarrow> or_payload r = Held p \<Longrightarrow> or_machine r \<in> machines_under (is_enroll p) st"
  by (auto simp: machines_under_def row_kind_def)

text \<open>Removing one operation leaves the machines under the others.\<close>

lemma delete_under:
  assumes ok: "fleet_ok env st" and r: "r \<in> set (fd_operations st)" "or_id r = i" "or_payload r = Held p"
    and ops: "fd_operations st' = filter (\<lambda>r. or_id r \<noteq> i) (fd_operations st)"
  shows "machines_under e st' = machines_under e st - (if is_enroll p = e then {or_machine r} else {})"
proof -
  have only: "q = r" if "q \<in> set (fd_operations st)" "or_id q = i \<or> or_machine q = or_machine r" for q
    using ok r that by (auto simp: fleet_ok_def journal_ok_def distinct_map inj_on_def)
  have inj: "inj_on or_machine (set (fd_operations st))" using ok by (simp add: fleet_ok_def journal_ok_def distinct_map)
  have rows: "{q \<in> set (fd_operations st'). row_kind e q} = {q \<in> set (fd_operations st). row_kind e q} - {r}"
    unfolding ops using only r by auto
  have kind: "row_kind e r \<longleftrightarrow> is_enroll p = e" using r(3) by (simp add: row_kind_def)
  have "or_machine ` ({q \<in> set (fd_operations st). row_kind e q} - {r}) = or_machine ` {q \<in> set (fd_operations st). row_kind e q} - or_machine ` {r}"
    by (rule inj_on_image_set_diff [OF inj]) (use r(1) in auto)
  moreover have "r \<notin> {q \<in> set (fd_operations st). row_kind e q}" if "is_enroll p \<noteq> e" using kind that by simp
  ultimately show ?thesis unfolding machines_under_def rows by (cases "is_enroll p = e") simp_all
qed

lemma keeps_delete:
  assumes ok: "fleet_ok env st" and r: "r \<in> set (fd_operations st)" "or_id r = i" "or_payload r = Held p"
    and run: "deleteOperation i st = (st', Inr u)" and covered: "is_enroll p"
  shows "fleet_ok env st' \<and> admitted st' \<subseteq> admitted st"
proof -
  have st': "st' = st\<lparr>fd_operations := filter (\<lambda>r. or_id r \<noteq> i) (fd_operations st)\<rparr>" using run by (simp add: deleteOperation_def fleet_run)
  then have ops: "fd_operations st' = filter (\<lambda>r. or_id r \<noteq> i) (fd_operations st)" by simp
  have "live_ids st' = live_ids st" by (simp add: live_ids_def st')
  then have "admitted st' \<subseteq> admitted st"
    using covered unfolding admitted_def delete_under [OF ok r ops] by (auto split: if_splits)
  then show ?thesis using fewer_ok [OF ok, of st' "\<lambda>_. True"] by (simp add: st')
qed

lemma durable_ok: "durableFacts env f = Some g \<Longrightarrow> fleetMachineFactsSchema env g = Some g \<and> ff_id g = ff_id f"
proof -
  assume "durableFacts env f = Some g"
  then obtain h k where h: "fleetMachineFactsSchema env f = Some h" and k: "fleetMachineFactsSchema env k = Some g" "ff_id k = ff_id h"
    by (auto simp: durableFacts_def bind_eq_Some_conv split: if_splits)
  then show ?thesis using facts_idem [OF k(1)] facts_id [OF k(1)] facts_id [OF h] by simp
qed

lemma keeps_stage:
  "fleet_laws env \<Longrightarrow> fleetOperationSchema env p = Some p \<Longrightarrow> \<not> is_enroll p \<or> op_machine p \<in> A \<Longrightarrow>
   fa_keeps (fleet_in env A) (stage_operation env clock p)"
proof -
  assume a: "fleet_laws env" "fleetOperationSchema env p = Some p" and p: "\<not> is_enroll p \<or> op_machine p \<in> A"
  define f where "f = stage_operation env clock p"
  have "advances f" unfolding f_def stage_operation_def by (auto intro!: advances_intros)
  then have "fa_keeps (fleet_in env A) (fleet_transaction f)"
    using stage_ok [OF a, of _ clock] fleet_in_uuid p by (intro keeps_transaction) (fastforce simp: f_def fleet_in_def split: if_splits)+
  moreover have "fleet_transaction f = f" by (rule ext) (simp add: f_def stage_operation_def fleet_transaction_def split: prod.splits sum.splits)
  ultimately show ?thesis by (simp add: f_def)
qed

lemma keeps_bind_value: "fa_keeps I f \<Longrightarrow> (\<And>st st' a. I st \<Longrightarrow> f st = (st', Inr a) \<Longrightarrow> fa_keeps I (g a)) \<Longrightarrow> fa_keeps I (fa_bind f g)"
  unfolding fa_keeps_def fa_bind_def by (fastforce split: prod.splits sum.splits)

lemma keeps_parse_bind: "(\<And>a. v = Some a \<Longrightarrow> fa_keeps I (g a)) \<Longrightarrow> fa_keeps I (fa_bind (fa_parse v) g)"
  by (cases v) (simp_all add: fa_keeps_def fa_bind_def fa_parse_def fa_return_def fa_throw_def)

lemma keeps_valid_rows:
  "fleet_laws env \<Longrightarrow> fa_keeps (fleet_in env A) (fleet_transaction (validRows env P selfId nowMs))"
  using fleet_in_uuid by (rule keeps_transaction) (auto simp: fleet_in_def intro: advances_intros dest: valid_rows_ok)

lemma keeps_record: "fleet_laws env \<Longrightarrow> ff_id facts \<in> A \<Longrightarrow> fa_keeps (fleet_in env A) (record_machine env facts nowMs clock)"
  unfolding record_machine_def
proof (rule keeps_parse_bind, rule keeps_transaction [OF fleet_in_uuid])
  fix m st st' u
  assume laws: "fleet_laws env" and ok: "fleet_in env A st" and m: "durableFacts env facts = Some m" "ff_id facts \<in> A"
    and run: "fa_bind (requireSpace env clock (ff_id m)) (\<lambda>_. writeMachine m nowMs None) st = (st', Inr u)"
  then obtain st1 v where r: "requireSpace env clock (ff_id m) st = (st1, Inr v)" and w: "writeMachine m nowMs None st1 = (st', Inr u)"
    by (auto simp: fleet_run)
  have o: "fleet_ok env st1 \<and> admitted st1 \<subseteq> A \<and> (ff_id m \<in> admitted st1 \<or> card (admitted st1) < maximumFleetMachines)"
    using require_space_ok [OF laws _ r] ok by (auto simp: fleet_in_def)
  then show "fleet_in env A st'" using write_machine_ok [OF _ _ w] durable_ok [OF m(1)] m(2) by (auto simp: fleet_in_def)
qed (auto intro!: advances_intros)

lemma keeps_stage_enrollment: "fleet_laws env \<Longrightarrow> ff_id facts \<in> A \<Longrightarrow> fa_keeps (fleet_in env A) (stageEnrollment env facts digest nowMs claim clock)"
  unfolding stageEnrollment_def
  by (intro keeps_bind [OF keeps_uuid [OF fleet_in_uuid]] keeps_parse_bind keeps_bind [OF keeps_stage] keeps_simple)
    (assumption | erule operation_idem [THEN conjunct1] | drule operation_idem, simp)+

lemma keeps_stage_forget: "fleet_laws env \<Longrightarrow> fa_keeps (fleet_in env A) (stageForget env machine digest nowMs)"
  unfolding stageForget_def
  by (intro keeps_bind [OF keeps_uuid [OF fleet_in_uuid]] keeps_parse_bind keeps_bind [OF keeps_stage] keeps_simple)
    (assumption | erule operation_idem [THEN conjunct1] | drule operation_idem, simp)+

lemma keeps_complete_enrollment: "fa_keeps (fleet_in env A) (completeEnrollment env i digest)"
  unfolding completeEnrollment_def
proof (rule keeps_transaction [OF fleet_in_uuid])
  fix st st' b
  assume inA: "fleet_in env A st" and run: "fa_bind (operation_of env i) (\<lambda>pending.
       case pending of
         Some (EnrollOperation _ _ _ facts staged _) \<Rightarrow>
           if staged \<noteq> digest then fa_return False
           else
             fa_bind (fa_parse (authenticated_at env facts)) (\<lambda>seen.
             fa_bind (writeMachine facts seen (Some staged)) (\<lambda>_.
             fa_bind (deleteOperation i) (\<lambda>_.
             fa_return True)))
       | _ \<Rightarrow> fa_return False) st = (st', Inr b)"
  then obtain pending st0 where p: "operation_of env i st = (st0, Inr pending)" by (auto simp: fleet_run)
  have st0: "st0 = st" using p by (auto simp: operation_of_def fleet_run)
  have ok: "fleet_ok env st" using inA by (simp add: fleet_in_def)
  show "fleet_in env A st'"
  proof (cases "\<exists>j m t facts c. pending = Some (EnrollOperation j m t facts digest c)")
    case False
    then have "st' = st" using run p st0 by (auto simp: fleet_run split: option.splits fleet_operation.splits if_splits)
    then show ?thesis using inA by simp
  next
    case True
    then obtain j m t facts c where e: "pending = Some (EnrollOperation j m t facts digest c)" by blast
    obtain seen st1 where w: "writeMachine facts seen (Some digest) st = (st1, Inr ())" and d: "deleteOperation i st1 = (st', Inr ())"
      using run p st0 e by (auto simp: fleet_run)
    obtain r where r: "r \<in> set (fd_operations st)" "or_id r = i" "or_payload r = Held (EnrollOperation j m t facts digest c)" "or_machine r = m"
      and schema: "fleetOperationSchema env (EnrollOperation j m t facts digest c) = Some (EnrollOperation j m t facts digest c)"
      using operation_found [OF ok p [unfolded e]] by auto
    have "ff_id facts = m" using schema by (auto split: option.splits if_splits)
    then have "ff_id facts \<in> admitted st" using under_kind [OF r(1,3)] r(4) by (simp add: admitted_def)
    then have ok1: "fleet_ok env st1" "admitted st1 \<subseteq> admitted st" using write_machine_ok [OF ok _ w] by blast+
    have "fd_operations st1 = fd_operations st" using w by (simp add: writeMachine_def fleet_run)
    then show ?thesis using keeps_delete [OF ok1(1) _ r(2,3) d] r(1) ok1(2) inA by (auto simp: fleet_in_def)
  qed
qed (auto intro!: advances_intros split: option.split fleet_operation.split)

lemma operation_of_same: "operation_of env i st = (st', r) \<Longrightarrow> st' = st"
  by (auto simp: operation_of_def fa_get_def)

lemma keeps_operation_call:
  assumes "\<And>p. advances (h p)"
    and "\<And>st st' b p r. fleet_ok env st \<Longrightarrow> r \<in> set (fd_operations st) \<Longrightarrow> or_id r = i \<Longrightarrow> or_payload r = Held p \<Longrightarrow> or_machine r = op_machine p \<Longrightarrow>
      fleetOperationSchema env p = Some p \<Longrightarrow> h (Some p) st = (st', Inr b) \<Longrightarrow> fleet_ok env st' \<and> admitted st' \<subseteq> admitted st"
    and "\<And>st. h None st = (st, Inr False)"
  shows "fa_keeps (fleet_in env A) (fleet_transaction (fa_bind (operation_of env i) h))"
proof (rule keeps_transaction [OF fleet_in_uuid])
  show "advances (fa_bind (operation_of env i) h)" using assms(1) by (auto intro!: advances_intros)
next
  fix st st' b
  assume inA: "fleet_in env A st" and "fa_bind (operation_of env i) h st = (st', Inr b)"
  then obtain pending st0 where p: "operation_of env i st = (st0, Inr pending)" and run: "h pending st0 = (st', Inr b)"
    by (auto simp: fleet_run)
  note same = operation_of_same [OF p]
  have ok: "fleet_ok env st" using inA by (simp add: fleet_in_def)
  show "fleet_in env A st'"
  proof (cases pending)
    case None
    then show ?thesis using inA run same assms(3) by simp
  next
    case (Some p')
    then have "fleet_ok env st' \<and> admitted st' \<subseteq> admitted st"
      using operation_found [OF ok p [unfolded Some]] assms(2) [OF ok] run same by blast
    then show ?thesis using inA by (auto simp: fleet_in_def)
  qed
qed

lemma keeps_abort: "fa_keeps (fleet_in env A) (abortEnrollment env i)"
  unfolding abortEnrollment_def
proof (rule keeps_operation_call, goal_cases)
  case (1 p)
  show ?case by (auto intro!: advances_intros split: option.split fleet_operation.split)
next
  case (2 st st' b p r)
  show ?case
  proof (cases p)
    case (EnrollOperation j m t f d c)
    then obtain st1 where h: "set_health (\<lambda>r. fw_id r = m) (health_text PairingRequired) st = (st1, Inr ())"
      and d: "deleteOperation i st1 = (st', Inr ())" using 2(7) by (auto simp: fleet_run)
    note o = set_health_ok [OF 2(1) h]
    show ?thesis using keeps_delete [OF _ _ 2(3,4) d] o 2(2) EnrollOperation by auto
  next
    case (ForgetOperation j m t d b)
    then show ?thesis using 2(1,7) by (simp add: fleet_run)
  qed
next
  case (3 st)
  show ?case by (simp add: fa_return_def)
qed

lemma keeps_confirm: "fa_keeps (fleet_in env A) (confirmRemoteRevocation env i)"
  unfolding confirmRemoteRevocation_def
proof (rule keeps_operation_call, goal_cases)
  case (1 p)
  show ?case by (auto intro!: advances_intros split: option.split fleet_operation.split)
next
  case (2 st st' b p r)
  show ?case
  proof (cases p)
    case (EnrollOperation j m t f d c)
    then show ?thesis using 2(1,7) by (simp add: fleet_run)
  next
    case (ForgetOperation j m t d b)
    define g :: "operation_row \<Rightarrow> operation_row" where "g = (\<lambda>r. if or_id r = i then r\<lparr>or_payload := Held (ForgetOperation j m t d True)\<rparr> else r)"
    have st': "st' = st\<lparr>fd_operations := map g (fd_operations st)\<rparr>" using 2(7) ForgetOperation by (auto simp: fleet_run g_def)
    have only: "q = r" if "q \<in> set (fd_operations st)" "or_id q = i" for q
      using 2(1,2,3) that by (auto simp: fleet_ok_def journal_ok_def distinct_map inj_on_def)
    have same: "or_id (g q) = or_id q" "or_machine (g q) = or_machine q" for q by (simp_all add: g_def)
    have id: "or_id r = op_id p" using 2(1,2,4) by (fastforce simp: fleet_ok_def journal_ok_def journal_row_ok_def)
    have row: "journal_row_ok env (g q) \<and> (row_kind e (g q) \<longleftrightarrow> row_kind e q)" if "q \<in> set (fd_operations st)" for q e
    proof (cases "or_id q = i")
      case True
      then have "q = r" using only that by blast
      then show ?thesis using 2(3-6) True ForgetOperation id by (auto simp: g_def journal_row_ok_def row_kind_def operation_fields_def split: if_splits)
    next
      case False
      then show ?thesis using 2(1) that by (simp add: g_def fleet_ok_def journal_ok_def)
    qed
    have "machines_under e st' = machines_under e st" for e
    proof -
      have "{q \<in> set (map g (fd_operations st)). row_kind e q} = g ` {q \<in> set (fd_operations st). row_kind e q}" using row by auto
      then show ?thesis by (simp add: machines_under_def st' image_image same)
    qed
    then have "admitted st' = admitted st" by (simp add: admitted_def live_ids_def st')
    moreover have "journal_ok env st'" using 2(1) row by (auto simp: fleet_ok_def journal_ok_def st' comp_def same)
    ultimately show ?thesis using 2(1) by (simp add: fleet_ok_def marks_ok_def st')
  qed
next
  case (3 st)
  show ?case by (simp add: fa_return_def)
qed

lemma keeps_complete_forget: "fa_keeps (fleet_in env A) (completeForget env i)"
  unfolding completeForget_def
proof (rule keeps_operation_call, goal_cases)
  case (1 p)
  show ?case by (auto intro!: advances_intros split: option.split fleet_operation.split)
next
  case (2 st st' b p r)
  show ?case
  proof (cases p)
    case (EnrollOperation j m t f d c)
    then show ?thesis using 2(1,7) by (simp add: fleet_run)
  next
    case (ForgetOperation j m t d b)
    then have st': "st' = st\<lparr>fd_machines := filter (\<lambda>r. fw_id r \<noteq> m) (fd_machines st), fd_operations := filter (\<lambda>r. or_id r \<noteq> i) (fd_operations st)\<rparr>"
      using 2(7) by (auto simp: fleet_run deleteOperation_def)
    then have ops: "fd_operations st' = filter (\<lambda>r. or_id r \<noteq> i) (fd_operations st)" by simp
    have "live_ids st' = live_ids st - {m}" by (auto simp: live_ids_def st')
    then have "admitted st' \<subseteq> admitted st"
      using 2(5) ForgetOperation unfolding admitted_def delete_under [OF 2(1-4) ops] by (auto split: if_splits)
    then show ?thesis using fewer_ok [OF 2(1), of st'] by (simp add: st')
  qed
next
  case (3 st)
  show ?case by (simp add: fa_return_def)
qed

lemma current_admitted: "list_ex (current_row st m d) (fd_machines st) \<Longrightarrow> m \<in> admitted st"
  by (fastforce simp: list_ex_iff current_row_def admitted_def live_ids_def machines_under_def has_operation_def)

lemma keeps_refresh: "fa_keeps (fleet_in env A) (refreshAuthenticated env facts digest nowMs)"
  unfolding refreshAuthenticated_def
proof (rule keeps_parse_bind, rule keeps_transaction [OF fleet_in_uuid], goal_cases)
  case (1 m)
  show ?case by (auto intro!: advances_intros)
next
  case (2 m st st' a)
  then show ?case
    using write_machine_ok [of env st m nowMs "Some digest"] current_admitted
    by (fastforce simp: fleet_run fleet_in_def split: if_splits)
qed

lemma keeps_failure: "fa_keeps (fleet_in env A) (recordFailure env machine digest failure)"
proof -
  have "fa_keeps (fleet_in env A) (set_health P h)" for P h
    using set_health_ok by (fastforce simp: fa_keeps_def set_health_def fa_put_def fleet_in_def)
  then show ?thesis unfolding recordFailure_def by (intro keeps_parse_bind keeps_bind keeps_simple)
qed

lemma keeps_readers:
  assumes "fleet_laws env"
  shows "fa_keeps (fleet_in env A) (lookupMachine env machine selfId nowMs)" "fa_keeps (fleet_in env A) (enrolled env clock)"
    "fa_keeps (fleet_in env A) (pendingForgetEnrollment env i clock)"
proof -
  show "fa_keeps (fleet_in env A) (lookupMachine env machine selfId nowMs)"
    unfolding lookupMachine_def
    by (intro keeps_bind keeps_valid_rows assms) (simp split: list.split add: keeps_simple)
  show "fa_keeps (fleet_in env A) (enrolled env clock)"
    unfolding enrolled_def by (intro keeps_bind keeps_valid_rows assms keeps_simple)
  show "fa_keeps (fleet_in env A) (pendingForgetEnrollment env i clock)"
    unfolding pendingForgetEnrollment_def
    by (intro keeps_bind keeps_operation_of)
      (auto split: option.split fleet_operation.split list.split intro!: keeps_bind keeps_valid_rows assms keeps_simple)
qed

text \<open>What a snapshot has read when it answers; only the scan writes.\<close>

lemma snapshot_run:
  "snapshot env selfId nowMs ids st = (st', Inr s) \<Longrightarrow> \<exists>rows. validRows env (\<lambda>_ _. True) selfId nowMs st = (st', Inr rows)"
  by (auto simp: snapshot_def pendingOperations_def fleet_run split: option.splits)

lemma advances_snapshot: "advances (snapshot env selfId nowMs ids)"
  unfolding snapshot_def by (auto intro!: advances_intros)

lemma keeps_snapshot: "fleet_laws env \<Longrightarrow> fa_keeps (fleet_in env A) (snapshot env selfId nowMs ids)"
proof -
  assume laws: "fleet_laws env"
  define f where "f = snapshot env selfId nowMs ids"
  have "fa_keeps (fleet_in env A) (fleet_transaction f)"
    unfolding f_def
  proof (rule keeps_transaction [OF fleet_in_uuid advances_snapshot])
    fix st st' s
    assume "fleet_in env A st" "snapshot env selfId nowMs ids st = (st', Inr s)"
    then show "fleet_in env A st'" using snapshot_run valid_rows_ok [OF laws] unfolding fleet_in_def by blast
  qed
  moreover have "fleet_transaction f = f" by (rule ext) (simp add: f_def snapshot_def fleet_transaction_def split: prod.splits sum.splits)
  ultimately show ?thesis by (simp add: f_def)
qed

section \<open>Runs\<close>

datatype fleet_call =
    CallRecord fleet_facts int int
  | CallSnapshot string int "string list"
  | CallLookup string string int
  | CallEnrolled int
  | CallStageEnrollment fleet_facts string int "claim_receipt option" int
  | CallStageForget string "string option" int
  | CallCompleteEnrollment string string
  | CallAbortEnrollment string
  | CallConfirmRevocation string
  | CallPendingForget string int
  | CallCompleteForget string
  | CallRefresh fleet_facts string int
  | CallFailure string string js_string
  | RowDamaged fleet_row

text \<open>
  Damage of a machine's row on disk: any column may read differently but its identity, by which the
  row is found, and its marks. A row whose marks were cleared is one that was repaired offline, and
  is live again; a diagnostic that no longer reads is quarantined anew (\<open>row_fault\<close>).
\<close>

definition damage :: "fleet_row \<Rightarrow> fleet_db \<Rightarrow> fleet_db" where
  "damage bad st = st\<lparr>fd_machines := map (\<lambda>r. if fw_id r = fw_id bad
     then bad\<lparr>fw_quarantineId := fw_quarantineId r, fw_quarantinedAt := fw_quarantinedAt r, fw_quarantineReason := fw_quarantineReason r\<rparr>
     else r) (fd_machines st)\<rparr>"

fun fleet_step :: "fleet_env \<Rightarrow> fleet_call \<Rightarrow> fleet_db \<Rightarrow> fleet_db" where
  "fleet_step env (CallRecord facts nowMs clock) st = fst (record_machine env facts nowMs clock st)"
| "fleet_step env (CallSnapshot selfId nowMs ids) st = fst (snapshot env selfId nowMs ids st)"
| "fleet_step env (CallLookup machine selfId nowMs) st = fst (lookupMachine env machine selfId nowMs st)"
| "fleet_step env (CallEnrolled clock) st = fst (enrolled env clock st)"
| "fleet_step env (CallStageEnrollment facts digest nowMs claim clock) st = fst (stageEnrollment env facts digest nowMs claim clock st)"
| "fleet_step env (CallStageForget machine digest nowMs) st = fst (stageForget env machine digest nowMs st)"
| "fleet_step env (CallCompleteEnrollment i digest) st = fst (completeEnrollment env i digest st)"
| "fleet_step env (CallAbortEnrollment i) st = fst (abortEnrollment env i st)"
| "fleet_step env (CallConfirmRevocation i) st = fst (confirmRemoteRevocation env i st)"
| "fleet_step env (CallPendingForget i clock) st = fst (pendingForgetEnrollment env i clock st)"
| "fleet_step env (CallCompleteForget i) st = fst (completeForget env i st)"
| "fleet_step env (CallRefresh facts digest nowMs) st = fst (refreshAuthenticated env facts digest nowMs st)"
| "fleet_step env (CallFailure machine digest failure) st = fst (recordFailure env machine digest failure st)"
| "fleet_step env (RowDamaged bad) st = damage bad st"

lemma damage_ok: "fleet_ok env st \<Longrightarrow> fleet_ok env (damage bad st) \<and> admitted (damage bad st) = admitted st"
proof -
  assume ok: "fleet_ok env st"
  define f :: "fleet_row \<Rightarrow> fleet_row" where "f = (\<lambda>r. if fw_id r = fw_id bad
     then bad\<lparr>fw_quarantineId := fw_quarantineId r, fw_quarantinedAt := fw_quarantinedAt r, fw_quarantineReason := fw_quarantineReason r\<rparr>
     else r)"
  have st': "damage bad st = st\<lparr>fd_machines := map f (fd_machines st)\<rparr>" by (simp add: damage_def f_def)
  have same: "fw_id (f r) = fw_id r" "marked (f r) = marked r" "fw_quarantineId (f r) = fw_quarantineId r"
    "mark_ok env n (f r) = mark_ok env n r" for r n
    by (simp_all add: marked_def mark_ok_def f_def)
  have "{r \<in> set (map f (fd_machines st)). \<not> marked r} = f ` {r \<in> set (fd_machines st). \<not> marked r}" using same(2) by auto
  then have live: "live_ids (damage bad st) = live_ids st" by (simp add: live_ids_def st' image_image same(1))
  have "filter marked (map f (fd_machines st)) = map f (filter marked (fd_machines st))"
    unfolding filter_map comp_def same by simp
  then have "map fw_quarantineId (filter marked (map f (fd_machines st))) = map fw_quarantineId (filter marked (fd_machines st))"
    by (simp add: comp_def same)
  then have "marks_ok env (damage bad st)" using ok same by (auto simp: fleet_ok_def marks_ok_def st')
  moreover have "map fw_id (fd_machines (damage bad st)) = map fw_id (fd_machines st)" by (simp add: comp_def same st')
  moreover have ops: "fd_operations (damage bad st) = fd_operations st" by (simp add: st')
  moreover have "admitted (damage bad st) = admitted st" unfolding admitted_def machines_under_def live ops ..
  ultimately show ?thesis using ok unfolding fleet_ok_def journal_ok_def by metis
qed

text \<open>The calls that may admit a machine: the daemon's own record, and a new enrolment.\<close>

fun admits :: "string \<Rightarrow> fleet_call \<Rightarrow> bool" where
  "admits m (CallRecord facts _ _) \<longleftrightarrow> ff_id facts = m"
| "admits m (CallStageEnrollment facts _ _ _ _) \<longleftrightarrow> ff_id facts = m"
| "admits m _ \<longleftrightarrow> False"

lemma fa_keepsD: "fa_keeps I f \<Longrightarrow> I st \<Longrightarrow> I (fst (f st))"
  by (simp add: fa_keeps_def)

lemma damage_in: "fleet_in env A st \<Longrightarrow> fleet_in env A (damage bad st)"
  unfolding fleet_in_def using damage_ok by metis

lemmas keeps_calls = keeps_record keeps_stage_enrollment keeps_stage_forget keeps_complete_enrollment keeps_abort keeps_confirm
  keeps_complete_forget keeps_refresh keeps_failure keeps_readers keeps_snapshot

lemma step_keeps:
  assumes "fleet_laws env" "fleet_in env A st" "\<And>m. admits m call \<Longrightarrow> m \<in> A"
  shows "fleet_in env A (fleet_step env call st)"
  using assms by (cases call) (simp_all add: keeps_calls [THEN fa_keepsD] damage_in)

lemma step_ok: "fleet_laws env \<Longrightarrow> fleet_ok env st \<Longrightarrow> fleet_ok env (fleet_step env call st)"
  using step_keeps [of env UNIV st call] by (simp add: fleet_in_def)

lemma step_not_admitted:
  "fleet_laws env \<Longrightarrow> fleet_ok env st \<Longrightarrow> m \<notin> admitted st \<Longrightarrow> \<not> admits m call \<Longrightarrow> m \<notin> admitted (fleet_step env call st)"
  using step_keeps [of env "- {m}" st call] by (auto simp: fleet_in_def)

interpretation fleet: machine_invariant "fleet_step env" "\<lambda>st. fleet_laws env \<and> fleet_ok env st" for env
  by unfold_locales (simp add: step_ok)

definition step_unless :: "fleet_env \<Rightarrow> (fleet_call \<Rightarrow> bool) \<Rightarrow> fleet_call \<Rightarrow> fleet_db \<Rightarrow> fleet_db" where
  "step_unless env P call st = (if P call then st else fleet_step env call st)"

lemma run_unless: "list_all (\<lambda>c. \<not> P c) calls \<Longrightarrow> fold (step_unless env P) calls st = fold (fleet_step env) calls st"
  by (induction calls arbitrary: st) (auto simp: step_unless_def)

interpretation outside: machine_stable "step_unless env (admits m)" "\<lambda>st. fleet_laws env \<and> fleet_ok env st" "\<lambda>st. m \<notin> admitted st" for env m
  by unfold_locales (auto simp: step_unless_def step_ok step_not_admitted)

lemma new_fleet_ok: "fleet_ok env new_fleet"
  by (simp add: fleet_ok_def journal_ok_def marks_ok_def admitted_def live_ids_def machines_under_def new_fleet_def)

lemma reachable_ok: "fleet_laws env \<Longrightarrow> fleet_ok env (fold (fleet_step env) calls new_fleet)"
  using fleet.inv_run [of env new_fleet calls] new_fleet_ok by blast

section \<open>Properties\<close>

text \<open>
  C18. The fleet never outgrows its limit: over any sequence of calls, failing ones and rows damaged
  on disk included, there is one row and at most one unfinished operation per machine, at most 128
  machines are admitted (those enrolled and not being forgotten, and those whose enrolment is under
  way), and every quarantine mark can be read back.
\<close>

theorem fleet_stays_within_its_limit:
  assumes "fleet_laws env" and st: "st = fold (fleet_step env) calls new_fleet"
  shows "distinct (map fw_id (fd_machines st)) \<and> distinct (map or_machine (fd_operations st))
    \<and> card (admitted st) \<le> maximumFleetMachines
    \<and> list_all (\<lambda>r. \<not> marked r \<or> quarantinedEntry env r \<noteq> None) (fd_machines st)"
proof -
  have ok: "fleet_ok env st" using reachable_ok [OF assms(1)] by (simp add: st)
  then have "quarantinedEntry env r \<noteq> None" if "r \<in> set (fd_machines st)" "marked r" for r
    using that mark_entry [OF assms(1)] by (fastforce simp: fleet_ok_def marks_ok_def)
  then show ?thesis using ok by (auto simp: fleet_ok_def journal_ok_def list_all_iff)
qed

lemma forget_staged:
  assumes "stageForget env m digest nowMs st = (st', Inr p)"
  shows "m \<notin> admitted st'"
proof -
  obtain i t q st1 where q: "fleetOperationSchema env (ForgetOperation i m t digest False) = Some q"
    and run: "stage_operation env 0 q st1 = (st', Inr ())" and "p = q"
    using assms by (auto simp: stageForget_def fleet_run simp del: fleetOperationSchema.simps)
  then have "q = ForgetOperation i m t digest False" by (simp split: if_splits)
  then have none: "\<not> has_operation st1 m"
    and st': "st' = st1\<lparr>fd_operations := fd_operations st1 @ [\<lparr>or_id = i, or_machine = m, or_payload = Held q\<rparr>]\<rparr>"
    and q: "\<not> is_enroll q"
    using run by (auto simp: stage_operation_def fleet_run)
  let ?r = "\<lparr>or_id = i, or_machine = m, or_payload = Held q\<rparr>"
  have "?r \<in> set (fd_operations st')" "row_kind False ?r" using q by (simp_all add: st' row_kind_def)
  then have "m \<in> machines_under False st'" unfolding machines_under_def by force
  moreover have "\<not> row_kind True ?r" using q by (simp add: row_kind_def)
  then have "{r \<in> set (fd_operations st'). row_kind True r} = {r \<in> set (fd_operations st1). row_kind True r}" by (auto simp: st')
  then have "m \<notin> machines_under True st'" using none by (auto simp: machines_under_def has_operation_def list_ex_iff)
  ultimately show ?thesis by (simp add: admitted_def)
qed

lemma row_facts_id: "row_facts r = Some f \<Longrightarrow> ff_id f = fw_id r"
  by (auto simp: row_facts_def split: option.splits)

lemma read_facts_id: "readFacts env r = Inr f \<Longrightarrow> ff_id f = fw_id r"
proof -
  assume "readFacts env r = Inr f"
  then obtain g where "row_facts r = Some g" "fleetMachineFactsSchema env g = Some f"
    by (auto simp: readFacts_def parse_or_def bind_eq_Some_conv split: if_splits option.splits)
  then show ?thesis using row_facts_id facts_id by metis
qed

lemma unoccupied_admitted: "r \<in> set (fd_machines st) \<Longrightarrow> \<not> marked r \<Longrightarrow> \<not> has_operation st (fw_id r) \<Longrightarrow> fw_id r \<in> admitted st"
  by (auto simp: admitted_def live_ids_def machines_under_def has_operation_def list_ex_iff)

lemma lookup_admitted:
  assumes "fleet_laws env" "fleet_ok env st" "lookupMachine env m selfId nowMs st = (st', Inr (Some x))"
  shows "m \<in> admitted st"
proof -
  obtain st1 rows where rows: "validRows env (\<lambda>st r. fw_id r = m \<and> \<not> has_operation st (fw_id r)) selfId nowMs st = (st1, Inr rows)"
    and found: "(case rows of [] \<Rightarrow> fa_return None
       | r # _ \<Rightarrow> fa_parse (case readMachine env r selfId nowMs of Inr m \<Rightarrow> Some (Some m) | Inl _ \<Rightarrow> None)) st1 = (st', Inr (Some x))"
    using assms(3) unfolding lookupMachine_def by (auto simp only: fleet_run)
  then obtain r rs where "rows = r # rs" by (cases rows) (auto simp: fleet_run)
  note v = valid_rows_ok [OF assms(1,2) rows [unfolded this]]
  then have "r \<in> set (fd_machines st)" "fw_id r = m" "\<not> has_operation st (fw_id r)" "\<not> marked r" by auto
  then show ?thesis using unoccupied_admitted by blast
qed

lemma enrolled_admitted:
  assumes "fleet_laws env" "fleet_ok env st" "enrolled env clock st = (st', Inr es)" "e \<in> set es"
  shows "ff_id (em_facts e) \<in> admitted st"
proof -
  obtain st1 rows where rows: "validRows env (\<lambda>st r. fw_credential r \<noteq> None \<and> \<not> has_operation st (fw_id r)) [] clock st = (st1, Inr rows)"
    and es: "map (enrolled_of env) rows = map Some es"
    using assms(3) by (auto simp: enrolled_def fleet_run all_some_iff)
  note v = valid_rows_ok [OF assms(1,2) rows]
  have "Some e \<in> set (map (enrolled_of env) rows)" unfolding es using assms(4) by simp
  then obtain r where r: "r \<in> set rows" "enrolled_of env r = Some e" by auto
  then have "ff_id (em_facts e) = fw_id r"
    by (auto simp: enrolled_of_def read_facts_id split: sum.splits option.splits if_splits)
  then show ?thesis using unoccupied_admitted v r(1) by auto
qed

lemma refresh_admitted:
  "refreshAuthenticated env facts digest nowMs st = (st', Inr True) \<Longrightarrow> ff_id facts \<in> admitted st"
  using current_admitted by (fastforce simp: refreshAuthenticated_def fleet_run dest: durable_ok split: if_splits)

text \<open>
  C5. Forgetting is final: from the moment a forget is staged, no sequence of calls without the
  daemon's own record of that machine or a new enrolment of it brings the machine back. It is not
  looked up, not among the enrolled machines, and a late authenticated contact does not write it.
\<close>

theorem forgetting_is_final:
  assumes "fleet_laws env" and "stageForget env m digest nowMs (fold (fleet_step env) before_calls new_fleet) = (st, Inr p)"
    and "list_all (\<lambda>c. \<not> admits m c) calls" and st': "st' = fold (fleet_step env) calls st"
  shows "m \<notin> admitted st'
    \<and> snd (lookupMachine env m selfId t st') \<noteq> Inr (Some x)
    \<and> (\<forall>es. snd (enrolled env t st') = Inr es \<longrightarrow> m \<notin> set (map (ff_id \<circ> em_facts) es))
    \<and> (ff_id facts = m \<longrightarrow> snd (refreshAuthenticated env facts secret t st') \<noteq> Inr True)"
proof -
  let ?st0 = "fold (fleet_step env) before_calls new_fleet"
  have "fleet_ok env st"
    using fa_keepsD [OF keeps_stage_forget [OF assms(1), of UNIV m digest nowMs], of ?st0] reachable_ok [OF assms(1)] assms(2)
    by (simp add: fleet_in_def)
  then have out: "fleet_ok env st' \<and> m \<notin> admitted st'"
    using outside.stable_run [of env st m calls] outside.inv_run [of env st m calls] forget_staged [OF assms(2)] assms(1)
    unfolding run_unless [OF assms(3)] st' by blast
  have "snd (lookupMachine env m selfId t st') \<noteq> Inr (Some x)"
    using lookup_admitted [OF assms(1), of st' m selfId t] out by (metis prod.collapse)
  moreover have "m \<notin> set (map (ff_id \<circ> em_facts) es)" if "snd (enrolled env t st') = Inr es" for es
  proof -
    have "enrolled env t st' = (fst (enrolled env t st'), Inr es)" using that by (metis prod.collapse)
    then show ?thesis using enrolled_admitted [OF assms(1)] out by auto
  qed
  moreover have "snd (refreshAuthenticated env facts secret t st') \<noteq> Inr True" if "ff_id facts = m"
    using refresh_admitted [of env facts secret t st'] out that by (metis prod.collapse)
  ultimately show ?thesis using out by blast
qed

section \<open>Witnesses\<close>

definition sample_fleet :: fleet_env where
  "sample_fleet = \<lparr>fe_url = (\<lambda>_. None), fe_is_url = (\<lambda>_. False), fe_is_uuid = (\<lambda>_. True), fe_date = (\<lambda>_. True), fe_iso = (\<lambda>_. []),
     fe_date_parse = (\<lambda>_. Some 0), fe_uuid = (\<lambda>k. replicate k (CHR ''a'')), fe_audit = (\<lambda>_. True), fe_redact = (\<lambda>s. (s, False)),
     fe_index_le = (\<lambda>_ _. True), fe_locale_le = (\<lambda>_ _. True)\<rparr>"

definition sample_machine :: string where
  "sample_machine = ''machine-'' @ replicate 32 (CHR ''a'')"

lemma sample_fleet_laws: "fleet_laws sample_fleet"
proof -
  have "inj (\<lambda>k. replicate k (CHR ''a''))" by (rule injI) (metis length_replicate)
  then show ?thesis by (simp add: fleet_laws_def sample_fleet_def)
qed

lemma sample_machine_id: "machineIdSchema sample_machine"
  unfolding sample_machine_def machineIdSchema_def tagged_hex_replicate by (simp add: hex_lower_def)

theorem fleet_stays_within_its_limit_witness:
  "card (admitted (fold (fleet_step sample_fleet) [CallStageForget sample_machine None 0] new_fleet)) \<le> maximumFleetMachines"
  using fleet_stays_within_its_limit [OF sample_fleet_laws refl, of "[CallStageForget sample_machine None 0]"] by blast

lemma sample_forget: "\<exists>st p. stageForget sample_fleet sample_machine None 0 new_fleet = (st, Inr p)"
  by (simp add: stageForget_def stage_operation_def fleet_run iso_date_def date_range_def operation_fields_def sample_machine_id has_operation_def new_fleet_def)
    (simp add: sample_fleet_def)

theorem forgetting_is_final_witness:
  "\<exists>st. sample_machine \<notin> admitted (fold (fleet_step sample_fleet) [CallEnrolled 0] st)"
proof -
  obtain st p where staged: "stageForget sample_fleet sample_machine None 0 (fold (fleet_step sample_fleet) [] new_fleet) = (st, Inr p)"
    using sample_forget by auto
  have others: "list_all (\<lambda>c. \<not> admits sample_machine c) [CallEnrolled 0]" by simp
  show ?thesis by (rule exI, rule conjunct1, rule forgetting_is_final [OF sample_fleet_laws staged others refl])
qed

end
