(* ===== verification/Fleet_Snapshot.thy ===== *)
theory Fleet_Snapshot
  imports Fleet_Lifecycle
begin

text \<open>
  What the daemon shows of its fleet: a snapshot of every reachable registry satisfies its schema,
  whatever rows of machines are damaged, unless it has more entries than can be shown, the audit log
  does not take a quarantine, or an unfinished operation cannot be read; then it is refused as a whole.
\<close>

section \<open>The parts of a snapshot\<close>

lemma quarantine_runs:
  "quarantine_row env nowMs r reason st = (st', x) \<Longrightarrow> date_range nowMs \<Longrightarrow>
     fd_operations st' = fd_operations st \<and> (case x of Inl e \<Rightarrow> e = FleetThrown \<and> (\<exists>k. \<not> fe_audit env k) | Inr _ \<Rightarrow> True)"
  by (auto simp: quarantine_row_def append_audit_def fa_bind_def randomUUID_def fa_parse_def fa_return_def iso_date_def fa_put_def
      fa_get_def fa_require_def fa_throw_def split: if_splits)

text \<open>A scan leaves the journal alone, and fails only when the audit log does not take a quarantine.\<close>

lemma scan_runs:
  "scan_rows env selfId nowMs rows st = (st', x) \<Longrightarrow> date_range nowMs \<Longrightarrow>
     fd_operations st' = fd_operations st \<and> (case x of Inl e \<Rightarrow> e = FleetThrown \<and> (\<exists>k. \<not> fe_audit env k) | Inr _ \<Rightarrow> True)"
proof (induction rows arbitrary: st st' x)
  case Nil
  then show ?case by (auto simp: fa_return_def)
next
  case (Cons r rs)
  show ?case
  proof (cases "row_fault env selfId nowMs r")
    case None
    obtain st1 y where y: "scan_rows env selfId nowMs rs st = (st1, y)" by (cases "scan_rows env selfId nowMs rs st")
    then show ?thesis
      using None Cons.IH [OF y Cons.prems(2)] Cons.prems(1) by (cases y) (auto simp: fa_bind_def fa_return_def)
  next
    case (Some reason)
    obtain st1 y where y: "quarantine_row env nowMs r reason st = (st1, y)" by (cases "quarantine_row env nowMs r reason st")
    note q = quarantine_runs [OF y Cons.prems(2)]
    show ?thesis
    proof (cases y)
      case (Inl e)
      then show ?thesis using q Some y Cons.prems(1) by (auto simp: fa_bind_def)
    next
      case (Inr u)
      then have "scan_rows env selfId nowMs rs st1 = (st', x)" using Some y Cons.prems(1) by (simp add: fa_bind_def)
      then show ?thesis using Cons.IH [of st1 st' x] Cons.prems(2) q by simp
    qed
  qed
qed

lemma machine_idem:
  assumes "readMachine env r selfId nowMs = Inr m"
  shows "fleetMachineSchema env m = Some m \<and> ff_id (fm_facts m) = fw_id r \<and> fm_self m = (fw_id r = selfId)"
proof -
  obtain m0 f where f: "readFacts env r = Inr f" and m0: "fleetMachineSchema env m0 = Some m" "fm_facts m0 = f" "fm_self m0 = (fw_id r = selfId)"
    using assms by (auto simp: readMachine_def parse_or_def result_simps Let_def split: option.splits if_splits)
  then obtain g where g: "fleetMachineFactsSchema env f = Some g" "m = m0\<lparr>fm_facts := g\<rparr>"
      "fe_date env (fm_lastSeenAt m0)" "\<not> (fm_self m0 \<and> ff_verifiedRoute g \<noteq> None)"
    by (auto simp: fleetMachineSchema_def split: option.splits if_splits)
  then show ?thesis
    using facts_idem [OF g(1)] facts_id [OF g(1)] read_facts_id [OF f] m0(3) by (simp add: fleetMachineSchema_def)
qed

definition entries_ok :: "fleet_env \<Rightarrow> string \<Rightarrow> (string, fleet_entry) jsmap \<Rightarrow> bool" where
  "entries_ok env selfId entries \<longleftrightarrow> jm_ok entries
     \<and> (\<forall>(k, e) \<in> set entries. fleetEntryMachineId e = k \<and> fleetEntrySchema env e = Some e \<and> (is_self_entry e \<longrightarrow> k = selfId))"

definition machine_keys :: "(string, fleet_entry) jsmap \<Rightarrow> string set" where
  "machine_keys entries = {k. \<exists>m. (k, MachineEntry m) \<in> set entries}"

lemma jm_set_pairs: "p \<in> set (jm_set k v m) \<Longrightarrow> p = (k, v) \<or> p \<in> set m \<and> (jm_ok m \<longrightarrow> fst p \<noteq> k)"
  by (induction k v m rule: jm_set.induct) (auto simp: jm_ok_def split: if_splits)

lemma entries_set:
  assumes "entries_ok env selfId entries" "fleetEntryMachineId e = k" "fleetEntrySchema env e = Some e" "is_self_entry e \<longrightarrow> k = selfId"
  shows "entries_ok env selfId (jm_set k e entries)"
  using assms jm_set_pairs unfolding entries_ok_def by fastforce

lemma keys_set: "jm_ok m \<Longrightarrow> machine_keys (jm_set k e m) \<subseteq> (if is_machine_entry e then insert k (machine_keys m) else machine_keys m - {k})"
  using jm_set_pairs unfolding machine_keys_def by (fastforce split: if_splits)

lemma put_machines_ok:
  "\<forall>r \<in> set rows. \<exists>m. readMachine env r selfId nowMs = Inr m \<Longrightarrow> entries_ok env selfId entries \<Longrightarrow>
   \<exists>entries'. put_machines env selfId nowMs rows entries = Some entries' \<and> entries_ok env selfId entries'
     \<and> machine_keys entries' \<subseteq> machine_keys entries \<union> fw_id ` set rows"
proof (induction rows arbitrary: entries)
  case (Cons r rs)
  obtain m where m: "readMachine env r selfId nowMs = Inr m" using Cons.prems(1) by auto
  have ok: "entries_ok env selfId (jm_set (fw_id r) (MachineEntry m) entries)"
    using machine_idem [OF m] by (intro entries_set [OF Cons.prems(2)]) simp_all
  have "machine_keys (jm_set (fw_id r) (MachineEntry m) entries) \<subseteq> insert (fw_id r) (machine_keys entries)"
    using keys_set [of entries "fw_id r" "MachineEntry m"] Cons.prems(2) by (simp add: entries_ok_def)
  then show ?case using Cons.IH [OF _ ok] Cons.prems(1) m by fastforce
qed simp

lemma put_unenrolled_ids: "put_unenrolled quarantinedIds is entries = Some entries' \<Longrightarrow> list_all machineIdSchema is"
  by (induction "is" arbitrary: entries) (auto split: if_splits)

lemma put_machines_keys: "put_machines env selfId nowMs rows entries = Some entries' \<Longrightarrow> fst ` set entries' = fst ` set entries \<union> fw_id ` set rows"
  by (induction rows arbitrary: entries) (auto split: sum.splits)

lemma put_pending_keys: "put_pending env ps entries = Some entries' \<Longrightarrow> fst ` set entries' = fst ` set entries \<union> op_machine ` set ps"
  by (induction ps arbitrary: entries) (auto split: option.splits)

lemma put_pending_ok:
  "\<forall>p \<in> set ps. operation_fields env p \<Longrightarrow> entries_ok env selfId entries \<Longrightarrow>
   \<exists>entries'. put_pending env ps entries = Some entries' \<and> entries_ok env selfId entries'
     \<and> machine_keys entries' \<subseteq> machine_keys entries - op_machine ` set ps"
proof (induction ps arbitrary: entries)
  case (Cons p ps)
  let ?e = "PendingEntry (op_id p) (op_machine p) (is_enroll p) (op_startedAt p)"
  have e: "fleetOperationSummary env p = Some ?e" "fleetEntrySchema env ?e = Some ?e"
    using Cons.prems(1) by (simp_all add: fleetOperationSummary_def operation_fields_def)
  have ok: "entries_ok env selfId (jm_set (op_machine p) ?e entries)"
    by (rule entries_set [OF Cons.prems(2) _ e(2)]) simp_all
  have "machine_keys (jm_set (op_machine p) ?e entries) \<subseteq> machine_keys entries - {op_machine p}"
    using keys_set [of entries "op_machine p" ?e] Cons.prems(2) by (simp add: entries_ok_def)
  then show ?case using Cons.IH [OF _ ok] Cons.prems(1) e(1) by fastforce
qed simp

lemma put_unenrolled_ok:
  "list_all machineIdSchema is \<Longrightarrow> entries_ok env selfId entries \<Longrightarrow> fst ` set entries \<inter> set quarantinedIds = {} \<Longrightarrow>
   \<exists>entries'. put_unenrolled quarantinedIds is entries = Some entries' \<and> entries_ok env selfId entries'
     \<and> machine_keys entries' \<subseteq> machine_keys entries \<and> fst ` set entries' \<inter> set quarantinedIds = {}"
proof (induction "is" arbitrary: entries)
  case (Cons i "is")
  show ?case
  proof (cases "map_of entries i = None \<and> i \<notin> set quarantinedIds")
    case True
    have ok: "entries_ok env selfId (jm_set i (UnenrolledEntry i) entries)"
      using Cons.prems(1) by (intro entries_set [OF Cons.prems(2)]) simp_all
    have "machine_keys (jm_set i (UnenrolledEntry i) entries) \<subseteq> machine_keys entries"
      using keys_set [of entries i "UnenrolledEntry i"] Cons.prems(2) by (auto simp: entries_ok_def)
    moreover have "fst ` set (jm_set i (UnenrolledEntry i) entries) \<inter> set quarantinedIds = {}"
      using Cons.prems(3) True by simp
    moreover have "put_unenrolled quarantinedIds (i # is) entries = put_unenrolled quarantinedIds is (jm_set i (UnenrolledEntry i) entries)"
      using Cons.prems(1) True by simp
    moreover have "list_all machineIdSchema is" using Cons.prems(1) by simp
    ultimately show ?thesis using Cons.IH [OF _ ok] by (metis order_trans)
  next
    case False
    have "put_unenrolled quarantinedIds (i # is) entries = put_unenrolled quarantinedIds is entries"
      using Cons.prems(1) False by auto
    then show ?thesis using Cons.IH [OF _ Cons.prems(2,3)] Cons.prems(1) by simp
  qed
qed simp

lemma pending_total: "fleet_ok env st \<Longrightarrow> \<exists>ps. pendingOperations env st = (st, Inr ps)"
proof -
  assume ok: "fleet_ok env st"
  let ?rs = "sort_by (\<lambda>a b. fe_index_le env (or_machine a) (or_machine b)) (fd_operations st)"
  have "\<forall>r \<in> set ?rs. \<exists>p. read_operation env r = Some p"
    using ok by (fastforce simp: fleet_ok_def journal_ok_def journal_row_ok_def read_operation_def)
  then have "map (read_operation env) ?rs = map Some (map (the \<circ> read_operation env) ?rs)" by auto
  then have "all_some (map (read_operation env) ?rs) = Some (map (the \<circ> read_operation env) ?rs)" by (simp only: all_some_iff)
  then show ?thesis by (simp add: pendingOperations_def fa_get_def)
qed

lemma operation_schema_fields: "fleetOperationSchema env p = Some q \<Longrightarrow> operation_fields env q"
  by (cases p) (auto simp: operation_fields_def split: option.splits if_splits)

lemma pending_fields:
  assumes "fleet_ok env st" "pendingOperations env st = (st', Inr ps)"
  shows "\<forall>p \<in> set ps. operation_fields env p" "op_machine ` set ps = or_machine ` set (fd_operations st)"
proof -
  note p = pending_operations_read [OF assms]
  have r: "\<exists>p. or_payload r = Held p \<and> fleetOperationSchema env p = Some p \<and> or_machine r = op_machine p" if "r \<in> set (fd_operations st)" for r
    using assms(1) that by (fastforce simp: fleet_ok_def journal_ok_def journal_row_ok_def)
  show "\<forall>p \<in> set ps. operation_fields env p" using p r operation_schema_fields by fastforce
  show "op_machine ` set ps = or_machine ` set (fd_operations st)" using p r by (force simp: image_iff)
qed

lemma map_filter_ids:
  assumes "\<forall>r \<in> set rows. qn_machineId (e r) = None \<or> qn_machineId (e r) = Some (fw_id r)"
  shows "set (List.map_filter qn_machineId (filter P (map e rows))) \<subseteq> fw_id ` set rows"
    "distinct (map fw_id rows) \<Longrightarrow> distinct (List.map_filter qn_machineId (filter P (map e rows)))"
proof -
  show sub: "set (List.map_filter qn_machineId (filter P (map e rows))) \<subseteq> fw_id ` set rows"
    using assms by (induction rows) (auto simp: List.map_filter_simps split: option.splits)
  show "distinct (map fw_id rows) \<Longrightarrow> distinct (List.map_filter qn_machineId (filter P (map e rows)))"
    using assms
  proof (induction rows)
    case (Cons r rs)
    have "set (List.map_filter qn_machineId (filter P (map e rs))) \<subseteq> fw_id ` set rs"
      using Cons.prems(2) by (induction rs) (auto simp: List.map_filter_simps split: option.splits)
    then show ?case using Cons by (auto simp: List.map_filter_simps split: option.splits)
  qed (simp add: List.map_filter_simps)
qed

lemma map_filter_set: "x \<in> set (List.map_filter f xs) \<longleftrightarrow> (\<exists>y \<in> set xs. f y = Some x)"
  by (induction xs) (auto simp: List.map_filter_simps split: option.splits)

lemma quarantined_entries_ok:
  assumes laws: "fleet_laws env" and ok: "fleet_ok env st"
  shows "\<exists>qs. quarantined_entries env st known = Some qs \<and> list_all (fleetQuarantinedEntrySchema env) qs
    \<and> distinct (map qn_id qs) \<and> distinct (List.map_filter qn_machineId qs)
    \<and> fst ` set known \<inter> set (List.map_filter qn_machineId qs) = {}"
proof -
  let ?rows = "sort_by (\<lambda>a b. fe_index_le env (the (fw_quarantineId a)) (the (fw_quarantineId b))) (filter (\<lambda>r. fw_quarantineId r \<noteq> None) (fd_machines st))"
  let ?e = "\<lambda>r. the (quarantinedEntry env r)"
  let ?P = "\<lambda>q. case qn_machineId q of None \<Rightarrow> True | Some m \<Rightarrow> map_of known m = None"
  have "r \<in> set ?rows \<Longrightarrow> mark_ok env (fd_uuids st) r" for r
    using ok by (auto simp: fleet_ok_def marks_ok_def marked_def)
  then have e: "quarantinedEntry env r = Some (?e r) \<and> qn_id (?e r) = the (fw_quarantineId r)
      \<and> qn_machineId (?e r) = (if machineIdSchema (fw_id r) then Some (fw_id r) else None)" if "r \<in> set ?rows" for r
    using mark_entry [OF laws] that by fastforce
  then have "map (quarantinedEntry env) ?rows = map Some (map ?e ?rows)" by simp
  then have qs: "quarantined_entries env st known = Some (filter ?P (map ?e ?rows))"
    unfolding quarantined_entries_def by (simp only: all_some_iff [THEN iffD2] option.map)
  have "fleetQuarantinedEntrySchema env q" if "quarantinedEntry env r = Some q" for r q
    using that by (auto simp: quarantinedEntry_def Let_def split: option.splits if_splits)
  then have schema: "list_all (fleetQuarantinedEntrySchema env) (filter ?P (map ?e ?rows))"
    using e by (fastforce simp: list_all_iff)
  have same: "filter (\<lambda>r. fw_quarantineId r \<noteq> None) (filter marked (fd_machines st)) = filter (\<lambda>r. fw_quarantineId r \<noteq> None) (fd_machines st)"
    by (auto simp: marked_def intro!: filter_cong)
  have "distinct (map fw_quarantineId (filter marked (fd_machines st)))" using ok by (simp add: fleet_ok_def marks_ok_def)
  from distinct_map_filter [OF this, of "\<lambda>r. fw_quarantineId r \<noteq> None"]
  have "distinct (map fw_quarantineId (filter (\<lambda>r. fw_quarantineId r \<noteq> None) (fd_machines st)))" unfolding same .
  then have marks: "distinct (map fw_quarantineId ?rows)" by simp
  have "map fw_quarantineId ?rows = map Some (map (qn_id \<circ> ?e) ?rows)" using e by auto
  from marks have "distinct (map Some (map (qn_id \<circ> ?e) ?rows))" unfolding \<open>map fw_quarantineId ?rows = _\<close> .
  then have "distinct (map (qn_id \<circ> ?e) ?rows)" by (simp only: distinct_map)
  then have "distinct (map qn_id (map ?e ?rows))" by simp
  then have ids: "distinct (map qn_id (filter ?P (map ?e ?rows)))" by (rule distinct_map_filter)
  have "distinct (map fw_id ?rows)" using ok by (simp add: fleet_ok_def distinct_map_filter)
  then have machines: "distinct (List.map_filter qn_machineId (filter ?P (map ?e ?rows)))"
    using e by (intro map_filter_ids) auto
  have "fst ` set known \<inter> set (List.map_filter qn_machineId (filter ?P (map ?e ?rows))) = {}"
    by (force simp: map_filter_set map_of_eq_None_iff split: option.splits)
  then show ?thesis using qs schema ids machines by blast
qed

section \<open>Properties\<close>

lemma sort_by_mset_map: "mset (map f (sort_by le xs)) = mset (map f xs)"
  by simp

lemma snapshot_parses:
  assumes e: "entries_ok env selfId entries" and q: "list_all (fleetQuarantinedEntrySchema env) qs" "distinct (map qn_id qs)"
      "distinct (List.map_filter qn_machineId qs)" "fst ` set entries \<inter> set (List.map_filter qn_machineId qs) = {}"
    and m: "card (machine_keys entries) \<le> maximumFleetMachines" and len: "length entries + length qs \<le> maximumFleetEntries"
  shows "fleetSnapshotSchema env \<lparr>fs_entries = map snd (sort_by le entries), fs_quarantined = (if qs = [] then None else Some qs)\<rparr>
    = Some \<lparr>fs_entries = map snd (sort_by le entries), fs_quarantined = (if qs = [] then None else Some qs)\<rparr>"
proof -
  let ?es = "map snd (sort_by le entries)"
  let ?s = "\<lparr>fs_entries = ?es, fs_quarantined = (if qs = [] then None else Some qs)\<rparr>"
  have pairs: "fleetEntryMachineId e = k \<and> fleetEntrySchema env e = Some e \<and> (is_self_entry e \<longrightarrow> k = selfId)" if "(k, e) \<in> set entries" for k e
    using assms(1) that by (auto simp: entries_ok_def)
  have "map (fleetEntrySchema env) ?es = map Some ?es" using pairs by auto
  then have parsed: "all_some (map (fleetEntrySchema env) ?es) = Some ?es" by (simp only: all_some_iff)
  have keys: "map fleetEntryMachineId ?es = map fst (sort_by le entries)" using pairs by auto
  have d: "distinct (map fst (sort_by le entries))" using assms(1) by (simp add: entries_ok_def jm_ok_def)
  have qs: "quarantined_of ?s = qs" by (simp add: quarantined_of_def)
  have "distinct (map fleetEntryMachineId (fs_entries ?s) @ List.map_filter qn_machineId (quarantined_of ?s))"
    using d q(3,4) unfolding qs fleet_snapshot.select_convs keys by simp
  moreover have "length (filter is_machine_entry ?es) \<le> maximumFleetMachines"
  proof -
    have "distinct (map fleetEntryMachineId (filter is_machine_entry ?es))" using d keys distinct_map_filter by metis
    then have "length (filter is_machine_entry ?es) = card (set (map fleetEntryMachineId (filter is_machine_entry ?es)))"
      by (metis distinct_card length_map)
    also have "\<dots> \<le> card (machine_keys entries)"
    proof (rule card_mono)
      show "finite (machine_keys entries)"
        by (rule finite_subset [of _ "fst ` set entries"]) (force simp: machine_keys_def)+
      show "set (map fleetEntryMachineId (filter is_machine_entry ?es)) \<subseteq> machine_keys entries"
      proof
        fix k
        assume "k \<in> set (map fleetEntryMachineId (filter is_machine_entry ?es))"
        then obtain j e where e: "(j, e) \<in> set entries" "is_machine_entry e" "k = fleetEntryMachineId e" by auto
        then obtain mm where "e = MachineEntry mm" by (cases e) auto
        moreover have "j = k" using pairs [OF e(1)] e(3) by simp
        ultimately show "k \<in> machine_keys entries" using e(1) by (auto simp: machine_keys_def)
      qed
    qed
    finally show ?thesis using m by simp
  qed
  moreover have "length (filter is_self_entry ?es) \<le> 1"
  proof -
    have "set (map fleetEntryMachineId (filter is_self_entry ?es)) \<subseteq> {selfId}" using pairs by fastforce
    moreover have "distinct (map fleetEntryMachineId (filter is_self_entry ?es))" using d keys distinct_map_filter by metis
    ultimately show ?thesis using card_mono [of "{selfId}"] by (metis card.empty card_insert_disjoint distinct_card finite.emptyI finite_insert length_map empty_iff One_nat_def)
  qed
  ultimately have "snapshot_refinement ?s"
    using len q(2) unfolding snapshot_refinement_def qs by simp
  moreover have "length ?es \<le> maximumFleetEntries" "length qs \<le> maximumFleetEntries" using len by simp_all
  ultimately show ?thesis
    using parsed q(1) unfolding fleetSnapshotSchema_def by (simp add: Let_def Suc_le_eq)
qed

text \<open>A snapshot whose scan went through, as far as its last check: the entries, and the quarantined rows.\<close>

lemma snapshot_parts:
  assumes laws: "fleet_laws env" and ok: "fleet_ok env st" and ids: "list_all machineIdSchema ids"
    and rows: "validRows env (\<lambda>_ _. True) selfId nowMs st = (st1, Inr rows)"
  obtains entries qs known where "entries_ok env selfId entries" "list_all (fleetQuarantinedEntrySchema env) qs" "distinct (map qn_id qs)"
    "distinct (List.map_filter qn_machineId qs)" "fst ` set entries \<inter> set (List.map_filter qn_machineId qs) = {}"
    "machine_keys entries \<subseteq> admitted st1"
    "quarantined_entries env st1 known = Some qs" "fst ` set known \<subseteq> live_ids st1 \<union> or_machine ` set (fd_operations st1)"
    "snapshot env selfId nowMs ids st = fleet_transaction (\<lambda>_.
       if length entries + length qs \<le> maximumFleetEntries
       then fa_parse (fleetSnapshotSchema env \<lparr>fs_entries = map snd (sort_by (self_first env selfId) entries),
            fs_quarantined = (if qs = [] then None else Some qs)\<rparr>) st1
       else (st1, Inl (FleetSnapshotOverflow (length entries + length qs)))) st"
proof -
  note v = valid_rows_ok [OF laws ok rows]
  then have ok1: "fleet_ok env st1" and fewer: "admitted st1 \<subseteq> admitted st" by blast+
  have live: "fw_id ` set rows = live_ids st1" using v scanned_live [of env selfId nowMs st st1] by simp
  have "\<forall>r \<in> set rows. \<exists>m. readMachine env r selfId nowMs = Inr m"
    using v by (auto simp: row_fault_def split: sum.splits)
  moreover have "entries_ok env selfId []" by (simp add: entries_ok_def jm_ok_def)
  ultimately obtain machines where ms: "put_machines env selfId nowMs rows [] = Some machines" "entries_ok env selfId machines"
      "machine_keys machines \<subseteq> fw_id ` set rows"
    using put_machines_ok [of rows env selfId nowMs "[]"] by (auto simp: machine_keys_def)
  obtain ps where ps: "pendingOperations env st1 = (st1, Inr ps)" using pending_total [OF ok1] by blast
  note fields = pending_fields [OF ok1 ps]
  obtain known where kn: "put_pending env ps machines = Some known" "entries_ok env selfId known"
      "machine_keys known \<subseteq> machine_keys machines - op_machine ` set ps"
    using put_pending_ok [OF fields(1) ms(2)] by blast
  have keys: "fst ` set known \<subseteq> live_ids st1 \<union> or_machine ` set (fd_operations st1)"
    using put_machines_keys [OF ms(1)] put_pending_keys [OF kn(1)] unfolding live fields(2) by auto
  obtain qs where qs: "quarantined_entries env st1 known = Some qs" "list_all (fleetQuarantinedEntrySchema env) qs"
      "distinct (map qn_id qs)" "distinct (List.map_filter qn_machineId qs)"
      "fst ` set known \<inter> set (List.map_filter qn_machineId qs) = {}"
    using quarantined_entries_ok [OF laws ok1] by blast
  obtain entries where en: "put_unenrolled (List.map_filter qn_machineId qs) ids known = Some entries" "entries_ok env selfId entries"
      "machine_keys entries \<subseteq> machine_keys known" "fst ` set entries \<inter> set (List.map_filter qn_machineId qs) = {}"
    using put_unenrolled_ok [OF ids kn(2) qs(5)] by blast
  have "machine_keys entries \<subseteq> fw_id ` set rows - op_machine ` set ps"
    using en(3) kn(3) ms(3) by (meson Diff_mono order_refl order_trans)
  then have "machine_keys entries \<subseteq> live_ids st1 - or_machine ` set (fd_operations st1)" unfolding live fields(2) .
  then have few: "machine_keys entries \<subseteq> admitted st1" by (auto simp: admitted_def machines_under_def)
  have "snapshot env selfId nowMs ids st = fleet_transaction (\<lambda>_.
       if length entries + length qs \<le> maximumFleetEntries
       then fa_parse (fleetSnapshotSchema env \<lparr>fs_entries = map snd (sort_by (self_first env selfId) entries),
            fs_quarantined = (if qs = [] then None else Some qs)\<rparr>) st1
       else (st1, Inl (FleetSnapshotOverflow (length entries + length qs)))) st"
    by (simp add: snapshot_def rows ms(1) ps kn(1) qs(1) en(1) fa_bind_def fa_return_def fa_throw_def fa_require_def
        fa_get_def fleet_transaction_def fa_parse_def [of "Some _"])
  then show ?thesis using that en(2,4) qs(1-4) few keys by blast
qed

lemma few_machines: "fleet_ok env st \<Longrightarrow> entries_keys \<subseteq> admitted st \<Longrightarrow> card entries_keys \<le> maximumFleetMachines"
  using card_mono [OF finite_admitted, of entries_keys st] by (simp add: fleet_ok_def)

lemma transaction_fails: "\<exists>st1. f st = (st1, Inl e) \<Longrightarrow> \<exists>n. fleet_transaction f st = (st\<lparr>fd_uuids := n\<rparr>, Inl e)"
  by (auto simp: fleet_transaction_def)

lemma rolled_back_fails: "f st = (st1, Inl e) \<Longrightarrow> fleet_transaction f st = (st\<lparr>fd_uuids := fd_uuids st1\<rparr>, Inl e)"
  by (simp add: fleet_transaction_def)

text \<open>Damage of the journal: the payload of an operation may no longer read.\<close>

definition damaged_operation :: "fleet_env \<Rightarrow> operation_row \<Rightarrow> operation_row \<Rightarrow> bool" where
  "damaged_operation env r r' \<longleftrightarrow> r' = r \<or> or_id r' = or_id r \<and> or_machine r' = or_machine r \<and> read_operation env r' = None"

definition journal_reads :: "fleet_env \<Rightarrow> fleet_db \<Rightarrow> bool" where
  "journal_reads env st \<longleftrightarrow> list_all (\<lambda>r. read_operation env r \<noteq> None) (fd_operations st)"

lemma undamaged: "list_all2 (damaged_operation env) rs rs' \<Longrightarrow> list_all (\<lambda>r. read_operation env r \<noteq> None) rs' \<Longrightarrow> rs' = rs"
  by (induction rule: list_all2_induct) (auto simp: damaged_operation_def)

lemma unread_fails: "\<not> journal_reads env st \<Longrightarrow> pendingOperations env st = (st, Inl FleetThrown)"
proof -
  assume "\<not> journal_reads env st"
  then obtain r where r: "r \<in> set (fd_operations st)" "read_operation env r = None" by (auto simp: journal_reads_def list_all_iff)
  let ?rs = "sort_by (\<lambda>a b. fe_index_le env (or_machine a) (or_machine b)) (fd_operations st)"
  have "None \<in> set (map (read_operation env) ?rs)" using r by force
  then have "all_some (map (read_operation env) ?rs) = None"
    by (metis all_some_iff list.set_map imageE not_None_eq option.distinct(1))
  then show ?thesis by (simp add: pendingOperations_def fa_get_def)
qed


text \<open>A snapshot that answers is made of what the registry holds after its scan.\<close>

lemma snapshot_shows:
  assumes laws: "fleet_laws env" and ok: "fleet_ok env st" and run: "snapshot env selfId nowMs ids st = (st1, Inr s)"
  shows "(\<forall>m. MachineEntry m \<in> set (fs_entries s) \<longrightarrow> ff_id (fm_facts m) \<in> admitted st1)
    \<and> (\<exists>known. quarantined_entries env st1 known = Some (quarantined_of s)
        \<and> fst ` set known \<subseteq> live_ids st1 \<union> or_machine ` set (fd_operations st1))"
proof -
  obtain rows where rows: "validRows env (\<lambda>_ _. True) selfId nowMs st = (st1, Inr rows)" using snapshot_run [OF run] by blast
  have ids: "list_all machineIdSchema ids" using run by (auto simp: snapshot_def fleet_run dest!: put_unenrolled_ids)
  have ok1: "fleet_ok env st1" using valid_rows_ok [OF laws ok rows] by blast
  from snapshot_parts [OF laws ok ids rows] obtain entries qs known where parts: "entries_ok env selfId entries"
      "list_all (fleetQuarantinedEntrySchema env) qs" "distinct (map qn_id qs)" "distinct (List.map_filter qn_machineId qs)"
      "fst ` set entries \<inter> set (List.map_filter qn_machineId qs) = {}"
    and keys: "machine_keys entries \<subseteq> admitted st1"
    and known: "quarantined_entries env st1 known = Some qs" "fst ` set known \<subseteq> live_ids st1 \<union> or_machine ` set (fd_operations st1)"
    and eq: "snapshot env selfId nowMs ids st = fleet_transaction (\<lambda>_.
       if length entries + length qs \<le> maximumFleetEntries
       then fa_parse (fleetSnapshotSchema env \<lparr>fs_entries = map snd (sort_by (self_first env selfId) entries),
            fs_quarantined = (if qs = [] then None else Some qs)\<rparr>) st1
       else (st1, Inl (FleetSnapshotOverflow (length entries + length qs)))) st" .
  have len: "length entries + length qs \<le> maximumFleetEntries"
    using run eq by (auto simp: fleet_run split: if_splits)
  have s: "s = \<lparr>fs_entries = map snd (sort_by (self_first env selfId) entries), fs_quarantined = (if qs = [] then None else Some qs)\<rparr>"
    using run eq len snapshot_parses [OF parts few_machines [OF ok1 keys] len] by (simp add: fleet_run)
  have "ff_id (fm_facts m) \<in> admitted st1" if "MachineEntry m \<in> set (fs_entries s)" for m
  proof -
    have "MachineEntry m \<in> snd ` set entries" using that unfolding s by simp
    then obtain k where k: "(k, MachineEntry m) \<in> set entries" by force
    then have "k = ff_id (fm_facts m)" using parts(1) by (force simp: entries_ok_def)
    then show ?thesis using k keys by (auto simp: machine_keys_def)
  qed
  moreover have "quarantined_of s = qs" by (simp add: s quarantined_of_def)
  ultimately show ?thesis using known by blast
qed


end
