(* ===== verification/Fleet_Quarantine.thy ===== *)
theory Fleet_Quarantine
  imports Fleet_Snapshot
begin

text \<open>
  What becomes of a damaged row: the first scan sets it aside with its columns as they are, no later
  call but a forget, a new enrolment or the daemon's own record of that machine lifts the mark, and
  while it is marked no answer is made from the row but that it is quarantined.
\<close>

section \<open>A marked row that no operation is about\<close>

definition set_aside :: "fleet_env \<Rightarrow> fleet_row \<Rightarrow> fleet_db \<Rightarrow> bool" where
  "set_aside env r st \<longleftrightarrow> fleet_ok env st \<and> r \<in> set (fd_machines st) \<and> marked r \<and> fw_id r \<notin> or_machine ` set (fd_operations st)"

lemma set_aside_uuid: "uuid_closed (set_aside env r)"
  using fleet_ok_uuid [of env] by (auto simp: uuid_closed_def set_aside_def)

text \<open>The calls about one machine that may replace its row.\<close>

fun touches :: "string \<Rightarrow> fleet_call \<Rightarrow> bool" where
  "touches m (CallRecord facts _ _) \<longleftrightarrow> ff_id facts = m"
| "touches m (CallStageEnrollment facts _ _ _ _) \<longleftrightarrow> ff_id facts = m"
| "touches m (CallStageForget machine _ _) \<longleftrightarrow> machine = m"
| "touches m (RowDamaged bad) \<longleftrightarrow> fw_id bad = m"
| "touches m _ \<longleftrightarrow> False"

lemma scanned_keeps:
  assumes "fleet_laws env" "set_aside env r st" "scanned env selfId nowMs rs st st'"
  shows "r \<in> set (fd_machines st')"
proof -
  obtain i where i: "i < length (fd_machines st)" "fd_machines st ! i = r" using assms(2) by (auto simp: set_aside_def in_set_conv_nth)
  then have "fd_machines st' ! i = r" using scanned_nth [OF assms(3) i(1)] assms(2) by (auto simp: set_aside_def)
  then show ?thesis using i scanned_length [OF assms(3)] by (metis nth_mem)
qed

lemma aside_valid_rows:
  assumes "fleet_laws env" "set_aside env r st" "validRows env P selfId nowMs st = (st', Inr rows)"
  shows "set_aside env r st'"
proof -
  have ok: "fleet_ok env st" using assms(2) by (simp add: set_aside_def)
  note v = valid_rows_ok [OF assms(1) ok assms(3)]
  then have "fd_operations st' = fd_operations st" by (simp add: scanned_def)
  moreover have "r \<in> set (fd_machines st')" by (rule scanned_keeps [OF assms(1,2)]) (use v in blast)
  ultimately show ?thesis using v assms(2) by (simp add: set_aside_def)
qed

lemma aside_space:
  assumes "fleet_laws env" "set_aside env r st" "requireSpace env clock m st = (st', Inr u)"
  shows "set_aside env r st'"
proof -
  have ok: "fleet_ok env st" using assms(2) by (simp add: set_aside_def)
  note v = require_space_ok [OF assms(1) ok assms(3)]
  have "r \<in> set (fd_machines st')" by (rule scanned_keeps [OF assms(1,2)]) (use v in blast)
  then show ?thesis using v assms(2) by (simp add: set_aside_def)
qed

lemma aside_write:
  assumes "set_aside env r st" "fleet_ok env st'" "writeMachine f t d st = (st', Inr u)" "ff_id f \<noteq> fw_id r"
  shows "set_aside env r st'"
proof -
  have "distinct (map fw_id (fd_machines st))" using assms(1) by (simp add: set_aside_def fleet_ok_def)
  then show ?thesis using assms upsert_set by (auto simp: set_aside_def writeMachine_def fleet_run)
qed

lemma aside_current:
  assumes "set_aside env r st" "q \<in> set (fd_machines st)" "\<not> marked q"
  shows "fw_id q \<noteq> fw_id r"
  using assms by (auto simp: set_aside_def fleet_ok_def distinct_map inj_on_def)

lemma aside_call:
  assumes "fleet_laws env" "set_aside env r st" "\<And>A. fa_keeps (fleet_in env A) f" "f st = (st', Inr a)"
    and "r \<in> set (fd_machines st')" "fw_id r \<notin> or_machine ` set (fd_operations st')"
  shows "set_aside env r st'"
  using fa_keepsD [OF assms(3) [of UNIV], of st] assms by (simp add: set_aside_def fleet_in_def)

lemma aside_ok: "set_aside env r st \<Longrightarrow> fleet_in env UNIV st"
  by (simp add: set_aside_def fleet_in_def)

text \<open>An operation found in the journal is about another machine.\<close>

lemma aside_operation:
  assumes "\<And>A. fa_keeps (fleet_in env A) (fleet_transaction (fa_bind (operation_of env i) h))" "\<And>p. advances (h p)"
    and "\<And>st st' b p q. set_aside env r st \<Longrightarrow> q \<in> set (fd_operations st) \<Longrightarrow> or_payload q = Held p \<Longrightarrow> or_machine q = op_machine p \<Longrightarrow>
      op_machine p \<noteq> fw_id r \<Longrightarrow> fleetOperationSchema env p = Some p \<Longrightarrow> h (Some p) st = (st', Inr b) \<Longrightarrow>
      r \<in> set (fd_machines st') \<and> or_machine ` set (fd_operations st') \<subseteq> or_machine ` set (fd_operations st)"
    and "\<And>st. h None st = (st, Inr False)"
  shows "fa_keeps (set_aside env r) (fleet_transaction (fa_bind (operation_of env i) h))"
proof (rule keeps_transaction [OF set_aside_uuid])
  show "advances (fa_bind (operation_of env i) h)" using assms(2) by (auto intro!: advances_intros)
next
  fix st st' b
  assume aside: "set_aside env r st" and run: "fa_bind (operation_of env i) h st = (st', Inr b)"
  then obtain pending st0 where p: "operation_of env i st = (st0, Inr pending)" and h: "h pending st0 = (st', Inr b)"
    by (auto simp: fleet_run)
  have ok: "fleet_ok env st" using aside by (simp add: set_aside_def)
  have "fleet_transaction (fa_bind (operation_of env i) h) st = (st', Inr b)" using run by (simp add: fleet_run)
  then have ok': "fleet_ok env st'" using fa_keepsD [OF assms(1) [of UNIV] aside_ok [OF aside]] by (simp add: fleet_in_def)
  show "set_aside env r st'"
  proof (cases pending)
    case None
    then show ?thesis using aside h operation_of_same [OF p] assms(4) by simp
  next
    case (Some q)
    note found = operation_found [OF ok p [unfolded Some]]
    then obtain o' where o': "o' \<in> set (fd_operations st)" "or_payload o' = Held q" "or_machine o' = op_machine q" by blast
    then have "op_machine q \<noteq> fw_id r" using aside by (force simp: set_aside_def)
    then have "r \<in> set (fd_machines st') \<and> or_machine ` set (fd_operations st') \<subseteq> or_machine ` set (fd_operations st)"
      using assms(3) [OF aside o'] found h Some by blast
    then show ?thesis using aside ok' by (auto simp: set_aside_def)
  qed
qed

lemma delete_machines: "deleteOperation i st = (st', Inr u) \<Longrightarrow>
    fd_machines st' = fd_machines st \<and> or_machine ` set (fd_operations st') \<subseteq> or_machine ` set (fd_operations st)"
  by (auto simp: deleteOperation_def fleet_run)

lemma aside_complete: "fa_keeps (set_aside env r) (completeEnrollment env i digest)"
  unfolding completeEnrollment_def
proof (rule aside_operation [OF keeps_complete_enrollment [unfolded completeEnrollment_def]], goal_cases)
  case (1 p)
  show ?case by (auto intro!: advances_intros split: option.split fleet_operation.split)
next
  case (2 st st' b p q)
  show ?case
  proof (cases "\<exists>j m t f c. p = EnrollOperation j m t f digest c")
    case True
    then obtain j m t f c where p: "p = EnrollOperation j m t f digest c" by blast
    then obtain seen st1 where w: "writeMachine f seen (Some digest) st = (st1, Inr ())" and d: "deleteOperation i st1 = (st', Inr ())"
      using 2(7) by (auto simp: fleet_run)
    have "ff_id f \<noteq> fw_id r" using 2(5,6) p by (auto split: option.splits if_splits)
    moreover have "distinct (map fw_id (fd_machines st))" using 2(1) by (simp add: set_aside_def fleet_ok_def)
    ultimately show ?thesis
      using w delete_machines [OF d] 2(1) upsert_set by (auto simp: writeMachine_def fleet_run set_aside_def)
  next
    case False
    then show ?thesis using 2(1,7) by (auto simp: fleet_run set_aside_def split: fleet_operation.splits if_splits)
  qed
next
  case (3 st)
  show ?case by (simp add: fa_return_def)
qed

lemma aside_abort: "fa_keeps (set_aside env r) (abortEnrollment env i)"
  unfolding abortEnrollment_def
proof (rule aside_operation [OF keeps_abort [unfolded abortEnrollment_def]], goal_cases)
  case (1 p)
  show ?case by (auto intro!: advances_intros split: option.split fleet_operation.split)
next
  case (2 st st' b p q)
  then show ?case by (cases p) (auto simp: fleet_run set_health_def deleteOperation_def set_aside_def image_iff)
next
  case (3 st)
  show ?case by (simp add: fa_return_def)
qed

lemma aside_confirm: "fa_keeps (set_aside env r) (confirmRemoteRevocation env i)"
  unfolding confirmRemoteRevocation_def
proof (rule aside_operation [OF keeps_confirm [unfolded confirmRemoteRevocation_def]], goal_cases)
  case (1 p)
  show ?case by (auto intro!: advances_intros split: option.split fleet_operation.split)
next
  case (2 st st' b p q)
  then show ?case by (cases p) (auto simp: fleet_run set_aside_def)
next
  case (3 st)
  show ?case by (simp add: fa_return_def)
qed

lemma aside_complete_forget: "fa_keeps (set_aside env r) (completeForget env i)"
  unfolding completeForget_def
proof (rule aside_operation [OF keeps_complete_forget [unfolded completeForget_def]], goal_cases)
  case (1 p)
  show ?case by (auto intro!: advances_intros split: option.split fleet_operation.split)
next
  case (2 st st' b p q)
  then show ?case by (cases p) (auto simp: fleet_run deleteOperation_def set_aside_def)
next
  case (3 st)
  show ?case by (simp add: fa_return_def)
qed

lemma aside_refresh: "fa_keeps (set_aside env r) (refreshAuthenticated env facts digest nowMs)"
  unfolding refreshAuthenticated_def
proof (rule keeps_parse_bind, rule keeps_transaction [OF set_aside_uuid], goal_cases)
  case (1 m)
  show ?case by (auto intro!: advances_intros)
next
  case (2 m st st' a)
  have ok: "fleet_ok env st" using 2 by (simp add: set_aside_def)
  show ?case
  proof (cases "list_ex (current_row st (ff_id m) digest) (fd_machines st)")
    case True
    then obtain q where "q \<in> set (fd_machines st)" "\<not> marked q" "fw_id q = ff_id m" by (auto simp: list_ex_iff current_row_def)
    then have "ff_id m \<noteq> fw_id r" using aside_current [OF 2(2)] by metis
    moreover obtain u where w: "writeMachine m nowMs (Some digest) st = (st', Inr u)" using 2(3) True by (auto simp: fleet_run)
    ultimately show ?thesis using aside_write [OF 2(2) _ w] write_machine_ok [OF ok _ w] current_admitted [OF True] by blast
  next
    case False
    then show ?thesis using 2(2,3) by (auto simp: fleet_run)
  qed
qed

lemma aside_failure: "fa_keeps (set_aside env r) (recordFailure env machine digest failure)"
  unfolding fa_keeps_def
proof (intro allI impI)
  fix st
  assume aside: "set_aside env r st"
  show "set_aside env r (fst (recordFailure env machine digest failure st))"
  proof (cases "fleetConnectionFailureSchema failure")
    case None
    then show ?thesis using aside by (simp add: recordFailure_def fa_bind_def fa_parse_def fa_throw_def)
  next
    case (Some health)
    let ?st' = "fst (recordFailure env machine digest failure st)"
    have "fleet_ok env ?st'" using fa_keepsD [OF keeps_failure [of env UNIV] aside_ok [OF aside]] by (simp add: fleet_in_def)
    moreover have "?st' = st\<lparr>fd_machines := map (\<lambda>q. if current_row st machine digest q then q\<lparr>fw_health := Some (health_text health)\<rparr> else q) (fd_machines st)\<rparr>"
      using Some by (simp add: recordFailure_def fa_bind_def fa_parse_def fa_return_def fa_get_def set_health_def fa_put_def)
    moreover have "\<not> current_row st machine digest r" using aside by (simp add: set_aside_def current_row_def)
    ultimately show ?thesis using aside by (auto simp: set_aside_def image_iff)
  qed
qed

lemma aside_stage:
  assumes "fleet_laws env" "fleetOperationSchema env p = Some p" "op_machine p \<noteq> fw_id r"
  shows "fa_keeps (set_aside env r) (stage_operation env clock p)"
  unfolding stage_operation_def
proof (rule keeps_transaction [OF set_aside_uuid], goal_cases)
  case 1
  show ?case by (auto intro!: advances_intros)
next
  case (2 st st' u)
  have run: "stage_operation env clock p st = (st', Inr u)" using 2(2) by (simp add: stage_operation_def fleet_run)
  then obtain st1 where space: "(if is_enroll p then requireSpace env clock (op_machine p) else fa_return ()) st = (st1, Inr ())"
    and st': "st' = st1\<lparr>fd_operations := fd_operations st1 @ [\<lparr>or_id = op_id p, or_machine = op_machine p, or_payload = Held p\<rparr>]\<rparr>"
    by (auto simp: stage_operation_def fleet_run)
  have "set_aside env r st1" using space 2(1) aside_space [OF assms(1) 2(1)] by (auto simp: fleet_run split: if_splits)
  moreover have "fleet_ok env st'" using stage_ok [OF assms(1,2) _ run] 2(1) by (simp add: set_aside_def)
  ultimately show ?case using assms(3) by (auto simp: set_aside_def st')
qed

lemma aside_stage_calls:
  assumes "fleet_laws env"
  shows "ff_id facts \<noteq> fw_id r \<Longrightarrow> fa_keeps (set_aside env r) (stageEnrollment env facts digest nowMs claim clock)"
    "machine \<noteq> fw_id r \<Longrightarrow> fa_keeps (set_aside env r) (stageForget env machine credential nowMs)"
  unfolding stageEnrollment_def stageForget_def
  by (intro keeps_bind [OF keeps_uuid [OF set_aside_uuid]] keeps_parse_bind keeps_bind [OF aside_stage] keeps_simple assms;
      (assumption | erule operation_idem [THEN conjunct1] | drule operation_idem, simp))+

lemma aside_record: "fleet_laws env \<Longrightarrow> ff_id facts \<noteq> fw_id r \<Longrightarrow> fa_keeps (set_aside env r) (record_machine env facts nowMs clock)"
  unfolding record_machine_def
proof (rule keeps_parse_bind, rule keeps_transaction [OF set_aside_uuid])
  fix m st st' u
  assume laws: "fleet_laws env" and other: "ff_id facts \<noteq> fw_id r" and m: "durableFacts env facts = Some m" and aside: "set_aside env r st"
    and "fa_bind (requireSpace env clock (ff_id m)) (\<lambda>_. writeMachine m nowMs None) st = (st', Inr u)"
  then obtain st1 v where s: "requireSpace env clock (ff_id m) st = (st1, Inr v)" and w: "writeMachine m nowMs None st1 = (st', Inr u)"
    by (auto simp: fleet_run)
  have "fleet_ok env st1 \<and> (ff_id m \<in> admitted st1 \<or> card (admitted st1) < maximumFleetMachines)"
    using require_space_ok [OF laws _ s] aside by (simp add: set_aside_def)
  then have "fleet_ok env st'" using write_machine_ok [OF _ _ w] by blast
  then show "set_aside env r st'" using aside_write [OF aside_space [OF laws aside s] _ w] durable_ok [OF m] other by simp
qed (auto intro!: advances_intros)

lemma aside_scan_call: "fleet_laws env \<Longrightarrow> fa_keeps (set_aside env r) (fleet_transaction (validRows env P selfId nowMs))"
  using set_aside_uuid by (rule keeps_transaction) (auto intro: advances_intros dest: aside_valid_rows)

lemma aside_readers:
  assumes "fleet_laws env"
  shows "fa_keeps (set_aside env r) (lookupMachine env machine selfId nowMs)" "fa_keeps (set_aside env r) (enrolled env clock)"
    "fa_keeps (set_aside env r) (pendingForgetEnrollment env i clock)"
proof -
  show "fa_keeps (set_aside env r) (lookupMachine env machine selfId nowMs)"
    unfolding lookupMachine_def by (intro keeps_bind aside_scan_call assms) (simp split: list.split add: keeps_simple)
  show "fa_keeps (set_aside env r) (enrolled env clock)"
    unfolding enrolled_def by (intro keeps_bind aside_scan_call assms keeps_simple)
  show "fa_keeps (set_aside env r) (pendingForgetEnrollment env i clock)"
    unfolding pendingForgetEnrollment_def
    by (intro keeps_bind keeps_operation_of)
      (auto split: option.split fleet_operation.split list.split intro!: keeps_bind aside_scan_call assms keeps_simple)
qed

lemma aside_snapshot: "fleet_laws env \<Longrightarrow> fa_keeps (set_aside env r) (snapshot env selfId nowMs ids)"
proof -
  assume laws: "fleet_laws env"
  define f where "f = snapshot env selfId nowMs ids"
  have "fa_keeps (set_aside env r) (fleet_transaction f)"
    unfolding f_def
  proof (rule keeps_transaction [OF set_aside_uuid advances_snapshot])
    fix st st' s
    assume "set_aside env r st" "snapshot env selfId nowMs ids st = (st', Inr s)"
    then show "set_aside env r st'" using snapshot_run aside_valid_rows [OF laws] by blast
  qed
  moreover have "fleet_transaction f = f" by (rule ext) (simp add: f_def snapshot_def fleet_transaction_def split: prod.splits sum.splits)
  ultimately show ?thesis by (simp add: f_def)
qed

lemma aside_damage: "set_aside env r st \<Longrightarrow> fw_id bad \<noteq> fw_id r \<Longrightarrow> set_aside env r (damage bad st)"
  using damage_ok [of env st bad] by (auto simp: set_aside_def damage_def image_iff)

lemmas aside_calls = aside_record aside_stage_calls aside_complete aside_abort aside_confirm aside_complete_forget aside_refresh
  aside_failure aside_readers aside_snapshot

lemma aside_step: "fleet_laws env \<Longrightarrow> set_aside env r st \<Longrightarrow> \<not> touches (fw_id r) call \<Longrightarrow> set_aside env r (fleet_step env call st)"
  by (cases call) (simp_all add: aside_calls [THEN fa_keepsD] aside_damage)

interpretation aside: machine_stable "step_unless env (touches (fw_id r))" "\<lambda>st. fleet_laws env \<and> fleet_ok env st" "set_aside env r" for env r
  by unfold_locales (auto simp: step_unless_def step_ok aside_step)

section \<open>Properties\<close>

lemma snapshot_marks:
  assumes laws: "fleet_laws env" and ok: "fleet_ok env st" and r: "r \<in> set (fd_machines st)" "row_fault env selfId nowMs r = Some reason"
    and run: "snapshot env selfId nowMs ids st = (st', Inr s)"
  shows "fleet_ok env st' \<and> fd_operations st' = fd_operations st \<and> (\<exists>i t. mark_row i t reason r \<in> set (fd_machines st'))"
proof -
  obtain rows where "validRows env (\<lambda>_ _. True) selfId nowMs st = (st', Inr rows)" using snapshot_run [OF run] by blast
  note v = valid_rows_ok [OF laws ok this]
  then have s: "scanned env selfId nowMs {r \<in> set (fd_machines st). True} st st'" by blast
  obtain i where i: "i < length (fd_machines st)" "fd_machines st ! i = r" using r(1) by (auto simp: in_set_conv_nth)
  then obtain u t where "fd_machines st' ! i = mark_row u t reason r" using scanned_nth [OF s i(1)] r by auto
  then have "mark_row u t reason r \<in> set (fd_machines st')" using i(1) scanned_length [OF s] by (metis nth_mem)
  then show ?thesis using v by (auto simp: scanned_def)
qed

text \<open>What a registry answers while a marked row is set aside.\<close>

lemma aside_out:
  assumes "set_aside env r st"
  shows "fw_id r \<notin> live_ids st" "fw_id r \<notin> admitted st"
proof -
  show "fw_id r \<notin> live_ids st" using aside_current [OF assms] by (force simp: live_ids_def)
  then show "fw_id r \<notin> admitted st" using assms by (auto simp: admitted_def machines_under_def set_aside_def)
qed

lemma aside_no_failure: "set_aside env r st \<Longrightarrow> snd (recordFailure env (fw_id r) digest failure st) \<noteq> Inr True"
  using aside_current [of env r st]
  by (cases "fleetConnectionFailureSchema failure")
    (auto simp: recordFailure_def fa_bind_def fa_parse_def fa_throw_def fa_return_def fa_get_def set_health_def fa_put_def list_ex_iff current_row_def)

lemma aside_no_forget_enrollment:
  assumes laws: "fleet_laws env" and aside: "set_aside env r st" and run: "pendingForgetEnrollment env i clock st = (st', Inr (Some e))"
  shows "ff_id (em_facts e) \<noteq> fw_id r"
proof -
  obtain st0 p where p: "operation_of env i st = (st0, Inr p)" using run by (auto simp: pendingForgetEnrollment_def fleet_run)
  then have st0: "st0 = st" by (simp add: operation_of_same)
  obtain j machine u digest b where "p = Some (ForgetOperation j machine u (Some digest) b)"
    using run p unfolding pendingForgetEnrollment_def st0 by (auto simp: fleet_run split: option.splits fleet_operation.splits)
  then have "fa_bind (fleet_transaction (validRows env (\<lambda>_ r. fw_id r = machine \<and> fw_credential r = Some digest) [] clock)) (\<lambda>rows.
      case rows of [] \<Rightarrow> fa_return None
      | r # _ \<Rightarrow> fa_parse (case readFacts env r of Inr f \<Rightarrow> Some (Some \<lparr>em_facts = f, em_digest = digest\<rparr>) | Inl _ \<Rightarrow> None)) st = (st', Inr (Some e))"
    using run p unfolding pendingForgetEnrollment_def st0 fa_bind_Inr [where f = "operation_of env i"] by auto
  then obtain st2 found where rows: "validRows env (\<lambda>_ r. fw_id r = machine \<and> fw_credential r = Some digest) [] clock st = (st2, Inr found)"
    and first: "(case found of [] \<Rightarrow> fa_return None
      | r # _ \<Rightarrow> fa_parse (case readFacts env r of Inr f \<Rightarrow> Some (Some \<lparr>em_facts = f, em_digest = digest\<rparr>) | Inl _ \<Rightarrow> None)) st2 = (st', Inr (Some e))"
    unfolding fa_bind_Inr transaction_Inr by blast
  then obtain q qs where "found = q # qs" and e: "readFacts env q = Inr (em_facts e)"
    by (cases found; cases "readFacts env (hd found)") (auto simp: fleet_run)
  have ok: "fleet_ok env st" using aside by (simp add: set_aside_def)
  have "q \<in> set (fd_machines st)" "\<not> marked q" using valid_rows_ok [OF laws ok rows] \<open>found = q # qs\<close> by auto
  then show ?thesis using aside_current [OF aside] read_facts_id [OF e] by metis
qed

lemma aside_shown:
  assumes laws: "fleet_laws env" and aside: "set_aside env r st" and known: "quarantined_entries env st known = Some qs"
    "fst ` set known \<subseteq> live_ids st \<union> or_machine ` set (fd_operations st)"
  shows "\<exists>q \<in> set qs. quarantinedEntry env r = Some q"
proof -
  let ?rows = "sort_by (\<lambda>a b. fe_index_le env (the (fw_quarantineId a)) (the (fw_quarantineId b))) (filter (\<lambda>r. fw_quarantineId r \<noteq> None) (fd_machines st))"
  have mark: "mark_ok env (fd_uuids st) r" using aside by (auto simp: set_aside_def fleet_ok_def marks_ok_def)
  obtain q where q: "quarantinedEntry env r = Some q" "qn_machineId q = (if machineIdSchema (fw_id r) then Some (fw_id r) else None)"
    using mark_entry [OF laws mark] by blast
  have "fw_quarantineId r \<noteq> None" using mark by (auto simp: mark_ok_def)
  then have r: "r \<in> set ?rows" using aside by (simp add: set_aside_def)
  obtain ys where ys: "map (quarantinedEntry env) ?rows = map Some ys"
    "qs = filter (\<lambda>q. case qn_machineId q of None \<Rightarrow> True | Some m \<Rightarrow> map_of known m = None) ys"
    using known(1) by (auto simp: quarantined_entries_def all_some_iff)
  have "quarantinedEntry env r \<in> set (map (quarantinedEntry env) ?rows)" using imageI [OF r] by (simp only: list.set_map)
  then have "q \<in> set ys" unfolding ys(1) q(1) by auto
  moreover have "map_of known (fw_id r) = None"
    using known(2) aside_out(1) [OF aside] aside by (auto simp: map_of_eq_None_iff set_aside_def)
  ultimately show ?thesis using q ys(2) by auto
qed

lemma aside_in_snapshot:
  assumes laws: "fleet_laws env" and ok: "fleet_ok env st" and run: "snapshot env selfId nowMs ids st = (st', Inr s)"
    and aside: "set_aside env r st'"
  shows "(\<forall>m. MachineEntry m \<in> set (fs_entries s) \<longrightarrow> ff_id (fm_facts m) \<noteq> fw_id r)
    \<and> (\<exists>q \<in> set (quarantined_of s). quarantinedEntry env r = Some q)"
proof
  note snap = snapshot_shows [OF laws ok run]
  show "\<forall>m. MachineEntry m \<in> set (fs_entries s) \<longrightarrow> ff_id (fm_facts m) \<noteq> fw_id r"
    using conjunct1 [OF snap] aside_out(2) [OF aside] by metis
  obtain known where "quarantined_entries env st' known = Some (quarantined_of s)"
    "fst ` set known \<subseteq> live_ids st' \<union> or_machine ` set (fd_operations st')" using conjunct2 [OF snap] by blast
  then show "\<exists>q \<in> set (quarantined_of s). quarantinedEntry env r = Some q" by (rule aside_shown [OF laws aside])
qed

text \<open>
  C19. A damaged row is set aside, not lost and not trusted. After the first snapshot that answers,
  the row carries a mark, all its other columns are as they were, and no sequence of calls (scans,
  heartbeats, failures, operations on other machines) changes it, as long as no operation about
  its machine was unfinished, the machine is not forgotten, enrolled or recorded anew, and the row
  is not damaged again. All this while it is shown as quarantined, in that snapshot and in every
  later one, and is out of every other answer: not among the machines of a snapshot, not looked up,
  not among the enrolled, not the enrolment a forget finishes, and neither a contact nor a failure
  is recorded for it.
\<close>

theorem damaged_row_is_set_aside:
  assumes laws: "fleet_laws env" and st: "st = fold (fleet_step env) before_calls new_fleet"
    and r: "r \<in> set (fd_machines st)" "\<not> marked r" "readMachine env r selfId nowMs = Inl reason" "\<not> has_operation st (fw_id r)"
    and shown: "snapshot env selfId nowMs ids st = (st1, Inr s)"
    and calls: "list_all (\<lambda>c. \<not> touches (fw_id r) c) calls" and st': "st' = fold (fleet_step env) calls st1"
  shows "\<exists>i t. mark_row i t reason r \<in> set (fd_machines st')
    \<and> (\<forall>m. MachineEntry m \<in> set (fs_entries s) \<longrightarrow> ff_id (fm_facts m) \<noteq> fw_id r)
    \<and> (\<exists>q \<in> set (quarantined_of s). qn_id q = i \<and> qn_reason q = reason \<and> qn_detectedAt q = t)
    \<and> (\<forall>selfId' t' ids' s'. snd (snapshot env selfId' t' ids' st') = Inr s' \<longrightarrow>
          (\<forall>m. MachineEntry m \<in> set (fs_entries s') \<longrightarrow> ff_id (fm_facts m) \<noteq> fw_id r)
          \<and> (\<exists>q \<in> set (quarantined_of s'). qn_id q = i \<and> qn_reason q = reason \<and> qn_detectedAt q = t))
    \<and> (\<forall>selfId' t' m. snd (lookupMachine env (fw_id r) selfId' t' st') \<noteq> Inr (Some m))
    \<and> (\<forall>t' es. snd (enrolled env t' st') = Inr es \<longrightarrow> fw_id r \<notin> set (map (ff_id \<circ> em_facts) es))
    \<and> (\<forall>j t' e. snd (pendingForgetEnrollment env j t' st') = Inr (Some e) \<longrightarrow> ff_id (em_facts e) \<noteq> fw_id r)
    \<and> (\<forall>facts digest t'. ff_id facts = fw_id r \<longrightarrow> snd (refreshAuthenticated env facts digest t' st') \<noteq> Inr True)
    \<and> (\<forall>digest failure. snd (recordFailure env (fw_id r) digest failure st') \<noteq> Inr True)"
proof -
  have ok: "fleet_ok env st" using reachable_ok [OF laws] by (simp add: st)
  have "row_fault env selfId nowMs r = Some reason" using r(2,3) by (simp add: row_fault_def)
  from snapshot_marks [OF laws ok r(1) this shown] obtain i t where m: "fleet_ok env st1" "fd_operations st1 = fd_operations st"
    "mark_row i t reason r \<in> set (fd_machines st1)" by blast
  let ?r = "mark_row i t reason r"
  have aside1: "set_aside env ?r st1" using m r(4) by (auto simp: set_aside_def has_operation_def list_ex_iff)
  then have aside: "set_aside env ?r st'" and ok': "fleet_ok env st'"
    using aside.stable_run [of env st1 ?r calls] aside.inv_run [of env st1 ?r calls] m(1) laws calls
    unfolding st' by (simp_all add: run_unless)
  have later: "set_aside env ?r (fst (snapshot env selfId' t' ids' st'))" for selfId' t' ids'
    using aside_snapshot [OF laws] aside by (simp add: fa_keeps_def)
  have entry: "qn_id q = i \<and> qn_reason q = reason \<and> qn_detectedAt q = t" if "quarantinedEntry env ?r = Some q" for q
  proof -
    have "find (\<lambda>q. reason_text q = reason_text reason) [InvalidJson, InvalidFacts] = Some reason"
      by (cases reason) (simp_all add: js_def)
    then show ?thesis using that by (auto simp: quarantinedEntry_def Let_def simp del: find.simps split: if_splits)
  qed
  note out = aside_out(2) [OF aside, unfolded mark_row_simps]
  have "(\<forall>m. MachineEntry m \<in> set (fs_entries s) \<longrightarrow> ff_id (fm_facts m) \<noteq> fw_id r)
      \<and> (\<exists>q \<in> set (quarantined_of s). qn_id q = i \<and> qn_reason q = reason \<and> qn_detectedAt q = t)"
    using aside_in_snapshot [OF laws ok shown aside1] entry by fastforce
  moreover have "(\<forall>m. MachineEntry m \<in> set (fs_entries s') \<longrightarrow> ff_id (fm_facts m) \<noteq> fw_id r)
      \<and> (\<exists>q \<in> set (quarantined_of s'). qn_id q = i \<and> qn_reason q = reason \<and> qn_detectedAt q = t)"
    if "snd (snapshot env selfId' t' ids' st') = Inr s'" for selfId' t' ids' s'
  proof -
    have "snapshot env selfId' t' ids' st' = (fst (snapshot env selfId' t' ids' st'), Inr s')" using that by (metis prod.collapse)
    from aside_in_snapshot [OF laws ok' this later] show ?thesis using entry by fastforce
  qed
  moreover have "snd (lookupMachine env (fw_id r) selfId' t' st') \<noteq> Inr (Some x)" for selfId' t' x
    using lookup_admitted [OF laws ok', of "fw_id r" selfId' t'] out by (metis prod.collapse)
  moreover have "fw_id r \<notin> set (map (ff_id \<circ> em_facts) es)" if "snd (enrolled env t' st') = Inr es" for t' es
  proof -
    have "enrolled env t' st' = (fst (enrolled env t' st'), Inr es)" using that by (metis prod.collapse)
    then show ?thesis using enrolled_admitted [OF laws ok'] out by auto
  qed
  moreover have "ff_id (em_facts e) \<noteq> fw_id r" if "snd (pendingForgetEnrollment env j t' st') = Inr (Some e)" for j t' e
  proof -
    have "pendingForgetEnrollment env j t' st' = (fst (pendingForgetEnrollment env j t' st'), Inr (Some e))" using that by (metis prod.collapse)
    from aside_no_forget_enrollment [OF laws aside this] show ?thesis by simp
  qed
  moreover have "snd (refreshAuthenticated env facts digest t' st') \<noteq> Inr True" if "ff_id facts = fw_id r" for facts digest t'
    using refresh_admitted [of env facts digest t' st'] out that by (metis prod.collapse)
  moreover have "snd (recordFailure env (fw_id r) digest failure st') \<noteq> Inr True" for digest failure
    using aside_no_failure [OF aside] by simp
  moreover have "?r \<in> set (fd_machines st')" using aside by (simp add: set_aside_def)
  ultimately show ?thesis by blast
qed

section \<open>Witnesses\<close>

definition sample_facts :: fleet_facts where
  "sample_facts = \<lparr>ff_id = sample_machine, ff_label = [97], ff_platform = [97], ff_arch = [97], ff_version = [97], ff_capabilities = [],
     ff_protocolVersion = ''0.8.0'', ff_transports = [], ff_wsl = None, ff_connection = LocalConnection, ff_verifiedRoute = None\<rparr>"

definition sample_bad :: fleet_row where
  "sample_bad = (new_row sample_facts 0 None)\<lparr>fw_capabilities := BadJson\<rparr>"

lemma sample_durable: "durableFacts sample_fleet sample_facts = Some sample_facts"
  by (simp add: durableFacts_def fleetMachineFactsSchema_def fleetMachineFactsObject_def sample_facts_def trimmed_text_def js_trim_def
      js_whitespace_def optional_def sample_machine_id protocolVersionSchema_def canonical_number_def digit_unit_def refineObservedFacts_def
      refineDescriptor_def fact_endpoints_def bounded_redaction_def sample_fleet_def)

lemma sample_damaged:
  "fold (fleet_step sample_fleet) [CallRecord sample_facts 0 0, RowDamaged sample_bad] new_fleet = new_fleet\<lparr>fd_machines := [sample_bad]\<rparr>"
proof -
  have "requireSpace sample_fleet 0 sample_machine new_fleet = (new_fleet, Inr ())"
    by (simp add: requireSpace_def fleet_run pendingOperations_def validRows_def new_fleet_def sort_by_def maximumFleetMachines_def)
  then have "record_machine sample_fleet sample_facts 0 0 new_fleet = (new_fleet\<lparr>fd_machines := [new_row sample_facts 0 None]\<rparr>, Inr ())"
    by (simp add: record_machine_def fleet_run sample_durable writeMachine_def) (simp add: sample_facts_def new_fleet_def)
  then show ?thesis by (simp add: damage_def sample_bad_def new_fleet_def new_row_def)
qed

lemma sample_bad_simps: "fw_id sample_bad = sample_machine" "\<not> marked sample_bad"
    "readMachine sample_fleet sample_bad [] 0 = Inl InvalidJson"
  by (simp_all add: sample_bad_def new_row_def sample_facts_def marked_def readMachine_def safe_integer_def readFacts_def Let_def)

lemma sample_shown: "\<exists>st1 s. snapshot sample_fleet [] 0 [] (new_fleet\<lparr>fd_machines := [sample_bad]\<rparr>) = (st1, Inr s)"
proof -
  let ?r = "mark_row [] [] InvalidJson sample_bad"
  let ?st1 = "new_fleet\<lparr>fd_machines := [?r], fd_audit := [\<lparr>qa_target = [], qa_reason = InvalidJson, qa_occurredAt = []\<rparr>], fd_uuids := 1\<rparr>"
  have "row_fault sample_fleet [] 0 sample_bad = Some InvalidJson" using sample_bad_simps(2,3) by (simp add: row_fault_def)
  then have rows: "validRows sample_fleet (\<lambda>_ _. True) [] 0 (new_fleet\<lparr>fd_machines := [sample_bad]\<rparr>) = (?st1, Inr [])"
    by (simp add: validRows_def sort_by_def fleet_run quarantine_row_def append_audit_def iso_date_def date_range_def) (simp add: new_fleet_def sample_fleet_def)
  let ?q = "\<lparr>qn_id = [], qn_machineId = Some sample_machine, qn_reason = InvalidJson, qn_detectedAt = [], qn_recoverable = True\<rparr>"
  have entry: "quarantinedEntry sample_fleet ?r = Some ?q"
    by (simp add: quarantinedEntry_def sample_bad_simps(1) sample_machine_id fleetQuarantinedEntrySchema_def Let_def) (simp add: sample_fleet_def)
  have known: "quarantined_entries sample_fleet ?st1 [] = Some [?q]"
    by (simp add: quarantined_entries_def sort_by_def entry)
  have ps: "pendingOperations sample_fleet ?st1 = (?st1, Inr [])"
    by (simp add: pendingOperations_def fleet_run sort_by_def new_fleet_def)
  have "fleetSnapshotSchema sample_fleet \<lparr>fs_entries = [], fs_quarantined = Some [?q]\<rparr> = Some \<lparr>fs_entries = [], fs_quarantined = Some [?q]\<rparr>"
    by (simp add: fleetSnapshotSchema_def snapshot_refinement_def quarantined_of_def fleetQuarantinedEntrySchema_def sample_machine_id
        maximumFleetEntries_def List.map_filter_simps Let_def) (simp add: sample_fleet_def)
  then have "snapshot sample_fleet [] 0 [] (new_fleet\<lparr>fd_machines := [sample_bad]\<rparr>) = (?st1, Inr \<lparr>fs_entries = [], fs_quarantined = Some [?q]\<rparr>)"
    using rows ps known by (simp add: snapshot_def fleet_run sort_by_def maximumFleetEntries_def)
  then show ?thesis by blast
qed

theorem damaged_row_is_set_aside_witness:
  "\<exists>st1 s i t. snapshot sample_fleet [] 0 [] (new_fleet\<lparr>fd_machines := [sample_bad]\<rparr>) = (st1, Inr s)
     \<and> mark_row i t InvalidJson sample_bad \<in> set (fd_machines (fold (fleet_step sample_fleet) [CallEnrolled 0] st1))
     \<and> (\<exists>q \<in> set (quarantined_of s). qn_id q = i \<and> qn_reason q = InvalidJson)"
proof -
  let ?st = "new_fleet\<lparr>fd_machines := [sample_bad]\<rparr>"
  obtain st1 s where shown: "snapshot sample_fleet [] 0 [] ?st = (st1, Inr s)" using sample_shown by blast
  have r: "sample_bad \<in> set (fd_machines ?st)" "\<not> has_operation ?st (fw_id sample_bad)"
    by (simp_all add: has_operation_def new_fleet_def)
  have others: "list_all (\<lambda>c. \<not> touches (fw_id sample_bad) c) [CallEnrolled 0]" by simp
  from damaged_row_is_set_aside [OF sample_fleet_laws sample_damaged [symmetric] r(1) sample_bad_simps(2,3) r(2) shown others refl]
  obtain i t where "mark_row i t InvalidJson sample_bad \<in> set (fd_machines (fold (fleet_step sample_fleet) [CallEnrolled 0] st1))"
    "\<exists>q \<in> set (quarantined_of s). qn_id q = i \<and> qn_reason q = InvalidJson \<and> qn_detectedAt q = t" by (elim exE conjE)
  then show ?thesis using shown by blast
qed

end
