(* ===== verification/Spec2Isabelle.thy ===== *)
theory Spec2Isabelle
  imports Terminal_Replay Pairing_Admission Pairing_Codes Resource_Queue Transfer_Receive
    Transfer_Staging Working_Plan Emergency_Stop Rpc_Outbound Update_Activation
    Terminal_Reader Execution_Request Fleet_Quarantine Fleet_Snapshot
begin

text \<open>
  Domovoi runs coding agents on a person's machines. A daemon on each machine (apps/daemon) owns
  the sessions: it starts agent processes, keeps their threads, plans, approvals and terminals,
  and answers JSON-RPC over WebSockets. Clients (apps/web, apps/mobile, apps/desktop, apps/cli,
  all on packages/ui) pair with a daemon and drive it; daemons pair with each other and move
  sessions between machines; packages/protocol holds the schemas of everything on the wire. This
  library models the parts of the daemon that decide who may connect, what is kept when the
  daemon stops half way, and in which order things happen.

  \<^bold>\<open>Shared ground.\<close> \<open>Domovoi_Prelude\<close>: strings as UTF-16 code units, UTF-8 lengths, results that are
  an error or a value, the insertion-ordered Map (locale \<open>keyed_store\<close>), and the locales
  \<open>machine_invariant\<close> and \<open>machine_stable\<close> through which every component turns a fact about one
  step into a fact about every run. \<open>Identifiers\<close>: the id, credential, digest and base64 schemas
  of packages/protocol/src (identifiers.ts, devices.ts, relay-admission.ts).

  \<^bold>\<open>Who may connect.\<close> \<open>Device_Registry\<close> (device-registry.ts): the SQLite tables of paired devices and
  pending claims as lists of rows, every statement and migration as an operation; credentials
  are unique, at most one live credential per machine, a claim grants nothing until confirmed
  within five minutes, revocation is permanent, and opening an older database revokes what it
  cannot bind. \<open>Pairing_Codes\<close> (pairing-codes.ts, pairing-issuer.ts): the one open code, its
  attempts and expiry, and the issuer slot with its timers; a code is accepted once, and what it
  mints is what was shown. \<open>Pairing_Admission\<close> (pairing-admission.ts): the sliding-window limiter.

  \<^bold>\<open>Order.\<close> \<open>Resource_Queue\<close> (resource-mutation-queue.ts): promises as numbered executions with the
  event loop choosing the next step; conflicting executions never overlap, some execution can
  always go on, cancelled ones never start. \<open>Rpc_Outbound\<close> (rpc-outbound.ts, rpc-writer.ts): what
  the daemon writes to a client, with its resync markers and timers; the buffer is bounded, a
  client that missed a notification is repaid or closed, and a client that does not drain is
  closed after a bounded number of its own polls, whatever is sent or notified between them.

  \<^bold>\<open>Moving sessions.\<close> \<open>Transfer_Manifest\<close> (transfer-transaction.ts, transfer-stream.ts,
  transfer-coverage.ts, session-transfer-package.ts): manifests, chunks and canonical JSON.
  \<open>Transfer_Journal\<close> (transfer-transactions.ts): the journal directory as data, every method of
  \<open>FileTransferTransactions\<close>; a completed member has its declared length and digest, a committed
  transfer is final. \<open>Transfer_Receive\<close>: the leases around receiving and the write loop.
  \<open>Transfer_Staging\<close> (session-transfer-source.ts): staging a package, chunk by chunk, into the
  journal delivers exactly the package. Sending the staged package to the target is not modelled.

  \<^bold>\<open>Plans.\<close> \<open>Plan_Schema\<close> (schema.ts, rpc.ts), \<open>Plan_Merge\<close> and \<open>Working_Plan\<close> (working-plan.ts): the
  working plan a person and an agent both edit; provider reports keep the plan valid and in
  order, edits are applied, queued or refused as documented, approval blocks undo exactly.

  \<^bold>\<open>Stopping and updating.\<close> \<open>Json_Fields\<close> (\<open>readFields\<close> of emergency-stop-intents.ts): the texts
  \<open>JSON.parse\<close> accepts and the scanner that keeps every value of a repeated key; on such a text it
  always returns, and it reads back what \<open>JSON.stringify\<close> wrote. \<open>Emergency_Stop\<close>
  (emergency-stop-intents.ts): the journal of emergency stops; recovery loses no stop, reads a
  written stop back whole, clears exactly what a round finished and ends when all is read.
  \<open>Update_Activation\<close> (update-activation.ts, update-state.ts): the crash-safe switch to a new
  runtime, as a state and error monad over an abstract world; whatever fails, the journal accounts
  for the active runtime, and a recovery in which nothing fails restores the previous runtime and
  closes the journal.

  \<^bold>\<open>Approvals.\<close> \<open>Shell_Command\<close> (\<open>parseCommand\<close>, \<open>packageInvocation\<close> of execution-resolution.ts): the
  scanner of command lines, proved equivalent to a grammar. \<open>Execution_Record\<close> (execution.ts,
  \<open>resolveShell\<close> of execution-resolution.ts): the record of what a command runs, package scripts
  expanded, and its digest; the record is what the manifest says, and a digest names one record.
  \<open>Json_Text\<close>: the text of a JSON value can be read in one way only. \<open>Posix_Path\<close> and \<open>Followed_Path\<close>
  (followed-path.ts): the walk that follows links as the file system does, with the bound of forty
  links, to a place without a link in it unless a lookup on the way failed. \<open>Execution_Request\<close> (\<open>resolveExecution\<close>): the directory, the manifest and the file of a
  request; the record of an edit names the one file inside the worktree the edit reaches.

  \<^bold>\<open>Terminals.\<close> \<open>Terminal_Replay\<close> (terminal-replay.ts): the replay buffer refines "the last bytes of
  the output". \<open>Terminal_Reader\<close> (apps/mobile/src/terminal-line-model.ts): the parser of control
  sequences with which the phone follows a terminal it does not draw; reading piece by piece
  loses nothing, and a record cut at the front still reads as the terminal read it.

  \<^bold>\<open>The fleet.\<close> \<open>Fleet_Schema\<close> (fleet.ts, fleet-health.ts, transport.ts, protocol-version.ts of the
  protocol, fleet-operations.ts): the facts a machine reports, the endpoints that may be dialled,
  health, snapshots and journaled operations. \<open>Fleet_Registry\<close> (fleet-registry.ts): the tables of
  machines and of unfinished operations, every method a step that may throw and is then rolled
  back. \<open>Fleet_Lifecycle\<close>, \<open>Fleet_Quarantine\<close> and \<open>Fleet_Snapshot\<close> hold what follows for any sequence of
  calls with rows damaged on disk in between: no more machines than the limit, a machine that is
  forgotten stays forgotten, a damaged row is set aside, kept, and left out of every answer. A
  snapshot is given unless there are too many entries, which is what it then says, or an
  operation on disk cannot be read, or the audit log refuses the record of a quarantine: damage
  of machine rows alone never refuses it. The audit log is a list; whether an append to it
  succeeds is a parameter, and a failed one rolls the quarantine back.

  \<^bold>\<open>Parameters.\<close> Code that is not in the repository is an argument: SHA-256 and random bytes, the
  clock, the schema library's UUID, URL, date and length checks, the \<open>URL\<close> and \<open>Date\<close> classes, the order of
  \<open>localeCompare\<close> and of a database index, the value of a JSON numeral and the message of a JSON syntax error, for a
  package manifest the whole JSON reader, the file system a path is followed on, whether the
  audit log takes a record, the WebSocket package, and the fence of an activation, whose interface has no implementation here. Each
  theorem that relies on one names what it relies on as a hypothesis and has a witness with a
  concrete instance. The redaction of durable text (secret-redaction.ts) is an argument of the
  plan, execution and fleet theories, which hold for every redaction. Three hypotheses idealise: the
  file name of a member, a digest, is one-to-one (\<open>collision_free\<close>), the UUIDs a daemon draws are
  all different (\<open>fleet_laws\<close>), and damage of a machine's row (\<open>damage\<close>) spares its identity and its
  quarantine marks, since a cleared mark is what an offline repair leaves.

  \<^bold>\<open>Loops.\<close> Every loop of the modelled code is a total function: recursion on the rows, chunks or
  bytes still to do. The write loop takes the number of bytes as fuel, which
  \<open>Transfer_Receive.write_all_bytes\<close> shows to be enough when each write makes progress. The JSON
  scanner takes twice the length of the text and two (\<open>json_fuel\<close>), which
  \<open>Json_Fields.readFields_returns\<close> shows to be enough on every text \<open>JSON.parse\<close> accepts.

  \<^bold>\<open>Not modelled.\<close> The React clients and their view state; the adapters that speak to agent
  processes and the process supervision around them (I/O with programs outside the repository);
  Git operations on worktrees (workspace.ts runs the git binary); the HTTP and WebSocket server
  that dispatches requests to these components; the regular expressions of the secret redaction
  and of the permission policy; service installers, packaging and scripts; the relay's Noise
  handshake (a library). Of the fleet: the key store and the network calls around the registry
  (fleet-enrollment.ts), and the tables' migration.
\<close>

end
